(* ===== verification/Prelude.thy ===== *)
theory Prelude
  imports Main "HOL-Library.List_Lexorder" "HOL-Library.Char_ord"
begin

text \<open>
  What every component shares: the types of identifiers and of effects, the combinators the
  translated code is written with, and lemmas on lists and maps.

  \<^item> \<open>id\<close>: an identifier. The code carries ids as strings (a uuid's text), compares them with
    \<open>===\<close> and \<open><\<close>, and never looks inside; here an id is a \<open>string\<close>, ordered lexicographically.
  \<^item> \<open>'e + 'a\<close>: a call that throws (\<open>Inl\<close>) or returns (\<open>Inr\<close>).
  \<^item> \<open>('w, 'e, 'a) eff\<close>: a call that also changes the world \<open>'w\<close>. An exception does not undo
    the changes made before it, exactly as in the code, so the state is returned in both cases.
\<close>

type_synonym id = string

type_synonym ('w, 'e, 'a) eff = "'w \<Rightarrow> ('e + 'a) \<times> 'w"

named_theorems eff_simps

section \<open>Calls that may throw\<close>

fun bindE :: "'e + 'a \<Rightarrow> ('a \<Rightarrow> 'e + 'b) \<Rightarrow> 'e + 'b" where
  "bindE (Inl e) f = Inl e"
| "bindE (Inr a) f = f a"

lemma bindE_Inr_iff [eff_simps]: "bindE m f = Inr b \<longleftrightarrow> (\<exists>a. m = Inr a \<and> f a = Inr b)"
  by (cases m) auto

lemma bindE_Inl_iff [eff_simps]:
  "bindE m f = Inl e \<longleftrightarrow> m = Inl e \<or> (\<exists>a. m = Inr a \<and> f a = Inl e)"
  by (cases m) auto

fun mapE :: "('a \<Rightarrow> 'e + 'b) \<Rightarrow> 'a list \<Rightarrow> 'e + 'b list" where
  "mapE f [] = Inr []"
| "mapE f (x # xs) = bindE (f x) (\<lambda>y. bindE (mapE f xs) (\<lambda>ys. Inr (y # ys)))"

lemma mapE_Inr_iff:
  "mapE f xs = Inr ys \<longleftrightarrow> list_all2 (\<lambda>x y. f x = Inr y) xs ys"
  by (induction xs arbitrary: ys) (auto simp: bindE_Inr_iff list_all2_Cons1)

section \<open>Calls that change the world\<close>

definition ret :: "'a \<Rightarrow> ('w, 'e, 'a) eff" where
  "ret a w = (Inr a, w)"

definition raise :: "'e \<Rightarrow> ('w, 'e, 'a) eff" where
  "raise e w = (Inl e, w)"

definition seqE :: "('w, 'e, 'a) eff \<Rightarrow> ('a \<Rightarrow> ('w, 'e, 'b) eff) \<Rightarrow> ('w, 'e, 'b) eff" where
  "seqE m k w = (case m w of (Inl e, w') \<Rightarrow> (Inl e, w') | (Inr a, w') \<Rightarrow> k a w')"

definition catchE :: "('w, 'e, 'a) eff \<Rightarrow> ('e \<Rightarrow> ('w, 'e, 'a) eff) \<Rightarrow> ('w, 'e, 'a) eff" where
  "catchE m h w = (case m w of (Inl e, w') \<Rightarrow> h e w' | (Inr a, w') \<Rightarrow> (Inr a, w'))"

definition getsE :: "('w \<Rightarrow> 'a) \<Rightarrow> ('w, 'e, 'a) eff" where
  "getsE f w = (Inr (f w), w)"

definition modifyE :: "('w \<Rightarrow> 'w) \<Rightarrow> ('w, 'e, unit) eff" where
  "modifyE f w = (Inr (), f w)"

definition liftE :: "'e + 'a \<Rightarrow> ('w, 'e, 'a) eff" where
  "liftE r w = (r, w)"

definition guardE :: "bool \<Rightarrow> 'e \<Rightarrow> ('w, 'e, unit) eff" where
  "guardE b e w = (if b then (Inr (), w) else (Inl e, w))"

lemma ret_apply [simp, eff_simps]: "ret a w = (Inr a, w)"
  by (simp add: ret_def)

lemma raise_apply [simp, eff_simps]: "raise e w = (Inl e, w)"
  by (simp add: raise_def)

lemma getsE_apply [simp, eff_simps]: "getsE f w = (Inr (f w), w)"
  by (simp add: getsE_def)

lemma modifyE_apply [simp, eff_simps]: "modifyE f w = (Inr (), f w)"
  by (simp add: modifyE_def)

lemma liftE_apply [simp, eff_simps]: "liftE r w = (r, w)"
  by (simp add: liftE_def)

lemma seqE_Inr [simp]: "m w = (Inr a, w') \<Longrightarrow> seqE m k w = k a w'"
  by (simp add: seqE_def)

lemma seqE_Inl [simp]: "m w = (Inl e, w') \<Longrightarrow> seqE m k w = (Inl e, w')"
  by (simp add: seqE_def)

lemma catchE_Inr [simp]: "m w = (Inr a, w') \<Longrightarrow> catchE m h w = (Inr a, w')"
  by (simp add: catchE_def)

lemma catchE_Inl [simp]: "m w = (Inl e, w') \<Longrightarrow> catchE m h w = h e w'"
  by (simp add: catchE_def)

lemma seqE_eq_Inr:
  "seqE m k w = (Inr b, w') \<longleftrightarrow> (\<exists>a u. m w = (Inr a, u) \<and> k a u = (Inr b, w'))"
  by (auto simp: seqE_def split: prod.splits sum.splits)

lemma seqE_eq_Inl:
  "seqE m k w = (Inl e, w') \<longleftrightarrow>
     m w = (Inl e, w') \<or> (\<exists>a u. m w = (Inr a, u) \<and> k a u = (Inl e, w'))"
  by (auto simp: seqE_def split: prod.splits sum.splits)

lemma guardE_seq [simp]: "seqE (guardE b e) k w = (if b then k () w else (Inl e, w))"
  by (simp add: guardE_def seqE_def)

lemma gets_seq [simp]: "seqE (getsE f) k w = k (f w) w"
  by (simp add: seqE_def)

lemma modify_seq [simp]: "seqE (modifyE f) k w = k () (f w)"
  by (simp add: seqE_def)

section \<open>Triples\<close>

text \<open>From \<open>P\<close>, a call that returns \<open>a\<close> ends in \<open>Q a\<close>, one that throws \<open>e\<close> ends in \<open>E e\<close>.\<close>

definition hoare ::
  "('w \<Rightarrow> bool) \<Rightarrow> ('w, 'e, 'a) eff \<Rightarrow> ('a \<Rightarrow> 'w \<Rightarrow> bool) \<Rightarrow> ('e \<Rightarrow> 'w \<Rightarrow> bool) \<Rightarrow> bool" where
  "hoare P m Q E \<longleftrightarrow>
     (\<forall>w. P w \<longrightarrow> (case m w of (Inr a, w') \<Rightarrow> Q a w' | (Inl e, w') \<Rightarrow> E e w'))"

lemma hoareI:
  "(\<And>w a w'. P w \<Longrightarrow> m w = (Inr a, w') \<Longrightarrow> Q a w') \<Longrightarrow>
   (\<And>w e w'. P w \<Longrightarrow> m w = (Inl e, w') \<Longrightarrow> E e w') \<Longrightarrow> hoare P m Q E"
  by (auto simp: hoare_def split: prod.splits sum.splits)

lemma hoare_Inr: "hoare P m Q E \<Longrightarrow> P w \<Longrightarrow> m w = (Inr a, w') \<Longrightarrow> Q a w'"
  by (fastforce simp: hoare_def)

lemma hoare_Inl: "hoare P m Q E \<Longrightarrow> P w \<Longrightarrow> m w = (Inl e, w') \<Longrightarrow> E e w'"
  by (fastforce simp: hoare_def)

lemma hoare_seq:
  assumes "hoare P m Q E" and "\<And>a. hoare (Q a) (k a) R E"
  shows "hoare P (seqE m k) R E"
proof (rule hoareI)
  fix w b w' assume P: "P w" and "seqE m k w = (Inr b, w')"
  then obtain a u where "m w = (Inr a, u)" "k a u = (Inr b, w')"
    by (auto simp: seqE_eq_Inr)
  then show "R b w'"
    using hoare_Inr [OF assms(1) P] hoare_Inr [OF assms(2)] by blast
next
  fix w e w' assume P: "P w" and "seqE m k w = (Inl e, w')"
  then consider "m w = (Inl e, w')" | a u where "m w = (Inr a, u)" "k a u = (Inl e, w')"
    by (auto simp: seqE_eq_Inl)
  then show "E e w'"
    using hoare_Inl [OF assms(1) P] hoare_Inr [OF assms(1) P] hoare_Inl [OF assms(2)]
    by cases blast+
qed

lemma hoare_catch:
  assumes "hoare P m Q F" and "\<And>e. hoare (F e) (h e) Q E"
  shows "hoare P (catchE m h) Q E"
proof (rule hoareI)
  fix w b w' assume P: "P w" and *: "catchE m h w = (Inr b, w')"
  consider "m w = (Inr b, w')" | e u where "m w = (Inl e, u)" "h e u = (Inr b, w')"
    using * by (auto simp: catchE_def split: prod.splits sum.splits)
  then show "Q b w'"
    using hoare_Inr [OF assms(1) P] hoare_Inl [OF assms(1) P] hoare_Inr [OF assms(2)]
    by cases blast+
next
  fix w e w' assume P: "P w" and *: "catchE m h w = (Inl e, w')"
  obtain e' u where "m w = (Inl e', u)" "h e' u = (Inl e, w')"
    using * by (auto simp: catchE_def split: prod.splits sum.splits)
  then show "E e w'"
    using hoare_Inl [OF assms(1) P] hoare_Inl [OF assms(2)] by blast
qed

lemma hoare_conseq:
  assumes "hoare P' m Q' E'" and "\<And>w. P w \<Longrightarrow> P' w" and "\<And>a w. Q' a w \<Longrightarrow> Q a w"
    and "\<And>e w. E' e w \<Longrightarrow> E e w"
  shows "hoare P m Q E"
proof (rule hoareI)
  show "Q a w'" if "P w" "m w = (Inr a, w')" for w a w'
    using hoare_Inr [OF assms(1)] assms(2,3) that by blast
  show "E e w'" if "P w" "m w = (Inl e, w')" for w e w'
    using hoare_Inl [OF assms(1)] assms(2,4) that by blast
qed

lemma hoare_ret: "(\<And>w. P w \<Longrightarrow> Q a w) \<Longrightarrow> hoare P (ret a) Q E"
  by (simp add: hoare_def)

lemma hoare_raise: "(\<And>w. P w \<Longrightarrow> E e w) \<Longrightarrow> hoare P (raise e) Q E"
  by (simp add: hoare_def)

lemma hoare_guard:
  "(\<And>w. P w \<Longrightarrow> b \<Longrightarrow> Q () w) \<Longrightarrow> (\<And>w. P w \<Longrightarrow> \<not> b \<Longrightarrow> E e w) \<Longrightarrow> hoare P (guardE b e) Q E"
  by (simp add: hoare_def guardE_def)

lemma hoare_lift:
  "(\<And>w a. P w \<Longrightarrow> r = Inr a \<Longrightarrow> Q a w) \<Longrightarrow> (\<And>w e. P w \<Longrightarrow> r = Inl e \<Longrightarrow> E e w) \<Longrightarrow> hoare P (liftE r) Q E"
  by (cases r) (simp_all add: hoare_def)

lemma hoare_if:
  "(b \<Longrightarrow> hoare P m Q E) \<Longrightarrow> (\<not> b \<Longrightarrow> hoare P n Q E) \<Longrightarrow> hoare P (if b then m else n) Q E"
  by simp

lemma hoare_false: "(\<And>w. \<not> P w) \<Longrightarrow> hoare P m Q E"
  by (simp add: hoare_def)

section \<open>Lists and maps\<close>

text \<open>The insertion order of a JavaScript \<open>Set\<close>: the first occurrence of each element.\<close>

fun dedupe :: "'a list \<Rightarrow> 'a list" where
  "dedupe [] = []"
| "dedupe (x # xs) = x # dedupe (filter (\<lambda>y. y \<noteq> x) xs)"

lemma set_dedupe [simp]: "set (dedupe xs) = set xs"
  by (induction xs rule: dedupe.induct) auto

lemma distinct_dedupe [simp]: "distinct (dedupe xs)"
  by (induction xs rule: dedupe.induct) auto

lemma dedupe_distinct: "distinct xs \<Longrightarrow> dedupe xs = xs"
  by (induction xs rule: dedupe.induct) (auto simp: filter_id_conv)

text \<open>An insertion-ordered \<open>Map\<close>: an association list, \<open>set\<close> keeps the place of a known key.\<close>

fun alist_set :: "'k \<Rightarrow> 'v \<Rightarrow> ('k \<times> 'v) list \<Rightarrow> ('k \<times> 'v) list" where
  "alist_set k v [] = [(k, v)]"
| "alist_set k v ((k', v') # m) = (if k = k' then (k, v) # m else (k', v') # alist_set k v m)"

lemma map_of_alist_set [simp]: "map_of (alist_set k v m) = (map_of m)(k \<mapsto> v)"
  by (induction k v m rule: alist_set.induct) auto

lemma fst_alist_set:
  "map fst (alist_set k v m) = (if k \<in> set (map fst m) then map fst m else map fst m @ [k])"
  by (induction k v m rule: alist_set.induct) auto

lemma find_append:
  "List.find P (xs @ ys) = (case List.find P xs of None \<Rightarrow> List.find P ys | Some x \<Rightarrow> Some x)"
  by (induction xs) auto

lemma find_eq_Some_ex: "List.find P xs = Some x \<Longrightarrow> x \<in> set xs \<and> P x"
  by (induction xs) (auto split: if_splits)

lemma filter_list_find: "List.find P xs = (case filter P xs of [] \<Rightarrow> None | x # _ \<Rightarrow> Some x)"
  by (induction xs) auto

lemma set_map_filter: "set (List.map_filter f xs) = {y. \<exists>x \<in> set xs. f x = Some y}"
  by (induction xs) (auto simp: List.map_filter_simps split: option.splits)

lemma map_filter_append: "List.map_filter f (xs @ ys) = List.map_filter f xs @ List.map_filter f ys"
  by (simp add: List.map_filter_def)

end
