(* ===== verification/Permissions.thy ===== *)
theory Permissions
  imports Prelude
begin

text \<open>
  \<open>packages/authz/src/permissions.ts\<close>: the permission vocabulary and the shapes the resolver
  walks over. A permission is a constructor of \<open>Permission\<close>; the string the code writes for it is
  \<open>permission_name\<close>. A JavaScript \<open>Set<Permission>\<close> is only ever asked for membership or put in
  canonical order, so it is a \<open>Permission set\<close> here.
\<close>

section \<open>The vocabulary\<close>

datatype Permission =
  PList | PRead | PDownload | PCreate | PModify | PMove | PDelete | PShare | PManage | PVersions
  | PAudit

definition PERMISSIONS :: "Permission list" where
  "PERMISSIONS =
     [PList, PRead, PDownload, PCreate, PModify, PMove, PDelete, PShare, PManage, PVersions, PAudit]"

fun permission_name :: "Permission \<Rightarrow> string" where
  "permission_name PList = ''list''"
| "permission_name PRead = ''read''"
| "permission_name PDownload = ''download''"
| "permission_name PCreate = ''create''"
| "permission_name PModify = ''modify''"
| "permission_name PMove = ''move''"
| "permission_name PDelete = ''delete''"
| "permission_name PShare = ''share''"
| "permission_name PManage = ''manage''"
| "permission_name PVersions = ''versions''"
| "permission_name PAudit = ''audit''"

definition isPermission :: "string \<Rightarrow> bool" where
  "isPermission value = (value \<in> set (map permission_name PERMISSIONS))"

text \<open>\<open>filter(isPermission)\<close>, with the narrowing the type guard gives its result.\<close>

definition parsePermission :: "string \<Rightarrow> Permission option" where
  "parsePermission value = List.find (\<lambda>p. permission_name p = value) PERMISSIONS"

section \<open>Principals, grants, nodes, subjects\<close>

datatype Principal = User id | Team id

record Grant =
  principal :: Principal
  permissions :: "Permission list"

record AclNode =
  acl_id :: id
  parentId :: "id option"
  grants :: "Grant list"

record Subject =
  userId :: id
  teamIds :: "id list"

definition principalsOf :: "Subject \<Rightarrow> Principal list" where
  "principalsOf subject = User (userId subject) # map Team (teamIds subject)"

fun samePrincipal :: "Principal \<Rightarrow> Principal \<Rightarrow> bool" where
  "samePrincipal (User a) (User b) = (a = b)"
| "samePrincipal (Team a) (Team b) = (a = b)"
| "samePrincipal (User a) (Team b) = False"
| "samePrincipal (Team a) (User b) = False"

definition sortPermissions :: "Permission set \<Rightarrow> Permission list" where
  "sortPermissions present = filter (\<lambda>permission. permission \<in> present) PERMISSIONS"

section \<open>The canonical order as a type class instance\<close>

fun permission_rank :: "Permission \<Rightarrow> nat" where
  "permission_rank PList = 0"
| "permission_rank PRead = 1"
| "permission_rank PDownload = 2"
| "permission_rank PCreate = 3"
| "permission_rank PModify = 4"
| "permission_rank PMove = 5"
| "permission_rank PDelete = 6"
| "permission_rank PShare = 7"
| "permission_rank PManage = 8"
| "permission_rank PVersions = 9"
| "permission_rank PAudit = 10"

lemma permission_rank_inject [simp]: "permission_rank a = permission_rank b \<longleftrightarrow> a = b"
  by (cases a; cases b) simp_all

instantiation Permission :: linorder
begin

definition less_eq_Permission :: "Permission \<Rightarrow> Permission \<Rightarrow> bool" where
  "less_eq_Permission a b \<longleftrightarrow> permission_rank a \<le> permission_rank b"

definition less_Permission :: "Permission \<Rightarrow> Permission \<Rightarrow> bool" where
  "less_Permission a b \<longleftrightarrow> permission_rank a < permission_rank b"

instance
  by standard (auto simp: less_eq_Permission_def less_Permission_def)

end

lemma set_PERMISSIONS [simp]: "set PERMISSIONS = UNIV"
proof -
  have "p \<in> set PERMISSIONS" for p
    by (cases p) (simp_all add: PERMISSIONS_def)
  then show ?thesis by blast
qed

lemma finite_Permission [simp]: "finite (S :: Permission set)"
  using finite_set [of PERMISSIONS] by (auto intro: finite_subset)

lemma sorted_distinct_PERMISSIONS: "sorted PERMISSIONS \<and> distinct PERMISSIONS"
  by (simp add: PERMISSIONS_def less_eq_Permission_def)

lemma set_sortPermissions [simp]: "set (sortPermissions S) = S"
  by (auto simp: sortPermissions_def)

lemma sortPermissions_empty [simp]: "sortPermissions {} = []"
  by (simp add: sortPermissions_def)

lemma sortPermissions_UNIV [simp]: "sortPermissions UNIV = PERMISSIONS"
  by (simp add: sortPermissions_def)

lemma sorted_sortPermissions: "sorted (sortPermissions S) \<and> distinct (sortPermissions S)"
  unfolding sortPermissions_def
  using sorted_distinct_PERMISSIONS by (simp add: sorted_wrt_filter)

lemma samePrincipal_iff [simp]: "samePrincipal a b \<longleftrightarrow> a = b"
  by (cases a; cases b) simp_all

lemma permission_name_inject [simp]: "permission_name a = permission_name b \<longleftrightarrow> a = b"
  by (cases a; cases b) simp_all

lemma parsePermission_name [simp]: "parsePermission (permission_name p) = Some p"
  by (cases p) (simp_all add: parsePermission_def PERMISSIONS_def)

lemma parsePermission_Some_iff: "parsePermission v = Some p \<longleftrightarrow> v = permission_name p"
proof
  assume "parsePermission v = Some p"
  then show "v = permission_name p"
    by (auto simp: parsePermission_def dest: find_eq_Some_ex)
qed simp

text \<open>C1. The string vocabulary and the enum are in bijection: a string passes \<open>isPermission\<close>
  exactly when it parses, it parses to the one permission whose name it is, and \<open>sortPermissions\<close>
  is the canonical array of any set: sorted in the published order, without repetition, with
  exactly the members of the set, so two equal sets always serialise to the same array.\<close>

theorem permission_vocabulary_canonical:
  "(isPermission v \<longleftrightarrow> (\<exists>p. v = permission_name p))
   \<and> (parsePermission v = Some p \<longleftrightarrow> v = permission_name p)
   \<and> sortPermissions S = sorted_list_of_set S"
proof -
  have "sortPermissions S = sorted_list_of_set (set (sortPermissions S))"
    using sorted_sortPermissions [of S]
    by (simp del: set_sortPermissions add: sorted_list_of_set.idem_if_sorted_distinct)
  then show ?thesis
    by (auto simp: isPermission_def parsePermission_Some_iff)
qed

end
