(* ===== verification/Resolve.thy ===== *)
theory Resolve
  imports Permissions
begin

text \<open>
  \<open>packages/authz/src/resolve.ts\<close>: effective permissions by the nearest ancestor that carries a
  grant, per principal, united over the subject's principals. A thrown \<open>Error\<close> is a value of
  \<open>authz_error\<close>, one constructor per \<open>throw\<close>.
\<close>

section \<open>The resolver\<close>

datatype authz_error =
  EmptyChain
| RootHasParent id id
| NotParentLinked id "id option" id
| EmptyImpactChain string
| ImpactEndMismatch id id

record ResolveInput =
  chain :: "AclNode list"
  subject :: Subject

record PrincipalSource =
  src_principal :: Principal
  src_nodeId :: id
  src_permissions :: "Permission list"

record Resolution =
  effective :: "Permission set"
  sources :: "PrincipalSource list"
  nearestSourceNodeId :: "id option"

text \<open>The loop of \<open>assertChain\<close> over \<open>chain.slice(1)\<close>, \<open>previous\<close> carried along.\<close>

fun assertLinked :: "AclNode \<Rightarrow> AclNode list \<Rightarrow> authz_error + unit" where
  "assertLinked previous [] = Inr ()"
| "assertLinked previous (node # rest) =
     (if parentId node \<noteq> Some (acl_id previous)
      then Inl (NotParentLinked (acl_id node) (parentId node) (acl_id previous))
      else assertLinked node rest)"

fun assertChain :: "AclNode list \<Rightarrow> authz_error + unit" where
  "assertChain [] = Inl EmptyChain"
| "assertChain (root # rest) =
     (case parentId root of
        Some p \<Rightarrow> Inl (RootHasParent (acl_id root) p)
      | None \<Rightarrow> assertLinked root rest)"

definition grantFor :: "AclNode \<Rightarrow> Principal \<Rightarrow> Grant option" where
  "grantFor node p = List.find (\<lambda>candidate. samePrincipal (principal candidate) p) (grants node)"

text \<open>The loop of \<open>nearestGrant\<close> runs from the last index down: over the reversed chain.\<close>

fun nearestGrant_loop :: "AclNode list \<Rightarrow> Principal \<Rightarrow> PrincipalSource option" where
  "nearestGrant_loop [] p = None"
| "nearestGrant_loop (node # rest) p =
     (case grantFor node p of
        None \<Rightarrow> nearestGrant_loop rest p
      | Some grant \<Rightarrow>
          Some \<lparr>src_principal = p, src_nodeId = acl_id node,
                src_permissions = sortPermissions (set (permissions grant))\<rparr>)"

definition nearestGrant :: "AclNode list \<Rightarrow> Principal \<Rightarrow> PrincipalSource option" where
  "nearestGrant ch p = nearestGrant_loop (rev ch) p"

text \<open>\<open>depthOf\<close>: the index of each node id, the last one where an id repeats.\<close>

definition depthOf :: "AclNode list \<Rightarrow> id \<Rightarrow> int" where
  "depthOf ch nodeId =
     (case map_of (rev (zip (map acl_id ch) [0..<length ch])) nodeId of
        None \<Rightarrow> -1 | Some index \<Rightarrow> int index)"

text \<open>The loop that keeps the deepest source seen so far.\<close>

fun deepestSource ::
  "(id \<Rightarrow> int) \<Rightarrow> PrincipalSource list \<Rightarrow> id option \<Rightarrow> int \<Rightarrow> id option" where
  "deepestSource depth [] nearest nearestDepth = nearest"
| "deepestSource depth (source # rest) nearest nearestDepth =
     (if depth (src_nodeId source) > nearestDepth
      then deepestSource depth rest (Some (src_nodeId source)) (depth (src_nodeId source))
      else deepestSource depth rest nearest nearestDepth)"

definition resolve :: "ResolveInput \<Rightarrow> authz_error + Resolution" where
  "resolve input =
     bindE (assertChain (chain input)) (\<lambda>_.
       let srcs = List.map_filter (nearestGrant (chain input)) (principalsOf (subject input)) in
       Inr \<lparr>effective = (\<Union>source \<in> set srcs. set (src_permissions source)),
            sources = srcs,
            nearestSourceNodeId = deepestSource (depthOf (chain input)) srcs None (-1)\<rparr>)"

definition resolveEffective :: "ResolveInput \<Rightarrow> authz_error + Permission set" where
  "resolveEffective input = bindE (resolve input) (\<lambda>r. Inr (effective r))"

definition can :: "ResolveInput \<Rightarrow> Permission \<Rightarrow> authz_error + bool" where
  "can input permission = bindE (resolveEffective input) (\<lambda>s. Inr (permission \<in> s))"

text \<open>\<open>&&\<close> does not evaluate its right side when the left is false.\<close>

definition canMove :: "ResolveInput \<Rightarrow> ResolveInput \<Rightarrow> authz_error + bool" where
  "canMove source destination =
     bindE (can source PMove) (\<lambda>leave. if leave then can destination PCreate else Inr False)"

section \<open>Chains\<close>

text \<open>What \<open>assertChain\<close> accepts, as a statement about indices.\<close>

definition wf_chain :: "AclNode list \<Rightarrow> bool" where
  "wf_chain ch \<longleftrightarrow> ch \<noteq> [] \<and> parentId (hd ch) = None
     \<and> (\<forall>i. Suc i < length ch \<longrightarrow> parentId (ch ! Suc i) = Some (acl_id (ch ! i)))"

lemma assertLinked_iff:
  "assertLinked n ns = Inr () \<longleftrightarrow>
     (\<forall>i. Suc i < length (n # ns) \<longrightarrow> parentId ((n # ns) ! Suc i) = Some (acl_id ((n # ns) ! i)))"
proof (induction ns arbitrary: n)
  case Nil
  then show ?case by simp
next
  case (Cons m ms)
  show ?case
    using Cons.IH [of m] by (auto simp: nth_Cons split: nat.splits)
qed

lemma assertChain_iff: "assertChain ch = Inr u \<longleftrightarrow> wf_chain ch"
  by (cases ch) (auto simp: wf_chain_def assertLinked_iff [simplified] split: option.splits)

lemma assertChain_cases: "wf_chain ch \<or> (\<exists>e. assertChain ch = Inl e)"
  using assertChain_iff [of ch "()"] by (cases "assertChain ch") auto

section \<open>The nearest grant\<close>

lemma grantFor_None_iff: "grantFor n p = None \<longleftrightarrow> p \<notin> principal ` set (grants n)"
  by (auto simp: grantFor_def find_None_iff)

lemma grantFor_Some: "grantFor n p = Some g \<Longrightarrow> g \<in> set (grants n) \<and> principal g = p"
  by (auto simp: grantFor_def dest: find_eq_Some_ex)

lemma nearestGrant_snoc:
  "nearestGrant (ch @ [n]) p =
     (case grantFor n p of
        None \<Rightarrow> nearestGrant ch p
      | Some g \<Rightarrow> Some \<lparr>src_principal = p, src_nodeId = acl_id n,
                        src_permissions = sortPermissions (set (permissions g))\<rparr>)"
  by (simp add: nearestGrant_def split: option.splits)

lemma nearestGrant_Nil [simp]: "nearestGrant [] p = None"
  by (simp add: nearestGrant_def)

lemma nearestGrant_append:
  "nearestGrant (xs @ ys) p =
     (case nearestGrant ys p of None \<Rightarrow> nearestGrant xs p | Some s \<Rightarrow> Some s)"
proof (induction ys rule: rev_induct)
  case Nil
  then show ?case by simp
next
  case (snoc y ys)
  then show ?case
    by (simp flip: append_assoc add: nearestGrant_snoc split: option.splits)
qed

lemma nearestGrant_None_iff: "nearestGrant ch p = None \<longleftrightarrow> (\<forall>n \<in> set ch. grantFor n p = None)"
  by (induction ch rule: rev_induct) (auto simp: nearestGrant_snoc split: option.splits)

lemma nearestGrant_principal: "nearestGrant ch p = Some s \<Longrightarrow> src_principal s = p"
  by (induction ch rule: rev_induct) (auto simp: nearestGrant_snoc split: option.splits)

text \<open>The source is a node of the chain, carries the grant, and nothing below it carries one.\<close>

lemma nearestGrant_Some_split:
  "nearestGrant ch p = Some s \<longleftrightarrow>
     (\<exists>xs n ys g. ch = xs @ n # ys \<and> grantFor n p = Some g
        \<and> (\<forall>m \<in> set ys. grantFor m p = None)
        \<and> s = \<lparr>src_principal = p, src_nodeId = acl_id n,
               src_permissions = sortPermissions (set (permissions g))\<rparr>)"
  (is "?L \<longleftrightarrow> ?R")
proof
  show "?L \<Longrightarrow> ?R"
  proof (induction ch rule: rev_induct)
    case Nil
    then show ?case by simp
  next
    case (snoc n ns)
    show ?case
    proof (cases "grantFor n p")
      case None
      with snoc obtain xs m ys g where
        "ns = xs @ m # ys" "grantFor m p = Some g" "\<forall>m \<in> set ys. grantFor m p = None"
        "s = \<lparr>src_principal = p, src_nodeId = acl_id m,
              src_permissions = sortPermissions (set (permissions g))\<rparr>"
        by (auto simp: nearestGrant_snoc)
      with None show ?thesis
        by (intro exI [of _ xs] exI [of _ m] exI [of _ "ys @ [n]"] exI [of _ g]) auto
    next
      case (Some g)
      with snoc.prems show ?thesis
        by (intro exI [of _ ns] exI [of _ n] exI [of _ "[]"] exI [of _ g])
           (auto simp: nearestGrant_snoc)
    qed
  qed
next
  assume ?R
  then obtain xs n ys g where *: "ch = (xs @ [n]) @ ys" "grantFor n p = Some g"
    "\<forall>m \<in> set ys. grantFor m p = None"
    "s = \<lparr>src_principal = p, src_nodeId = acl_id n,
          src_permissions = sortPermissions (set (permissions g))\<rparr>"
    by auto
  then have "nearestGrant ys p = None"
    by (simp add: nearestGrant_None_iff)
  with * show ?L
    by (simp add: nearestGrant_append [of "xs @ [n]" ys] nearestGrant_snoc [of xs n] del: append_assoc)
qed

text \<open>Where a whole segment of the chain carries no grant for a principal, it may be dropped.\<close>

lemma nearestGrant_skip:
  "(\<forall>n \<in> set ys. grantFor n p = None) \<Longrightarrow> nearestGrant (xs @ ys) p = nearestGrant xs p"
  by (simp add: nearestGrant_append nearestGrant_None_iff [THEN iffD2])

section \<open>The abstract rule\<close>

text \<open>
  ADR-0021's rule as the module comment states it: \<open>perm\<close> is granted when some principal of the
  subject has a grant containing it on a node, and no node nearer to the target carries any grant
  for that principal.
\<close>

definition granted_at :: "AclNode list \<Rightarrow> Principal \<Rightarrow> Permission \<Rightarrow> bool" where
  "granted_at ch p perm \<longleftrightarrow>
     (\<exists>xs n ys g. ch = xs @ n # ys \<and> grantFor n p = Some g \<and> perm \<in> set (permissions g)
        \<and> (\<forall>m \<in> set ys. p \<notin> principal ` set (grants m)))"

definition allowed :: "AclNode list \<Rightarrow> Subject \<Rightarrow> Permission \<Rightarrow> bool" where
  "allowed ch s perm \<longleftrightarrow> (\<exists>p \<in> set (principalsOf s). granted_at ch p perm)"

lemma granted_at_iff:
  "granted_at ch p perm \<longleftrightarrow> (\<exists>s. nearestGrant ch p = Some s \<and> perm \<in> set (src_permissions s))"
  unfolding granted_at_def nearestGrant_Some_split grantFor_None_iff [symmetric] by fastforce

lemma resolve_Inr:
  "resolve input = Inr r \<longleftrightarrow>
     wf_chain (chain input)
     \<and> r = \<lparr>effective = {perm. allowed (chain input) (subject input) perm},
            sources = List.map_filter (nearestGrant (chain input)) (principalsOf (subject input)),
            nearestSourceNodeId =
              deepestSource (depthOf (chain input))
                (List.map_filter (nearestGrant (chain input)) (principalsOf (subject input)))
                None (-1)\<rparr>"
proof -
  have *: "(\<Union>source \<in> set (List.map_filter (nearestGrant ch) ps). set (src_permissions source))
        = {perm. \<exists>p \<in> set ps. granted_at ch p perm}" for ch ps
    by (auto simp: granted_at_iff set_map_filter)
  show ?thesis
    unfolding resolve_def Let_def * allowed_def
    by (auto simp: bindE_Inr_iff assertChain_iff)
qed

lemma resolve_wf: "wf_chain (chain input) \<Longrightarrow> \<exists>r. resolve input = Inr r"
  by (simp add: resolve_Inr)

lemma resolveEffective_Inr:
  "resolveEffective input = Inr S \<longleftrightarrow>
     wf_chain (chain input) \<and> S = {perm. allowed (chain input) (subject input) perm}"
  by (auto simp: resolveEffective_def bindE_Inr_iff resolve_Inr)

lemma can_Inr:
  "can input perm = Inr b \<longleftrightarrow>
     wf_chain (chain input) \<and> b = allowed (chain input) (subject input) perm"
  by (auto simp: can_def bindE_Inr_iff resolveEffective_Inr)

section \<open>The reported source\<close>

lemma deepestSource_cases:
  "(deepestSource depth srcs nearest d = nearest \<and> (\<forall>s \<in> set srcs. depth (src_nodeId s) \<le> d))
   \<or> (\<exists>s \<in> set srcs. deepestSource depth srcs nearest d = Some (src_nodeId s)
        \<and> d < depth (src_nodeId s)
        \<and> (\<forall>s' \<in> set srcs. depth (src_nodeId s') \<le> depth (src_nodeId s)))"
proof (induction srcs arbitrary: nearest d)
  case Nil
  then show ?case by simp
next
  case (Cons a srcs)
  show ?case
  proof (cases "depth (src_nodeId a) > d")
    case True
    then show ?thesis
      using Cons.IH [of "Some (src_nodeId a)" "depth (src_nodeId a)"] by (auto intro: order_trans)
  next
    case False
    then show ?thesis
      using Cons.IH [of nearest d] by auto
  qed
qed

lemma depthOf_nth:
  assumes "distinct (map acl_id ch)" and "i < length ch"
  shows "depthOf ch (acl_id (ch ! i)) = int i"
proof -
  let ?z = "zip (map acl_id ch) [0..<length ch]"
  have d: "distinct (map fst ?z)" using assms(1) by simp
  have "(acl_id (ch ! i), i) \<in> set (rev ?z)"
    using assms(2) by (auto simp: set_zip intro!: exI [of _ i])
  with d have "map_of (rev ?z) (acl_id (ch ! i)) = Some i"
    by (intro map_of_is_SomeI) (simp_all flip: rev_map)
  then show ?thesis
    by (simp add: depthOf_def)
qed

text \<open>The deepest node carrying any grant for any of the subject's principals.\<close>

definition nearestCarrier :: "AclNode list \<Rightarrow> Subject \<Rightarrow> id option" where
  "nearestCarrier ch s =
     map_option acl_id
       (List.find (\<lambda>n. \<exists>p \<in> set (principalsOf s). p \<in> principal ` set (grants n)) (rev ch))"

lemma nearestGrant_index:
  assumes "nearestGrant ch p = Some s"
  obtains j where "j < length ch" and "src_nodeId s = acl_id (ch ! j)"
    and "p \<in> principal ` set (grants (ch ! j))"
proof -
  from assms obtain xs n ys g where *: "ch = xs @ n # ys" "grantFor n p = Some g"
    "src_nodeId s = acl_id n"
    by (auto simp: nearestGrant_Some_split)
  have "p \<in> principal ` set (grants n)"
    using *(2) by (auto dest: grantFor_Some)
  with * show ?thesis
    by (intro that [of "length xs"]) (auto simp: nth_append)
qed

lemma nearestGrant_at_last:
  assumes "p \<in> principal ` set (grants n)" and "\<forall>m \<in> set ys. p \<notin> principal ` set (grants m)"
  shows "\<exists>s. nearestGrant (xs @ n # ys) p = Some s \<and> src_nodeId s = acl_id n"
proof -
  obtain g where "grantFor n p = Some g"
    using assms(1) grantFor_None_iff by (metis not_Some_eq)
  moreover have "\<forall>m \<in> set ys. grantFor m p = None"
    using assms(2) by (simp add: grantFor_None_iff)
  ultimately show ?thesis
    by (force simp: nearestGrant_Some_split)
qed

lemma deepest_is_nearestCarrier:
  assumes "distinct (map acl_id ch)"
  shows "deepestSource (depthOf ch) (List.map_filter (nearestGrant ch) (principalsOf s)) None (-1)
       = nearestCarrier ch s"
proof -
  let ?P = "\<lambda>n. \<exists>p \<in> set (principalsOf s). p \<in> principal ` set (grants n)"
  let ?srcs = "List.map_filter (nearestGrant ch) (principalsOf s)"
  have src: "\<exists>j < length ch. src_nodeId x = acl_id (ch ! j) \<and> depthOf ch (src_nodeId x) = int j \<and> ?P (ch ! j)"
    if "x \<in> set ?srcs" for x
  proof -
    from that obtain p where p: "p \<in> set (principalsOf s)" "nearestGrant ch p = Some x"
      by (auto simp: set_map_filter)
    then show ?thesis
      using depthOf_nth [OF assms] by (metis nearestGrant_index)
  qed
  show ?thesis
  proof (cases "List.find ?P (rev ch)")
    case None
    then have "\<forall>n \<in> set ch. \<not> ?P n"
      by (auto simp: find_None_iff)
    then have "?srcs = []"
      using src by (metis list.set_intros(1) neq_Nil_conv nth_mem)
    with None show ?thesis by (simp add: nearestCarrier_def)
  next
    case (Some n)
    then obtain i where i: "i < length ch" "rev ch ! i = n" "?P n"
      "\<forall>j < i. \<not> ?P (rev ch ! j)"
      by (auto simp: find_Some_iff)
    define k where "k = length ch - Suc i"
    have k: "k < length ch" "ch ! k = n"
      using i(1,2) by (auto simp: k_def rev_nth)
    have above: "\<not> ?P (ch ! j)" if "k < j" "j < length ch" for j
      using i(4) [rule_format, of "length ch - Suc j"] that i(1) by (auto simp: k_def rev_nth)
    have ch: "ch = take k ch @ n # drop (Suc k) ch"
      using id_take_nth_drop [OF k(1)] k(2) by simp
    obtain p where p: "p \<in> set (principalsOf s)" "p \<in> principal ` set (grants n)"
      using i(3) by blast
    have "\<forall>m \<in> set (drop (Suc k) ch). p \<notin> principal ` set (grants m)"
    proof
      fix m assume "m \<in> set (drop (Suc k) ch)"
      then obtain i where "i < length ch - Suc k" "m = ch ! (Suc k + i)"
        by (auto simp: in_set_conv_nth)
      then show "p \<notin> principal ` set (grants m)"
        using above [of "Suc k + i"] p(1) by auto
    qed
    then obtain x where x: "nearestGrant ch p = Some x" "src_nodeId x = acl_id n"
      using nearestGrant_at_last [OF p(2)] ch by metis
    have x_in: "x \<in> set ?srcs"
      using x(1) p(1) by (auto simp: set_map_filter)
    have dx: "depthOf ch (src_nodeId x) = int k"
      using depthOf_nth [OF assms k(1)] k(2) x(2) by simp
    obtain y where y: "y \<in> set ?srcs" "depthOf ch (src_nodeId x) \<le> depthOf ch (src_nodeId y)"
      "deepestSource (depthOf ch) ?srcs None (-1) = Some (src_nodeId y)"
      using deepestSource_cases [of "depthOf ch" ?srcs None "-1"] x_in dx by force
    obtain j where j: "j < length ch" "src_nodeId y = acl_id (ch ! j)"
      "depthOf ch (src_nodeId y) = int j" "?P (ch ! j)"
      using src [OF y(1)] by blast
    have "j = k"
      using above j(1,3,4) y(2) dx by (metis antisym_conv3 not_le of_nat_le_iff)
    with y(3) j(2) k(2) Some show ?thesis
      by (simp add: nearestCarrier_def)
  qed
qed

section \<open>Properties of the resolver\<close>

text \<open>C2. \<open>resolve\<close> throws exactly on a chain that is empty, does not start at a root or is not
  parent-linked; on every other chain its effective set is ADR-0021's rule: nearest grant per
  principal, united over the principals, nothing else (so no permission without a grant).\<close>

theorem resolve_implements_nearest_ancestor_rule:
  "case resolve input of
     Inl e \<Rightarrow> \<not> wf_chain (chain input)
   | Inr r \<Rightarrow> wf_chain (chain input)
       \<and> (\<forall>perm. perm \<in> effective r \<longleftrightarrow> allowed (chain input) (subject input) perm)"
proof (cases "resolve input")
  case (Inl e)
  then show ?thesis
    using resolve_wf [of input] by auto
next
  case (Inr r)
  with resolve_Inr [of input r] show ?thesis
    by simp
qed

text \<open>Narrowing: where every principal of the subject has a grant on the target itself, nothing
  above the target matters, whatever wider grants the two chains carry there.\<close>

theorem resolve_target_grant_shadows_ancestors:
  assumes "wf_chain (xs @ [target])" and "wf_chain (ys @ [target])"
    and "\<forall>p \<in> set (principalsOf s). p \<in> principal ` set (grants target)"
  shows "resolveEffective \<lparr>chain = xs @ [target], subject = s\<rparr>
       = resolveEffective \<lparr>chain = ys @ [target], subject = s\<rparr>"
proof -
  have "nearestGrant (xs @ [target]) p = nearestGrant (ys @ [target]) p"
    if "p \<in> set (principalsOf s)" for p
    using assms(3) that grantFor_None_iff [of target p]
    by (auto simp: nearestGrant_snoc split: option.splits)
  then have "allowed (xs @ [target]) s = allowed (ys @ [target]) s"
    by (auto simp: allowed_def granted_at_iff fun_eq_iff)
  then show ?thesis
    using assms(1,2) by (simp add: resolveEffective_def resolve_Inr [THEN iffD2])
qed

text \<open>Adding a subject to further teams never takes a permission away, and the order or the
  repetition of the memberships does not matter.\<close>

theorem resolve_monotone_in_teams:
  assumes "set (teamIds s) \<subseteq> set (teamIds s')" and "userId s = userId s'"
    and "resolveEffective \<lparr>chain = ch, subject = s\<rparr> = Inr S"
  shows "\<exists>S'. resolveEffective \<lparr>chain = ch, subject = s'\<rparr> = Inr S' \<and> S \<subseteq> S'
           \<and> (set (teamIds s) = set (teamIds s') \<longrightarrow> S' = S)"
proof -
  have "set (principalsOf s) \<subseteq> set (principalsOf s')"
    and "set (teamIds s) = set (teamIds s') \<Longrightarrow> set (principalsOf s) = set (principalsOf s')"
    using assms(1,2) by (auto simp: principalsOf_def)
  then show ?thesis
    using assms(3) by (auto simp: resolveEffective_Inr allowed_def)
qed

text \<open>The reported source: over a chain of distinct nodes, \<open>nearestSourceNodeId\<close> is the deepest
  node that carries a grant for one of the subject's principals, and null when no node does.\<close>

theorem resolve_reports_deepest_source:
  assumes "distinct (map acl_id (chain input))" and "resolve input = Inr r"
  shows "nearestSourceNodeId r = nearestCarrier (chain input) (subject input)"
  using assms by (simp add: resolve_Inr deepest_is_nearestCarrier)

section \<open>A concrete tree\<close>

definition ex_root :: AclNode where
  "ex_root = \<lparr>acl_id = ''root'', parentId = None,
     grants = [\<lparr>principal = Team ''t1'', permissions = [PList, PRead, PDelete]\<rparr>]\<rparr>"

definition ex_folder :: AclNode where
  "ex_folder = \<lparr>acl_id = ''f'', parentId = Some ''root'',
     grants = [\<lparr>principal = User ''u'', permissions = [PList]\<rparr>,
               \<lparr>principal = Team ''t1'', permissions = [PRead]\<rparr>]\<rparr>"

definition ex_bare_root :: AclNode where
  "ex_bare_root = \<lparr>acl_id = ''root'', parentId = None, grants = []\<rparr>"

lemmas ex_tree_defs = ex_root_def ex_folder_def ex_bare_root_def

lemma ex_wf: "wf_chain [ex_root, ex_folder]" "wf_chain [ex_bare_root, ex_folder]"
  by (auto simp: wf_chain_def ex_tree_defs less_Suc_eq_0_disj)

theorem resolve_target_grant_shadows_ancestors_witness:
  "resolveEffective \<lparr>chain = [ex_root] @ [ex_folder], subject = \<lparr>userId = ''u'', teamIds = [''t1'']\<rparr>\<rparr>
     = resolveEffective \<lparr>chain = [ex_bare_root] @ [ex_folder],
                        subject = \<lparr>userId = ''u'', teamIds = [''t1'']\<rparr>\<rparr>"
  by (rule resolve_target_grant_shadows_ancestors)
     (use ex_wf in \<open>auto simp: principalsOf_def ex_folder_def\<close>)

lemma ex_user_alone:
  "resolveEffective \<lparr>chain = [ex_root, ex_folder], subject = \<lparr>userId = ''u'', teamIds = []\<rparr>\<rparr>
     = Inr {PList}"
  by (simp add: resolveEffective_def resolve_def ex_tree_defs principalsOf_def nearestGrant_def
      grantFor_def List.map_filter_simps)

theorem resolve_monotone_in_teams_witness:
  "\<exists>S'. resolveEffective \<lparr>chain = [ex_root, ex_folder],
                          subject = \<lparr>userId = ''u'', teamIds = [''t1'']\<rparr>\<rparr> = Inr S'
        \<and> {PList} \<subseteq> S'"
  using resolve_monotone_in_teams [OF _ _ ex_user_alone,
      of "\<lparr>userId = ''u'', teamIds = [''t1'']\<rparr>"] by auto

theorem resolve_reports_deepest_source_witness:
  "\<exists>r. resolve \<lparr>chain = [ex_root, ex_folder], subject = \<lparr>userId = ''v'', teamIds = [''t1'']\<rparr>\<rparr> = Inr r
       \<and> nearestSourceNodeId r = Some ''f''"
proof -
  let ?i = "\<lparr>chain = [ex_root, ex_folder], subject = \<lparr>userId = ''v'', teamIds = [''t1'']\<rparr>\<rparr>"
  obtain r where r: "resolve ?i = Inr r"
    using resolve_wf [of ?i] ex_wf by auto
  have "nearestSourceNodeId r = nearestCarrier [ex_root, ex_folder] (subject ?i)"
    using resolve_reports_deepest_source [of ?i r] r by (simp add: ex_tree_defs)
  then show ?thesis
    using r by (simp add: nearestCarrier_def ex_tree_defs principalsOf_def)
qed

end
