(* ===== verification/Impact.thy ===== *)
theory Impact
  imports Resolve
begin

text \<open>
  \<open>packages/authz/src/impact.ts\<close>: the dry run that says who gains and who loses what when a
  folder's grants are rewritten, and its roll-up over a subtree. \<open>sort(byUserId)\<close> is JavaScript's
  stable sort, so it is \<open>sort_key\<close>; the two insertion-ordered \<open>Map\<close>s are association lists.
\<close>

record ImpactInput =
  before_chain :: "AclNode list"
  after_chain :: "AclNode list"
  subjects :: "Subject list"

record UserImpact =
  ui_userId :: id
  ui_before :: "Permission list"
  ui_after :: "Permission list"

record FolderImpact =
  fi_nodeId :: id
  gaining :: "UserImpact list"
  losing :: "UserImpact list"

record SubtreeImpact =
  foldersAffected :: nat
  usersGaining :: "UserImpact list"
  usersLosing :: "UserImpact list"

definition sort_byUserId :: "UserImpact list \<Rightarrow> UserImpact list" where
  "sort_byUserId us = sort_key ui_userId us"

definition lastNodeId :: "AclNode list \<Rightarrow> string \<Rightarrow> authz_error + id" where
  "lastNodeId ch side = (if ch = [] then Inl (EmptyImpactChain side) else Inr (acl_id (last ch)))"

text \<open>The \<open>for\<close> loop over the subjects: the users that gain, the users that lose.\<close>

fun impactLoop ::
  "AclNode list \<Rightarrow> AclNode list \<Rightarrow> Subject list
     \<Rightarrow> authz_error + UserImpact list \<times> UserImpact list" where
  "impactLoop bef aft [] = Inr ([], [])"
| "impactLoop bef aft (s # rest) =
     bindE (resolveEffective \<lparr>chain = bef, subject = s\<rparr>) (\<lambda>had.
     bindE (resolveEffective \<lparr>chain = aft, subject = s\<rparr>) (\<lambda>has.
     bindE (impactLoop bef aft rest) (\<lambda>(gain, lose).
       let gained = (\<exists>perm \<in> has. perm \<notin> had);
           lost = (\<exists>perm \<in> had. perm \<notin> has);
           delta = \<lparr>ui_userId = userId s, ui_before = sortPermissions had,
                    ui_after = sortPermissions has\<rparr>
       in if \<not> gained \<and> \<not> lost then Inr (gain, lose)
          else Inr (if gained then delta # gain else gain, if lost then delta # lose else lose))))"

definition resolveImpact :: "ImpactInput \<Rightarrow> authz_error + FolderImpact" where
  "resolveImpact input =
     bindE (lastNodeId (after_chain input) ''after'') (\<lambda>nodeId.
     bindE (lastNodeId (before_chain input) ''before'') (\<lambda>beforeNodeId.
       if beforeNodeId \<noteq> nodeId then Inl (ImpactEndMismatch beforeNodeId nodeId)
       else
         bindE (impactLoop (before_chain input) (after_chain input) (subjects input))
           (\<lambda>(gain, lose).
             Inr \<lparr>fi_nodeId = nodeId, gaining = sort_byUserId gain, losing = sort_byUserId lose\<rparr>)))"

text \<open>\<open>for (const user of users) if (!map.has(user.userId)) map.set(user.userId, user)\<close>.\<close>

fun addMissing ::
  "(id \<times> UserImpact) list \<Rightarrow> UserImpact list \<Rightarrow> (id \<times> UserImpact) list" where
  "addMissing m [] = m"
| "addMissing m (u # us) =
     addMissing (if map_of m (ui_userId u) = None then alist_set (ui_userId u) u m else m) us"

fun aggregateLoop ::
  "FolderImpact list \<Rightarrow> nat \<Rightarrow> (id \<times> UserImpact) list \<Rightarrow> (id \<times> UserImpact) list
     \<Rightarrow> nat \<times> (id \<times> UserImpact) list \<times> (id \<times> UserImpact) list" where
  "aggregateLoop [] n gain lose = (n, gain, lose)"
| "aggregateLoop (f # fs) n gain lose =
     (if length (gaining f) = 0 \<and> length (losing f) = 0 then aggregateLoop fs n gain lose
      else aggregateLoop fs (n + 1) (addMissing gain (gaining f)) (addMissing lose (losing f)))"

definition aggregateImpact :: "FolderImpact list \<Rightarrow> SubtreeImpact" where
  "aggregateImpact folders =
     (case aggregateLoop folders 0 [] [] of
        (n, gain, lose) \<Rightarrow>
          \<lparr>foldersAffected = n, usersGaining = sort_byUserId (map snd gain),
           usersLosing = sort_byUserId (map snd lose)\<rparr>)"

section \<open>The per-folder diff\<close>

definition effectiveSet :: "AclNode list \<Rightarrow> Subject \<Rightarrow> Permission set" where
  "effectiveSet ch s = {perm. allowed ch s perm}"

definition deltaOf :: "AclNode list \<Rightarrow> AclNode list \<Rightarrow> Subject \<Rightarrow> UserImpact" where
  "deltaOf bef aft s = \<lparr>ui_userId = userId s, ui_before = sortPermissions (effectiveSet bef s),
                       ui_after = sortPermissions (effectiveSet aft s)\<rparr>"

lemma impactLoop_eq:
  assumes "wf_chain bef" and "wf_chain aft"
  shows "impactLoop bef aft ss =
    Inr (map (deltaOf bef aft) (filter (\<lambda>s. \<not> effectiveSet aft s \<subseteq> effectiveSet bef s) ss),
         map (deltaOf bef aft) (filter (\<lambda>s. \<not> effectiveSet bef s \<subseteq> effectiveSet aft s) ss))"
proof (induction ss)
  case Nil
  then show ?case by simp
next
  case (Cons s ss)
  have "resolveEffective \<lparr>chain = bef, subject = s\<rparr> = Inr (effectiveSet bef s)"
    and "resolveEffective \<lparr>chain = aft, subject = s\<rparr> = Inr (effectiveSet aft s)"
    using assms by (simp_all add: resolveEffective_Inr effectiveSet_def)
  with Cons show ?case
    by (auto simp: deltaOf_def Let_def)
qed

lemma lastNodeId_Inr: "lastNodeId ch side = Inr n \<longleftrightarrow> ch \<noteq> [] \<and> n = acl_id (last ch)"
  by (auto simp: lastNodeId_def)

lemma set_sort_byUserId [simp]: "set (sort_byUserId us) = set us"
  by (simp add: sort_byUserId_def)

lemma wf_chain_not_Nil: "wf_chain ch \<Longrightarrow> ch \<noteq> []"
  by (simp add: wf_chain_def)

text \<open>C6. The dry run tells the truth: over two well-formed chains ending at the same node it
  answers, and a subject is listed as gaining exactly when the resolver's answer after the change
  is not contained in its answer before (as losing, the other way round), with exactly those two
  answers as the reported sets; somebody who gains one thing and loses another is in both lists.\<close>

theorem resolveImpact_reports_exact_changes:
  assumes "wf_chain (before_chain input)" and "wf_chain (after_chain input)"
    and "acl_id (last (before_chain input)) = acl_id (last (after_chain input))"
  shows "\<exists>f. resolveImpact input = Inr f
     \<and> set (gaining f) = {deltaOf (before_chain input) (after_chain input) s | s.
          s \<in> set (subjects input)
          \<and> \<not> effectiveSet (after_chain input) s \<subseteq> effectiveSet (before_chain input) s}
     \<and> set (losing f) = {deltaOf (before_chain input) (after_chain input) s | s.
          s \<in> set (subjects input)
          \<and> \<not> effectiveSet (before_chain input) s \<subseteq> effectiveSet (after_chain input) s}
     \<and> sorted (map ui_userId (gaining f)) \<and> sorted (map ui_userId (losing f))"
  using assms
  by (auto simp: resolveImpact_def impactLoop_eq lastNodeId_def wf_chain_not_Nil
      sort_byUserId_def)

section \<open>The roll-up\<close>

lemma addMissing_map_of:
  "map_of (addMissing m us) u =
     (case map_of m u of
        Some x \<Rightarrow> Some x
      | None \<Rightarrow> List.find (\<lambda>x. ui_userId x = u) us)"
  by (induction us arbitrary: m) (auto split: option.splits)

definition keyed :: "(id \<times> UserImpact) list \<Rightarrow> bool" where
  "keyed m \<longleftrightarrow> distinct (map fst m) \<and> (\<forall>e \<in> set m. ui_userId (snd e) = fst e)"

lemma set_alist_set: "set (alist_set k v m) \<subseteq> insert (k, v) (set m)"
  by (induction k v m rule: alist_set.induct) auto

lemma keyed_alist_set:
  assumes "keyed m" and "k \<notin> set (map fst m)" and "ui_userId v = k"
  shows "keyed (alist_set k v m)"
proof -
  have "\<forall>e \<in> set (alist_set k v m). ui_userId (snd e) = fst e"
    using set_alist_set [of k v m] assms(1,3) by (auto simp: keyed_def)
  then show ?thesis
    using assms(1,2) unfolding keyed_def fst_alist_set by simp
qed

lemma addMissing_keyed: "keyed m \<Longrightarrow> keyed (addMissing m us)"
proof (induction us arbitrary: m)
  case Nil
  then show ?case by simp
next
  case (Cons u us)
  have "keyed (if map_of m (ui_userId u) = None then alist_set (ui_userId u) u m else m)"
    using Cons.prems keyed_alist_set [of m "ui_userId u" u] by (simp add: map_of_eq_None_iff)
  then show ?case
    using Cons.IH by simp
qed

lemma aggregateLoop_eq:
  "aggregateLoop fs n gain lose =
     (n + length (filter (\<lambda>f. gaining f \<noteq> [] \<or> losing f \<noteq> []) fs),
      addMissing gain (concat (map gaining fs)), addMissing lose (concat (map losing fs)))"
proof -
  have app: "addMissing m (us @ vs) = addMissing (addMissing m us) vs" for m us vs
    by (induction us arbitrary: m) auto
  show ?thesis
    by (induction fs arbitrary: n gain lose) (auto simp: app)
qed

lemma keyed_sorted:
  assumes "keyed m"
  shows "distinct (map ui_userId (sort_byUserId (map snd m)))"
    and "sorted (map ui_userId (sort_byUserId (map snd m)))"
    and "x \<in> set (sort_byUserId (map snd m)) \<longleftrightarrow> map_of m (ui_userId x) = Some x"
proof -
  have "map ui_userId (map snd m) = map fst m"
    using assms by (auto simp: keyed_def)
  moreover have "distinct (map fst m)"
    using assms by (simp add: keyed_def)
  ultimately have "distinct (map ui_userId (map snd m))"
    by (simp only:)
  then show "distinct (map ui_userId (sort_byUserId (map snd m)))"
    unfolding sort_byUserId_def distinct_map set_sort distinct_sort by blast
  show "sorted (map ui_userId (sort_byUserId (map snd m)))"
    by (simp add: sort_byUserId_def)
  have "x \<in> snd ` set m \<longleftrightarrow> (ui_userId x, x) \<in> set m"
    using assms by (force simp: keyed_def)
  then show "x \<in> set (sort_byUserId (map snd m)) \<longleftrightarrow> map_of m (ui_userId x) = Some x"
    using assms by (simp add: keyed_def map_of_eq_Some_iff)
qed

text \<open>The roll-up: \<open>foldersAffected\<close> counts the folders where somebody's set changed; each
  affected user is listed once, in order of user id, with the entry of the first folder of the
  traversal in which that user appears.\<close>

theorem aggregateImpact_first_folder_wins:
  "foldersAffected (aggregateImpact fs) = length (filter (\<lambda>f. \<not> (gaining f = [] \<and> losing f = [])) fs)
   \<and> sorted (map ui_userId (usersGaining (aggregateImpact fs)))
   \<and> distinct (map ui_userId (usersGaining (aggregateImpact fs)))
   \<and> sorted (map ui_userId (usersLosing (aggregateImpact fs)))
   \<and> distinct (map ui_userId (usersLosing (aggregateImpact fs)))
   \<and> (x \<in> set (usersGaining (aggregateImpact fs))
        \<longleftrightarrow> List.find (\<lambda>u. ui_userId u = ui_userId x) (concat (map gaining fs)) = Some x)
   \<and> (x \<in> set (usersLosing (aggregateImpact fs))
        \<longleftrightarrow> List.find (\<lambda>u. ui_userId u = ui_userId x) (concat (map losing fs)) = Some x)"
proof -
  have "keyed (addMissing [] us)" for us
    by (rule addMissing_keyed) (simp add: keyed_def)
  then show ?thesis
    by (simp add: aggregateImpact_def aggregateLoop_eq keyed_sorted addMissing_map_of
        del: set_sort_byUserId)
qed

definition ex_narrowed :: AclNode where
  "ex_narrowed = \<lparr>acl_id = ''f'', parentId = Some ''root'',
     grants = [\<lparr>principal = Team ''t1'', permissions = [PRead, PMove]\<rparr>]\<rparr>"

theorem resolveImpact_reports_exact_changes_witness:
  "\<exists>f. resolveImpact \<lparr>before_chain = [ex_root, ex_folder], after_chain = [ex_root, ex_narrowed],
                       subjects = [\<lparr>userId = ''u'', teamIds = [''t1'']\<rparr>]\<rparr> = Inr f
     \<and> deltaOf [ex_root, ex_folder] [ex_root, ex_narrowed] \<lparr>userId = ''u'', teamIds = [''t1'']\<rparr>
         \<in> set (losing f)"
proof -
  let ?s = "\<lparr>userId = ''u'', teamIds = [''t1'']\<rparr>"
  let ?i = "\<lparr>before_chain = [ex_root, ex_folder], after_chain = [ex_root, ex_narrowed],
             subjects = [?s]\<rparr>"
  have wf: "wf_chain [ex_root, ex_narrowed]"
    by (auto simp: wf_chain_def ex_tree_defs ex_narrowed_def less_Suc_eq_0_disj)
  have eff: "resolveEffective \<lparr>chain = [ex_root, ex_folder], subject = ?s\<rparr> = Inr {PList, PRead}"
    "resolveEffective \<lparr>chain = [ex_root, ex_narrowed], subject = ?s\<rparr> = Inr {PRead, PMove}"
    by (auto simp add: resolveEffective_def resolve_def ex_tree_defs ex_narrowed_def
        principalsOf_def nearestGrant_def grantFor_def List.map_filter_simps)
  then have "effectiveSet [ex_root, ex_folder] ?s = {PList, PRead}"
    "effectiveSet [ex_root, ex_narrowed] ?s = {PRead, PMove}"
    by (auto simp: resolveEffective_Inr effectiveSet_def)
  then show ?thesis
    using resolveImpact_reports_exact_changes [of ?i] wf ex_wf(1)
    by (auto simp: ex_folder_def ex_narrowed_def)
qed

end
