(* ===== verification/FileRows.thy ===== *)
theory FileRows
  imports Prelude
begin

text \<open>
  The table \<open>file_entries\<close> (\<open>packages/db/migrations/0008_file_entries.sql\<close>) as a list of rows, and
  the walks \<open>files.service.ts\<close> makes over it. \<open>FileEntryRow\<close> is the row as the service reads it;
  the columns the service writes without reading back (\<open>trashed_by\<close>, \<open>recycled\<close>,
  \<open>copied_from_entry_id\<close>) and the tenant column are fields of the same record. A name is the
  string of its UTF-8 bytes.
\<close>

section \<open>Rows\<close>

datatype entry_kind = File | Folder

text \<open>\<open>kind\<close> is a text column and \<open>'file' < 'folder'\<close>.\<close>

instantiation entry_kind :: linorder
begin

fun less_eq_entry_kind :: "entry_kind \<Rightarrow> entry_kind \<Rightarrow> bool" where
  "less_eq_entry_kind File k = True"
| "less_eq_entry_kind Folder k = (k = Folder)"

definition less_entry_kind :: "entry_kind \<Rightarrow> entry_kind \<Rightarrow> bool" where
  "less_entry_kind a b \<longleftrightarrow> a = File \<and> b = Folder"

instance
proof
  fix x y z :: entry_kind
  show "(x < y) = (x \<le> y \<and> \<not> y \<le> x)"
    by (cases x; cases y) (simp_all add: less_entry_kind_def)
  show "x \<le> x" by (cases x) simp_all
  show "x \<le> y \<Longrightarrow> y \<le> z \<Longrightarrow> x \<le> z" by (cases x; cases y; cases z) simp_all
  show "x \<le> y \<Longrightarrow> y \<le> x \<Longrightarrow> x = y" by (cases x; cases y) simp_all
  show "x \<le> y \<or> y \<le> x" by (cases x; cases y) simp_all
qed

end

record FileEntryRow =
  fe_id :: id
  fe_org :: id
  fe_share :: id
  fe_parent :: "id option"
  fe_kind :: entry_kind
  fe_name :: string
  fe_path :: string
  fe_size :: nat
  fe_content_type :: "string option"
  fe_trashed_at :: "nat option"
  fe_trashed_by :: "id option"
  fe_recycled :: bool
  fe_copied_from :: "id option"
  fe_created_at :: nat
  fe_updated_at :: nat

type_synonym table = "FileEntryRow list"

definition in_org :: "id \<Rightarrow> table \<Rightarrow> table" where
  "in_org org db = filter (\<lambda>r. fe_org r = org) db"

definition in_share :: "id \<Rightarrow> id \<Rightarrow> table \<Rightarrow> table" where
  "in_share org share db = filter (\<lambda>r. fe_org r = org \<and> fe_share r = share) db"

lemma set_in_org [simp]: "set (in_org org db) = {r \<in> set db. fe_org r = org}"
  by (auto simp: in_org_def)

lemma set_in_share [simp]: "set (in_share org share db) = {r \<in> set db. fe_org r = org \<and> fe_share r = share}"
  by (auto simp: in_share_def)

section \<open>The tree the rows describe\<close>

text \<open>\<open>parent_id\<close> is the authority: an edge from each row to its parent.\<close>

definition parent_rel :: "table \<Rightarrow> (id \<times> id) set" where
  "parent_rel db = {(fe_id r, p) | r p. r \<in> set db \<and> fe_parent r = Some p}"

definition row_at :: "table \<Rightarrow> id \<Rightarrow> FileEntryRow option" where
  "row_at db i = List.find (\<lambda>r. fe_id r = i) db"

lemma row_at_Some: "row_at db i = Some r \<Longrightarrow> r \<in> set db \<and> fe_id r = i"
  by (auto simp: row_at_def dest: find_eq_Some_ex)

lemma row_at_None: "row_at db i = None \<longleftrightarrow> i \<notin> fe_id ` set db"
  by (auto simp: row_at_def find_None_iff)

lemma distinct_ids_eq:
  "distinct (map fe_id db) \<Longrightarrow> r \<in> set db \<Longrightarrow> r' \<in> set db \<Longrightarrow> fe_id r = fe_id r' \<Longrightarrow> r = r'"
  by (auto simp: distinct_map dest: inj_onD)

lemma row_at_eq:
  assumes "distinct (map fe_id db)" and "r \<in> set db"
  shows "row_at db (fe_id r) = Some r"
proof (cases "row_at db (fe_id r)")
  case None
  then show ?thesis using assms(2) by (simp add: row_at_None)
next
  case (Some r')
  then have "r' \<in> set db \<and> fe_id r' = fe_id r" by (rule row_at_Some)
  then show ?thesis using Some assms distinct_ids_eq by metis
qed

lemma row_at_Some_iff:
  "distinct (map fe_id db) \<Longrightarrow> row_at db i = Some r \<longleftrightarrow> r \<in> set db \<and> fe_id r = i"
  using row_at_eq row_at_Some by metis

lemma parent_rel_iff:
  assumes "distinct (map fe_id db)" and "r \<in> set db"
  shows "(fe_id r, p) \<in> parent_rel db \<longleftrightarrow> fe_parent r = Some p"
  using assms distinct_ids_eq by (fastforce simp: parent_rel_def)

lemma parent_rel_Cons:
  "parent_rel (r # db) = (case fe_parent r of None \<Rightarrow> {} | Some p \<Rightarrow> {(fe_id r, p)}) \<union> parent_rel db"
  by (auto simp: parent_rel_def split: option.splits)

text \<open>
  The lineage of a cursor: the rows from it up to a top-level entry, each one the parent of the one
  before. It exists for every row of a well-formed table and is unique.
\<close>

fun lineage :: "table \<Rightarrow> id option \<Rightarrow> table \<Rightarrow> bool" where
  "lineage db c [] = (c = None)"
| "lineage db c (r # rs) = (c = Some (fe_id r) \<and> r \<in> set db \<and> lineage db (fe_parent r) rs)"

lemma lineage_None [simp]: "lineage db None rs \<longleftrightarrow> rs = []"
  by (cases rs) auto

lemma lineage_Some:
  "lineage db (Some i) rs \<longleftrightarrow>
     (\<exists>r rs'. rs = r # rs' \<and> fe_id r = i \<and> r \<in> set db \<and> lineage db (fe_parent r) rs')"
  by (cases rs) auto

lemma lineage_unique:
  assumes "distinct (map fe_id db)"
  shows "lineage db c rs \<Longrightarrow> lineage db c rs' \<Longrightarrow> rs = rs'"
proof (induction rs arbitrary: c rs')
  case Nil
  then show ?case by simp
next
  case (Cons r rs)
  obtain s ss where rs': "rs' = s # ss"
    using Cons.prems by (cases rs') simp_all
  have s: "s \<in> set db" "fe_id r = fe_id s" "lineage db (fe_parent s) ss"
    using Cons.prems by (simp_all add: rs')
  then have "r = s"
    using Cons.prems(1) distinct_ids_eq [OF assms, of r s] by simp
  with s(3) show ?case
    using Cons.IH [of "fe_parent s" ss] Cons.prems(1) by (simp add: rs')
qed


lemma lineage_suffix:
  "lineage db c (xs @ r # ys) \<Longrightarrow> lineage db (Some (fe_id r)) (r # ys)"
  by (induction xs arbitrary: c) auto

lemma lineage_rows: "lineage db c rs \<Longrightarrow> set rs \<subseteq> set db"
  by (induction rs arbitrary: c) auto

lemma lineage_distinct:
  assumes "distinct (map fe_id db)" and "lineage db c rs"
  shows "distinct (map fe_id rs)"
  using assms(2)
proof (induction rs arbitrary: c)
  case Nil
  then show ?case by simp
next
  case (Cons r rs)
  have "fe_id r \<notin> set (map fe_id rs)"
  proof
    assume "fe_id r \<in> set (map fe_id rs)"
    then obtain xs s ys where rs: "rs = xs @ s # ys" and s: "fe_id s = fe_id r"
      by (auto dest: split_list)
    have "lineage db (Some (fe_id r)) (s # ys)"
      using Cons.prems lineage_suffix [of db c "r # xs" s ys] by (simp add: rs s)
    moreover have "lineage db (Some (fe_id r)) (r # rs)"
      using Cons.prems by simp
    ultimately have "s # ys = r # rs"
      using lineage_unique [OF assms(1)] by blast
    then show False
      using rs by simp
  qed
  moreover have "distinct (map fe_id rs)"
    using Cons.IH [of "fe_parent r"] Cons.prems by simp
  ultimately show ?case by simp
qed

lemma lineage_reach: "lineage db (Some i) rs \<Longrightarrow> r \<in> set rs \<Longrightarrow> (i, fe_id r) \<in> (parent_rel db)\<^sup>*"
proof (induction rs arbitrary: i)
  case Nil
  then show ?case by simp
next
  case (Cons s rs)
  show ?case
  proof (cases "r = s")
    case True
    then show ?thesis using Cons.prems by simp
  next
    case False
    then obtain p where p: "fe_parent s = Some p" "lineage db (Some p) rs" "r \<in> set rs"
      using Cons.prems by (cases "fe_parent s") auto
    then have "(i, p) \<in> parent_rel db"
      using Cons.prems by (auto simp: parent_rel_def)
    then show ?thesis
      using Cons.IH [OF p(2,3)] by (rule converse_rtrancl_into_rtrancl)
  qed
qed

section \<open>Well-formed tables\<close>

text \<open>
  What the schema and \<open>MoveIntoDescendantError\<close> keep true of the table: the id is the primary key,
  a parent is a folder row of the same organisation and share (the foreign key and the checks the
  service makes), and no entry is its own ancestor.
\<close>

definition parents_ok :: "table \<Rightarrow> bool" where
  "parents_ok db \<longleftrightarrow> (\<forall>r \<in> set db. \<forall>p. fe_parent r = Some p \<longrightarrow>
     (\<exists>q \<in> set db. fe_id q = p \<and> fe_org q = fe_org r \<and> fe_share q = fe_share r \<and> fe_kind q = Folder))"

definition wf_tree :: "table \<Rightarrow> bool" where
  "wf_tree db \<longleftrightarrow> distinct (map fe_id db) \<and> parents_ok db \<and> acyclic (parent_rel db)"

lemma finite_parent_rel: "finite (parent_rel db)"
proof (rule finite_subset)
  show "parent_rel db \<subseteq> (\<lambda>r. (fe_id r, the (fe_parent r))) ` set db"
    by (force simp: parent_rel_def)
qed simp

lemma wf_tree_parent:
  assumes "wf_tree db" and "r \<in> set db" and "fe_parent r = Some p"
  obtains q where "q \<in> set db" "fe_id q = p" "fe_org q = fe_org r" "fe_share q = fe_share r"
    "fe_kind q = Folder"
  using assms unfolding wf_tree_def parents_ok_def by blast

lemma wf_tree_lineage:
  assumes "wf_tree db" and "r \<in> set db"
  shows "\<exists>rs. lineage (in_share (fe_org r) (fe_share r) db) (Some (fe_id r)) (r # rs)"
proof -
  have wf: "wf ((parent_rel db)\<inverse>)"
    using assms(1) finite_parent_rel by (simp add: wf_tree_def finite_acyclic_wf_converse)
  have "\<forall>r \<in> set db. fe_id r = i \<longrightarrow>
      (\<exists>rs. lineage (in_share (fe_org r) (fe_share r) db) (Some (fe_id r)) (r # rs))" for i
    using wf
  proof (induction i rule: wf_induct_rule)
    case (less i)
    show ?case
    proof (intro ballI impI)
      fix r assume r: "r \<in> set db" "fe_id r = i"
      show "\<exists>rs. lineage (in_share (fe_org r) (fe_share r) db) (Some (fe_id r)) (r # rs)"
      proof (cases "fe_parent r")
        case None
        then show ?thesis using r by (intro exI [of _ "[]"]) simp
      next
        case (Some p)
        then obtain q where q: "q \<in> set db" "fe_id q = p" "fe_org q = fe_org r" "fe_share q = fe_share r"
          using wf_tree_parent [OF assms(1) r(1)] by metis
        have "(p, i) \<in> (parent_rel db)\<inverse>"
          using r Some by (auto simp: parent_rel_def)
        then obtain rs where "lineage (in_share (fe_org r) (fe_share r) db) (Some p) (q # rs)"
          using less.IH q by metis
        then show ?thesis
          using r Some by (intro exI [of _ "q # rs"]) simp
      qed
    qed
  qed
  then show ?thesis using assms(2) by blast
qed

lemma lineage_mono: "lineage db c rs \<Longrightarrow> set db \<subseteq> set db' \<Longrightarrow> lineage db' c rs"
  by (induction rs arbitrary: c) auto

lemma wf_tree_has_lineage:
  assumes "wf_tree db" and "r \<in> set db"
  obtains rs where "lineage db (Some (fe_id r)) (r # rs)"
proof -
  obtain rs where "lineage (in_share (fe_org r) (fe_share r) db) (Some (fe_id r)) (r # rs)"
    using wf_tree_lineage [OF assms] by blast
  then have "lineage db (Some (fe_id r)) (r # rs)"
    by (rule lineage_mono) auto
  then show ?thesis by (rule that)
qed

lemma lineage_bound:
  assumes "distinct (map fe_id db)" and "lineage db c rs"
  shows "length rs \<le> length db"
proof -
  have "length rs = card (set (map fe_id rs))"
    using distinct_card [OF lineage_distinct [OF assms]] by simp
  also have "\<dots> \<le> card (set (map fe_id db))"
    using lineage_rows [OF assms(2)] by (intro card_mono) auto
  also have "\<dots> \<le> length db"
    using card_length [of "map fe_id db"] by simp
  finally show ?thesis .
qed

lemma wf_tree_in_org:
  assumes "wf_tree db"
  shows "wf_tree (in_org org db)"
  unfolding wf_tree_def
proof (intro conjI)
  show "distinct (map fe_id (in_org org db))"
    using assms by (simp add: wf_tree_def in_org_def distinct_map_filter)
  show "parents_ok (in_org org db)"
    using assms unfolding wf_tree_def parents_ok_def by fastforce
  have "parent_rel (in_org org db) \<subseteq> parent_rel db"
    by (auto simp: parent_rel_def)
  then show "acyclic (parent_rel (in_org org db))"
    using assms acyclic_subset by (auto simp: wf_tree_def)
qed

lemma wf_tree_rank:
  fixes rank :: "id \<Rightarrow> nat"
  assumes "distinct (map fe_id db)" and "parents_ok db"
    and "\<And>r p. r \<in> set db \<Longrightarrow> fe_parent r = Some p \<Longrightarrow> rank p < rank (fe_id r)"
  shows "wf_tree db"
proof -
  have "acyclic (parent_rel db)"
    by (rule acyclicI_order [where f = rank]) (auto simp: parent_rel_def assms(3))
  then show ?thesis using assms(1,2) by (simp add: wf_tree_def)
qed

section \<open>Walking down\<close>

text \<open>
  \<open>WITH RECURSIVE tree ... UNION ALL\<close>: level after level, each row carrying a value computed from
  its parent's. The query never ends on a cycle; \<open>None\<close> is that outcome, and \<open>Suc (length rows)\<close>
  rounds are enough for every table without one.
\<close>

definition nextLevel ::
  "('a \<Rightarrow> FileEntryRow \<Rightarrow> 'a) \<Rightarrow> table \<Rightarrow> (FileEntryRow \<times> 'a) list \<Rightarrow> (FileEntryRow \<times> 'a) list" where
  "nextLevel f rows level =
     concat (map (\<lambda>(r, a). map (\<lambda>c. (c, f a c))
       (filter (\<lambda>c. fe_parent c = Some (fe_id r)) rows)) level)"

fun treeLevels ::
  "nat \<Rightarrow> ('a \<Rightarrow> FileEntryRow \<Rightarrow> 'a) \<Rightarrow> table \<Rightarrow> (FileEntryRow \<times> 'a) list
     \<Rightarrow> (FileEntryRow \<times> 'a) list list option" where
  "treeLevels n f rows [] = Some []"
| "treeLevels 0 f rows (x # xs) = None"
| "treeLevels (Suc n) f rows (x # xs) =
     map_option (\<lambda>rest. (x # xs) # rest) (treeLevels n f rows (nextLevel f rows (x # xs)))"

definition row_up :: "table \<Rightarrow> (FileEntryRow \<times> FileEntryRow) set" where
  "row_up rows = {(c, p). c \<in> set rows \<and> fe_parent c = Some (fe_id p)}"

lemma nextLevel_rows:
  "fst ` set (nextLevel f rows level) = {c. \<exists>r \<in> fst ` set level. (c, r) \<in> row_up rows}"
  by (force simp: nextLevel_def row_up_def)

lemma reach_one_more:
  "A \<union> {c. \<exists>r \<in> {c. \<exists>r \<in> A. (c, r) \<in> R}. (c, r) \<in> R\<^sup>*} = {c. \<exists>r \<in> A. (c, r) \<in> R\<^sup>*}"
  (is "?L = ?R")
proof
  show "?L \<subseteq> ?R" by (auto intro: rtrancl_into_rtrancl)
  show "?R \<subseteq> ?L"
  proof
    fix c assume "c \<in> ?R"
    then obtain r where "r \<in> A" "(c, r) \<in> R\<^sup>*" by blast
    from this(2,1) show "c \<in> ?L" by (cases rule: rtranclE) blast+
  qed
qed

lemma treeLevels_rows:
  "treeLevels n f rows level = Some ls \<Longrightarrow>
     fst ` set (concat ls) = {c. \<exists>r \<in> fst ` set level. (c, r) \<in> (row_up rows)\<^sup>*}"
proof (induction n f rows level arbitrary: ls rule: treeLevels.induct)
  case (3 n f rows x xs)
  then obtain rest where rest: "treeLevels n f rows (nextLevel f rows (x # xs)) = Some rest"
    and ls: "ls = (x # xs) # rest"
    by auto
  have "fst ` set (concat ls) = fst ` set (x # xs)
      \<union> {c. \<exists>r \<in> fst ` set (nextLevel f rows (x # xs)). (c, r) \<in> (row_up rows)\<^sup>*}"
    using "3.IH" [OF rest] by (simp add: ls image_Un)
  also have "\<dots> = {c. \<exists>r \<in> fst ` set (x # xs). (c, r) \<in> (row_up rows)\<^sup>*}"
    unfolding nextLevel_rows by (rule reach_one_more)
  finally show ?case .
qed auto

lemma treeLevels_total:
  assumes "wf_tree db" and "set rows \<subseteq> set db"
    and "\<And>r rs. r \<in> fst ` set level \<Longrightarrow> lineage db (Some (fe_id r)) rs \<Longrightarrow> k \<le> length rs"
    and "fst ` set level \<subseteq> set db" and "length db < n + k"
  shows "\<exists>ls. treeLevels n f rows level = Some ls"
  using assms(3-5)
proof (induction n arbitrary: level k)
  case 0
  have "level = []"
  proof (rule ccontr)
    assume "level \<noteq> []"
    then obtain r where r: "r \<in> fst ` set level" by (cases level) auto
    then obtain rs where rs: "lineage db (Some (fe_id r)) (r # rs)"
      using wf_tree_has_lineage [OF assms(1)] 0(2) by blast
    then have "k \<le> length (r # rs)" using 0(1) r by blast
    then show False
      using lineage_bound [OF _ rs] assms(1) 0(3) by (auto simp: wf_tree_def)
  qed
  then show ?case by simp
next
  case (Suc n)
  show ?case
  proof (cases level)
    case (Cons x xs)
    have "\<exists>ls. treeLevels n f rows (nextLevel f rows level) = Some ls"
    proof (rule Suc.IH [where k = "Suc k"])
      show "fst ` set (nextLevel f rows level) \<subseteq> set db"
        using assms(2) by (auto simp: nextLevel_rows row_up_def)
      show "length db < n + Suc k" using Suc.prems(3) by simp
      fix c rs assume c: "c \<in> fst ` set (nextLevel f rows level)" and rs: "lineage db (Some (fe_id c)) rs"
      then obtain r where r: "r \<in> fst ` set level" "c \<in> set db" "fe_parent c = Some (fe_id r)"
        using assms(2) by (auto simp: nextLevel_rows row_up_def)
      obtain d ds where d: "rs = d # ds" "fe_id d = fe_id c" "d \<in> set db" "lineage db (fe_parent d) ds"
        using rs by (auto simp: lineage_Some)
      then have "d = c"
        using assms(1) r(2) distinct_ids_eq by (auto simp: wf_tree_def)
      then show "Suc k \<le> length rs"
        using d r Suc.prems(1) by auto
    qed
    then show ?thesis using Cons by auto
  qed simp
qed

lemma treeLevels_enough:
  assumes "wf_tree db" and "set rows \<subseteq> set db" and "fst ` set level \<subseteq> set db"
    and "length db \<le> n"
  shows "\<exists>ls. treeLevels (Suc n) f rows level = Some ls"
  using assms by (intro treeLevels_total [where k = 0 and db = db]) auto

section \<open>Walking up\<close>

text \<open>\<open>WITH RECURSIVE up ... UNION ALL\<close>: from a row to the top, one row a round; a missing parent
  ends the walk, a cycle never does (\<open>None\<close>).\<close>

fun walkUp :: "nat \<Rightarrow> table \<Rightarrow> id option \<Rightarrow> table option" where
  "walkUp n rows None = Some []"
| "walkUp 0 rows (Some i) = None"
| "walkUp (Suc n) rows (Some i) =
     (case row_at rows i of
        None \<Rightarrow> Some []
      | Some r \<Rightarrow> map_option (\<lambda>rs. r # rs) (walkUp n rows (fe_parent r)))"

lemma walkUp_lineage:
  assumes "distinct (map fe_id rows)"
  shows "lineage rows c rs \<Longrightarrow> length rs \<le> n \<Longrightarrow> walkUp n rows c = Some rs"
proof (induction rs arbitrary: c n)
  case Nil
  then show ?case by simp
next
  case (Cons r rs)
  then obtain m where m: "n = Suc m" by (cases n) auto
  have "walkUp m rows (fe_parent r) = Some rs"
    using Cons.prems m by (intro Cons.IH) simp_all
  moreover have "row_at rows (fe_id r) = Some r"
    using Cons.prems(1) assms by (simp add: row_at_eq)
  ultimately show ?case
    using Cons.prems(1) m by simp
qed

lemma walkUp_enough:
  assumes "distinct (map fe_id rows)" and "lineage rows c rs"
  shows "walkUp (Suc (length rows)) rows c = Some rs"
  using lineage_bound [OF assms] by (intro walkUp_lineage assms) simp

section \<open>The path cache\<close>

text \<open>The path cache is correct: every row's path is its parent's path, a slash and its name.\<close>

definition paths_ok :: "table \<Rightarrow> bool" where
  "paths_ok db \<longleftrightarrow> (\<forall>r \<in> set db. CHR ''/'' \<notin> set (fe_name r)
     \<and> (case fe_parent r of
          None \<Rightarrow> fe_path r = CHR ''/'' # fe_name r
        | Some p \<Rightarrow> (\<exists>q \<in> set db. fe_id q = p \<and> fe_path r = fe_path q @ CHR ''/'' # fe_name r)))"

lemma paths_okD:
  assumes "paths_ok db" and "d \<in> set db" and "fe_parent d = Some p"
  obtains q where "q \<in> set db" "fe_id q = p" "fe_path d = fe_path q @ CHR ''/'' # fe_name d"
  using assms unfolding paths_ok_def by fastforce

lemma paths_ok_step:
  assumes "paths_ok db" and "r \<in> set db"
    and "\<And>q. q \<in> set db \<Longrightarrow> fe_parent r = Some (fe_id q) \<Longrightarrow>
       \<exists>q' \<in> set db'. fe_id q' = fe_id q \<and> fe_path q' = fe_path q"
  shows "CHR ''/'' \<notin> set (fe_name r) \<and> (case fe_parent r of None \<Rightarrow> fe_path r = CHR ''/'' # fe_name r
     | Some p \<Rightarrow> \<exists>q \<in> set db'. fe_id q = p \<and> fe_path r = fe_path q @ CHR ''/'' # fe_name r)"
proof (cases "fe_parent r")
  case None
  then show ?thesis using assms(1,2) by (auto simp: paths_ok_def)
next
  case (Some p)
  then obtain q where "q \<in> set db" "fe_id q = p" "fe_path r = fe_path q @ CHR ''/'' # fe_name r"
    using paths_okD [OF assms(1,2)] by metis
  moreover from this obtain q' where "q' \<in> set db'" "fe_id q' = fe_id q" "fe_path q' = fe_path q"
    using assms(3) [of q] Some by auto
  moreover have "CHR ''/'' \<notin> set (fe_name r)"
    using assms(1,2) by (simp add: paths_ok_def)
  ultimately show ?thesis using Some by auto
qed

text \<open>The path a lineage spells out, top first.\<close>

definition linePath :: "table \<Rightarrow> string" where
  "linePath rs = concat (map (\<lambda>r. CHR ''/'' # fe_name r) (rev rs))"

lemma linePath_Cons: "linePath (r # rs) = linePath rs @ CHR ''/'' # fe_name r"
  by (simp add: linePath_def)

lemma linePath_Nil [simp]: "linePath [] = []"
  by (simp add: linePath_def)

lemma paths_ok_lineage:
  assumes "wf_tree db"
  shows "paths_ok db \<longleftrightarrow> (\<forall>r rs. lineage db (Some (fe_id r)) (r # rs) \<longrightarrow>
     CHR ''/'' \<notin> set (fe_name r) \<and> fe_path r = linePath (r # rs))"
proof (intro iffI allI impI)
  fix r rs assume ok: "paths_ok db" and "lineage db (Some (fe_id r)) (r # rs)"
  from this(2) show "CHR ''/'' \<notin> set (fe_name r) \<and> fe_path r = linePath (r # rs)"
  proof (induction rs arbitrary: r)
    case Nil
    then show ?case using ok by (auto simp: paths_ok_def linePath_Cons)
  next
    case (Cons q rs)
    then have d: "r \<in> set db" "fe_parent r = Some (fe_id q)" "q \<in> set db"
      and lin: "lineage db (Some (fe_id q)) (q # rs)"
      by simp_all
    obtain q' where q': "q' \<in> set db" "fe_id q' = fe_id q" "fe_path r = fe_path q' @ CHR ''/'' # fe_name r"
      using paths_okD [OF ok d(1,2)] by metis
    then have "q' = q"
      using distinct_ids_eq d(3) assms by (auto simp: wf_tree_def)
    then show ?case
      using q' Cons.IH [OF lin] ok d(1) by (auto simp: linePath_Cons [of r] paths_ok_def)
  qed
next
  assume all: "\<forall>r rs. lineage db (Some (fe_id r)) (r # rs) \<longrightarrow>
     CHR ''/'' \<notin> set (fe_name r) \<and> fe_path r = linePath (r # rs)"
  show "paths_ok db"
    unfolding paths_ok_def
  proof (intro ballI)
    fix r assume r: "r \<in> set db"
    obtain rs where rs: "lineage db (Some (fe_id r)) (r # rs)"
      using wf_tree_has_lineage [OF assms r] by blast
    then have 1: "CHR ''/'' \<notin> set (fe_name r)" "fe_path r = linePath rs @ CHR ''/'' # fe_name r"
      using all by (auto simp: linePath_Cons)
    show "CHR ''/'' \<notin> set (fe_name r) \<and> (case fe_parent r of None \<Rightarrow> fe_path r = CHR ''/'' # fe_name r
        | Some p \<Rightarrow> \<exists>q \<in> set db. fe_id q = p \<and> fe_path r = fe_path q @ CHR ''/'' # fe_name r)"
    proof (cases "fe_parent r")
      case None
      then have "rs = []" using rs by simp
      then show ?thesis using 1 None by simp
    next
      case (Some p)
      then obtain q qs where q: "rs = q # qs" "fe_id q = p" "q \<in> set db" "lineage db (Some (fe_id q)) (q # qs)"
        using rs by (auto simp: lineage_Some)
      then have "fe_path q = linePath rs" using all by simp
      then show ?thesis using 1 Some q by auto
    qed
  qed
qed

end
