(* ===== verification/FileAccess.thy ===== *)
theory FileAccess
  imports Resolve FileRows
begin

text \<open>
  The access-control half of \<open>apps/api/src/files/files.service.ts\<close>: one ancestor walk per call
  builds a \<open>ResolveInput\<close> for every node asked about, and \<open>packages/authz\<close> answers them. The
  share root is the key \<open>None\<close> (\<open>null\<close> in the code). The tables are those a transaction reads;
  a call is one transaction and sees one state of them.
\<close>

section \<open>The tables and the caller\<close>

record GrantRow =
  gr_org :: id
  gr_share :: id
  gr_entry :: "id option"
  gr_user :: "id option"
  gr_team :: "id option"
  gr_permissions :: "string list"

record MemberRow =
  tm_org :: id
  tm_team :: id
  tm_user :: id

record access_db =
  db_entries :: table
  db_members :: "MemberRow list"
  db_grants :: "GrantRow list"

record Caller =
  c_org :: id
  c_user :: id
  c_admin :: bool

type_synonym AccessMap = "id option \<Rightarrow> ResolveInput option"

definition ROOT :: id where
  "ROOT = ''share-root''"

fun principalOf :: "GrantRow \<Rightarrow> Principal option" where
  "principalOf row =
     (case gr_user row of
        Some u \<Rightarrow> Some (User u)
      | None \<Rightarrow> (case gr_team row of Some t \<Rightarrow> Some (Team t) | None \<Rightarrow> None))"

definition syntheticGrants :: "Caller \<Rightarrow> bool \<Rightarrow> Grant list" where
  "syntheticGrants caller isTarget =
     (if \<not> c_admin caller then []
      else if isTarget then [\<lparr>principal = User (c_user caller), permissions = PERMISSIONS\<rparr>] else [])"

section \<open>The ancestor walk\<close>

text \<open>\<open>WITH RECURSIVE ancestry ... UNION\<close>: each round joins the rows found by the round before with
  their parents, drops what is already there, and stops when nothing is new.\<close>

type_synonym link = "id \<times> id option"

definition linkOf :: "FileEntryRow \<Rightarrow> link" where
  "linkOf r = (fe_id r, fe_parent r)"

definition ancestryStep :: "table \<Rightarrow> link list \<Rightarrow> link list \<Rightarrow> link list" where
  "ancestryStep rows work acc =
     dedupe (filter (\<lambda>l. list_ex (\<lambda>w. snd w = Some (fst l)) work \<and> l \<notin> set acc) (map linkOf rows))"

lemma ancestryStep_new:
  "l \<in> set (ancestryStep rows work acc) \<longleftrightarrow>
     l \<in> linkOf ` set rows \<and> l \<notin> set acc \<and> (\<exists>w \<in> set work. snd w = Some (fst l))"
  by (auto simp: ancestryStep_def list_ex_iff)

function ancestryLoop :: "table \<Rightarrow> link list \<Rightarrow> link list \<Rightarrow> link list" where
  "ancestryLoop rows work acc =
     (if ancestryStep rows work acc = [] then acc
      else ancestryLoop rows (ancestryStep rows work acc) (acc @ ancestryStep rows work acc))"
  by pat_completeness auto

termination
proof (relation "measure (\<lambda>(rows, work, acc). card (linkOf ` set rows - set acc))")
  fix rows work acc
  let ?new = "ancestryStep rows work acc"
  assume "?new \<noteq> []"
  then obtain l where "l \<in> set ?new" by (cases ?new) auto
  then have "l \<in> linkOf ` set rows - set acc" and "l \<in> set ?new"
    using ancestryStep_new [of l rows work acc] by auto
  then have "linkOf ` set rows - set (acc @ ?new) \<subset> linkOf ` set rows - set acc"
    by auto
  then show "((rows, ?new, acc @ ?new), rows, work, acc)
      \<in> measure (\<lambda>(rows, work, acc). card (linkOf ` set rows - set acc))"
    by (simp add: psubset_card_mono)
qed simp

declare ancestryLoop.simps [simp del]

definition ancestry :: "table \<Rightarrow> id list \<Rightarrow> link list" where
  "ancestry rows targets =
     (let seed = dedupe (map linkOf (filter (\<lambda>r. fe_id r \<in> set targets) rows))
      in ancestryLoop rows seed seed)"

section \<open>Chains\<close>

text \<open>\<open>parentOf\<close> is \<open>new Map(rows)\<close>: the last pair of a key counts, \<open>size\<close> is the number of keys.
  The loop of \<open>chainTo\<close> runs at most \<open>parentOf.size + 1\<close> times.\<close>

fun chainLoop ::
  "(id \<Rightarrow> id option option) \<Rightarrow> (id \<Rightarrow> id option \<Rightarrow> AclNode) \<Rightarrow> nat \<Rightarrow> id option \<Rightarrow> AclNode list
     \<Rightarrow> AclNode list option" where
  "chainLoop parentOf node steps None descending = Some descending"
| "chainLoop parentOf node 0 (Some cursor) descending = None"
| "chainLoop parentOf node (Suc steps) (Some cursor) descending =
     (case parentOf cursor of
        None \<Rightarrow> None
      | Some parent \<Rightarrow>
          chainLoop parentOf node steps parent (descending @ [node cursor parent]))"

definition grantsOn :: "(id \<Rightarrow> Grant list option) \<Rightarrow> id \<Rightarrow> Grant list" where
  "grantsOn granted key = (case granted key of None \<Rightarrow> [] | Some gs \<Rightarrow> gs)"

text \<open>The node pushed for one row; a top-level entry is re-pointed at the synthesised root.\<close>

definition chainNode ::
  "id option \<Rightarrow> id \<Rightarrow> (id \<Rightarrow> Grant list option) \<Rightarrow> Caller \<Rightarrow> id \<Rightarrow> id option \<Rightarrow> AclNode" where
  "chainNode target shareId granted caller cursor parent =
     \<lparr>acl_id = cursor,
      parentId = Some (case parent of None \<Rightarrow> shareId | Some p \<Rightarrow> p),
      grants = syntheticGrants caller (target = Some cursor) @ grantsOn granted cursor\<rparr>"

definition chainTo ::
  "id option \<Rightarrow> id \<Rightarrow> link list \<Rightarrow> (id \<Rightarrow> Grant list option) \<Rightarrow> Caller \<Rightarrow> AclNode list option" where
  "chainTo target shareId links granted caller =
     (let root = \<lparr>acl_id = shareId, parentId = None,
                  grants = syntheticGrants caller (target = None) @ grantsOn granted ROOT\<rparr>;
          parentOf = map_of (rev links);
          keyCount = length (dedupe (map fst links))
      in case target of
           None \<Rightarrow> Some [root]
         | Some t \<Rightarrow>
             map_option (\<lambda>descending. root # rev descending)
               (chainLoop parentOf (chainNode target shareId granted caller) (Suc keyCount) (Some t) []))"

section \<open>The access map\<close>

text \<open>The loop over the grant rows: rows of one node in the order the query returned them.\<close>

fun grantStep :: "GrantRow \<Rightarrow> (id \<Rightarrow> Grant list option) \<Rightarrow> (id \<Rightarrow> Grant list option)" where
  "grantStep row granted =
     (case principalOf row of
        None \<Rightarrow> granted
      | Some p \<Rightarrow>
          (let perms = List.map_filter parsePermission (gr_permissions row);
               key = (case gr_entry row of None \<Rightarrow> ROOT | Some e \<Rightarrow> e)
           in if length perms = 0 then granted
              else case granted key of
                     None \<Rightarrow> granted(key \<mapsto> [\<lparr>principal = p, permissions = perms\<rparr>])
                   | Some existing \<Rightarrow>
                       granted(key \<mapsto> existing @ [\<lparr>principal = p, permissions = perms\<rparr>])))"

definition subjectOf :: "access_db \<Rightarrow> Caller \<Rightarrow> Subject" where
  "subjectOf db caller =
     \<lparr>userId = c_user caller,
      teamIds = map tm_team
        (filter (\<lambda>m. tm_org m = c_org caller \<and> tm_user m = c_user caller) (db_members db))\<rparr>"

definition callerGrants :: "access_db \<Rightarrow> Caller \<Rightarrow> id \<Rightarrow> id list \<Rightarrow> GrantRow list" where
  "callerGrants db caller shareId keys =
     filter (\<lambda>g. gr_org g = c_org caller \<and> gr_share g = shareId
         \<and> (case gr_entry g of None \<Rightarrow> True | Some e \<Rightarrow> e \<in> set keys)
         \<and> (gr_user g = Some (c_user caller)
            \<or> (case gr_team g of None \<Rightarrow> False | Some t \<Rightarrow> t \<in> set (teamIds (subjectOf db caller)))))
       (db_grants db)"

definition accessFor :: "access_db \<Rightarrow> Caller \<Rightarrow> id \<Rightarrow> id option list \<Rightarrow> AccessMap" where
  "accessFor db caller shareId nodes =
     (let targets = dedupe (List.map_filter (\<lambda>n. n) nodes);
          wantsRoot = list_ex (\<lambda>n. n = None) nodes;
          links = (if length targets = 0 then []
                   else ancestry (in_share (c_org caller) shareId (db_entries db)) targets);
          granted = fold grantStep (callerGrants db caller shareId (map fst links)) (\<lambda>_. None);
          build = (\<lambda>target. map_option (\<lambda>ch. \<lparr>chain = ch, subject = subjectOf db caller\<rparr>)
                     (chainTo target shareId links granted caller))
      in (\<lambda>n. case n of
                None \<Rightarrow> if wantsRoot then build None else None
              | Some t \<Rightarrow> if t \<in> set targets then build (Some t) else None))"

definition permissionsOf :: "AccessMap \<Rightarrow> id option \<Rightarrow> authz_error + Permission set" where
  "permissionsOf access node =
     (case access node of None \<Rightarrow> Inr {} | Some input \<Rightarrow> resolveEffective input)"

definition effectiveAt ::
  "access_db \<Rightarrow> Caller \<Rightarrow> id \<Rightarrow> id option \<Rightarrow> authz_error + Permission set" where
  "effectiveAt db caller shareId node = permissionsOf (accessFor db caller shareId [node]) node"

record MoveAccess =
  ma_allowed :: bool
  ma_source :: "Permission set"
  ma_destination :: "Permission set"

definition accessForMove ::
  "access_db \<Rightarrow> Caller \<Rightarrow> id \<Rightarrow> id \<Rightarrow> id option \<Rightarrow> authz_error + MoveAccess" where
  "accessForMove db caller shareId entryId destination =
     (let access = accessFor db caller shareId [Some entryId, destination] in
      bindE (case (access (Some entryId), access destination) of
               (Some source, Some target) \<Rightarrow> canMove source target
             | _ \<Rightarrow> Inr False) (\<lambda>ok.
      bindE (permissionsOf access (Some entryId)) (\<lambda>s.
      bindE (permissionsOf access destination) (\<lambda>d.
        Inr \<lparr>ma_allowed = ok, ma_source = s, ma_destination = d\<rparr>))))"

definition effectiveForRows ::
  "access_db \<Rightarrow> Caller \<Rightarrow> id \<Rightarrow> id list \<Rightarrow> authz_error + (id \<times> Permission set) list" where
  "effectiveForRows db caller shareId ids =
     (let access = accessFor db caller shareId (map Some ids)
      in mapE (\<lambda>i. bindE (permissionsOf access (Some i)) (\<lambda>s. Inr (i, s))) ids)"

section \<open>The ancestor walk computes the closure\<close>

definition link_succ :: "table \<Rightarrow> (link \<times> link) set" where
  "link_succ rows = {(a, l). l \<in> linkOf ` set rows \<and> snd a = Some (fst l)}"

lemma ancestryLoop_set:
  assumes "set work \<subseteq> set acc" and "set acc \<subseteq> linkOf ` set rows"
    and "\<And>a l. a \<in> set acc \<Longrightarrow> a \<notin> set work \<Longrightarrow> (a, l) \<in> link_succ rows \<Longrightarrow> l \<in> set acc"
  shows "set (ancestryLoop rows work acc) = (link_succ rows)\<^sup>* `` set acc"
  using assms
proof (induction rows work acc rule: ancestryLoop.induct)
  case (1 rows work acc)
  let ?new = "ancestryStep rows work acc"
  have step: "l \<in> set acc \<or> l \<in> set ?new" if "a \<in> set acc" "(a, l) \<in> link_succ rows" for a l
  proof (cases "a \<in> set work")
    case True
    then show ?thesis
      using that(2) unfolding ancestryStep_new link_succ_def by blast
  next
    case False
    then show ?thesis
      using 1(4) [OF that(1) _ that(2)] by simp
  qed
  have new_succ: "set ?new \<subseteq> (link_succ rows)\<^sup>* `` set acc"
  proof
    fix l assume "l \<in> set ?new"
    then obtain w where "w \<in> set work" "(w, l) \<in> link_succ rows"
      unfolding ancestryStep_new link_succ_def by blast
    then show "l \<in> (link_succ rows)\<^sup>* `` set acc"
      using 1(2) by blast
  qed
  show ?case
  proof (cases "?new = []")
    case True
    have "(link_succ rows)\<^sup>* `` set acc = set acc"
      by (rule Image_closed_trancl) (use step True in auto)
    then show ?thesis
      using True by (simp add: ancestryLoop.simps [of rows work acc])
  next
    case False
    have "set (ancestryLoop rows ?new (acc @ ?new)) = (link_succ rows)\<^sup>* `` set (acc @ ?new)"
    proof (rule 1(1) [OF False])
      show "set ?new \<subseteq> set (acc @ ?new)" by simp
      show "set (acc @ ?new) \<subseteq> linkOf ` set rows"
        using 1(3) by (auto simp: ancestryStep_new)
      show "l \<in> set (acc @ ?new)"
        if "a \<in> set (acc @ ?new)" "a \<notin> set ?new" "(a, l) \<in> link_succ rows" for a l
        using that step by auto
    qed
    also have "\<dots> = (link_succ rows)\<^sup>* `` set acc"
      using new_succ by (auto intro: rtrancl_trans)
    finally show ?thesis
      using False by (simp add: ancestryLoop.simps [of rows work acc])
  qed
qed

lemma set_ancestry:
  "set (ancestry rows targets) =
     (link_succ rows)\<^sup>* `` (linkOf ` {r \<in> set rows. fe_id r \<in> set targets})"
  unfolding ancestry_def Let_def by (subst ancestryLoop_set) auto

lemma ancestry_rows: "set (ancestry rows targets) \<subseteq> linkOf ` set rows"
proof
  fix l assume "l \<in> set (ancestry rows targets)"
  then obtain a where "(a, l) \<in> (link_succ rows)\<^sup>*" "a \<in> linkOf ` set rows"
    by (auto simp: set_ancestry)
  then show "l \<in> linkOf ` set rows"
  proof (induction rule: rtrancl_induct)
    case base
    then show ?case .
  next
    case (step y z)
    then show ?case by (simp add: link_succ_def)
  qed
qed

lemma lineage_in_closure:
  assumes "lineage rows (snd a) rs" and "r \<in> set rs"
  shows "(a, linkOf r) \<in> (link_succ rows)\<^sup>*"
  using assms
proof (induction rs arbitrary: a)
  case Nil
  then show ?case by simp
next
  case (Cons s rs)
  have s: "(a, linkOf s) \<in> link_succ rows"
    using Cons.prems(1) by (simp add: link_succ_def linkOf_def image_iff) metis
  show ?case
  proof (cases "r = s")
    case True
    then show ?thesis using s by simp
  next
    case False
    then have "(linkOf s, linkOf r) \<in> (link_succ rows)\<^sup>*"
      using Cons.prems by (intro Cons.IH) (auto simp: linkOf_def)
    with s show ?thesis by (rule converse_rtrancl_into_rtrancl)
  qed
qed

lemma lineage_in_ancestry:
  assumes "lineage rows (Some t) rs" and "t \<in> set targets" and "r \<in> set rs"
  shows "linkOf r \<in> set (ancestry rows targets)"
proof -
  obtain s ss where rs: "rs = s # ss" "fe_id s = t" "s \<in> set rows" "lineage rows (fe_parent s) ss"
    using assms(1) by (auto simp: lineage_Some)
  have "(linkOf s, linkOf r) \<in> (link_succ rows)\<^sup>*"
    using lineage_in_closure [of rows "linkOf s" ss r] rs(1,4) assms(3)
    by (cases "r = s") (auto simp: linkOf_def)
  then show ?thesis
    using rs assms(2) by (auto simp: set_ancestry)
qed

section \<open>The chain is the lineage\<close>

fun walk :: "(id \<Rightarrow> id option option) \<Rightarrow> id option \<Rightarrow> link list \<Rightarrow> bool" where
  "walk po c [] = (c = None)"
| "walk po c (l # ls) = (c = Some (fst l) \<and> po (fst l) = Some (snd l) \<and> walk po (snd l) ls)"

lemma chainLoop_Some:
  "chainLoop po node f c d = Some d' \<longleftrightarrow>
     (\<exists>ls. walk po c ls \<and> length ls \<le> f \<and> d' = d @ map (\<lambda>l. node (fst l) (snd l)) ls)"
proof (induction po node f c d rule: chainLoop.induct)
  case (1 po node steps d)
  have "walk po None ls \<longleftrightarrow> ls = []" for ls by (cases ls) auto
  then show ?case by auto
next
  case (2 po node c d)
  then show ?case by auto
next
  case (3 po node f c d)
  show ?case
  proof (cases "po c")
    case None
    have "\<not> walk po (Some c) ls" for ls using None by (cases ls) auto
    then show ?thesis using None by simp
  next
    case (Some p)
    have "walk po (Some c) ls \<longleftrightarrow> (\<exists>ls'. ls = (c, p) # ls' \<and> walk po p ls')" for ls
      using Some by (cases ls) auto
    then show ?thesis
      using 3 [OF Some] Some by auto
  qed
qed

lemma map_of_unique:
  assumes "\<And>x y. (i, x) \<in> set xs \<Longrightarrow> (i, y) \<in> set xs \<Longrightarrow> x = y"
  shows "map_of xs i = Some p \<longleftrightarrow> (i, p) \<in> set xs"
  using assms map_of_SomeD weak_map_of_SomeI by metis

lemma parentOf_iff:
  assumes "distinct (map fe_id rows)"
  shows "map_of (rev (ancestry rows targets)) i = Some p \<longleftrightarrow> (i, p) \<in> set (ancestry rows targets)"
proof -
  have "x = y" if xy: "(i, x) \<in> set (rev (ancestry rows targets))"
    "(i, y) \<in> set (rev (ancestry rows targets))" for x y
  proof -
    obtain r s where "r \<in> set rows" "(i, x) = linkOf r" "s \<in> set rows" "(i, y) = linkOf s"
      using xy ancestry_rows [of rows targets] unfolding set_rev by blast
    then show ?thesis
      using distinct_ids_eq [OF assms, of r s] by (simp add: linkOf_def)
  qed
  then have "map_of (rev (ancestry rows targets)) i = Some p
      \<longleftrightarrow> (i, p) \<in> set (rev (ancestry rows targets))"
    by (rule map_of_unique)
  then show ?thesis by simp
qed

lemma walk_lineage:
  assumes "distinct (map fe_id rows)" and "t \<in> set targets"
  shows "walk (map_of (rev (ancestry rows targets))) (Some t) ls
     \<longleftrightarrow> (\<exists>rs. lineage rows (Some t) rs \<and> ls = map linkOf rs)"
proof
  let ?po = "map_of (rev (ancestry rows targets))"
  have "\<exists>rs. lineage rows c rs \<and> ls = map linkOf rs" if "walk ?po c ls" for c
    using that
  proof (induction ls arbitrary: c)
    case Nil
    then show ?case by (intro exI [of _ "[]"]) simp
  next
    case (Cons l ls)
    then have "(fst l, snd l) \<in> set (ancestry rows targets)"
      using parentOf_iff [OF assms(1)] by simp
    then obtain r where r: "r \<in> set rows" "l = linkOf r"
      using ancestry_rows [of rows targets] by auto
    obtain rs where "lineage rows (snd l) rs" "ls = map linkOf rs"
      using Cons by auto
    then show ?case
      using r Cons.prems by (intro exI [of _ "r # rs"]) (simp add: linkOf_def)
  qed
  then show "walk ?po (Some t) ls \<Longrightarrow> \<exists>rs. lineage rows (Some t) rs \<and> ls = map linkOf rs" .
next
  assume "\<exists>rs. lineage rows (Some t) rs \<and> ls = map linkOf rs"
  then obtain rs where rs: "lineage rows (Some t) rs" "ls = map linkOf rs" by blast
  have "walk (map_of (rev (ancestry rows targets))) c (map linkOf rs)"
    if "lineage rows c rs" "\<forall>r \<in> set rs. linkOf r \<in> set (ancestry rows targets)" for c rs
    using that
    by (induction rs arbitrary: c) (auto simp: parentOf_iff [OF assms(1)] linkOf_def)
  then show "walk (map_of (rev (ancestry rows targets))) (Some t) ls"
    using rs lineage_in_ancestry [OF rs(1) assms(2)] by blast
qed

lemma lineage_length:
  assumes "distinct (map fe_id rows)" and "t \<in> set targets" and "lineage rows (Some t) rs"
  shows "length rs \<le> length (dedupe (map fst (ancestry rows targets)))"
proof -
  have "length rs = card (set (map fe_id rs))"
    using distinct_card [OF lineage_distinct [OF assms(1,3)]] by simp
  also have "\<dots> \<le> card (set (map fst (ancestry rows targets)))"
    using lineage_in_ancestry [OF assms(3,2)]
    by (intro card_mono) (force simp: linkOf_def image_iff)+
  also have "\<dots> = length (dedupe (map fst (ancestry rows targets)))"
    using distinct_card [OF distinct_dedupe] by (metis set_dedupe)
  finally show ?thesis .
qed

lemma chainLoop_lineage:
  assumes "distinct (map fe_id rows)" and "t \<in> set targets"
  shows "chainLoop (map_of (rev (ancestry rows targets))) node
           (Suc (length (dedupe (map fst (ancestry rows targets))))) (Some t) [] = Some d
     \<longleftrightarrow> (\<exists>rs. lineage rows (Some t) rs \<and> d = map (\<lambda>r. node (fe_id r) (fe_parent r)) rs)"
    (is "?L \<longleftrightarrow> ?R")
proof
  assume ?L
  then show ?R
    unfolding chainLoop_Some walk_lineage [OF assms] by (auto simp: linkOf_def comp_def)
next
  assume ?R
  then obtain rs where rs: "lineage rows (Some t) rs" "d = map (\<lambda>r. node (fe_id r) (fe_parent r)) rs"
    by blast
  have "length rs \<le> Suc (length (dedupe (map fst (ancestry rows targets))))"
    using lineage_length [OF assms rs(1)] by simp
  with rs show ?L
    unfolding chainLoop_Some walk_lineage [OF assms]
    by (intro exI [of _ "map linkOf rs"]) (auto simp: linkOf_def)
qed

section \<open>What the access map holds\<close>

definition toGrant :: "GrantRow \<Rightarrow> Grant option" where
  "toGrant row =
     (case principalOf row of
        None \<Rightarrow> None
      | Some p \<Rightarrow>
          (let perms = List.map_filter parsePermission (gr_permissions row)
           in if perms = [] then None else Some \<lparr>principal = p, permissions = perms\<rparr>))"

text \<open>The caller's grants on one node, as the tables hold them, independent of any walk.\<close>

definition nodeGrants :: "access_db \<Rightarrow> Caller \<Rightarrow> id \<Rightarrow> id option \<Rightarrow> Grant list" where
  "nodeGrants db caller shareId n =
     List.map_filter toGrant
       (filter (\<lambda>g. gr_org g = c_org caller \<and> gr_share g = shareId \<and> gr_entry g = n
           \<and> (gr_user g = Some (c_user caller)
              \<or> (case gr_team g of None \<Rightarrow> False
                 | Some t \<Rightarrow> t \<in> set (teamIds (subjectOf db caller)))))
         (db_grants db))"

definition keyOf :: "GrantRow \<Rightarrow> id" where
  "keyOf row = (case gr_entry row of None \<Rightarrow> ROOT | Some e \<Rightarrow> e)"

lemma grantsOn_step:
  "grantsOn (grantStep row g) k =
     grantsOn g k @ (if keyOf row = k then case toGrant row of None \<Rightarrow> [] | Some x \<Rightarrow> [x] else [])"
  by (auto simp: grantsOn_def toGrant_def keyOf_def Let_def split: option.splits)

lemma grantsOn_fold:
  "grantsOn (fold grantStep rows g) k =
     grantsOn g k @ List.map_filter toGrant (filter (\<lambda>r. keyOf r = k) rows)"
proof (induction rows arbitrary: g)
  case Nil
  then show ?case by (simp add: List.map_filter_simps)
next
  case (Cons r rs)
  then show ?case
    by (simp del: grantStep.simps add: grantsOn_step List.map_filter_simps split: option.splits)
qed

lemma grantsOn_empty [simp]: "grantsOn (\<lambda>_. None) k = []"
  by (simp add: grantsOn_def)

lemma grantsOn_entry:
  assumes "e \<in> set keys" and "e \<noteq> ROOT"
  shows "grantsOn (fold grantStep (callerGrants db caller s keys) (\<lambda>_. None)) e
       = nodeGrants db caller s (Some e)"
proof -
  have "(case gr_entry g of None \<Rightarrow> True | Some e \<Rightarrow> e \<in> set keys) \<and> keyOf g = e
      \<longleftrightarrow> gr_entry g = Some e" for g
    using assms by (cases "gr_entry g") (auto simp: keyOf_def)
  then show ?thesis
    unfolding grantsOn_fold nodeGrants_def callerGrants_def filter_filter
    by (simp, intro arg_cong [where f = "List.map_filter toGrant"] filter_cong [OF refl]) blast
qed

lemma grantsOn_root:
  assumes "ROOT \<notin> set keys"
  shows "grantsOn (fold grantStep (callerGrants db caller s keys) (\<lambda>_. None)) ROOT
       = nodeGrants db caller s None"
proof -
  have "(case gr_entry g of None \<Rightarrow> True | Some e \<Rightarrow> e \<in> set keys) \<and> keyOf g = ROOT
      \<longleftrightarrow> gr_entry g = None" for g
    using assms by (cases "gr_entry g") (auto simp: keyOf_def)
  then show ?thesis
    unfolding grantsOn_fold nodeGrants_def callerGrants_def filter_filter
    by (simp, intro arg_cong [where f = "List.map_filter toGrant"] filter_cong [OF refl]) blast
qed

text \<open>Ids are primary keys, and no uuid is the word \<open>share-root\<close>.\<close>

definition wf_access :: "access_db \<Rightarrow> bool" where
  "wf_access db \<longleftrightarrow> distinct (map fe_id (db_entries db)) \<and> ROOT \<notin> fe_id ` set (db_entries db)"

definition share_rows :: "access_db \<Rightarrow> Caller \<Rightarrow> id \<Rightarrow> table" where
  "share_rows db caller shareId = in_share (c_org caller) shareId (db_entries db)"

definition rootNode :: "access_db \<Rightarrow> Caller \<Rightarrow> id \<Rightarrow> bool \<Rightarrow> AclNode" where
  "rootNode db caller shareId isTarget =
     \<lparr>acl_id = shareId, parentId = None,
      grants = syntheticGrants caller isTarget @ nodeGrants db caller shareId None\<rparr>"

definition rowNode :: "access_db \<Rightarrow> Caller \<Rightarrow> id \<Rightarrow> id \<Rightarrow> FileEntryRow \<Rightarrow> AclNode" where
  "rowNode db caller shareId target r =
     \<lparr>acl_id = fe_id r,
      parentId = Some (case fe_parent r of None \<Rightarrow> shareId | Some p \<Rightarrow> p),
      grants = syntheticGrants caller (target = fe_id r) @ nodeGrants db caller shareId (Some (fe_id r))\<rparr>"

definition rowChain :: "access_db \<Rightarrow> Caller \<Rightarrow> id \<Rightarrow> id \<Rightarrow> table \<Rightarrow> AclNode list" where
  "rowChain db caller shareId target rs =
     rootNode db caller shareId False # rev (map (rowNode db caller shareId target) rs)"

lemma wf_access_share:
  assumes "wf_access db"
  shows "distinct (map fe_id (share_rows db caller s))"
    and "ROOT \<notin> fe_id ` set (share_rows db caller s)"
  using assms by (auto simp: wf_access_def share_rows_def in_share_def distinct_map_filter)

lemma ancestry_no_ROOT:
  assumes "wf_access db"
  shows "ROOT \<notin> set (map fst (ancestry (share_rows db caller s) targets))"
proof
  assume "ROOT \<in> set (map fst (ancestry (share_rows db caller s) targets))"
  then obtain r where "r \<in> set (share_rows db caller s)" "fe_id r = ROOT"
    using ancestry_rows [of "share_rows db caller s" targets] by (force simp: linkOf_def)
  then show False
    using wf_access_share(2) [OF assms] by (metis image_eqI)
qed

lemma chainTo_entry:
  fixes targets db caller s
  defines "links \<equiv> ancestry (share_rows db caller s) targets"
  defines "granted \<equiv> fold grantStep (callerGrants db caller s (map fst links)) (\<lambda>_. None)"
  assumes wf: "wf_access db" and t: "t \<in> set targets"
  shows "lineage (share_rows db caller s) (Some t) rs
      \<Longrightarrow> chainTo (Some t) s links granted caller = Some (rowChain db caller s t rs)"
    and "(\<nexists>rs. lineage (share_rows db caller s) (Some t) rs)
      \<Longrightarrow> chainTo (Some t) s links granted caller = None"
proof -
  let ?rows = "share_rows db caller s"
  let ?node = "chainNode (Some t) s granted caller"
  let ?loop = "chainLoop (map_of (rev links)) ?node (Suc (length (dedupe (map fst links)))) (Some t) []"
  note dist = wf_access_share(1) [OF wf]
  have loop: "?loop = Some d \<longleftrightarrow>
      (\<exists>rs. lineage ?rows (Some t) rs \<and> d = map (\<lambda>r. ?node (fe_id r) (fe_parent r)) rs)" for d
    unfolding links_def by (rule chainLoop_lineage [OF dist t])
  have chainTo: "chainTo (Some t) s links granted caller =
      map_option (\<lambda>d. \<lparr>acl_id = s, parentId = None,
          grants = syntheticGrants caller False @ grantsOn granted ROOT\<rparr> # rev d) ?loop"
    unfolding chainTo_def Let_def by simp
  show "chainTo (Some t) s links granted caller = None"
    if none: "\<nexists>rs. lineage ?rows (Some t) rs"
  proof (cases ?loop)
    case None
    then show ?thesis unfolding chainTo by (simp only: option.map)
  next
    case (Some d)
    then show ?thesis using loop [of d] none by blast
  qed
  show "chainTo (Some t) s links granted caller = Some (rowChain db caller s t rs)"
    if rs: "lineage ?rows (Some t) rs"
  proof -
    have "?node (fe_id r) (fe_parent r) = rowNode db caller s t r" if "r \<in> set rs" for r
    proof -
      have "fe_id r \<in> set (map fst links)"
        using lineage_in_ancestry [OF rs t that] by (force simp: links_def linkOf_def)
      moreover have "fe_id r \<noteq> ROOT"
        using wf_access_share(2) [OF wf] lineage_rows [OF rs] that by (metis image_eqI subsetD)
      ultimately have "grantsOn granted (fe_id r) = nodeGrants db caller s (Some (fe_id r))"
        unfolding granted_def by (rule grantsOn_entry)
      then show ?thesis by (simp add: rowNode_def chainNode_def)
    qed
    then have "map (\<lambda>r. ?node (fe_id r) (fe_parent r)) rs = map (rowNode db caller s t) rs"
      by simp
    then have l: "?loop = Some (map (rowNode db caller s t) rs)"
      using loop rs by metis
    have "grantsOn granted ROOT = nodeGrants db caller s None"
      unfolding granted_def links_def by (rule grantsOn_root) (rule ancestry_no_ROOT [OF wf])
    then show ?thesis
      unfolding chainTo l by (simp add: rowChain_def rootNode_def)
  qed
qed

lemma targets_iff [simp]:
  "t \<in> set (List.map_filter (\<lambda>n. n) nodes) \<longleftrightarrow> Some t \<in> set nodes"
  by (simp add: set_map_filter)

lemma accessFor_entry:
  assumes "wf_access db" and "Some t \<in> set nodes"
  shows "lineage (share_rows db caller s) (Some t) rs \<Longrightarrow>
      accessFor db caller s nodes (Some t)
        = Some \<lparr>chain = rowChain db caller s t rs, subject = subjectOf db caller\<rparr>"
    and "(\<nexists>rs. lineage (share_rows db caller s) (Some t) rs) \<Longrightarrow>
      accessFor db caller s nodes (Some t) = None"
proof -
  let ?targets = "dedupe (List.map_filter (\<lambda>n. n) nodes)"
  have t: "t \<in> set ?targets"
    using assms(2) by simp
  then have "length ?targets \<noteq> 0"
    by (metis empty_iff length_0_conv list.set(1))
  then have "accessFor db caller s nodes (Some t) =
      map_option (\<lambda>ch. \<lparr>chain = ch, subject = subjectOf db caller\<rparr>)
        (chainTo (Some t) s (ancestry (share_rows db caller s) ?targets)
          (fold grantStep (callerGrants db caller s
             (map fst (ancestry (share_rows db caller s) ?targets))) (\<lambda>_. None)) caller)"
    using assms(2) by (simp add: accessFor_def Let_def share_rows_def)
  then show "lineage (share_rows db caller s) (Some t) rs \<Longrightarrow>
      accessFor db caller s nodes (Some t)
        = Some \<lparr>chain = rowChain db caller s t rs, subject = subjectOf db caller\<rparr>"
    and "(\<nexists>rs. lineage (share_rows db caller s) (Some t) rs) \<Longrightarrow>
      accessFor db caller s nodes (Some t) = None"
    using chainTo_entry [OF assms(1) t] by simp_all
qed

lemma accessFor_root:
  assumes "wf_access db" and "None \<in> set nodes"
  shows "accessFor db caller s nodes None
       = Some \<lparr>chain = [rootNode db caller s True], subject = subjectOf db caller\<rparr>"
proof -
  let ?targets = "dedupe (List.map_filter (\<lambda>n. n) nodes)"
  let ?links = "if length ?targets = 0 then [] else ancestry (share_rows db caller s) ?targets"
  have "ROOT \<notin> set (map fst ?links)"
    using ancestry_no_ROOT [OF assms(1)] by simp
  then have "grantsOn (fold grantStep (callerGrants db caller s (map fst ?links)) (\<lambda>_. None)) ROOT
      = nodeGrants db caller s None"
    by (rule grantsOn_root)
  then show ?thesis
    using assms(2)
    by (auto simp add: accessFor_def Let_def share_rows_def chainTo_def rootNode_def list_ex_iff)
qed

section \<open>Every chain is one the resolver accepts\<close>

lemma wf_chain_snoc:
  assumes "wf_chain ch" and "parentId n = Some (acl_id (last ch))"
  shows "wf_chain (ch @ [n])"
  unfolding wf_chain_def
proof (intro conjI allI impI)
  show "ch @ [n] \<noteq> []" by simp
  show "parentId (hd (ch @ [n])) = None"
    using assms(1) by (simp add: wf_chain_def)
  fix i assume i: "Suc i < length (ch @ [n])"
  show "parentId ((ch @ [n]) ! Suc i) = Some (acl_id ((ch @ [n]) ! i))"
  proof (cases "Suc i < length ch")
    case True
    then show ?thesis using assms(1) by (simp add: wf_chain_def nth_append)
  next
    case False
    then have "i = length ch - 1" "Suc i = length ch"
      using i by auto
    then show ?thesis
      using assms by (simp add: nth_append wf_chain_def last_conv_nth)
  qed
qed

lemma wf_chain_walk:
  assumes "walk po c ls" and "parentId root = None" and "acl_id root = s"
  shows "wf_chain (root # rev (map (\<lambda>l. chainNode target s granted caller (fst l) (snd l)) ls))
       \<and> acl_id (last (root # rev (map (\<lambda>l. chainNode target s granted caller (fst l) (snd l)) ls)))
           = (case c of None \<Rightarrow> s | Some i \<Rightarrow> i)"
  using assms(1)
proof (induction ls arbitrary: c)
  case Nil
  then show ?case using assms(2,3) by (simp add: wf_chain_def)
next
  case (Cons l ls)
  let ?ch = "root # rev (map (\<lambda>l. chainNode target s granted caller (fst l) (snd l)) ls)"
  have "wf_chain ?ch \<and> acl_id (last ?ch) = (case snd l of None \<Rightarrow> s | Some i \<Rightarrow> i)"
    using Cons.prems by (intro Cons.IH) simp
  then have "wf_chain (?ch @ [chainNode target s granted caller (fst l) (snd l)])"
    by (intro wf_chain_snoc) (simp_all add: chainNode_def)
  then show ?case
    using Cons.prems by (simp add: chainNode_def)
qed

lemma chainTo_wf: "chainTo target s links granted caller = Some ch \<Longrightarrow> wf_chain ch"
proof -
  assume ch: "chainTo target s links granted caller = Some ch"
  show "wf_chain ch"
  proof (cases target)
    case None
    then show ?thesis using ch by (auto simp: chainTo_def wf_chain_def)
  next
    case (Some t)
    then obtain d where d: "chainLoop (map_of (rev links)) (chainNode target s granted caller)
          (Suc (length (dedupe (map fst links)))) (Some t) [] = Some d"
      and ch: "ch = \<lparr>acl_id = s, parentId = None,
           grants = syntheticGrants caller False @ grantsOn granted ROOT\<rparr> # rev d"
      using ch by (auto simp: chainTo_def simp del: chainLoop.simps)
    obtain ls where "walk (map_of (rev links)) (Some t) ls"
      "d = map (\<lambda>l. chainNode target s granted caller (fst l) (snd l)) ls"
      using d unfolding chainLoop_Some by auto
    then show ?thesis
      using wf_chain_walk [of "map_of (rev links)" "Some t" ls] ch by simp
  qed
qed

lemma accessFor_wf: "accessFor db caller s nodes n = Some input \<Longrightarrow> wf_chain (chain input)"
  by (auto simp: accessFor_def Let_def split: option.splits if_splits dest: chainTo_wf)

lemma permissionsOf_total: "\<exists>S. permissionsOf (accessFor db caller s nodes) n = Inr S"
proof (cases "accessFor db caller s nodes n")
  case None
  then show ?thesis by (simp add: permissionsOf_def)
next
  case (Some input)
  then show ?thesis
    using accessFor_wf [OF Some] resolveEffective_Inr [of input] by (simp add: permissionsOf_def)
qed

lemma permissionsOf_entry:
  assumes "wf_access db" and "Some t \<in> set nodes" and "lineage (share_rows db caller s) (Some t) rs"
  shows "permissionsOf (accessFor db caller s nodes) (Some t) =
     Inr {perm. allowed (rowChain db caller s t rs) (subjectOf db caller) perm}"
  using accessFor_entry(1) [OF assms] accessFor_wf [of db caller s nodes "Some t"]
  by (simp add: permissionsOf_def resolveEffective_Inr)

text \<open>C8. No request can crash the resolver or hang in it: whatever the tables hold (dangling
  parents, cycles, rows of other shares), every chain the ancestor walk builds starts at a root and
  is parent-linked, so each node asked about gets an answer, and a move is allowed exactly when
  the answers at both ends contain \<open>move\<close> and \<open>create\<close>.\<close>

theorem access_answers_always_exist:
  "(\<exists>S. permissionsOf (accessFor db caller shareId nodes) n = Inr S)
   \<and> (\<exists>m. accessForMove db caller shareId entryId destination = Inr m
        \<and> (ma_allowed m \<longleftrightarrow> PMove \<in> ma_source m \<and> PCreate \<in> ma_destination m))"
proof (rule conjI [OF permissionsOf_total])
  let ?a = "accessFor db caller shareId [Some entryId, destination]"
  obtain S D where SD: "permissionsOf ?a (Some entryId) = Inr S" "permissionsOf ?a destination = Inr D"
    using permissionsOf_total by metis
  have "(case (?a (Some entryId), ?a destination) of
           (Some source, Some target) \<Rightarrow> canMove source target | _ \<Rightarrow> Inr False)
      = Inr (PMove \<in> S \<and> PCreate \<in> D)"
    using SD by (auto simp: permissionsOf_def canMove_def can_def split: option.splits)
  with SD show "\<exists>m. accessForMove db caller shareId entryId destination = Inr m
        \<and> (ma_allowed m \<longleftrightarrow> PMove \<in> ma_source m \<and> PCreate \<in> ma_destination m)"
    by (simp add: accessForMove_def)
qed

section \<open>The rule, over the table\<close>

text \<open>The grant a principal has on one node, and the nearest node at or above a row that has one.\<close>

definition grantOf :: "access_db \<Rightarrow> Caller \<Rightarrow> id \<Rightarrow> Principal \<Rightarrow> id option \<Rightarrow> Permission list option" where
  "grantOf db caller s p n =
     map_option permissions (List.find (\<lambda>g. principal g = p) (nodeGrants db caller s n))"

fun nearestOf :: "(id option \<Rightarrow> Permission list option) \<Rightarrow> id option list \<Rightarrow> Permission list option" where
  "nearestOf f [] = None"
| "nearestOf f (n # ns) = (case f n of None \<Rightarrow> nearestOf f ns | Some ps \<Rightarrow> Some ps)"

text \<open>The nodes from a row up to the share root.\<close>

definition upwards :: "table \<Rightarrow> id option list" where
  "upwards rs = map (\<lambda>r. Some (fe_id r)) rs @ [None]"

lemma granted_at_loop:
  "granted_at ch p perm \<longleftrightarrow>
     (\<exists>s. nearestGrant_loop (rev ch) p = Some s \<and> perm \<in> set (src_permissions s))"
  by (simp add: granted_at_iff nearestGrant_def)

lemma loop_rowChain:
  assumes "\<not> c_admin caller"
  shows "map_option (\<lambda>s. set (src_permissions s))
           (nearestGrant_loop (map (rowNode db caller s t) rs @ [rootNode db caller s False]) p)
       = map_option set (nearestOf (grantOf db caller s p) (upwards rs))"
proof (induction rs)
  case Nil
  then show ?case
    using assms
    by (auto simp: upwards_def grantOf_def rootNode_def grantFor_def syntheticGrants_def
        split: option.splits)
next
  case (Cons r rs)
  show ?case
  proof (cases "List.find (\<lambda>g. principal g = p) (nodeGrants db caller s (Some (fe_id r)))")
    case None
    then show ?thesis
      using Cons assms
      by (simp add: upwards_def grantOf_def rowNode_def grantFor_def syntheticGrants_def)
  next
    case (Some g)
    then show ?thesis
      using assms
      by (simp add: upwards_def grantOf_def rowNode_def grantFor_def syntheticGrants_def)
  qed
qed

lemma allowed_rowChain:
  assumes "\<not> c_admin caller"
  shows "allowed (rowChain db caller s t rs) u perm \<longleftrightarrow>
     (\<exists>p \<in> set (principalsOf u). \<exists>ps. nearestOf (grantOf db caller s p) (upwards rs) = Some ps
        \<and> perm \<in> set ps)"
proof -
  have "granted_at (rowChain db caller s t rs) p perm \<longleftrightarrow>
      (\<exists>ps. nearestOf (grantOf db caller s p) (upwards rs) = Some ps \<and> perm \<in> set ps)" for p
    using loop_rowChain [OF assms, of db s t rs p]
    by (auto simp: granted_at_loop rowChain_def map_option_eq_Some dest!: sym [where s = "Some _"])
  then show ?thesis by (simp add: allowed_def)
qed

text \<open>C9. For a member, the answer at an entry is ADR-0021's rule read off the tables: a permission
  is held exactly when, for the member or one of the member's teams, the nearest node going up
  through \<open>parent_id\<close> to the share root that has a grant row for that principal lists it. It does
  not depend on which other nodes the same call asks about, so a page of rows resolved in one walk
  agrees with asking about each row alone.\<close>

theorem accessFor_is_nearest_rule:
  assumes "wf_access db" and "\<not> c_admin caller"
    and "lineage (share_rows db caller shareId) (Some t) rs" and "Some t \<in> set nodes"
  shows "permissionsOf (accessFor db caller shareId nodes) (Some t) =
           Inr {perm. \<exists>p \<in> set (principalsOf (subjectOf db caller)).
                  \<exists>ps. nearestOf (grantOf db caller shareId p) (upwards rs) = Some ps \<and> perm \<in> set ps}
       \<and> permissionsOf (accessFor db caller shareId nodes) (Some t)
           = effectiveAt db caller shareId (Some t)"
  using permissionsOf_entry [OF assms(1,4,3)] permissionsOf_entry [OF assms(1) _ assms(3), of "[Some t]"]
  by (simp add: effectiveAt_def allowed_rowChain [OF assms(2)])

text \<open>C10. An organisation administrator holds every permission on every entry of the organisation's
  shares and on every share root, even where a narrower row was written for that same account.\<close>

theorem admin_reaches_everything:
  assumes "wf_access db" and "wf_tree (db_entries db)" and "c_admin caller"
    and "r \<in> set (db_entries db)" and "fe_org r = c_org caller" and "fe_share r = shareId"
  shows "effectiveAt db caller shareId (Some (fe_id r)) = Inr UNIV
       \<and> effectiveAt db caller shareId None = Inr UNIV"
proof -
  let ?p = "User (c_user caller)"
  have all: "granted_at (ch @ [n]) ?p perm"
    if "grants n = syntheticGrants caller True @ gs" for ch n gs perm
  proof -
    have "grantFor n ?p = Some \<lparr>principal = ?p, permissions = PERMISSIONS\<rparr>"
      using that assms(3) by (simp add: grantFor_def syntheticGrants_def)
    then show ?thesis
      by (simp add: granted_at_iff nearestGrant_snoc)
  qed
  have p: "?p \<in> set (principalsOf (subjectOf db caller))"
    by (simp add: principalsOf_def subjectOf_def)
  obtain rs where rs: "lineage (share_rows db caller shareId) (Some (fe_id r)) (r # rs)"
    using wf_tree_lineage [OF assms(2,4)] assms(5,6) by (auto simp: share_rows_def)
  have "rowChain db caller shareId (fe_id r) (r # rs) =
      (rootNode db caller shareId False # rev (map (rowNode db caller shareId (fe_id r)) rs))
        @ [rowNode db caller shareId (fe_id r) r]"
    by (simp add: rowChain_def)
  moreover have "granted_at ((rootNode db caller shareId False
        # rev (map (rowNode db caller shareId (fe_id r)) rs))
        @ [rowNode db caller shareId (fe_id r) r]) ?p perm" for perm
    by (rule all) (simp add: rowNode_def)
  ultimately have
    "allowed (rowChain db caller shareId (fe_id r) (r # rs)) (subjectOf db caller) perm" for perm
    using p unfolding allowed_def by metis
  then have 1: "effectiveAt db caller shareId (Some (fe_id r)) = Inr UNIV"
    using permissionsOf_entry [OF assms(1) _ rs, of "[Some (fe_id r)]"] by (simp add: effectiveAt_def)
  have "allowed ([] @ [rootNode db caller shareId True]) (subjectOf db caller) perm" for perm
    using all [of "rootNode db caller shareId True" _ "[]"] p
    by (auto simp only: allowed_def rootNode_def AclNode.simps)
  then have "effectiveAt db caller shareId None = Inr UNIV"
    using accessFor_root [OF assms(1), of "[None]"]
    by (simp add: effectiveAt_def permissionsOf_def resolveEffective_Inr wf_chain_def rootNode_def)
  with 1 show ?thesis by simp
qed

section \<open>A concrete share\<close>

definition ex_row :: "id \<Rightarrow> id option \<Rightarrow> entry_kind \<Rightarrow> string \<Rightarrow> FileEntryRow" where
  "ex_row i p k n = \<lparr>fe_id = i, fe_org = ''o'', fe_share = ''s'', fe_parent = p, fe_kind = k,
     fe_name = n, fe_path = ''/'' @ n, fe_size = 0, fe_content_type = None, fe_trashed_at = None,
     fe_trashed_by = None, fe_recycled = False, fe_copied_from = None, fe_created_at = 0,
     fe_updated_at = 0\<rparr>"

definition ex_top :: FileEntryRow where "ex_top = ex_row ''e1'' None Folder ''docs''"
definition ex_mid :: FileEntryRow where "ex_mid = ex_row ''e2'' (Some ''e1'') Folder ''private''"
definition ex_leaf :: FileEntryRow where "ex_leaf = ex_row ''e3'' (Some ''e2'') File ''a.txt''"

definition ex_access :: access_db where
  "ex_access = \<lparr>db_entries = [ex_top, ex_mid, ex_leaf],
     db_members = [\<lparr>tm_org = ''o'', tm_team = ''t'', tm_user = ''u''\<rparr>],
     db_grants =
       [\<lparr>gr_org = ''o'', gr_share = ''s'', gr_entry = None, gr_user = None, gr_team = Some ''t'',
         gr_permissions = [''list'', ''read'', ''delete'']\<rparr>,
        \<lparr>gr_org = ''o'', gr_share = ''s'', gr_entry = Some ''e2'', gr_user = None,
         gr_team = Some ''t'', gr_permissions = [''list'']\<rparr>]\<rparr>"

definition ex_member :: Caller where
  "ex_member = \<lparr>c_org = ''o'', c_user = ''u'', c_admin = False\<rparr>"

definition ex_admin :: Caller where
  "ex_admin = \<lparr>c_org = ''o'', c_user = ''u'', c_admin = True\<rparr>"

lemmas ex_rows = ex_top_def ex_mid_def ex_leaf_def ex_row_def

lemma ex_wf_access: "wf_access ex_access"
  by (simp add: wf_access_def ex_access_def ex_rows ROOT_def)

lemma ex_wf_tree: "wf_tree (db_entries ex_access)"
proof (rule wf_tree_rank [where rank = "\<lambda>i. if i = ''e1'' then 0 else if i = ''e2'' then 1 else 2"])
  show "parents_ok (db_entries ex_access)"
    by (simp add: parents_ok_def ex_access_def ex_rows)
qed (auto simp: ex_access_def ex_rows)

lemma ex_share_rows: "share_rows ex_access c ''s'' = (if c_org c = ''o'' then [ex_top, ex_mid, ex_leaf] else [])"
  by (simp add: share_rows_def in_share_def ex_access_def ex_rows)

lemma ex_lineage: "lineage (share_rows ex_access ex_member ''s'') (Some ''e3'') [ex_leaf, ex_mid, ex_top]"
  "lineage (share_rows ex_access ex_member ''s'') (Some ''e1'') [ex_top]"
  by (simp_all add: ex_share_rows ex_member_def ex_rows)

lemma ex_grants:
  "nodeGrants ex_access ex_member ''s'' None = [\<lparr>principal = Team ''t'', permissions = [PList, PRead, PDelete]\<rparr>]"
  "nodeGrants ex_access ex_member ''s'' (Some ''e1'') = []"
  "nodeGrants ex_access ex_member ''s'' (Some ''e2'') = [\<lparr>principal = Team ''t'', permissions = [PList]\<rparr>]"
  "nodeGrants ex_access ex_member ''s'' (Some ''e3'') = []"
  by (simp_all add: nodeGrants_def ex_access_def ex_member_def subjectOf_def toGrant_def
      List.map_filter_simps parsePermission_def PERMISSIONS_def)

lemma ex_principals: "principalsOf (subjectOf ex_access ex_member) = [User ''u'', Team ''t'']"
  by (simp add: principalsOf_def subjectOf_def ex_access_def ex_member_def)

theorem accessFor_is_nearest_rule_witness:
  "permissionsOf (accessFor ex_access ex_member ''s'' [None, Some ''e3'']) (Some ''e3'') = Inr {PList}"
  using accessFor_is_nearest_rule [OF ex_wf_access _ ex_lineage(1), of "[None, Some ''e3'']"]
  by (simp add: ex_member_def [THEN arg_cong [where f = c_admin]] ex_principals upwards_def grantOf_def
      ex_rows ex_grants)

theorem admin_reaches_everything_witness:
  "effectiveAt ex_access ex_admin ''s'' (Some ''e3'') = Inr UNIV
   \<and> effectiveAt ex_access ex_admin ''s'' None = Inr UNIV"
  using admin_reaches_everything [OF ex_wf_access ex_wf_tree, of ex_admin ex_leaf "''s''"]
  by (simp add: ex_admin_def ex_access_def ex_rows)

end
