(* ===== verification/SubtreeAccess.thy ===== *)
theory SubtreeAccess
  imports FileAccess
begin

text \<open>
  \<open>FilesService.assertSubtreeAccess\<close>: the check before trashing or permanently deleting a folder.
  It resolves only the descendants that carry a grant row; the theorem is that this decides the
  question for every descendant.
\<close>

datatype access_error =
  SubtreeForbidden Permission nat
| AuthzThrew authz_error
| StatementTimeout

definition carriersUnder ::
  "access_db \<Rightarrow> Caller \<Rightarrow> id \<Rightarrow> id \<Rightarrow> access_error + id list" where
  "carriersUnder db caller shareId rootId =
     (let rows = in_org (c_org caller) (db_entries db);
          base = map (\<lambda>r. (r, ())) (filter (\<lambda>r. fe_share r = shareId \<and> fe_id r = rootId) rows)
      in case treeLevels (Suc (length rows)) (\<lambda>_ _. ()) rows base of
           None \<Rightarrow> Inl StatementTimeout
         | Some levels \<Rightarrow>
             (let tree = map (\<lambda>(r, _). fe_id r) (concat levels)
              in Inr (dedupe (List.map_filter gr_entry
                   (filter (\<lambda>g. gr_org g = c_org caller \<and> gr_share g = shareId
                       \<and> (case gr_entry g of None \<Rightarrow> False | Some e \<Rightarrow> e \<in> set tree \<and> e \<noteq> rootId))
                     (db_grants db))))))"

definition assertSubtreeAccess ::
  "access_db \<Rightarrow> Caller \<Rightarrow> id \<Rightarrow> id \<Rightarrow> Permission \<Rightarrow> access_error + unit" where
  "assertSubtreeAccess db caller shareId rootId permission =
     bindE (carriersUnder db caller shareId rootId) (\<lambda>ids.
       if length ids = 0 then Inr ()
       else
         (let access = accessFor db caller shareId (map Some ids)
          in case mapE (\<lambda>i. permissionsOf access (Some i)) ids of
               Inl e \<Rightarrow> Inl (AuthzThrew e)
             | Inr sets \<Rightarrow>
                 (let refused = length (filter (\<lambda>s. permission \<notin> s) sets)
                  in if refused > 0 then Inl (SubtreeForbidden permission refused) else Inr ())))"

section \<open>The carriers decide\<close>

text \<open>\<open>c\<close> is \<open>r\<close> or lies under it.\<close>

definition below :: "access_db \<Rightarrow> FileEntryRow \<Rightarrow> FileEntryRow \<Rightarrow> bool" where
  "below db c r \<longleftrightarrow> (c, r) \<in> (row_up (db_entries db))\<^sup>*"

text \<open>The answer at an entry, as a set: the resolver always answers (\<open>permissionsOf_total\<close>).\<close>

definition holds :: "access_db \<Rightarrow> Caller \<Rightarrow> id \<Rightarrow> Permission \<Rightarrow> FileEntryRow \<Rightarrow> bool" where
  "holds db caller shareId perm r \<longleftrightarrow>
     (\<exists>S. effectiveAt db caller shareId (Some (fe_id r)) = Inr S \<and> perm \<in> S)"

lemma row_up_org:
  assumes "wf_tree rows" and "(c, p) \<in> row_up rows" and "p \<in> set rows"
  shows "fe_org c = fe_org p \<and> fe_share c = fe_share p"
proof -
  have c: "c \<in> set rows" "fe_parent c = Some (fe_id p)"
    using assms(2) by (simp_all add: row_up_def)
  then obtain q where q: "q \<in> set rows" "fe_id q = fe_id p" "fe_org q = fe_org c" "fe_share q = fe_share c"
    using wf_tree_parent [OF assms(1)] by metis
  then have "q = p"
    using assms(1,3) distinct_ids_eq by (auto simp: wf_tree_def)
  with q show ?thesis by simp
qed

lemma below_same_share:
  assumes "wf_tree (db_entries db)" and "below db c r" and "r \<in> set (db_entries db)"
  shows "c \<in> set (db_entries db) \<and> fe_org c = fe_org r \<and> fe_share c = fe_share r"
  using assms(2) unfolding below_def
proof (induction rule: converse_rtrancl_induct)
  case base
  then show ?case using assms(3) by simp
next
  case (step c d)
  then have "c \<in> set (db_entries db)" by (simp add: row_up_def)
  then show ?case
    using step row_up_org [OF assms(1) step(1)] by simp
qed

lemma below_in_org:
  assumes "wf_tree (db_entries db)" and "r \<in> set (db_entries db)" and "fe_org r = org"
  shows "(c, r) \<in> (row_up (in_org org (db_entries db)))\<^sup>* \<longleftrightarrow> below db c r"
proof
  have "row_up (in_org org (db_entries db)) \<subseteq> row_up (db_entries db)"
    by (auto simp: row_up_def)
  then show "(c, r) \<in> (row_up (in_org org (db_entries db)))\<^sup>* \<Longrightarrow> below db c r"
    unfolding below_def using rtrancl_mono by blast
next
  assume "below db c r"
  then show "(c, r) \<in> (row_up (in_org org (db_entries db)))\<^sup>*"
    unfolding below_def
  proof (induction rule: converse_rtrancl_induct)
    case base
    then show ?case by simp
  next
    case (step c d)
    have "c \<in> set (db_entries db) \<and> fe_org c = fe_org r"
      using below_same_share [OF assms(1) _ assms(2), of c] step(1,2)
      by (auto simp: below_def intro: converse_rtrancl_into_rtrancl)
    then have "(c, d) \<in> row_up (in_org org (db_entries db))"
      using step(1) assms(3) by (auto simp: row_up_def)
    then show ?case using step.IH by (rule converse_rtrancl_into_rtrancl)
  qed
qed

lemma carrier_ids:
  "set (List.map_filter gr_entry
      (filter (\<lambda>g. A g \<and> B g \<and> (case gr_entry g of None \<Rightarrow> False | Some e \<Rightarrow> e \<in> S \<and> e \<noteq> i)) gs))
   = {e. e \<in> S \<and> e \<noteq> i \<and> (\<exists>g \<in> set gs. A g \<and> B g \<and> gr_entry g = Some e)}"
  by (rule set_eqI) (simp add: set_map_filter, fastforce split: option.splits)

lemma carriersUnder_set:
  assumes "wf_tree (db_entries db)" and "r \<in> set (db_entries db)"
    and "fe_org r = c_org caller" and "fe_share r = shareId"
  shows "\<exists>ids. carriersUnder db caller shareId (fe_id r) = Inr ids
     \<and> set ids = {i. i \<noteq> fe_id r \<and> (\<exists>c. below db c r \<and> fe_id c = i)
          \<and> (\<exists>g \<in> set (db_grants db). gr_org g = c_org caller \<and> gr_share g = shareId
               \<and> gr_entry g = Some i)}"
proof -
  let ?rows = "in_org (c_org caller) (db_entries db)"
  let ?base = "map (\<lambda>r. (r, ())) (filter (\<lambda>r'. fe_share r' = shareId \<and> fe_id r' = fe_id r) ?rows)"
  have base: "fst ` set ?base = {r}"
    using assms distinct_ids_eq [of "db_entries db"] by (force simp: wf_tree_def)
  obtain levels where levels: "treeLevels (Suc (length ?rows)) (\<lambda>_ _. ()) ?rows ?base = Some levels"
  proof -
    have wf: "wf_tree ?rows"
      using assms(1) by (rule wf_tree_in_org)
    then have "\<exists>ls. treeLevels (Suc (length ?rows)) (\<lambda>_ _. ()) ?rows ?base = Some ls"
      by (intro treeLevels_enough [OF wf]) (auto simp: base)
    then show ?thesis using that by blast
  qed
  have tree: "set (map (\<lambda>(r, _). fe_id r) (concat levels)) = {i. \<exists>c. below db c r \<and> fe_id c = i}"
  proof -
    have "set (map (\<lambda>(r, _). fe_id r) (concat levels)) = fe_id ` fst ` set (concat levels)"
      by (force simp: image_iff)
    also have "\<dots> = fe_id ` {c. below db c r}"
      unfolding treeLevels_rows [OF levels] base using below_in_org [OF assms(1-3)] by simp
    finally show ?thesis by auto
  qed
  let ?ids = "dedupe (List.map_filter gr_entry
      (filter (\<lambda>g. gr_org g = c_org caller \<and> gr_share g = shareId
          \<and> (case gr_entry g of None \<Rightarrow> False
             | Some e \<Rightarrow> e \<in> set (map (\<lambda>(r, _). fe_id r) (concat levels)) \<and> e \<noteq> fe_id r))
        (db_grants db)))"
  have "carriersUnder db caller shareId (fe_id r) = Inr ?ids"
    unfolding carriersUnder_def Let_def levels option.case by (rule refl)
  moreover have "set ?ids = {i. i \<noteq> fe_id r \<and> (\<exists>c. below db c r \<and> fe_id c = i)
          \<and> (\<exists>g \<in> set (db_grants db). gr_org g = c_org caller \<and> gr_share g = shareId
               \<and> gr_entry g = Some i)}"
    unfolding set_dedupe carrier_ids tree by blast
  ultimately show ?thesis by blast
qed

lemma mapE_all_Inr:
  assumes "\<And>x. x \<in> set xs \<Longrightarrow> f x = Inr (g x)"
  shows "mapE f xs = Inr (map g xs)"
  using assms by (induction xs) auto

text \<open>The set behind an answer.\<close>

definition answerAt :: "access_db \<Rightarrow> Caller \<Rightarrow> id \<Rightarrow> id \<Rightarrow> Permission set" where
  "answerAt db caller shareId i =
     (case effectiveAt db caller shareId (Some i) of Inr S \<Rightarrow> S | Inl e \<Rightarrow> {})"

lemma effectiveAt_answer: "effectiveAt db caller s (Some i) = Inr (answerAt db caller s i)"
  using permissionsOf_total [of db caller s "[Some i]" "Some i"]
  by (auto simp: answerAt_def effectiveAt_def)

lemma holds_answer: "holds db caller s perm r \<longleftrightarrow> perm \<in> answerAt db caller s (fe_id r)"
  by (simp add: holds_def effectiveAt_answer)

lemma batch_answer:
  assumes "wf_access db" and "Some i \<in> set nodes"
  shows "permissionsOf (accessFor db caller s nodes) (Some i) = Inr (answerAt db caller s i)"
proof -
  have "accessFor db caller s nodes (Some i) = accessFor db caller s [Some i] (Some i)"
    using accessFor_entry [OF assms] accessFor_entry [OF assms(1), of i "[Some i]"]
    by (cases "\<exists>rs. lineage (share_rows db caller s) (Some i) rs") auto
  then show ?thesis
    using effectiveAt_answer [of db caller s i] by (simp add: effectiveAt_def permissionsOf_def)
qed

lemma assertSubtreeAccess_iff:
  assumes "wf_access db" and "carriersUnder db caller s i = Inr ids"
  shows "assertSubtreeAccess db caller s i perm = Inr () \<longleftrightarrow>
     (\<forall>j \<in> set ids. perm \<in> answerAt db caller s j)"
proof -
  have "mapE (\<lambda>j. permissionsOf (accessFor db caller s (map Some ids)) (Some j)) ids
      = Inr (map (answerAt db caller s) ids)"
    by (rule mapE_all_Inr) (simp add: batch_answer [OF assms(1)])
  then have "assertSubtreeAccess db caller s i perm =
      (if length ids = 0 then Inr ()
       else if length (filter (\<lambda>S. perm \<notin> S) (map (answerAt db caller s) ids)) > 0
       then Inl (SubtreeForbidden perm (length (filter (\<lambda>S. perm \<notin> S) (map (answerAt db caller s) ids))))
       else Inr ())"
    using assms(2) by (simp add: assertSubtreeAccess_def Let_def)
  then show ?thesis
    by (cases ids) (auto simp: filter_empty_conv)
qed

lemma parent_answer:
  assumes wf: "wf_access db" "wf_tree (db_entries db)"
    and c: "c \<in> set (db_entries db)" "fe_org c = c_org caller" "fe_share c = s"
    and p: "(c, p) \<in> row_up (db_entries db)" "p \<in> set (db_entries db)"
    and none: "\<not> (\<exists>g \<in> set (db_grants db). gr_org g = c_org caller \<and> gr_share g = s
                  \<and> gr_entry g = Some (fe_id c))"
  shows "answerAt db caller s (fe_id c) = answerAt db caller s (fe_id p)"
proof -
  have po: "fe_org p = c_org caller" "fe_share p = s"
    using row_up_org [OF wf(2) p] c by simp_all
  show ?thesis
  proof (cases "c_admin caller")
    case True
    then show ?thesis
      using admin_reaches_everything [OF wf True c] admin_reaches_everything [OF wf True p(2) po]
      by (simp add: effectiveAt_answer)
  next
    case False
    obtain rs where rs: "lineage (share_rows db caller s) (Some (fe_id p)) (p # rs)"
      using wf_tree_lineage [OF wf(2) p(2)] po by (auto simp: share_rows_def)
    then have crs: "lineage (share_rows db caller s) (Some (fe_id c)) (c # p # rs)"
      using p c by (simp add: row_up_def share_rows_def)
    have "nodeGrants db caller s (Some (fe_id c)) = []"
      using none by (auto simp: nodeGrants_def filter_empty_conv List.map_filter_def)
    then have "nearestOf (grantOf db caller s q) (upwards (c # p # rs))
        = nearestOf (grantOf db caller s q) (upwards (p # rs))" for q
      by (simp add: upwards_def grantOf_def)
    moreover have "effectiveAt db caller s (Some (fe_id c)) =
        Inr {perm. \<exists>q \<in> set (principalsOf (subjectOf db caller)).
           \<exists>ps. nearestOf (grantOf db caller s q) (upwards (c # p # rs)) = Some ps \<and> perm \<in> set ps}"
      using permissionsOf_entry [OF wf(1) _ crs, of "[Some (fe_id c)]"]
      by (simp add: effectiveAt_def allowed_rowChain [OF False])
    moreover have "effectiveAt db caller s (Some (fe_id p)) =
        Inr {perm. \<exists>q \<in> set (principalsOf (subjectOf db caller)).
           \<exists>ps. nearestOf (grantOf db caller s q) (upwards (p # rs)) = Some ps \<and> perm \<in> set ps}"
      using permissionsOf_entry [OF wf(1) _ rs, of "[Some (fe_id p)]"]
      by (simp add: effectiveAt_def allowed_rowChain [OF False])
    ultimately show ?thesis
      by (simp add: effectiveAt_answer)
  qed
qed

text \<open>C11. The shortcut is exact: for a caller who holds the permission on the named folder, the
  check over the grant-carrying descendants alone passes exactly when the caller holds the
  permission on every single descendant, trashed ones included.\<close>

theorem assertSubtreeAccess_exact:
  assumes "wf_access db" and "wf_tree (db_entries db)"
    and "r \<in> set (db_entries db)" and "fe_org r = c_org caller" and "fe_share r = shareId"
    and "holds db caller shareId perm r"
  shows "assertSubtreeAccess db caller shareId (fe_id r) perm = Inr () \<longleftrightarrow>
     (\<forall>c. below db c r \<longrightarrow> holds db caller shareId perm c)"
proof -
  obtain ids where ids: "carriersUnder db caller shareId (fe_id r) = Inr ids"
    and set_ids: "set ids = {i. i \<noteq> fe_id r \<and> (\<exists>c. below db c r \<and> fe_id c = i)
          \<and> (\<exists>g \<in> set (db_grants db). gr_org g = c_org caller \<and> gr_share g = shareId
               \<and> gr_entry g = Some i)}"
    using carriersUnder_set [OF assms(2-5)] by blast
  have "holds db caller shareId perm c"
    if ok: "\<forall>j \<in> set ids. perm \<in> answerAt db caller shareId j" and "below db c r" for c
    using that(2) unfolding below_def
  proof (induction rule: converse_rtrancl_induct)
    case base
    then show ?case by (rule assms(6))
  next
    case (step c d)
    have cr: "below db c r" and dr: "below db d r"
      using step(1,2) by (auto simp: below_def intro: converse_rtrancl_into_rtrancl)
    note c = below_same_share [OF assms(2) cr assms(3)]
    note d = below_same_share [OF assms(2) dr assms(3)]
    show ?case
    proof (cases "fe_id c \<in> set ids \<or> fe_id c = fe_id r")
      case True
      then show ?thesis
        using ok assms(6) by (auto simp: holds_answer)
    next
      case False
      then have "\<not> (\<exists>g \<in> set (db_grants db). gr_org g = c_org caller \<and> gr_share g = shareId
          \<and> gr_entry g = Some (fe_id c))"
        using cr unfolding set_ids by blast
      then have "answerAt db caller shareId (fe_id c) = answerAt db caller shareId (fe_id d)"
        using c d assms(4,5) by (intro parent_answer [OF assms(1,2) _ _ _ step(1)]) simp_all
      then show ?thesis
        using step.IH by (simp add: holds_answer)
    qed
  qed
  then show ?thesis
    unfolding assertSubtreeAccess_iff [OF assms(1) ids]
    using set_ids by (auto simp: holds_answer)
qed

lemma ex_holds: "holds ex_access ex_member ''s'' PDelete ex_top"
proof -
  have "effectiveAt ex_access ex_member ''s'' (Some ''e1'') = Inr {PList, PRead, PDelete}"
    using permissionsOf_entry [OF ex_wf_access _ ex_lineage(2), of "[Some ''e1'']"]
    by (simp add: effectiveAt_def allowed_rowChain ex_member_def [THEN arg_cong [where f = c_admin]]
        ex_principals upwards_def grantOf_def ex_rows ex_grants) auto
  then show ?thesis
    by (simp add: holds_def ex_rows)
qed

theorem assertSubtreeAccess_exact_witness:
  "assertSubtreeAccess ex_access ex_member ''s'' ''e1'' PDelete = Inr () \<longleftrightarrow>
     (\<forall>c. below ex_access c ex_top \<longrightarrow> holds ex_access ex_member ''s'' PDelete c)"
  using assertSubtreeAccess_exact [OF ex_wf_access ex_wf_tree, of ex_top ex_member "''s''", OF _ _ _ ex_holds]
  by (simp add: ex_access_def ex_member_def ex_rows)

end
