(* ===== verification/Keyset.thy ===== *)
theory Keyset
  imports FileRows
begin

text \<open>
  Keyset pagination, once for every listing of \<open>files.service.ts\<close>: \<open>ORDER BY\<close> with \<open>LIMIT n + 1\<close>,
  the function \<open>page\<close> that turns those rows into a page, and a client that follows \<open>nextCursor\<close>.
  The locale \<open>keyset_order\<close> is the contract between a listing and its cursor: the order is strict,
  and total up to the identity the cursor carries. It is interpreted where the orders are defined,
  in \<open>FileListing\<close>.
\<close>

section \<open>Pages\<close>

record 'a FileEntryPage =
  items :: "'a list"
  nextCursor :: "id option"
  hasMore :: bool

definition page :: "('a \<Rightarrow> id) \<Rightarrow> 'a list \<Rightarrow> nat \<Rightarrow> 'a FileEntryPage" where
  "page idOf rows limit =
     (let more = length rows > limit;
          its = (if more then take limit rows else rows)
      in \<lparr>items = its,
          nextCursor = (if more then if its = [] then None else Some (idOf (last its)) else None),
          hasMore = more\<rparr>)"

text \<open>\<open>ORDER BY\<close> with a strict comparison.\<close>

fun insort_by :: "('a \<Rightarrow> 'a \<Rightarrow> bool) \<Rightarrow> 'a \<Rightarrow> 'a list \<Rightarrow> 'a list" where
  "insort_by before x [] = [x]"
| "insort_by before x (y # ys) = (if before y x then y # insort_by before x ys else x # y # ys)"

definition order_by :: "('a \<Rightarrow> 'a \<Rightarrow> bool) \<Rightarrow> 'a list \<Rightarrow> 'a list" where
  "order_by before rows = foldr (insort_by before) rows []"

text \<open>A client that asks for the first page and follows the cursor while there is more.\<close>

fun walkPages :: "nat \<Rightarrow> (id option \<Rightarrow> 'a FileEntryPage) \<Rightarrow> id option \<Rightarrow> 'a list" where
  "walkPages 0 fetch c = []"
| "walkPages (Suc n) fetch c =
     items (fetch c) @ (if hasMore (fetch c) then walkPages n fetch (nextCursor (fetch c)) else [])"

lemma set_insort_by [simp]: "set (insort_by before x ys) = insert x (set ys)"
  by (induction ys) auto

lemma set_order_by [simp]: "set (order_by before xs) = set xs"
  by (induction xs) (auto simp: order_by_def)

lemma length_insort_by [simp]: "length (insort_by before x ys) = Suc (length ys)"
  by (induction ys) auto

lemma length_order_by [simp]: "length (order_by before xs) = length xs"
  by (induction xs) (auto simp: order_by_def)

lemma order_by_Cons: "order_by before (x # xs) = insort_by before x (order_by before xs)"
  by (simp add: order_by_def)

lemma order_by_Nil [simp]: "order_by before [] = []"
  by (simp add: order_by_def)

lemma items_page: "items (page idOf rows limit) = take limit rows"
  by (simp add: page_def Let_def)

lemma page_more: "hasMore (page idOf rows limit) \<longleftrightarrow> limit < length rows"
  by (simp add: page_def Let_def)

lemma page_next:
  assumes "limit < length rows" and "0 < limit"
  shows "nextCursor (page idOf rows limit) = Some (idOf (rows ! (limit - 1)))"
proof -
  have "take limit rows \<noteq> []"
    using assms by auto
  moreover have "last (take limit rows) = rows ! (limit - 1)"
    using assms by (subst last_conv_nth) (auto simp: min_def)
  ultimately show ?thesis
    using assms(1) by (simp add: page_def Let_def)
qed

section \<open>The contract of a cursor\<close>

locale keyset_order =
  fixes before :: "'a \<Rightarrow> 'a \<Rightarrow> bool"
    and ident :: "'a \<Rightarrow> id"
    and placed :: "'a \<Rightarrow> bool"
  assumes irrefl: "\<not> before x x"
    and trans: "before x y \<Longrightarrow> before y z \<Longrightarrow> before x z"
    and total: "placed x \<Longrightarrow> placed y \<Longrightarrow> ident x \<noteq> ident y \<Longrightarrow> before x y \<or> before y x"
begin

lemma sorted_insort:
  assumes "sorted_wrt before ys" and "placed x" and "\<forall>y \<in> set ys. placed y \<and> ident y \<noteq> ident x"
  shows "sorted_wrt before (insort_by before x ys)"
  using assms
proof (induction ys)
  case Nil
  then show ?case by simp
next
  case (Cons y ys)
  show ?case
  proof (cases "before y x")
    case True
    then show ?thesis using Cons by simp
  next
    case False
    then have "before x y" using Cons.prems total by auto
    then show ?thesis using False Cons.prems trans by auto
  qed
qed

lemma sorted_order_by:
  assumes "distinct (map ident xs)" and "\<forall>x \<in> set xs. placed x"
  shows "sorted_wrt before (order_by before xs)"
  using assms
proof (induction xs)
  case Nil
  then show ?case by simp
next
  case (Cons x xs)
  then have "\<forall>y \<in> set (order_by before xs). placed y \<and> ident y \<noteq> ident x"
    by (auto simp: image_iff)
  moreover have "sorted_wrt before (order_by before xs)"
    using Cons by simp
  ultimately show ?case
    using Cons.prems(2) unfolding order_by_Cons by (intro sorted_insort) auto
qed

text \<open>A sorted list with a given set of elements is unique, so a filter commutes with the order.\<close>

lemma sorted_unique:
  "sorted_wrt before xs \<Longrightarrow> sorted_wrt before ys \<Longrightarrow> set xs = set ys \<Longrightarrow> xs = ys"
proof (induction xs arbitrary: ys)
  case Nil
  then show ?case by simp
next
  case (Cons x xs)
  then obtain z zs where ys: "ys = z # zs" by (cases ys) auto
  have "x = z"
    using Cons.prems irrefl trans unfolding ys by (metis insert_iff list.set(2) sorted_wrt.simps(2))
  moreover have "x \<notin> set xs" "z \<notin> set zs"
    using Cons.prems irrefl unfolding ys by auto
  ultimately have "set xs = set zs"
    using Cons.prems(3) unfolding ys by auto
  then show ?case
    using Cons \<open>x = z\<close> ys by simp
qed

lemma order_by_filter:
  assumes "distinct (map ident xs)" and "\<forall>x \<in> set xs. placed x"
  shows "order_by before (filter P xs) = filter P (order_by before xs)"
proof (rule sorted_unique)
  show "sorted_wrt before (order_by before (filter P xs))"
    using assms by (intro sorted_order_by) (auto simp: distinct_map_filter)
  show "sorted_wrt before (filter P (order_by before xs))"
    using sorted_order_by [OF assms] by (rule sorted_wrt_filter)
qed simp

lemma sorted_beyond:
  assumes "sorted_wrt before xs" and "i < length xs"
  shows "filter (before (xs ! i)) xs = drop (Suc i) xs"
proof -
  have xs: "xs = take i xs @ xs ! i # drop (Suc i) xs"
    using assms(2) by (rule id_take_nth_drop)
  have "sorted_wrt before (take i xs @ xs ! i # drop (Suc i) xs)"
    using assms(1) xs by simp
  then have "\<forall>y \<in> set (take i xs). before y (xs ! i)" and "\<forall>y \<in> set (drop (Suc i) xs). before (xs ! i) y"
    by (auto simp: sorted_wrt_append)
  moreover have "\<not> before (xs ! i) y" if "before y (xs ! i)" for y
    using that irrefl trans by blast
  ultimately have "filter (before (xs ! i)) (take i xs) = []"
    and "filter (before (xs ! i)) (drop (Suc i) xs) = drop (Suc i) xs"
    unfolding filter_empty_conv filter_id_conv by blast+
  then have "filter (before (xs ! i)) (take i xs @ xs ! i # drop (Suc i) xs) = drop (Suc i) xs"
    using irrefl by simp
  then show ?thesis using xs by simp
qed

text \<open>The pages from a position on are the rest of the ordered listing, for any listing that
  answers with the rows beyond its cursor.\<close>

lemma walk_from:
  assumes fetch: "\<And>i. i < length xs \<Longrightarrow>
      fetch (Some (idOf (xs ! i))) = page idOf (take (Suc limit) (drop (Suc i) xs)) limit"
    and lim: "0 < limit" and i: "i < length xs" and n: "length xs - Suc i < n"
  shows "walkPages n fetch (Some (idOf (xs ! i))) = drop (Suc i) xs"
  using i n
proof (induction n arbitrary: i)
  case 0
  then show ?case by simp
next
  case (Suc n)
  let ?rows = "take (Suc limit) (drop (Suc i) xs)"
  let ?p = "page idOf ?rows limit"
  show ?case
  proof (cases "limit < length (drop (Suc i) xs)")
    case True
    then have more: "limit < length ?rows" by simp
    have step: "Suc (i + (limit - Suc 0)) = i + limit"
      using lim by simp
    have next_row: "?rows ! (limit - 1) = xs ! (i + limit)"
      using True lim by simp
    have "walkPages n fetch (Some (idOf (xs ! (i + limit)))) = drop (Suc (i + limit)) xs"
      using True Suc.prems lim by (intro Suc.IH) auto
    then have "walkPages (Suc n) fetch (Some (idOf (xs ! i)))
        = take limit ?rows @ drop (Suc (i + limit)) xs"
      using more by (simp add: fetch [OF Suc.prems(1)] items_page page_more page_next [OF more lim] next_row step
          del: take_Suc_Cons)
    also have "\<dots> = take limit (drop (Suc i) xs) @ drop limit (drop (Suc i) xs)"
      by (simp add: add.commute)
    also have "\<dots> = drop (Suc i) xs"
      by (rule append_take_drop_id)
    finally show ?thesis .
  next
    case False
    then have "\<not> limit < length ?rows" by simp
    then show ?thesis
      using False by (simp add: fetch [OF Suc.prems(1)] items_page page_more)
  qed
qed

lemma walk_all:
  assumes first: "fetch None = page idOf (take (Suc limit) xs) limit"
    and fetch: "\<And>i. i < length xs \<Longrightarrow>
      fetch (Some (idOf (xs ! i))) = page idOf (take (Suc limit) (drop (Suc i) xs)) limit"
    and lim: "0 < limit" and n: "length xs < n"
  shows "walkPages n fetch None = xs"
proof (cases n)
  case 0
  then show ?thesis using n by simp
next
  case (Suc m)
  show ?thesis
  proof (cases "limit < length xs")
    case True
    then have more: "limit < length (take (Suc limit) xs)" by simp
    have "walkPages m fetch (Some (idOf (xs ! (limit - 1)))) = drop (Suc (limit - 1)) xs"
      using True lim n Suc by (intro walk_from [OF fetch lim]) auto
    then show ?thesis
      using Suc more lim True
      by (simp add: first items_page page_more page_next [OF more lim])
  next
    case False
    then show ?thesis
      using Suc by (simp add: first items_page page_more)
  qed
qed

end

end
