(* ===== verification/FileListing.thy ===== *)
theory FileListing
  imports Keyset "HOL-Library.Product_Lexorder"
begin

text \<open>
  The listings of \<open>files.service.ts\<close>: \<open>sortFragments\<close>, \<open>list\<close>, \<open>listTrash\<close>, and the byte range behind
  the folder sizes. PostgreSQL's text functions are not in the repository: \<open>pg_text\<close> holds them
  (\<open>fold_identity\<close> and \<open>depsis_norm\<close> are SQL wrappers of \<open>normalize\<close>, \<open>translate\<close>, \<open>lower\<close> and
  \<open>unaccent\<close>). The collation is deterministic: it compares by its key and breaks ties by the bytes.
\<close>

record pg_text =
  fold_identity :: "string \<Rightarrow> string"
  pg_lower :: "string \<Rightarrow> string"
  coll_key :: "string \<Rightarrow> string"

section \<open>Sorting\<close>

datatype SortOrder = ByName | ByType | ByModified | BySize

datatype SortDirection = Asc | Desc

fun DEFAULT_DIRECTION :: "SortOrder \<Rightarrow> SortDirection" where
  "DEFAULT_DIRECTION ByName = Asc"
| "DEFAULT_DIRECTION ByType = Asc"
| "DEFAULT_DIRECTION ByModified = Desc"
| "DEFAULT_DIRECTION BySize = Desc"

text \<open>\<open>coalesce(lower(substring(name from '.[.]([^.]+)$')), '')\<close>: what follows the last dot, when
  something follows it and at least one character precedes it.\<close>

definition EXT :: "pg_text \<Rightarrow> string \<Rightarrow> string" where
  "EXT pg name =
     (let tail = takeWhile (\<lambda>c. c \<noteq> CHR ''.'') (rev name);
          rest = dropWhile (\<lambda>c. c \<noteq> CHR ''.'') (rev name)
      in if tail = [] \<or> length rest < 2 then '''' else pg_lower pg (rev tail))"

datatype column = ColNameFold | ColExt | ColUpdatedAt | ColSizeBytes | ColId

text \<open>What a column compares by: a number, or a text by its collation key and then its bytes.\<close>

fun column_key :: "pg_text \<Rightarrow> column \<Rightarrow> FileEntryRow \<Rightarrow> nat \<times> string \<times> string" where
  "column_key pg ColNameFold r =
     (let t = fold_identity pg (fe_name r) in (0, coll_key pg t, t))"
| "column_key pg ColExt r = (let t = EXT pg (fe_name r) in (0, coll_key pg t, t))"
| "column_key pg ColUpdatedAt r = (fe_updated_at r, [], [])"
| "column_key pg ColSizeBytes r = (fe_size r, [], [])"
| "column_key pg ColId r = (0, [], fe_id r)"

datatype comparison = CLt column | CGt column | CEq column

fun evalComparison :: "pg_text \<Rightarrow> comparison \<Rightarrow> FileEntryRow \<Rightarrow> FileEntryRow \<Rightarrow> bool" where
  "evalComparison pg (CLt c) row cur = (column_key pg c row < column_key pg c cur)"
| "evalComparison pg (CGt c) row cur = (column_key pg c row > column_key pg c cur)"
| "evalComparison pg (CEq c) row cur = (column_key pg c row = column_key pg c cur)"

record fragments =
  after :: "comparison list list"
  orderCols :: "(column \<times> bool) list"

fun keyColumn :: "SortOrder \<Rightarrow> column" where
  "keyColumn ByName = ColNameFold"
| "keyColumn ByType = ColExt"
| "keyColumn ByModified = ColUpdatedAt"
| "keyColumn BySize = ColSizeBytes"

fun thenColumns :: "SortOrder \<Rightarrow> column list" where
  "thenColumns ByName = []"
| "thenColumns ByType = [ColNameFold]"
| "thenColumns ByModified = [ColNameFold]"
| "thenColumns BySize = [ColNameFold]"

text \<open>The \<open>for\<close> loop over the chain: each branch is the equalities so far and one strict step.\<close>

fun fragmentLoop :: "(column \<times> bool) list \<Rightarrow> comparison list \<Rightarrow> comparison list list" where
  "fragmentLoop [] equal = []"
| "fragmentLoop ((c, desc) # rest) equal =
     (equal @ [if desc then CLt c else CGt c]) # fragmentLoop rest (equal @ [CEq c])"

definition sortFragments :: "SortOrder \<Rightarrow> SortDirection \<Rightarrow> fragments" where
  "sortFragments sortBy direction =
     (let ch = (keyColumn sortBy, direction = Desc) # map (\<lambda>c. (c, False)) (thenColumns sortBy)
                 @ [(ColId, False)]
      in \<lparr>after = fragmentLoop ch [], orderCols = ch\<rparr>)"

text \<open>\<open>WHERE <after>\<close> and \<open>ORDER BY <by>\<close>, \<open>kind\<close> leading both.\<close>

definition afterHolds :: "pg_text \<Rightarrow> fragments \<Rightarrow> FileEntryRow \<Rightarrow> FileEntryRow \<Rightarrow> bool" where
  "afterHolds pg order row cur =
     (fe_kind row > fe_kind cur \<or>
      (fe_kind row = fe_kind cur
       \<and> list_ex (\<lambda>branch. list_all (\<lambda>c. evalComparison pg c row cur) branch) (after order)))"

fun chainBefore :: "pg_text \<Rightarrow> (column \<times> bool) list \<Rightarrow> FileEntryRow \<Rightarrow> FileEntryRow \<Rightarrow> bool" where
  "chainBefore pg [] a b = False"
| "chainBefore pg ((c, desc) # rest) a b =
     (if column_key pg c a = column_key pg c b then chainBefore pg rest a b
      else if desc then column_key pg c b < column_key pg c a
      else column_key pg c a < column_key pg c b)"

definition orderBefore :: "pg_text \<Rightarrow> fragments \<Rightarrow> FileEntryRow \<Rightarrow> FileEntryRow \<Rightarrow> bool" where
  "orderBefore pg order a b =
     (fe_kind a < fe_kind b \<or> (fe_kind a = fe_kind b \<and> chainBefore pg (orderCols order) a b))"

section \<open>Folder contents\<close>

text \<open>\<open>d.path COLLATE "C" >= f.path || '/' AND d.path COLLATE "C" < f.path || '0'\<close>.\<close>

definition inSubtreeRange :: "string \<Rightarrow> string \<Rightarrow> bool" where
  "inSubtreeRange p d = (p @ ''/'' \<le> d \<and> d < p @ ''0'')"

definition subtreeSum :: "table \<Rightarrow> FileEntryRow \<Rightarrow> nat" where
  "subtreeSum rows f =
     sum_list (map fe_size (filter (\<lambda>d. fe_share d = fe_share f \<and> fe_kind d = File
         \<and> fe_trashed_at d = None \<and> inSubtreeRange (fe_path f) (fe_path d)) rows))"

definition subtreeBytes :: "table \<Rightarrow> id \<Rightarrow> id \<Rightarrow> nat" where
  "subtreeBytes db org i =
     (case List.find (\<lambda>f. fe_id f = i) (in_org org db) of
        None \<Rightarrow> 0 | Some f \<Rightarrow> subtreeSum (in_org org db) f)"

record ListItem =
  li_row :: FileEntryRow
  li_child_count :: "nat option"
  li_subtree_bytes :: "nat option"

definition withCounts :: "table \<Rightarrow> FileEntryRow \<Rightarrow> ListItem" where
  "withCounts rows f =
     \<lparr>li_row = f,
      li_child_count = (if fe_kind f = Folder
        then Some (min 1000 (length (filter (\<lambda>c. fe_parent c = Some (fe_id f) \<and> fe_trashed_at c = None) rows)))
        else None),
      li_subtree_bytes = (if fe_kind f = Folder then Some (subtreeSum rows f) else None)\<rparr>"

record ListPage =
  lp_page :: "ListItem FileEntryPage"
  lp_total :: nat
  lp_folders :: nat
  lp_files :: nat

definition folderRows :: "table \<Rightarrow> id \<Rightarrow> id \<Rightarrow> id option \<Rightarrow> table" where
  "folderRows db org share parent =
     filter (\<lambda>f. fe_org f = org \<and> fe_share f = share \<and> fe_parent f = parent \<and> fe_trashed_at f = None) db"

definition list_page ::
  "pg_text \<Rightarrow> table \<Rightarrow> id \<Rightarrow> id \<Rightarrow> id option \<Rightarrow> id option \<Rightarrow> nat \<Rightarrow> SortOrder \<Rightarrow> SortDirection option
     \<Rightarrow> ListPage" where
  "list_page pg db org share parent cursor limit sortBy direction =
     (let order = sortFragments sortBy (case direction of None \<Rightarrow> DEFAULT_DIRECTION sortBy | Some d \<Rightarrow> d);
          cur = filter (\<lambda>r. Some (fe_id r) = cursor) (in_org org db);
          candidates = filter (\<lambda>f. cursor = None \<or> list_ex (afterHolds pg order f) cur)
                         (folderRows db org share parent);
          rows = take (limit + 1) (order_by (orderBefore pg order) candidates);
          contents = folderRows db org share parent
      in \<lparr>lp_page = page (\<lambda>i. fe_id (li_row i)) (map (withCounts (in_org org db)) rows) limit,
          lp_total = length contents,
          lp_folders = length (filter (\<lambda>f. fe_kind f = Folder) contents),
          lp_files = length (filter (\<lambda>f. fe_kind f = File) contents)\<rparr>)"

section \<open>The trash\<close>

record TrashItem =
  ti_row :: FileEntryRow
  ti_parent_trashed :: bool

definition trashBefore :: "FileEntryRow \<Rightarrow> FileEntryRow \<Rightarrow> bool" where
  "trashBefore a b =
     (case (fe_trashed_at a, fe_trashed_at b) of
        (Some s, Some t) \<Rightarrow> t < s \<or> (t = s \<and> fe_id b < fe_id a)
      | _ \<Rightarrow> False)"

definition trashRows :: "table \<Rightarrow> id \<Rightarrow> id \<Rightarrow> table" where
  "trashRows db org share =
     filter (\<lambda>e. fe_org e = org \<and> fe_share e = share \<and> fe_trashed_at e \<noteq> None) db"

definition withParentTrashed :: "table \<Rightarrow> FileEntryRow \<Rightarrow> TrashItem" where
  "withParentTrashed rows e =
     \<lparr>ti_row = e,
      ti_parent_trashed =
        list_ex (\<lambda>p. Some (fe_id p) = fe_parent e \<and> fe_trashed_at p \<noteq> None) rows\<rparr>"

definition listTrash ::
  "table \<Rightarrow> id \<Rightarrow> id \<Rightarrow> id option \<Rightarrow> nat \<Rightarrow> TrashItem FileEntryPage" where
  "listTrash db org share cursor limit =
     (let cur = filter (\<lambda>r. Some (fe_id r) = cursor) (in_org org db);
          candidates = filter (\<lambda>e. cursor = None \<or> list_ex (\<lambda>c. trashBefore c e) cur)
                         (trashRows db org share);
          rows = take (limit + 1) (order_by trashBefore candidates)
      in page (\<lambda>i. fe_id (ti_row i)) (map (withParentTrashed (in_org org db)) rows) limit)"

section \<open>The cursor and the order agree\<close>

lemma fragmentLoop_iff:
  assumes "\<forall>c \<in> set equal. \<exists>k. c = CEq k"
  shows "list_ex (\<lambda>b. list_all (\<lambda>c. evalComparison pg c row cur) b) (fragmentLoop ch equal)
     \<longleftrightarrow> list_all (\<lambda>c. evalComparison pg c row cur) equal \<and> chainBefore pg ch cur row"
  using assms
proof (induction ch equal rule: fragmentLoop.induct)
  case (1 equal)
  then show ?case by simp
next
  case (2 c desc rest equal)
  have IH: "list_ex (\<lambda>b. list_all (\<lambda>c. evalComparison pg c row cur) b) (fragmentLoop rest (equal @ [CEq c]))
     \<longleftrightarrow> list_all (\<lambda>c. evalComparison pg c row cur) (equal @ [CEq c]) \<and> chainBefore pg rest cur row"
    by (rule "2.IH") (use "2.prems" in auto)
  consider "column_key pg c row < column_key pg c cur" | "column_key pg c row = column_key pg c cur"
    | "column_key pg c cur < column_key pg c row"
    by (rule linorder_cases)
  then show ?case
  proof cases
    case 1
    then have "column_key pg c row \<noteq> column_key pg c cur" "column_key pg c cur \<noteq> column_key pg c row"
      "\<not> column_key pg c cur < column_key pg c row" by auto
    with 1 show ?thesis by (cases desc) (simp_all add: IH)
  next
    case 2
    then show ?thesis by (cases desc) (simp_all add: IH)
  next
    case 3
    then have "column_key pg c row \<noteq> column_key pg c cur" "column_key pg c cur \<noteq> column_key pg c row"
      "\<not> column_key pg c row < column_key pg c cur" by auto
    with 3 show ?thesis by (cases desc) (simp_all add: IH)
  qed
qed

text \<open>C12. \<open>after\<close> and \<open>by\<close> cannot disagree: for every sort and direction, the predicate that picks
  the rows of the next page holds exactly for the rows that the order puts strictly behind the
  cursor row.\<close>

theorem sortFragments_after_matches_order:
  "afterHolds pg (sortFragments sortBy direction) row cur
     \<longleftrightarrow> orderBefore pg (sortFragments sortBy direction) cur row"
proof -
  have "list_ex (\<lambda>b. list_all (\<lambda>c. evalComparison pg c row cur) b)
          (after (sortFragments sortBy direction))
      \<longleftrightarrow> chainBefore pg (orderCols (sortFragments sortBy direction)) cur row"
    unfolding sortFragments_def Let_def fragments.simps by (subst fragmentLoop_iff) simp_all
  then show ?thesis
    unfolding afterHolds_def orderBefore_def by auto
qed

lemma chainBefore_irrefl: "\<not> chainBefore pg ch a a"
  by (induction ch) auto

lemma chainBefore_trans: "chainBefore pg ch a b \<Longrightarrow> chainBefore pg ch b c \<Longrightarrow> chainBefore pg ch a c"
proof (induction ch)
  case Nil
  then show ?case by simp
next
  case (Cons p ch)
  obtain k desc where p: "p = (k, desc)" by (cases p)
  show ?case
    using Cons.prems Cons.IH unfolding p
    by (cases desc) (auto split: if_splits)
qed

lemma chainBefore_total:
  "(ColId, False) \<in> set ch \<Longrightarrow> fe_id a \<noteq> fe_id b \<Longrightarrow> chainBefore pg ch a b \<or> chainBefore pg ch b a"
proof (induction ch)
  case Nil
  then show ?case by simp
next
  case (Cons p ch)
  obtain k desc where p: "p = (k, desc)" by (cases p)
  show ?case
    using Cons.prems Cons.IH unfolding p
    by (cases "column_key pg k a" "column_key pg k b" rule: linorder_cases) auto
qed

lemma list_keyset: "keyset_order (orderBefore pg (sortFragments sortBy direction)) fe_id (\<lambda>_. True)"
proof
  let ?o = "sortFragments sortBy direction"
  fix a b c
  show "\<not> orderBefore pg ?o a a"
    by (simp add: orderBefore_def chainBefore_irrefl)
  show "orderBefore pg ?o a b \<Longrightarrow> orderBefore pg ?o b c \<Longrightarrow> orderBefore pg ?o a c"
    unfolding orderBefore_def using chainBefore_trans less_trans by metis
  have "(ColId, False) \<in> set (orderCols ?o)"
    by (simp add: sortFragments_def Let_def)
  then show "fe_id a \<noteq> fe_id b \<Longrightarrow> orderBefore pg ?o a b \<or> orderBefore pg ?o b a"
    unfolding orderBefore_def using chainBefore_total by (metis neqE)
qed

interpretation list_order: keyset_order "orderBefore pg (sortFragments sortBy direction)" fe_id "\<lambda>_. True"
  by (rule list_keyset)

interpretation trash_order: keyset_order trashBefore fe_id "\<lambda>r. fe_trashed_at r \<noteq> None"
  by unfold_locales (auto simp: trashBefore_def split: option.splits)

lemma cursor_row:
  assumes "distinct (map fe_id db)" and "r \<in> set db" and "fe_org r = org"
  shows "list_ex P (filter (\<lambda>q. Some (fe_id q) = Some (fe_id r)) (in_org org db)) \<longleftrightarrow> P r"
  using assms distinct_ids_eq [OF assms(1)] by (fastforce simp: list_ex_iff)

section \<open>Every row once, in order\<close>

lemma folderRows_facts:
  assumes "distinct (map fe_id db)"
  shows "distinct (map fe_id (folderRows db org share parent))"
    and "r \<in> set (folderRows db org share parent) \<Longrightarrow> r \<in> set db \<and> fe_org r = org"
  using assms by (auto simp: folderRows_def distinct_map_filter)

lemma page_take_map: "take n (map f xs) = map f (take n xs)"
  by (simp add: take_map)

text \<open>C13. Following the cursor of a folder listing from the first page to the last yields every
  visible entry of the folder exactly once, in the order asked for, whatever the page size; each
  page reports the number of entries, folders and files of the whole folder.\<close>

theorem list_pages_complete:
  fixes pg :: pg_text and sortBy :: SortOrder and direction :: "SortDirection option"
  assumes "distinct (map fe_id db)" and "0 < limit"
    and "length (folderRows db org share parent) < n"
  defines "order \<equiv> orderBefore pg (sortFragments sortBy
             (case direction of None \<Rightarrow> DEFAULT_DIRECTION sortBy | Some d \<Rightarrow> d))"
  shows "map li_row (walkPages n (\<lambda>c. lp_page (list_page pg db org share parent c limit sortBy direction)) None)
           = order_by order (folderRows db org share parent)
       \<and> set (order_by order (folderRows db org share parent)) = set (folderRows db org share parent)
       \<and> distinct (map fe_id (order_by order (folderRows db org share parent)))
       \<and> sorted_wrt order (order_by order (folderRows db org share parent))"
proof -
  let ?rows = "folderRows db org share parent"
  let ?frag = "sortFragments sortBy (case direction of None \<Rightarrow> DEFAULT_DIRECTION sortBy | Some d \<Rightarrow> d)"
  let ?xs = "order_by order ?rows"
  let ?items = "map (withCounts (in_org org db)) ?xs"
  let ?idOf = "\<lambda>i. fe_id (li_row i)"
  let ?fetch = "\<lambda>c. lp_page (list_page pg db org share parent c limit sortBy direction)"
  note rows = folderRows_facts [OF assms(1)]
  have sorted: "sorted_wrt order ?xs"
    unfolding order_def by (rule list_order.sorted_order_by) (use rows in auto)
  have first: "?fetch None = page ?idOf (take (Suc limit) ?items) limit"
    by (simp add: list_page_def Let_def order_def take_map)
  have rest: "?fetch (Some (?idOf (?items ! i))) = page ?idOf (take (Suc limit) (drop (Suc i) ?items)) limit"
    if i: "i < length ?items" for i
  proof -
    let ?r = "?xs ! i"
    have ixs: "i < length ?xs" using i by simp
    then have "?r \<in> set ?rows"
      using nth_mem [OF ixs] by simp
    then have r: "?r \<in> set db" "fe_org ?r = org" using rows(2) by blast+
    have "list_ex (afterHolds pg ?frag f) (filter (\<lambda>q. Some (fe_id q) = Some (fe_id ?r)) (in_org org db))
        \<longleftrightarrow> order ?r f" for f
      unfolding cursor_row [OF assms(1) r] by (simp add: order_def sortFragments_after_matches_order)
    then have "order_by order (filter (\<lambda>f. Some (fe_id ?r) = None \<or> list_ex (afterHolds pg ?frag f)
          (filter (\<lambda>q. Some (fe_id q) = Some (fe_id ?r)) (in_org org db))) ?rows) = filter (order ?r) ?xs"
      unfolding order_def by (subst list_order.order_by_filter [symmetric]) (use rows in auto)
    also have "\<dots> = drop (Suc i) ?xs"
      using list_order.sorted_beyond [OF sorted [unfolded order_def] ixs [unfolded order_def]]
      by (simp add: order_def)
    finally show ?thesis
      using ixs by (simp add: list_page_def Let_def order_def [symmetric] withCounts_def [of _ ?r]
          take_map drop_map)
  qed
  have "walkPages n ?fetch None = ?items"
    by (rule list_order.walk_all [OF first rest assms(2)]) (use assms(3) in auto)
  moreover have "map li_row ?items = ?xs"
    by (simp add: withCounts_def comp_def)
  moreover have "distinct (map fe_id ?xs)"
  proof -
    have "set (map fe_id ?xs) = set (map fe_id ?rows)" and "length (map fe_id ?xs) = length (map fe_id ?rows)"
      by simp_all
    then show ?thesis
      using rows(1) by (metis card_distinct distinct_card)
  qed
  ultimately show ?thesis
    using sorted by simp
qed

lemma trashRows_facts:
  assumes "distinct (map fe_id db)"
  shows "distinct (map fe_id (trashRows db org share))"
    and "r \<in> set (trashRows db org share) \<Longrightarrow> r \<in> set db \<and> fe_org r = org \<and> fe_trashed_at r \<noteq> None"
  using assms by (auto simp: trashRows_def distinct_map_filter)

text \<open>C14. Paging through the trash yields every trashed entry of the share exactly once, latest
  first, also where a whole batch was trashed at the same instant and a page ends inside it.\<close>

theorem trash_pages_complete:
  assumes "distinct (map fe_id db)" and "0 < limit" and "length (trashRows db org share) < n"
  shows "map ti_row (walkPages n (\<lambda>c. listTrash db org share c limit) None)
           = order_by trashBefore (trashRows db org share)
       \<and> set (order_by trashBefore (trashRows db org share)) = set (trashRows db org share)
       \<and> sorted_wrt trashBefore (order_by trashBefore (trashRows db org share))"
proof -
  let ?rows = "trashRows db org share"
  let ?xs = "order_by trashBefore ?rows"
  let ?items = "map (withParentTrashed (in_org org db)) ?xs"
  let ?idOf = "\<lambda>i. fe_id (ti_row i)"
  let ?fetch = "\<lambda>c. listTrash db org share c limit"
  note rows = trashRows_facts [OF assms(1)]
  have sorted: "sorted_wrt trashBefore ?xs"
    by (rule trash_order.sorted_order_by) (use rows in auto)
  have first: "?fetch None = page ?idOf (take (Suc limit) ?items) limit"
    by (simp add: listTrash_def Let_def take_map)
  have rest: "?fetch (Some (?idOf (?items ! i))) = page ?idOf (take (Suc limit) (drop (Suc i) ?items)) limit"
    if i: "i < length ?items" for i
  proof -
    let ?r = "?xs ! i"
    have ixs: "i < length ?xs" using i by simp
    then have "?r \<in> set ?rows"
      using nth_mem [OF ixs] by simp
    then have r: "?r \<in> set db" "fe_org ?r = org" using rows(2) by blast+
    have "order_by trashBefore (filter (\<lambda>f. Some (fe_id ?r) = None \<or> list_ex (\<lambda>c. trashBefore c f)
          (filter (\<lambda>q. Some (fe_id q) = Some (fe_id ?r)) (in_org org db))) ?rows) = filter (trashBefore ?r) ?xs"
      unfolding cursor_row [OF assms(1) r]
      by (subst trash_order.order_by_filter [symmetric]) (use rows in auto)
    also have "\<dots> = drop (Suc i) ?xs"
      by (rule trash_order.sorted_beyond [OF sorted ixs])
    finally show ?thesis
      using ixs by (simp add: listTrash_def Let_def withParentTrashed_def [of _ ?r] take_map drop_map)
  qed
  have "walkPages n ?fetch None = ?items"
    by (rule trash_order.walk_all [OF first rest assms(2)]) (use assms(3) in auto)
  moreover have "map ti_row ?items = ?xs"
    by (simp add: withParentTrashed_def comp_def)
  ultimately show ?thesis
    using sorted by simp
qed

end
