(* ===== verification/FileWorld.thy ===== *)
theory FileWorld
  imports FileListing
begin

text \<open>
  The world \<open>FilesService\<close> acts on: the tables it writes, the queue it enqueues on, and the
  filesystem behind the system agent.

  \<^item> The agent (\<open>agent.service.ts\<close>, the daemon behind its socket) is the function \<open>env_call\<close> of
    the environment: a request and the state of the disk to an answer, or to \<open>AgentUnavailableError\<close>,
    and the new state of the disk. Audit reasons and correlation ids change no answer and are left out.
  \<^item> A transaction that writes goes through \<open>withTenant\<close>: it commits as a whole or not at all. The
    list \<open>w_faults\<close> says which of the coming ones fail for a reason outside the model (a lost
    connection); when it is empty none does.
  \<^item> \<open>uuidv7()\<close> is \<open>env_id\<close>, applied to a counter; \<open>now()\<close> is \<open>w_now\<close>.
\<close>

section \<open>Requests and answers of the agent\<close>

record AclEntry =
  ae_gid :: nat
  ae_read :: bool
  ae_write :: bool
  ae_execute :: bool

datatype AgentRequest =
  CreateDirectory string "string list" nat nat
| MoveEntry string "string list" "string list"
| RemoveEntry string "string list" bool
| ListDirectory string "string list"
| PublishTransfer string string "string list" nat nat nat
| OpenDownload string "string list"
| PoolStatus string
| ArchiveFolder string "string list" string
| ApplyFolderAcl string "string list" "AclEntry list"
| SecureShareRoot string

record DirectoryEntry =
  de_name :: string
  de_directory :: bool

datatype AgentResponse =
  DirectoryCreated
| Moved
| Removed
| NotFound string
| Conflict string
| Refused string
| Failed string
| Listing "DirectoryEntry list"
| Published nat
| Download string nat
| PoolAvailable nat
| AclApplied
| AclUnavailable string
| ShareRootSecured

section \<open>Errors\<close>

datatype file_error =
  InvalidNameError string
| EntryNotFoundError
| NameTakenError string
| CrossShareMoveError
| MoveIntoDescendantError string
| NotTrashedError string
| EntryMissingOnDiskError string
| StagedBytesGoneError string
| FolderNotOnDiskError string
| NameTakenOnDiskError string string
| NameTakenByTrashedEntryError string id string
| DirectoryNotEmptyError string
| TrashedParentError string
| ArchiveTooLargeError nat nat
| ShareReadOnlyError string
| AgentRefusedError string
| AgentUnavailableError string
| PosixIdentityUnknownUserError
| PosixIdentityUnavailableError string
| UniqueViolation
| DatabaseError string
| StatementTimeoutError

text \<open>The part of \<open>expectStatus\<close> that throws: the answer was not the expected variant.\<close>

fun expectStatus :: "AgentResponse \<Rightarrow> file_error" where
  "expectStatus (Refused reason) = AgentRefusedError reason"
| "expectStatus (Failed reason) = AgentRefusedError reason"
| "expectStatus _ = AgentUnavailableError ''unexpected answer''"

section \<open>The world\<close>

record UploadRow =
  up_org :: id
  up_parent :: "id option"
  up_file :: "id option"

record PosixUser =
  pu_org :: id
  pu_user :: id
  pu_uid :: "nat option"

record QueuedApply =
  qa_org :: id
  qa_share :: id
  qa_entry :: id

record 'd world =
  w_entries :: table
  w_uploads :: "UploadRow list"
  w_users :: "PosixUser list"
  w_gids :: "nat list"
  w_retired :: "nat list"
  w_queue :: "QueuedApply list"
  w_seq :: nat
  w_now :: nat
  w_faults :: "file_error option list"
  w_disk :: 'd

record 'd env =
  env_call :: "AgentRequest \<Rightarrow> 'd \<Rightarrow> (string + AgentResponse) \<times> 'd"
  env_pg :: pg_text
  env_id :: "nat \<Rightarrow> id"

type_synonym ('d, 'a) op = "('d world, file_error, 'a) eff"

record ShareRef =
  sh_id :: id
  sh_name :: string

definition agent_call :: "'d env \<Rightarrow> AgentRequest \<Rightarrow> ('d, AgentResponse) op" where
  "agent_call e req w =
     (case env_call e req (w_disk w) of
        (Inl reason, d) \<Rightarrow> (Inl (AgentUnavailableError reason), w\<lparr>w_disk := d\<rparr>)
      | (Inr resp, d) \<Rightarrow> (Inr resp, w\<lparr>w_disk := d\<rparr>))"

text \<open>One writing transaction: its faults, its rollback.\<close>

definition withTenant :: "('d world \<Rightarrow> file_error + 'a \<times> 'd world) \<Rightarrow> ('d, 'a) op" where
  "withTenant body w =
     (case w_faults w of
        Some e # rest \<Rightarrow> (Inl e, w\<lparr>w_faults := rest\<rparr>)
      | None # rest \<Rightarrow>
          (case body (w\<lparr>w_faults := rest\<rparr>) of
             Inl e \<Rightarrow> (Inl e, w\<lparr>w_faults := rest\<rparr>)
           | Inr (a, w') \<Rightarrow> (Inr a, w'))
      | [] \<Rightarrow> (case body w of Inl e \<Rightarrow> (Inl e, w) | Inr (a, w') \<Rightarrow> (Inr a, w')))"

section \<open>What the schema enforces on a write\<close>

text \<open>The two partial unique indexes of 0008: per parent, and per share at the top level.\<close>

definition sameSlot :: "FileEntryRow \<Rightarrow> FileEntryRow \<Rightarrow> bool" where
  "sameSlot a b \<longleftrightarrow> fe_org a = fe_org b \<and> fe_parent a = fe_parent b
     \<and> (fe_parent a = None \<longrightarrow> fe_share a = fe_share b)"

definition nameClash :: "pg_text \<Rightarrow> table \<Rightarrow> FileEntryRow \<Rightarrow> bool" where
  "nameClash pg db r =
     (fe_trashed_at r = None
      \<and> list_ex (\<lambda>q. fe_id q \<noteq> fe_id r \<and> fe_trashed_at q = None \<and> sameSlot q r
           \<and> fold_identity pg (fe_name q) = fold_identity pg (fe_name r)) db)"

text \<open>\<open>file_entries_name_component\<close> and the foreign key of \<open>parent_id\<close>.\<close>

definition rowAccepted :: "table \<Rightarrow> FileEntryRow \<Rightarrow> bool" where
  "rowAccepted db r =
     (CHR ''/'' \<notin> set (fe_name r) \<and> fe_name r \<noteq> '''' \<and> fe_name r \<noteq> ''.'' \<and> fe_name r \<noteq> ''..''
      \<and> (case fe_parent r of None \<Rightarrow> True | Some p \<Rightarrow> list_ex (\<lambda>q. fe_id q = p) db))"

definition insertRow :: "'d env \<Rightarrow> (id \<Rightarrow> nat \<Rightarrow> FileEntryRow) \<Rightarrow> 'd world \<Rightarrow> file_error + FileEntryRow \<times> 'd world" where
  "insertRow e mk w =
     (let r = mk (env_id e (w_seq w)) (w_now w) in
      if \<not> rowAccepted (w_entries w) r then Inl (DatabaseError ''constraint'')
      else if nameClash (env_pg e) (w_entries w) r then Inl UniqueViolation
      else Inr (r, w\<lparr>w_entries := w_entries w @ [r], w_seq := Suc (w_seq w)\<rparr>))"

text \<open>\<open>UPDATE ... WHERE organization_id = $1 AND id = $2 RETURNING\<close>: \<open>updated_at\<close> is the trigger's.\<close>

definition updateRows :: "(FileEntryRow \<Rightarrow> bool) \<Rightarrow> (FileEntryRow \<Rightarrow> FileEntryRow) \<Rightarrow> table \<Rightarrow> table" where
  "updateRows P f db = map (\<lambda>r. if P r then f r else r) db"

definition updateRow ::
  "'d env \<Rightarrow> id \<Rightarrow> id \<Rightarrow> (FileEntryRow \<Rightarrow> bool) \<Rightarrow> (FileEntryRow \<Rightarrow> FileEntryRow)
     \<Rightarrow> 'd world \<Rightarrow> file_error + FileEntryRow option \<times> 'd world" where
  "updateRow e org i P f w =
     (let hit = (\<lambda>r. fe_org r = org \<and> fe_id r = i \<and> P r);
          f' = (\<lambda>r. (f r)\<lparr>fe_updated_at := w_now w\<rparr>)
      in case List.find hit (w_entries w) of
           None \<Rightarrow> Inr (None, w)
         | Some r \<Rightarrow>
             if \<not> rowAccepted (w_entries w) (f' r) then Inl (DatabaseError ''constraint'')
             else if nameClash (env_pg e) (w_entries w) (f' r) then Inl UniqueViolation
             else Inr (Some (f' r), w\<lparr>w_entries := updateRows hit f' (w_entries w)\<rparr>))"

section \<open>POSIX identities\<close>

text \<open>\<open>posix.service.ts\<close> and \<open>allocate_posix_id\<close> as migration 0049 leaves it: one counter for uids,
  gids and the numbers of deleted accounts and teams. The second argument lists the last two.\<close>

definition assertUsable :: "nat \<Rightarrow> file_error + nat" where
  "assertUsable i =
     (if i < 300000 \<or> i > 399999 then Inl (PosixIdentityUnavailableError ''outside the reserved range'')
      else Inr i)"

definition allocate_posix_id :: "PosixUser list \<Rightarrow> nat list \<Rightarrow> file_error + nat" where
  "allocate_posix_id users others =
     (let taken = List.map_filter pu_uid users @ others;
          next_id = (if taken = [] then 299999 else Max (set taken)) + 1
      in if next_id > 399999 then Inl (DatabaseError ''the reserved POSIX id range is exhausted'')
         else Inr next_id)"

text \<open>The first \<open>SELECT\<close> of \<open>posixUidFor\<close>: the id of the account, or none yet.\<close>

definition posixRead :: "id \<Rightarrow> id \<Rightarrow> PosixUser list \<Rightarrow> file_error + nat option" where
  "posixRead org user users =
     (case List.find (\<lambda>u. pu_org u = org \<and> pu_user u = user) users of
        None \<Rightarrow> Inl PosixIdentityUnknownUserError
      | Some row \<Rightarrow>
          (case pu_uid row of
             Some uid \<Rightarrow> bindE (assertUsable uid) (\<lambda>u. Inr (Some u))
           | None \<Rightarrow> Inr None))"

text \<open>\<open>allocateWithin\<close>, behind the lock.\<close>

definition allocateWithin :: "PosixUser list \<Rightarrow> nat list \<Rightarrow> file_error + nat" where
  "allocateWithin users others = bindE (allocate_posix_id users others) assertUsable"

text \<open>What follows it in the same transaction: the guarded \<open>UPDATE\<close>, and the second \<open>SELECT\<close> when
  somebody else's id was there already.\<close>

definition posixSettle ::
  "id \<Rightarrow> id \<Rightarrow> PosixUser list \<Rightarrow> nat list \<Rightarrow> file_error + nat \<times> PosixUser list" where
  "posixSettle org user users others =
     bindE (allocateWithin users others) (\<lambda>allocated.
     if list_ex (\<lambda>v. pu_org v = org \<and> pu_user v = user \<and> pu_uid v = None) users
     then bindE (assertUsable allocated) (\<lambda>u.
            Inr (u, map (\<lambda>v. if pu_org v = org \<and> pu_user v = user \<and> pu_uid v = None
                             then v\<lparr>pu_uid := Some allocated\<rparr> else v) users))
     else case List.find (\<lambda>u. pu_org u = org \<and> pu_user u = user) users of
            None \<Rightarrow> Inl (PosixIdentityUnavailableError ''the account has no uid and would not take one'')
          | Some row \<Rightarrow>
              (case pu_uid row of
                 None \<Rightarrow> Inl (PosixIdentityUnavailableError ''the account has no uid and would not take one'')
               | Some settled \<Rightarrow> bindE (assertUsable settled) (\<lambda>u. Inr (u, users))))"

definition posixUidFor :: "id \<Rightarrow> id \<Rightarrow> ('d, nat) op" where
  "posixUidFor org user = withTenant (\<lambda>w.
     bindE (posixRead org user (w_users w)) (\<lambda>existing.
     case existing of
       Some uid \<Rightarrow> Inr (uid, w)
     | None \<Rightarrow>
         bindE (posixSettle org user (w_users w) (w_gids w @ w_retired w)) (\<lambda>(uid, users).
         Inr (uid, w\<lparr>w_users := users\<rparr>))))"

end
