(* ===== verification/FileOps.thy ===== *)
theory FileOps
  imports FileWorld
begin

text \<open>
  The operations of \<open>FilesService\<close> that change the tree (\<open>apps/api/src/files/files.service.ts\<close>), in
  the order of the file. Each is a call on the world of \<open>FileWorld\<close>; a \<open>catch\<close> is \<open>catchE\<close>, log lines
  are left out. A recursive query that would not end is \<open>StatementTimeoutError\<close>.
\<close>

section \<open>Names\<close>

definition MAX_NAME_BYTES :: nat where
  "MAX_NAME_BYTES = 255"

definition assertValidName :: "string \<Rightarrow> file_error + unit" where
  "assertValidName name =
     (if length name = 0 then Inl (InvalidNameError ''a name may not be empty'')
      else if name = ''.'' \<or> name = ''..'' then Inl (InvalidNameError ''not a name'')
      else if CHR ''/'' \<in> set name \<or> CHR 0x5C \<in> set name
        then Inl (InvalidNameError ''a name may not contain a separator'')
      else if CHR 0x00 \<in> set name then Inl (InvalidNameError ''a name may not contain a NUL'')
      else if take 1 name = ''-'' then Inl (InvalidNameError ''a name may not begin with a dash'')
      else if length name > MAX_NAME_BYTES then Inl (InvalidNameError ''too long'')
      else if name = ''.depsis'' then Inl (InvalidNameError ''reserved'')
      else Inr ())"

definition assertWritable :: "string \<Rightarrow> bool \<Rightarrow> file_error + unit" where
  "assertWritable name readOnly = (if readOnly then Inl (ShareReadOnlyError name) else Inr ())"

section \<open>Reading\<close>

definition findEntry :: "id \<Rightarrow> id \<Rightarrow> ('d, FileEntryRow) op" where
  "findEntry org i w =
     (case row_at (in_org org (w_entries w)) i of
        None \<Rightarrow> (Inl EntryNotFoundError, w)
      | Some row \<Rightarrow> (Inr row, w))"

definition componentsOf :: "id \<Rightarrow> id \<Rightarrow> ('d, string list) op" where
  "componentsOf org i w =
     (let rows = in_org org (w_entries w) in
      case walkUp (Suc (length rows)) rows (Some i) of
        None \<Rightarrow> (Inl StatementTimeoutError, w)
      | Some up \<Rightarrow> if length up = 0 then (Inl EntryNotFoundError, w) else (Inr (rev (map fe_name up)), w))"

definition isSelfOrDescendant :: "id \<Rightarrow> id \<Rightarrow> id \<Rightarrow> ('d, bool) op" where
  "isSelfOrDescendant org candidate folder w =
     (let rows = in_org org (w_entries w) in
      case walkUp (Suc (length rows)) rows (Some candidate) of
        None \<Rightarrow> (Inl StatementTimeoutError, w)
      | Some up \<Rightarrow> (Inr (list_ex (\<lambda>r. fe_id r = folder) up), w))"

definition requireNameFree ::
  "'d env \<Rightarrow> id \<Rightarrow> id \<Rightarrow> id option \<Rightarrow> string \<Rightarrow> id option \<Rightarrow> ('d, unit) op" where
  "requireNameFree e org share parent name except w =
     (if list_ex (\<lambda>r. fe_org r = org \<and> fe_share r = share \<and> fe_parent r = parent
           \<and> fold_identity (env_pg e) (fe_name r) = fold_identity (env_pg e) name
           \<and> fe_trashed_at r = None \<and> Some (fe_id r) \<noteq> except) (w_entries w)
      then (Inl (NameTakenError name), w) else (Inr (), w))"

definition trashedEntryHolding ::
  "'d env \<Rightarrow> id \<Rightarrow> id \<Rightarrow> id option \<Rightarrow> string \<Rightarrow> ('d, id option) op" where
  "trashedEntryHolding e org share parent name w =
     (let rows = filter (\<lambda>r. fe_org r = org \<and> fe_share r = share \<and> fe_parent r = parent
           \<and> fold_identity (env_pg e) (fe_name r) = fold_identity (env_pg e) name
           \<and> fe_trashed_at r \<noteq> None) (w_entries w)
      in case order_by (\<lambda>a b. the (fe_trashed_at b) < the (fe_trashed_at a)) rows of
           [] \<Rightarrow> (Inr None, w)
         | r # _ \<Rightarrow> (Inr (Some (fe_id r)), w))"

fun asNameConflict :: "file_error \<Rightarrow> string \<Rightarrow> file_error" where
  "asNameConflict UniqueViolation name = NameTakenError name"
| "asNameConflict err name = err"

section \<open>Directories\<close>

text \<open>The two loops of \<open>ensureDirectories\<close>: the prefixes of each chain, shortest first.\<close>

definition chainPrefixes :: "string list \<Rightarrow> string list list" where
  "chainPrefixes ch = map (\<lambda>depth. take depth ch) [1..<Suc (length ch)]"

fun ensureLoop :: "'d env \<Rightarrow> string \<Rightarrow> nat \<Rightarrow> string list list \<Rightarrow> bool \<Rightarrow> ('d, bool) op" where
  "ensureLoop e share uid [] attempted = ret attempted"
| "ensureLoop e share uid (p # ps) attempted =
     seqE (agent_call e (CreateDirectory share p uid uid)) (\<lambda>response.
       case response of
         DirectoryCreated \<Rightarrow> ensureLoop e share uid ps True
       | Conflict _ \<Rightarrow> ensureLoop e share uid ps True
       | _ \<Rightarrow> ret False)"

definition ensureDirectories ::
  "'d env \<Rightarrow> string \<Rightarrow> string list list \<Rightarrow> nat \<Rightarrow> ('d, bool) op" where
  "ensureDirectories e share paths uid =
     ensureLoop e share uid (concat (map chainPrefixes paths)) False"

text \<open>The loop of \<open>createDirectory\<close>: attempt 0 and, after materialising the ancestors, attempt 1.\<close>

definition createDirectory :: "'d env \<Rightarrow> string \<Rightarrow> string list \<Rightarrow> nat \<Rightarrow> string \<Rightarrow> ('d, unit) op" where
  "createDirectory e share path uid name =
     (let ancestors = butlast path;
          attempt = agent_call e (CreateDirectory share path uid uid);
          answer = (\<lambda>last response.
            case response of
              DirectoryCreated \<Rightarrow> ret ()
            | Conflict reason \<Rightarrow> raise (NameTakenOnDiskError name reason)
            | NotFound reason \<Rightarrow>
                if last then raise (FolderNotOnDiskError reason)
                else seqE (ensureDirectories e share [ancestors] uid) (\<lambda>materialised.
                       if \<not> materialised then raise (FolderNotOnDiskError reason)
                       else seqE attempt (\<lambda>second.
                         case second of
                           DirectoryCreated \<Rightarrow> ret ()
                         | Conflict reason \<Rightarrow> raise (NameTakenOnDiskError name reason)
                         | NotFound reason \<Rightarrow> raise (FolderNotOnDiskError reason)
                         | other \<Rightarrow> raise (expectStatus other)))
            | other \<Rightarrow> raise (expectStatus other))
      in seqE attempt (answer (ancestors = [])))"

text \<open>The two halves of every creation: the parent as the caller may use it, the row as written.\<close>

definition newRow ::
  "id \<Rightarrow> id \<Rightarrow> id option \<Rightarrow> entry_kind \<Rightarrow> string \<Rightarrow> string \<Rightarrow> nat \<Rightarrow> string option \<Rightarrow> id option
     \<Rightarrow> id \<Rightarrow> nat \<Rightarrow> FileEntryRow" where
  "newRow org share parent kind name path bytes contentType copiedFrom i now =
     \<lparr>fe_id = i, fe_org = org, fe_share = share, fe_parent = parent, fe_kind = kind, fe_name = name,
      fe_path = path, fe_size = bytes, fe_content_type = contentType, fe_trashed_at = None,
      fe_trashed_by = None, fe_recycled = False, fe_copied_from = copiedFrom, fe_created_at = now,
      fe_updated_at = now\<rparr>"

text \<open>The checks on the parent of a new folder: its path and its components.\<close>

definition folderParent :: "id \<Rightarrow> ShareRef \<Rightarrow> id option \<Rightarrow> ('d, string \<times> string list) op" where
  "folderParent org share parentId =
     (case parentId of
        None \<Rightarrow> ret ('''', [])
      | Some p \<Rightarrow>
          seqE (findEntry org p) (\<lambda>parent.
          seqE (guardE (fe_kind parent = Folder) (InvalidNameError ''the parent is not a folder'')) (\<lambda>_.
          seqE (guardE (fe_trashed_at parent = None) EntryNotFoundError) (\<lambda>_.
          seqE (guardE (fe_share parent = sh_id share) EntryNotFoundError) (\<lambda>_.
          seqE (componentsOf org p) (\<lambda>components. ret (fe_path parent, components)))))))"

text \<open>The last part of \<open>createFolder\<close>: the row, or the directory taken off the disk again.\<close>

definition createFolderRow ::
  "'d env \<Rightarrow> id \<Rightarrow> ShareRef \<Rightarrow> id option \<Rightarrow> string \<Rightarrow> string \<Rightarrow> string list \<Rightarrow> id option
     \<Rightarrow> ('d, FileEntryRow) op" where
  "createFolderRow e org share parentId name newPath path copiedFrom =
     catchE
       (withTenant (insertRow e
          (newRow org (sh_id share) parentId Folder name newPath 0 None copiedFrom)))
       (\<lambda>err.
          seqE (catchE (seqE (agent_call e (RemoveEntry (sh_name share) path True)) (\<lambda>_. ret ()))
                  (\<lambda>_. ret ())) (\<lambda>_.
          raise (asNameConflict err name)))"

definition createFolder ::
  "'d env \<Rightarrow> id \<Rightarrow> ShareRef \<Rightarrow> id option \<Rightarrow> string \<Rightarrow> id \<Rightarrow> id option \<Rightarrow> ('d, FileEntryRow) op" where
  "createFolder e org share parentId name actorId copiedFrom =
     seqE (liftE (assertValidName name)) (\<lambda>_.
     seqE (folderParent org share parentId) (\<lambda>(parentPath, parentComponents).
     seqE (requireNameFree e org (sh_id share) parentId name None) (\<lambda>_.
     seqE (posixUidFor org actorId) (\<lambda>ownerUid.
     seqE (catchE (createDirectory e (sh_name share) (parentComponents @ [name]) ownerUid name) (\<lambda>err.
             case err of
               NameTakenOnDiskError taken reason \<Rightarrow>
                 seqE (trashedEntryHolding e org (sh_id share) parentId name) (\<lambda>trashed.
                   case trashed of
                     None \<Rightarrow> raise err
                   | Some t \<Rightarrow> raise (NameTakenByTrashedEntryError name t reason))
             | _ \<Rightarrow> raise err)) (\<lambda>_.
     createFolderRow e org share parentId name (parentPath @ ''/'' @ name) (parentComponents @ [name])
       copiedFrom)))))"

definition enqueueAclApply :: "id \<Rightarrow> id \<Rightarrow> id \<Rightarrow> ('d, unit) op" where
  "enqueueAclApply org shareId entryId =
     catchE
       (withTenant (\<lambda>w. Inr ((), w\<lparr>w_queue := w_queue w
          @ [\<lparr>qa_org = org, qa_share = shareId, qa_entry = entryId\<rparr>]\<rparr>)))
       (\<lambda>_. ret ())"

definition recordPublishedFile ::
  "'d env \<Rightarrow> id \<Rightarrow> id \<Rightarrow> id option \<Rightarrow> string \<Rightarrow> nat \<Rightarrow> string option \<Rightarrow> id option \<Rightarrow> ('d, FileEntryRow) op" where
  "recordPublishedFile e org shareId parentId name sizeBytes contentType copiedFrom =
     seqE (case parentId of
             None \<Rightarrow> ret ''''
           | Some p \<Rightarrow> seqE (findEntry org p) (\<lambda>parent. ret (fe_path parent))) (\<lambda>parentPath.
     catchE
       (withTenant (insertRow e
          (newRow org shareId parentId File name (parentPath @ ''/'' @ name) sizeBytes contentType copiedFrom)))
       (\<lambda>err. raise (asNameConflict err name)))"

section \<open>Moving\<close>

definition moveOnDisk :: "'d env \<Rightarrow> string \<Rightarrow> string list \<Rightarrow> string list \<Rightarrow> string \<Rightarrow> ('d, unit) op" where
  "moveOnDisk e share src dst name =
     seqE (agent_call e (MoveEntry share src dst)) (\<lambda>response.
       case response of
         Moved \<Rightarrow> ret ()
       | NotFound reason \<Rightarrow> raise (EntryMissingOnDiskError reason)
       | Conflict _ \<Rightarrow> raise (NameTakenError name)
       | other \<Rightarrow> raise (expectStatus other))"

text \<open>\<open>rebuildSubtreePaths\<close>: the recursive query carries the path down from the root row; the
  \<open>UPDATE\<close> writes it where it differs, never on the root row itself.\<close>

definition rebuildSubtreePaths :: "id \<Rightarrow> id \<Rightarrow> 'd world \<Rightarrow> file_error + unit \<times> 'd world" where
  "rebuildSubtreePaths org rootId w =
     (let rows = in_org org (w_entries w);
          base = map (\<lambda>r. (r, fe_path r)) (filter (\<lambda>r. fe_id r = rootId) rows)
      in case treeLevels (Suc (length rows)) (\<lambda>p c. p @ ''/'' @ fe_name c) rows base of
           None \<Rightarrow> Inl StatementTimeoutError
         | Some levels \<Rightarrow>
             (let paths = map_of (map (\<lambda>(r, p). (fe_id r, p)) (concat levels))
              in Inr ((), w\<lparr>w_entries := map (\<lambda>r.
                   case paths (fe_id r) of
                     None \<Rightarrow> r
                   | Some p \<Rightarrow> if fe_org r = org \<and> fe_id r \<noteq> rootId \<and> fe_path r \<noteq> p
                               then r\<lparr>fe_path := p, fe_updated_at := w_now w\<rparr> else r) (w_entries w)\<rparr>)))"

definition upgradeTrashedConflict ::
  "'d env \<Rightarrow> id \<Rightarrow> id \<Rightarrow> id option \<Rightarrow> string \<Rightarrow> file_error \<Rightarrow> ('d, 'a) op" where
  "upgradeTrashedConflict e org shareId parentId name err =
     (case err of
        NameTakenError taken \<Rightarrow>
          seqE (trashedEntryHolding e org shareId parentId name) (\<lambda>trashed.
            case trashed of
              None \<Rightarrow> raise err
            | Some t \<Rightarrow> raise (NameTakenByTrashedEntryError name t (taken @ '' already exists here'')))
      | _ \<Rightarrow> raise err)"

text \<open>The disk half of \<open>move\<close>: one rename, and one more after materialising older folders.\<close>

definition moveWithRetry ::
  "'d env \<Rightarrow> id \<Rightarrow> ShareRef \<Rightarrow> FileEntryRow \<Rightarrow> id option \<Rightarrow> string \<Rightarrow> string list \<Rightarrow> string list \<Rightarrow> id
     \<Rightarrow> ('d, unit) op" where
  "moveWithRetry e org share entry parentId name src dst actorId =
     catchE (moveOnDisk e (sh_name share) src dst name) (\<lambda>err.
       case err of
         NameTakenError _ \<Rightarrow> upgradeTrashedConflict e org (fe_share entry) parentId name err
       | EntryMissingOnDiskError reason \<Rightarrow>
           (let missing = (if length src > 1 then [butlast src] else [])
                       @ (if length dst > 1 then [butlast dst] else [])
                       @ (if fe_kind entry = Folder then [src] else [])
            in if length missing = 0 then raise err
               else seqE (posixUidFor org actorId) (\<lambda>ownerUid.
                    seqE (ensureDirectories e (sh_name share) missing ownerUid) (\<lambda>materialised.
                    if \<not> materialised then raise (FolderNotOnDiskError reason)
                    else catchE (moveOnDisk e (sh_name share) src dst name) (\<lambda>retryError.
                           case retryError of
                             EntryMissingOnDiskError reason \<Rightarrow> raise (FolderNotOnDiskError reason)
                           | NameTakenError _ \<Rightarrow>
                               upgradeTrashedConflict e org (fe_share entry) parentId name retryError
                           | _ \<Rightarrow> raise retryError))))
       | _ \<Rightarrow> raise err)"

definition writeMove ::
  "'d env \<Rightarrow> id \<Rightarrow> id \<Rightarrow> id option \<Rightarrow> string \<Rightarrow> string \<Rightarrow> 'd world \<Rightarrow> file_error + FileEntryRow \<times> 'd world" where
  "writeMove e org i parentId name newPath w =
     bindE (updateRow e org i (\<lambda>_. True)
              (\<lambda>r. r\<lparr>fe_parent := parentId, fe_name := name, fe_path := newPath\<rparr>) w) (\<lambda>(found, w').
       case found of
         None \<Rightarrow> Inl EntryNotFoundError
       | Some row \<Rightarrow> bindE (rebuildSubtreePaths org i w') (\<lambda>(_, w''). Inr (row, w'')))"

text \<open>The checks on the destination, and the path the entry will sit under.\<close>

definition moveTarget ::
  "id \<Rightarrow> id \<Rightarrow> FileEntryRow \<Rightarrow> id option \<Rightarrow> ('d, string) op" where
  "moveTarget org i entry parentId =
     (case parentId of
        None \<Rightarrow> ret ''''
      | Some p \<Rightarrow>
          seqE (findEntry org p) (\<lambda>parent.
          seqE (guardE (fe_trashed_at parent = None) EntryNotFoundError) (\<lambda>_.
          seqE (guardE (fe_share parent = fe_share entry) CrossShareMoveError) (\<lambda>_.
          seqE (guardE (fe_kind parent = Folder) (InvalidNameError ''the destination is not a folder'')) (\<lambda>_.
          seqE (if fe_kind entry = Folder then isSelfOrDescendant org (fe_id parent) i else ret False) (\<lambda>inside.
          seqE (guardE (\<not> inside) (MoveIntoDescendantError (fe_name entry))) (\<lambda>_.
          ret (fe_path parent))))))))"

text \<open>The last part of \<open>move\<close>: the transaction, the queued ACL job, and the undo on disk.\<close>

definition moveCommit ::
  "'d env \<Rightarrow> id \<Rightarrow> id \<Rightarrow> ShareRef \<Rightarrow> FileEntryRow \<Rightarrow> id option \<Rightarrow> string \<Rightarrow> string \<Rightarrow> string list
     \<Rightarrow> string list \<Rightarrow> ('d, FileEntryRow) op" where
  "moveCommit e org i share entry parentId name newPath src dst =
     catchE
       (seqE (withTenant (writeMove e org i parentId name newPath)) (\<lambda>moved.
        if fe_kind moved = Folder
        then seqE (enqueueAclApply org (sh_id share) i) (\<lambda>_. ret moved) else ret moved))
       (\<lambda>err.
          seqE (catchE (moveOnDisk e (sh_name share) dst src (fe_name entry)) (\<lambda>_. ret ())) (\<lambda>_.
          raise (asNameConflict err name)))"

definition moveDestination :: "id \<Rightarrow> id option \<Rightarrow> string \<Rightarrow> ('d, string list) op" where
  "moveDestination org parentId name =
     (case parentId of
        None \<Rightarrow> ret [name]
      | Some p \<Rightarrow> seqE (componentsOf org p) (\<lambda>cs. ret (cs @ [name])))"

definition move ::
  "'d env \<Rightarrow> id \<Rightarrow> id \<Rightarrow> ShareRef \<Rightarrow> id option \<Rightarrow> string option \<Rightarrow> id \<Rightarrow> ('d, FileEntryRow) op" where
  "move e org i share parentId newName actorId =
     seqE (findEntry org i) (\<lambda>entry.
     seqE (guardE (\<not> (fe_trashed_at entry \<noteq> None \<or> fe_share entry \<noteq> sh_id share)) EntryNotFoundError) (\<lambda>_.
     let name = (case newName of None \<Rightarrow> fe_name entry | Some n \<Rightarrow> n) in
     seqE (liftE (assertValidName name)) (\<lambda>_.
     seqE (moveTarget org i entry parentId) (\<lambda>parentPath.
     if fe_parent entry = parentId \<and> name = fe_name entry then ret entry
     else
     seqE (requireNameFree e org (fe_share entry) parentId name (Some i)) (\<lambda>_.
     seqE (componentsOf org i) (\<lambda>src.
     seqE (moveDestination org parentId name) (\<lambda>dst.
     seqE (moveWithRetry e org share entry parentId name src dst actorId) (\<lambda>_.
     moveCommit e org i share entry parentId name (parentPath @ ''/'' @ name) src dst))))))))"

definition rename ::
  "'d env \<Rightarrow> id \<Rightarrow> id \<Rightarrow> string \<Rightarrow> ShareRef \<Rightarrow> id \<Rightarrow> bool \<Rightarrow> ('d, FileEntryRow) op" where
  "rename e org i name share actorId allowTrashed =
     seqE (liftE (assertValidName name)) (\<lambda>_.
     seqE (findEntry org i) (\<lambda>entry.
     seqE (guardE (\<not> (fe_trashed_at entry \<noteq> None \<and> \<not> allowTrashed)) EntryNotFoundError) (\<lambda>_.
     move e org i share (fe_parent entry) (Some name) actorId)))"

end
