(* ===== verification/FileTrash.thy ===== *)
theory FileTrash
  imports FileOps
begin

text \<open>
  The second half of \<open>FilesService\<close>: the trash, permanent deletion, and the calls that move bytes.
  The bin of a share is the folder Samba's \<open>recycle\<close> module uses; an entry's place in it is its own
  path under that folder.
\<close>

text \<open>\<open>!DEPSIS\<close> and the two Turkish words, in UTF-8.\<close>

definition BIN :: "string list" where
  "BIN = [''!DEPSIS '' @ [CHR 0xC3, CHR 0x87, CHR 0xC3, CHR 0xB6, CHR ''p''] @ '' Kutusu'']"

fun isGone :: "AgentResponse \<Rightarrow> bool" where
  "isGone Removed = True"
| "isGone (NotFound _) = True"
| "isGone _ = False"

section \<open>Permanent deletion\<close>

text \<open>\<open>sweepUnknown\<close> goes eight levels down: the first argument is the number of levels left.\<close>

fun sweepUnknown :: "nat \<Rightarrow> 'd env \<Rightarrow> string \<Rightarrow> string list \<Rightarrow> ('d, nat) op"
  and sweepEntries ::
    "nat \<Rightarrow> 'd env \<Rightarrow> string \<Rightarrow> string list \<Rightarrow> DirectoryEntry list \<Rightarrow> nat \<Rightarrow> ('d, nat) op" where
  "sweepUnknown 0 e share parts = ret 0"
| "sweepUnknown (Suc levels) e share parts =
     seqE (agent_call e (ListDirectory share parts)) (\<lambda>listing.
       case listing of
         Listing entries \<Rightarrow> sweepEntries levels e share parts entries 0
       | _ \<Rightarrow> ret 0)"
| "sweepEntries levels e share parts [] removed = ret removed"
| "sweepEntries levels e share parts (x # xs) removed =
     (let child = parts @ [de_name x] in
      seqE (if de_directory x then sweepUnknown levels e share child else ret 0) (\<lambda>below.
      seqE (agent_call e (RemoveEntry share child (de_directory x))) (\<lambda>response.
      sweepEntries levels e share parts xs
        (removed + below + (if isGone response then 1 else 0)))))"

text \<open>
  \<open>DELETE FROM file_entries\<close>: nothing when there is no such row. \<open>parent_id\<close> is \<open>ON DELETE RESTRICT\<close>, and
  \<open>copied_from_entry_id\<close> is \<open>ON DELETE SET NULL\<close>: a copy outlives what it was copied from and forgets it.
\<close>

definition forgetSource :: "nat \<Rightarrow> id \<Rightarrow> FileEntryRow \<Rightarrow> FileEntryRow" where
  "forgetSource now i r =
     (if fe_copied_from r = Some i then r\<lparr>fe_copied_from := None, fe_updated_at := now\<rparr> else r)"

definition deleteEntry :: "nat \<Rightarrow> id \<Rightarrow> id \<Rightarrow> table \<Rightarrow> file_error + table" where
  "deleteEntry now org i db =
     (if \<not> list_ex (\<lambda>r. fe_org r = org \<and> fe_id r = i) db then Inr db
      else if list_ex (\<lambda>q. fe_parent q = Some i) db then Inl (DatabaseError ''foreign key'')
      else Inr (map (forgetSource now i) (filter (\<lambda>r. \<not> (fe_org r = org \<and> fe_id r = i)) db)))"

text \<open>Both tables in one transaction.\<close>

definition dropRows :: "id \<Rightarrow> id \<Rightarrow> ('d, unit) op" where
  "dropRows org i = withTenant (\<lambda>w.
     let uploads = filter (\<lambda>u. \<not> (up_org u = org \<and> (up_parent u = Some i \<or> up_file u = Some i))) (w_uploads w) in
     bindE (deleteEntry (w_now w) org i (w_entries w)) (\<lambda>entries.
     Inr ((), w\<lparr>w_uploads := uploads, w_entries := entries\<rparr>)))"

text \<open>One turn of the loop of \<open>purge\<close>.\<close>

definition purgeNode :: "'d env \<Rightarrow> id \<Rightarrow> ShareRef \<Rightarrow> FileEntryRow \<times> string list \<Rightarrow> ('d, unit) op" where
  "purgeNode e org share node =
     (case node of (row, parts) \<Rightarrow>
      let directory = (fe_kind row = Folder) in
      seqE (agent_call e (RemoveEntry (sh_name share) parts directory)) (\<lambda>first.
      seqE (case first of
              NotFound _ \<Rightarrow>
                seqE (agent_call e (RemoveEntry (sh_name share) (BIN @ parts) directory)) (\<lambda>inBin.
                  ret (if inBin = Removed then inBin else first))
            | _ \<Rightarrow> ret first) (\<lambda>response.
      seqE (case response of
              Conflict _ \<Rightarrow>
                if directory
                then seqE (sweepUnknown 8 e (sh_name share) parts) (\<lambda>swept.
                     if swept > 0
                     then seqE (agent_call e (RemoveEntry (sh_name share) parts True)) (\<lambda>retry.
                          if isGone retry then seqE (dropRows org (fe_id row)) (\<lambda>_. ret True)
                          else ret False)
                     else ret False)
                else ret False
            | _ \<Rightarrow> ret False) (\<lambda>finished.
      if finished then ret ()
      else case response of
             Conflict reason \<Rightarrow> raise (DirectoryNotEmptyError reason)
           | other \<Rightarrow>
               if isGone other then dropRows org (fe_id row) else raise (expectStatus other)))))"

fun purgeLoop :: "'d env \<Rightarrow> id \<Rightarrow> ShareRef \<Rightarrow> (FileEntryRow \<times> string list) list \<Rightarrow> ('d, unit) op" where
  "purgeLoop e org share [] = ret ()"
| "purgeLoop e org share (node # nodes) =
     seqE (purgeNode e org share node) (\<lambda>_. purgeLoop e org share nodes)"

text \<open>The nodes of the subtree with their components, \<open>ORDER BY depth DESC, id\<close>.\<close>

definition purgeNodes :: "id \<Rightarrow> id \<Rightarrow> string list \<Rightarrow> ('d, (FileEntryRow \<times> string list) list) op" where
  "purgeNodes org i root w =
     (let rows = in_org org (w_entries w);
          base = map (\<lambda>r. (r, root)) (filter (\<lambda>r. fe_id r = i) rows)
      in case treeLevels (Suc (length rows)) (\<lambda>parts c. parts @ [fe_name c]) rows base of
           None \<Rightarrow> (Inl StatementTimeoutError, w)
         | Some levels \<Rightarrow>
             (Inr (concat (map (order_by (\<lambda>a b. fe_id (fst a) < fe_id (fst b))) (rev levels))), w))"

definition purge :: "'d env \<Rightarrow> id \<Rightarrow> id \<Rightarrow> ShareRef \<Rightarrow> ('d, unit) op" where
  "purge e org i share =
     seqE (findEntry org i) (\<lambda>entry.
     seqE (guardE (fe_share entry = sh_id share) EntryNotFoundError) (\<lambda>_.
     seqE (guardE (fe_trashed_at entry \<noteq> None) (NotTrashedError (fe_name entry))) (\<lambda>_.
     seqE (componentsOf org i) (\<lambda>root.
     seqE (purgeNodes org i root) (\<lambda>nodes.
     purgeLoop e org share nodes)))))"

section \<open>Trash and restore\<close>

text \<open>\<open>call(...).catch(() => ({ status: 'unreachable' }))\<close>: \<open>None\<close> is the unreachable agent.\<close>

definition tryCall :: "'d env \<Rightarrow> AgentRequest \<Rightarrow> ('d, AgentResponse option) op" where
  "tryCall e req = catchE (seqE (agent_call e req) (\<lambda>r. ret (Some r))) (\<lambda>_. ret None)"

definition moveToTheBin ::
  "'d env \<Rightarrow> id \<Rightarrow> ShareRef \<Rightarrow> string list \<Rightarrow> bool \<Rightarrow> id \<Rightarrow> ('d, bool) op" where
  "moveToTheBin e org share components directory userId =
     (if length components = 0 then ret False
      else
        let destination = BIN @ components;
            mv = tryCall e (MoveEntry (sh_name share) components destination)
        in
        seqE (catchE (seqE (posixUidFor org userId) (\<lambda>u. ret (Some u))) (\<lambda>_. ret None)) (\<lambda>uid.
        case uid of
          None \<Rightarrow> ret False
        | Some u \<Rightarrow>
            seqE (catchE (ensureDirectories e (sh_name share) [butlast destination] u) (\<lambda>_. ret False)) (\<lambda>_.
            seqE mv (\<lambda>response.
            seqE (case response of
                    Some (Conflict _) \<Rightarrow>
                      seqE (tryCall e (RemoveEntry (sh_name share) destination directory)) (\<lambda>_. mv)
                  | _ \<Rightarrow> ret response) (\<lambda>response.
            ret (response = Some Moved))))))"

definition trash :: "'d env \<Rightarrow> id \<Rightarrow> id \<Rightarrow> id \<Rightarrow> ShareRef \<Rightarrow> ('d, FileEntryRow) op" where
  "trash e org i userId share =
     seqE (findEntry org i) (\<lambda>entry.
     if fe_trashed_at entry \<noteq> None then ret entry
     else
     seqE (componentsOf org i) (\<lambda>components.
     seqE (moveToTheBin e org share components (fe_kind entry = Folder) userId) (\<lambda>moved.
     seqE (withTenant (\<lambda>w. updateRow e org i (\<lambda>r. fe_trashed_at r = None)
             (\<lambda>r. r\<lparr>fe_trashed_at := Some (w_now w), fe_trashed_by := Some userId, fe_recycled := moved\<rparr>) w))
       (\<lambda>found.
     case found of None \<Rightarrow> raise EntryNotFoundError | Some row \<Rightarrow> ret row))))"

definition bringBackFromTheBin ::
  "'d env \<Rightarrow> id \<Rightarrow> id \<Rightarrow> ShareRef \<Rightarrow> string list \<Rightarrow> ('d, unit) op" where
  "bringBackFromTheBin e org restorerId share components =
     (if length components = 0 then ret ()
      else
        let mv = MoveEntry (sh_name share) (BIN @ components) components;
            folder = butlast components;
            name = last components
        in
        seqE (agent_call e mv) (\<lambda>response.
        case response of
          Moved \<Rightarrow> ret ()
        | NotFound _ \<Rightarrow>
            seqE (if folder \<noteq> []
                  then
                    seqE (catchE (posixUidFor org restorerId) (\<lambda>_. ret 0)) (\<lambda>uid.
                    seqE (catchE (ensureDirectories e (sh_name share) [folder] uid) (\<lambda>_. ret False)) (\<lambda>built.
                    if built
                    then seqE (agent_call e mv) (\<lambda>retried. ret (retried = Moved))
                    else ret False))
                  else ret False) (\<lambda>restored.
            if restored then ret ()
            else
              seqE (agent_call e (ListDirectory (sh_name share) folder)) (\<lambda>listing.
              let inPlace = (case listing of
                               Listing entries \<Rightarrow> list_ex (\<lambda>x. de_name x = name) entries
                             | _ \<Rightarrow> False)
              in if inPlace then ret () else raise (EntryMissingOnDiskError name)))
        | Conflict reason \<Rightarrow> raise (NameTakenOnDiskError name reason)
        | other \<Rightarrow> raise (expectStatus other)))"

definition restore :: "'d env \<Rightarrow> id \<Rightarrow> id \<Rightarrow> ('d, FileEntryRow) op" where
  "restore e org i =
     seqE (findEntry org i) (\<lambda>entry.
     if fe_trashed_at entry = None then ret entry
     else
     seqE (case fe_parent entry of
             None \<Rightarrow> ret ()
           | Some p \<Rightarrow>
               seqE (findEntry org p) (\<lambda>parent.
               guardE (fe_trashed_at parent = None) (TrashedParentError (fe_name parent)))) (\<lambda>_.
     catchE
       (seqE (withTenant (updateRow e org i (\<lambda>_. True)
               (\<lambda>r. r\<lparr>fe_trashed_at := None, fe_trashed_by := None, fe_recycled := False\<rparr>))) (\<lambda>found.
        case found of None \<Rightarrow> raise EntryNotFoundError | Some row \<Rightarrow> ret row))
       (\<lambda>err. raise (asNameConflict err (fe_name entry)))))"

section \<open>Bytes\<close>

definition openDownload :: "'d env \<Rightarrow> string \<Rightarrow> string list \<Rightarrow> ('d, string \<times> nat) op" where
  "openDownload e share components =
     seqE (agent_call e (OpenDownload share components)) (\<lambda>response.
       case response of
         Download token bytes \<Rightarrow> ret (token, bytes)
       | other \<Rightarrow> raise (expectStatus other))"

definition openArchive ::
  "'d env \<Rightarrow> string \<Rightarrow> string \<Rightarrow> string list \<Rightarrow> nat \<Rightarrow> string \<Rightarrow> ('d, string \<times> nat) op" where
  "openArchive e share dataset components estimatedBytes staging =
     (let pool = takeWhile (\<lambda>c. c \<noteq> CHR ''/'') dataset in
      seqE (tryCall e (PoolStatus pool)) (\<lambda>status.
      seqE (case status of
              Some (PoolAvailable available) \<Rightarrow>
                guardE (\<not> estimatedBytes > available) (ArchiveTooLargeError estimatedBytes available)
            | _ \<Rightarrow> ret ()) (\<lambda>_.
      seqE (agent_call e (ArchiveFolder share components staging)) (\<lambda>response.
        case response of
          Download token bytes \<Rightarrow> ret (token, bytes)
        | other \<Rightarrow> raise (expectStatus other)))))"

definition publish ::
  "'d env \<Rightarrow> string \<Rightarrow> string \<Rightarrow> string list \<Rightarrow> nat \<Rightarrow> nat \<Rightarrow> nat \<Rightarrow> ('d, nat) op" where
  "publish e share stagingName destination expectedBytes ownerUid ownerGid =
     (let request = PublishTransfer share stagingName destination expectedBytes ownerUid ownerGid;
          taken = (\<lambda>reason. NameTakenOnDiskError (if destination = [] then '''' else last destination) reason)
      in
      seqE (agent_call e request) (\<lambda>response.
      case response of
        Conflict reason \<Rightarrow> raise (taken reason)
      | NotFound reason \<Rightarrow>
          if length destination < 2 then raise (StagedBytesGoneError reason)
          else
            seqE (ensureDirectories e share [butlast destination] ownerUid) (\<lambda>materialised.
            if \<not> materialised then raise (FolderNotOnDiskError reason)
            else
              seqE (agent_call e request) (\<lambda>retried.
              case retried of
                Conflict reason \<Rightarrow> raise (taken reason)
              | NotFound reason \<Rightarrow> raise (StagedBytesGoneError reason)
              | Published bytes \<Rightarrow> ret bytes
              | other \<Rightarrow> raise (expectStatus other)))
      | Published bytes \<Rightarrow> ret bytes
      | other \<Rightarrow> raise (expectStatus other)))"

end
