(* ===== verification/AgentDisk.thy ===== *)
theory AgentDisk
  imports FileTrash "HOL-Library.Sublist"
begin

text \<open>
  The directory operations of the system agent (\<open>services/system-agent/src/dispatch.rs\<close>) over the calls of
  \<open>unix.rs\<close>, down to the single system call. A share is a set of paths with what they are. Every system call may fail
  for a reason outside the model (a disk error, a full disk, a symbolic link on the way, no descriptor left):
  \<open>dk_io\<close> says which of the coming ones do. So may the connection, before the request reaches the agent or
  before its answer gets back.
\<close>

datatype node = DirN | FileN string

type_synonym nodes = "(string \<times> string list \<times> node) set"

record disk =
  dk_configured :: bool
  dk_busy :: "(string \<times> string) set"
  dk_io :: "string option list"
  dk_nodes :: nodes

definition on_disk :: "nodes \<Rightarrow> string \<Rightarrow> string list \<Rightarrow> bool" where
  "on_disk d s p \<longleftrightarrow> (\<exists>(s', p', n) \<in> d. s' = s \<and> p' = p)"

definition is_dir :: "nodes \<Rightarrow> string \<Rightarrow> string list \<Rightarrow> bool" where
  "is_dir d s p \<longleftrightarrow> (s, p, DirN) \<in> d"

definition has_children :: "nodes \<Rightarrow> string \<Rightarrow> string list \<Rightarrow> bool" where
  "has_children d s p \<longleftrightarrow> (\<exists>(s', p', n) \<in> d. s' = s \<and> strict_prefix p p')"

section \<open>System calls\<close>

datatype seam_error =
  SeamNotFound | SeamAlreadyExists | SeamNotADirectory | SeamNotEmpty | SeamIo string

type_synonym 'a seam = "(disk, seam_error, 'a) eff"

definition outcome :: "disk \<Rightarrow> string option \<times> disk" where
  "outcome d = (case dk_io d of [] \<Rightarrow> (None, d) | f # fs \<Rightarrow> (f, d\<lparr>dk_io := fs\<rparr>))"

definition sysCall :: "'a seam \<Rightarrow> 'a seam" where
  "sysCall act d = (case outcome d of (Some why, d') \<Rightarrow> (Inl (SeamIo why), d') | (None, d') \<Rightarrow> act d')"

text \<open>\<open>openat2\<close> with \<open>O_DIRECTORY\<close>, component by component.\<close>

fun walkDir :: "nodes \<Rightarrow> string \<Rightarrow> string list \<Rightarrow> string list \<Rightarrow> seam_error + unit" where
  "walkDir ns s done rest =
     (if \<not> on_disk ns s done then Inl SeamNotFound
      else if \<not> is_dir ns s done then Inl SeamNotADirectory
      else (case rest of [] \<Rightarrow> Inr () | x # xs \<Rightarrow> walkDir ns s (done @ [x]) xs))"

declare walkDir.simps [simp del]

definition open_dir :: "string \<Rightarrow> string list \<Rightarrow> unit seam" where
  "open_dir s p = sysCall (\<lambda>d. (walkDir (dk_nodes d) s [] p, d))"

definition mkdirat :: "string \<Rightarrow> string list \<Rightarrow> unit seam" where
  "mkdirat s p = sysCall (\<lambda>d.
     if on_disk (dk_nodes d) s p then (Inl SeamAlreadyExists, d)
     else (Inr (), d\<lparr>dk_nodes := insert (s, p, DirN) (dk_nodes d)\<rparr>))"

text \<open>\<open>fchown\<close>, \<open>fchmod\<close> and \<open>fsync\<close>: who owns an entry and whether it survives a power cut is not in the model.\<close>

definition onDescriptor :: "unit seam" where
  "onDescriptor = sysCall (\<lambda>d. (Inr (), d))"

definition relocate ::
  "string \<Rightarrow> string list \<Rightarrow> string list \<Rightarrow> string \<times> string list \<times> node \<Rightarrow> string \<times> string list \<times> node" where
  "relocate s a b x = (case x of (s', p, n) \<Rightarrow>
     if s' = s \<and> prefix a p then (s', b @ drop (length a) p, n) else x)"

text \<open>\<open>renameat2\<close> with \<open>RENAME_NOREPLACE\<close>.\<close>

definition renameat :: "string \<Rightarrow> string list \<Rightarrow> string list \<Rightarrow> unit seam" where
  "renameat s a b = sysCall (\<lambda>d.
     if \<not> on_disk (dk_nodes d) s a then (Inl SeamNotFound, d)
     else if on_disk (dk_nodes d) s b then (Inl SeamAlreadyExists, d)
     else if prefix a b then (Inl (SeamIo ''rename: invalid argument''), d)
     else (Inr (), d\<lparr>dk_nodes := relocate s a b ` dk_nodes d\<rparr>))"

text \<open>\<open>unlinkat\<close>, of a directory or of a file: whether there was one.\<close>

definition unlinkat :: "bool \<Rightarrow> string \<Rightarrow> string list \<Rightarrow> bool seam" where
  "unlinkat directory s p = sysCall (\<lambda>d.
     if \<not> on_disk (dk_nodes d) s p then (Inr False, d)
     else if directory \<noteq> is_dir (dk_nodes d) s p then (Inl (SeamIo ''unlink''), d)
     else if directory \<and> has_children (dk_nodes d) s p then (Inl SeamNotEmpty, d)
     else (Inr True, d\<lparr>dk_nodes := {x \<in> dk_nodes d. \<not> (fst x = s \<and> fst (snd x) = p)}\<rparr>))"

section \<open>The seam\<close>

text \<open>A directory half made is removed again; nobody hears whether that worked.\<close>

definition create_dir :: "string \<Rightarrow> string list \<Rightarrow> unit seam" where
  "create_dir s p =
     seqE (open_dir s (butlast p)) (\<lambda>_.
     seqE (mkdirat s p) (\<lambda>_.
     catchE
       (seqE (open_dir s p) (\<lambda>_. seqE onDescriptor (\<lambda>_. seqE onDescriptor (\<lambda>_. onDescriptor))))
       (\<lambda>err. seqE (catchE (unlinkat True s p) (\<lambda>_. ret False)) (\<lambda>_. raise err))))"

definition publish_rename :: "string \<Rightarrow> string list \<Rightarrow> string list \<Rightarrow> unit seam" where
  "publish_rename s a b =
     seqE (open_dir s (butlast a)) (\<lambda>_.
     seqE (open_dir s (butlast b)) (\<lambda>_.
     seqE (renameat s a b) (\<lambda>_. onDescriptor)))"

definition remove_at :: "bool \<Rightarrow> string \<Rightarrow> string list \<Rightarrow> bool seam" where
  "remove_at directory s p = seqE (open_dir s (butlast p)) (\<lambda>_. unlinkat directory s p)"

section \<open>The agent's answers\<close>

definition STAGING :: string where
  "STAGING = ''.depsis''"

definition posixId :: "nat \<Rightarrow> bool" where
  "posixId n \<longleftrightarrow> 300000 \<le> n \<and> n \<le> 399999"

text \<open>An error nobody maps: \<open>Response::Failed\<close>.\<close>

fun failedWith :: "seam_error \<Rightarrow> AgentResponse" where
  "failedWith SeamNotFound = Failed ''no such file or directory''"
| "failedWith SeamAlreadyExists = Failed ''already exists''"
| "failedWith SeamNotADirectory = Failed ''not a directory''"
| "failedWith SeamNotEmpty = Failed ''not empty''"
| "failedWith (SeamIo why) = Failed why"

abbreviation refused :: "string \<Rightarrow> disk \<Rightarrow> AgentResponse \<times> disk" where
  "refused why d \<equiv> (Refused why, d)"

definition create_directory :: "string \<Rightarrow> string list \<Rightarrow> nat \<Rightarrow> nat \<Rightarrow> disk \<Rightarrow> AgentResponse \<times> disk" where
  "create_directory s p u g d =
     (if \<not> posixId u \<or> \<not> posixId g then refused ''unparseable request'' d
      else if \<not> dk_configured d then refused ''no share root is configured'' d
      else if p = [] then refused ''a directory needs a name'' d
      else if hd p = STAGING then refused ''the agent's own tree'' d
      else if p = BIN then refused ''the share's bin cannot be created by hand'' d
      else (case create_dir s p d of
              (Inr _, d') \<Rightarrow> (DirectoryCreated, d')
            | (Inl SeamAlreadyExists, d') \<Rightarrow> (Conflict ''something is already there'', d')
            | (Inl SeamNotFound, d') \<Rightarrow> (NotFound ''the parent folder does not exist'', d')
            | (Inl SeamNotADirectory, d') \<Rightarrow> (NotFound ''a file is in the way'', d')
            | (Inl other, d') \<Rightarrow> (failedWith other, d')))"

definition move_entry :: "string \<Rightarrow> string list \<Rightarrow> string list \<Rightarrow> disk \<Rightarrow> AgentResponse \<times> disk" where
  "move_entry s a b d =
     (if \<not> dk_configured d then refused ''no share root is configured'' d
      else if a = [] \<or> b = [] then refused ''a move needs a source and a destination'' d
      else if hd a = STAGING \<or> hd b = STAGING then refused ''the agent's own tree'' d
      else (case publish_rename s a b d of
              (Inr _, d') \<Rightarrow> (Moved, d')
            | (Inl SeamNotFound, d') \<Rightarrow> (NotFound ''no such entry'', d')
            | (Inl SeamAlreadyExists, d') \<Rightarrow> (Conflict ''something is already there'', d')
            | (Inl other, d') \<Rightarrow> (failedWith other, d')))"

text \<open>\<open>path.join("/")\<close>, the key a transfer in progress is registered under.\<close>

fun joinPath :: "string list \<Rightarrow> string" where
  "joinPath [] = []"
| "joinPath [x] = x"
| "joinPath (x # y # ys) = x @ ''/'' @ joinPath (y # ys)"

definition remove_entry :: "string \<Rightarrow> string list \<Rightarrow> bool \<Rightarrow> disk \<Rightarrow> AgentResponse \<times> disk" where
  "remove_entry s p directory d =
     (if \<not> dk_configured d then refused ''no share root is configured'' d
      else if p = [] then refused ''a remove needs a path'' d
      else if hd p = STAGING then refused ''the agent's own tree'' d
      else if (s, joinPath p) \<in> dk_busy d then refused ''a transfer is open right now'' d
      else (case remove_at directory s p d of
              (Inr True, d') \<Rightarrow> (Removed, d')
            | (Inr False, d') \<Rightarrow> (NotFound ''no such entry'', d')
            | (Inl err, d') \<Rightarrow>
                ((if directory \<and> err = SeamNotEmpty then Conflict ''still has entries in it'' else failedWith err), d')))"

text \<open>A request over the socket. The requests that read, or go through the staging tree, are left to a parameter.\<close>

definition deliver :: "(disk \<Rightarrow> AgentResponse \<times> disk) \<Rightarrow> disk \<Rightarrow> (string + AgentResponse) \<times> disk" where
  "deliver act d =
     (case outcome d of
        (Some why, d1) \<Rightarrow> (Inl why, d1)
      | (None, d1) \<Rightarrow>
          (case act d1 of
             (ans, d2) \<Rightarrow>
               (case outcome d2 of (Some why, d3) \<Rightarrow> (Inl why, d3) | (None, d3) \<Rightarrow> (Inr ans, d3))))"

fun agent_disk ::
  "(AgentRequest \<Rightarrow> disk \<Rightarrow> (string + AgentResponse) \<times> disk) \<Rightarrow> AgentRequest \<Rightarrow> disk
     \<Rightarrow> (string + AgentResponse) \<times> disk" where
  "agent_disk other (CreateDirectory s p u g) d = deliver (create_directory s p u g) d"
| "agent_disk other (MoveEntry s a b) d = deliver (move_entry s a b) d"
| "agent_disk other (RemoveEntry s p directory) d = deliver (remove_entry s p directory) d"
| "agent_disk other req d = other req d"

end
