(* ===== verification/Disk.thy ===== *)
theory Disk
  imports AgentDisk
begin

text \<open>
  The filesystem behind the agent, as \<open>FilesService\<close> relies on it. The locale states the contract: a
  move and a creation can be taken back, an answer that is not a success changed nothing, and where this does not hold
  something is known to have gone wrong on the way: a system call or the connection failed, or a transfer held the
  name. The model of \<open>services/system-agent\<close> in \<open>AgentDisk\<close> satisfies it.
\<close>

locale undoable_agent =
  fixes call :: "AgentRequest \<Rightarrow> 'd \<Rightarrow> (string + AgentResponse) \<times> 'd"
    and tree :: "'d \<Rightarrow> 't"
    and made :: "string \<Rightarrow> string list \<Rightarrow> 't \<Rightarrow> 't"
    and gone :: "string \<Rightarrow> string list \<Rightarrow> string list \<Rightarrow> 't \<Rightarrow> 't"
    and sound :: "'d \<Rightarrow> bool"
    and hurt :: "'d \<Rightarrow> 'd \<Rightarrow> bool"
    and stuck :: "string \<Rightarrow> string list \<Rightarrow> 'd \<Rightarrow> 'd \<Rightarrow> bool"
  assumes not_created: "sound d \<Longrightarrow> call (CreateDirectory s p u g) d = (r, d') \<Longrightarrow> r \<noteq> Inr DirectoryCreated \<Longrightarrow>
      tree d' = tree d \<or> tree d' = made s p (tree d) \<and> stuck s p d d'"
    and create_undone: "sound d \<Longrightarrow> call (CreateDirectory s p u g) d = (Inr DirectoryCreated, d') \<Longrightarrow>
      call (RemoveEntry s p True) d' = (r, d'') \<Longrightarrow>
      tree d'' = tree d \<or> tree d'' = made s p (tree d) \<and> stuck s p d d''"
    and not_moved: "sound d \<Longrightarrow> call (MoveEntry s a b) d = (r, d') \<Longrightarrow> r \<noteq> Inr Moved \<Longrightarrow>
      tree d' = tree d \<or> tree d' = gone s a b (tree d) \<and> hurt d d'"
    and move_undone: "sound d \<Longrightarrow> call (MoveEntry s a b) d = (Inr Moved, d') \<Longrightarrow>
      call (MoveEntry s b a) d' = (r, d'') \<Longrightarrow>
      tree d'' = tree d \<or> tree d'' = gone s a b (tree d) \<and> hurt d d''"

section \<open>What the client gets from the contract\<close>

named_theorems still_rules

text \<open>A call that does not touch the disk.\<close>

definition still :: "('d, 'a) op \<Rightarrow> bool" where
  "still m \<longleftrightarrow> (\<forall>w. w_disk (snd (m w)) = w_disk w)"

lemma still_ret [still_rules]: "still (ret a)"
  by (simp add: still_def)

lemma still_raise [still_rules]: "still (raise e)"
  by (simp add: still_def)

lemma still_lift [still_rules]: "still (liftE r)"
  by (simp add: still_def)

lemma still_guard [still_rules]: "still (guardE b e)"
  by (simp add: still_def guardE_def)

lemma still_seq [still_rules]: "still m \<Longrightarrow> (\<And>a. still (k a)) \<Longrightarrow> still (seqE m k)"
  unfolding still_def seqE_def by (auto split: prod.splits sum.splits) (metis snd_conv)+

lemma still_catch [still_rules]: "still m \<Longrightarrow> (\<And>e. still (h e)) \<Longrightarrow> still (catchE m h)"
  unfolding still_def catchE_def by (auto split: prod.splits sum.splits) (metis snd_conv)+

lemma still_withTenant:
  assumes "\<And>w a w'. body w = Inr (a, w') \<Longrightarrow> w_disk w' = w_disk w"
  shows "still (withTenant body)"
  unfolding still_def withTenant_def
  by (auto split: list.splits option.splits sum.splits dest: assms)

lemma still_find [still_rules]: "still (findEntry org i)"
  by (simp add: still_def findEntry_def split: option.splits)

lemma still_components [still_rules]: "still (componentsOf org i)"
  by (simp add: still_def componentsOf_def Let_def split: option.splits)

lemma still_descendant [still_rules]: "still (isSelfOrDescendant org i j)"
  by (simp add: still_def isSelfOrDescendant_def Let_def split: option.splits)

lemma still_name_free [still_rules]: "still (requireNameFree e org share parent name except)"
  by (simp add: still_def requireNameFree_def)

lemma still_trashed_holding [still_rules]: "still (trashedEntryHolding e org share parent name)"
  by (simp add: still_def trashedEntryHolding_def Let_def split: list.splits)

lemma still_posix [still_rules]: "still (posixUidFor org user)"
  unfolding posixUidFor_def
  by (rule still_withTenant) (auto simp: bindE_Inr_iff split: option.splits)

lemma still_enqueue [still_rules]: "still (enqueueAclApply org share i)"
  unfolding enqueueAclApply_def by (intro still_rules still_withTenant) auto

lemma still_insert [still_rules]: "still (withTenant (insertRow e mk))"
  by (rule still_withTenant) (auto simp: insertRow_def Let_def split: if_splits)

lemma still_writeMove [still_rules]: "still (withTenant (writeMove e org i parent name path))"
  by (rule still_withTenant)
     (auto simp: writeMove_def updateRow_def rebuildSubtreePaths_def Let_def bindE_Inr_iff
       split: if_splits option.splits)

lemma still_folderParent [still_rules]: "still (folderParent org share parent)"
  unfolding folderParent_def by (auto intro!: still_rules split: option.split)

lemma still_moveTarget [still_rules]: "still (moveTarget org i entry parent)"
  unfolding moveTarget_def by (auto intro!: still_rules split: option.split)

lemma still_upgrade [still_rules]: "still (upgradeTrashedConflict e org share parent name err)"
  unfolding upgradeTrashedConflict_def by (auto intro!: still_rules split: file_error.split option.split)

text \<open>What is known of the disk alone.\<close>

definition disk_is :: "('d \<Rightarrow> bool) \<Rightarrow> 'd world \<Rightarrow> bool" where
  "disk_is P w \<longleftrightarrow> P (w_disk w)"

abbreviation disk_at :: "'d \<Rightarrow> 'd world \<Rightarrow> bool" where
  "disk_at d \<equiv> disk_is (\<lambda>x. x = d)"

lemma hoare_still: "still m \<Longrightarrow> hoare (disk_is P) m (\<lambda>_. disk_is P) (\<lambda>_. disk_is P)"
  by (rule hoareI) (metis still_def snd_conv disk_is_def)+

lemma hoare_still_seq:
  assumes "still m" and "\<And>a. hoare (disk_is P) (k a) Q (\<lambda>_. disk_is E)" and "\<And>d. P d \<Longrightarrow> E d"
  shows "hoare (disk_is P) (seqE m k) Q (\<lambda>_. disk_is E)"
proof (rule hoare_seq)
  show "hoare (disk_is P) m (\<lambda>_. disk_is P) (\<lambda>_. disk_is E)"
    by (rule hoare_conseq [OF hoare_still [OF assms(1), of P]]) (use assms(3) in \<open>auto simp: disk_is_def\<close>)
qed (rule assms(2))

lemma hoare_raise_is: "(\<And>d. P d \<Longrightarrow> E d) \<Longrightarrow> hoare (disk_is P) (raise err) Q (\<lambda>_. disk_is E)"
  by (auto simp: hoare_def disk_is_def)

lemma call_at:
  assumes "env_call e req d = (ans, d')"
  shows "hoare (disk_at d) (agent_call e req)
     (\<lambda>a w. ans = Inr a \<and> w_disk w = d') (\<lambda>_ w. (\<exists>reason. ans = Inl reason) \<and> w_disk w = d')"
  using assms by (auto simp: hoare_def agent_call_def disk_is_def split: sum.splits)

text \<open>Steps that only read: the world after them is still the one the call began in.\<close>

named_theorems pure_rules

definition pure_op :: "('d, 'a) op \<Rightarrow> bool" where
  "pure_op m \<longleftrightarrow> (\<forall>w. snd (m w) = w)"

lemma pure_ret [pure_rules]: "pure_op (ret a)"
  by (simp add: pure_op_def)

lemma pure_lift [pure_rules]: "pure_op (liftE r)"
  by (simp add: pure_op_def)

lemma pure_guard [pure_rules]: "pure_op (guardE b e)"
  by (simp add: pure_op_def guardE_def)

lemma pure_seq [pure_rules]: "pure_op m \<Longrightarrow> (\<And>a. pure_op (k a)) \<Longrightarrow> pure_op (seqE m k)"
  unfolding pure_op_def seqE_def by (auto split: prod.splits sum.splits) (metis snd_conv)+

lemma pure_if [pure_rules]: "pure_op m \<Longrightarrow> pure_op n \<Longrightarrow> pure_op (if b then m else n)"
  by simp

lemma pure_find [pure_rules]: "pure_op (findEntry org i)"
  by (simp add: pure_op_def findEntry_def split: option.splits)

lemma pure_components [pure_rules]: "pure_op (componentsOf org i)"
  by (simp add: pure_op_def componentsOf_def Let_def split: option.splits)

lemma pure_descendant [pure_rules]: "pure_op (isSelfOrDescendant org i j)"
  by (simp add: pure_op_def isSelfOrDescendant_def Let_def split: option.splits)

lemma pure_name_free [pure_rules]: "pure_op (requireNameFree e org share parent name except)"
  by (simp add: pure_op_def requireNameFree_def)

lemma pure_folderParent [pure_rules]: "pure_op (folderParent org share parent)"
  by (cases parent) (simp_all add: folderParent_def pure_rules del: ret_apply)

lemma pure_moveTarget [pure_rules]: "pure_op (moveTarget org i entry parent)"
  by (cases parent) (auto simp: moveTarget_def intro!: pure_rules simp del: ret_apply)

lemma pure_moveDestination [pure_rules]: "pure_op (moveDestination org parent name)"
  by (cases parent) (auto simp: moveDestination_def intro!: pure_rules simp del: ret_apply)

lemma hoare_pure_op:
  assumes "pure_op m" and "\<And>err. E err w" and "\<And>a. fst (m w) = Inr a \<Longrightarrow> hoare (\<lambda>u. u = w) (k a) Q E"
  shows "hoare (\<lambda>u. u = w) (seqE m k) Q E"
proof (cases "m w")
  case (Pair r u)
  then have "u = w" using assms(1) by (metis pure_op_def snd_conv)
  then show ?thesis
    using Pair assms(2,3) by (cases r) (auto simp: hoare_def seqE_def)
qed

context undoable_agent
begin

text \<open>How a disk may be left by a creation or a move that failed.\<close>

definition leftC :: "string \<Rightarrow> string list \<Rightarrow> 'd \<Rightarrow> 'd \<Rightarrow> bool" where
  "leftC s p d d' \<longleftrightarrow> tree d' = tree d \<or> tree d' = made s p (tree d) \<and> stuck s p d d'"

definition leftM :: "string \<Rightarrow> string list \<Rightarrow> string list \<Rightarrow> 'd \<Rightarrow> 'd \<Rightarrow> bool" where
  "leftM s a b d d' \<longleftrightarrow> tree d' = tree d \<or> tree d' = gone s a b (tree d) \<and> hurt d d'"

lemma left_refl [simp]: "leftC s p d d" "leftM s a b d d"
  by (simp_all add: leftC_def leftM_def)

lemma createDirectory_disk:
  assumes "env_call e = call" and "sound d"
    and "\<And>reason d'. call (CreateDirectory s p u u) d \<noteq> (Inr (NotFound reason), d')"
  shows "hoare (disk_at d) (createDirectory e s p u name)
     (\<lambda>_ w. call (CreateDirectory s p u u) d = (Inr DirectoryCreated, w_disk w)) (\<lambda>_. disk_is (leftC s p d))"
proof -
  obtain ans d' where ans: "call (CreateDirectory s p u u) d = (ans, d')" by force
  have left: "ans \<noteq> Inr DirectoryCreated \<Longrightarrow> leftC s p d d'" using not_created [OF assms(2) ans] by (simp add: leftC_def)
  show ?thesis
    unfolding createDirectory_def Let_def
  proof (rule hoare_seq)
    show "hoare (disk_at d) (agent_call e (CreateDirectory s p u u))
       (\<lambda>a w. ans = Inr a \<and> w_disk w = d') (\<lambda>_. disk_is (leftC s p d))"
      by (rule hoare_conseq [OF call_at]) (use assms(1) ans left in \<open>auto simp: disk_is_def\<close>)
    fix a
    show "hoare (\<lambda>w. ans = Inr a \<and> w_disk w = d')
       (case a of
          DirectoryCreated \<Rightarrow> ret ()
        | Conflict reason \<Rightarrow> raise (NameTakenOnDiskError name reason)
        | NotFound reason \<Rightarrow>
            if butlast p = [] then raise (FolderNotOnDiskError reason)
            else seqE (ensureDirectories e s [butlast p] u) (\<lambda>materialised.
                   if \<not> materialised then raise (FolderNotOnDiskError reason)
                   else seqE (agent_call e (CreateDirectory s p u u)) (\<lambda>second.
                     case second of
                       DirectoryCreated \<Rightarrow> ret ()
                     | Conflict reason \<Rightarrow> raise (NameTakenOnDiskError name reason)
                     | NotFound reason \<Rightarrow> raise (FolderNotOnDiskError reason)
                     | other \<Rightarrow> raise (expectStatus other)))
        | other \<Rightarrow> raise (expectStatus other))
       (\<lambda>_ w. call (CreateDirectory s p u u) d = (Inr DirectoryCreated, w_disk w)) (\<lambda>_. disk_is (leftC s p d))"
      using ans assms(3) left by (cases a) (auto simp: disk_is_def hoare_def)
  qed
qed

lemma createFolderRow_disk:
  assumes "env_call e = call" and "sound d" and "call (CreateDirectory (sh_name share) p u u) d = (Inr DirectoryCreated, d1)"
  shows "hoare (disk_at d1) (createFolderRow e org share parent name newPath p copied)
     (\<lambda>_ _. True) (\<lambda>_. disk_is (leftC (sh_name share) p d))"
  unfolding createFolderRow_def
proof (rule hoare_catch)
  show "hoare (disk_at d1) (withTenant (insertRow e (newRow org (sh_id share) parent Folder name newPath 0 None copied)))
     (\<lambda>_ _. True) (\<lambda>_. disk_at d1)"
    by (rule hoare_conseq [OF hoare_still [OF still_insert]]) simp_all
  fix err
  obtain r d2 where undo: "call (RemoveEntry (sh_name share) p True) d1 = (r, d2)" by force
  then have "leftC (sh_name share) p d d2" using create_undone [OF assms(2,3)] by (simp add: leftC_def)
  then show "hoare (disk_at d1)
     (seqE (catchE (seqE (agent_call e (RemoveEntry (sh_name share) p True)) (\<lambda>_. ret ())) (\<lambda>_. ret ()))
        (\<lambda>_. raise (asNameConflict err name))) (\<lambda>_ _. True) (\<lambda>_. disk_is (leftC (sh_name share) p d))"
    using undo assms(1)
    by (cases r) (simp_all add: hoare_def seqE_def catchE_def agent_call_def disk_is_def)
qed

text \<open>The rest of \<open>createFolder\<close> once the parent is known.\<close>

lemma createFolder_rest_disk:
  assumes "env_call e = call" and "sound d"
    and "\<And>u reason d'. call (CreateDirectory (sh_name share) (cs @ [name]) u u) d \<noteq> (Inr (NotFound reason), d')"
  shows "hoare (disk_at d)
     (seqE (requireNameFree e org (sh_id share) parent name None) (\<lambda>_.
      seqE (posixUidFor org actor) (\<lambda>ownerUid.
      seqE (catchE (createDirectory e (sh_name share) (cs @ [name]) ownerUid name) (\<lambda>err.
             case err of
               NameTakenOnDiskError taken reason \<Rightarrow>
                 seqE (trashedEntryHolding e org (sh_id share) parent name) (\<lambda>trashed.
                   case trashed of
                     None \<Rightarrow> raise err
                   | Some t \<Rightarrow> raise (NameTakenByTrashedEntryError name t reason))
             | _ \<Rightarrow> raise err)) (\<lambda>_.
      createFolderRow e org share parent name newPath (cs @ [name]) copied))))
     (\<lambda>_ _. True) (\<lambda>_. disk_is (leftC (sh_name share) (cs @ [name]) d))"
proof (rule hoare_still_seq [OF still_name_free], rule hoare_still_seq [OF still_posix],
    rule hoare_seq [OF hoare_catch [OF createDirectory_disk [OF assms(1,2,3)]]], goal_cases)
  case (1 _ uid err)
  show ?case
    by (cases err) (auto intro!: hoare_raise_is hoare_still_seq [OF still_trashed_holding] split: option.split)
next
  case (2 _ uid _)
  show ?case
    using createFolderRow_disk [OF assms(1,2)] by (auto simp: hoare_def disk_is_def)
qed simp_all

lemma createFolder_left:
  assumes "env_call e = call" and "sound (w_disk w)"
    and "\<And>path cs u reason d'. fst (folderParent org share parent w) = Inr (path, cs) \<Longrightarrow>
      call (CreateDirectory (sh_name share) (cs @ [name]) u u) (w_disk w) \<noteq> (Inr (NotFound reason), d')"
    and "createFolder e org share parent name actor copied w = (Inl err, w')"
  shows "tree (w_disk w') = tree (w_disk w) \<or>
    (\<exists>path cs. fst (folderParent org share parent w) = Inr (path, cs)
       \<and> tree (w_disk w') = made (sh_name share) (cs @ [name]) (tree (w_disk w))
       \<and> stuck (sh_name share) (cs @ [name]) (w_disk w) (w_disk w'))"
proof -
  let ?E = "\<lambda>d'. d' = w_disk w \<or> (\<exists>path cs. fst (folderParent org share parent w) = Inr (path, cs)
      \<and> leftC (sh_name share) (cs @ [name]) (w_disk w) d')"
  have "hoare (\<lambda>u. u = w) (createFolder e org share parent name actor copied) (\<lambda>_ _. True) (\<lambda>_. disk_is ?E)"
    unfolding createFolder_def
  proof (rule hoare_pure_op [OF pure_lift], simp add: disk_is_def,
      rule hoare_pure_op [OF pure_folderParent], simp add: disk_is_def)
    fix u a assume a: "fst (folderParent org share parent w) = Inr a"
    obtain path cs where pc: "a = (path, cs)" by (cases a)
    then have "\<And>u reason d'. call (CreateDirectory (sh_name share) (cs @ [name]) u u) (w_disk w)
        \<noteq> (Inr (NotFound reason), d')"
      using assms(3) a by simp
    note rest = createFolder_rest_disk [OF assms(1,2) this]
    show "hoare (\<lambda>u. u = w) (case a of (parentPath, parentComponents) \<Rightarrow>
       seqE (requireNameFree e org (sh_id share) parent name None) (\<lambda>_.
       seqE (posixUidFor org actor) (\<lambda>ownerUid.
       seqE (catchE (createDirectory e (sh_name share) (parentComponents @ [name]) ownerUid name) (\<lambda>err.
             case err of
               NameTakenOnDiskError taken reason \<Rightarrow>
                 seqE (trashedEntryHolding e org (sh_id share) parent name) (\<lambda>trashed.
                   case trashed of
                     None \<Rightarrow> raise err
                   | Some t \<Rightarrow> raise (NameTakenByTrashedEntryError name t reason))
             | _ \<Rightarrow> raise err)) (\<lambda>_.
       createFolderRow e org share parent name (parentPath @ ''/'' @ name) (parentComponents @ [name]) copied))))
       (\<lambda>_ _. True) (\<lambda>_. disk_is ?E)"
      unfolding pc prod.case
      by (rule hoare_conseq [OF rest]) (use a pc in \<open>auto simp: disk_is_def\<close>)
  qed
  from hoare_Inl [OF this _ assms(4)] show ?thesis by (auto simp: disk_is_def leftC_def)
qed

lemma moveOnDisk_disk:
  assumes "env_call e = call" and "sound d"
    and "\<And>reason d'. call (MoveEntry s a b) d \<noteq> (Inr (NotFound reason), d')"
  shows "hoare (disk_at d) (moveOnDisk e s a b name)
     (\<lambda>_ w. call (MoveEntry s a b) d = (Inr Moved, w_disk w))
     (\<lambda>err w. disk_is (leftM s a b d) w \<and> (\<forall>reason. err \<noteq> EntryMissingOnDiskError reason))"
proof -
  obtain ans d' where ans: "call (MoveEntry s a b) d = (ans, d')" by force
  have left: "ans \<noteq> Inr Moved \<Longrightarrow> leftM s a b d d'" using not_moved [OF assms(2) ans] by (simp add: leftM_def)
  show ?thesis
    unfolding moveOnDisk_def
  proof (rule hoare_seq)
    show "hoare (disk_at d) (agent_call e (MoveEntry s a b)) (\<lambda>r w. ans = Inr r \<and> w_disk w = d')
       (\<lambda>err w. disk_is (leftM s a b d) w \<and> (\<forall>reason. err \<noteq> EntryMissingOnDiskError reason))"
      using assms(1) ans left by (auto simp: hoare_def agent_call_def disk_is_def split: sum.splits)
    fix r
    show "hoare (\<lambda>w. ans = Inr r \<and> w_disk w = d')
       (case r of
          Moved \<Rightarrow> ret ()
        | NotFound reason \<Rightarrow> raise (EntryMissingOnDiskError reason)
        | Conflict _ \<Rightarrow> raise (NameTakenError name)
        | other \<Rightarrow> raise (expectStatus other))
       (\<lambda>_ w. call (MoveEntry s a b) d = (Inr Moved, w_disk w))
       (\<lambda>err w. disk_is (leftM s a b d) w \<and> (\<forall>reason. err \<noteq> EntryMissingOnDiskError reason))"
      using ans assms(3) left by (cases r) (auto simp: disk_is_def hoare_def)
  qed
qed

lemma moveWithRetry_disk:
  assumes "env_call e = call" and "sound d"
    and "\<And>reason d'. call (MoveEntry (sh_name share) a b) d \<noteq> (Inr (NotFound reason), d')"
  shows "hoare (disk_at d) (moveWithRetry e org share entry parent name a b actor)
     (\<lambda>_ w. call (MoveEntry (sh_name share) a b) d = (Inr Moved, w_disk w)) (\<lambda>_. disk_is (leftM (sh_name share) a b d))"
  unfolding moveWithRetry_def Let_def
proof (rule hoare_catch [OF moveOnDisk_disk [OF assms]], goal_cases)
  case (1 err)
  let ?E = "disk_is (leftM (sh_name share) a b d)"
  have upgrade: "hoare ?E (upgradeTrashedConflict e org (fe_share entry) parent name err)
     (\<lambda>_ w. call (MoveEntry (sh_name share) a b) d = (Inr Moved, w_disk w)) (\<lambda>_. ?E)"
    unfolding upgradeTrashedConflict_def
    by (cases err) (auto intro!: hoare_raise_is hoare_still_seq [OF still_trashed_holding] split: option.split)
  show ?case
    using upgrade by (cases err) (auto simp: hoare_def)
qed

lemma moveCommit_disk:
  assumes "env_call e = call" and "sound d" and "call (MoveEntry (sh_name share) a b) d = (Inr Moved, d1)"
  shows "hoare (disk_at d1) (moveCommit e org i share entry parent name newPath a b)
     (\<lambda>_ _. True) (\<lambda>_. disk_is (leftM (sh_name share) a b d))"
  unfolding moveCommit_def
proof (rule hoare_catch)
  have "still (seqE (withTenant (writeMove e org i parent name newPath)) (\<lambda>moved.
        if fe_kind moved = Folder
        then seqE (enqueueAclApply org (sh_id share) i) (\<lambda>_. ret moved) else ret moved))"
    by (intro still_rules) (auto intro: still_rules)
  then show "hoare (disk_at d1) (seqE (withTenant (writeMove e org i parent name newPath)) (\<lambda>moved.
        if fe_kind moved = Folder
        then seqE (enqueueAclApply org (sh_id share) i) (\<lambda>_. ret moved) else ret moved))
     (\<lambda>_ _. True) (\<lambda>_. disk_at d1)"
    by (rule hoare_conseq [OF hoare_still]) simp_all
  fix err
  obtain r d2 where undo: "call (MoveEntry (sh_name share) b a) d1 = (r, d2)" by force
  then have left: "leftM (sh_name share) a b d d2" using move_undone [OF assms(2,3)] by (simp add: leftM_def)
  have "w_disk (snd (catchE (moveOnDisk e (sh_name share) b a (fe_name entry)) (\<lambda>_. ret ()) w)) = d2"
    "\<exists>u. fst (catchE (moveOnDisk e (sh_name share) b a (fe_name entry)) (\<lambda>_. ret ()) w) = Inr u" if "w_disk w = d1" for w
    using undo assms(1) that
    by (auto simp: seqE_def catchE_def moveOnDisk_def agent_call_def split: sum.split AgentResponse.split)
  with left show "hoare (disk_at d1)
     (seqE (catchE (moveOnDisk e (sh_name share) b a (fe_name entry)) (\<lambda>_. ret ()))
        (\<lambda>_. raise (asNameConflict err name))) (\<lambda>_ _. True) (\<lambda>_. disk_is (leftM (sh_name share) a b d))"
    by (fastforce simp: hoare_def seqE_def disk_is_def split: prod.splits sum.splits)
qed

text \<open>The rest of \<open>move\<close> once both paths are known.\<close>

lemma move_rest_disk:
  assumes "env_call e = call" and "sound d"
    and "\<And>reason d'. call (MoveEntry (sh_name share) a b) d \<noteq> (Inr (NotFound reason), d')"
  shows "hoare (disk_at d)
     (seqE (moveWithRetry e org share entry parent name a b actor) (\<lambda>_.
        moveCommit e org i share entry parent name newPath a b))
     (\<lambda>_ _. True) (\<lambda>_. disk_is (leftM (sh_name share) a b d))"
proof (rule hoare_seq [OF moveWithRetry_disk [OF assms]])
  show "hoare (\<lambda>w. call (MoveEntry (sh_name share) a b) d = (Inr Moved, w_disk w))
     (moveCommit e org i share entry parent name newPath a b) (\<lambda>_ _. True) (\<lambda>_. disk_is (leftM (sh_name share) a b d))"
    using moveCommit_disk [OF assms(1,2)] by (auto simp: hoare_def disk_is_def)
qed

lemma move_left:
  assumes "env_call e = call" and "sound (w_disk w)"
    and "\<And>entry src dst reason d'. fst (findEntry org i w) = Inr entry \<Longrightarrow> fst (componentsOf org i w) = Inr src \<Longrightarrow>
      fst (moveDestination org parent (case newName of None \<Rightarrow> fe_name entry | Some n \<Rightarrow> n) w) = Inr dst \<Longrightarrow>
      call (MoveEntry (sh_name share) src dst) (w_disk w) \<noteq> (Inr (NotFound reason), d')"
    and "move e org i share parent newName actor w = (Inl err, w')"
  shows "tree (w_disk w') = tree (w_disk w) \<or>
    (\<exists>entry src dst. fst (findEntry org i w) = Inr entry \<and> fst (componentsOf org i w) = Inr src
       \<and> fst (moveDestination org parent (case newName of None \<Rightarrow> fe_name entry | Some n \<Rightarrow> n) w) = Inr dst
       \<and> tree (w_disk w') = gone (sh_name share) src dst (tree (w_disk w)) \<and> hurt (w_disk w) (w_disk w'))"
proof -
  let ?E = "\<lambda>d'. d' = w_disk w \<or> (\<exists>entry src dst. fst (findEntry org i w) = Inr entry \<and> fst (componentsOf org i w) = Inr src
      \<and> fst (moveDestination org parent (case newName of None \<Rightarrow> fe_name entry | Some n \<Rightarrow> n) w) = Inr dst
      \<and> leftM (sh_name share) src dst (w_disk w) d')"
  have "hoare (\<lambda>u. u = w) (move e org i share parent newName actor) (\<lambda>_ _. True) (\<lambda>_. disk_is ?E)"
    unfolding move_def Let_def
  proof (rule hoare_pure_op [OF pure_find], simp add: disk_is_def,
      rule hoare_pure_op [OF pure_guard], simp add: disk_is_def,
      rule hoare_pure_op [OF pure_lift], simp add: disk_is_def,
      rule hoare_pure_op [OF pure_moveTarget], simp add: disk_is_def,
      rule hoare_if, simp add: hoare_ret,
      rule hoare_pure_op [OF pure_name_free], simp add: disk_is_def,
      rule hoare_pure_op [OF pure_components], simp add: disk_is_def,
      rule hoare_pure_op [OF pure_moveDestination], simp add: disk_is_def, goal_cases)
    case (1 entry _ _ path _ src dst)
    then have "\<And>reason d'. call (MoveEntry (sh_name share) src dst) (w_disk w) \<noteq> (Inr (NotFound reason), d')"
      using assms(3) by blast
    from move_rest_disk [OF assms(1,2) this] show ?case
      by (rule hoare_conseq) (use 1 in \<open>auto simp: disk_is_def\<close>)
  qed
  from hoare_Inl [OF this _ assms(4)] show ?thesis by (auto simp: disk_is_def leftM_def)
qed

end

end
