(* ===== verification/DiskUndo.thy ===== *)
theory DiskUndo
  imports Disk
begin

text \<open>
  The agent of \<open>AgentDisk\<close> can be undone: what each of its operations leaves on the disk, call by call and failure by
  failure, and what \<open>FilesService\<close> leaves there when it throws.
\<close>

section \<open>Paths\<close>

text \<open>One node per path, and a directory above every entry.\<close>

definition disk_ok :: "nodes \<Rightarrow> bool" where
  "disk_ok d \<longleftrightarrow> (\<forall>(s, p, n) \<in> d. (\<forall>(s', p', n') \<in> d. s' = s \<longrightarrow> p' = p \<longrightarrow> n' = n)
     \<and> (p \<noteq> [] \<longrightarrow> (s, butlast p, DirN) \<in> d))"

lemma disk_ok_parent: "disk_ok d \<Longrightarrow> (s, p, n) \<in> d \<Longrightarrow> p \<noteq> [] \<Longrightarrow> (s, butlast p, DirN) \<in> d"
  by (fastforce simp: disk_ok_def)

lemma on_disk_iff: "on_disk d s p \<longleftrightarrow> (\<exists>n. (s, p, n) \<in> d)"
  by (auto simp: on_disk_def)

lemma is_dir_on_disk: "is_dir d s p \<Longrightarrow> on_disk d s p"
  by (auto simp: is_dir_def on_disk_iff)

text \<open>Everything above an entry is on the disk, so nothing is below a path that is not.\<close>

lemma disk_ok_dir_above:
  assumes "disk_ok d"
  shows "(s, p @ q, n) \<in> d \<Longrightarrow> q \<noteq> [] \<Longrightarrow> is_dir d s p"
proof (induction q arbitrary: n rule: rev_induct)
  case (snoc x q)
  have "(s, butlast (p @ q @ [x]), DirN) \<in> d"
    by (rule disk_ok_parent [OF assms snoc.prems(1)]) simp
  then show ?case using snoc.IH by (cases "q = []") (simp_all add: butlast_append is_dir_def)
qed simp

lemma disk_ok_above:
  assumes "disk_ok d" and "(s, p @ q, n) \<in> d"
  shows "on_disk d s p"
  using disk_ok_dir_above [OF assms] assms(2) by (cases "q = []") (auto simp: on_disk_iff is_dir_def)

lemma walkDir_opens:
  assumes "disk_ok d"
  shows "is_dir d s (done @ rest) \<Longrightarrow> walkDir d s done rest = Inr ()"
proof (induction rest arbitrary: "done")
  case Nil
  then show ?case by (simp add: walkDir.simps is_dir_on_disk)
next
  case (Cons x xs)
  have "is_dir d s done"
    by (rule disk_ok_dir_above [OF assms, of s "done" "x # xs" DirN]) (use Cons.prems in \<open>simp_all add: is_dir_def\<close>)
  then show ?case using Cons by (simp add: walkDir.simps is_dir_on_disk)
qed

lemma walkDir_opened: "walkDir d s done rest = Inr u \<Longrightarrow> is_dir d s (done @ rest)"
proof (induction rest arbitrary: "done")
  case (Cons x xs)
  then have "walkDir d s (done @ [x]) xs = Inr u" by (subst (asm) walkDir.simps) (simp split: if_splits)
  from Cons.IH [OF this] show ?case by simp
qed (simp add: walkDir.simps split: if_splits)

lemma walkDir_errors: "walkDir d s done rest \<noteq> Inr () \<Longrightarrow> walkDir d s done rest \<in> {Inl SeamNotFound, Inl SeamNotADirectory}"
proof (induction rest arbitrary: "done")
  case (Cons x xs)
  then show ?case by (subst (asm) walkDir.simps, subst walkDir.simps) (simp split: if_splits)
qed (simp add: walkDir.simps split: if_splits)

lemma relocate_back:
  assumes "\<not> prefix b p"
  shows "relocate s b a (relocate s a b (s', p, n)) = (s', p, n)"
proof (cases "s' = s \<and> prefix a p")
  case True
  then obtain q where "p = a @ q" by (auto simp: prefix_def)
  then show ?thesis using True by (simp add: relocate_def)
next
  case False
  then show ?thesis using assms by (auto simp: relocate_def)
qed

section \<open>Failures that were met\<close>

definition ioFailed :: "disk \<Rightarrow> disk \<Rightarrow> bool" where
  "ioFailed d d' \<longleftrightarrow> (\<exists>used why. dk_io d = used @ dk_io d' \<and> Some why \<in> set used)"

text \<open>\<open>here d N d'\<close>: later than \<open>d\<close>, with the nodes \<open>N\<close>; \<open>lame d N d'\<close>: and a failure was met on the way.\<close>

definition here :: "disk \<Rightarrow> nodes \<Rightarrow> disk \<Rightarrow> bool" where
  "here d N d' \<longleftrightarrow> dk_nodes d' = N \<and> dk_configured d' = dk_configured d \<and> dk_busy d' = dk_busy d
     \<and> (\<exists>used. dk_io d = used @ dk_io d')"

definition lame :: "disk \<Rightarrow> nodes \<Rightarrow> disk \<Rightarrow> bool" where
  "lame d N d' \<longleftrightarrow> here d N d' \<and> ioFailed d d'"

lemma here_refl [simp]: "here d (dk_nodes d) d"
  by (simp add: here_def)

lemma lame_here: "lame d N d' \<Longrightarrow> here d N d'"
  by (simp add: lame_def)

lemma here_trans: "here d N d1 \<Longrightarrow> here d1 M d2 \<Longrightarrow> here d M d2"
  unfolding here_def by (metis append_assoc)

lemma ioFailed_trans:
  "here d N d1 \<Longrightarrow> ioFailed d1 d2 \<Longrightarrow> ioFailed d d2"
  "ioFailed d d1 \<Longrightarrow> here d1 M d2 \<Longrightarrow> ioFailed d d2"
  unfolding here_def ioFailed_def by (metis append_assoc in_set_conv_decomp append_Cons)+

lemma lame_trans:
  "here d N d1 \<Longrightarrow> lame d1 M d2 \<Longrightarrow> lame d M d2"
  "lame d N d1 \<Longrightarrow> here d1 M d2 \<Longrightarrow> lame d M d2"
  unfolding lame_def using here_trans ioFailed_trans by blast+

lemma outcome_here:
  assumes "outcome d = (f, d')"
  shows "here d (dk_nodes d) d'" and "f = Some why \<Longrightarrow> lame d (dk_nodes d) d'"
proof -
  show h: "here d (dk_nodes d) d'"
    using assms by (cases "dk_io d") (auto simp: outcome_def here_def)
  show "f = Some why \<Longrightarrow> lame d (dk_nodes d) d'"
    unfolding lame_def using assms h by (cases "dk_io d") (auto simp: outcome_def ioFailed_def)
qed

lemma here_write: "here d N d1 \<Longrightarrow> here d M (d1\<lparr>dk_nodes := M\<rparr>)"
  by (auto simp: here_def)

lemma lame_write: "lame d N d1 \<Longrightarrow> lame d M (d1\<lparr>dk_nodes := M\<rparr>)"
  by (auto simp: lame_def here_def ioFailed_def)

lemma here_nodes: "here d N d' \<Longrightarrow> dk_nodes d' = N"
  by (simp add: here_def)

lemma hoare_fact: "(C \<Longrightarrow> hoare P m Q E) \<Longrightarrow> hoare (\<lambda>w. P w \<and> C) m Q E"
  by (auto simp: hoare_def)

text \<open>A system call, from a disk with the nodes \<open>N\<close>.\<close>

lemma hoare_sysCall:
  assumes "hoare (here d N) act Q E" and "\<And>why d'. lame d N d' \<Longrightarrow> E (SeamIo why) d'"
  shows "hoare (here d N) (sysCall act) Q E"
proof -
  have "case sysCall act d1 of (Inr a, d') \<Rightarrow> Q a d' | (Inl e, d') \<Rightarrow> E e d'" if d1: "here d N d1" for d1
  proof -
    obtain f d2 where out: "outcome d1 = (f, d2)" by force
    note N = here_nodes [OF d1]
    show ?thesis
    proof (cases f)
      case None
      then have "here d N d2" using outcome_here(1) [OF out] here_trans [OF d1] N by simp
      then show ?thesis using assms(1) out None by (simp add: sysCall_def hoare_def)
    next
      case (Some why)
      then have "lame d N d2" using outcome_here(2) [OF out Some] lame_trans(1) [OF d1] N by simp
      then show ?thesis using assms(2) out Some by (simp add: sysCall_def)
    qed
  qed
  then show ?thesis by (simp add: hoare_def)
qed

lemma hoare_open_dir:
  "hoare (here d N) (open_dir s p) (\<lambda>_ d'. here d N d' \<and> is_dir N s p)
     (\<lambda>e d'. here d N d' \<and> (disk_ok N \<and> is_dir N s p \<longrightarrow> lame d N d' \<and> (\<exists>why. e = SeamIo why)))"
  unfolding open_dir_def
proof (rule hoare_sysCall)
  show "hoare (here d N) (\<lambda>d. (walkDir (dk_nodes d) s [] p, d)) (\<lambda>_ d'. here d N d' \<and> is_dir N s p)
     (\<lambda>e d'. here d N d' \<and> (disk_ok N \<and> is_dir N s p \<longrightarrow> lame d N d' \<and> (\<exists>why. e = SeamIo why)))"
    using walkDir_opened [of N s "[]" p] walkDir_opens [of N s "[]" p]
    by (auto simp: hoare_def here_nodes split: sum.split)
qed (simp add: lame_here)

lemma hoare_onDescriptor:
  "hoare (here d N) onDescriptor (\<lambda>_. here d N) (\<lambda>e d'. lame d N d' \<and> (\<exists>why. e = SeamIo why))"
  unfolding onDescriptor_def by (rule hoare_sysCall) (auto simp: hoare_def)

section \<open>A directory made, an entry renamed, a directory removed\<close>

lemma disk_ok_insert:
  assumes "disk_ok N" and "p \<noteq> []" and "is_dir N s (butlast p)" and "\<not> on_disk N s p"
  shows "disk_ok (insert (s, p, DirN) N)"
proof -
  have new: "(s, p, n) \<notin> N" for n using assms(4) by (simp add: on_disk_iff)
  have old: "(s', q, n) \<in> N \<Longrightarrow> (s', q, n') \<in> N \<Longrightarrow> n = n'" for s' q n n'
    using assms(1) by (fastforce simp: disk_ok_def)
  have "(s', q, n) \<in> N \<Longrightarrow> q \<noteq> [] \<Longrightarrow> (s', butlast q, DirN) \<in> N" for s' q n
    by (rule disk_ok_parent [OF assms(1)])
  with assms(2,3) new old show ?thesis by (auto simp: disk_ok_def is_dir_def)
qed

lemma nothing_below:
  assumes "disk_ok N" and "\<not> on_disk N s p" and "(s, q, n) \<in> N"
  shows "\<not> prefix p q"
  using disk_ok_above [OF assms(1)] assms(2,3) by (auto simp: prefix_def)

lemma unlink_made:
  assumes "disk_ok N" and "p \<noteq> []" and "is_dir N s (butlast p)" and "\<not> on_disk N s p" and "dk_nodes d1 = insert (s, p, DirN) N"
  shows "unlinkat True s p d1 = (case outcome d1 of (Some why, d2) \<Rightarrow> (Inl (SeamIo why), d2) | (None, d2) \<Rightarrow> (Inr True, d2\<lparr>dk_nodes := N\<rparr>))"
proof -
  have "\<not> has_children (insert (s, p, DirN) N) s p"
    using nothing_below [OF assms(1,4)] by (auto simp: has_children_def strict_prefix_def)
  moreover have "on_disk (insert (s, p, DirN) N) s p" "is_dir (insert (s, p, DirN) N) s p"
    by (auto simp: on_disk_iff is_dir_def)
  moreover have "{x \<in> insert (s, p, DirN) N. \<not> (fst x = s \<and> fst (snd x) = p)} = N"
    using assms(4) by (auto simp: on_disk_iff)
  moreover have "dk_nodes d2 = dk_nodes d1" if "outcome d1 = (f, d2)" for f d2
    using outcome_here(1) [OF that] by (simp add: here_def)
  ultimately show ?thesis using assms(5) by (auto simp: unlinkat_def sysCall_def split: prod.split option.split)
qed

lemma hoare_create_dir:
  assumes "disk_ok N" and "p \<noteq> []"
  shows "hoare (here d N) (create_dir s p)
     (\<lambda>_ d'. here d (insert (s, p, DirN) N) d' \<and> is_dir N s (butlast p) \<and> \<not> on_disk N s p)
     (\<lambda>e d'. (here d N d' \<or> lame d (insert (s, p, DirN) N) d')
        \<and> (is_dir N s (butlast p) \<longrightarrow> e \<noteq> SeamNotFound \<and> e \<noteq> SeamNotADirectory))"
    (is "hoare _ _ ?Q ?E")
  unfolding create_dir_def
proof (rule hoare_seq)
  let ?M = "insert (s, p, DirN) N"
  show "hoare (here d N) (open_dir s (butlast p)) (\<lambda>_ d'. here d N d' \<and> is_dir N s (butlast p)) ?E"
    by (rule hoare_conseq [OF hoare_open_dir]) (use assms(1) lame_here in auto)
  fix u :: unit
  show "hoare (\<lambda>d'. here d N d' \<and> is_dir N s (butlast p))
     (seqE (mkdirat s p) (\<lambda>_. catchE
       (seqE (open_dir s p) (\<lambda>_. seqE onDescriptor (\<lambda>_. seqE onDescriptor (\<lambda>_. onDescriptor))))
       (\<lambda>err. seqE (catchE (unlinkat True s p) (\<lambda>_. ret False)) (\<lambda>_. raise err)))) ?Q ?E"
  proof (cases "is_dir N s (butlast p)")
    case True
    have mk: "hoare (here d N) (mkdirat s p) (\<lambda>_ d'. here d ?M d' \<and> \<not> on_disk N s p) ?E"
      unfolding mkdirat_def
    proof (rule hoare_sysCall)
      show "hoare (here d N) (\<lambda>d. if on_disk (dk_nodes d) s p then (Inl SeamAlreadyExists, d)
          else (Inr (), d\<lparr>dk_nodes := insert (s, p, DirN) (dk_nodes d)\<rparr>)) (\<lambda>_ d'. here d ?M d' \<and> \<not> on_disk N s p) ?E"
        using here_write [of d N _ ?M] by (auto simp: hoare_def here_nodes)
    qed (simp add: lame_here)
    have rest: "hoare (here d ?M) (catchE
       (seqE (open_dir s p) (\<lambda>_. seqE onDescriptor (\<lambda>_. seqE onDescriptor (\<lambda>_. onDescriptor))))
       (\<lambda>err. seqE (catchE (unlinkat True s p) (\<lambda>_. ret False)) (\<lambda>_. raise err))) ?Q ?E" if free: "\<not> on_disk N s p"
    proof (rule hoare_catch)
      let ?F = "\<lambda>e d'. lame d ?M d' \<and> (\<exists>why. e = SeamIo why)"
      have "is_dir ?M s p" by (simp add: is_dir_def)
      then have "hoare (here d ?M) (open_dir s p) (\<lambda>_. here d ?M) ?F"
        using disk_ok_insert [OF assms True free] by (intro hoare_conseq [OF hoare_open_dir]) auto
      then have "hoare (here d ?M) (seqE (open_dir s p) (\<lambda>_. seqE onDescriptor (\<lambda>_. seqE onDescriptor (\<lambda>_. onDescriptor))))
         (\<lambda>_. here d ?M) ?F"
        by (intro hoare_seq [where Q = "\<lambda>_. here d ?M"] hoare_onDescriptor)
      then show "hoare (here d ?M) (seqE (open_dir s p) (\<lambda>_. seqE onDescriptor (\<lambda>_. seqE onDescriptor (\<lambda>_. onDescriptor)))) ?Q ?F"
        by (rule hoare_conseq) (use True free in auto)
      fix err
      have "case unlinkat True s p d1 of (r, d2) \<Rightarrow> here d N d2 \<or> lame d ?M d2" if lame: "lame d ?M d1" for d1
      proof -
        note N = here_nodes [OF lame_here [OF lame]]
        obtain f d2 where out: "outcome d1 = (f, d2)" by force
        then have d2: "lame d ?M d2" using outcome_here(1) [OF out] N lame_trans(2) [OF lame] by simp
        then have "here d N (d2\<lparr>dk_nodes := N\<rparr>)" using lame_write lame_here by blast
        with d2 show ?thesis using out unlink_made [OF assms True free N] by (cases f) simp_all
      qed
      then have unlinked: "unlinkat True s p d1 = (r, d2) \<Longrightarrow> lame d ?M d1 \<Longrightarrow> here d N d2 \<or> lame d ?M d2" for r d1 d2
        by fastforce
      show "hoare (?F err) (seqE (catchE (unlinkat True s p) (\<lambda>_. ret False)) (\<lambda>_. raise err)) ?Q ?E"
        by (auto simp: hoare_def seqE_def catchE_def split: prod.splits sum.splits dest: unlinked)
    qed
    show ?thesis
      using hoare_seq [OF mk hoare_fact [OF rest]] by (rule hoare_conseq) auto
  qed (simp add: hoare_def)
qed

lemma hoare_publish_rename:
  assumes "disk_ok N"
  shows "hoare (here d N) (publish_rename s a b)
     (\<lambda>_ d'. here d (relocate s a b ` N) d' \<and> is_dir N s (butlast a) \<and> is_dir N s (butlast b) \<and> on_disk N s a
        \<and> \<not> on_disk N s b \<and> \<not> prefix a b)
     (\<lambda>e d'. (here d N d' \<or> lame d (relocate s a b ` N) d')
        \<and> (is_dir N s (butlast a) \<and> is_dir N s (butlast b) \<and> on_disk N s a \<longrightarrow> e \<noteq> SeamNotFound)
        \<and> (is_dir N s (butlast a) \<and> is_dir N s (butlast b) \<and> on_disk N s a \<and> \<not> on_disk N s b \<and> \<not> prefix a b
             \<longrightarrow> lame d (dk_nodes d') d'))"
    (is "hoare _ _ ?Q ?E")
  unfolding publish_rename_def
proof (rule hoare_seq)
  show "hoare (here d N) (open_dir s (butlast a)) (\<lambda>_ d'. here d N d' \<and> is_dir N s (butlast a)) ?E"
    by (rule hoare_conseq [OF hoare_open_dir]) (use assms(1) lame_here in \<open>auto simp: lame_def here_def\<close>)
  fix u :: unit
  let ?moved = "\<lambda>d'. here d (relocate s a b ` N) d' \<and> on_disk N s a \<and> \<not> on_disk N s b \<and> \<not> prefix a b"
  have "hoare (here d N) (seqE (open_dir s (butlast b)) (\<lambda>_. seqE (renameat s a b) (\<lambda>_. onDescriptor))) ?Q ?E"
    if dir: "is_dir N s (butlast a)"
  proof (rule hoare_seq)
    show "hoare (here d N) (open_dir s (butlast b)) (\<lambda>_ d'. here d N d' \<and> is_dir N s (butlast b)) ?E"
      by (rule hoare_conseq [OF hoare_open_dir]) (use assms(1) lame_here in \<open>auto simp: lame_def here_def\<close>)
    fix u :: unit
    have ren: "hoare (here d N) (renameat s a b) (\<lambda>_. ?moved) ?E"
      unfolding renameat_def
    proof (rule hoare_sysCall)
      show "hoare (here d N) (\<lambda>d. if \<not> on_disk (dk_nodes d) s a then (Inl SeamNotFound, d)
         else if on_disk (dk_nodes d) s b then (Inl SeamAlreadyExists, d)
         else if prefix a b then (Inl (SeamIo ''rename: invalid argument''), d)
         else (Inr (), d\<lparr>dk_nodes := relocate s a b ` dk_nodes d\<rparr>)) (\<lambda>_. ?moved) ?E"
        using here_write [of d N _ "relocate s a b ` N"] by (auto simp: hoare_def here_nodes)
    qed (auto simp: lame_here lame_def here_def)
    have sync: "hoare ?moved onDescriptor (\<lambda>_. ?moved) ?E"
    proof (cases "on_disk N s a \<and> \<not> on_disk N s b \<and> \<not> prefix a b")
      case True
      show ?thesis
        by (rule hoare_conseq [OF hoare_onDescriptor [of d "relocate s a b ` N"]]) (use True in \<open>auto simp: lame_def here_def\<close>)
    qed (auto simp: hoare_def)
    show "hoare (\<lambda>d'. here d N d' \<and> is_dir N s (butlast b)) (seqE (renameat s a b) (\<lambda>_. onDescriptor)) ?Q ?E"
    proof (cases "is_dir N s (butlast b)")
      case True
      have "hoare (here d N) (seqE (renameat s a b) (\<lambda>_. onDescriptor)) (\<lambda>_. ?moved) ?E"
        by (rule hoare_seq [OF ren sync])
      then show ?thesis by (rule hoare_conseq) (use True dir in auto)
    qed (simp add: hoare_def)
  qed
  then show "hoare (\<lambda>d'. here d N d' \<and> is_dir N s (butlast a))
      (seqE (open_dir s (butlast b)) (\<lambda>_. seqE (renameat s a b) (\<lambda>_. onDescriptor))) ?Q ?E"
    by (rule hoare_fact)
qed

lemma hoare_remove_made:
  assumes "disk_ok N" and "p \<noteq> []" and "is_dir N s (butlast p)" and "\<not> on_disk N s p"
  shows "hoare (here d (insert (s, p, DirN) N)) (remove_at True s p)
     (\<lambda>_. here d N) (\<lambda>_. lame d (insert (s, p, DirN) N))"
  unfolding remove_at_def
proof (rule hoare_seq)
  let ?M = "insert (s, p, DirN) N"
  have "is_dir ?M s (butlast p)" using assms(3) by (simp add: is_dir_def)
  then show "hoare (here d ?M) (open_dir s (butlast p)) (\<lambda>_. here d ?M) (\<lambda>_. lame d ?M)"
    using disk_ok_insert [OF assms] by (intro hoare_conseq [OF hoare_open_dir]) auto
  fix u :: unit
  have "case unlinkat True s p d1 of (Inr _, d2) \<Rightarrow> here d N d2 | (Inl _, d2) \<Rightarrow> lame d ?M d2" if d1: "here d ?M d1" for d1
  proof -
    note N = here_nodes [OF d1]
    obtain f d2 where out: "outcome d1 = (f, d2)" by force
    then have "here d N (d2\<lparr>dk_nodes := N\<rparr>)" "f = Some why \<Longrightarrow> lame d ?M d2" for why
      using outcome_here [OF out] N here_trans [OF d1] here_write lame_trans(1) [OF d1] by simp_all
    then show ?thesis using out unlink_made [OF assms N] by (cases f) simp_all
  qed
  then show "hoare (here d ?M) (unlinkat True s p) (\<lambda>_. here d N) (\<lambda>_. lame d ?M)" by (simp add: hoare_def)
qed

section \<open>The other way round\<close>

text \<open>What is on the disk once \<open>a\<close> has been renamed to \<open>b\<close>.\<close>

lemma relocated:
  assumes "disk_ok N" and "is_dir N s (butlast a)" and "is_dir N s (butlast b)" and "on_disk N s a"
    and "\<not> on_disk N s b" and "\<not> prefix a b" and "a \<noteq> []" and "M = relocate s a b ` N"
  shows "relocate s b a ` M = N" and "is_dir M s (butlast a)" and "is_dir M s (butlast b)" and "on_disk M s b"
    and "\<not> on_disk M s a" and "\<not> prefix b a" and "disk_ok M"
proof -
  have below: "\<not> prefix b p" if "(s, p, n) \<in> N" for p n
    by (rule nothing_below [OF assms(1,5) that])
  have undone: "relocate s b a (relocate s a b x) = x" if "x \<in> N" for x
  proof -
    obtain s' p n where x: "x = (s', p, n)" by (cases x)
    show ?thesis
    proof (cases "s' = s")
      case True
      then show ?thesis using that below relocate_back [of b p s a s' n] unfolding x by blast
    qed (simp add: x relocate_def)
  qed
  then show "relocate s b a ` M = N" unfolding assms(8) image_image by simp
  obtain na where na: "(s, a, na) \<in> N" using assms(4) by (auto simp: on_disk_iff)
  show ba: "\<not> prefix b a" by (rule below [OF na])
  have stays: "(s', p, n) \<in> M" if "(s', p, n) \<in> N" "\<not> (s' = s \<and> prefix a p)" for s' p n
  proof -
    have "relocate s a b (s', p, n) = (s', p, n)" using that(2) by (auto simp: relocate_def)
    then show ?thesis using that(1) unfolding assms(8) by (metis imageI)
  qed
  have short: "\<not> prefix a (butlast a)"
    using assms(7) prefix_length_le [of a "butlast a"] by (cases a) auto
  moreover have up: "\<not> prefix a (butlast b)"
    using assms(6) prefix_order.trans [OF _ prefixeq_butlast] by blast
  ultimately show da: "is_dir M s (butlast a)" and db: "is_dir M s (butlast b)"
    using stays assms(2,3) by (auto simp: is_dir_def)
  have goes: "(s, b @ q, n) \<in> M" if "(s, a @ q, n) \<in> N" for q n
  proof -
    have "relocate s a b (s, a @ q, n) = (s, b @ q, n)" by (simp add: relocate_def)
    then show ?thesis using that unfolding assms(8) by (metis imageI)
  qed
  show "on_disk M s b" using goes [of "[]"] na by (auto simp: on_disk_iff)
  show "\<not> on_disk M s a"
  proof
    assume "on_disk M s a"
    then obtain p n where p: "(s, p, n) \<in> N" "relocate s a b (s, p, n) = (s, a, n)"
      unfolding assms(8) on_disk_iff by (auto simp: relocate_def split: if_splits)
    then show False using ba by (auto simp: relocate_def split: if_splits dest: prefixI [OF sym])
  qed
  have origin: "(\<exists>q. s' = s \<and> p = b @ q \<and> (s, a @ q, n) \<in> N) \<or> (s', p, n) \<in> N \<and> \<not> (s' = s \<and> prefix a p)"
    if "(s', p, n) \<in> M" for s' p n
    using that unfolding assms(8) by (auto simp: relocate_def prefix_def split: if_splits)
  have "n = n'" if "(s', p, n) \<in> M" "(s', p, n') \<in> M" for s' p n n'
  proof -
    have "\<exists>q. relocate s b a (s', p, m) = (s', q, m)" for m by (simp add: relocate_def)
    moreover have "fst (snd (relocate s b a (s', p, n))) = fst (snd (relocate s b a (s', p, n')))" by (simp add: relocate_def)
    moreover have "relocate s b a (s', p, n) \<in> N" "relocate s b a (s', p, n') \<in> N"
      using \<open>relocate s b a ` M = N\<close> that by blast+
    ultimately show ?thesis using assms(1) unfolding disk_ok_def by (metis (mono_tags, lifting) case_prodD fst_conv snd_conv)
  qed
  moreover have "(s', butlast p, DirN) \<in> M" if x: "(s', p, n) \<in> M" and ne: "p \<noteq> []" for s' p n
    using origin [OF x]
  proof (elim disjE exE conjE)
    fix q assume q: "s' = s" "p = b @ q" "(s, a @ q, n) \<in> N"
    show ?thesis
    proof (cases "q = []")
      case True
      then show ?thesis using db q by (simp add: is_dir_def)
    next
      case False
      then have "(s, a @ butlast q, DirN) \<in> N" using disk_ok_parent [OF assms(1) q(3)] by (simp add: butlast_append)
      then show ?thesis using goes q False by (simp add: butlast_append)
    qed
  next
    assume old: "(s', p, n) \<in> N" "\<not> (s' = s \<and> prefix a p)"
    then have "\<not> (s' = s \<and> prefix a (butlast p))" using prefix_order.trans [OF _ prefixeq_butlast] by blast
    then show ?thesis using disk_ok_parent [OF assms(1) old(1) ne] by (intro stays)
  qed
  ultimately show "disk_ok M" unfolding disk_ok_def by blast
qed

section \<open>What a request leaves\<close>

lemma deliver_cases:
  assumes "deliver act d = (r, d')"
  obtains (unsent) why where "r = Inl why" "lame d (dk_nodes d) d'"
    | (sent) d1 ans d2 where "here d (dk_nodes d) d1" "act d1 = (ans, d2)" "here d2 (dk_nodes d2) d'"
        "r = Inr ans \<or> (\<exists>why. r = Inl why) \<and> lame d2 (dk_nodes d2) d'"
proof -
  obtain f d1 where d1: "outcome d = (f, d1)" by force
  show ?thesis
  proof (cases f)
    case (Some why)
    then show ?thesis using unsent [of why] outcome_here(2) [OF d1 Some] assms d1 by (simp add: deliver_def)
  next
    case None
    obtain ans d2 where d2: "act d1 = (ans, d2)" by force
    obtain g d3 where d3: "outcome d2 = (g, d3)" by force
    have "d' = d3 \<and> (r = Inr ans \<or> (\<exists>why. g = Some why \<and> r = Inl why))"
      using assms d1 d2 d3 None by (cases g) (simp_all add: deliver_def)
    then show ?thesis using sent [OF outcome_here(1) [OF d1] d2] outcome_here [OF d3] by blast
  qed
qed

text \<open>A disk after an answer that may have been lost.\<close>

lemma here_then: "here d N d2 \<Longrightarrow> here d2 (dk_nodes d2) d3 \<Longrightarrow> here d N d3"
  "lame d N d2 \<Longrightarrow> here d2 (dk_nodes d2) d3 \<Longrightarrow> lame d N d3"
  "here d N d2 \<Longrightarrow> lame d2 (dk_nodes d2) d3 \<Longrightarrow> lame d N d3"
  using here_trans lame_trans here_nodes lame_here by metis+

lemma create_directory_run:
  assumes "disk_ok N" and "here d N d1" and "create_directory s p u g d1 = (ans, d2)"
  shows "(if ans = DirectoryCreated
      then here d (insert (s, p, DirN) N) d2 \<and> p \<noteq> [] \<and> hd p \<noteq> STAGING \<and> dk_configured d
        \<and> is_dir N s (butlast p) \<and> \<not> on_disk N s p
      else here d N d2 \<or> lame d (insert (s, p, DirN) N) d2)
    \<and> (is_dir N s (butlast p) \<longrightarrow> (\<forall>reason. ans \<noteq> NotFound reason))"
proof (cases "posixId u \<and> posixId g \<and> dk_configured d1 \<and> p \<noteq> [] \<and> hd p \<noteq> STAGING \<and> p \<noteq> BIN")
  case True
  obtain r d3 where run: "create_dir s p d1 = (r, d3)" by force
  have conf: "dk_configured d" using assms(2) True by (simp add: here_def)
  show ?thesis
  proof (cases r)
    case (Inl e)
    note spec = hoare_Inl [OF hoare_create_dir [OF assms(1)] assms(2) run [unfolded Inl]]
    show ?thesis using spec assms(3) run Inl True by (cases e) (auto simp: create_directory_def)
  next
    case (Inr u)
    note spec = hoare_Inr [OF hoare_create_dir [OF assms(1)] assms(2) run [unfolded Inr]]
    show ?thesis using spec assms(3) run Inr True conf by (auto simp: create_directory_def)
  qed
qed (use assms(2,3) in \<open>auto simp: create_directory_def split: if_splits\<close>)

lemma move_entry_run:
  assumes "disk_ok N" and "here d N d1" and "move_entry s a b d1 = (ans, d2)"
  shows "(if ans = Moved
      then here d (relocate s a b ` N) d2 \<and> a \<noteq> [] \<and> b \<noteq> [] \<and> hd a \<noteq> STAGING \<and> hd b \<noteq> STAGING \<and> dk_configured d
        \<and> is_dir N s (butlast a) \<and> is_dir N s (butlast b) \<and> on_disk N s a \<and> \<not> on_disk N s b \<and> \<not> prefix a b
      else here d N d2 \<or> lame d (relocate s a b ` N) d2)
    \<and> (is_dir N s (butlast a) \<and> is_dir N s (butlast b) \<and> on_disk N s a \<longrightarrow> (\<forall>reason. ans \<noteq> NotFound reason))
    \<and> (is_dir N s (butlast a) \<and> is_dir N s (butlast b) \<and> on_disk N s a \<and> \<not> on_disk N s b \<and> \<not> prefix a b
         \<and> a \<noteq> [] \<and> b \<noteq> [] \<and> hd a \<noteq> STAGING \<and> hd b \<noteq> STAGING \<and> dk_configured d \<and> ans \<noteq> Moved \<longrightarrow> lame d (dk_nodes d2) d2)"
proof (cases "dk_configured d1 \<and> a \<noteq> [] \<and> b \<noteq> [] \<and> hd a \<noteq> STAGING \<and> hd b \<noteq> STAGING")
  case True
  obtain r d3 where run: "publish_rename s a b d1 = (r, d3)" by force
  have conf: "dk_configured d" using assms(2) True by (simp add: here_def)
  show ?thesis
  proof (cases r)
    case (Inl e)
    note spec = hoare_Inl [OF hoare_publish_rename [OF assms(1)] assms(2) run [unfolded Inl]]
    show ?thesis using spec assms(3) run Inl True by (cases e) (auto simp: move_entry_def)
  next
    case (Inr u)
    note spec = hoare_Inr [OF hoare_publish_rename [OF assms(1)] assms(2) run [unfolded Inr]]
    show ?thesis using spec assms(3) run Inr True conf by (auto simp: move_entry_def)
  qed
qed (use assms(2,3) in \<open>auto simp: move_entry_def here_def split: if_splits\<close>)

lemma remove_made_run:
  assumes "disk_ok N" and "is_dir N s (butlast p)" and "\<not> on_disk N s p" and "p \<noteq> []" and "hd p \<noteq> STAGING" and "dk_configured d"
    and "here d (insert (s, p, DirN) N) d1" and "remove_entry s p True d1 = (ans, d2)"
  shows "here d N d2 \<or> here d (insert (s, p, DirN) N) d2 \<and> (ioFailed d d2 \<or> (s, joinPath p) \<in> dk_busy d)"
proof (cases "(s, joinPath p) \<in> dk_busy d1")
  case True
  then show ?thesis using assms(5-8) by (auto simp: remove_entry_def here_def split: if_splits)
next
  case False
  obtain r d3 where run: "remove_at True s p d1 = (r, d3)" by force
  note spec = hoare_remove_made [OF assms(1,4,2,3), of d]
  have "d3 = d2" using assms(4-8) run False by (cases r) (auto simp: remove_entry_def here_def split: bool.splits)
  then show ?thesis
    using hoare_Inl [OF spec assms(7)] hoare_Inr [OF spec assms(7)] run by (cases r) (auto simp: lame_def)
qed

definition creationStuck :: "string \<Rightarrow> string list \<Rightarrow> disk \<Rightarrow> disk \<Rightarrow> bool" where
  "creationStuck s p d d' \<longleftrightarrow> ioFailed d d' \<or> (s, joinPath p) \<in> dk_busy d"

lemma create_fails:
  assumes "disk_ok (dk_nodes d)" and "deliver (create_directory s p u g) d = (r, d')" and "r \<noteq> Inr DirectoryCreated"
  shows "dk_nodes d' = dk_nodes d \<or> dk_nodes d' = insert (s, p, DirN) (dk_nodes d) \<and> creationStuck s p d d'"
  using assms(2)
proof (cases rule: deliver_cases)
  case (sent d1 ans d2)
  let ?N = "dk_nodes d" and ?M = "insert (s, p, DirN) (dk_nodes d)"
  note run = create_directory_run [OF assms(1) sent(1,2)]
  have "here d ?N d' \<or> lame d ?M d'"
  proof (cases "ans = DirectoryCreated")
    case True
    then have "here d ?M d2" "lame d2 (dk_nodes d2) d'" using run sent(4) assms(3) by auto
    then show ?thesis using here_then(3) by blast
  next
    case False
    then show ?thesis using run here_then(1,2) [OF _ sent(3)] by metis
  qed
  then show ?thesis by (auto simp: here_def lame_def creationStuck_def)
qed (auto simp: lame_def here_def)

lemma create_taken_back:
  assumes "disk_ok (dk_nodes d)" and "deliver (create_directory s p u g) d = (Inr DirectoryCreated, d')"
    and "deliver (remove_entry s p True) d' = (r, d'')"
  shows "dk_nodes d'' = dk_nodes d \<or> dk_nodes d'' = insert (s, p, DirN) (dk_nodes d) \<and> creationStuck s p d d''"
proof -
  let ?N = "dk_nodes d" and ?M = "insert (s, p, DirN) (dk_nodes d)"
  have "here d ?M d' \<and> is_dir ?N s (butlast p) \<and> \<not> on_disk ?N s p \<and> p \<noteq> [] \<and> hd p \<noteq> STAGING \<and> dk_configured d"
    using assms(2)
  proof (cases rule: deliver_cases)
    case (sent d1 ans d2)
    then show ?thesis using create_directory_run [OF assms(1) sent(1,2)] here_then(1) by auto
  qed simp
  then have made: "here d ?M d'" and ok: "is_dir ?N s (butlast p)" "\<not> on_disk ?N s p" "p \<noteq> []" "hd p \<noteq> STAGING" "dk_configured d"
    by auto
  from assms(3) show ?thesis
  proof (cases rule: deliver_cases)
    case (unsent why)
    then have "lame d ?M d''" using lame_trans(1) [OF made] here_nodes [OF made] by simp
    then show ?thesis by (auto simp: lame_def here_def creationStuck_def)
  next
    case (sent d1 ans d2)
    then have "here d ?M d1" using here_trans [OF made] here_nodes [OF made] by simp
    from remove_made_run [OF assms(1) ok this sent(2)] sent(3) show ?thesis
      using here_then(1) ioFailed_trans(2) unfolding creationStuck_def by (metis here_nodes)
  qed
qed

lemma move_fails:
  assumes "disk_ok (dk_nodes d)" and "deliver (move_entry s a b) d = (r, d')" and "r \<noteq> Inr Moved"
  shows "dk_nodes d' = dk_nodes d \<or> dk_nodes d' = relocate s a b ` dk_nodes d \<and> ioFailed d d'"
  using assms(2)
proof (cases rule: deliver_cases)
  case (sent d1 ans d2)
  let ?N = "dk_nodes d" and ?M = "relocate s a b ` dk_nodes d"
  note run = move_entry_run [OF assms(1) sent(1,2)]
  have "here d ?N d' \<or> lame d ?M d'"
  proof (cases "ans = Moved")
    case True
    then have "here d ?M d2" "lame d2 (dk_nodes d2) d'" using run sent(4) assms(3) by auto
    then show ?thesis using here_then(3) by blast
  next
    case False
    then show ?thesis using run here_then(1,2) [OF _ sent(3)] by metis
  qed
  then show ?thesis by (auto simp: here_def lame_def)
qed (auto simp: lame_def here_def)

lemma move_taken_back:
  assumes "disk_ok (dk_nodes d)" and "deliver (move_entry s a b) d = (Inr Moved, d')"
    and "deliver (move_entry s b a) d' = (r, d'')"
  shows "dk_nodes d'' = dk_nodes d \<or> dk_nodes d'' = relocate s a b ` dk_nodes d \<and> ioFailed d d''"
proof -
  let ?N = "dk_nodes d" and ?M = "relocate s a b ` dk_nodes d"
  have "here d ?M d' \<and> a \<noteq> [] \<and> b \<noteq> [] \<and> hd a \<noteq> STAGING \<and> hd b \<noteq> STAGING \<and> dk_configured d
      \<and> is_dir ?N s (butlast a) \<and> is_dir ?N s (butlast b) \<and> on_disk ?N s a \<and> \<not> on_disk ?N s b \<and> \<not> prefix a b"
    using assms(2)
  proof (cases rule: deliver_cases)
    case (sent d1 ans d2)
    then have "ans = Moved" by simp
    with move_entry_run [OF assms(1) sent(1,2)] here_then(1) [OF _ sent(3)] show ?thesis by simp
  qed simp
  then have made: "here d ?M d'"
    and ok: "a \<noteq> []" "b \<noteq> []" "hd a \<noteq> STAGING" "hd b \<noteq> STAGING" "dk_configured d" "is_dir ?N s (butlast a)"
      "is_dir ?N s (butlast b)" "on_disk ?N s a" "\<not> on_disk ?N s b" "\<not> prefix a b"
    by auto
  note there = relocated [OF assms(1) ok(6,7,8,9,10,1) refl]
  from assms(3) show ?thesis
  proof (cases rule: deliver_cases)
    case (unsent why)
    then have "lame d ?M d''" using lame_trans(1) [OF made] here_nodes [OF made] by simp
    then show ?thesis by (auto simp: lame_def here_def)
  next
    case (sent d1 ans d2)
    then have d1: "here d ?M d1" using here_trans [OF made] here_nodes [OF made] by simp
    note run = move_entry_run [OF there(7) d1 sent(2), unfolded there(1)]
    have "here d ?N d2 \<or> lame d ?M d2"
    proof (cases "ans = Moved")
      case True
      then show ?thesis using run by simp
    next
      case False
      then have "here d ?M d2 \<or> lame d ?N d2" "lame d (dk_nodes d2) d2" using run there ok by simp_all
      then show ?thesis using here_nodes lame_here by metis
    qed
    then have "here d ?N d'' \<or> lame d ?M d''" using here_then(1,2) sent(3) by metis
    then show ?thesis by (auto simp: here_def lame_def)
  qed
qed

interpretation agent: undoable_agent "agent_disk other" dk_nodes "\<lambda>s p. insert (s, p, DirN)" "\<lambda>s a b N. relocate s a b ` N"
  "\<lambda>d. disk_ok (dk_nodes d)" ioFailed creationStuck
  by unfold_locales (unfold agent_disk.simps, (rule create_fails create_taken_back move_fails move_taken_back; assumption)+)

section \<open>What the services leave\<close>

lemma create_finds_the_parent:
  assumes "disk_ok (dk_nodes d)" and "is_dir (dk_nodes d) s (butlast p)"
  shows "agent_disk other (CreateDirectory s p u g) d \<noteq> (Inr (NotFound reason), d')"
proof
  assume "agent_disk other (CreateDirectory s p u g) d = (Inr (NotFound reason), d')"
  then have "deliver (create_directory s p u g) d = (Inr (NotFound reason), d')" by simp
  then show False
  proof (cases rule: deliver_cases)
    case (sent d1 ans d2)
    from create_directory_run [OF assms(1) sent(1,2)] assms(2) sent(4) show False by blast
  qed simp
qed

lemma move_finds_the_entry:
  assumes "disk_ok (dk_nodes d)" and "on_disk (dk_nodes d) s a" and "is_dir (dk_nodes d) s (butlast b)"
    and "a \<noteq> []"
  shows "agent_disk other (MoveEntry s a b) d \<noteq> (Inr (NotFound reason), d')"
proof
  have dir: "is_dir (dk_nodes d) s (butlast a)"
    using disk_ok_parent [OF assms(1)] assms(2,4) by (auto simp: on_disk_iff is_dir_def)
  assume "agent_disk other (MoveEntry s a b) d = (Inr (NotFound reason), d')"
  then have "deliver (move_entry s a b) d = (Inr (NotFound reason), d')" by simp
  then show False
  proof (cases rule: deliver_cases)
    case (sent d1 ans d2)
    from move_entry_run [OF assms(1) sent(1,2)] dir assms(2,3) sent(4) show False by blast
  qed simp
qed

text \<open>
  C25. When the folder it is to go into is on the disk, a \<open>createFolder\<close> that throws, because the agent refused, the
  name is taken or the transaction failed, leaves the disk as it found it. The one exception is the directory itself,
  and it is left behind only when a system call of the agent or the connection to it failed on the way, or when the
  agent would not remove it because a transfer holds its name: the case the code writes to its journal.
\<close>

theorem createFolder_leaves_no_orphan:
  assumes "env_call e = agent_disk other" and "disk_ok (dk_nodes (w_disk w))"
    and "\<And>path cs. fst (folderParent org share parent w) = Inr (path, cs) \<Longrightarrow>
           is_dir (dk_nodes (w_disk w)) (sh_name share) cs"
    and "createFolder e org share parent name actor copied w = (Inl err, w')"
  shows "dk_nodes (w_disk w') = dk_nodes (w_disk w) \<or>
    (\<exists>path cs. fst (folderParent org share parent w) = Inr (path, cs)
       \<and> dk_nodes (w_disk w') = insert (sh_name share, cs @ [name], DirN) (dk_nodes (w_disk w))
       \<and> (ioFailed (w_disk w) (w_disk w') \<or> (sh_name share, joinPath (cs @ [name])) \<in> dk_busy (w_disk w)))"
  by (rule agent.createFolder_left [OF assms(1,2) _ assms(4), unfolded creationStuck_def])
     (rule create_finds_the_parent [OF assms(2)], simp add: assms(3))

text \<open>
  C26. When the entry and the destination folder are on the disk, a \<open>move\<close> that throws, after the agent has moved the
  bytes or before, leaves the disk as it found it: the second request puts the entry back. The one exception is the
  entry at its new place, and only when a system call of the agent (a rename that happened and could not be
  made durable) or the connection to it failed on the way.
\<close>

theorem move_leaves_disk_unchanged_on_error:
  assumes "env_call e = agent_disk other" and "disk_ok (dk_nodes (w_disk w))"
    and "\<And>src. fst (componentsOf org i w) = Inr src \<Longrightarrow> src \<noteq> [] \<and> on_disk (dk_nodes (w_disk w)) (sh_name share) src"
    and "\<And>dst name. fst (moveDestination org parent name w) = Inr dst \<Longrightarrow>
           is_dir (dk_nodes (w_disk w)) (sh_name share) (butlast dst)"
    and "move e org i share parent newName actor w = (Inl err, w')"
  shows "dk_nodes (w_disk w') = dk_nodes (w_disk w) \<or>
    (\<exists>entry src dst. fst (findEntry org i w) = Inr entry \<and> fst (componentsOf org i w) = Inr src
       \<and> fst (moveDestination org parent (case newName of None \<Rightarrow> fe_name entry | Some n \<Rightarrow> n) w) = Inr dst
       \<and> dk_nodes (w_disk w') = relocate (sh_name share) src dst ` dk_nodes (w_disk w)
       \<and> ioFailed (w_disk w) (w_disk w'))"
  by (rule agent.move_left [OF assms(1,2) _ assms(5)], rule move_finds_the_entry [OF assms(2)])
     (use assms(3,4) in blast)+

end
