(* ===== verification/FileTable.thy ===== *)
theory FileTable
  imports FileOps
begin

text \<open>
  The invariant of \<open>file_entries\<close> and what each kind of write does to it: a new row, a row changed
  in place, a row moved with the paths below it rebuilt, a leaf deleted.
\<close>

definition unique_names :: "pg_text \<Rightarrow> table \<Rightarrow> bool" where
  "unique_names pg db \<longleftrightarrow> (\<forall>r \<in> set db. \<not> nameClash pg db r)"

text \<open>The tree is a tree, the path cache is right, and no two untrashed siblings fold to one name.\<close>

definition entries_ok :: "pg_text \<Rightarrow> table \<Rightarrow> bool" where
  "entries_ok pg db \<longleftrightarrow> wf_tree db \<and> paths_ok db \<and> unique_names pg db"

lemma nameClash_iff:
  "nameClash pg db r \<longleftrightarrow> fe_trashed_at r = None \<and>
     (\<exists>q \<in> set db. fe_id q \<noteq> fe_id r \<and> fe_trashed_at q = None \<and> sameSlot q r
        \<and> fold_identity pg (fe_name q) = fold_identity pg (fe_name r))"
  by (simp add: nameClash_def list_ex_iff)

lemma sameSlot_sym: "sameSlot a b \<longleftrightarrow> sameSlot b a"
  by (auto simp: sameSlot_def)

lemma entries_okD:
  assumes "entries_ok pg db"
  shows "wf_tree db" "paths_ok db" "unique_names pg db" "distinct (map fe_id db)"
  using assms by (simp_all add: entries_ok_def wf_tree_def)

section \<open>A new row\<close>

text \<open>Where a row may be put: at the top of its share, or in a folder of it; and its path there.\<close>

definition placed :: "table \<Rightarrow> FileEntryRow \<Rightarrow> bool" where
  "placed db r \<longleftrightarrow> CHR ''/'' \<notin> set (fe_name r) \<and>
     (case fe_parent r of
        None \<Rightarrow> fe_path r = CHR ''/'' # fe_name r
      | Some p \<Rightarrow> \<exists>q \<in> set db. fe_id q = p \<and> fe_org q = fe_org r \<and> fe_share q = fe_share r
           \<and> fe_kind q = Folder \<and> fe_path r = fe_path q @ CHR ''/'' # fe_name r)"

lemma parent_rel_range: "parents_ok db \<Longrightarrow> (x, y) \<in> parent_rel db \<Longrightarrow> y \<in> fe_id ` set db"
  by (auto simp: parent_rel_def parents_ok_def)

lemma acyclic_snoc:
  assumes "wf_tree db" and "fe_id r \<notin> fe_id ` set db"
    and "\<And>p. fe_parent r = Some p \<Longrightarrow> p \<in> fe_id ` set db"
  shows "acyclic (parent_rel (db @ [r]))"
proof (cases "fe_parent r")
  case None
  then have "parent_rel (db @ [r]) = parent_rel db"
    by (auto simp: parent_rel_def)
  then show ?thesis using assms(1) by (simp add: wf_tree_def)
next
  case (Some p)
  then have rel: "parent_rel (db @ [r]) = insert (fe_id r, p) (parent_rel db)"
    by (auto simp: parent_rel_def)
  have "(p, fe_id r) \<notin> (parent_rel db)\<^sup>*"
  proof
    assume "(p, fe_id r) \<in> (parent_rel db)\<^sup>*"
    then have "p = fe_id r \<or> fe_id r \<in> fe_id ` set db"
      using parent_rel_range assms(1) by (metis rtranclE wf_tree_def)
    then show False using assms Some by auto
  qed
  then show ?thesis
    using assms(1) by (simp add: rel acyclic_insert wf_tree_def)
qed

lemma insert_ok:
  assumes "entries_ok pg db" and "fe_id r \<notin> fe_id ` set db" and "placed db r" and "\<not> nameClash pg db r"
  shows "entries_ok pg (db @ [r])"
proof -
  note ok = entries_okD [OF assms(1)]
  have "parents_ok (db @ [r])"
    using ok(1) assms(3) unfolding wf_tree_def parents_ok_def placed_def
    by (fastforce split: option.splits)
  moreover have "acyclic (parent_rel (db @ [r]))"
    using ok(1) assms(2,3) by (intro acyclic_snoc) (auto simp: placed_def)
  ultimately have wf: "wf_tree (db @ [r])"
    using ok(4) assms(2) by (simp add: wf_tree_def)
  have "paths_ok (db @ [r])"
    unfolding paths_ok_def
  proof
    fix x assume "x \<in> set (db @ [r])"
    then consider "x \<in> set db" | "x = r" by auto
    then show "CHR ''/'' \<notin> set (fe_name x) \<and> (case fe_parent x of None \<Rightarrow> fe_path x = CHR ''/'' # fe_name x
        | Some p \<Rightarrow> \<exists>q \<in> set (db @ [r]). fe_id q = p \<and> fe_path x = fe_path q @ CHR ''/'' # fe_name x)"
    proof cases
      case 1
      then show ?thesis by (rule paths_ok_step [OF ok(2)]) auto
    next
      case 2
      then show ?thesis using assms(3) by (auto simp: placed_def split: option.splits)
    qed
  qed
  moreover have "unique_names pg (db @ [r])"
    unfolding unique_names_def
  proof
    fix s assume s: "s \<in> set (db @ [r])"
    show "\<not> nameClash pg (db @ [r]) s"
    proof (cases "s = r")
      case True
      then show ?thesis using assms(4) by (auto simp: nameClash_iff)
    next
      case False
      then have "s \<in> set db" using s by simp
      moreover from this have "fe_id s \<noteq> fe_id r" using assms(2) by (metis image_eqI)
      ultimately show ?thesis
        using ok(3) assms(4) sameSlot_sym by (fastforce simp: unique_names_def nameClash_iff)
    qed
  qed
  ultimately show ?thesis using wf by (simp add: entries_ok_def)
qed

section \<open>A row changed in place\<close>

definition replaceRow :: "table \<Rightarrow> FileEntryRow \<Rightarrow> table" where
  "replaceRow db r' = map (\<lambda>x. if fe_id x = fe_id r' then r' else x) db"

lemma set_replaceRow:
  "set (replaceRow db r') = {x \<in> set db. fe_id x \<noteq> fe_id r'} \<union> (if fe_id r' \<in> fe_id ` set db then {r'} else {})"
  by (auto simp: replaceRow_def image_iff)

lemma ids_replaceRow [simp]: "map fe_id (replaceRow db r') = map fe_id db"
  by (induction db) (auto simp: replaceRow_def)

lemma updateRows_replace:
  assumes "distinct (map fe_id db)" and "r \<in> set db" and "hit r" and "fe_id (f r) = fe_id r"
    and "\<And>x. hit x \<Longrightarrow> fe_id x = fe_id r"
  shows "updateRows hit f db = replaceRow db (f r)"
proof -
  have "(if hit x then f x else x) = (if fe_id x = fe_id (f r) then f r else x)" if "x \<in> set db" for x
  proof (cases "fe_id x = fe_id r")
    case True
    then have "x = r" using distinct_ids_eq [OF assms(1) that assms(2)] by simp
    then show ?thesis using assms(3,4) by simp
  next
    case False
    then show ?thesis using assms(4,5) by auto
  qed
  then show ?thesis by (simp add: updateRows_def replaceRow_def)
qed

lemma unique_replace:
  assumes "distinct (map fe_id db)" and "unique_names pg db" and "\<not> nameClash pg db r'"
  shows "unique_names pg (replaceRow db r')"
  unfolding unique_names_def
proof
  fix s assume s: "s \<in> set (replaceRow db r')"
  show "\<not> nameClash pg (replaceRow db r') s"
  proof (cases "fe_id s = fe_id r'")
    case True
    then have "s = r'" using s by (auto simp: set_replaceRow split: if_splits)
    then show ?thesis
      using assms(3) by (auto simp: nameClash_iff set_replaceRow split: if_splits)
  next
    case False
    then have "s \<in> set db" using s by (auto simp: set_replaceRow split: if_splits)
    then show ?thesis
      using assms(2,3) False sameSlot_sym [of s r']
      by (fastforce simp: unique_names_def nameClash_iff set_replaceRow split: if_splits)
  qed
qed

lemma parent_rel_replace:
  "parent_rel (replaceRow db r') \<subseteq>
     parent_rel db \<union> (case fe_parent r' of None \<Rightarrow> {} | Some p \<Rightarrow> {(fe_id r', p)})"
  by (auto simp: parent_rel_def set_replaceRow split: option.splits if_splits)

text \<open>Moving a row below an entry that is not below the row keeps the tree a tree.\<close>

lemma replace_wf:
  assumes "wf_tree db" and "r \<in> set db" and "fe_id r' = fe_id r" and "fe_org r' = fe_org r"
    and "fe_share r' = fe_share r" and "fe_kind r' = fe_kind r"
    and "\<And>p. fe_parent r' = Some p \<Longrightarrow> (p, fe_id r) \<notin> (parent_rel db)\<^sup>*
       \<and> (\<exists>q \<in> set db. fe_id q = p \<and> fe_org q = fe_org r \<and> fe_share q = fe_share r \<and> fe_kind q = Folder)"
  shows "wf_tree (replaceRow db r')"
proof -
  have dist: "distinct (map fe_id db)" using assms(1) by (simp add: wf_tree_def)
  have in_new: "\<exists>q' \<in> set (replaceRow db r'). fe_id q' = fe_id q \<and> fe_org q' = fe_org q
      \<and> fe_share q' = fe_share q \<and> fe_kind q' = fe_kind q" if "q \<in> set db" for q
  proof (cases "fe_id q = fe_id r")
    case True
    then have "q = r" using distinct_ids_eq [OF dist that assms(2)] by simp
    then show ?thesis using assms(2-6) by (intro bexI [of _ r']) (auto simp: set_replaceRow)
  next
    case False
    then show ?thesis using that assms(3) by (intro bexI [of _ q]) (auto simp: set_replaceRow)
  qed
  have "parents_ok (replaceRow db r')"
    unfolding parents_ok_def
  proof (intro ballI allI impI)
    fix x p assume x: "x \<in> set (replaceRow db r')" and p: "fe_parent x = Some p"
    have "\<exists>q \<in> set db. fe_id q = p \<and> fe_org q = fe_org x \<and> fe_share q = fe_share x \<and> fe_kind q = Folder"
    proof (cases "x = r'")
      case True
      then show ?thesis using assms(4,5,7) p by auto
    next
      case False
      then have "x \<in> set db" using x by (auto simp: set_replaceRow split: if_splits)
      then show ?thesis using wf_tree_parent [OF assms(1) _ p] by metis
    qed
    then show "\<exists>q \<in> set (replaceRow db r'). fe_id q = p \<and> fe_org q = fe_org x
        \<and> fe_share q = fe_share x \<and> fe_kind q = Folder"
      using in_new by metis
  qed
  moreover have "acyclic (parent_rel (replaceRow db r'))"
  proof (cases "fe_parent r'")
    case None
    then have "parent_rel (replaceRow db r') \<subseteq> parent_rel db"
      using parent_rel_replace [of db r'] by simp
    then show ?thesis using assms(1) acyclic_subset by (auto simp: wf_tree_def)
  next
    case (Some p)
    then have "acyclic (insert (fe_id r', p) (parent_rel db))"
      using assms(1,3,7) by (simp add: acyclic_insert wf_tree_def)
    then show ?thesis
      using parent_rel_replace [of db r'] Some by (auto intro: acyclic_subset)
  qed
  ultimately show ?thesis using dist by (simp add: wf_tree_def)
qed

text \<open>A write that leaves the tree columns, the name and the path of a row alone.\<close>

lemma replace_same_place:
  assumes "entries_ok pg db" and "r \<in> set db" and "fe_id r' = fe_id r" and "fe_org r' = fe_org r"
    and "fe_share r' = fe_share r" and "fe_kind r' = fe_kind r" and "fe_parent r' = fe_parent r"
    and "fe_name r' = fe_name r" and "fe_path r' = fe_path r" and "\<not> nameClash pg db r'"
  shows "entries_ok pg (replaceRow db r')"
proof -
  note ok = entries_okD [OF assms(1)]
  have "wf_tree (replaceRow db r')"
  proof (rule replace_wf [OF ok(1) assms(2-6)])
    fix p assume p: "fe_parent r' = Some p"
    then have "(fe_id r, p) \<in> parent_rel db"
      using assms(2,7) by (auto simp: parent_rel_def)
    then have "(p, fe_id r) \<notin> (parent_rel db)\<^sup>*"
      using ok(1) by (auto simp: wf_tree_def acyclic_def dest: rtrancl_into_trancl2)
    then show "(p, fe_id r) \<notin> (parent_rel db)\<^sup>* \<and> (\<exists>q \<in> set db. fe_id q = p \<and> fe_org q = fe_org r
        \<and> fe_share q = fe_share r \<and> fe_kind q = Folder)"
      using wf_tree_parent [OF ok(1) assms(2)] p assms(7) by metis
  qed
  moreover have "paths_ok (replaceRow db r')"
  proof -
    have path: "\<exists>q' \<in> set (replaceRow db r'). fe_id q' = fe_id q \<and> fe_path q' = fe_path q"
      if "q \<in> set db" for q
      using that assms(2,3,9) distinct_ids_eq [OF ok(4) that assms(2)]
      by (cases "fe_id q = fe_id r") (auto simp: set_replaceRow)
    show ?thesis
      unfolding paths_ok_def
    proof (intro ballI)
      fix x assume "x \<in> set (replaceRow db r')"
      then have "\<exists>y \<in> set db. fe_name x = fe_name y \<and> fe_path x = fe_path y \<and> fe_parent x = fe_parent y"
        using assms by (auto simp: set_replaceRow split: if_splits)
      then obtain y where y: "y \<in> set db" "fe_name x = fe_name y" "fe_path x = fe_path y"
        "fe_parent x = fe_parent y" by blast
      show "CHR ''/'' \<notin> set (fe_name x) \<and> (case fe_parent x of None \<Rightarrow> fe_path x = CHR ''/'' # fe_name x
          | Some p \<Rightarrow> \<exists>q \<in> set (replaceRow db r'). fe_id q = p \<and> fe_path x = fe_path q @ CHR ''/'' # fe_name x)"
        unfolding y(2-4) by (rule paths_ok_step [OF ok(2) y(1)]) (rule path)
    qed
  qed
  ultimately show ?thesis
    using unique_replace [OF ok(4,3) assms(10)] by (simp add: entries_ok_def)
qed

section \<open>A leaf deleted\<close>

lemma delete_ok:
  assumes "entries_ok pg db" and "\<And>x. x \<in> set db \<Longrightarrow> fe_parent x \<noteq> Some i"
  shows "entries_ok pg (filter (\<lambda>r. \<not> (fe_org r = org \<and> fe_id r = i)) db)"
proof -
  note ok = entries_okD [OF assms(1)]
  let ?db = "filter (\<lambda>r. \<not> (fe_org r = org \<and> fe_id r = i)) db"
  have "parents_ok ?db"
    using ok(1) assms(2) unfolding wf_tree_def parents_ok_def by fastforce
  moreover have "acyclic (parent_rel ?db)"
    using ok(1) by (auto simp: wf_tree_def parent_rel_def intro: acyclic_subset)
  ultimately have "wf_tree ?db"
    using ok(4) by (simp add: wf_tree_def distinct_map_filter)
  moreover have "paths_ok ?db"
    unfolding paths_ok_def
  proof
    fix x assume "x \<in> set ?db"
    then have x: "x \<in> set db" by simp
    then show "CHR ''/'' \<notin> set (fe_name x) \<and> (case fe_parent x of None \<Rightarrow> fe_path x = CHR ''/'' # fe_name x
        | Some p \<Rightarrow> \<exists>q \<in> set ?db. fe_id q = p \<and> fe_path x = fe_path q @ CHR ''/'' # fe_name x)"
      by (rule paths_ok_step [OF ok(2)]) (use assms(2) [OF x] in auto)
  qed
  moreover have "unique_names pg ?db"
    using ok(3) by (fastforce simp: unique_names_def nameClash_iff)
  ultimately show ?thesis by (simp add: entries_ok_def)
qed

text \<open>Where a row was copied from is no part of the invariant.\<close>

lemma relabel_ok:
  assumes "entries_ok pg db" and "\<And>r. \<exists>c u. f r = r\<lparr>fe_copied_from := c, fe_updated_at := u\<rparr>"
  shows "entries_ok pg (map f db)"
proof -
  note ok = entries_okD [OF assms(1)]
  have same: "fe_id (f r) = fe_id r \<and> fe_org (f r) = fe_org r \<and> fe_share (f r) = fe_share r \<and> fe_kind (f r) = fe_kind r
      \<and> fe_parent (f r) = fe_parent r \<and> fe_name (f r) = fe_name r \<and> fe_path (f r) = fe_path r
      \<and> fe_trashed_at (f r) = fe_trashed_at r" for r
    using assms(2) [of r] by auto
  have "parents_ok (map f db)"
    using ok(1) by (fastforce simp: wf_tree_def parents_ok_def same)
  moreover have "parent_rel (map f db) = parent_rel db"
    unfolding parent_rel_def by (auto simp: same) (metis image_eqI same)
  moreover have "map fe_id (map f db) = map fe_id db" by (simp add: same)
  ultimately have "wf_tree (map f db)" using ok(1) by (simp only: wf_tree_def)
  moreover have "paths_ok (map f db)"
    unfolding paths_ok_def
  proof
    fix x assume "x \<in> set (map f db)"
    then obtain r where r: "r \<in> set db" "x = f r" by auto
    then have x: "fe_name x = fe_name r" "fe_parent x = fe_parent r" "fe_path x = fe_path r" by (simp_all add: same)
    have "CHR ''/'' \<notin> set (fe_name r) \<and> (case fe_parent r of None \<Rightarrow> fe_path r = CHR ''/'' # fe_name r
        | Some p \<Rightarrow> \<exists>q \<in> set (map f db). fe_id q = p \<and> fe_path r = fe_path q @ CHR ''/'' # fe_name r)"
      by (rule paths_ok_step [OF ok(2) r(1)]) (auto simp: same)
    then show "CHR ''/'' \<notin> set (fe_name x) \<and> (case fe_parent x of None \<Rightarrow> fe_path x = CHR ''/'' # fe_name x
        | Some p \<Rightarrow> \<exists>q \<in> set (map f db). fe_id q = p \<and> fe_path x = fe_path q @ CHR ''/'' # fe_name x)"
      unfolding x .
  qed
  moreover have "unique_names pg (map f db)"
    using ok(3) by (auto simp: unique_names_def nameClash_iff sameSlot_def same)
  ultimately show ?thesis by (simp add: entries_ok_def)
qed

section \<open>A row moved\<close>

lemma lineage_reach_conv:
  assumes "distinct (map fe_id db)" and "(i, j) \<in> (parent_rel db)\<^sup>*" and "lineage db (Some i) rs"
  shows "j \<in> fe_id ` set rs"
  using assms(2,3)
proof (induction arbitrary: rs rule: converse_rtrancl_induct)
  case base
  then show ?case by (auto simp: lineage_Some)
next
  case (step i k)
  then obtain r qs where r: "rs = r # qs" "fe_id r = i" "r \<in> set db" "lineage db (fe_parent r) qs"
    by (auto simp: lineage_Some)
  have "fe_parent r = Some k"
    using step(1) r parent_rel_iff [OF assms(1) r(3)] by simp
  then show ?case using step.IH r by simp
qed

lemma treeLevels_val:
  assumes "\<And>r c. r \<in> S \<Longrightarrow> c \<in> set rows \<Longrightarrow> fe_parent c = Some (fe_id r) \<Longrightarrow> c \<in> S \<and> f (g r) c = g c"
  shows "treeLevels n f rows level = Some ls \<Longrightarrow> \<forall>(r, v) \<in> set level. r \<in> S \<and> v = g r \<Longrightarrow>
    \<forall>(r, v) \<in> set (concat ls). r \<in> S \<and> v = g r"
  using assms
proof (induction n f rows level arbitrary: ls rule: treeLevels.induct)
  case (3 n f rows x xs)
  then obtain rest where rest: "treeLevels n f rows (nextLevel f rows (x # xs)) = Some rest"
    and ls: "ls = (x # xs) # rest"
    by auto
  have "\<forall>(r, v) \<in> set (nextLevel f rows (x # xs)). r \<in> S \<and> v = g r"
    using "3.prems"(2,3) by (fastforce simp: nextLevel_def)
  then have "\<forall>(r, v) \<in> set (concat rest). r \<in> S \<and> v = g r"
    using "3.IH" [OF rest] "3.prems"(3) by blast
  then show ?case using "3.prems"(2) unfolding ls by auto
qed auto

lemma lineage_replace:
  "lineage db c rs \<Longrightarrow> fe_id r' \<notin> fe_id ` set rs \<Longrightarrow> lineage (replaceRow db r') c rs"
proof (induction rs arbitrary: c)
  case Nil
  then show ?case by simp
next
  case (Cons r rs)
  then show ?case by (auto simp: set_replaceRow)
qed

lemma row_up_trancl_org:
  assumes "wf_tree db" and "(c, r) \<in> (row_up (in_org org db))\<^sup>*" and "r \<in> set db" and "fe_org r = org"
  shows "c \<in> set db \<and> fe_org c = org"
  using assms(2) by (cases rule: converse_rtranclE) (use assms in \<open>auto simp: row_up_def\<close>)

lemma map_of_by_id:
  "map_of (map (\<lambda>(r, p). (fe_id r, p)) xs) i = Some v \<Longrightarrow> \<exists>y. (y, v) \<in> set xs \<and> fe_id y = i"
  by (drule map_of_SomeD) auto

text \<open>The value the rebuild computes for a row: the path of its lineage.\<close>

definition truePath :: "table \<Rightarrow> FileEntryRow \<Rightarrow> string" where
  "truePath db r = linePath (the (walkUp (Suc (length db)) db (Some (fe_id r))))"

lemma truePath_lineage:
  assumes "wf_tree db" and "lineage db (Some (fe_id r)) rs"
  shows "truePath db r = linePath rs"
  using walkUp_enough [OF _ assms(2)] assms(1) by (simp add: truePath_def wf_tree_def)

lemma truePath_child:
  assumes "wf_tree db" and "c \<in> set db" and "r \<in> set db" and "fe_parent c = Some (fe_id r)"
  shows "truePath db c = truePath db r @ CHR ''/'' # fe_name c"
proof -
  obtain rs where rs: "lineage db (Some (fe_id r)) (r # rs)"
    using wf_tree_has_lineage [OF assms(1,3)] by blast
  then have "lineage db (Some (fe_id c)) (c # r # rs)"
    using assms by simp
  then have "truePath db c = linePath (c # r # rs)" and "truePath db r = linePath (r # rs)"
    using truePath_lineage [OF assms(1)] rs by blast+
  then show ?thesis by (simp add: linePath_Cons [of c])
qed

lemma rebuild_total:
  assumes wf: "wf_tree db" and "w_entries w = db" and "r \<in> set db" and "fe_org r = org"
    and path: "fe_path r = truePath db r"
  shows "\<exists>h. rebuildSubtreePaths org (fe_id r) w = Inr ((), w\<lparr>w_entries := map h db\<rparr>)
     \<and> (\<forall>x \<in> set db. h x =
          (if x \<noteq> r \<and> (x, r) \<in> (row_up (in_org org db))\<^sup>* \<and> fe_path x \<noteq> truePath db x
           then x\<lparr>fe_path := truePath db x, fe_updated_at := w_now w\<rparr> else x))"
proof -
  let ?rows = "in_org org db"
  let ?base = "map (\<lambda>x. (x, fe_path x)) (filter (\<lambda>x. fe_id x = fe_id r) ?rows)"
  let ?f = "\<lambda>p c. p @ ''/'' @ fe_name c"
  have dist: "distinct (map fe_id db)" using wf by (simp add: wf_tree_def)
  have base_rows: "set (filter (\<lambda>x. fe_id x = fe_id r) ?rows) = {r}"
    using assms(3,4) distinct_ids_eq [OF dist] by auto
  then have base: "set ?base = {(r, fe_path r)}" by simp
  obtain levels where levels: "treeLevels (Suc (length ?rows)) ?f ?rows ?base = Some levels"
    using treeLevels_enough [OF wf_tree_in_org [OF wf], where n = "length ?rows" and rows = ?rows
        and level = ?base and f = ?f and org1 = org] base assms(3,4) by auto
  have rows: "fst ` set (concat levels) = {c. (c, r) \<in> (row_up ?rows)\<^sup>*}"
    using treeLevels_rows [OF levels] unfolding base by simp
  have vals: "\<forall>(x, v) \<in> set (concat levels). x \<in> set db \<and> v = truePath db x"
  proof (rule treeLevels_val [OF _ levels])
    show "\<forall>(x, v) \<in> set ?base. x \<in> set db \<and> v = truePath db x"
      unfolding base using assms(3) path by simp
    show "c \<in> set db \<and> ?f (truePath db x) c = truePath db c"
      if "x \<in> set db" "c \<in> set ?rows" "fe_parent c = Some (fe_id x)" for x c
      using truePath_child [OF wf _ that(1,3)] that(2) by simp
  qed
  let ?paths = "map_of (map (\<lambda>(r, p). (fe_id r, p)) (concat levels))"
  have paths: "?paths (fe_id x) =
      (if (x, r) \<in> (row_up ?rows)\<^sup>* then Some (truePath db x) else None)" if x: "x \<in> set db" for x
  proof (cases "(x, r) \<in> (row_up ?rows)\<^sup>*")
    case True
    then obtain v where "(x, v) \<in> set (concat levels)" using rows by force
    then have "fe_id x \<in> fst ` set (map (\<lambda>(r, p). (fe_id r, p)) (concat levels))"
      by (intro image_eqI [of _ fst "(fe_id x, v)"]) (force simp del: set_concat)+
    then have "?paths (fe_id x) \<noteq> None"
      by (simp only: map_of_eq_None_iff not_not)
    then obtain v where v: "?paths (fe_id x) = Some v" by blast
    obtain y where y: "(y, v) \<in> set (concat levels)" "fe_id y = fe_id x"
      using map_of_by_id [OF v] by (elim exE conjE) (rule that)
    then have "y \<in> set db" "v = truePath db y" using bspec [OF vals y(1)] by simp_all
    moreover from this(1) have "y = x" using distinct_ids_eq [OF dist _ x] y(2) by simp
    ultimately have "v = truePath db x" by simp
    then show ?thesis using True v by simp
  next
    case False
    have "?paths (fe_id x) = None"
    proof (rule ccontr)
      assume "?paths (fe_id x) \<noteq> None"
      then obtain v where v: "?paths (fe_id x) = Some v" by blast
      obtain y where y: "(y, v) \<in> set (concat levels)" "fe_id y = fe_id x"
        using map_of_by_id [OF v] by (elim exE conjE) (rule that)
      then have "y \<in> set db" using bspec [OF vals y(1)] by simp
      then have "y = x" using distinct_ids_eq [OF dist _ x] y(2) by simp
      then have "x \<in> fst ` set (concat levels)" using y(1) by (intro image_eqI [of _ fst "(x, v)"]) simp_all
      then show False using False rows by simp
    qed
    then show ?thesis using False by simp
  qed
  let ?h = "\<lambda>x. case ?paths (fe_id x) of None \<Rightarrow> x
      | Some p \<Rightarrow> if fe_org x = org \<and> fe_id x \<noteq> fe_id r \<and> fe_path x \<noteq> p
                  then x\<lparr>fe_path := p, fe_updated_at := w_now w\<rparr> else x"
  have "rebuildSubtreePaths org (fe_id r) w = Inr ((), w\<lparr>w_entries := map ?h db\<rparr>)"
    using levels by (simp add: rebuildSubtreePaths_def Let_def assms(2))
  moreover have "?h x = (if x \<noteq> r \<and> (x, r) \<in> (row_up ?rows)\<^sup>* \<and> fe_path x \<noteq> truePath db x
           then x\<lparr>fe_path := truePath db x, fe_updated_at := w_now w\<rparr> else x)" if x: "x \<in> set db" for x
  proof (cases "(x, r) \<in> (row_up ?rows)\<^sup>*")
    case True
    have "fe_org x = org"
      using row_up_trancl_org [OF wf True assms(3,4)] by simp
    moreover have "fe_id x \<noteq> fe_id r \<longleftrightarrow> x \<noteq> r"
      using distinct_ids_eq [OF dist x assms(3)] by blast
    ultimately show ?thesis using True paths [OF x] by simp
  next
    case False
    then show ?thesis using paths [OF x] by simp
  qed
  ultimately show ?thesis by blast
qed

text \<open>Everything about a row but its path and its \<open>updated_at\<close>.\<close>

definition strip :: "FileEntryRow \<Rightarrow> FileEntryRow" where
  "strip r = r\<lparr>fe_path := [], fe_updated_at := 0\<rparr>"

lemma strip_fields:
  assumes "strip a = strip b"
  shows "fe_id a = fe_id b" "fe_org a = fe_org b" "fe_share a = fe_share b" "fe_parent a = fe_parent b"
    "fe_kind a = fe_kind b" "fe_name a = fe_name b" "fe_trashed_at a = fe_trashed_at b"
    "fe_size a = fe_size b"
  using assms by (cases a; cases b; simp add: strip_def)+

lemma parent_rel_bex: "parent_rel db = {(a, p). \<exists>r \<in> set db. fe_id r = a \<and> fe_parent r = Some p}"
  by (auto simp: parent_rel_def)

lemma strip_map:
  assumes "\<forall>x \<in> set db. strip (h x) = strip x"
  shows "wf_tree db \<Longrightarrow> wf_tree (map h db)" and "unique_names pg db \<Longrightarrow> unique_names pg (map h db)"
proof -
  have f: "fe_id (h x) = fe_id x" "fe_org (h x) = fe_org x" "fe_share (h x) = fe_share x"
    "fe_parent (h x) = fe_parent x" "fe_kind (h x) = fe_kind x" "fe_name (h x) = fe_name x"
    "fe_trashed_at (h x) = fe_trashed_at x" if "x \<in> set db" for x
    using strip_fields [of "h x" x] assms that by simp_all
  have ids: "map fe_id (map h db) = map fe_id db" using f(1) by simp
  have rel: "parent_rel (map h db) = parent_rel db"
    unfolding parent_rel_bex by (auto simp: f)
  show "wf_tree (map h db)" if wfdb: "wf_tree db"
  proof -
    have "parents_ok (map h db)"
      unfolding parents_ok_def
    proof (intro ballI allI impI)
      fix y p assume "y \<in> set (map h db)" and p: "fe_parent y = Some p"
      then obtain x where x: "x \<in> set db" "y = h x" by auto
      then obtain q where "q \<in> set db" "fe_id q = p" "fe_org q = fe_org x" "fe_share q = fe_share x"
        "fe_kind q = Folder"
        using wf_tree_parent [OF wfdb x(1), of p] p f(4) [OF x(1)] x(2) by metis
      then show "\<exists>q \<in> set (map h db). fe_id q = p \<and> fe_org q = fe_org y \<and> fe_share q = fe_share y
          \<and> fe_kind q = Folder"
        using f x by (intro bexI [of _ "h q"]) auto
    qed
    then show ?thesis using wfdb unfolding wf_tree_def ids rel by blast
  qed
  show "unique_names pg (map h db)" if "unique_names pg db"
    unfolding unique_names_def
  proof
    fix y assume "y \<in> set (map h db)"
    then obtain x where x: "x \<in> set db" "y = h x" by auto
    have "nameClash pg (map h db) y \<longleftrightarrow> nameClash pg db x"
      using f x by (auto simp: nameClash_iff sameSlot_def)
    then show "\<not> nameClash pg (map h db) y"
      using that x by (simp add: unique_names_def)
  qed
qed

lemma move_truePath:
  assumes "entries_ok pg db" and "r \<in> set db" and id_eq: "fe_id r' = fe_id r"
    and wf1: "wf_tree (replaceRow db r')" and "placed db r'"
    and away: "\<And>p. fe_parent r' = Some p \<Longrightarrow> (p, fe_id r) \<notin> (parent_rel db)\<^sup>*"
  shows "truePath (replaceRow db r') r' = fe_path r'"
proof -
  note ok = entries_okD [OF assms(1)]
  let ?db1 = "replaceRow db r'"
  have r'_in: "r' \<in> set ?db1" using assms(2,3) by (auto simp: set_replaceRow)
  show ?thesis
  proof (cases "fe_parent r'")
    case None
    then have "lineage ?db1 (Some (fe_id r')) [r']" using r'_in by simp
    from truePath_lineage [OF wf1 this] show ?thesis
      using assms(5) None by (simp add: placed_def linePath_Cons)
  next
    case (Some p)
    then obtain q where q: "q \<in> set db" "fe_id q = p" "fe_path r' = fe_path q @ CHR ''/'' # fe_name r'"
      using assms(5) by (auto simp: placed_def)
    obtain qs where qs: "lineage db (Some (fe_id q)) (q # qs)"
      using wf_tree_has_lineage [OF ok(1) q(1)] by blast
    have "fe_id r \<notin> fe_id ` set (q # qs)"
      using lineage_reach [OF qs] away [OF Some] q(2) by auto
    then have lin: "lineage ?db1 (Some (fe_id q)) (q # qs)"
      using lineage_replace [OF qs] id_eq by simp
    then have "q \<in> set ?db1" by simp
    moreover have "truePath ?db1 q = fe_path q"
    proof -
      have "fe_path q = linePath (q # qs)"
        using paths_ok_lineage [OF ok(1)] ok(2) qs by blast
      then show ?thesis using truePath_lineage [OF wf1 lin] by (simp only:)
    qed
    ultimately show ?thesis
      using truePath_child [OF wf1 r'_in, of q] Some q by simp
  qed
qed

lemma row_up_unique:
  assumes "wf_tree db" and "(x, r) \<in> (row_up rows)\<^sup>+" and "set rows \<subseteq> set db" and "r \<in> set db"
    and "q \<in> set db" and "fe_parent x = Some (fe_id q)"
  shows "(q, r) \<in> (row_up rows)\<^sup>*"
proof -
  obtain y where y: "(x, y) \<in> row_up rows" "(y, r) \<in> (row_up rows)\<^sup>*"
    using assms(2) by (meson tranclD)
  have "y \<in> set db"
    using y(2) assms(3,4) by (cases rule: converse_rtranclE) (auto simp: row_up_def)
  moreover have "fe_id y = fe_id q"
    using y(1) assms(6) by (simp add: row_up_def)
  ultimately have "y = q"
    using distinct_ids_eq assms(1,5) by (auto simp: wf_tree_def)
  with y show ?thesis by simp
qed

lemma row_up_acyclic:
  assumes "wf_tree db" and "(x, y) \<in> (row_up db)\<^sup>+"
  shows "fe_id x \<noteq> fe_id y"
proof -
  have "(fe_id x, fe_id y) \<in> (parent_rel db)\<^sup>+"
    using assms(2)
  proof (induction rule: trancl_induct)
    case (base y)
    then show ?case by (auto simp: row_up_def parent_rel_def)
  next
    case (step y z)
    then have "(fe_id y, fe_id z) \<in> parent_rel db" by (auto simp: row_up_def parent_rel_def)
    with step show ?case by simp
  qed
  then show ?thesis using assms(1) by (auto simp: wf_tree_def acyclic_def)
qed

lemma move_ok:
  assumes "entries_ok pg db" and "r \<in> set db" and "fe_id r' = fe_id r" and "fe_org r' = fe_org r"
    and "fe_share r' = fe_share r" and "fe_kind r' = fe_kind r" and "placed db r'"
    and away: "\<And>p. fe_parent r' = Some p \<Longrightarrow> (p, fe_id r) \<notin> (parent_rel db)\<^sup>*"
    and "\<not> nameClash pg db r'" and "w_entries w = replaceRow db r'"
  shows "\<exists>db2. rebuildSubtreePaths (fe_org r) (fe_id r) w = Inr ((), w\<lparr>w_entries := db2\<rparr>)
     \<and> entries_ok pg db2 \<and> r' \<in> set db2 \<and> map strip db2 = map strip (replaceRow db r')"
proof -
  note ok = entries_okD [OF assms(1)]
  let ?db1 = "replaceRow db r'"
  let ?up = "row_up (in_org (fe_org r) ?db1)"
  have wf1: "wf_tree ?db1"
    using assms(7) away assms(4,5) by (intro replace_wf [OF ok(1) assms(2-6)]) (auto simp: placed_def)
  have r'_in: "r' \<in> set ?db1" using assms(2,3) by (auto simp: set_replaceRow)
  have dist1: "distinct (map fe_id ?db1)" using wf1 by (simp add: wf_tree_def)
  have true_r': "truePath ?db1 r' = fe_path r'"
    by (rule move_truePath [OF assms(1-3) wf1 assms(7) away])
  obtain h where h: "rebuildSubtreePaths (fe_org r) (fe_id r') w = Inr ((), w\<lparr>w_entries := map h ?db1\<rparr>)"
    and h_eq: "\<And>x. x \<in> set ?db1 \<Longrightarrow> h x =
          (if x \<noteq> r' \<and> (x, r') \<in> ?up\<^sup>* \<and> fe_path x \<noteq> truePath ?db1 x
           then x\<lparr>fe_path := truePath ?db1 x, fe_updated_at := w_now w\<rparr> else x)"
    using rebuild_total [OF wf1 assms(10) r'_in assms(4) true_r' [symmetric]] by blast
  have in_old: "x \<in> set db" if "x \<in> set ?db1" "x \<noteq> r'" for x
    using that by (auto simp: set_replaceRow split: if_splits)
  have strip_h: "\<forall>x \<in> set ?db1. strip (h x) = strip x"
  proof
    fix x assume x: "x \<in> set ?db1"
    show "strip (h x) = strip x"
      unfolding h_eq [OF x] strip_def by simp
  qed
  have inside: "fe_path (h x) = truePath ?db1 x" if "x \<in> set ?db1" "(x, r') \<in> ?up\<^sup>*" for x
    using that true_r' by (cases "x = r'") (simp_all add: h_eq)
  have outside: "h x = x" if "x \<in> set ?db1" "(x, r') \<notin> ?up\<^sup>*" for x
    using that by (simp add: h_eq)
  have no_slash: "CHR ''/'' \<notin> set (fe_name x)" if "x \<in> set ?db1" for x
    using that in_old [OF that] ok(2) assms(7) by (cases "x = r'") (auto simp: paths_ok_def placed_def)
  have "paths_ok (map h ?db1)"
    unfolding paths_ok_def
  proof
    fix y assume "y \<in> set (map h ?db1)"
    then obtain x where x: "x \<in> set ?db1" "y = h x" by auto
    have fields: "fe_name y = fe_name x" "fe_parent y = fe_parent x"
    proof -
      have "strip y = strip x" using strip_h x by simp
      then show "fe_name y = fe_name x" "fe_parent y = fe_parent x" by (rule strip_fields)+
    qed
    have "case fe_parent x of None \<Rightarrow> fe_path (h x) = CHR ''/'' # fe_name x
        | Some p \<Rightarrow> \<exists>q \<in> set (map h ?db1). fe_id q = p \<and> fe_path (h x) = fe_path q @ CHR ''/'' # fe_name x"
    proof (cases "fe_parent x")
      case None
      have hx: "h x = x"
      proof (cases "x = r'")
        case True
        then show ?thesis using h_eq [OF x(1)] by simp
      next
        case False
        then have "(x, r') \<notin> ?up\<^sup>*"
          using None by (auto simp: row_up_def elim: converse_rtranclE)
        then show ?thesis by (rule outside [OF x(1)])
      qed
      have "fe_path x = CHR ''/'' # fe_name x"
        using assms(7) None in_old [OF x(1)] ok(2)
        by (cases "x = r'") (auto simp: placed_def paths_ok_def)
      then show ?thesis using None hx by simp
    next
      case (Some p)
      obtain q where q: "q \<in> set ?db1" "fe_id q = p" "fe_org q = fe_org x"
        using wf_tree_parent [OF wf1 x(1) Some] by metis
      have id_hq: "fe_id (h q) = p"
        using strip_fields(1) [of "h q" q] strip_h q by simp
      have up_org: "(x, q) \<in> ?up \<longleftrightarrow> fe_org x = fe_org r"
        using x(1) Some q by (simp add: row_up_def)
      have in_iff: "(x, r') \<in> ?up\<^sup>* \<longleftrightarrow> (q, r') \<in> ?up\<^sup>*" if "x \<noteq> r'"
      proof
        assume "(x, r') \<in> ?up\<^sup>*"
        then have "(x, r') \<in> ?up\<^sup>+" using that by (simp add: rtrancl_eq_or_trancl)
        then show "(q, r') \<in> ?up\<^sup>*"
          using row_up_unique [OF wf1 _ _ r'_in q(1), of x] Some q(2) by auto
      next
        assume qr: "(q, r') \<in> ?up\<^sup>*"
        then have "fe_org q = fe_org r"
          using row_up_trancl_org [OF wf1 qr r'_in assms(4)] by simp
        then show "(x, r') \<in> ?up\<^sup>*"
          using up_org q(3) qr by (auto intro: converse_rtrancl_into_rtrancl)
      qed
      have "fe_path (h x) = fe_path (h q) @ CHR ''/'' # fe_name x"
      proof (cases "x = r'")
        case True
        obtain q0 where q0: "q0 \<in> set db" "fe_id q0 = p" "fe_path r' = fe_path q0 @ CHR ''/'' # fe_name r'"
          using assms(7) Some True by (auto simp: placed_def)
        have "p \<noteq> fe_id r" using away [of p] Some True by auto
        then have "q \<noteq> r'" using q(2) assms(3) by auto
        then have "q = q0"
          using in_old [OF q(1)] distinct_ids_eq [OF ok(4) _ q0(1)] q(2) q0(2) by simp
        moreover have "(q, r') \<notin> ?up\<^sup>*"
        proof
          assume "(q, r') \<in> ?up\<^sup>*"
          moreover have "(r', q) \<in> ?up"
            using up_org True assms(4) by simp
          ultimately have "(r', r') \<in> ?up\<^sup>+" by simp
          moreover have "?up \<subseteq> row_up ?db1" by (auto simp: row_up_def)
          ultimately have "(r', r') \<in> (row_up ?db1)\<^sup>+"
            using trancl_mono by blast
          then show False using row_up_acyclic [OF wf1] by blast
        qed
        ultimately show ?thesis
          using outside [OF q(1)] q0(3) True h_eq [OF x(1)] by simp
      next
        case x_ne: False
        show ?thesis
        proof (cases "(x, r') \<in> ?up\<^sup>*")
          case True
          then show ?thesis
            using inside [OF x(1)] inside [OF q(1)] in_iff [OF x_ne] truePath_child [OF wf1 x(1) q(1)] Some q(2)
            by simp
        next
          case False
          then have "(q, r') \<notin> ?up\<^sup>*" using in_iff [OF x_ne] by simp
          moreover from this have "q \<noteq> r'" by auto
          moreover obtain q0 where "q0 \<in> set db" "fe_id q0 = p" "fe_path x = fe_path q0 @ CHR ''/'' # fe_name x"
            using paths_okD [OF ok(2) in_old [OF x(1) x_ne] Some] by metis
          moreover from this have "q = q0" if "q \<noteq> r'"
            using distinct_ids_eq [OF ok(4) in_old [OF q(1) that]] q(2) by simp
          ultimately show ?thesis
            using outside [OF x(1) False] outside [OF q(1)] by simp
        qed
      qed
      then show ?thesis using Some q(1) id_hq by auto
    qed
    then show "CHR ''/'' \<notin> set (fe_name y) \<and> (case fe_parent y of None \<Rightarrow> fe_path y = CHR ''/'' # fe_name y
        | Some p \<Rightarrow> \<exists>q \<in> set (map h ?db1). fe_id q = p \<and> fe_path y = fe_path q @ CHR ''/'' # fe_name y)"
      unfolding fields using no_slash [OF x(1)] unfolding x(2) by blast
  qed
  then have "entries_ok pg (map h ?db1)"
    using strip_map [OF strip_h] wf1 unique_replace [OF ok(4,3) assms(9)] by (simp add: entries_ok_def)
  moreover have "map strip (map h ?db1) = map strip ?db1"
    using strip_h by simp
  moreover have "r' \<in> set (map h ?db1)"
    using r'_in h_eq [OF r'_in] by force
  ultimately show ?thesis using h assms(3) by auto
qed

end
