(* ===== verification/FileSpecs.thy ===== *)
theory FileSpecs
  imports FileTable FileTrash
begin

text \<open>
  What each operation does to the table \<open>file_entries\<close>, for every behaviour of the agent and every
  failure of the database: triples from a given table. \<open>keeps\<close> marks the calls that do not write it.
\<close>

named_theorems keeps_rules

definition keeps :: "('d, 'a) op \<Rightarrow> bool" where
  "keeps m \<longleftrightarrow> (\<forall>w. w_entries (snd (m w)) = w_entries w \<and> w_seq (snd (m w)) = w_seq w
     \<and> w_now (snd (m w)) = w_now w)"

definition at :: "table \<Rightarrow> nat \<Rightarrow> nat \<Rightarrow> 'd world \<Rightarrow> bool" where
  "at db s t w \<longleftrightarrow> w_entries w = db \<and> w_seq w = s \<and> w_now w = t"

lemma keeps_hoare: "keeps m \<Longrightarrow> hoare (at db s t) m (\<lambda>_. at db s t) (\<lambda>_. at db s t)"
  by (rule hoareI) (metis at_def keeps_def snd_conv)+

section \<open>Calls that leave the table alone\<close>

lemma keeps_ret [keeps_rules]: "keeps (ret a)"
  by (simp add: keeps_def)

lemma keeps_raise [keeps_rules]: "keeps (raise e)"
  by (simp add: keeps_def)

lemma keeps_guard [keeps_rules]: "keeps (guardE b e)"
  by (simp add: keeps_def guardE_def)

lemma keeps_lift [keeps_rules]: "keeps (liftE r)"
  by (simp add: keeps_def)

lemma keeps_seq [keeps_rules]: "keeps m \<Longrightarrow> (\<And>a. keeps (k a)) \<Longrightarrow> keeps (seqE m k)"
  unfolding keeps_def seqE_def by (auto split: prod.splits sum.splits) (metis snd_conv)+

lemma keeps_catch [keeps_rules]: "keeps m \<Longrightarrow> (\<And>e. keeps (h e)) \<Longrightarrow> keeps (catchE m h)"
  unfolding keeps_def catchE_def by (auto split: prod.splits sum.splits) (metis snd_conv)+

lemma keeps_if [keeps_rules]:
  "(b \<Longrightarrow> keeps m) \<Longrightarrow> (\<not> b \<Longrightarrow> keeps n) \<Longrightarrow> keeps (if b then m else n)"
  by simp

lemma keeps_call [keeps_rules]: "keeps (agent_call e req)"
  by (simp add: keeps_def agent_call_def split: prod.splits sum.splits)

lemma keeps_withTenant:
  assumes "\<And>w a w'. body w = Inr (a, w') \<Longrightarrow>
     w_entries w' = w_entries w \<and> w_seq w' = w_seq w \<and> w_now w' = w_now w"
  shows "keeps (withTenant body)"
  unfolding keeps_def withTenant_def
  by (auto split: list.splits option.splits sum.splits dest: assms)

lemma keeps_posix [keeps_rules]: "keeps (posixUidFor org user)"
  unfolding posixUidFor_def
  by (rule keeps_withTenant) (auto simp: bindE_Inr_iff split: option.splits)

lemma keeps_find [keeps_rules]: "keeps (findEntry org i)"
  by (simp add: keeps_def findEntry_def split: option.splits)

lemma keeps_components [keeps_rules]: "keeps (componentsOf org i)"
  by (simp add: keeps_def componentsOf_def Let_def split: option.splits)

lemma keeps_descendant [keeps_rules]: "keeps (isSelfOrDescendant org i j)"
  by (simp add: keeps_def isSelfOrDescendant_def Let_def split: option.splits)

lemma keeps_name_free [keeps_rules]: "keeps (requireNameFree e org share parent name except)"
  by (simp add: keeps_def requireNameFree_def)

lemma keeps_trashed_holding [keeps_rules]: "keeps (trashedEntryHolding e org share parent name)"
  by (simp add: keeps_def trashedEntryHolding_def Let_def split: list.splits)

lemma keeps_ensureLoop [keeps_rules]: "keeps (ensureLoop e share uid ps attempted)"
  by (induction ps arbitrary: attempted) (auto intro!: keeps_rules split: AgentResponse.split)

lemma keeps_ensure [keeps_rules]: "keeps (ensureDirectories e share paths uid)"
  unfolding ensureDirectories_def by (rule keeps_rules)

lemma keeps_createDirectory [keeps_rules]: "keeps (createDirectory e share path uid name)"
  unfolding createDirectory_def Let_def
  by (auto intro!: keeps_rules split: AgentResponse.split)

lemma keeps_moveOnDisk [keeps_rules]: "keeps (moveOnDisk e share src dst name)"
  unfolding moveOnDisk_def by (auto intro!: keeps_rules split: AgentResponse.split)

lemma keeps_upgrade [keeps_rules]: "keeps (upgradeTrashedConflict e org share parent name err)"
  unfolding upgradeTrashedConflict_def
  by (auto intro!: keeps_rules split: file_error.split option.split)

lemma keeps_moveWithRetry [keeps_rules]:
  "keeps (moveWithRetry e org share entry parent name src dst actor)"
  unfolding moveWithRetry_def Let_def
  by (auto intro!: keeps_rules split: file_error.split)

lemma keeps_moveDestination [keeps_rules]: "keeps (moveDestination org parent name)"
  unfolding moveDestination_def by (auto intro!: keeps_rules split: option.split)

lemma keeps_enqueue [keeps_rules]: "keeps (enqueueAclApply org share i)"
  unfolding enqueueAclApply_def by (intro keeps_rules keeps_withTenant) auto

lemma keeps_tryCall [keeps_rules]: "keeps (tryCall e req)"
  unfolding tryCall_def by (intro keeps_rules)

lemma keeps_moveToTheBin [keeps_rules]: "keeps (moveToTheBin e org share cs d u)"
  unfolding moveToTheBin_def Let_def
  by (auto intro!: keeps_rules split: AgentResponse.split option.split)

lemma keeps_sweep:
  "keeps (sweepUnknown n e share parts)" "keeps (sweepEntries n e share parts xs k)"
proof (induction n e share parts and n e share parts xs k rule: sweepUnknown_sweepEntries.induct)
  case (1 e share parts)
  then show ?case by (simp only: sweepUnknown.simps keeps_ret)
next
  case (2 n e share parts)
  then show ?case by (auto intro!: keeps_rules split: AgentResponse.split)
next
  case (3 n e share parts k)
  then show ?case by (simp only: sweepEntries.simps keeps_ret)
next
  case (4 n e share parts x xs k)
  show ?case
    unfolding sweepEntries.simps Let_def
    by (intro keeps_rules) (simp_all add: 4 keeps_ret)
qed

declare keeps_sweep [keeps_rules]

section \<open>Reading the table\<close>

lemma hoare_find:
  "hoare (at db s t) (findEntry org i)
     (\<lambda>r w. at db s t w \<and> r \<in> set db \<and> fe_org r = org \<and> fe_id r = i) (\<lambda>_. at db s t)"
proof (rule hoareI)
  fix w r w' assume w: "at db s t w" and "findEntry org i w = (Inr r, w')"
  then have "row_at (in_org org db) i = Some r" "w' = w"
    by (auto simp: findEntry_def at_def split: option.splits)
  then show "at db s t w' \<and> r \<in> set db \<and> fe_org r = org \<and> fe_id r = i"
    using w row_at_Some by fastforce
next
  fix w err w' assume "at db s t w" and "findEntry org i w = (Inl err, w')"
  then show "at db s t w'"
    by (auto simp: findEntry_def split: option.splits)
qed

lemma hoare_keeps_seq:
  assumes "keeps m" and "\<And>a. hoare (at db s t) (k a) Q (\<lambda>_. at db s t)"
  shows "hoare (at db s t) (seqE m k) Q (\<lambda>_. at db s t)"
  by (rule hoare_seq [OF keeps_hoare [OF assms(1)]]) (rule assms(2))

lemma hoare_pure_seq:
  assumes "\<And>a. F a \<Longrightarrow> hoare (at db s t) (k a) Q (\<lambda>_. at db s t)"
    and "hoare (at db s t) m (\<lambda>a w. at db s t w \<and> F a) (\<lambda>_. at db s t)"
  shows "hoare (at db s t) (seqE m k) Q (\<lambda>_. at db s t)"
proof (rule hoare_seq [OF assms(2)])
  show "hoare (\<lambda>w. at db s t w \<and> F a) (k a) Q (\<lambda>_. at db s t)" for a
    using assms(1) [of a] by (auto simp: hoare_def)
qed

lemma hoare_guard_seq:
  assumes "b \<Longrightarrow> hoare (at db s t) (k ()) Q (\<lambda>_. at db s t)"
  shows "hoare (at db s t) (seqE (guardE b err) k) Q (\<lambda>_. at db s t)"
  using assms by (auto simp: hoare_def)

lemma assertValidName_no_slash: "assertValidName name = Inr u \<Longrightarrow> CHR ''/'' \<notin> set name"
  by (auto simp: assertValidName_def split: if_splits)

lemma hoare_lift_seq:
  assumes "\<And>a. r = Inr a \<Longrightarrow> hoare (at db s t) (k a) Q (\<lambda>_. at db s t)"
  shows "hoare (at db s t) (seqE (liftE r) k) Q (\<lambda>_. at db s t)"
  using assms by (cases r) (auto simp: hoare_def seqE_def)

section \<open>Creating\<close>

text \<open>What a successful insertion leaves behind.\<close>

definition inserted ::
  "'d env \<Rightarrow> table \<Rightarrow> nat \<Rightarrow> FileEntryRow \<Rightarrow> 'd world \<Rightarrow> bool" where
  "inserted e db s row w \<longleftrightarrow> w_entries w = db @ [row] \<and> w_seq w = Suc s \<and> fe_id row = env_id e s
     \<and> \<not> nameClash (env_pg e) db row \<and> fe_trashed_at row = None"

lemma hoare_withTenant:
  assumes "\<And>w a w'. at db s t w \<Longrightarrow> body w = Inr (a, w') \<Longrightarrow> Q a w'"
  shows "hoare (at db s t) (withTenant body) Q (\<lambda>_. at db s t)"
proof (rule hoareI)
  fix w a w' assume w: "at db s t w" and run: "withTenant body w = (Inr a, w')"
  have here: "at db s t (w\<lparr>w_faults := f\<rparr>)" for f using w by (simp add: at_def)
  show "Q a w'"
  proof (cases "w_faults w")
    case Nil
    then show ?thesis using run assms [OF w] by (auto simp: withTenant_def split: sum.splits)
  next
    case (Cons x xs)
    then show ?thesis
      using run assms [OF here] by (auto simp: withTenant_def split: sum.splits option.splits)
  qed
next
  fix w err w' assume "at db s t w" and "withTenant body w = (Inl err, w')"
  then show "at db s t w'"
    by (auto simp: withTenant_def at_def split: list.splits option.splits sum.splits)
qed

lemma hoare_insert:
  assumes "mk (env_id e s) t = row" and "fe_id row = env_id e s" and "fe_trashed_at row = None"
  shows "hoare (at db s t) (withTenant (insertRow e mk))
     (\<lambda>r w. r = row \<and> inserted e db s row w) (\<lambda>_. at db s t)"
  by (rule hoare_withTenant)
     (use assms in \<open>auto simp: insertRow_def Let_def at_def inserted_def split: if_splits\<close>)

lemma hoare_folderParent:
  "hoare (at db s t) (folderParent org share parent)
     (\<lambda>(path, cs) w. at db s t w \<and>
        (case parent of
           None \<Rightarrow> path = [] \<and> cs = []
         | Some p \<Rightarrow> \<exists>q \<in> set db. fe_id q = p \<and> fe_org q = org \<and> fe_share q = sh_id share
              \<and> fe_kind q = Folder \<and> fe_trashed_at q = None \<and> fe_path q = path))
     (\<lambda>_. at db s t)"
proof (cases parent)
  case None
  then show ?thesis by (simp add: folderParent_def hoare_def)
next
  case (Some p)
  show ?thesis
    unfolding folderParent_def Some option.case
  proof (rule hoare_pure_seq [OF _ hoare_find], intro hoare_guard_seq)
    fix q assume q: "q \<in> set db \<and> fe_org q = org \<and> fe_id q = p" "fe_kind q = Folder"
      "fe_trashed_at q = None" "fe_share q = sh_id share"
    show "hoare (at db s t) (seqE (componentsOf org p) (\<lambda>cs. ret (fe_path q, cs)))
       (\<lambda>(path, cs) w. at db s t w \<and> (\<exists>q \<in> set db. fe_id q = p \<and> fe_org q = org
          \<and> fe_share q = sh_id share \<and> fe_kind q = Folder \<and> fe_trashed_at q = None \<and> fe_path q = path))
       (\<lambda>_. at db s t)"
      by (rule hoare_keeps_seq [OF keeps_components]) (use q in \<open>auto intro!: hoare_ret\<close>)
  qed
qed

end
