(* ===== verification/FileEffects.thy ===== *)
theory FileEffects
  imports FileSpecs
begin

text \<open>
  What every operation of \<open>FilesService\<close> leaves in the table, exactly: a triple per operation, from
  a table \<open>db\<close>. Whatever the agent answers and whichever transaction fails, an operation that throws
  leaves \<open>db\<close> (\<open>purge\<close>, which is a loop of transactions, leaves a part of it).
\<close>

section \<open>Creating a folder, recording a file\<close>

lemma hoare_createFolderRow:
  "hoare (at db s t) (createFolderRow e org share parent name newPath path copied)
     (\<lambda>r w. r = newRow org (sh_id share) parent Folder name newPath 0 None copied (env_id e s) t
        \<and> inserted e db s r w) (\<lambda>_. at db s t)"
  unfolding createFolderRow_def
proof (rule hoare_catch)
  show "hoare (at db s t) (withTenant (insertRow e (newRow org (sh_id share) parent Folder name newPath 0 None copied)))
     (\<lambda>r w. r = newRow org (sh_id share) parent Folder name newPath 0 None copied (env_id e s) t
        \<and> inserted e db s r w) (\<lambda>_. at db s t)"
    by (rule hoare_conseq [OF hoare_insert [OF refl]]) (auto simp: newRow_def)
  show "hoare (at db s t)
     (seqE (catchE (seqE (agent_call e (RemoveEntry (sh_name share) path True)) (\<lambda>_. ret ())) (\<lambda>_. ret ()))
        (\<lambda>_. raise (asNameConflict err name))) Q (\<lambda>_. at db s t)" for err Q
    by (rule hoare_keeps_seq) (auto intro!: keeps_rules hoare_raise)
qed

text \<open>The checked parent of a creation: the path and the components the new name is put under.\<close>

definition parentAnswer :: "table \<Rightarrow> id \<Rightarrow> id \<Rightarrow> id option \<Rightarrow> string \<times> string list \<Rightarrow> bool" where
  "parentAnswer db org share parent a = (case parent of
       None \<Rightarrow> a = ([], [])
     | Some p \<Rightarrow> \<exists>q \<in> set db. fe_id q = p \<and> fe_org q = org \<and> fe_share q = share
          \<and> fe_kind q = Folder \<and> fe_trashed_at q = None \<and> fe_path q = fst a)"

lemma hoare_parentAnswer:
  "hoare (at db s t) (folderParent org share parent)
     (\<lambda>a w. at db s t w \<and> parentAnswer db org (sh_id share) parent a) (\<lambda>_. at db s t)"
  by (rule hoare_conseq [OF hoare_folderParent]) (auto simp: parentAnswer_def split: option.splits prod.splits)

lemma placed_newRow:
  assumes "parentAnswer db org share parent (path, cs)" and "CHR ''/'' \<notin> set name"
  shows "placed db (newRow org share parent kind name (path @ ''/'' @ name) bytes ctype copied i now)"
  using assms by (auto simp: placed_def newRow_def parentAnswer_def split: option.splits)

lemma createFolder_effect:
  "hoare (at db s t) (createFolder e org share parent name actor copied)
     (\<lambda>r w. inserted e db s r w \<and> placed db r
        \<and> (\<exists>path. r = newRow org (sh_id share) parent Folder name path 0 None copied (env_id e s) t)
        \<and> assertValidName name = Inr ()
        \<and> (\<forall>p. parent = Some p \<longrightarrow> (\<exists>q \<in> set db. fe_id q = p \<and> fe_org q = org \<and> fe_trashed_at q = None)))
     (\<lambda>_. at db s t)"
  unfolding createFolder_def
proof (rule hoare_lift_seq, rule hoare_pure_seq [OF _ hoare_parentAnswer], goal_cases)
  case (1 u a)
  obtain path cs where a: "a = (path, cs)" by (cases a)
  note valid = 1(1) [unfolded unit_eq]
  show ?case
    unfolding a prod.case
  proof (intro hoare_keeps_seq, goal_cases)
    case (4 _ _ _)
    show ?case
      by (rule hoare_conseq [OF hoare_createFolderRow])
         (use 1(2) valid a placed_newRow assertValidName_no_slash [OF valid] in
           \<open>auto simp: parentAnswer_def split: option.splits\<close>)
  qed (auto intro!: keeps_rules split: file_error.split option.split)
qed

lemma recordPublishedFile_effect:
  assumes "CHR ''/'' \<notin> set name"
    and "\<And>p. parent = Some p \<Longrightarrow> \<exists>q \<in> set db. fe_id q = p \<and> fe_org q = org \<and> fe_share q = share \<and> fe_kind q = Folder"
    and "distinct (map fe_id db)"
  shows "hoare (at db s t) (recordPublishedFile e org share parent name bytes ctype copied)
     (\<lambda>r w. inserted e db s r w \<and> placed db r
        \<and> (\<exists>path. r = newRow org share parent File name path bytes ctype copied (env_id e s) t))
     (\<lambda>_. at db s t)"
  unfolding recordPublishedFile_def
proof (rule hoare_pure_seq)
  show "hoare (at db s t) (case parent of None \<Rightarrow> ret '''' | Some p \<Rightarrow> seqE (findEntry org p) (\<lambda>q. ret (fe_path q)))
     (\<lambda>path w. at db s t w \<and> (case parent of None \<Rightarrow> path = [] | Some p \<Rightarrow>
         \<exists>q \<in> set db. fe_id q = p \<and> fe_org q = org \<and> fe_path q = path)) (\<lambda>_. at db s t)"
  proof (cases parent)
    case None
    then show ?thesis by (auto intro: hoare_ret)
  next
    case (Some p)
    show ?thesis
      unfolding Some option.case
      by (rule hoare_seq [OF hoare_find], rule hoare_ret) auto
  qed
next
  fix path assume path: "case parent of None \<Rightarrow> path = [] | Some p \<Rightarrow>
         \<exists>q \<in> set db. fe_id q = p \<and> fe_org q = org \<and> fe_path q = path"
  show "hoare (at db s t) (catchE (withTenant (insertRow e
          (newRow org share parent File name (path @ ''/'' @ name) bytes ctype copied)))
       (\<lambda>err. raise (asNameConflict err name)))
     (\<lambda>r w. inserted e db s r w \<and> placed db r
        \<and> (\<exists>path. r = newRow org share parent File name path bytes ctype copied (env_id e s) t))
     (\<lambda>_. at db s t)"
  proof (rule hoare_catch)
    have "placed db (newRow org share parent File name (path @ ''/'' @ name) bytes ctype copied i now)" for i now
    proof (cases parent)
      case None
      then show ?thesis using path assms(1) by (simp add: placed_def newRow_def)
    next
      case (Some p)
      then obtain q q' where "q \<in> set db" "fe_id q = p" "fe_path q = path" "fe_org q = org"
        and "q' \<in> set db" "fe_id q' = p" "fe_share q' = share" "fe_kind q' = Folder"
        using path assms(2) [OF Some] by auto
      moreover from this have "q' = q" using distinct_ids_eq [OF assms(3)] by simp
      ultimately show ?thesis using Some assms(1) by (auto simp: placed_def newRow_def)
    qed
    then show "hoare (at db s t) (withTenant (insertRow e
          (newRow org share parent File name (path @ ''/'' @ name) bytes ctype copied)))
     (\<lambda>r w. inserted e db s r w \<and> placed db r
        \<and> (\<exists>path. r = newRow org share parent File name path bytes ctype copied (env_id e s) t))
     (\<lambda>_. at db s t)"
      by (intro hoare_conseq [OF hoare_insert [OF refl]]) (auto simp: newRow_def)
  qed (rule hoare_raise)
qed

section \<open>Moving\<close>

lemma walkUp_in_org:
  assumes "wf_tree db" and "q \<in> set db" and "fe_org q = org"
  obtains rs where "lineage db (Some (fe_id q)) rs"
    "walkUp (Suc (length (in_org org db))) (in_org org db) (Some (fe_id q)) = Some rs"
proof -
  have wf: "wf_tree (in_org org db)" by (rule wf_tree_in_org [OF assms(1)])
  obtain rs where rs: "lineage (in_org org db) (Some (fe_id q)) (q # rs)"
    using wf_tree_has_lineage [OF wf, of q] assms(2,3) by auto
  show ?thesis
  proof (rule that)
    show "lineage db (Some (fe_id q)) (q # rs)" by (rule lineage_mono [OF rs]) auto
    show "walkUp (Suc (length (in_org org db))) (in_org org db) (Some (fe_id q)) = Some (q # rs)"
      using walkUp_enough [OF _ rs] wf by (simp add: wf_tree_def)
  qed
qed

lemma isSelfOrDescendant_value:
  assumes "wf_tree db" and "q \<in> set db" and "fe_org q = org" and "w_entries w = db"
  shows "isSelfOrDescendant org (fe_id q) i w = (Inr ((fe_id q, i) \<in> (parent_rel db)\<^sup>*), w)"
proof -
  obtain rs where rs: "lineage db (Some (fe_id q)) rs"
    "walkUp (Suc (length (in_org org db))) (in_org org db) (Some (fe_id q)) = Some rs"
    by (rule walkUp_in_org [OF assms(1-3)])
  have "list_ex (\<lambda>r. fe_id r = i) rs \<longleftrightarrow> (fe_id q, i) \<in> (parent_rel db)\<^sup>*"
    using lineage_reach [OF rs(1)] lineage_reach_conv [OF _ _ rs(1)] assms(1)
    by (auto simp: list_ex_iff wf_tree_def)
  then show ?thesis using rs(2) assms(4) by (simp add: isSelfOrDescendant_def Let_def)
qed

text \<open>A checked destination: its path, and that it is not inside what is moved.\<close>

definition targetAnswer :: "table \<Rightarrow> FileEntryRow \<Rightarrow> id option \<Rightarrow> string \<Rightarrow> bool" where
  "targetAnswer db entry parent path = (case parent of
       None \<Rightarrow> path = []
     | Some p \<Rightarrow> (p, fe_id entry) \<notin> (parent_rel db)\<^sup>* \<and> (\<exists>q \<in> set db. fe_id q = p \<and> fe_org q = fe_org entry
          \<and> fe_share q = fe_share entry \<and> fe_kind q = Folder \<and> fe_trashed_at q = None \<and> fe_path q = path))"

lemma file_has_no_children:
  assumes "wf_tree db" and "r \<in> set db" and "fe_kind r = File" and "(p, fe_id r) \<in> (parent_rel db)\<^sup>*"
  shows "p = fe_id r"
  using assms(4)
proof (cases rule: rtranclE)
  case (step k)
  then obtain x where "x \<in> set db" "fe_parent x = Some (fe_id r)" by (auto simp: parent_rel_def)
  then obtain q where "q \<in> set db" "fe_id q = fe_id r" "fe_kind q = Folder"
    using wf_tree_parent [OF assms(1)] by metis
  then show ?thesis
    using distinct_ids_eq [of db q r] assms(1-3) by (simp add: wf_tree_def)
qed simp

lemma descendant_check:
  assumes "wf_tree db" and "q \<in> set db" and "fe_org q = org" and "at db s t w"
  shows "seqE (isSelfOrDescendant org (fe_id q) i) (\<lambda>inside. seqE (guardE (\<not> inside) err) k) w
     = (if (fe_id q, i) \<in> (parent_rel db)\<^sup>* then (Inl err, w) else k () w)"
  using isSelfOrDescendant_value [OF assms(1-3), of w i] assms(4)
  by (simp add: seqE_def [of "isSelfOrDescendant org (fe_id q) i"] at_def)

lemma hoare_moveTarget:
  assumes "wf_tree db" and "entry \<in> set db" and "fe_id entry = i" and "fe_org entry = org"
  shows "hoare (at db s t) (moveTarget org i entry parent)
     (\<lambda>path w. at db s t w \<and> targetAnswer db entry parent path) (\<lambda>_. at db s t)"
proof (cases parent)
  case None
  then show ?thesis by (auto simp: moveTarget_def targetAnswer_def intro: hoare_ret)
next
  case (Some p)
  show ?thesis
    unfolding moveTarget_def Some option.case
  proof (rule hoare_pure_seq [OF _ hoare_find], intro hoare_guard_seq)
    fix q assume q: "q \<in> set db \<and> fe_org q = org \<and> fe_id q = p" "fe_trashed_at q = None"
      "fe_share q = fe_share entry" "fe_kind q = Folder"
    show "hoare (at db s t) (seqE (if fe_kind entry = Folder then isSelfOrDescendant org (fe_id q) i else ret False)
       (\<lambda>inside. seqE (guardE (\<not> inside) (MoveIntoDescendantError (fe_name entry))) (\<lambda>_. ret (fe_path q))))
       (\<lambda>path w. at db s t w \<and> targetAnswer db entry (Some p) path) (\<lambda>_. at db s t)"
    proof -
      have answer: "targetAnswer db entry (Some p) (fe_path q)" if "(p, fe_id entry) \<notin> (parent_rel db)\<^sup>*"
        unfolding targetAnswer_def option.case using q assms(4) that
        by (intro conjI bexI [of _ q]) simp_all
      show ?thesis
      proof (cases "fe_kind entry")
      case Folder
      show ?thesis
        using Folder answer q assms(3) at_def
        by (auto intro!: hoareI simp: descendant_check [OF assms(1)] split: if_splits)
    next
      case File
      have "(p, fe_id entry) \<notin> (parent_rel db)\<^sup>*"
        using file_has_no_children [OF assms(1,2) File, of p] distinct_ids_eq [of db q entry] q assms File
        by (auto simp: wf_tree_def)
      then show ?thesis
        using answer File by (auto simp: hoare_def seqE_def guardE_def)
      qed
    qed
  qed
qed

text \<open>The table after a move: the row rewritten, the paths below it rebuilt, nothing else touched.\<close>

definition moved_to ::
  "pg_text \<Rightarrow> table \<Rightarrow> FileEntryRow \<Rightarrow> id option \<Rightarrow> string \<Rightarrow> FileEntryRow \<Rightarrow> table \<Rightarrow> bool" where
  "moved_to pg db entry parent name r db' \<longleftrightarrow> entries_ok pg db' \<and> r \<in> set db'
     \<and> strip r = strip (entry\<lparr>fe_parent := parent, fe_name := name\<rparr>)
     \<and> map strip db' = map strip (replaceRow db r)"

lemma hoare_writeMove:
  assumes "entries_ok (env_pg e) db" and "entry \<in> set db" and "fe_id entry = i" and "fe_org entry = org"
    and "targetAnswer db entry parent path" and "CHR ''/'' \<notin> set name"
  shows "hoare (at db s t) (withTenant (writeMove e org i parent name (path @ ''/'' @ name)))
     (\<lambda>r w. moved_to (env_pg e) db entry parent name r (w_entries w) \<and> w_seq w = s \<and> w_now w = t)
     (\<lambda>_. at db s t)"
proof (rule hoare_withTenant)
  fix w r w' assume w: "at db s t w"
    and body: "writeMove e org i parent name (path @ ''/'' @ name) w = Inr (r, w')"
  note ok = entries_okD [OF assms(1)]
  let ?hit = "\<lambda>r. fe_org r = org \<and> fe_id r = i \<and> True"
  let ?f = "\<lambda>r. r\<lparr>fe_parent := parent, fe_name := name, fe_path := path @ ''/'' @ name,
                 fe_updated_at := w_now w\<rparr>"
  have find: "List.find ?hit (w_entries w) = Some entry"
  proof -
    have "List.find ?hit (w_entries w) \<noteq> None"
      using w assms(2-4) by (auto simp: at_def find_None_iff)
    then obtain x where x: "List.find ?hit (w_entries w) = Some x" by blast
    then have "x \<in> set db" "fe_id x = i" using w find_eq_Some_ex [OF x] by (auto simp: at_def)
    then show ?thesis using x distinct_ids_eq [OF ok(4) _ assms(2)] assms(3) by simp
  qed
  obtain w1 where noclash: "\<not> nameClash (env_pg e) db (?f entry)"
    and w1: "w1 = w\<lparr>w_entries := updateRows ?hit ?f db\<rparr>"
    and rebuilt: "rebuildSubtreePaths org i w1 = Inr ((), w')" and r: "r = ?f entry"
    using body w find
    by (auto simp: writeMove_def updateRow_def Let_def bindE_Inr_iff at_def split: if_splits)
  have replaced: "updateRows ?hit ?f db = replaceRow db r"
    unfolding r by (rule updateRows_replace [OF ok(4) assms(2)]) (use assms(3,4) in auto)
  have "placed db r"
    using assms(4-6) unfolding r placed_def targetAnswer_def by (auto split: option.splits)
  moreover have "\<And>p. fe_parent r = Some p \<Longrightarrow> (p, fe_id entry) \<notin> (parent_rel db)\<^sup>*"
    using assms(5) unfolding r targetAnswer_def by (auto split: option.splits)
  ultimately obtain db2 where db2: "rebuildSubtreePaths (fe_org entry) (fe_id entry) w1
        = Inr ((), w1\<lparr>w_entries := db2\<rparr>)"
    "entries_ok (env_pg e) db2" "r \<in> set db2" "map strip db2 = map strip (replaceRow db r)"
    using move_ok [OF assms(1,2), of r w1] noclash unfolding r w1 replaced [unfolded r] by auto
  then have "w' = w1\<lparr>w_entries := db2\<rparr>" using rebuilt assms(3,4) by simp
  then show "moved_to (env_pg e) db entry parent name r (w_entries w') \<and> w_seq w' = s \<and> w_now w' = t"
    using db2 w unfolding moved_to_def w1 at_def by (simp add: r strip_def)
qed

lemma keeps_enqueue_after:
  "hoare (\<lambda>w. R (w_entries w) \<and> w_seq w = s \<and> w_now w = t) (enqueueAclApply org share i)
     (\<lambda>_ w. R (w_entries w) \<and> w_seq w = s \<and> w_now w = t) (\<lambda>_ _. False)"
proof (rule hoareI)
  fix w a w' assume w: "R (w_entries w) \<and> w_seq w = s \<and> w_now w = t"
    and run: "enqueueAclApply org share i w = (Inr a, w')"
  show "R (w_entries w') \<and> w_seq w' = s \<and> w_now w' = t"
    using keeps_enqueue [of org share i] w run unfolding keeps_def by (metis snd_conv)
next
  fix w err w' assume "enqueueAclApply org share i w = (Inl err, w' :: 'a world)"
  then show False
    by (auto simp: enqueueAclApply_def catchE_def split: prod.splits sum.splits)
qed

lemma hoare_moveCommit:
  assumes "entries_ok (env_pg e) db" and "entry \<in> set db" and "fe_id entry = i" and "fe_org entry = org"
    and "targetAnswer db entry parent path" and "CHR ''/'' \<notin> set name"
  shows "hoare (at db s t) (moveCommit e org i share entry parent name (path @ ''/'' @ name) src dst)
     (\<lambda>r w. moved_to (env_pg e) db entry parent name r (w_entries w) \<and> w_seq w = s \<and> w_now w = t)
     (\<lambda>_. at db s t)"
  unfolding moveCommit_def
proof (rule hoare_catch)
  let ?Q = "\<lambda>r w. moved_to (env_pg e) db entry parent name r (w_entries w) \<and> w_seq w = s \<and> w_now w = t"
  show "hoare (at db s t)
     (seqE (withTenant (writeMove e org i parent name (path @ ''/'' @ name))) (\<lambda>moved.
        if fe_kind moved = Folder
        then seqE (enqueueAclApply org (sh_id share) i) (\<lambda>_. ret moved) else ret moved))
     ?Q (\<lambda>_. at db s t)"
  proof (rule hoare_seq [OF hoare_writeMove [OF assms]], rule hoare_if)
    show "hoare (?Q a) (ret a) ?Q (\<lambda>_. at db s t)" for a
      by (rule hoare_ret) simp
    show "hoare (?Q a) (seqE (enqueueAclApply org (sh_id share) i) (\<lambda>_. ret a)) ?Q (\<lambda>_. at db s t)" for a
    proof (rule hoare_seq)
      show "hoare (?Q a) (enqueueAclApply org (sh_id share) i) (\<lambda>_. ?Q a) (\<lambda>_. at db s t)"
        by (rule hoare_conseq [OF keeps_enqueue_after]) auto
    qed (rule hoare_ret)
  qed
qed (rule hoare_keeps_seq, auto intro!: keeps_rules hoare_raise)

lemma moved_to_self:
  assumes "entries_ok pg db" and "entry \<in> set db"
  shows "moved_to pg db entry (fe_parent entry) (fe_name entry) entry db"
proof -
  have "replaceRow db entry = db"
    using distinct_ids_eq [OF entries_okD(4) [OF assms(1)] assms(2)]
    by (auto simp: replaceRow_def intro!: map_idI)
  then show ?thesis using assms by (simp add: moved_to_def)
qed

lemma move_effect:
  assumes "entries_ok (env_pg e) db"
  shows "hoare (at db s t) (move e org i share parent newName actor)
     (\<lambda>r w. (\<exists>entry \<in> set db. fe_id entry = i \<and> fe_org entry = org \<and> fe_share entry = sh_id share
          \<and> fe_trashed_at entry = None \<and> moved_to (env_pg e) db entry parent
              (case newName of None \<Rightarrow> fe_name entry | Some n \<Rightarrow> n) r (w_entries w)
          \<and> (\<exists>path. targetAnswer db entry parent path))
        \<and> w_seq w = s \<and> w_now w = t)
     (\<lambda>_. at db s t)"
  unfolding move_def Let_def
proof (rule hoare_pure_seq [OF _ hoare_find], rule hoare_guard_seq, rule hoare_lift_seq,
    rule hoare_pure_seq [OF _ hoare_moveTarget [OF entries_okD(1) [OF assms]]], goal_cases)
  case (1 entry _ path)
  then have entry: "entry \<in> set db" "fe_id entry = i" "fe_org entry = org" by auto
  note slash = assertValidName_no_slash [OF 1(3)] and guarded = 1(2) and target = 1(4)
  show ?case
  proof (rule hoare_if, goal_cases)
    case 1
    then show ?case
      by (intro hoare_ret) (use target guarded entry moved_to_self [OF assms entry(1)] in \<open>auto simp: at_def\<close>)
  next
    case 2
    show ?case
    proof (intro hoare_keeps_seq, goal_cases)
      case (5 _ src dst _)
      show ?case
        by (rule hoare_conseq [OF hoare_moveCommit [OF assms entry target slash]])
           (use target guarded entry in auto)
    qed (auto intro!: keeps_rules split: option.split)
  qed
qed auto

lemma rename_effect:
  assumes "entries_ok (env_pg e) db"
  shows "hoare (at db s t) (rename e org i name share actor allowTrashed)
     (\<lambda>r w. (\<exists>entry \<in> set db. fe_id entry = i \<and> fe_org entry = org \<and> fe_share entry = sh_id share
          \<and> fe_trashed_at entry = None \<and> moved_to (env_pg e) db entry (fe_parent entry) name r (w_entries w))
        \<and> w_seq w = s \<and> w_now w = t)
     (\<lambda>_. at db s t)"
  unfolding rename_def
proof (rule hoare_lift_seq, rule hoare_pure_seq [OF _ hoare_find], rule hoare_guard_seq, goal_cases)
  case (1 _ entry)
  have unique: "x = entry" if "x \<in> set db" "fe_id x = i" for x
    using distinct_ids_eq [OF entries_okD(4) [OF assms], of x entry] that 1 by simp
  show ?case
    by (rule hoare_conseq [OF move_effect [OF assms]]) (use unique in fastforce)+
qed

section \<open>Trash and restore\<close>

text \<open>What one \<open>UPDATE ... RETURNING\<close> of an entry leaves, by the row it returned.\<close>

definition written ::
  "pg_text \<Rightarrow> table \<Rightarrow> nat \<Rightarrow> nat \<Rightarrow> FileEntryRow \<Rightarrow> (FileEntryRow \<Rightarrow> FileEntryRow)
     \<Rightarrow> FileEntryRow option \<Rightarrow> 'd world \<Rightarrow> bool" where
  "written pg db s t entry f found w = (case found of
       None \<Rightarrow> at db s t w
     | Some r \<Rightarrow> w_seq w = s \<and> w_now w = t \<and> \<not> nameClash pg db r \<and> w_entries w = replaceRow db r
         \<and> r = (f entry)\<lparr>fe_updated_at := t\<rparr>)"

lemma hoare_update:
  assumes "distinct (map fe_id db)" and "entry \<in> set db \<and> fe_org entry = org \<and> fe_id entry = i"
    and "\<And>u r. fe_id (f u r) = fe_id r"
  shows "hoare (at db s t) (withTenant (\<lambda>w. updateRow e org i P (f (w_now w)) w))
     (written (env_pg e) db s t entry (f t)) (\<lambda>_. at db s t)"
proof (rule hoare_withTenant)
  fix w found w' assume w: "at db s t w" and run: "updateRow e org i P (f (w_now w)) w = Inr (found, w')"
  show "written (env_pg e) db s t entry (f t) found w'"
  proof (cases "List.find (\<lambda>r. fe_org r = org \<and> fe_id r = i \<and> P r) db")
    case None
    then show ?thesis using w run by (simp add: updateRow_def at_def written_def)
  next
    case (Some x)
    then have "x \<in> set db" "fe_id x = i" "P x"
      using find_eq_Some_ex [OF Some] by auto
    moreover from this have "x = entry"
      using distinct_ids_eq [OF assms(1), of x entry] assms(2) by simp
    ultimately have entry: "entry \<in> set db" "P entry" "x = entry" by auto
    let ?f = "\<lambda>r. (f t r)\<lparr>fe_updated_at := t\<rparr>"
    have "updateRows (\<lambda>r. fe_org r = org \<and> fe_id r = i \<and> P r) ?f db = replaceRow db (?f entry)"
      by (rule updateRows_replace [OF assms(1) entry(1)]) (use entry assms(2,3) in auto)
    then show ?thesis
      using w run Some entry(3) by (auto simp: updateRow_def Let_def at_def written_def split: if_splits)
  qed
qed

lemma trash_effect:
  assumes "distinct (map fe_id db)"
  shows "hoare (at db s t) (trash e org i user share)
     (\<lambda>r w. (\<exists>entry \<in> set db. fe_id entry = i \<and> fe_org entry = org \<and>
          (if fe_trashed_at entry \<noteq> None then r = entry \<and> w_entries w = db
           else w_entries w = replaceRow db r \<and> (\<exists>inBin. r = entry\<lparr>fe_trashed_at := Some t,
                  fe_trashed_by := Some user, fe_recycled := inBin, fe_updated_at := t\<rparr>)))
        \<and> w_seq w = s \<and> w_now w = t)
     (\<lambda>_. at db s t)"
  (is "hoare _ _ ?Q _")
  unfolding trash_def
proof (rule hoare_pure_seq [OF _ hoare_find], rule hoare_if, goal_cases)
  case (1 entry)
  then show ?case by (intro hoare_ret) (auto simp: at_def)
next
  case (2 entry)
  note entry = 2
  show ?case
  proof (rule hoare_keeps_seq [OF keeps_components], rule hoare_keeps_seq [OF keeps_moveToTheBin], goal_cases)
    case (1 components moved)
    show ?case
    proof (rule hoare_seq [OF hoare_update [OF assms entry(1),
        of "\<lambda>now r. r\<lparr>fe_trashed_at := Some now, fe_trashed_by := Some user, fe_recycled := moved\<rparr>"]], goal_cases)
      case (2 found)
      show ?case
      proof (cases found)
        case (Some r)
        show ?thesis
          unfolding Some option.case
          by (rule hoare_ret, intro conjI bexI [of _ entry]) (use entry in \<open>auto simp: written_def\<close>)
      qed (auto simp: written_def intro: hoare_raise)
    qed simp
  qed
qed

lemma restore_effect:
  assumes "distinct (map fe_id db)"
  shows "hoare (at db s t) (restore e org i)
     (\<lambda>r w. (\<exists>entry \<in> set db. fe_id entry = i \<and> fe_org entry = org \<and>
          (if fe_trashed_at entry = None then r = entry \<and> w_entries w = db
           else w_entries w = replaceRow db r \<and> \<not> nameClash (env_pg e) db r
             \<and> r = entry\<lparr>fe_trashed_at := None, fe_trashed_by := None, fe_recycled := False, fe_updated_at := t\<rparr>
             \<and> (\<forall>p. fe_parent entry = Some p \<longrightarrow> (\<exists>q \<in> set db. fe_id q = p \<and> fe_trashed_at q = None))))
        \<and> w_seq w = s \<and> w_now w = t)
     (\<lambda>_. at db s t)"
  (is "hoare _ _ ?Q _")
  unfolding restore_def
proof (rule hoare_pure_seq [OF _ hoare_find], rule hoare_if, goal_cases)
  case (1 entry)
  then show ?case by (intro hoare_ret) (auto simp: at_def)
next
  case (2 entry)
  let ?R = "\<forall>p. fe_parent entry = Some p \<longrightarrow> (\<exists>q \<in> set db. fe_id q = p \<and> fe_trashed_at q = None)"
  note entry = 2
  show ?case
  proof (rule hoare_pure_seq [where F = "\<lambda>_. ?R"])
    show "hoare (at db s t) (case fe_parent entry of None \<Rightarrow> ret ()
        | Some p \<Rightarrow> seqE (findEntry org p) (\<lambda>parent.
            guardE (fe_trashed_at parent = None) (TrashedParentError (fe_name parent))))
       (\<lambda>_ w. at db s t w \<and> ?R) (\<lambda>_. at db s t)"
      by (cases "fe_parent entry")
         (auto intro!: hoare_ret hoare_guard hoare_seq [OF hoare_find])
  next
    assume R: ?R
    show "hoare (at db s t) (catchE
       (seqE (withTenant (updateRow e org i (\<lambda>_. True)
               (\<lambda>r. r\<lparr>fe_trashed_at := None, fe_trashed_by := None, fe_recycled := False\<rparr>))) (\<lambda>found.
        case found of None \<Rightarrow> raise EntryNotFoundError | Some row \<Rightarrow> ret row))
       (\<lambda>err. raise (asNameConflict err (fe_name entry)))) ?Q (\<lambda>_. at db s t)"
    proof (rule hoare_catch, rule hoare_seq [OF hoare_update [OF assms entry(1),
        of "\<lambda>_ r. r\<lparr>fe_trashed_at := None, fe_trashed_by := None, fe_recycled := False\<rparr>"]], goal_cases)
      case (2 found)
      show ?case
      proof (cases found)
        case (Some r)
        show ?thesis
          unfolding Some option.case
          by (rule hoare_ret, intro conjI bexI [of _ entry]) (use entry R in \<open>auto simp: written_def\<close>)
      qed (auto simp: written_def intro: hoare_raise)
    qed (auto intro: hoare_raise)
  qed
qed

section \<open>Permanent deletion\<close>

text \<open>
  \<open>dropAll t org is db\<close>: the rows of the organisation with an id among \<open>is\<close> are gone, and a row that was copied from
  one of them no longer says so and carries the time \<open>t\<close>; all else is as it was.
\<close>

definition goneIds :: "id \<Rightarrow> id set \<Rightarrow> table \<Rightarrow> id set" where
  "goneIds org is db = {i \<in> is. \<exists>r \<in> set db. fe_org r = org \<and> fe_id r = i}"

definition forgetSources :: "nat \<Rightarrow> id set \<Rightarrow> FileEntryRow \<Rightarrow> FileEntryRow" where
  "forgetSources t is r = (case fe_copied_from r of
     None \<Rightarrow> r | Some j \<Rightarrow> if j \<in> is then r\<lparr>fe_copied_from := None, fe_updated_at := t\<rparr> else r)"

definition dropAll :: "nat \<Rightarrow> id \<Rightarrow> id set \<Rightarrow> table \<Rightarrow> table" where
  "dropAll t org is db = map (forgetSources t (goneIds org is db)) (filter (\<lambda>r. \<not> (fe_org r = org \<and> fe_id r \<in> is)) db)"

lemma forgetSources_only: "\<exists>c u. forgetSources t is r = r\<lparr>fe_copied_from := c, fe_updated_at := u\<rparr>"
proof (cases "\<exists>j \<in> is. fe_copied_from r = Some j")
  case True
  then have "forgetSources t is r = r\<lparr>fe_copied_from := None, fe_updated_at := t\<rparr>" by (auto simp: forgetSources_def)
  then show ?thesis by blast
next
  case False
  then have "forgetSources t is r = r\<lparr>fe_copied_from := fe_copied_from r, fe_updated_at := fe_updated_at r\<rparr>"
    by (auto simp: forgetSources_def split: option.split)
  then show ?thesis by blast
qed

lemma forgetSources_fields [simp]:
  "fe_id (forgetSources t is r) = fe_id r" "fe_org (forgetSources t is r) = fe_org r"
  "fe_parent (forgetSources t is r) = fe_parent r"
  by (simp_all add: forgetSources_def split: option.split)

lemma forgetSources_empty [simp]: "forgetSources t {} = id"
  by (rule ext) (simp add: forgetSources_def split: option.split)

lemma forgetSources_forgetSources [simp]: "forgetSources t js (forgetSources t is r) = forgetSources t (is \<union> js) r"
  by (auto simp: forgetSources_def split: option.splits)

lemma in_dropAll: "x \<in> set (dropAll t org is db) \<longleftrightarrow>
    (\<exists>r \<in> set db. \<not> (fe_org r = org \<and> fe_id r \<in> is) \<and> x = forgetSources t (goneIds org is db) r)"
  by (auto simp: dropAll_def)

lemma dropAll_has: "(\<exists>x \<in> set (dropAll t org is db). fe_org x = oo \<and> fe_id x = i)
    \<longleftrightarrow> (\<exists>r \<in> set db. \<not> (fe_org r = org \<and> fe_id r \<in> is) \<and> fe_org r = oo \<and> fe_id r = i)"
  by (auto simp: dropAll_def)

lemma dropAll_nothing: "goneIds org is db = {} \<Longrightarrow> dropAll t org is db = db"
proof -
  assume none: "goneIds org is db = {}"
  then have "filter (\<lambda>r. \<not> (fe_org r = org \<and> fe_id r \<in> is)) db = db"
    by (auto simp: goneIds_def filter_id_conv)
  then show ?thesis by (simp add: dropAll_def none)
qed

lemma dropAll_empty [simp]: "dropAll t org {} db = db"
  by (rule dropAll_nothing) (simp add: goneIds_def)

lemma goneIds_dropAll: "goneIds org is db \<union> goneIds org js (dropAll t org is db) = goneIds org (is \<union> js) db"
  unfolding goneIds_def dropAll_has by blast

lemma dropAll_dropAll: "dropAll t org js (dropAll t org is db) = dropAll t org (is \<union> js) db"
proof -
  let ?f = "forgetSources t (goneIds org is db)" and ?g = "forgetSources t (goneIds org js (dropAll t org is db))"
  have "dropAll t org js (dropAll t org is db)
      = map ?g (map ?f (filter (\<lambda>r. \<not> (fe_org r = org \<and> fe_id r \<in> js)) (filter (\<lambda>r. \<not> (fe_org r = org \<and> fe_id r \<in> is)) db)))"
    by (subst dropAll_def [of t org js], subst (2) dropAll_def) (simp add: filter_map comp_def)
  also have "\<dots> = map (forgetSources t (goneIds org (is \<union> js) db)) (filter (\<lambda>r. \<not> (fe_org r = org \<and> fe_id r \<in> is \<union> js)) db)"
    by (simp add: goneIds_dropAll comp_def) (rule arg_cong [where f = "map _"], rule filter_cong, auto)
  finally show ?thesis by (simp only: dropAll_def)
qed

lemma dropAll_ok_leaf:
  assumes "entries_ok pg db" and "goneIds org {i} db \<noteq> {} \<Longrightarrow> \<forall>x \<in> set db. fe_parent x \<noteq> Some i"
  shows "entries_ok pg (dropAll t org {i} db)"
proof (cases "goneIds org {i} db = {}")
  case True
  then show ?thesis using assms(1) by (simp add: dropAll_nothing)
next
  case False
  have "entries_ok pg (filter (\<lambda>r. \<not> (fe_org r = org \<and> fe_id r = i)) db)"
    by (rule delete_ok [OF assms(1)]) (use assms(2) False in blast)
  from relabel_ok [OF this forgetSources_only] show ?thesis by (simp add: dropAll_def)
qed

text \<open>One \<open>DELETE\<close> of a row with no children.\<close>

abbreviation leaf :: "id \<Rightarrow> id \<Rightarrow> table \<Rightarrow> bool" where
  "leaf org i db \<equiv> goneIds org {i} db \<noteq> {} \<longrightarrow> (\<forall>x \<in> set db. fe_parent x \<noteq> Some i)"

lemma deleteEntry_eq:
  "deleteEntry t org i db = (if leaf org i db then Inr (dropAll t org {i} db) else Inl (DatabaseError ''foreign key''))"
proof (cases "list_ex (\<lambda>r. fe_org r = org \<and> fe_id r = i) db")
  case True
  then have "goneIds org {i} db = {i}" by (auto simp: goneIds_def list_ex_iff)
  moreover have "forgetSource t i = forgetSources t {i}"
    by (rule ext) (simp add: forgetSource_def forgetSources_def split: option.split)
  ultimately show ?thesis using True by (auto simp: deleteEntry_def dropAll_def list_ex_iff)
next
  case False
  then have "goneIds org {i} db = {}" by (auto simp: goneIds_def list_ex_iff)
  then show ?thesis using False by (simp add: deleteEntry_def dropAll_nothing)
qed

lemma hoare_dropRows:
  "hoare (at db s t) (dropRows org i) (\<lambda>_ w. at (dropAll t org {i} db) s t w \<and> leaf org i db) (\<lambda>_. at db s t)"
  unfolding dropRows_def
  by (rule hoare_withTenant) (auto simp: at_def deleteEntry_eq Let_def split: if_splits)

lemma hoare_purgeNode:
  "hoare (at db s t) (purgeNode e org share (row, parts))
     (\<lambda>_ w. at (dropAll t org {fe_id row} db) s t w \<and> leaf org (fe_id row) db)
     (\<lambda>_. at db s t)"
proof -
  let ?Q = "\<lambda>finished w. if finished
      then at (dropAll t org {fe_id row} db) s t w \<and> leaf org (fe_id row) db
      else at db s t w"
  have swept: "hoare (at db s t)
     (case response of
        Conflict _ \<Rightarrow>
          if fe_kind row = Folder
          then seqE (sweepUnknown 8 e (sh_name share) parts) (\<lambda>swept.
               if swept > 0
               then seqE (agent_call e (RemoveEntry (sh_name share) parts True)) (\<lambda>retry.
                    if isGone retry then seqE (dropRows org (fe_id row)) (\<lambda>_. ret True) else ret False)
               else ret False)
          else ret False
      | _ \<Rightarrow> ret False) ?Q (\<lambda>_. at db s t)" for response
  proof (cases response)
    case (Conflict reason)
    have drop: "hoare (at db s t) (seqE (dropRows org (fe_id row)) (\<lambda>_. ret True)) ?Q (\<lambda>_. at db s t)"
      by (rule hoare_seq [OF hoare_dropRows], rule hoare_ret) simp
    show ?thesis
      unfolding Conflict AgentResponse.case
      by (intro hoare_if drop hoare_keeps_seq [OF keeps_sweep(1)] hoare_keeps_seq [OF keeps_call] hoare_ret)
         simp_all
  qed (auto intro: hoare_ret)
  have last: "hoare (?Q finished)
     (if finished then ret ()
      else case response of
             Conflict reason \<Rightarrow> raise (DirectoryNotEmptyError reason)
           | other \<Rightarrow> if isGone other then dropRows org (fe_id row) else raise (expectStatus other))
     (\<lambda>_ w. at (dropAll t org {fe_id row} db) s t w \<and> leaf org (fe_id row) db)
     (\<lambda>_. at db s t)" for finished response
    by (cases finished; cases response) (auto intro: hoare_ret hoare_raise hoare_dropRows)
  show ?thesis
    unfolding purgeNode_def prod.case Let_def
  proof (rule hoare_keeps_seq [OF keeps_call], rule hoare_keeps_seq, goal_cases)
    case (1 first)
    show ?case by (auto intro!: keeps_rules split: AgentResponse.split)
  next
    case (2 first response)
    show ?case by (rule hoare_seq [OF swept]) (rule last)
  qed
qed

text \<open>A loop that stops half way has deleted some of the nodes, and left a tree.\<close>

lemma hoare_purgeLoop:
  assumes "entries_ok pg (dropAll t org is db)"
  shows "hoare (at (dropAll t org is db) s t) (purgeLoop e org share nodes)
     (\<lambda>_ w. at (dropAll t org (is \<union> (fe_id \<circ> fst) ` set nodes) db) s t w
        \<and> entries_ok pg (dropAll t org (is \<union> (fe_id \<circ> fst) ` set nodes) db))
     (\<lambda>_ w. \<exists>js. js \<subseteq> (fe_id \<circ> fst) ` set nodes \<and> at (dropAll t org (is \<union> js) db) s t w
        \<and> entries_ok pg (dropAll t org (is \<union> js) db))"
  using assms
proof (induction nodes arbitrary: "is")
  case Nil
  show ?case unfolding purgeLoop.simps by (rule hoare_ret) (use Nil in simp)
next
  case (Cons node nodes)
  obtain row parts where node: "node = (row, parts)" by (cases node)
  let ?is = "insert (fe_id row) is"
  show ?case
    unfolding purgeLoop.simps node
  proof (rule hoare_seq)
    show "hoare (at (dropAll t org is db) s t) (purgeNode e org share (row, parts))
       (\<lambda>_ w. at (dropAll t org ?is db) s t w \<and> entries_ok pg (dropAll t org ?is db))
       (\<lambda>_ w. \<exists>js. js \<subseteq> (fe_id \<circ> fst) ` set ((row, parts) # nodes) \<and> at (dropAll t org (is \<union> js) db) s t w
          \<and> entries_ok pg (dropAll t org (is \<union> js) db))"
    proof (rule hoare_conseq [OF hoare_purgeNode])
      fix w assume w: "at (dropAll t org {fe_id row} (dropAll t org is db)) s t w \<and> leaf org (fe_id row) (dropAll t org is db)"
      then have "entries_ok pg (dropAll t org {fe_id row} (dropAll t org is db))"
        by (intro dropAll_ok_leaf [OF Cons.prems]) blast
      with w show "at (dropAll t org ?is db) s t w \<and> entries_ok pg (dropAll t org ?is db)"
        by (simp add: dropAll_dropAll)
    next
      fix w assume "at (dropAll t org is db) s t w"
      then show "\<exists>js. js \<subseteq> (fe_id \<circ> fst) ` set ((row, parts) # nodes) \<and> at (dropAll t org (is \<union> js) db) s t w
          \<and> entries_ok pg (dropAll t org (is \<union> js) db)"
        using Cons.prems by (intro exI [of _ "{}"]) simp
    qed
  next
    show "hoare (\<lambda>w. at (dropAll t org ?is db) s t w \<and> entries_ok pg (dropAll t org ?is db))
       (purgeLoop e org share nodes)
       (\<lambda>_ w. at (dropAll t org (is \<union> (fe_id \<circ> fst) ` set ((row, parts) # nodes)) db) s t w
          \<and> entries_ok pg (dropAll t org (is \<union> (fe_id \<circ> fst) ` set ((row, parts) # nodes)) db))
       (\<lambda>_ w. \<exists>js. js \<subseteq> (fe_id \<circ> fst) ` set ((row, parts) # nodes) \<and> at (dropAll t org (is \<union> js) db) s t w
          \<and> entries_ok pg (dropAll t org (is \<union> js) db))"
    proof (cases "entries_ok pg (dropAll t org ?is db)")
      case True
      show ?thesis
      proof (rule hoare_conseq [OF Cons.IH [OF True]])
        fix w assume "\<exists>js. js \<subseteq> (fe_id \<circ> fst) ` set nodes \<and> at (dropAll t org (?is \<union> js) db) s t w
          \<and> entries_ok pg (dropAll t org (?is \<union> js) db)"
        then obtain js where "js \<subseteq> (fe_id \<circ> fst) ` set nodes" "at (dropAll t org (?is \<union> js) db) s t w"
          "entries_ok pg (dropAll t org (?is \<union> js) db)" by blast
        then show "\<exists>js. js \<subseteq> (fe_id \<circ> fst) ` set ((row, parts) # nodes) \<and> at (dropAll t org (is \<union> js) db) s t w
          \<and> entries_ok pg (dropAll t org (is \<union> js) db)"
          by (intro exI [of _ "insert (fe_id row) js"]) auto
      qed auto
    qed (auto intro: hoare_false)
  qed
qed

text \<open>The subtree of an entry: its own id and those of everything below it.\<close>

definition subtree :: "table \<Rightarrow> id \<Rightarrow> id \<Rightarrow> id set" where
  "subtree db org i = {fe_id c | c r. r \<in> set db \<and> fe_org r = org \<and> fe_id r = i \<and> (c, r) \<in> (row_up (in_org org db))\<^sup>*}"

lemma purgeNodes_value:
  assumes "wf_tree db"
  shows "\<exists>nodes. (\<forall>w. w_entries w = db \<longrightarrow> purgeNodes org i root w = (Inr nodes, w))
     \<and> (fe_id \<circ> fst) ` set nodes = subtree db org i"
proof -
  let ?rows = "in_org org db"
  let ?base = "map (\<lambda>r. (r, root)) (filter (\<lambda>r. fe_id r = i) ?rows)"
  obtain ls where ls: "treeLevels (Suc (length ?rows)) (\<lambda>parts c. parts @ [fe_name c]) ?rows ?base = Some ls"
    using treeLevels_enough [OF wf_tree_in_org [OF assms, of org], of ?rows ?base "length ?rows"]
    by (fastforce simp: image_image)
  let ?nodes = "concat (map (order_by (\<lambda>a b. fe_id (fst a) < fe_id (fst b))) (rev ls))"
  have "fst ` set ?nodes = fst ` set (concat ls)"
    by (simp add: set_order_by)
  also have "\<dots> = {c. \<exists>r \<in> set ?rows. fe_id r = i \<and> (c, r) \<in> (row_up ?rows)\<^sup>*}"
    unfolding treeLevels_rows [OF ls] by auto
  finally have "(fe_id \<circ> fst) ` set ?nodes = subtree db org i"
    unfolding image_comp [symmetric] by (auto simp: subtree_def)
  moreover have "purgeNodes org i root w = (Inr ?nodes, w)" if "w_entries w = db" for w
    using ls that by (simp add: purgeNodes_def Let_def)
  ultimately show ?thesis by blast
qed

lemma hoare_pure_seqE:
  assumes "\<And>err w. at db s t w \<Longrightarrow> E err w"
    and "hoare (at db s t) m (\<lambda>a w. at db s t w \<and> F a) (\<lambda>_. at db s t)"
    and "\<And>a. F a \<Longrightarrow> hoare (at db s t) (k a) Q E"
  shows "hoare (at db s t) (seqE m k) Q E"
proof (rule hoare_seq)
  show "hoare (at db s t) m (\<lambda>a w. at db s t w \<and> F a) E"
    by (rule hoare_conseq [OF assms(2)]) (use assms(1) in auto)
  show "hoare (\<lambda>w. at db s t w \<and> F a) (k a) Q E" for a
    using assms(3) [of a] by (auto simp: hoare_def)
qed

lemma hoare_guard_seqE:
  assumes "\<And>err w. at db s t w \<Longrightarrow> E err w" and "b \<Longrightarrow> hoare (at db s t) (k ()) Q E"
  shows "hoare (at db s t) (seqE (guardE b err) k) Q E"
  using assms by (auto simp: hoare_def)

lemma hoare_keeps_seqE:
  assumes "\<And>err w. at db s t w \<Longrightarrow> E err w" and "keeps m" and "\<And>a. hoare (at db s t) (k a) Q E"
  shows "hoare (at db s t) (seqE m k) Q E"
  by (rule hoare_seq [where Q = "\<lambda>_. at db s t", OF hoare_conseq [OF keeps_hoare [OF assms(2)]]])
     (use assms(1,3) in auto)

lemma hoare_purgeNodes:
  assumes "wf_tree db"
  shows "hoare (at db s t :: 'd world \<Rightarrow> bool) (purgeNodes org i root)
     (\<lambda>nodes w. at db s t w \<and> (fe_id \<circ> fst) ` set nodes = subtree db org i) (\<lambda>_. at db s t)"
proof -
  obtain nodes where "\<forall>w :: 'd world. w_entries w = db \<longrightarrow> purgeNodes org i root w = (Inr nodes, w)"
    "(fe_id \<circ> fst) ` set nodes = subtree db org i"
    using purgeNodes_value [OF assms] by blast
  then show ?thesis by (auto simp: hoare_def at_def)
qed

lemma purge_effect:
  assumes "entries_ok pg db"
  shows "hoare (at db s t) (purge e org i share)
     (\<lambda>_ w. at (dropAll t org (subtree db org i) db) s t w \<and> entries_ok pg (w_entries w)
        \<and> (\<exists>entry \<in> set db. fe_id entry = i \<and> fe_org entry = org \<and> fe_share entry = sh_id share
              \<and> fe_trashed_at entry \<noteq> None))
     (\<lambda>_ w. (\<exists>js \<subseteq> subtree db org i. at (dropAll t org js db) s t w) \<and> entries_ok pg (w_entries w))"
  (is "hoare _ _ ?Q ?E")
proof -
  have weak: "?E err w" if "at db s t w" for err w
  proof
    show "\<exists>js \<subseteq> subtree db org i. at (dropAll t org js db) s t w"
      by (rule exI [of _ "{}"]) (use that in simp)
    show "entries_ok pg (w_entries w)" using that assms by (simp add: at_def)
  qed
  show ?thesis
    unfolding purge_def
  proof (rule hoare_pure_seqE [OF weak hoare_find], assumption,
      (rule hoare_guard_seqE [OF weak], assumption)+,
      rule hoare_keeps_seqE [OF weak keeps_components], assumption,
      rule hoare_pure_seqE [OF weak hoare_purgeNodes [OF entries_okD(1) [OF assms]]], assumption)
    fix entry nodes
    assume entry: "entry \<in> set db \<and> fe_org entry = org \<and> fe_id entry = i" "fe_share entry = sh_id share"
      "fe_trashed_at entry \<noteq> None"
      and nodes: "(fe_id \<circ> fst) ` set (nodes :: (FileEntryRow \<times> string list) list) = subtree db org i"
    show "hoare (at db s t) (purgeLoop e org share nodes) ?Q ?E"
    proof (rule hoare_conseq [OF hoare_purgeLoop [of pg t org "{}" db s e share nodes]], unfold nodes)
      show "entries_ok pg (dropAll t org {} db)" using assms by simp
    qed (use entry in \<open>auto simp: at_def\<close>)
  qed
qed

end
