(* ===== verification/FileReach.thy ===== *)
theory FileReach
  imports FileEffects
begin

text \<open>
  The tree over time: the steps that change \<open>file_entries\<close>, what every reachable table satisfies, and
  the properties of the single operations. A step is a whole call of \<open>FilesService\<close>, ended by a
  return or by an exception, against any agent; between two calls everything but the table may change.
\<close>

inductive file_step :: "'d env \<Rightarrow> 'd world \<Rightarrow> 'd world \<Rightarrow> bool" for e where
  step_createFolder: "file_step e w (snd (createFolder e org share parent name actor copied w))"
| step_record: "assertValidName name = Inr () \<Longrightarrow>
    (\<And>p. parent = Some p \<Longrightarrow> \<exists>q \<in> set (w_entries w).
       fe_id q = p \<and> fe_org q = org \<and> fe_share q = share \<and> fe_kind q = Folder) \<Longrightarrow>
    file_step e w (snd (recordPublishedFile e org share parent name bytes ctype copied w))"
| step_move: "file_step e w (snd (move e org i shareRef parent newName actor w))"
| step_rename: "file_step e w (snd (rename e org i name shareRef actor allowTrashed w))"
| step_trash: "file_step e w (snd (trash e org i user shareRef w))"
| step_restore: "file_step e w (snd (restore e org i w))"
| step_purge: "file_step e w (snd (purge e org i shareRef w))"
| step_outside: "file_step e w (w\<lparr>w_disk := d, w_now := t, w_faults := f, w_uploads := u,
    w_users := us, w_gids := gs, w_retired := rs, w_queue := q\<rparr>)"

inductive_cases file_stepE: "file_step e w w'"

text \<open>Ids come from the counter, so a new one is not in the table.\<close>

definition ids_drawn :: "'d env \<Rightarrow> table \<Rightarrow> nat \<Rightarrow> bool" where
  "ids_drawn e db s \<longleftrightarrow> fe_id ` set db \<subseteq> env_id e ` {..<s}"

definition files_inv :: "'d env \<Rightarrow> 'd world \<Rightarrow> bool" where
  "files_inv e w \<longleftrightarrow> entries_ok (env_pg e) (w_entries w) \<and> ids_drawn e (w_entries w) (w_seq w)"

lemma hoare_snd:
  assumes "hoare P m Q E" and "P w" and "\<And>a w'. Q a w' \<Longrightarrow> R w'" and "\<And>err w'. E err w' \<Longrightarrow> R w'"
  shows "R (snd (m w))"
proof (cases "m w")
  case (Pair a w')
  then show ?thesis
    using hoare_Inr [OF assms(1,2)] hoare_Inl [OF assms(1,2)] assms(3,4) by (cases a) auto
qed

lemma inserted_inv:
  assumes "inj (env_id e)" and "entries_ok (env_pg e) db" and "ids_drawn e db s"
    and "inserted e db s r w" and "placed db r"
  shows "files_inv e w"
proof -
  have "env_id e s \<notin> env_id e ` {..<s}"
    using assms(1) by (auto dest: injD)
  then have "fe_id r \<notin> fe_id ` set db"
    using assms(3,4) by (auto simp: inserted_def ids_drawn_def)
  then have "entries_ok (env_pg e) (db @ [r])"
    using assms by (intro insert_ok) (simp_all add: inserted_def)
  then show ?thesis
    using assms(3,4) by (auto simp: files_inv_def inserted_def ids_drawn_def)
qed

lemma same_ids_inv:
  assumes "entries_ok (env_pg e) (w_entries w)" and "fe_id ` set (w_entries w) \<subseteq> fe_id ` set db"
    and "ids_drawn e db s" and "w_seq w = s"
  shows "files_inv e w"
  using assms by (auto simp: files_inv_def ids_drawn_def)

lemma ids_of_strip: "map strip db' = map strip db \<Longrightarrow> fe_id ` set db' = fe_id ` set db"
proof -
  assume "map strip db' = map strip db"
  then have "map (fe_id \<circ> strip) db' = map (fe_id \<circ> strip) db"
    by (metis map_map)
  moreover have "fe_id \<circ> strip = fe_id" by (auto simp: strip_def)
  ultimately show ?thesis by (metis set_map)
qed

lemma moved_to_inv:
  assumes "moved_to (env_pg e) db entry parent name r (w_entries w)" and "ids_drawn e db s" and "w_seq w = s"
  shows "files_inv e w"
proof (rule same_ids_inv [OF _ _ assms(2,3)])
  have "fe_id ` set (w_entries w) = fe_id ` set (replaceRow db r)"
    using assms(1) by (intro ids_of_strip) (simp add: moved_to_def)
  also have "\<dots> = fe_id ` set db"
    by (metis ids_replaceRow set_map)
  finally show "fe_id ` set (w_entries w) \<subseteq> fe_id ` set db" by simp
qed (use assms(1) in \<open>simp add: moved_to_def\<close>)

lemma replaced_inv:
  assumes "files_inv e w0" and "entry \<in> set (w_entries w0)"
    and r: "r = entry\<lparr>fe_trashed_at := a, fe_trashed_by := b, fe_recycled := c, fe_updated_at := t\<rparr>"
    and "\<not> nameClash (env_pg e) (w_entries w0) r"
    and "w_entries w = replaceRow (w_entries w0) r" and "w_seq w = w_seq w0"
  shows "files_inv e w"
proof (rule same_ids_inv [where db = "w_entries w0" and s = "w_seq w0"])
  show "entries_ok (env_pg e) (w_entries w)"
    unfolding assms(5)
    by (rule replace_same_place [OF _ assms(2)]) (use assms in \<open>auto simp: files_inv_def\<close>)
  show "fe_id ` set (w_entries w) \<subseteq> fe_id ` set (w_entries w0)"
    unfolding assms(5) by (metis ids_replaceRow set_map order_refl)
qed (use assms in \<open>auto simp: files_inv_def\<close>)

lemma at_self: "at (w_entries w) (w_seq w) (w_now w) w"
  by (simp add: at_def)

lemma at_inv: "files_inv e w \<Longrightarrow> at (w_entries w) (w_seq w) (w_now w) w' \<Longrightarrow> files_inv e w'"
  by (simp add: files_inv_def at_def)

lemma trash_keeps_inv:
  fixes w :: "'a world"
  assumes "files_inv e w"
  shows "files_inv e (snd (trash e org i user share w))"
proof (rule hoare_snd [OF trash_effect at_self])
  fix r and w' :: "'a world"
  assume "(\<exists>entry \<in> set (w_entries w). fe_id entry = i \<and> fe_org entry = org \<and>
          (if fe_trashed_at entry \<noteq> None then r = entry \<and> w_entries w' = w_entries w
           else w_entries w' = replaceRow (w_entries w) r \<and> (\<exists>inBin. r = entry\<lparr>fe_trashed_at := Some (w_now w),
                  fe_trashed_by := Some user, fe_recycled := inBin, fe_updated_at := w_now w\<rparr>)))
        \<and> w_seq w' = w_seq w \<and> w_now w' = w_now w"
  then obtain entry where entry: "entry \<in> set (w_entries w)" "w_seq w' = w_seq w"
    and "if fe_trashed_at entry \<noteq> None then r = entry \<and> w_entries w' = w_entries w
           else w_entries w' = replaceRow (w_entries w) r \<and> (\<exists>inBin. r = entry\<lparr>fe_trashed_at := Some (w_now w),
                  fe_trashed_by := Some user, fe_recycled := inBin, fe_updated_at := w_now w\<rparr>)" by blast
  then consider "w_entries w' = w_entries w"
    | inBin where "w_entries w' = replaceRow (w_entries w) r" "r = entry\<lparr>fe_trashed_at := Some (w_now w),
                  fe_trashed_by := Some user, fe_recycled := inBin, fe_updated_at := w_now w\<rparr>"
    by (auto split: if_splits)
  then show "files_inv e w'"
  proof cases
    case 1
    then show ?thesis using assms entry(2) by (simp add: files_inv_def)
  next
    case 2
    show ?thesis
      by (rule replaced_inv [OF assms entry(1) 2(2) _ 2(1) entry(2)]) (simp add: 2(2) nameClash_def)
  qed
qed (use assms at_inv in \<open>auto simp: files_inv_def wf_tree_def entries_ok_def\<close>)

lemma restore_keeps_inv:
  fixes w :: "'a world"
  assumes "files_inv e w"
  shows "files_inv e (snd (restore e org i w))"
proof (rule hoare_snd [OF restore_effect at_self])
  fix r and w' :: "'a world"
  assume "(\<exists>entry \<in> set (w_entries w). fe_id entry = i \<and> fe_org entry = org \<and>
          (if fe_trashed_at entry = None then r = entry \<and> w_entries w' = w_entries w
           else w_entries w' = replaceRow (w_entries w) r \<and> \<not> nameClash (env_pg e) (w_entries w) r
             \<and> r = entry\<lparr>fe_trashed_at := None, fe_trashed_by := None, fe_recycled := False, fe_updated_at := w_now w\<rparr>
             \<and> (\<forall>p. fe_parent entry = Some p \<longrightarrow> (\<exists>q \<in> set (w_entries w). fe_id q = p \<and> fe_trashed_at q = None))))
        \<and> w_seq w' = w_seq w \<and> w_now w' = w_now w"
  then obtain entry where entry: "entry \<in> set (w_entries w)" "w_seq w' = w_seq w"
    and "w_entries w' = w_entries w \<or> w_entries w' = replaceRow (w_entries w) r
       \<and> \<not> nameClash (env_pg e) (w_entries w) r
       \<and> r = entry\<lparr>fe_trashed_at := None, fe_trashed_by := None, fe_recycled := False, fe_updated_at := w_now w\<rparr>"
    by (auto split: if_splits)
  then show "files_inv e w'"
    using assms replaced_inv [OF assms entry(1)] by (auto simp: files_inv_def)
qed (use assms at_inv in \<open>auto simp: files_inv_def wf_tree_def entries_ok_def\<close>)

lemma purge_keeps_inv:
  assumes "files_inv e w"
  shows "files_inv e (snd (purge e org i share w))"
proof (rule hoare_snd [OF purge_effect at_self])
  have sub: "fe_id ` set (dropAll t org js db) \<subseteq> fe_id ` set db" for t js db
    by (auto simp: dropAll_def)
  show "files_inv e w'" if "at (dropAll (w_now w) org (subtree (w_entries w) org i) (w_entries w)) (w_seq w) (w_now w) w'
      \<and> entries_ok (env_pg e) (w_entries w') \<and> P" for w' P
    using that assms sub by (intro same_ids_inv [of e w' "w_entries w" "w_seq w"]) (auto simp: at_def files_inv_def)
  show "files_inv e w'" if "(\<exists>js \<subseteq> subtree (w_entries w) org i. at (dropAll (w_now w) org js (w_entries w)) (w_seq w) (w_now w) w')
      \<and> entries_ok (env_pg e) (w_entries w')" for w'
    using that assms sub
    by (elim conjE exE, intro same_ids_inv [of e w' "w_entries w" "w_seq w"]) (simp_all add: at_def files_inv_def)
qed (use assms in \<open>simp add: files_inv_def\<close>)

lemma file_step_inv:
  assumes "file_step e w w'" and "inj (env_id e)" and "files_inv e w"
  shows "files_inv e w'"
proof -
  have ok: "entries_ok (env_pg e) (w_entries w)" and ids: "ids_drawn e (w_entries w) (w_seq w)"
    using assms(3) by (simp_all add: files_inv_def)
  note insert = inserted_inv [OF assms(2) ok ids]
  note moved = moved_to_inv [OF _ ids]
  from assms(1) show ?thesis
proof cases
  case (step_createFolder org share parent name actor copied)
  show ?thesis
    unfolding step_createFolder
    by (rule hoare_snd [OF createFolder_effect at_self]) (use insert at_inv [OF assms(3)] in blast)+
next
  case (step_record name parent org share bytes ctype copied)
  have "CHR ''/'' \<notin> set name" using assertValidName_no_slash step_record(2) by blast
  then show ?thesis
    unfolding step_record(1)
    by (rule hoare_snd [OF recordPublishedFile_effect [OF _ step_record(3) entries_okD(4) [OF ok]] at_self])
       (use insert at_inv [OF assms(3)] in blast)+
next
  case (step_move org i shareRef parent newName actor)
  show ?thesis
    unfolding step_move
    by (rule hoare_snd [OF move_effect [OF ok] at_self]) (use moved at_inv [OF assms(3)] in blast)+
next
  case (step_rename org i name shareRef actor allowTrashed)
  show ?thesis
    unfolding step_rename
    by (rule hoare_snd [OF rename_effect [OF ok] at_self]) (use moved at_inv [OF assms(3)] in blast)+
next
  case (step_outside d t f u us gs q)
  then show ?thesis using assms(3) by (simp add: files_inv_def)
qed (use assms(3) in \<open>simp_all add: trash_keeps_inv restore_keeps_inv purge_keeps_inv\<close>)
qed

text \<open>
  C16. Let calls that create, publish, move, rename, trash, restore and purge entries follow one another, each
  run whole before the next begins, whatever the agent answers and whichever transactions fail: the table stays
  a forest inside each share, no two visible siblings fold to the same name, and every \<open>path\<close> is the names from
  the root down. Calls that overlap are outside of this; \<open>Overlap\<close> shows what two of them can do.
\<close>

theorem tree_survives_every_operation:
  assumes "inj (env_id e)" and "w_entries w0 = []" and "(file_step e)\<^sup>*\<^sup>* w0 w"
  shows "wf_tree (w_entries w) \<and> unique_names (env_pg e) (w_entries w)
    \<and> (\<forall>r rs. lineage (w_entries w) (Some (fe_id r)) (r # rs) \<longrightarrow> fe_path r = linePath (r # rs))"
proof -
  have "files_inv e w0"
    using assms(2)
    by (simp add: files_inv_def entries_ok_def wf_tree_def parents_ok_def paths_ok_def unique_names_def
        ids_drawn_def parent_rel_def acyclic_def)
  with assms(3) have "files_inv e w"
    by (induction rule: rtranclp_induct) (use file_step_inv assms(1) in auto)
  then have ok: "entries_ok (env_pg e) (w_entries w)" by (simp add: files_inv_def)
  note ok = entries_okD [OF ok]
  show ?thesis
    using ok paths_ok_lineage [OF ok(1)] by blast
qed

lemma purge_fate:
  assumes "entries_ok (env_pg e) (w_entries w)" and "purge e org i share w = (res, w')"
  shows "entries_ok (env_pg e) (w_entries w') \<and> w_now w' = w_now w \<and>
    (\<exists>gone \<subseteq> subtree (w_entries w) org i. w_entries w' = dropAll (w_now w) org gone (w_entries w)
       \<and> (res = Inr () \<longrightarrow> gone = subtree (w_entries w) org i
            \<and> (\<exists>entry \<in> set (w_entries w). fe_id entry = i \<and> fe_org entry = org
                 \<and> fe_share entry = sh_id share \<and> fe_trashed_at entry \<noteq> None)))"
proof (cases res)
  case (Inl err)
  then show ?thesis
    using hoare_Inl [OF purge_effect [OF assms(1)] at_self assms(2) [unfolded Inl]] by (auto simp: at_def)
next
  case (Inr u)
  then show ?thesis
    using hoare_Inr [OF purge_effect [OF assms(1)] at_self assms(2) [unfolded Inr]] by (auto simp: at_def)
qed

end
