(* ===== verification/PurgeOrder.thy ===== *)
theory PurgeOrder
  imports FileReach
begin

text \<open>
  \<open>purge\<close> works from the deepest level up, so that the foreign key of \<open>parent_id\<close> never stops it:
  when the agent removes what it is asked to remove, every row of the subtree goes.
\<close>

fun bottom_up :: "table \<Rightarrow> id set \<Rightarrow> table \<Rightarrow> bool" where
  "bottom_up rows seen [] = True"
| "bottom_up rows seen (r # rs) =
     ((\<forall>c \<in> set rows. fe_parent c = Some (fe_id r) \<longrightarrow> fe_id c \<in> seen)
      \<and> bottom_up rows (insert (fe_id r) seen) rs)"

lemma bottom_up_append:
  "bottom_up rows seen (xs @ ys) \<longleftrightarrow> bottom_up rows seen xs \<and> bottom_up rows (seen \<union> fe_id ` set xs) ys"
  by (induction xs arbitrary: seen) auto

lemma bottom_up_level:
  assumes "\<And>r c. r \<in> set rs \<Longrightarrow> c \<in> set rows \<Longrightarrow> fe_parent c = Some (fe_id r) \<Longrightarrow> fe_id c \<in> seen"
  shows "bottom_up rows seen rs"
  using assms
proof (induction rs arbitrary: seen)
  case (Cons r rs)
  have "bottom_up rows (insert (fe_id r) seen) rs"
    by (rule Cons.IH) (use Cons.prems in auto)
  then show ?case using Cons.prems [of r] by auto
qed simp

lemma nextLevel_children:
  "(r, a) \<in> set level \<Longrightarrow> c \<in> set rows \<Longrightarrow> fe_parent c = Some (fe_id r) \<Longrightarrow> c \<in> fst ` set (nextLevel f rows level)"
  by (force simp: nextLevel_def)

lemma treeLevels_first: "treeLevels n f rows level = Some ls \<Longrightarrow> set level \<subseteq> set (concat ls)"
  by (cases "(n, f, rows, level)" rule: treeLevels.cases) auto

lemma treeLevels_bottom_up:
  assumes "\<And>l. set (g l) = set l"
  shows "treeLevels n f rows level = Some ls \<Longrightarrow> bottom_up rows {} (map fst (concat (map g (rev ls))))"
proof (induction n f rows level arbitrary: ls rule: treeLevels.induct)
  case (3 n f rows x xs)
  then obtain rest where rest: "treeLevels n f rows (nextLevel f rows (x # xs)) = Some rest"
    and ls: "ls = (x # xs) # rest"
    by auto
  have "fst ` set (nextLevel f rows (x # xs)) \<subseteq> set (map fst (concat (map g (rev rest))))"
    using treeLevels_first [OF rest] assms by auto
  then have down: "c \<in> set (map fst (concat (map g (rev rest))))"
    if "(r, a) \<in> set (x # xs)" "c \<in> set rows" "fe_parent c = Some (fe_id r)" for r a c
    using nextLevel_children [OF that] by blast
  have "bottom_up rows ({} \<union> fe_id ` set (map fst (concat (map g (rev rest))))) (map fst (g (x # xs)))"
  proof (rule bottom_up_level)
    fix r c assume "r \<in> set (map fst (g (x # xs)))" and c: "c \<in> set rows" "fe_parent c = Some (fe_id r)"
    then have "r \<in> fst ` set (x # xs)" unfolding set_map assms by simp
    then obtain a where "(r, a) \<in> set (x # xs)" unfolding image_iff by (metis prod.collapse)
    then show "fe_id c \<in> {} \<union> fe_id ` set (map fst (concat (map g (rev rest))))"
      using down c by blast
  qed
  then show ?case
    using "3.IH" [OF rest] by (simp add: ls bottom_up_append)
qed auto

lemma agent_gone:
  assumes "\<And>share parts dir d. \<exists>a d'. env_call e (RemoveEntry share parts dir) d = (Inr a, d') \<and> isGone a"
  obtains a d' where "agent_call e (RemoveEntry share parts dir) w = (Inr a, w\<lparr>w_disk := d'\<rparr>)" "isGone a"
  using assms [of share parts dir "w_disk w"] by (auto simp: agent_call_def)

lemma dropRows_leaf:
  assumes "w_faults w = []" and "\<And>x. x \<in> set (w_entries w) \<Longrightarrow> fe_parent x \<noteq> Some i"
  shows "\<exists>w'. dropRows org i w = (Inr (), w') \<and> w_faults w' = [] \<and> w_now w' = w_now w \<and> w_entries w' = dropAll (w_now w) org {i} (w_entries w)"
  using assms by (auto simp: dropRows_def withTenant_def deleteEntry_eq Let_def)

lemma purgeNode_removes:
  assumes gone: "\<And>share parts dir d. \<exists>a d'. env_call e (RemoveEntry share parts dir) d = (Inr a, d') \<and> isGone a"
    and "w_faults w = []" and "\<And>x. x \<in> set (w_entries w) \<Longrightarrow> fe_parent x \<noteq> Some (fe_id row)"
  shows "\<exists>w'. purgeNode e org share (row, parts) w = (Inr (), w') \<and> w_faults w' = [] \<and> w_now w' = w_now w
     \<and> w_entries w' = dropAll (w_now w) org {fe_id row} (w_entries w)"
proof -
  obtain a d where a: "agent_call e (RemoveEntry (sh_name share) parts (fe_kind row = Folder)) w
      = (Inr a, w\<lparr>w_disk := d\<rparr>)" "isGone a"
    by (rule agent_gone [OF gone])
  obtain b d2 where b: "agent_call e (RemoveEntry (sh_name share) (BIN @ parts) (fe_kind row = Folder)) (w\<lparr>w_disk := d\<rparr>)
      = (Inr b, (w\<lparr>w_disk := d\<rparr>)\<lparr>w_disk := d2\<rparr>)" "isGone b"
    by (rule agent_gone [OF gone])
  show ?thesis
  proof (cases a)
    case Removed
    then show ?thesis
      using a dropRows_leaf [of "w\<lparr>w_disk := d\<rparr>" "fe_id row" org] assms(2,3)
      by (auto simp: purgeNode_def Let_def seqE_def)
  next
    case (NotFound reason)
    then show ?thesis
      using a b dropRows_leaf [of "w\<lparr>w_disk := d2\<rparr>" "fe_id row" org] assms(2,3)
      by (auto simp: purgeNode_def Let_def seqE_def)
  qed (use a in auto)
qed

lemma purgeLoop_removes:
  assumes gone: "\<And>share parts dir d. \<exists>a d'. env_call e (RemoveEntry share parts dir) d = (Inr a, d') \<and> isGone a"
    and "wf_tree db" and "\<forall>n \<in> set nodes. fst n \<in> set db \<and> fe_org (fst n) = org"
  shows "w_faults w = [] \<Longrightarrow> w_now w = t \<Longrightarrow> w_entries w = dropAll t org seen db \<Longrightarrow>
     bottom_up (in_org org db) seen (map fst nodes) \<Longrightarrow>
     \<exists>w'. purgeLoop e org share nodes w = (Inr (), w')
       \<and> w_entries w' = dropAll t org (seen \<union> (fe_id \<circ> fst) ` set nodes) db"
  using assms(3)
proof (induction nodes arbitrary: w seen)
  case Nil
  then show ?case by simp
next
  case (Cons node nodes)
  obtain row parts where node: "node = (row, parts)" by (cases node)
  then have row: "row \<in> set db" "fe_org row = org" using Cons.prems(5) by auto
  have "fe_parent z \<noteq> Some (fe_id row)" if z: "z \<in> set (w_entries w)" for z
  proof
    assume pz: "fe_parent z = Some (fe_id row)"
    obtain x where x: "x \<in> set db" "\<not> (fe_org x = org \<and> fe_id x \<in> seen)" and p: "fe_parent x = Some (fe_id row)"
      using z pz Cons.prems(3) by (auto simp: in_dropAll)
    note x(1)
    moreover from this obtain q where "q \<in> set db" "fe_id q = fe_id row" "fe_org q = fe_org x"
      using wf_tree_parent [OF assms(2) _ p] by metis
    moreover from this have "q = row"
      using distinct_ids_eq [of db q row] assms(2) row(1) by (simp add: wf_tree_def)
    ultimately have "fe_id x \<in> seen" "fe_org x = org"
      using Cons.prems(4) p row(2) node by auto
    then show False using x(2) by simp
  qed
  then obtain w1 where w1: "purgeNode e org share (row, parts) w = (Inr (), w1)" "w_faults w1 = []" "w_now w1 = t"
    "w_entries w1 = dropAll t org {fe_id row} (w_entries w)"
    using purgeNode_removes [OF gone Cons.prems(1)] Cons.prems(2) by metis
  have "w_entries w1 = dropAll t org (insert (fe_id row) seen) db"
    using w1(4) Cons.prems(3) by (simp add: dropAll_dropAll)
  then obtain w' where "purgeLoop e org share nodes w1 = (Inr (), w')"
    "w_entries w' = dropAll t org (insert (fe_id row) seen \<union> (fe_id \<circ> fst) ` set nodes) db"
    using Cons.IH [OF w1(2,3), of "insert (fe_id row) seen"] Cons.prems(4,5) node by auto
  then show ?case
    using w1(1) node by (simp add: seqE_def)
qed

lemma purgeNodes_bottom_up:
  assumes "wf_tree (w_entries w)"
  obtains nodes where "purgeNodes org i root w = (Inr nodes, w)"
    "bottom_up (in_org org (w_entries w)) {} (map fst nodes)"
    "(fe_id \<circ> fst) ` set nodes = subtree (w_entries w) org i"
    "\<forall>n \<in> set nodes. fst n \<in> set (w_entries w) \<and> fe_org (fst n) = org"
proof -
  let ?rows = "in_org org (w_entries w)"
  let ?base = "map (\<lambda>r. (r, root)) (filter (\<lambda>r. fe_id r = i) ?rows)"
  obtain ls where ls: "treeLevels (Suc (length ?rows)) (\<lambda>parts c. parts @ [fe_name c]) ?rows ?base = Some ls"
    using treeLevels_enough [OF wf_tree_in_org [OF assms, of org], of ?rows ?base "length ?rows"]
    by (fastforce simp: image_image)
  obtain nodes where nodes: "purgeNodes org i root w = (Inr nodes, w)"
    "(fe_id \<circ> fst) ` set nodes = subtree (w_entries w) org i"
    using purgeNodes_value [OF assms, of org i root] by blast
  then have shape: "nodes = concat (map (order_by (\<lambda>a b. fe_id (fst a) < fe_id (fst b))) (rev ls))"
    using ls by (simp add: purgeNodes_def Let_def)
  have "fst ` set nodes = {c. \<exists>r \<in> fst ` set ?base. (c, r) \<in> (row_up ?rows)\<^sup>*}"
    using treeLevels_rows [OF ls] unfolding shape by (simp only: set_concat set_map set_rev image_image set_order_by)
  also have "\<dots> \<subseteq> set ?rows"
    by (auto simp: row_up_def elim: converse_rtranclE)
  finally have "\<forall>n \<in> set nodes. fst n \<in> set ?rows" by blast
  moreover have "bottom_up ?rows {} (map fst nodes)"
    unfolding shape by (rule treeLevels_bottom_up [OF _ ls]) simp
  ultimately show ?thesis using nodes that by simp
qed

lemma purge_completes_run:
  assumes "entries_ok pg (w_entries w)" and "w_faults w = []"
    and "\<And>share parts dir d. \<exists>a d'. env_call e (RemoveEntry share parts dir) d = (Inr a, d') \<and> isGone a"
    and "entry \<in> set (w_entries w)" and "fe_id entry = i" and "fe_org entry = org"
    and "fe_share entry = sh_id share" and "fe_trashed_at entry \<noteq> None"
  shows "\<exists>w'. purge e org i share w = (Inr (), w')
     \<and> w_entries w' = dropAll (w_now w) org (subtree (w_entries w) org i) (w_entries w)"
proof -
  note ok = entries_okD [OF assms(1)]
  have wf: "wf_tree (in_org org (w_entries w))" by (rule wf_tree_in_org [OF ok(1)])
  have found: "findEntry org i w = (Inr entry, w)"
    using row_at_eq [of "in_org org (w_entries w)" entry] wf assms(4-6)
    by (simp add: findEntry_def wf_tree_def)
  obtain rs where "walkUp (Suc (length (in_org org (w_entries w)))) (in_org org (w_entries w)) (Some i) = Some rs"
    "lineage (w_entries w) (Some i) rs"
    using walkUp_in_org [OF ok(1) assms(4,6)] assms(5) by metis
  then have root: "componentsOf org i w = (Inr (rev (map fe_name rs)), w)"
    by (auto simp: componentsOf_def Let_def lineage_Some)
  obtain nodes where nodes: "purgeNodes org i (rev (map fe_name rs)) w = (Inr nodes, w)"
    "bottom_up (in_org org (w_entries w)) {} (map fst nodes)"
    "(fe_id \<circ> fst) ` set nodes = subtree (w_entries w) org i"
    "\<forall>n \<in> set nodes. fst n \<in> set (w_entries w) \<and> fe_org (fst n) = org"
    by (rule purgeNodes_bottom_up [OF ok(1)])
  obtain w' where "purgeLoop e org share nodes w = (Inr (), w')"
    "w_entries w' = dropAll (w_now w) org ({} \<union> (fe_id \<circ> fst) ` set nodes) (w_entries w)"
    using purgeLoop_removes [OF assms(3) ok(1) nodes(4) assms(2) refl _ nodes(2)] by auto
  then show ?thesis
    using found root nodes(1,3) assms(7,8) by (simp add: purge_def seqE_def guardE_def)
qed

end
