(* ===== verification/TrashRestore.thy ===== *)
theory TrashRestore
  imports FileReach
begin

text \<open>
  When no transaction fails, putting an entry in the bin always succeeds, whatever the agent does, and
  restoring it is decided by the table alone: the parent must be visible and the name free.
\<close>

named_theorems calm_rules

text \<open>A call that leaves a world without pending faults without them.\<close>

definition calm :: "('d, 'a) op \<Rightarrow> bool" where
  "calm m \<longleftrightarrow> (\<forall>w. w_faults w = [] \<longrightarrow> w_faults (snd (m w)) = [])"

lemma calm_ret [calm_rules]: "calm (ret a)"
  by (simp add: calm_def)

lemma calm_call [calm_rules]: "calm (agent_call e req)"
  by (simp add: calm_def agent_call_def split: prod.splits sum.splits)

lemma calm_seq [calm_rules]: "calm m \<Longrightarrow> (\<And>a. calm (k a)) \<Longrightarrow> calm (seqE m k)"
  unfolding calm_def seqE_def by (fastforce split: prod.splits sum.splits)

lemma calm_catch [calm_rules]: "calm m \<Longrightarrow> (\<And>err. calm (h err)) \<Longrightarrow> calm (catchE m h)"
  unfolding calm_def catchE_def by (fastforce split: prod.splits sum.splits)

lemma calm_posix [calm_rules]: "calm (posixUidFor org user)"
  unfolding calm_def posixUidFor_def withTenant_def
  by (auto split: option.splits sum.splits simp: bindE_Inr_iff)

lemma calm_ensureLoop [calm_rules]: "calm (ensureLoop e share uid ps attempted)"
  by (induction ps arbitrary: attempted) (auto intro!: calm_rules split: AgentResponse.split)

lemma calm_tryCall [calm_rules]: "calm (tryCall e req)"
  unfolding tryCall_def by (intro calm_rules)

lemma calm_moveToTheBin [calm_rules]: "calm (moveToTheBin e org share cs d u)"
  unfolding moveToTheBin_def ensureDirectories_def Let_def
  by (auto intro!: calm_rules split: AgentResponse.split option.split)

text \<open>And it never throws.\<close>

lemma never_throws_catch: "\<exists>b w'. catchE m (\<lambda>_. ret a) w = (Inr b, w')"
  by (cases "m w"; cases "fst (m w)") (auto simp: catchE_def)

lemma tryCall_returns: "\<exists>b w'. tryCall e req w = (Inr b, w')"
  unfolding tryCall_def by (rule never_throws_catch)

lemma moveToTheBin_returns: "\<exists>b w'. moveToTheBin e org share cs d u w = (Inr b, w')"
proof (cases "cs = []")
  case True
  then show ?thesis by (auto simp: moveToTheBin_def)
next
  case False
  let ?dst = "BIN @ cs"
  obtain uid w1 where w1: "catchE (seqE (posixUidFor org u) (\<lambda>u. ret (Some u))) (\<lambda>_. ret None) w = (Inr uid, w1)"
    using never_throws_catch [of "seqE (posixUidFor org u) (\<lambda>u. ret (Some u))" None w] by blast
  show ?thesis
  proof (cases uid)
    case None
    then show ?thesis using w1 False by (auto simp: moveToTheBin_def Let_def)
  next
    case (Some n)
    obtain b w2 where w2: "catchE (ensureDirectories e (sh_name share) [butlast ?dst] n) (\<lambda>_. ret False) w1 = (Inr b, w2)"
      using never_throws_catch [of "ensureDirectories e (sh_name share) [butlast ?dst] n" False w1] by blast
    obtain r w3 where w3: "tryCall e (MoveEntry (sh_name share) cs ?dst) w2 = (Inr r, w3)"
      using tryCall_returns by blast
    obtain r4 w4 where w4: "tryCall e (RemoveEntry (sh_name share) ?dst d) w3 = (Inr r4, w4)"
      using tryCall_returns by blast
    obtain r5 w5 where w5: "tryCall e (MoveEntry (sh_name share) cs ?dst) w4 = (Inr r5, w5)"
      using tryCall_returns by blast
    show ?thesis
      using w1 w2 w3 w4 w5 False Some
      by (auto simp: moveToTheBin_def Let_def split: option.split AgentResponse.split)
  qed
qed

section \<open>Putting an entry in the bin\<close>

lemma findEntry_row:
  assumes "wf_tree (w_entries w)" and "entry \<in> set (w_entries w)"
  shows "findEntry (fe_org entry) (fe_id entry) w = (Inr entry, w)"
  using row_at_eq [of "in_org (fe_org entry) (w_entries w)" entry] wf_tree_in_org [OF assms(1)] assms(2)
  by (simp add: findEntry_def wf_tree_def)

lemma componentsOf_row:
  assumes "wf_tree (w_entries w)" and "entry \<in> set (w_entries w)"
  shows "\<exists>cs. componentsOf (fe_org entry) (fe_id entry) w = (Inr cs, w)"
proof -
  obtain rs where "walkUp (Suc (length (in_org (fe_org entry) (w_entries w)))) (in_org (fe_org entry) (w_entries w))
      (Some (fe_id entry)) = Some rs" "lineage (w_entries w) (Some (fe_id entry)) rs"
    by (rule walkUp_in_org [OF assms refl])
  then show ?thesis by (auto simp: componentsOf_def Let_def lineage_Some)
qed

lemma find_this:
  assumes "distinct (map fe_id db)" and "entry \<in> set db" and "P entry"
  shows "List.find (\<lambda>r. fe_org r = fe_org entry \<and> fe_id r = fe_id entry \<and> P r) db = Some entry"
proof (cases "List.find (\<lambda>r. fe_org r = fe_org entry \<and> fe_id r = fe_id entry \<and> P r) db")
  case None
  then show ?thesis using assms by (auto simp: find_None_iff)
next
  case (Some x)
  then show ?thesis
    using find_eq_Some_ex [OF Some] distinct_ids_eq [OF assms(1) _ assms(2)] by simp
qed

lemma updateRow_value:
  assumes "distinct (map fe_id (w_entries w))" and "entry \<in> set (w_entries w)" and "P entry"
    and "\<And>r. fe_id (f r) = fe_id r" and "rowAccepted (w_entries w) ((f entry)\<lparr>fe_updated_at := w_now w\<rparr>)"
  shows "updateRow e (fe_org entry) (fe_id entry) P f w =
     (let r = (f entry)\<lparr>fe_updated_at := w_now w\<rparr> in
      if nameClash (env_pg e) (w_entries w) r then Inl UniqueViolation
      else Inr (Some r, w\<lparr>w_entries := replaceRow (w_entries w) r\<rparr>))"
proof -
  have "updateRows (\<lambda>r. fe_org r = fe_org entry \<and> fe_id r = fe_id entry \<and> P r)
      (\<lambda>r. (f r)\<lparr>fe_updated_at := w_now w\<rparr>) (w_entries w)
    = replaceRow (w_entries w) ((f entry)\<lparr>fe_updated_at := w_now w\<rparr>)"
    by (rule updateRows_replace [OF assms(1,2)]) (use assms(3,4) in auto)
  then show ?thesis
    using assms find_this [OF assms(1,2), of P] by (simp add: updateRow_def Let_def)
qed

lemma rowAccepted_fields:
  "rowAccepted db r \<Longrightarrow> fe_name r' = fe_name r \<Longrightarrow> fe_parent r' = fe_parent r \<Longrightarrow> rowAccepted db r'"
  by (simp add: rowAccepted_def)

lemma trash_value:
  assumes "wf_tree (w_entries w)" and "w_faults w = []" and "entry \<in> set (w_entries w)"
    and "fe_trashed_at entry = None" and "rowAccepted (w_entries w) entry"
  shows "\<exists>inBin w'. let r = entry\<lparr>fe_trashed_at := Some (w_now w), fe_trashed_by := Some user,
           fe_recycled := inBin, fe_updated_at := w_now w\<rparr> in
     trash e (fe_org entry) (fe_id entry) user share w = (Inr r, w')
     \<and> w_entries w' = replaceRow (w_entries w) r \<and> w_faults w' = [] \<and> w_now w' = w_now w"
proof -
  obtain cs where cs: "componentsOf (fe_org entry) (fe_id entry) w = (Inr cs, w)"
    using componentsOf_row [OF assms(1,3)] by blast
  obtain inBin w1 where w1: "moveToTheBin e (fe_org entry) share cs (fe_kind entry = Folder) user w = (Inr inBin, w1)"
    using moveToTheBin_returns by blast
  have same: "w_entries w1 = w_entries w" "w_now w1 = w_now w"
    using keeps_moveToTheBin [of e "fe_org entry" share cs "fe_kind entry = Folder" user] w1
    unfolding keeps_def by (metis snd_conv)+
  have calm: "w_faults w1 = []"
    using calm_moveToTheBin [of e "fe_org entry" share cs "fe_kind entry = Folder" user] w1 assms(2)
    unfolding calm_def by (metis snd_conv)
  let ?f = "\<lambda>r. r\<lparr>fe_trashed_at := Some (w_now w1), fe_trashed_by := Some user, fe_recycled := inBin\<rparr>"
  let ?r = "(?f entry)\<lparr>fe_updated_at := w_now w1\<rparr>"
  have "updateRow e (fe_org entry) (fe_id entry) (\<lambda>r. fe_trashed_at r = None) ?f w1
      = Inr (Some ?r, w1\<lparr>w_entries := replaceRow (w_entries w1) ?r\<rparr>)"
    using updateRow_value [of w1 entry "\<lambda>r. fe_trashed_at r = None" ?f e] assms same
      rowAccepted_fields [OF assms(5), of ?r]
    by (simp add: wf_tree_def nameClash_def Let_def)
  then have "trash e (fe_org entry) (fe_id entry) user share w
      = (Inr ?r, w1\<lparr>w_entries := replaceRow (w_entries w1) ?r\<rparr>)"
    using findEntry_row [OF assms(1,3)] cs w1 assms(4) calm
    by (simp add: trash_def withTenant_def seqE_def)
  then show ?thesis using same calm by (intro exI [of _ inBin]) (simp add: Let_def)
qed

section \<open>Restoring\<close>

lemma restore_value:
  assumes "wf_tree (w_entries w)" and "w_faults w = []" and "entry \<in> set (w_entries w)"
    and "fe_trashed_at entry \<noteq> None" and "rowAccepted (w_entries w) entry"
  shows "restore e (fe_org entry) (fe_id entry) w =
     (let r = entry\<lparr>fe_trashed_at := None, fe_trashed_by := None, fe_recycled := False, fe_updated_at := w_now w\<rparr>;
          hidden = List.find (\<lambda>q. fe_parent entry = Some (fe_id q) \<and> fe_trashed_at q \<noteq> None) (w_entries w)
      in case hidden of
           Some q \<Rightarrow> (Inl (TrashedParentError (fe_name q)), w)
         | None \<Rightarrow>
             if nameClash (env_pg e) (w_entries w) r then (Inl (NameTakenError (fe_name entry)), w)
             else (Inr r, w\<lparr>w_entries := replaceRow (w_entries w) r\<rparr>))"
proof -
  have dist: "distinct (map fe_id (w_entries w))" using assms(1) by (simp add: wf_tree_def)
  let ?f = "\<lambda>r. r\<lparr>fe_trashed_at := None, fe_trashed_by := None, fe_recycled := False\<rparr>"
  let ?r = "(?f entry)\<lparr>fe_updated_at := w_now w\<rparr>"
  have updated: "withTenant (updateRow e (fe_org entry) (fe_id entry) (\<lambda>_. True) ?f) w =
      (if nameClash (env_pg e) (w_entries w) ?r then (Inl UniqueViolation, w)
       else (Inr (Some ?r), w\<lparr>w_entries := replaceRow (w_entries w) ?r\<rparr>))"
    using updateRow_value [of w entry "\<lambda>_. True" ?f e] assms dist rowAccepted_fields [OF assms(5), of ?r]
    by (simp add: withTenant_def Let_def)
  have found: "findEntry (fe_org entry) (fe_id entry) w = (Inr entry, w)"
    by (rule findEntry_row [OF assms(1,3)])
  show ?thesis
  proof (cases "fe_parent entry")
    case None
    then have "List.find (\<lambda>q. fe_parent entry = Some (fe_id q) \<and> fe_trashed_at q \<noteq> None) (w_entries w) = None"
      by (simp add: find_None_iff)
    then show ?thesis
      using found updated assms(4) None by (auto simp: restore_def Let_def seqE_def catchE_def)
  next
    case (Some p)
    then obtain q where q: "q \<in> set (w_entries w)" "fe_id q = p" "fe_org q = fe_org entry"
      by (rule wf_tree_parent [OF assms(1,3)])
    have parent: "findEntry (fe_org entry) p w = (Inr q, w)"
      using findEntry_row [OF assms(1) q(1)] q by simp
    show ?thesis
    proof (cases "fe_trashed_at q")
      case None
      have "fe_trashed_at x = None" if "x \<in> set (w_entries w)" "fe_id x = p" for x
        using distinct_ids_eq [OF dist that(1) q(1)] that(2) q(2) None by simp
      then have "List.find (\<lambda>q. fe_parent entry = Some (fe_id q) \<and> fe_trashed_at q \<noteq> None) (w_entries w) = None"
        using Some by (auto simp: find_None_iff)
      then show ?thesis
        using found updated assms(4) Some parent None by (auto simp: restore_def Let_def seqE_def catchE_def guardE_def)
    next
      case (Some a)
      have "List.find (\<lambda>q. fe_parent entry = Some (fe_id q) \<and> fe_trashed_at q \<noteq> None) (w_entries w) = Some q"
      proof (cases "List.find (\<lambda>q. fe_parent entry = Some (fe_id q) \<and> fe_trashed_at q \<noteq> None) (w_entries w)")
        case None
        then show ?thesis using q \<open>fe_parent entry = Some p\<close> Some by (auto simp: find_None_iff)
      next
        case (Some x)
        then show ?thesis
          using find_eq_Some_ex [OF Some] distinct_ids_eq [OF dist _ q(1), of x] q(2) \<open>fe_parent entry = Some p\<close>
          by simp
      qed
      then show ?thesis
        using found assms(4) \<open>fe_parent entry = Some p\<close> parent Some
        by (auto simp: restore_def Let_def seqE_def catchE_def guardE_def)
    qed
  qed
qed

end
