(* ===== verification/SubtreeSize.thy ===== *)
theory SubtreeSize
  imports FileListing FileAccess
begin

text \<open>
  What the byte range of \<open>subtreeBytes\<close> selects. The range is a condition on the cached \<open>path\<close>
  column; the theorems relate it first to path prefixes and then to the tree \<open>parent_id\<close> describes.
\<close>

lemma slash_between: "CHR ''/'' \<le> c \<and> c < CHR ''0'' \<longleftrightarrow> c = CHR ''/''"
proof -
  have "(of_char c :: nat) = of_char CHR ''/'' \<longleftrightarrow> c = CHR ''/''"
    by (rule of_char_eq_iff)
  moreover have "(of_char CHR ''/'' :: nat) = 47" and "(of_char CHR ''0'' :: nat) = 48"
    by simp_all
  ultimately show ?thesis
    unfolding less_eq_char_def less_char_def by linarith
qed

lemma inSubtreeRange_prefix: "inSubtreeRange p d \<longleftrightarrow> (\<exists>s. d = p @ CHR ''/'' # s)"
proof (induction p arbitrary: d)
  case Nil
  show ?case
  proof (cases d)
    case Nil
    then show ?thesis by (simp add: inSubtreeRange_def)
  next
    case (Cons c s)
    have "inSubtreeRange [] d \<longleftrightarrow> CHR ''/'' \<le> c \<and> c < CHR ''0''"
      by (auto simp: inSubtreeRange_def Cons)
    then show ?thesis
      using slash_between [of c] Cons by simp
  qed
next
  case (Cons x p)
  show ?case
  proof (cases d)
    case Nil
    then show ?thesis by (simp add: inSubtreeRange_def)
  next
    case (Cons c s)
    have "inSubtreeRange (x # p) d \<longleftrightarrow> c = x \<and> inSubtreeRange p s"
      by (auto simp: inSubtreeRange_def Cons)
    then show ?thesis
      using Cons.IH [of s] Cons by auto
  qed
qed

lemma slash_head: "us @ CHR ''/'' # s = CHR ''/'' # n \<Longrightarrow> CHR ''/'' \<notin> set n \<Longrightarrow> us = []"
  by (cases us) auto

lemma split_last_slash:
  assumes "p @ CHR ''/'' # s = q @ CHR ''/'' # n" and "CHR ''/'' \<notin> set n"
  shows "p = q \<or> (\<exists>s'. q = p @ CHR ''/'' # s')"
  using assms by (auto simp: append_eq_append_conv2 Cons_eq_append_conv dest: slash_head)

lemma path_prefix_below:
  assumes wf: "wf_tree db" and ok: "paths_ok db"
    and "lineage db (Some (fe_id d)) (d # rs)"
  shows "(\<exists>s. fe_path d = p @ CHR ''/'' # s) \<longleftrightarrow>
     p = [] \<or> (\<exists>a \<in> set rs. fe_path a = p)"
  using assms(3)
proof (induction rs arbitrary: d)
  case Nil
  then have d: "fe_parent d = None" "d \<in> set db" by simp_all
  then have path: "fe_path d = CHR ''/'' # fe_name d" "CHR ''/'' \<notin> set (fe_name d)"
    using ok by (auto simp: paths_ok_def)
  then show ?case using slash_head [of p _ "fe_name d"] by auto
next
  case (Cons q rs)
  then have d: "d \<in> set db" "fe_parent d = Some (fe_id q)" "q \<in> set db"
    and lin: "lineage db (Some (fe_id q)) (q # rs)"
    by simp_all
  obtain q' where "q' \<in> set db" "fe_id q' = fe_id q" "fe_path d = fe_path q' @ CHR ''/'' # fe_name d"
    using paths_okD [OF ok d(1,2)] by metis
  moreover from this have "q' = q"
    using distinct_ids_eq d(3) wf by (auto simp: wf_tree_def)
  ultimately have path: "fe_path d = fe_path q @ CHR ''/'' # fe_name d" by simp
  have slash: "CHR ''/'' \<notin> set (fe_name d)"
    using ok d(1) by (auto simp: paths_ok_def)
  have "(\<exists>s. fe_path d = p @ CHR ''/'' # s) \<longleftrightarrow> p = fe_path q \<or> (\<exists>s. fe_path q = p @ CHR ''/'' # s)"
  proof
    assume "\<exists>s. fe_path d = p @ CHR ''/'' # s"
    then show "p = fe_path q \<or> (\<exists>s. fe_path q = p @ CHR ''/'' # s)"
      using split_last_slash [OF _ slash] path by metis
  next
    assume "p = fe_path q \<or> (\<exists>s. fe_path q = p @ CHR ''/'' # s)"
    then show "\<exists>s. fe_path d = p @ CHR ''/'' # s"
      using path by auto
  qed
  then show ?case
    using Cons.IH [OF lin] by auto
qed

lemma lineage_below:
  assumes "wf_tree db" and "lineage db (Some (fe_id d)) (d # rs)"
  shows "a \<in> set rs \<longleftrightarrow> (d, a) \<in> (row_up db)\<^sup>+ \<and> a \<in> set db"
  using assms(2)
proof (induction rs arbitrary: d)
  case Nil
  then have "(d, x) \<notin> row_up db" for x by (simp add: row_up_def)
  then show ?case by (auto dest: tranclD)
next
  case (Cons q rs)
  then have d: "d \<in> set db" "fe_parent d = Some (fe_id q)" "q \<in> set db"
    and lin: "lineage db (Some (fe_id q)) (q # rs)"
    by simp_all
  have up: "(d, x) \<in> row_up db \<and> x \<in> set db \<longleftrightarrow> x = q" for x
    using d distinct_ids_eq [of db x q] assms(1) by (auto simp: row_up_def wf_tree_def)
  have "(d, a) \<in> (row_up db)\<^sup>+ \<and> a \<in> set db \<longleftrightarrow> a = q \<or> ((q, a) \<in> (row_up db)\<^sup>+ \<and> a \<in> set db)"
  proof
    assume a: "(d, a) \<in> (row_up db)\<^sup>+ \<and> a \<in> set db"
    then obtain x where x: "(d, x) \<in> row_up db" "(x, a) \<in> (row_up db)\<^sup>*"
      by (meson tranclD)
    have "x \<in> set db"
      using x(2) a by (cases rule: converse_rtranclE) (auto simp: row_up_def)
    then have "x = q" using up x(1) by blast
    then show "a = q \<or> ((q, a) \<in> (row_up db)\<^sup>+ \<and> a \<in> set db)"
      using x(2) a by (metis rtranclD)
  next
    assume "a = q \<or> ((q, a) \<in> (row_up db)\<^sup>+ \<and> a \<in> set db)"
    then show "(d, a) \<in> (row_up db)\<^sup>+ \<and> a \<in> set db"
      using up [of q] by (auto intro: trancl_into_trancl2)
  qed
  then show ?case
    using Cons.IH [OF lin] by auto
qed

text \<open>C15. The size of a folder is the size of its subtree: when the path cache is correct and no
  other entry of the share has the folder's path, \<open>subtreeBytes\<close> adds up exactly the untrashed
  files strictly below the folder in the \<open>parent_id\<close> tree; in particular a sibling such as
  \<open>Proje+notlar.zip\<close> is not counted for \<open>Proje\<close>.\<close>

theorem subtreeBytes_is_tree_sum:
  assumes "wf_tree db" and "paths_ok db" and "f \<in> set db" and "fe_org f = org" and "fe_path f \<noteq> []"
    and "\<forall>g \<in> set db. fe_org g = org \<and> fe_share g = fe_share f \<and> fe_path g = fe_path f \<longrightarrow> g = f"
  shows "subtreeBytes db org (fe_id f) =
     sum_list (map fe_size
       (filter (\<lambda>d. fe_kind d = File \<and> fe_trashed_at d = None \<and> (d, f) \<in> (row_up db)\<^sup>+) db))"
proof -
  have dist: "distinct (map fe_id db)" using assms(1) by (simp add: wf_tree_def)
  have "List.find (\<lambda>q. fe_id q = fe_id f) (in_org org db) = Some f"
    using row_at_eq [of "in_org org db" f] dist assms(3,4)
    by (simp add: row_at_def in_org_def distinct_map_filter)
  moreover have "(fe_org d = org \<and> fe_share d = fe_share f \<and> fe_kind d = File \<and> fe_trashed_at d = None
          \<and> inSubtreeRange (fe_path f) (fe_path d))
      \<longleftrightarrow> fe_kind d = File \<and> fe_trashed_at d = None \<and> (d, f) \<in> (row_up db)\<^sup>+"
    if d: "d \<in> set db" for d
  proof -
    obtain rs where rs: "lineage (in_share (fe_org d) (fe_share d) db) (Some (fe_id d)) (d # rs)"
      using wf_tree_lineage [OF assms(1) d] by blast
    then have lin: "lineage db (Some (fe_id d)) (d # rs)"
      by (rule lineage_mono) auto
    have rs_share: "\<forall>a \<in> set rs. fe_org a = fe_org d \<and> fe_share a = fe_share d \<and> a \<in> set db"
      using lineage_rows [OF rs] by auto
    have range: "inSubtreeRange (fe_path f) (fe_path d) \<longleftrightarrow> (\<exists>a \<in> set rs. fe_path a = fe_path f)"
      using path_prefix_below [OF assms(1,2) lin] assms(5) by (simp add: inSubtreeRange_prefix)
    have below: "f \<in> set rs \<longleftrightarrow> (d, f) \<in> (row_up db)\<^sup>+"
      using lineage_below [OF assms(1) lin] assms(3) by simp
    have "fe_org d = org \<and> fe_share d = fe_share f \<and> (\<exists>a \<in> set rs. fe_path a = fe_path f)
        \<longleftrightarrow> f \<in> set rs"
      using rs_share assms(4,6) by metis
    then show ?thesis
      using range below by blast
  qed
  ultimately show ?thesis
    unfolding subtreeBytes_def subtreeSum_def in_org_def filter_filter
    by (simp, intro arg_cong [where f = "\<lambda>l. sum_list (map fe_size l)"] filter_cong [OF refl]) blast
qed

section \<open>A concrete share\<close>

definition ex_sized :: "id \<Rightarrow> id option \<Rightarrow> entry_kind \<Rightarrow> string \<Rightarrow> string \<Rightarrow> nat \<Rightarrow> FileEntryRow" where
  "ex_sized i p k n path bytes = (ex_row i p k n)\<lparr>fe_path := path, fe_size := bytes\<rparr>"

definition ex_project :: table where
  "ex_project =
     [ex_sized ''e1'' None Folder ''Proje'' ''/Proje'' 0,
      ex_sized ''e2'' (Some ''e1'') File ''a.txt'' ''/Proje/a.txt'' 7,
      ex_sized ''e3'' None File ''Proje+notlar.zip'' ''/Proje+notlar.zip'' 900]"

lemma ex_project_wf: "wf_tree ex_project"
  by (rule wf_tree_rank [where rank = "\<lambda>i. if i = ''e1'' then 0 else 1"])
     (auto simp: ex_project_def ex_sized_def ex_row_def parents_ok_def)

theorem subtreeBytes_is_tree_sum_witness:
  "subtreeBytes ex_project ''o'' ''e1'' =
     sum_list (map fe_size (filter (\<lambda>d. fe_kind d = File \<and> fe_trashed_at d = None
        \<and> (d, ex_sized ''e1'' None Folder ''Proje'' ''/Proje'' 0) \<in> (row_up ex_project)\<^sup>+) ex_project))
   \<and> subtreeBytes ex_project ''o'' ''e1'' = 7"
proof
  show "subtreeBytes ex_project ''o'' ''e1'' =
     sum_list (map fe_size (filter (\<lambda>d. fe_kind d = File \<and> fe_trashed_at d = None
        \<and> (d, ex_sized ''e1'' None Folder ''Proje'' ''/Proje'' 0) \<in> (row_up ex_project)\<^sup>+) ex_project))"
    using subtreeBytes_is_tree_sum [OF ex_project_wf, of "ex_sized ''e1'' None Folder ''Proje'' ''/Proje'' 0" "''o''"]
    by (simp add: ex_project_def ex_sized_def ex_row_def paths_ok_def)
  show "subtreeBytes ex_project ''o'' ''e1'' = 7"
    by (simp add: ex_project_def ex_sized_def ex_row_def subtreeBytes_def subtreeSum_def in_org_def
        inSubtreeRange_prefix)
qed

text \<open>
  The uniqueness hypothesis of the theorem above is not kept by the program: trashing a folder marks its own row
  only, and its name is free again at once. A folder re-created under the name of a trashed one has
  the same path, and is shown with the bytes of the files of the trashed one, though nothing is
  below it in the tree.
\<close>

definition ex_namesake :: table where
  "ex_namesake =
     [(ex_sized ''e1'' None Folder ''docs'' ''/docs'' 0)\<lparr>fe_trashed_at := Some 5, fe_trashed_by := Some ''u''\<rparr>,
      ex_sized ''e2'' (Some ''e1'') File ''a.txt'' ''/docs/a.txt'' 100,
      ex_sized ''e9'' None Folder ''docs'' ''/docs'' 0]"

theorem subtreeBytes_counts_trashed_namesake:
  "subtreeBytes ex_namesake ''o'' ''e9'' = 100
   \<and> filter (\<lambda>d. fe_parent d = Some ''e9'') ex_namesake = []"
  by (simp add: ex_namesake_def ex_sized_def ex_row_def subtreeBytes_def subtreeSum_def in_org_def
      inSubtreeRange_prefix)

section \<open>Concrete pages\<close>

definition ex_pg :: pg_text where
  "ex_pg = \<lparr>fold_identity = (\<lambda>s. s), pg_lower = (\<lambda>s. s), coll_key = (\<lambda>s. s)\<rparr>"

definition ex_listing :: table where
  "ex_listing = [ex_row ''e1'' None Folder ''a'', ex_row ''e2'' None File ''c'', ex_row ''e3'' None File ''b'']"

theorem list_pages_complete_witness:
  "map (fe_id \<circ> li_row) (walkPages 4
      (\<lambda>c. lp_page (list_page ex_pg ex_listing ''o'' ''s'' None c 1 ByName None)) None)
   = [''e3'', ''e2'', ''e1'']"
proof -
  have "map li_row (walkPages 4
      (\<lambda>c. lp_page (list_page ex_pg ex_listing ''o'' ''s'' None c 1 ByName None)) None)
    = order_by (orderBefore ex_pg (sortFragments ByName Asc)) (folderRows ex_listing ''o'' ''s'' None)"
    using list_pages_complete [of ex_listing 1 "''o''" "''s''" None 4 ex_pg ByName None]
    by (simp add: ex_listing_def ex_row_def folderRows_def)
  then have "map fe_id (map li_row (walkPages 4
      (\<lambda>c. lp_page (list_page ex_pg ex_listing ''o'' ''s'' None c 1 ByName None)) None))
    = [''e3'', ''e2'', ''e1'']"
    by (simp only:) (simp add: ex_listing_def ex_row_def folderRows_def order_by_def orderBefore_def
        sortFragments_def Let_def ex_pg_def less_entry_kind_def)
  then show ?thesis by simp
qed

definition ex_bin :: table where
  "ex_bin = map (\<lambda>r. r\<lparr>fe_trashed_at := Some 5, fe_trashed_by := Some ''u''\<rparr>) ex_listing"

theorem trash_pages_complete_witness:
  "map (fe_id \<circ> ti_row) (walkPages 4 (\<lambda>c. listTrash ex_bin ''o'' ''s'' c 2) None) = [''e3'', ''e2'', ''e1'']"
proof -
  have "map ti_row (walkPages 4 (\<lambda>c. listTrash ex_bin ''o'' ''s'' c 2) None)
    = order_by trashBefore (trashRows ex_bin ''o'' ''s'')"
    using trash_pages_complete [of ex_bin 2 "''o''" "''s''" 4]
    by (simp add: ex_bin_def ex_listing_def ex_row_def trashRows_def)
  then have "map fe_id (map ti_row (walkPages 4 (\<lambda>c. listTrash ex_bin ''o'' ''s'' c 2) None))
    = [''e3'', ''e2'', ''e1'']"
    by (simp only:) (simp add: ex_bin_def ex_listing_def ex_row_def trashRows_def order_by_def trashBefore_def)
  then show ?thesis by simp
qed

end
