(* ===== verification/FileProps.thy ===== *)
theory FileProps
  imports PurgeOrder TrashRestore SubtreeSize
begin

text \<open>
  The contracts of the operations of \<open>FilesService\<close> one by one, and concrete runs of each against
  an agent that accepts everything.
\<close>

section \<open>A concrete world\<close>

fun ex_answer :: "AgentRequest \<Rightarrow> AgentResponse" where
  "ex_answer (CreateDirectory _ _ _ _) = DirectoryCreated"
| "ex_answer (MoveEntry _ _ _) = Moved"
| "ex_answer (RemoveEntry _ _ _) = Removed"
| "ex_answer (ListDirectory _ _) = Listing []"
| "ex_answer (PublishTransfer _ _ _ n _ _) = Published n"
| "ex_answer (OpenDownload _ _) = Download ''token'' 3"
| "ex_answer (PoolStatus _) = PoolAvailable 1000"
| "ex_answer (ArchiveFolder _ _ _) = Download ''token'' 3"

definition ex_env :: "unit env" where
  "ex_env = \<lparr>env_call = (\<lambda>req d. (Inr (ex_answer req), d)), env_pg = ex_pg,
     env_id = (\<lambda>n. replicate n CHR ''i'')\<rparr>"

definition ex_share :: ShareRef where
  "ex_share = \<lparr>sh_id = ''s'', sh_name = ''ortak''\<rparr>"

definition ex_world :: "table \<Rightarrow> unit world" where
  "ex_world db = \<lparr>w_entries = db, w_uploads = [],
     w_users = [\<lparr>pu_org = ''o'', pu_user = ''u'', pu_uid = None\<rparr>], w_gids = [300006], w_retired = [300007], w_queue = [],
     w_seq = 9, w_now = 50, w_faults = [], w_disk = ()\<rparr>"

lemma ex_ids: "inj (env_id ex_env)"
  by (auto simp: ex_env_def inj_def replicate_eq_replicate)

lemmas ex_simps = ex_env_def ex_share_def ex_world_def ex_pg_def

lemmas run_simps = createFolder_def folderParent_def requireNameFree_def posixUidFor_def posixRead_def
  posixSettle_def allocateWithin_def withTenant_def
  allocate_posix_id_def assertUsable_def createDirectory_def createFolderRow_def agent_call_def
  insertRow_def newRow_def nameClash_def rowAccepted_def seqE_def catchE_def assertValidName_def
  MAX_NAME_BYTES_def Let_def map_filter_simps findEntry_def row_at_def in_org_def componentsOf_def
  updateRow_def updateRows_def moveDestination_def

lemma tree_survives_every_operation_witness:
  "let w = snd (createFolder ex_env ''o'' ex_share None ''belge'' ''u'' None (ex_world [])) in
     map fe_path (w_entries w) = [''/belge''] \<and> wf_tree (w_entries w)"
proof -
  let ?w = "snd (createFolder ex_env ''o'' ex_share None ''belge'' ''u'' None (ex_world []))"
  have "map fe_path (w_entries ?w) = [''/belge'']"
    by (simp add: run_simps ex_simps)
  moreover have "(file_step ex_env)\<^sup>*\<^sup>* (ex_world []) ?w"
    by (rule r_into_rtranclp) (rule step_createFolder)
  then have "wf_tree (w_entries ?w)"
    using tree_survives_every_operation [OF ex_ids, of "ex_world []" ?w] by (simp add: ex_world_def)
  ultimately show ?thesis by simp
qed

section \<open>Creating a folder\<close>

text \<open>
  \<open>createFolder\<close> either throws and leaves every row as it was, or adds exactly the one row it
  returns: valid name, folded name free among the visible siblings, below a visible folder of the
  same share or at its top, with the path of the parent extended by the name.
\<close>

theorem createFolder_adds_one_row:
  assumes "createFolder e org share parent name actor copied w = (res, w')"
  shows "case res of
      Inl err \<Rightarrow> w_entries w' = w_entries w
    | Inr row \<Rightarrow> w_entries w' = w_entries w @ [row] \<and> assertValidName name = Inr ()
        \<and> placed (w_entries w) row \<and> \<not> nameClash (env_pg e) (w_entries w) row
        \<and> (\<exists>path. row = newRow org (sh_id share) parent Folder name path 0 None copied
              (env_id e (w_seq w)) (w_now w))
        \<and> (\<forall>p. parent = Some p \<longrightarrow>
             (\<exists>q \<in> set (w_entries w). fe_id q = p \<and> fe_org q = org \<and> fe_trashed_at q = None))"
proof (cases res)
  case (Inl err)
  then show ?thesis
    using hoare_Inl [OF createFolder_effect at_self assms [unfolded Inl]] by (simp add: at_def)
next
  case (Inr row)
  then show ?thesis
    using hoare_Inr [OF createFolder_effect at_self assms [unfolded Inr]] by (simp add: inserted_def)
qed

lemma createFolder_adds_one_row_witness:
  "\<exists>row w'. createFolder ex_env ''o'' ex_share None ''belge'' ''u'' None (ex_world []) = (Inr row, w')
     \<and> w_entries w' = [row] \<and> fe_name row = ''belge''"
proof -
  obtain row w' where run: "createFolder ex_env ''o'' ex_share None ''belge'' ''u'' None (ex_world []) = (Inr row, w')"
    by (simp add: run_simps ex_simps)
  then show ?thesis
    using createFolder_adds_one_row [OF run] by (auto simp: newRow_def ex_world_def)
qed

section \<open>Moving\<close>

text \<open>
  C18. On a well-formed table \<open>move\<close> either throws and leaves every row as it was, or moves exactly
  one visible entry of the share: it gets the new parent and name, no other row changes but in its
  path, and afterwards the paths are right again. The destination is a visible folder of the same
  share that is not inside what was moved.
\<close>

theorem move_moves_one_entry:
  assumes "entries_ok (env_pg e) (w_entries w)"
    and "move e org i share parent newName actor w = (res, w')"
  shows "case res of
      Inl err \<Rightarrow> w_entries w' = w_entries w
    | Inr row \<Rightarrow> entries_ok (env_pg e) (w_entries w')
        \<and> (\<exists>entry \<in> set (w_entries w). fe_id entry = i \<and> fe_org entry = org \<and> fe_share entry = sh_id share
             \<and> fe_trashed_at entry = None
             \<and> strip row = strip (entry\<lparr>fe_parent := parent,
                  fe_name := (case newName of None \<Rightarrow> fe_name entry | Some n \<Rightarrow> n)\<rparr>)
             \<and> map strip (w_entries w') = map strip (replaceRow (w_entries w) row)
             \<and> (\<exists>path. targetAnswer (w_entries w) entry parent path))"
proof (cases res)
  case (Inl err)
  then show ?thesis
    using hoare_Inl [OF move_effect [OF assms(1)] at_self assms(2) [unfolded Inl]] by (simp add: at_def)
next
  case (Inr row)
  then show ?thesis
    using hoare_Inr [OF move_effect [OF assms(1)] at_self assms(2) [unfolded Inr]]
    unfolding Inr moved_to_def sum.case by blast
qed

text \<open>Two folders, a file in the first, and a third folder in the bin with a file below it.\<close>

definition ex_tree :: table where
  "ex_tree = [ex_sized ''a'' None Folder ''A'' ''/A'' 0, ex_sized ''b'' None Folder ''B'' ''/B'' 0,
     ex_sized ''c'' (Some ''a'') File ''f'' ''/A/f'' 3,
     (ex_sized ''d'' None Folder ''D'' ''/D'' 0)\<lparr>fe_trashed_at := Some 4, fe_trashed_by := Some ''u''\<rparr>,
     ex_sized ''e'' (Some ''d'') File ''g'' ''/D/g'' 5]"

lemmas ex_rows = ex_tree_def ex_sized_def ex_row_def

lemma ex_tree_ok: "entries_ok ex_pg ex_tree"
proof -
  have "wf_tree ex_tree"
    by (rule wf_tree_rank [where rank = "\<lambda>i. if i = ''c'' \<or> i = ''e'' then 1 else 0"])
       (auto simp: ex_rows parents_ok_def)
  then show ?thesis
    by (simp add: entries_ok_def paths_ok_def unique_names_def nameClash_def ex_rows ex_pg_def sameSlot_def)
qed

lemma ex_tree_env_ok: "entries_ok (env_pg ex_env) (w_entries (ex_world ex_tree))"
  using ex_tree_ok by (simp add: ex_env_def ex_world_def)

lemma move_moves_one_entry_witness:
  "\<exists>row w'. move ex_env ''o'' ''c'' ex_share (Some ''b'') (Some ''h'') ''u'' (ex_world ex_tree) = (Inr row, w')
     \<and> fe_path row = ''/B/h'' \<and> entries_ok ex_pg (w_entries w')"
proof -
  obtain row w' where run: "move ex_env ''o'' ''c'' ex_share (Some ''b'') (Some ''h'') ''u'' (ex_world ex_tree)
      = (Inr row, w')" and path: "fe_path row = ''/B/h''"
    by (simp add: run_simps ex_simps ex_rows move_def moveTarget_def moveWithRetry_def moveOnDisk_def
        moveCommit_def writeMove_def rebuildSubtreePaths_def nextLevel_def sameSlot_def guardE_def)
  show ?thesis
    using move_moves_one_entry [OF ex_tree_env_ok run] run path by (auto simp: ex_env_def)
qed

text \<open>
  \<open>rename\<close> takes \<open>allowTrashed\<close>, which the upload controller sets to park an entry of the bin
  under another name; the call it delegates to refuses every entry of the bin, so the flag never
  makes a rename succeed.
\<close>

theorem rename_of_trashed_always_fails:
  assumes "row_at (in_org org (w_entries w)) i = Some entry" and "fe_trashed_at entry \<noteq> None"
    and "assertValidName name = Inr ()"
  shows "rename e org i name share actor allowTrashed w = (Inl EntryNotFoundError, w)"
  using assms by (cases allowTrashed) (auto simp: rename_def move_def findEntry_def seqE_def guardE_def)

lemma rename_of_trashed_always_fails_witness:
  "fst (rename ex_env ''o'' ''d'' ''eski'' ex_share ''u'' True (ex_world ex_tree)) = Inl EntryNotFoundError"
  using rename_of_trashed_always_fails [of "''o''" "ex_world ex_tree" "''d''" "ex_tree ! 3" "''eski''" ex_env]
  by (simp add: ex_world_def ex_rows row_at_def in_org_def assertValidName_def MAX_NAME_BYTES_def)

section \<open>The bin\<close>

text \<open>
  C20. \<open>purge\<close> deletes nothing outside the subtree of the entry it is given and keeps the table
  well-formed however it ends; a row that stays changes only if it is a copy of a deleted entry, and then
  only forgets its source, which its time of change shows. When \<open>purge\<close> returns, the entry was in the bin and all of its subtree is gone,
  and nothing else.
\<close>

theorem purge_deletes_the_subtree:
  assumes "entries_ok (env_pg e) (w_entries w)" and "purge e org i share w = (res, w')"
  shows "entries_ok (env_pg e) (w_entries w') \<and>
    (\<exists>gone \<subseteq> subtree (w_entries w) org i. w_entries w' = dropAll (w_now w) org gone (w_entries w)
       \<and> (res = Inr () \<longrightarrow> gone = subtree (w_entries w) org i
            \<and> (\<exists>entry \<in> set (w_entries w). fe_id entry = i \<and> fe_org entry = org
                 \<and> fe_share entry = sh_id share \<and> fe_trashed_at entry \<noteq> None)))"
  using purge_fate [OF assms] by blast

lemma purge_deletes_the_subtree_witness:
  "\<exists>res w'. purge ex_env ''o'' ''d'' ex_share (ex_world ex_tree) = (res, w') \<and> entries_ok ex_pg (w_entries w')"
  using purge_deletes_the_subtree [OF ex_tree_env_ok]
  by (cases "purge ex_env ''o'' ''d'' ex_share (ex_world ex_tree)") (auto simp: ex_env_def)

text \<open>
  C21. An entry of the bin can always be deleted: if the agent removes what it is asked to remove, or
  finds it gone, and no transaction fails, \<open>purge\<close> returns with exactly the subtree deleted. The
  order of the loop is what makes it so; no row is deleted while another still names it as parent.
\<close>

theorem purge_completes:
  assumes "entries_ok pg (w_entries w)" and "w_faults w = []"
    and "\<And>share parts dir d. \<exists>a d'. env_call e (RemoveEntry share parts dir) d = (Inr a, d') \<and> isGone a"
    and "entry \<in> set (w_entries w)" and "fe_share entry = sh_id share" and "fe_trashed_at entry \<noteq> None"
  shows "\<exists>w'. purge e (fe_org entry) (fe_id entry) share w = (Inr (), w')
     \<and> w_entries w' = dropAll (w_now w) (fe_org entry) (subtree (w_entries w) (fe_org entry) (fe_id entry)) (w_entries w)"
  by (rule purge_completes_run [OF assms(1-4) refl refl assms(5,6)])

lemma purge_completes_witness:
  "\<exists>w'. purge ex_env ''o'' ''d'' ex_share (ex_world ex_tree) = (Inr (), w')
     \<and> map fe_id (w_entries w') = [''a'', ''b'', ''c'']"
proof -
  obtain w' where w': "purge ex_env ''o'' ''d'' ex_share (ex_world ex_tree) = (Inr (), w')"
    "w_entries w' = dropAll 50 ''o'' (subtree ex_tree ''o'' ''d'') ex_tree"
    using purge_completes [OF ex_tree_env_ok, of ex_env "ex_tree ! 3" ex_share]
    by (auto simp: ex_simps ex_rows)
  have "map fe_id (w_entries (snd (purge ex_env ''o'' ''d'' ex_share (ex_world ex_tree)))) = [''a'', ''b'', ''c'']"
    by (simp add: ex_simps ex_rows purge_def purgeNodes_def purgeNode_def dropRows_def deleteEntry_def forgetSource_def run_simps guardE_def
        nextLevel_def order_by_def)
  then show ?thesis using w'(1) by simp
qed

text \<open>
  C22. Whatever the agent does, a visible entry can be put in the bin when no transaction fails; and
  restoring it straight away, below a visible parent, gives back the row it was: same place, name,
  path and content, with only \<open>updated_at\<close> changed.
\<close>

theorem trash_then_restore:
  assumes "entries_ok (env_pg e) (w_entries w)" and "w_faults w = []" and "entry \<in> set (w_entries w)"
    and "fe_trashed_at entry = None" and "rowAccepted (w_entries w) entry"
    and "\<And>q. q \<in> set (w_entries w) \<Longrightarrow> fe_parent entry = Some (fe_id q) \<Longrightarrow> fe_trashed_at q = None"
  shows "\<exists>r1 w1 r2 w2. trash e (fe_org entry) (fe_id entry) user share w = (Inr r1, w1)
     \<and> fe_trashed_at r1 = Some (w_now w)
     \<and> restore e (fe_org entry) (fe_id entry) w1 = (Inr r2, w2)
     \<and> r2 = entry\<lparr>fe_trashed_by := None, fe_recycled := False, fe_updated_at := w_now w\<rparr>
     \<and> w_entries w2 = replaceRow (w_entries w) r2"
proof -
  note ok = entries_okD [OF assms(1)]
  obtain inBin w1 r1 where r1: "r1 = entry\<lparr>fe_trashed_at := Some (w_now w), fe_trashed_by := Some user,
           fe_recycled := inBin, fe_updated_at := w_now w\<rparr>"
    and w1: "trash e (fe_org entry) (fe_id entry) user share w = (Inr r1, w1)"
      "w_entries w1 = replaceRow (w_entries w) r1" "w_faults w1 = []" "w_now w1 = w_now w"
    using trash_value [OF ok(1) assms(2-5), of user e share] unfolding Let_def by blast
  have ok1: "entries_ok (env_pg e) (w_entries w1)"
    unfolding w1(2)
    by (rule replace_same_place [OF assms(1,3)]) (simp_all add: r1 nameClash_def)
  have r1_in: "r1 \<in> set (w_entries w1)"
    using assms(3) by (auto simp: w1(2) set_replaceRow r1)
  let ?r2 = "entry\<lparr>fe_trashed_at := None, fe_trashed_by := None, fe_recycled := False, fe_updated_at := w_now w\<rparr>"
  have shown: "List.find (\<lambda>q. fe_parent r1 = Some (fe_id q) \<and> fe_trashed_at q \<noteq> None) (w_entries w1) = None"
  proof -
    have "fe_parent entry \<noteq> Some (fe_id entry)"
      using row_up_acyclic [OF ok(1), of entry entry] assms(3) by (auto simp: row_up_def)
    then show ?thesis
      using assms(6) by (auto simp: find_None_iff w1(2) set_replaceRow r1 split: if_splits)
  qed
  have free: "\<not> nameClash (env_pg e) (w_entries w1) ?r2"
  proof -
    have "\<not> nameClash (env_pg e) (w_entries w) entry" using ok(3) assms(3) by (simp add: unique_names_def)
    then show ?thesis
      using assms(4) by (auto simp: nameClash_iff w1(2) set_replaceRow r1 sameSlot_def split: if_splits)
  qed
  have accepted: "rowAccepted (w_entries w1) r1"
  proof -
    have "rowAccepted (w_entries w1) entry = rowAccepted (w_entries w) entry"
      unfolding rowAccepted_def w1(2)
      by (auto simp: list_ex_iff set_replaceRow r1 assms(3) split: option.splits) (metis r1)?
    then show ?thesis using assms(5) rowAccepted_fields [of _ entry r1] by (simp add: r1)
  qed
  have twice: "replaceRow (replaceRow (w_entries w) r1) ?r2 = replaceRow (w_entries w) ?r2"
    by (simp add: replaceRow_def r1)
  have "restore e (fe_org entry) (fe_id entry) w1
      = (Inr ?r2, w1\<lparr>w_entries := replaceRow (w_entries w1) ?r2\<rparr>)"
    using restore_value [OF entries_okD(1) [OF ok1] w1(3) r1_in _ accepted, of e] shown free w1(4)
    by (simp add: r1 Let_def)
  then show ?thesis
    using w1 twice assms(4) by (intro exI [of _ r1] exI [of _ w1] exI [of _ ?r2] exI) (auto simp: r1)
qed

lemma trash_then_restore_witness:
  "\<exists>w1 r2 w2. snd (trash ex_env ''o'' ''c'' ''u'' ex_share (ex_world ex_tree)) = w1
     \<and> restore ex_env ''o'' ''c'' w1 = (Inr r2, w2) \<and> fe_path r2 = ''/A/f'' \<and> fe_trashed_at r2 = None"
proof -
  let ?c = "ex_tree ! 2"
  have visible: "fe_trashed_at q = None" if "q \<in> set (w_entries (ex_world ex_tree))" "fe_parent ?c = Some (fe_id q)" for q
  proof -
    have "\<forall>q \<in> set ex_tree. fe_parent ?c = Some (fe_id q) \<longrightarrow> fe_trashed_at q = None"
      by (simp add: ex_rows)
    then show ?thesis using that by (simp add: ex_world_def)
  qed
  have "?c \<in> set (w_entries (ex_world ex_tree))" "fe_trashed_at ?c = None"
    "rowAccepted (w_entries (ex_world ex_tree)) ?c" "w_faults (ex_world ex_tree) = []"
    by (simp_all add: ex_world_def ex_rows rowAccepted_def)
  from trash_then_restore [OF ex_tree_env_ok this(4,1,2,3) visible, of "''u''" ex_share]
  obtain w1 r2 w2 where "snd (trash ex_env (fe_org ?c) (fe_id ?c) ''u'' ex_share (ex_world ex_tree)) = w1"
    "restore ex_env (fe_org ?c) (fe_id ?c) w1 = (Inr r2, w2)"
    "r2 = ?c\<lparr>fe_trashed_by := None, fe_recycled := False, fe_updated_at := w_now (ex_world ex_tree)\<rparr>"
    by (metis snd_conv)
  moreover have "fe_org ?c = ''o''" "fe_id ?c = ''c''" "fe_path ?c = ''/A/f''" "fe_trashed_at ?c = None"
    by (simp_all add: ex_rows)
  ultimately show ?thesis by auto
qed

text \<open>
  C23. Restoring an entry of the bin is decided by the table alone, in this order: a parent that is in
  the bin itself refuses it with \<open>TrashedParentError\<close>, a visible sibling whose name folds to the same
  refuses it with \<open>NameTakenError\<close>, and otherwise the row is visible again and nothing else changes.
\<close>

theorem restore_outcome:
  assumes "wf_tree (w_entries w)" and "w_faults w = []" and "entry \<in> set (w_entries w)"
    and "fe_trashed_at entry \<noteq> None" and "rowAccepted (w_entries w) entry"
  shows "restore e (fe_org entry) (fe_id entry) w =
     (let r = entry\<lparr>fe_trashed_at := None, fe_trashed_by := None, fe_recycled := False, fe_updated_at := w_now w\<rparr>
      in case List.find (\<lambda>q. fe_parent entry = Some (fe_id q) \<and> fe_trashed_at q \<noteq> None) (w_entries w) of
           Some q \<Rightarrow> (Inl (TrashedParentError (fe_name q)), w)
         | None \<Rightarrow>
             if nameClash (env_pg e) (w_entries w) r then (Inl (NameTakenError (fe_name entry)), w)
             else (Inr r, w\<lparr>w_entries := replaceRow (w_entries w) r\<rparr>))"
  unfolding restore_value [OF assms] Let_def by simp

lemma restore_outcome_witness:
  "fst (restore ex_env ''o'' ''e'' (ex_world (map (\<lambda>r. if fe_id r = ''e'' then r\<lparr>fe_trashed_at := Some 5\<rparr> else r) ex_tree)))
   = Inl (TrashedParentError ''D'')"
proof -
  let ?w = "ex_world (map (\<lambda>r. if fe_id r = ''e'' then r\<lparr>fe_trashed_at := Some 5\<rparr> else r) ex_tree)"
  have "wf_tree (w_entries ?w)"
    by (rule wf_tree_rank [where rank = "\<lambda>i. if i = ''c'' \<or> i = ''e'' then 1 else 0"])
       (auto simp: ex_world_def ex_rows parents_ok_def)
  then show ?thesis
    using restore_outcome [of ?w "(ex_tree ! 4)\<lparr>fe_trashed_at := Some 5\<rparr>" ex_env]
    by (simp add: ex_world_def ex_rows rowAccepted_def Let_def)
qed

end
