(* ===== verification/DiskProps.thy ===== *)
theory DiskProps
  imports DiskUndo FileProps
begin

text \<open>
  \<open>FilesService\<close> running against the model of the agent's directory operations: concrete runs, and
  two behaviours that only show when the two halves are put together.
\<close>

section \<open>A concrete disk\<close>

definition ex_disk_env :: "disk env" where
  "ex_disk_env = \<lparr>env_call = agent_disk (\<lambda>r d. (Inl ''closed'', d)), env_pg = ex_pg,
     env_id = (\<lambda>n. replicate n CHR ''i'')\<rparr>"

definition ex_nodes :: nodes where
  "ex_nodes = {(''ortak'', [], DirN), (''ortak'', BIN, DirN), (''ortak'', [''A''], DirN), (''ortak'', [''B''], DirN),
     (''ortak'', [''A'', ''f''], FileN ''bytes'')}"

definition ex_disk :: "string option list \<Rightarrow> disk" where
  "ex_disk io = \<lparr>dk_configured = True, dk_busy = {}, dk_io = io, dk_nodes = ex_nodes\<rparr>"

definition ex_disk_table :: table where
  "ex_disk_table = [ex_sized ''a'' None Folder ''A'' ''/A'' 0, ex_sized ''b'' None Folder ''B'' ''/B'' 0,
     ex_sized ''c'' (Some ''a'') File ''f'' ''/A/f'' 3]"

definition ex_disk_world :: "file_error option list \<Rightarrow> string option list \<Rightarrow> disk world" where
  "ex_disk_world faults io = \<lparr>w_entries = ex_disk_table, w_uploads = [],
     w_users = [\<lparr>pu_org = ''o'', pu_user = ''u'', pu_uid = Some 300001\<rparr>], w_gids = [], w_retired = [], w_queue = [],
     w_seq = 9, w_now = 50, w_faults = faults, w_disk = ex_disk io\<rparr>"

lemma ex_disk_ok: "disk_ok ex_nodes"
  by (simp add: disk_ok_def ex_nodes_def BIN_def)

lemmas disk_simps = ex_disk_env_def ex_disk_world_def ex_disk_table_def ex_sized_def ex_row_def ex_share_def
  ex_pg_def create_directory_def move_entry_def remove_entry_def on_disk_def is_dir_def posixId_def STAGING_def
  ex_disk_def ex_nodes_def BIN_def has_children_def strict_prefix_def relocate_def deliver_def outcome_def sysCall_def
  create_dir_def publish_rename_def remove_at_def open_dir_def mkdirat_def onDescriptor_def renameat_def unlinkat_def
  walkDir.simps seqE_def catchE_def

lemma ioFailed_quiet: "dk_io d = [] \<Longrightarrow> \<not> ioFailed d d'"
  by (simp add: ioFailed_def)

lemma createFolder_leaves_no_orphan_witness:
  "\<exists>w'. createFolder ex_disk_env ''o'' ex_share None ''yeni'' ''u'' None
         (ex_disk_world [None, Some (DatabaseError ''lost'')] []) = (Inl (DatabaseError ''lost''), w')
     \<and> dk_nodes (w_disk w') = ex_nodes"
proof -
  let ?w = "ex_disk_world [None, Some (DatabaseError ''lost'')] []"
  obtain w' where run: "createFolder ex_disk_env ''o'' ex_share None ''yeni'' ''u'' None ?w
      = (Inl (DatabaseError ''lost''), w')"
    by (simp add: run_simps disk_simps)
  have "dk_nodes (w_disk w') = dk_nodes (w_disk ?w) \<or> ioFailed (w_disk ?w) (w_disk w') \<or> dk_busy (w_disk ?w) \<noteq> {}"
  proof -
    have "env_call ex_disk_env = agent_disk (\<lambda>r d. (Inl ''closed'', d))" by (simp add: ex_disk_env_def)
    moreover have "disk_ok (dk_nodes (w_disk ?w))" using ex_disk_ok by (simp add: ex_disk_world_def ex_disk_def)
    moreover have "is_dir (dk_nodes (w_disk ?w)) (sh_name ex_share) cs"
      if "fst (folderParent ''o'' ex_share None ?w) = Inr (path, cs)" for path cs
      using that by (auto simp: folderParent_def disk_simps)
    ultimately show ?thesis using createFolder_leaves_no_orphan [OF _ _ _ run] by blast
  qed
  moreover have "dk_io (w_disk ?w) = []" "dk_busy (w_disk ?w) = {}" "dk_nodes (w_disk ?w) = ex_nodes"
    by (simp_all add: ex_disk_world_def ex_disk_def)
  ultimately show ?thesis using run ioFailed_quiet by simp
qed

text \<open>The exception is real: the connection breaks before the request that was to take the directory back.\<close>

theorem orphan_when_the_undo_is_lost:
  "let (r, w') = createFolder ex_disk_env ''o'' ex_share None ''yeni'' ''u'' None
         (ex_disk_world [None, Some (DatabaseError ''lost'')] [None, None, None, None, None, None, None, None, Some ''closed'']) in
     r = Inl (DatabaseError ''lost'') \<and> on_disk (dk_nodes (w_disk w')) ''ortak'' [''yeni'']"
  by (simp add: run_simps disk_simps)

lemma move_leaves_disk_unchanged_on_error_witness:
  "\<exists>w'. move ex_disk_env ''o'' ''c'' ex_share (Some ''b'') None ''u''
         (ex_disk_world [Some (DatabaseError ''lost'')] []) = (Inl (DatabaseError ''lost''), w')
     \<and> dk_nodes (w_disk w') = ex_nodes"
proof -
  let ?w = "ex_disk_world [Some (DatabaseError ''lost'')] []"
  obtain w' where run: "move ex_disk_env ''o'' ''c'' ex_share (Some ''b'') None ''u'' ?w
      = (Inl (DatabaseError ''lost''), w')"
    by (simp add: run_simps disk_simps move_def moveTarget_def moveWithRetry_def moveOnDisk_def moveCommit_def
        guardE_def)
  have "dk_nodes (w_disk w') = dk_nodes (w_disk ?w) \<or> ioFailed (w_disk ?w) (w_disk w')"
  proof -
    have "env_call ex_disk_env = agent_disk (\<lambda>r d. (Inl ''closed'', d))" by (simp add: ex_disk_env_def)
    moreover have "disk_ok (dk_nodes (w_disk ?w))" using ex_disk_ok by (simp add: ex_disk_world_def ex_disk_def)
    moreover have "src \<noteq> [] \<and> on_disk (dk_nodes (w_disk ?w)) (sh_name ex_share) src"
      if "fst (componentsOf ''o'' ''c'' ?w) = Inr src" for src
      using that by (auto simp: run_simps disk_simps)
    moreover have "is_dir (dk_nodes (w_disk ?w)) (sh_name ex_share) (butlast dst)"
      if "fst (moveDestination ''o'' (Some ''b'') name ?w) = Inr dst" for dst name
      using that by (auto simp: run_simps disk_simps)
    ultimately show ?thesis using move_leaves_disk_unchanged_on_error [OF _ _ _ _ run] by blast
  qed
  moreover have "dk_io (w_disk ?w) = []" "dk_nodes (w_disk ?w) = ex_nodes"
    by (simp_all add: ex_disk_world_def ex_disk_def)
  ultimately show ?thesis using run ioFailed_quiet by simp
qed

text \<open>So is that of a move: the rename has happened, the directory cannot be made durable, and the answer is a failure.\<close>

theorem moved_though_it_failed:
  "let (r, w') = move ex_disk_env ''o'' ''c'' ex_share (Some ''b'') None ''u''
         (ex_disk_world [] [None, None, None, None, Some ''fsync'']) in
     r = Inl (AgentRefusedError ''fsync'') \<and> on_disk (dk_nodes (w_disk w')) ''ortak'' [''B'', ''f'']
     \<and> map fe_path (w_entries w') = [''/A'', ''/B'', ''/A/f'']"
  by (simp add: run_simps disk_simps move_def moveTarget_def moveWithRetry_def moveOnDisk_def moveCommit_def guardE_def)

section \<open>The bin\<close>

lemma chainPrefixes_first: "xs \<noteq> [] \<Longrightarrow> \<exists>rest. chainPrefixes xs = take 1 xs # rest"
  by (cases xs) (simp_all add: chainPrefixes_def upt_conv_Cons del: upt_Suc)

text \<open>
  The agent does not create the folder of the bin by hand, and \<open>ensureDirectories\<close> stops at the first
  component it is refused; so \<open>moveToTheBin\<close> never creates the folders of the mirror below the bin.
\<close>

lemma quiet_calls:
  assumes "dk_io d = []"
  shows "outcome d = (None, d)" "sysCall act d = act d" "act' d = (ans, d) \<Longrightarrow> deliver act' d = (Inr ans, d)"
  using assms by (simp_all add: outcome_def sysCall_def deliver_def)

lemma ensure_in_bin:
  assumes "env_call e = agent_disk other" and "dk_io (w_disk w) = []"
  shows "ensureDirectories e s [BIN @ dirs] uid w = (Inr False, w)"
proof -
  obtain rest where chain: "chainPrefixes (BIN @ dirs) = BIN # rest"
    using chainPrefixes_first [of "BIN @ dirs"] by (auto simp: BIN_def)
  have "\<exists>reason. create_directory s BIN uid uid (w_disk w) = (Refused reason, w_disk w)"
    by (auto simp: create_directory_def BIN_def STAGING_def)
  then obtain reason where "deliver (create_directory s BIN uid uid) (w_disk w) = (Inr (Refused reason), w_disk w)"
    using quiet_calls(3) [OF assms(2)] by blast
  then show ?thesis
    using assms(1) chain by (simp add: ensureDirectories_def agent_call_def seqE_def)
qed

lemma move_into_nothing:
  assumes "dk_io d = []" and "\<not> on_disk (dk_nodes d) s (butlast b)"
  shows "\<exists>ans. deliver (move_entry s a b) d = (Inr ans, d) \<and> ans \<noteq> Moved \<and> (\<forall>reason. ans \<noteq> Conflict reason)"
proof -
  have "walkDir (dk_nodes d) s [] (butlast b) \<noteq> Inr ()"
    using walkDir_opened [of "dk_nodes d" s "[]" "butlast b"] assms(2) is_dir_on_disk by fastforce
  then have none: "walkDir (dk_nodes d) s [] (butlast b) \<in> {Inl SeamNotFound, Inl SeamNotADirectory}"
    by (rule walkDir_errors)
  have "walkDir (dk_nodes d) s [] (butlast a) \<in> {Inr (), Inl SeamNotFound, Inl SeamNotADirectory}"
    using walkDir_errors [of "dk_nodes d" s "[]" "butlast a"] by blast
  with none have "\<exists>ans. move_entry s a b d = (ans, d) \<and> ans \<noteq> Moved \<and> (\<forall>reason. ans \<noteq> Conflict reason)"
    by (auto simp: move_entry_def publish_rename_def seqE_def open_dir_def quiet_calls(2) [OF assms(1)])
  then show ?thesis using quiet_calls(3) [OF assms(1)] by blast
qed

theorem nested_entries_never_reach_the_bin:
  assumes "env_call e = agent_disk other" and "dirs \<noteq> []" and "dk_io (w_disk w) = []"
    and "\<not> on_disk (dk_nodes (w_disk w)) (sh_name share) (BIN @ dirs)"
  shows "\<exists>w'. moveToTheBin e org share (dirs @ [name]) directory user w = (Inr False, w') \<and> w_disk w' = w_disk w"
proof -
  have stuck: "\<exists>r. tryCall e (MoveEntry (sh_name share) (dirs @ [name]) (BIN @ dirs @ [name])) u = (Inr (Some r), u)
      \<and> (\<forall>reason. r \<noteq> Conflict reason) \<and> r \<noteq> Moved" if u: "w_disk u = w_disk w" for u
  proof -
    have "\<not> on_disk (dk_nodes (w_disk w)) (sh_name share) (butlast (BIN @ dirs @ [name]))"
      using assms(4) by (simp add: butlast_append)
    from move_into_nothing [OF assms(3) this, of "dirs @ [name]"] obtain ans
      where "deliver (move_entry (sh_name share) (dirs @ [name]) (BIN @ dirs @ [name])) (w_disk w) = (Inr ans, w_disk w)"
        "ans \<noteq> Moved" "\<forall>reason. ans \<noteq> Conflict reason" by blast
    then show ?thesis using assms(1) u by (simp add: tryCall_def catchE_def seqE_def agent_call_def)
  qed
  obtain uid w1 where uid: "catchE (seqE (posixUidFor org user) (\<lambda>u. ret (Some u))) (\<lambda>_. ret None) w = (Inr uid, w1)"
    using never_throws_catch [of "seqE (posixUidFor org user) (\<lambda>u. ret (Some u))" None w] by blast
  have "still (catchE (seqE (posixUidFor org user) (\<lambda>u. ret (Some u))) (\<lambda>_. ret None))"
    by (intro still_rules)
  then have same: "w_disk w1 = w_disk w"
    using uid unfolding still_def by (metis snd_conv)
  show ?thesis
  proof (cases uid)
    case None
    then show ?thesis using uid same by (simp add: moveToTheBin_def Let_def)
  next
    case (Some n)
    from stuck [OF same] obtain r where r: "tryCall e (MoveEntry (sh_name share) (dirs @ [name]) (BIN @ dirs @ [name])) w1
        = (Inr (Some r), w1)" "\<forall>reason. r \<noteq> Conflict reason" "r \<noteq> Moved" by blast
    have "ensureDirectories e (sh_name share) [BIN @ dirs] n w1 = (Inr False, w1)"
      by (rule ensure_in_bin [OF assms(1)]) (simp add: same assms(3))
    with r show ?thesis
      using uid Some same
      by (cases r) (simp_all add: moveToTheBin_def Let_def seqE_def catchE_def butlast_append)
  qed
qed

text \<open>
  Deleting for good a folder that did reach the bin: the loop asks for the entries below it at their
  old place, where the agent cannot open the parent any more and answers a failure, not an absence.
\<close>

theorem purge_of_binned_folder_fails:
  "let (r, w1) = trash ex_disk_env ''o'' ''a'' ''u'' ex_share (ex_disk_world [] []) in
     (case r of Inl _ \<Rightarrow> False | Inr row \<Rightarrow> fe_recycled row)
     \<and> fst (purge ex_disk_env ''o'' ''a'' ex_share w1) = Inl (AgentRefusedError ''no such file or directory'')"
  by (simp add: run_simps disk_simps trash_def moveToTheBin_def tryCall_def ensureDirectories_def chainPrefixes_def
      purge_def purgeNodes_def purgeNode_def guardE_def nextLevel_def order_by_def replaceRow_def)

end
