(* ===== verification/Overlap.thy ===== *)
theory Overlap
  imports FileProps
begin

text \<open>
  Where the calls of \<open>FilesService\<close> overlap. The other theories run each call alone, from its first statement to
  its last. The code checks in one transaction and writes in a later one, and nothing is locked in between: here are
  two overlapping runs after which the table is no longer what every sequence of whole calls keeps.
\<close>

text \<open>
  A is moved into B while B is moved into A. Both ask where the destination lies before either writes, so both may go
  on; their last transactions see each other's row as it was, each rebuilds the paths of its own subtree, and each
  commits the row it has changed. Afterwards A lies in B and B in A.
\<close>

theorem overlapping_moves_close_a_cycle:
  fixes w :: "unit world"
  defines "w \<equiv> ex_world ex_tree"
  shows "fst (moveTarget ''o'' ''a'' (ex_tree ! 0) (Some ''b'') w) = Inr ''/B''
    \<and> fst (moveTarget ''o'' ''b'' (ex_tree ! 1) (Some ''a'') w) = Inr ''/A''
    \<and> (\<exists>ra w1 rb w2. writeMove ex_env ''o'' ''a'' (Some ''b'') ''A'' ''/B/A'' w = Inr (ra, w1)
         \<and> writeMove ex_env ''o'' ''b'' (Some ''a'') ''B'' ''/A/B'' w = Inr (rb, w2)
         \<and> \<not> wf_tree (replaceRow (w_entries w1) rb))"
proof -
  have checks: "fst (moveTarget ''o'' ''a'' (ex_tree ! 0) (Some ''b'') w) = Inr ''/B''"
    "fst (moveTarget ''o'' ''b'' (ex_tree ! 1) (Some ''a'') w) = Inr ''/A''"
    by (simp_all add: w_def moveTarget_def run_simps ex_simps ex_rows guardE_def isSelfOrDescendant_def)
  obtain ra w1 where a: "writeMove ex_env ''o'' ''a'' (Some ''b'') ''A'' ''/B/A'' w = Inr (ra, w1)"
    "map (\<lambda>r. (fe_id r, fe_parent r)) (w_entries w1)
       = [(''a'', Some ''b''), (''b'', None), (''c'', Some ''a''), (''d'', None), (''e'', Some ''d'')]"
    by (simp add: w_def writeMove_def rebuildSubtreePaths_def nextLevel_def sameSlot_def run_simps ex_simps ex_rows)
  obtain rb w2 where b: "writeMove ex_env ''o'' ''b'' (Some ''a'') ''B'' ''/A/B'' w = Inr (rb, w2)"
    "fe_id rb = ''b''" "fe_parent rb = Some ''a''"
    by (simp add: w_def writeMove_def rebuildSubtreePaths_def nextLevel_def sameSlot_def run_simps ex_simps ex_rows)
  have linked: "map (\<lambda>r. (fe_id r, fe_parent r)) (replaceRow db rb)
      = map (\<lambda>(i, p). if i = ''b'' then (i, Some ''a'') else (i, p)) (map (\<lambda>r. (fe_id r, fe_parent r)) db)" for db
    using b(2,3) by (simp add: replaceRow_def)
  have pair: "(i, p) \<in> parent_rel db" if "(i, Some p) \<in> set (map (\<lambda>r. (fe_id r, fe_parent r)) db)" for i p db
    using that by (force simp: parent_rel_def)
  have "(''a'', ''b'') \<in> parent_rel (replaceRow (w_entries w1) rb)" "(''b'', ''a'') \<in> parent_rel (replaceRow (w_entries w1) rb)"
    by (rule pair, unfold linked a(2), simp)+
  then have "\<not> acyclic (parent_rel (replaceRow (w_entries w1) rb))"
    by (meson acyclic_def trancl.r_into_trancl trancl_into_trancl)
  then have "\<not> wf_tree (replaceRow (w_entries w1) rb)" by (simp add: wf_tree_def)
  then show ?thesis using checks a(1) b(1) by blast
qed

text \<open>
  A folder is created below A while A is renamed. The path of A is read first; the rename runs as a whole; then the
  row is inserted, with the path A had.
\<close>

theorem created_below_a_folder_being_renamed:
  "fst (folderParent ''o'' ex_share (Some ''a'') (ex_world ex_tree)) = Inr (''/A'', [''A''])
   \<and> (\<exists>r w1 row w2. rename ex_env ''o'' ''a'' ''Z'' ex_share ''u'' False (ex_world ex_tree) = (Inr r, w1)
        \<and> entries_ok ex_pg (w_entries w1)
        \<and> createFolderRow ex_env ''o'' ex_share (Some ''a'') ''N'' ''/A/N'' [''A'', ''N''] None w1 = (Inr row, w2)
        \<and> \<not> paths_ok (w_entries w2))"
proof -
  have read: "fst (folderParent ''o'' ex_share (Some ''a'') (ex_world ex_tree)) = Inr (''/A'', [''A''])"
    by (simp add: run_simps ex_simps ex_rows guardE_def)
  have other: "replicate 9 CHR ''i'' \<noteq> ''a''" by (rule notI, drule arg_cong [where f = length]) simp
  obtain r w1 where run: "move ex_env ''o'' ''a'' ex_share None (Some ''Z'') ''u'' (ex_world ex_tree) = (Inr r, w1)"
    and after: "map (\<lambda>r. (fe_id r, fe_path r)) (w_entries w1)
      = [(''a'', ''/Z''), (''b'', ''/B''), (''c'', ''/Z/f''), (''d'', ''/D''), (''e'', ''/D/g'')]"
    and row: "\<exists>row w2. createFolderRow ex_env ''o'' ex_share (Some ''a'') ''N'' ''/A/N'' [''A'', ''N''] None w1 = (Inr row, w2)
      \<and> w_entries w2 = w_entries w1 @ [row] \<and> fe_parent row = Some ''a'' \<and> fe_path row = ''/A/N''
      \<and> fe_name row = ''N'' \<and> fe_id row \<noteq> ''a''"
    by (simp add: other run_simps ex_simps ex_rows move_def moveTarget_def moveWithRetry_def moveOnDisk_def
        moveCommit_def writeMove_def rebuildSubtreePaths_def nextLevel_def sameSlot_def guardE_def enqueueAclApply_def)
  have "rename ex_env ''o'' ''a'' ''Z'' ex_share ''u'' False (ex_world ex_tree) = (Inr r, w1)"
    using run by (simp add: rename_def run_simps ex_simps ex_rows guardE_def)
  moreover have "entries_ok ex_pg (w_entries w1)"
    using hoare_Inr [OF move_effect [OF ex_tree_env_ok] at_self run] by (auto simp: moved_to_def ex_env_def)
  moreover obtain row w2 where new: "createFolderRow ex_env ''o'' ex_share (Some ''a'') ''N'' ''/A/N'' [''A'', ''N''] None w1 = (Inr row, w2)"
    "w_entries w2 = w_entries w1 @ [row]" "fe_parent row = Some ''a''" "fe_path row = ''/A/N''" "fe_name row = ''N''" "fe_id row \<noteq> ''a''"
    using row by blast
  moreover have "\<not> paths_ok (w_entries w2)"
  proof
    assume "paths_ok (w_entries w2)"
    then obtain q where q: "q \<in> set (w_entries w2)" "fe_id q = ''a''" "fe_path row = fe_path q @ CHR ''/'' # fe_name row"
      using new(2,3) by (auto simp: paths_ok_def)
    then have "q \<in> set (w_entries w1)" using new(2,6) by auto
    then have "(''a'', fe_path q) \<in> set (map (\<lambda>r. (fe_id r, fe_path r)) (w_entries w1))"
      using q(2) by (auto intro!: image_eqI [of _ _ q])
    then have "fe_path q = ''/Z''" unfolding after by simp
    then show False using q(3) new(4,5) by simp
  qed
  ultimately show ?thesis using read by blast
qed

end
