(* ===== verification/Posix.thy ===== *)
theory Posix
  imports FileWorld
begin

text \<open>
  POSIX identities under concurrency: \<open>posixUidFor\<close> of \<open>identity/posix.service.ts\<close>, and the other four
  that change who holds a number, \<open>create\<close> and \<open>remove\<close> of \<open>users.service.ts\<close> and \<open>teams.service.ts\<close>.
  A caller reads the account in one statement and, when it has no id, waits for the lock that
  serialises allocation; from there to the commit it runs alone. Removing an account reads its number
  in one transaction and deletes the row in a later one. The steps of any number of callers may
  interleave in any order.
\<close>

section \<open>The table of accounts\<close>

definition ids_in_use :: "PosixUser list \<Rightarrow> nat list \<Rightarrow> nat list" where
  "ids_in_use users gids = List.map_filter pu_uid users @ gids"

definition account :: "PosixUser \<Rightarrow> id \<times> id" where
  "account u = (pu_org u, pu_user u)"

definition posix_ok :: "PosixUser list \<Rightarrow> nat list \<Rightarrow> bool" where
  "posix_ok users gids \<longleftrightarrow> distinct (ids_in_use users gids) \<and> distinct (map account users)
     \<and> (\<forall>n \<in> set (ids_in_use users gids). 300000 \<le> n \<and> n \<le> 399999)"

definition uid_of :: "PosixUser list \<Rightarrow> id \<times> id \<Rightarrow> nat option" where
  "uid_of users a = (case List.find (\<lambda>u. account u = a) users of None \<Rightarrow> None | Some u \<Rightarrow> pu_uid u)"

lemma find_account: "List.find (\<lambda>u. pu_org u = org \<and> pu_user u = user) users
    = List.find (\<lambda>u. account u = (org, user)) users"
  by (simp add: account_def)

lemma allocateWithin_fresh:
  assumes "allocateWithin users gids = Inr n"
  shows "300000 \<le> n \<and> n \<le> 399999 \<and> n \<notin> set (ids_in_use users gids)"
proof -
  let ?taken = "ids_in_use users gids"
  have alloc: "allocate_posix_id users gids = Inr n" and range: "300000 \<le> n" "n \<le> 399999"
    using assms by (auto simp: allocateWithin_def assertUsable_def bindE_Inr_iff split: if_splits)
  have "n = (if ?taken = [] then 299999 else Max (set ?taken)) + 1"
    using alloc unfolding allocate_posix_id_def Let_def ids_in_use_def by (metis Inl_Inr_False Inr_inject)
  moreover have "m \<noteq> Max (set ?taken) + 1" if "m \<in> set ?taken" for m
  proof -
    have "m \<le> Max (set ?taken)" by (rule Max_ge) (simp_all add: that)
    then show ?thesis by linarith
  qed
  ultimately have "n \<notin> set ?taken" by (metis list.set(1) empty_iff)
  with range show ?thesis by blast
qed

text \<open>Giving the free id \<open>n\<close> to the account \<open>a\<close>.\<close>

definition give :: "id \<times> id \<Rightarrow> nat \<Rightarrow> PosixUser list \<Rightarrow> PosixUser list" where
  "give a n users = map (\<lambda>v. if account v = a \<and> pu_uid v = None then v\<lparr>pu_uid := Some n\<rparr> else v) users"

lemma account_give [simp]: "map account (give a n users) = map account users"
  by (simp add: give_def account_def)

lemma uids_give:
  assumes "distinct (map account users)"
  shows "set (List.map_filter pu_uid (give a n users)) \<subseteq> insert n (set (List.map_filter pu_uid users))
     \<and> (n \<notin> set (List.map_filter pu_uid users) \<longrightarrow> distinct (List.map_filter pu_uid users) \<longrightarrow>
          distinct (List.map_filter pu_uid (give a n users)))"
  using assms
proof (induction users)
  case Nil
  then show ?case by (simp add: give_def List.map_filter_simps)
next
  case (Cons u users)
  have others: "give a n users = users" if "account u = a"
    unfolding give_def
  proof (rule map_idI)
    fix x assume "x \<in> set users"
    then have "account x \<noteq> account u" using Cons.prems by (metis distinct.simps(2) image_eqI list.simps(9) set_map)
    then show "(if account x = a \<and> pu_uid x = None then x\<lparr>pu_uid := Some n\<rparr> else x) = x" using that by simp
  qed
  show ?case
  proof (cases "account u = a \<and> pu_uid u = None")
    case True
    then show ?thesis
      using others by (auto simp: give_def List.map_filter_simps set_map_filter split: option.splits)
  next
    case False
    then have "give a n (u # users) = u # give a n users" by (auto simp: give_def)
    then show ?thesis
      using Cons.IH Cons.prems by (auto simp: List.map_filter_simps set_map_filter split: option.splits)
  qed
qed

lemma give_ok:
  assumes "posix_ok users gids" and "n \<notin> set (ids_in_use users gids)" and "300000 \<le> n" and "n \<le> 399999"
  shows "posix_ok (give a n users) gids"
  using assms uids_give [of users a n] unfolding posix_ok_def ids_in_use_def by auto

lemma uid_of_give:
  "uid_of (give a n users) b = (if b = a \<and> uid_of users a = None \<and> a \<in> account ` set users then Some n
     else uid_of users b)"
proof (induction users)
  case Nil
  then show ?case by (simp add: uid_of_def give_def)
next
  case (Cons u users)
  then show ?case
    by (cases "account u = b"; cases "account u = a"; cases "pu_uid u")
       (auto simp: uid_of_def give_def account_def)
qed

lemma posixSettle_value:
  assumes "posix_ok users gids" and "posixSettle org user users (gids @ retired) = Inr (u, users')"
  shows "uid_of users (org, user) = Some u \<and> users' = users
     \<or> uid_of users (org, user) = None \<and> u \<notin> set (ids_in_use users gids) \<and> u \<notin> set retired
       \<and> (org, user) \<in> account ` set users \<and> 300000 \<le> u \<and> u \<le> 399999
       \<and> users' = give (org, user) u users"
proof -
  obtain n where n: "allocateWithin users (gids @ retired) = Inr n"
    using assms(2) by (auto simp: posixSettle_def bindE_Inr_iff)
  have fresh: "300000 \<le> n \<and> n \<le> 399999 \<and> n \<notin> set (ids_in_use users gids) \<and> n \<notin> set retired"
    using allocateWithin_fresh [OF n] by (auto simp: ids_in_use_def)
  show ?thesis
  proof (cases "list_ex (\<lambda>v. pu_org v = org \<and> pu_user v = user \<and> pu_uid v = None) users")
    case True
    then obtain v where v: "v \<in> set users" "account v = (org, user)" "pu_uid v = None"
      by (auto simp: list_ex_iff account_def)
    have "List.find (\<lambda>u. account u = (org, user)) users = Some v"
    proof (cases "List.find (\<lambda>u. account u = (org, user)) users")
      case None
      then show ?thesis using v by (auto simp: find_None_iff)
    next
      case (Some x)
      then show ?thesis
        using find_eq_Some_ex [OF Some] v assms(1) unfolding posix_ok_def distinct_map
        by (metis inj_onD)
    qed
    then have "uid_of users (org, user) = None" by (simp add: uid_of_def v)
    moreover have "u = n" "users' = give (org, user) n users"
      using assms(2) n True
      by (auto simp: posixSettle_def bindE_Inr_iff give_def account_def assertUsable_def split: if_splits)
    ultimately show ?thesis using fresh v by force
  next
    case False
    then show ?thesis
      using assms n unfolding posixSettle_def find_account
      by (auto simp: bindE_Inr_iff uid_of_def assertUsable_def split: option.splits if_splits)
  qed
qed

lemma posixRead_value:
  "posixRead org user users = Inr (Some u) \<Longrightarrow> uid_of users (org, user) = Some u"
  unfolding posixRead_def find_account
  by (auto simp: bindE_Inr_iff uid_of_def assertUsable_def split: option.splits if_splits)

section \<open>Accounts and teams that go\<close>

text \<open>\<open>UsersService.remove\<close>: its read, and its last transaction with the number that was read.\<close>

definition removeRead :: "id \<Rightarrow> id \<Rightarrow> PosixUser list \<Rightarrow> file_error + nat option" where
  "removeRead org user users =
     (case List.find (\<lambda>u. pu_org u = org \<and> pu_user u = user) users of
        None \<Rightarrow> Inl PosixIdentityUnknownUserError
      | Some row \<Rightarrow> Inr (pu_uid row))"

definition retire :: "nat option \<Rightarrow> nat list \<Rightarrow> nat list" where
  "retire number retired =
     (case number of None \<Rightarrow> retired | Some n \<Rightarrow> if n \<in> set retired then retired else retired @ [n])"

definition removeUser :: "id \<Rightarrow> id \<Rightarrow> PosixUser list \<Rightarrow> PosixUser list" where
  "removeUser org user users = filter (\<lambda>u. \<not> (pu_org u = org \<and> pu_user u = user)) users"

lemma removeUser_account: "removeUser org user users = filter (\<lambda>u. account u \<noteq> (org, user)) users"
  by (simp add: removeUser_def account_def)

lemma set_retire [simp]: "set (retire number retired) = set_option number \<union> set retired"
  by (auto simp: retire_def split: option.splits)

lemma uid_of_removeUser:
  "uid_of (removeUser org user users) a = (if a = (org, user) then None else uid_of users a)"
proof (induction users)
  case Nil
  then show ?case by (simp add: uid_of_def removeUser_account)
next
  case (Cons u users)
  then show ?case by (auto simp: uid_of_def removeUser_account)
qed

lemma distinct_map_filter_filter:
  "distinct (List.map_filter f xs) \<Longrightarrow> distinct (List.map_filter f (filter P xs))"
  by (induction xs) (auto simp: List.map_filter_simps set_map_filter split: option.splits)

lemma posix_ok_removeUser: "posix_ok users gids \<Longrightarrow> posix_ok (removeUser org user users) gids"
  unfolding posix_ok_def ids_in_use_def removeUser_account
  by (auto simp: distinct_map_filter_filter set_map_filter distinct_map_filter)

lemma uid_of_mem: "uid_of users a = Some n \<Longrightarrow> n \<in> set (ids_in_use users gids) \<and> a \<in> account ` set users"
  by (auto simp: uid_of_def ids_in_use_def set_map_filter split: option.splits
      dest!: find_eq_Some_ex)

section \<open>Any number of callers\<close>

text \<open>An account is a pair; statements about all accounts are not to be split.\<close>

declare split_paired_All [simp del]

datatype phase =
  Starting | Waiting | Holding nat | Removing "nat option" | Removed_account | Failing file_error

text \<open>Besides the tables and where each caller stands, three records of the past: the accounts there
  have been, the first number each got, and whether a row was deleted holding a number its remover had
  not seen.\<close>

record allocation =
  al_users :: "PosixUser list"
  al_gids :: "nat list"
  al_retired :: "nat list"
  al_phase :: "nat \<Rightarrow> phase"
  al_born :: "(id \<times> id) set"
  al_given :: "id \<times> id \<Rightarrow> nat option"
  al_missed :: bool

definition setPhase :: "nat \<Rightarrow> phase \<Rightarrow> allocation \<Rightarrow> allocation" where
  "setPhase p ph s = s\<lparr>al_phase := (al_phase s)(p := ph)\<rparr>"

definition others :: "allocation \<Rightarrow> nat list" where
  "others s = al_gids s @ al_retired s"

inductive posix_step :: "(nat \<Rightarrow> id \<times> id) \<Rightarrow> allocation \<Rightarrow> allocation \<Rightarrow> bool" for who where
  read_has: "al_phase s p = Starting \<Longrightarrow> who p = (org, user) \<Longrightarrow>
    posixRead org user (al_users s) = Inr (Some u) \<Longrightarrow> posix_step who s (setPhase p (Holding u) s)"
| read_none: "al_phase s p = Starting \<Longrightarrow> who p = (org, user) \<Longrightarrow>
    posixRead org user (al_users s) = Inr None \<Longrightarrow> posix_step who s (setPhase p Waiting s)"
| read_fails: "al_phase s p = Starting \<Longrightarrow> who p = (org, user) \<Longrightarrow>
    posixRead org user (al_users s) = Inl err \<Longrightarrow> posix_step who s (setPhase p (Failing err) s)"
| settle: "al_phase s p = Waiting \<Longrightarrow> who p = (org, user) \<Longrightarrow>
    posixSettle org user (al_users s) (others s) = Inr (u, users) \<Longrightarrow>
    posix_step who s (setPhase p (Holding u)
      (s\<lparr>al_users := users, al_given := (al_given s)((org, user) \<mapsto> u)\<rparr>))"
| settle_fails: "al_phase s p = Waiting \<Longrightarrow> who p = (org, user) \<Longrightarrow>
    posixSettle org user (al_users s) (others s) = Inl err \<Longrightarrow>
    posix_step who s (setPhase p (Failing err) s)"
| remove_read: "al_phase s p = Starting \<Longrightarrow> who p = (org, user) \<Longrightarrow>
    removeRead org user (al_users s) = Inr number \<Longrightarrow>
    posix_step who s (setPhase p (Removing number) s)"
| remove_delete: "al_phase s p = Removing number \<Longrightarrow> who p = (org, user) \<Longrightarrow>
    posix_step who s (setPhase p Removed_account
      (s\<lparr>al_users := removeUser org user (al_users s), al_retired := retire number (al_retired s),
         al_missed := (al_missed s \<or> number = None \<and> uid_of (al_users s) (org, user) \<noteq> None)\<rparr>))"
| account_claimed: "account v \<notin> al_born s \<Longrightarrow> pu_uid v = None \<Longrightarrow>
    posix_step who s (s\<lparr>al_users := al_users s @ [v], al_born := insert (account v) (al_born s)\<rparr>)"
| account_created: "account v \<notin> al_born s \<Longrightarrow> allocateWithin (al_users s) (others s) = Inr n \<Longrightarrow>
    posix_step who s (s\<lparr>al_users := al_users s @ [v\<lparr>pu_uid := Some n\<rparr>],
      al_born := insert (account v) (al_born s), al_given := (al_given s)(account v \<mapsto> n)\<rparr>)"
| team_created: "allocateWithin (al_users s) (others s) = Inr n \<Longrightarrow>
    posix_step who s (s\<lparr>al_gids := al_gids s @ [n]\<rparr>)"
| team_removed: "n \<in> set (al_gids s) \<Longrightarrow>
    posix_step who s (s\<lparr>al_gids := remove1 n (al_gids s), al_retired := retire (Some n) (al_retired s)\<rparr>)"

text \<open>What holds always, and what holds while no remover missed a number.\<close>

definition posix_inv :: "(nat \<Rightarrow> id \<times> id) \<Rightarrow> allocation \<Rightarrow> bool" where
  "posix_inv who s \<longleftrightarrow> posix_ok (al_users s) (al_gids s)
     \<and> (\<forall>p u. al_phase s p = Holding u \<longrightarrow> al_given s (who p) = Some u)
     \<and> (\<forall>p u. al_phase s p = Removing (Some u) \<longrightarrow> al_given s (who p) = Some u)
     \<and> (\<forall>a. uid_of (al_users s) a = (if a \<in> account ` set (al_users s) then al_given s a else None))
     \<and> account ` set (al_users s) \<union> dom (al_given s) \<subseteq> al_born s"

definition kept_inv :: "allocation \<Rightarrow> bool" where
  "kept_inv s \<longleftrightarrow> set (al_retired s) \<inter> set (ids_in_use (al_users s) (al_gids s)) = {}
     \<and> (\<forall>a n. al_given s a = Some n \<longrightarrow> n \<notin> set (al_retired s) \<longrightarrow> a \<in> account ` set (al_users s))
     \<and> (\<forall>a b n. al_given s a = Some n \<longrightarrow> al_given s b = Some n \<longrightarrow> a = b)"

lemma ids_in_use_append [simp]:
  "ids_in_use users (gids @ ns) = ids_in_use users gids @ ns"
  by (simp add: ids_in_use_def)

lemma uid_of_append:
  "account v \<notin> account ` set users \<Longrightarrow>
     uid_of (users @ [v]) a = (if a = account v then pu_uid v else uid_of users a)"
  by (induction users) (auto simp: uid_of_def)

lemma uid_of_None: "a \<notin> account ` set users \<Longrightarrow> uid_of users a = None"
  by (induction users) (auto simp: uid_of_def)

lemma removeRead_value:
  "removeRead org user users = Inr number \<Longrightarrow> uid_of users (org, user) = number"
  unfolding removeRead_def find_account by (auto simp: uid_of_def split: option.splits)

lemma account_removeUser: "account ` set (removeUser org user users) = account ` set users - {(org, user)}"
  by (auto simp: removeUser_account)

lemma ids_removeUser:
  "set (ids_in_use (removeUser org user users) gids) \<subseteq> set (ids_in_use users gids)"
  by (auto simp: ids_in_use_def removeUser_account set_map_filter)

lemma distinct_map_filter_unique:
  "distinct (List.map_filter f xs) \<Longrightarrow> x \<in> set xs \<Longrightarrow> y \<in> set xs \<Longrightarrow> f x = Some n \<Longrightarrow> f y = Some n \<Longrightarrow> x = y"
  by (induction xs) (force simp: List.map_filter_simps set_map_filter split: option.splits)+

lemma uid_of_row: "uid_of users a = Some n \<Longrightarrow> \<exists>u \<in> set users. account u = a \<and> pu_uid u = Some n"
  by (induction users) (auto simp: uid_of_def split: if_splits)

lemma ids_removed:
  assumes "posix_ok users gids" and "uid_of users (org, user) = Some n"
  shows "n \<notin> set (ids_in_use (removeUser org user users) gids)"
proof
  obtain u where u: "u \<in> set users" "account u = (org, user)" "pu_uid u = Some n"
    using uid_of_row [OF assms(2)] by blast
  have d: "distinct (List.map_filter pu_uid users)" "set (List.map_filter pu_uid users) \<inter> set gids = {}"
    using assms(1) by (auto simp: posix_ok_def ids_in_use_def)
  assume "n \<in> set (ids_in_use (removeUser org user users) gids)"
  then consider "n \<in> set gids" | v where "v \<in> set users" "account v \<noteq> (org, user)" "pu_uid v = Some n"
    by (auto simp: ids_in_use_def removeUser_account set_map_filter)
  then show False
  proof cases
    case 1
    then show False using u d(2) by (auto simp: set_map_filter)
  next
    case 2
    then show False using distinct_map_filter_unique [OF d(1) u(1) 2(1) u(3) 2(3)] u by simp
  qed
qed

text \<open>The three ways to gain or lose a row, on the tables alone.\<close>

lemma posix_ok_append:
  assumes "posix_ok users gids" and "account v \<notin> account ` set users"
    and "\<And>n. pu_uid v = Some n \<Longrightarrow> 300000 \<le> n \<and> n \<le> 399999 \<and> n \<notin> set (ids_in_use users gids)"
  shows "posix_ok (users @ [v]) gids"
  using assms by (cases "pu_uid v")
    (auto simp: posix_ok_def ids_in_use_def map_filter_append List.map_filter_simps)

lemma posix_ok_team:
  "posix_ok users gids \<Longrightarrow> 300000 \<le> n \<Longrightarrow> n \<le> 399999 \<Longrightarrow> n \<notin> set (ids_in_use users gids)
     \<Longrightarrow> posix_ok users (gids @ [n])"
  by (auto simp: posix_ok_def)

lemma posix_ok_remove1: "posix_ok users gids \<Longrightarrow> posix_ok users (remove1 n gids)"
  unfolding posix_ok_def ids_in_use_def by (auto dest: notin_set_remove1)

lemma fresh_number:
  "allocateWithin users (others s) = Inr n \<Longrightarrow>
     300000 \<le> n \<and> n \<le> 399999 \<and> n \<notin> set (ids_in_use users (al_gids s)) \<and> n \<notin> set (al_retired s)"
  by (drule allocateWithin_fresh) (simp add: others_def)

text \<open>What a settled allocation leaves.\<close>

lemma settled:
  assumes "posix_inv who s" and "posixSettle org user (al_users s) (others s) = Inr (u, users)"
  shows "posix_ok users (al_gids s) \<and> account ` set users = account ` set (al_users s)
     \<and> (org, user) \<in> account ` set users
     \<and> (\<forall>a. uid_of users a = (if a = (org, user) then Some u else uid_of (al_users s) a))
     \<and> (al_given s (org, user) = Some u \<and> users = al_users s
        \<or> al_given s (org, user) = None \<and> u \<notin> set (al_retired s)
          \<and> u \<notin> set (ids_in_use (al_users s) (al_gids s)))"
proof -
  let ?a = "(org, user)"
  have ok: "posix_ok (al_users s) (al_gids s)" using assms(1) by (simp add: posix_inv_def)
  have given: "uid_of (al_users s) a = (if a \<in> account ` set (al_users s) then al_given s a else None)" for a
    using assms(1) by (simp add: posix_inv_def)
  from posixSettle_value [OF ok assms(2) [unfolded others_def]]
  consider (old) "uid_of (al_users s) ?a = Some u" "users = al_users s"
    | (new) "uid_of (al_users s) ?a = None" "u \<notin> set (ids_in_use (al_users s) (al_gids s))" "u \<notin> set (al_retired s)"
      "?a \<in> account ` set (al_users s)" "300000 \<le> u" "u \<le> 399999" "users = give ?a u (al_users s)"
    by (elim disjE conjE) simp_all
  then show ?thesis
  proof cases
    case old
    then show ?thesis using ok given [of ?a] uid_of_mem [OF old(1)] by auto
  next
    case new
    have none: "al_given s ?a = None" using given [of ?a] new(1,4) by simp
    have "account ` set users = account ` set (al_users s)"
      using new(7) by (metis account_give set_map)
    then show ?thesis
      using new none give_ok [OF ok new(2,5,6)] by (auto simp: uid_of_give)
  qed
qed

lemma posix_step_inv:
  assumes "posix_step who s s'" and inv: "posix_inv who s"
  shows "posix_inv who s'"
proof -
  have ok: "posix_ok (al_users s) (al_gids s)" using inv by (simp add: posix_inv_def)
  show ?thesis
    using assms(1)
  proof cases
    case (read_has p org user u)
    then show ?thesis
      using inv posixRead_value [OF read_has(4)]
      by (auto simp: posix_inv_def setPhase_def split: if_split_asm)
  next
    case (remove_read p org user number)
    then show ?thesis
      using inv removeRead_value [OF remove_read(4)]
      by (auto simp: posix_inv_def setPhase_def split: if_split_asm)
  next
    case (settle p org user u users)
    note st = settled [OF inv settle(4)]
    let ?given = "(al_given s)((org, user) \<mapsto> u)"
    have grow: "?given a = Some n" if "al_given s a = Some n" for a n
      using that st by (cases "a = (org, user)") auto
    have "al_phase s' q = Holding n \<longrightarrow> ?given (who q) = Some n" for q n
      using inv grow settle(1,3) by (cases "q = p") (simp_all add: posix_inv_def setPhase_def)
    moreover have "al_phase s' q = Removing (Some n) \<longrightarrow> ?given (who q) = Some n" for q n
      using inv grow settle(1) by (cases "q = p") (simp_all add: posix_inv_def setPhase_def)
    moreover have "uid_of users a = (if a \<in> account ` set users then ?given a else None)" for a
    proof -
      have "uid_of users a = (if a = (org, user) then Some u else uid_of (al_users s) a)"
        and "(org, user) \<in> account ` set users" and "account ` set users = account ` set (al_users s)"
        using st by blast+
      moreover have "uid_of (al_users s) a = (if a \<in> account ` set (al_users s) then al_given s a else None)"
        using inv by (simp add: posix_inv_def)
      ultimately show ?thesis by (metis fun_upd_apply)
    qed
    moreover have "account ` set users \<union> dom ?given \<subseteq> al_born s"
    proof -
      have "account ` set users = account ` set (al_users s)" and "(org, user) \<in> account ` set users"
        using st by blast+
      moreover have "account ` set (al_users s) \<union> dom (al_given s) \<subseteq> al_born s"
        using inv by (simp add: posix_inv_def)
      ultimately show ?thesis by auto
    qed
    ultimately show ?thesis
      using st settle(1) by (simp add: posix_inv_def setPhase_def)
  next
    case (remove_delete p number org user)
    then show ?thesis
      using inv posix_ok_removeUser [OF ok]
      by (auto simp: posix_inv_def setPhase_def uid_of_removeUser account_removeUser)
  next
    case (account_claimed v)
    then have new: "account v \<notin> account ` set (al_users s)" "al_given s (account v) = None"
      using inv by (auto simp: posix_inv_def)
    have "posix_ok (al_users s @ [v]) (al_gids s)"
      by (rule posix_ok_append [OF ok new(1)]) (simp add: account_claimed)
    then show ?thesis
      using inv account_claimed new by (auto simp: posix_inv_def uid_of_append [OF new(1)])
  next
    case (account_created v n)
    let ?v = "v\<lparr>pu_uid := Some n\<rparr>"
    have av: "account ?v = account v" by (simp add: account_def)
    have new: "account ?v \<notin> account ` set (al_users s)" "al_given s (account v) = None"
      using inv account_created unfolding av by (auto simp: posix_inv_def)
    have nobody: "\<not> (who p = account v \<and> (al_phase s p = Holding u \<or> al_phase s p = Removing (Some u)))" for p u
      using inv new(2) unfolding posix_inv_def by (metis option.distinct(1))
    have "posix_ok (al_users s @ [?v]) (al_gids s)"
      by (rule posix_ok_append [OF ok new(1)]) (use fresh_number [OF account_created(3)] in auto)
    then show ?thesis
      using inv account_created new nobody by (auto simp: posix_inv_def uid_of_append [OF new(1)] av)
  next
    case (team_created n)
    then show ?thesis
      using inv posix_ok_team [OF ok] fresh_number [OF team_created(2)] by (auto simp: posix_inv_def)
  next
    case (team_removed n)
    then show ?thesis using inv posix_ok_remove1 [OF ok] by (auto simp: posix_inv_def)
  qed (use inv in \<open>auto simp: posix_inv_def setPhase_def\<close>)
qed

lemma missed_stays: "posix_step who s s' \<Longrightarrow> al_missed s \<Longrightarrow> al_missed s'"
  by (induction rule: posix_step.induct) (simp_all add: setPhase_def)

text \<open>The numbers in use, through the invariant: the first numbers of the accounts there are.\<close>

lemma find_account_row:
  "distinct (map account users) \<Longrightarrow> u \<in> set users \<Longrightarrow> uid_of users (account u) = pu_uid u"
  by (induction users) (auto simp: uid_of_def)

lemma ids_given:
  assumes "posix_inv who s"
  shows "set (ids_in_use (al_users s) (al_gids s))
    = {n. \<exists>a \<in> account ` set (al_users s). al_given s a = Some n} \<union> set (al_gids s)"
proof -
  have "distinct (map account (al_users s))" using assms by (simp add: posix_inv_def posix_ok_def)
  then have "pu_uid u = al_given s (account u)" if "u \<in> set (al_users s)" for u
    using assms that find_account_row by (fastforce simp: posix_inv_def)
  then show ?thesis by (auto simp: ids_in_use_def set_map_filter)
qed

lemma given_not_gid:
  assumes "posix_inv who s" and "a \<in> account ` set (al_users s)" and "n \<in> set (al_gids s)"
  shows "al_given s a \<noteq> Some n"
proof
  assume "al_given s a = Some n"
  then have "uid_of (al_users s) a = Some n" using assms(1,2) by (simp add: posix_inv_def)
  then obtain u where "u \<in> set (al_users s)" "pu_uid u = Some n" using uid_of_row by blast
  then show False using assms(1,3) by (auto simp: posix_inv_def posix_ok_def ids_in_use_def set_map_filter)
qed

lemma posix_step_kept:
  assumes step: "posix_step who s s'" and inv: "posix_inv who s" and kept: "kept_inv s" and "\<not> al_missed s'"
  shows "kept_inv s'"
proof -
  have inv': "posix_inv who s'" by (rule posix_step_inv [OF step inv])
  note ids = ids_given [OF inv] and ids' = ids_given [OF inv']
  have apart: "set (al_retired s) \<inter> set (ids_in_use (al_users s) (al_gids s)) = {}"
    and one: "\<And>a b n. al_given s a = Some n \<Longrightarrow> al_given s b = Some n \<Longrightarrow> a = b"
    and gone: "\<And>a n. al_given s a = Some n \<Longrightarrow> n \<notin> set (al_retired s) \<Longrightarrow> a \<in> account ` set (al_users s)"
    using kept by (simp_all add: kept_inv_def)
  have new: "al_given s a \<noteq> Some n"
    if "n \<notin> set (ids_in_use (al_users s) (al_gids s))" "n \<notin> set (al_retired s)" for a n
    using that gone [of a n] unfolding ids by blast
  have gids_distinct: "distinct (al_gids s)"
    using inv by (simp add: posix_inv_def posix_ok_def ids_in_use_def)
  have gids_apart: "al_given s a \<noteq> Some n" if "a \<in> account ` set (al_users s)" "n \<in> set (al_gids s)" for a n
    using given_not_gid [OF inv that] .
  show ?thesis
    using step
  proof cases
    case (settle p org user u users)
    note st = settled [OF inv settle(4)]
    have eq: "account ` set users = account ` set (al_users s)" using st by blast
    show ?thesis
    proof (cases "al_given s (org, user) = Some u \<and> users = al_users s")
      case True
      then have "s' = setPhase p (Holding u) s" using settle(1) by (simp add: fun_upd_idem)
      then show ?thesis using kept by (simp add: kept_inv_def setPhase_def)
    next
      case False
      then have fresh: "u \<notin> set (al_retired s)" "\<And>a. al_given s a \<noteq> Some u" using st new by blast+
      have "set (al_retired s') \<inter> set (ids_in_use (al_users s') (al_gids s')) = {}"
        using apart fresh unfolding ids' unfolding ids by (auto simp: settle(1) setPhase_def eq split: if_splits)
      then show ?thesis
        using settle(1) one gone fresh st by (auto simp: kept_inv_def setPhase_def eq split: if_splits)
    qed
  next
    case (remove_delete p number org user)
    let ?a = "(org, user)"
    have live': "account ` set (al_users s') = account ` set (al_users s) - {?a}"
      by (simp add: remove_delete(1) setPhase_def account_removeUser)
    have same: "al_given s' = al_given s" "al_gids s' = al_gids s"
      "set (al_retired s') = set_option number \<union> set (al_retired s)"
      by (simp_all add: remove_delete(1) setPhase_def)
    have read: "al_given s ?a = Some n" if "number = Some n" for n
      using inv remove_delete(2,3) that unfolding posix_inv_def by metis
    have seen: "al_given s ?a = number" if "?a \<in> account ` set (al_users s)"
    proof (cases number)
      case None
      then have "uid_of (al_users s) ?a = None"
        using assms(4) by (simp add: remove_delete(1) setPhase_def)
      then show ?thesis using that None inv by (simp add: posix_inv_def)
    next
      case (Some n)
      then show ?thesis using read by simp
    qed
    have number: "n \<notin> set (al_gids s) \<and> (\<forall>a. a \<noteq> ?a \<longrightarrow> al_given s a \<noteq> Some n)" if "number = Some n" for n
    proof -
      note mine = read [OF that]
      have "n \<notin> set (al_gids s)"
      proof
        assume gid: "n \<in> set (al_gids s)"
        then have "n \<notin> set (al_retired s)" using apart unfolding ids by blast
        then show False using gids_apart [OF gone [OF mine] gid] mine by simp
      qed
      then show ?thesis using one [OF mine] by blast
    qed
    have "set (ids_in_use (al_users s') (al_gids s')) \<subseteq> set (ids_in_use (al_users s) (al_gids s))"
      unfolding ids' unfolding same live' unfolding ids by blast
    moreover have "n \<notin> set (ids_in_use (al_users s') (al_gids s'))" if "number = Some n" for n
      using number [OF that] unfolding ids' unfolding same live' by blast
    ultimately have "set (al_retired s') \<inter> set (ids_in_use (al_users s') (al_gids s')) = {}"
      using apart unfolding same(3) by (cases number) auto
    moreover have "a \<in> account ` set (al_users s')"
      if "al_given s a = Some n" "n \<notin> set (al_retired s')" for a n
    proof -
      have live: "a \<in> account ` set (al_users s)" using gone [OF that(1)] that(2) by (simp add: same)
      have "a \<noteq> ?a"
      proof
        assume "a = ?a"
        then show False using seen live that by (simp add: same)
      qed
      with live show ?thesis unfolding live' by blast
    qed
    ultimately show ?thesis unfolding kept_inv_def same(1) using one by blast
  next
    case (account_created v n)
    note fr = fresh_number [OF account_created(3)]
    have "\<And>a. al_given s a \<noteq> Some n" using new fr by blast
    moreover have "account (v\<lparr>pu_uid := Some n\<rparr>) = account v" by (simp add: account_def)
    moreover have "al_given s (account v) = None" "account v \<notin> account ` set (al_users s)"
      using inv account_created(2) by (auto simp: posix_inv_def)
    moreover from calculation fr
    have "set (al_retired s') \<inter> set (ids_in_use (al_users s') (al_gids s')) = {}"
      using apart unfolding ids' unfolding ids by (auto simp: account_created(1) split: if_splits)
    ultimately show ?thesis
      using one gone account_created(1) by (auto simp: kept_inv_def split: if_splits)
  next
    case (team_created n)
    then show ?thesis
      using kept fresh_number [OF team_created(2)] by (auto simp: kept_inv_def)
  next
    case (team_removed n)
    have "set (al_retired s') \<inter> set (ids_in_use (al_users s') (al_gids s')) = {}"
      using apart gids_apart team_removed(2) gids_distinct unfolding ids' unfolding ids
      by (auto simp: team_removed(1))
    then show ?thesis using one gone by (auto simp: kept_inv_def team_removed(1))
  qed (use kept in \<open>auto simp: kept_inv_def setPhase_def ids_in_use_def map_filter_append List.map_filter_simps\<close>)
qed

definition posix_start :: "allocation \<Rightarrow> bool" where
  "posix_start s \<longleftrightarrow> posix_ok (al_users s) (al_gids s) \<and> (\<forall>p. al_phase s p = Starting)
     \<and> al_given s = uid_of (al_users s) \<and> al_born s = account ` set (al_users s) \<and> \<not> al_missed s
     \<and> set (al_retired s) \<inter> set (ids_in_use (al_users s) (al_gids s)) = {}"

lemma posix_start_inv:
  assumes "posix_start s"
  shows "posix_inv who s \<and> kept_inv s"
proof -
  have ok: "posix_ok (al_users s) (al_gids s)" using assms by (simp add: posix_start_def)
  have "a = b" if a: "uid_of (al_users s) a = Some n" and b: "uid_of (al_users s) b = Some n" for a b n
  proof -
    have "distinct (List.map_filter pu_uid (al_users s))" using ok by (simp add: posix_ok_def ids_in_use_def)
    then show ?thesis using uid_of_row [OF a] uid_of_row [OF b] distinct_map_filter_unique by metis
  qed
  moreover have "uid_of (al_users s) a = (if a \<in> account ` set (al_users s) then uid_of (al_users s) a else None)" for a
    using uid_of_None by simp
  moreover have "dom (uid_of (al_users s)) \<subseteq> account ` set (al_users s)"
    using uid_of_mem by blast
  ultimately show ?thesis
    using assms uid_of_mem unfolding posix_inv_def kept_inv_def posix_start_def by auto
qed

lemma posix_run_inv:
  assumes "(posix_step who)\<^sup>*\<^sup>* s0 s" and "posix_start s0"
  shows "posix_inv who s \<and> (\<not> al_missed s \<longrightarrow> kept_inv s)"
  using assms(1)
proof (induction rule: rtranclp_induct)
  case base
  then show ?case using posix_start_inv [OF assms(2)] by blast
next
  case (step s s')
  then show ?case using posix_step_inv posix_step_kept missed_stays by metis
qed

text \<open>
  C24. However the statements of any number of callers interleave (uploads that need a uid, accounts and
  teams created and removed), no number is ever both the uid of two accounts or the uid of an account
  and the gid of a team, all stay in the reserved range, and two callers asking for the same account are
  told the same uid. While no account row was deleted holding a number its remover had not read, no
  number once told to anybody for one account is ever the number of another account or of a team, even
  after the account is gone.
\<close>

theorem posix_ids_never_shared:
  assumes "posix_start s0" and "(posix_step who)\<^sup>*\<^sup>* s0 s"
  shows "distinct (ids_in_use (al_users s) (al_gids s))
    \<and> (\<forall>n \<in> set (ids_in_use (al_users s) (al_gids s)). 300000 \<le> n \<and> n \<le> 399999)
    \<and> (\<forall>p q u v. al_phase s p = Holding u \<longrightarrow> al_phase s q = Holding v \<longrightarrow> who p = who q \<longrightarrow> u = v)
    \<and> (\<not> al_missed s \<longrightarrow> (\<forall>p u. al_phase s p = Holding u \<longrightarrow> u \<notin> set (al_gids s)
         \<and> (\<forall>a. uid_of (al_users s) a = Some u \<longrightarrow> a = who p)
         \<and> (\<forall>q. al_phase s q = Holding u \<longrightarrow> who q = who p)))"
proof -
  have inv: "posix_inv who s" and kept: "\<not> al_missed s \<longrightarrow> kept_inv s"
    using posix_run_inv [OF assms(2,1)] by blast+
  have told: "al_phase s p = Holding u \<Longrightarrow> al_given s (who p) = Some u" for p u
    using inv by (simp add: posix_inv_def)
  have same: "u = v" if "al_phase s p = Holding u" "al_phase s q = Holding v" "who p = who q" for p q u v
    using told [OF that(1)] told [OF that(2)] that(3) by simp
  have reserved: "u \<notin> set (al_gids s) \<and> (\<forall>a. uid_of (al_users s) a = Some u \<longrightarrow> a = who p)
      \<and> (\<forall>q. al_phase s q = Holding u \<longrightarrow> who q = who p)"
    if "\<not> al_missed s" and p: "al_phase s p = Holding u" for p u
  proof -
    have kept: "kept_inv s" using kept that(1) by blast
    then have one: "a = b" if "al_given s a = Some n" "al_given s b = Some n" for a b n
      using that unfolding kept_inv_def by blast
    have "u \<notin> set (al_gids s)"
    proof
      assume gid: "u \<in> set (al_gids s)"
      then have "u \<in> set (ids_in_use (al_users s) (al_gids s))" by (simp add: ids_in_use_def)
      then have "u \<notin> set (al_retired s)" using kept unfolding kept_inv_def by blast
      then have "who p \<in> account ` set (al_users s)" using kept told [OF p] unfolding kept_inv_def by blast
      then show False using given_not_gid [OF inv _ gid] told [OF p] by blast
    qed
    moreover have "a = who p" if "uid_of (al_users s) a = Some u" for a
    proof -
      have "al_given s a = Some u" using that inv by (simp add: posix_inv_def split: if_split_asm)
      then show ?thesis using one told [OF p] by blast
    qed
    moreover have "who q = who p" if "al_phase s q = Holding u" for q
      by (rule one [OF told [OF that] told [OF p]])
    ultimately show ?thesis by blast
  qed
  have ok: "posix_ok (al_users s) (al_gids s)" using inv by (simp add: posix_inv_def)
  show ?thesis
  proof (intro conjI)
    show "\<forall>p q u v. al_phase s p = Holding u \<longrightarrow> al_phase s q = Holding v \<longrightarrow> who p = who q \<longrightarrow> u = v"
      using same by blast
    show "\<not> al_missed s \<longrightarrow> (\<forall>p u. al_phase s p = Holding u \<longrightarrow> u \<notin> set (al_gids s)
        \<and> (\<forall>a. uid_of (al_users s) a = Some u \<longrightarrow> a = who p)
        \<and> (\<forall>q. al_phase s q = Holding u \<longrightarrow> who q = who p))"
      using reserved by blast
  qed (use ok in \<open>simp_all add: posix_ok_def\<close>)
qed

definition ex_alloc :: allocation where
  "ex_alloc = \<lparr>al_users = [\<lparr>pu_org = ''o'', pu_user = ''u'', pu_uid = None\<rparr>], al_gids = [300000],
     al_retired = [], al_phase = (\<lambda>_. Starting), al_born = {(''o'', ''u'')}, al_given = (\<lambda>_. None), al_missed = False\<rparr>"

lemma ex_alloc_start: "posix_start ex_alloc"
  by (auto simp: posix_start_def ex_alloc_def posix_ok_def ids_in_use_def List.map_filter_simps account_def
      uid_of_def fun_eq_iff)

lemmas alloc_defs = ex_alloc_def setPhase_def posixRead_def posixSettle_def allocateWithin_def
  allocate_posix_id_def assertUsable_def others_def List.map_filter_simps Let_def

text \<open>Two uploads of one account: both read before either writes, and both end with one uid.\<close>

lemma posix_ids_never_shared_witness:
  "\<exists>s. (posix_step (\<lambda>_. (''o'', ''u'')))\<^sup>*\<^sup>* ex_alloc s \<and> al_phase s 0 = Holding 300001 \<and> al_phase s 1 = Holding 300001
     \<and> distinct (ids_in_use (al_users s) (al_gids s))"
proof -
  let ?who = "\<lambda>_ :: nat. (''o'', ''u'')"
  let ?users = "[\<lparr>pu_org = ''o'', pu_user = ''u'', pu_uid = Some 300001\<rparr>]"
  let ?s1 = "setPhase 0 Waiting ex_alloc"
  let ?s2 = "setPhase 1 Waiting ?s1"
  let ?s3 = "setPhase 0 (Holding 300001)
    (?s2\<lparr>al_users := ?users, al_given := (al_given ?s2)((''o'', ''u'') \<mapsto> 300001)\<rparr>)"
  let ?s4 = "setPhase 1 (Holding 300001)
    (?s3\<lparr>al_users := ?users, al_given := (al_given ?s3)((''o'', ''u'') \<mapsto> 300001)\<rparr>)"
  have "posix_step ?who ex_alloc ?s1"
    by (rule read_none [where org = "''o''" and user = "''u''"]) (simp_all add: alloc_defs)
  moreover have "posix_step ?who ?s1 ?s2"
    by (rule read_none [where org = "''o''" and user = "''u''"]) (simp_all add: alloc_defs)
  moreover have "posix_step ?who ?s2 ?s3"
    by (rule settle [where org = "''o''" and user = "''u''"]) (simp_all add: alloc_defs)
  moreover have "posix_step ?who ?s3 ?s4"
    by (rule settle [where org = "''o''" and user = "''u''"]) (simp_all add: alloc_defs)
  ultimately have run: "(posix_step ?who)\<^sup>*\<^sup>* ex_alloc ?s4"
    by (meson rtranclp.rtrancl_refl rtranclp.rtrancl_into_rtrancl)
  then have "distinct (ids_in_use (al_users ?s4) (al_gids ?s4))"
    using posix_ids_never_shared [OF ex_alloc_start run] by blast
  with run show ?thesis by (intro exI [of _ ?s4]) (simp add: setPhase_def)
qed

text \<open>The run the second half excludes: the account is read for removal while it has no uid, an upload
  gives it one, the row goes without that number being retired, and the next account gets it.\<close>

theorem deleted_uid_handed_out_again:
  "\<exists>s. (posix_step (\<lambda>p. if p = 2 then (''o'', ''v'') else (''o'', ''u'')))\<^sup>*\<^sup>* ex_alloc s
     \<and> al_phase s 0 = Holding 300001 \<and> al_phase s 2 = Holding 300001"
proof -
  let ?who = "\<lambda>p :: nat. if p = 2 then (''o'', ''v'') else (''o'', ''u'')"
  let ?v = "\<lparr>pu_org = ''o'', pu_user = ''v'', pu_uid = None\<rparr>"
  let ?s1 = "setPhase 1 (Removing None) ex_alloc"
  let ?s2 = "setPhase 0 Waiting ?s1"
  let ?s3 = "setPhase 0 (Holding 300001)
    (?s2\<lparr>al_users := [\<lparr>pu_org = ''o'', pu_user = ''u'', pu_uid = Some 300001\<rparr>],
         al_given := (al_given ?s2)((''o'', ''u'') \<mapsto> 300001)\<rparr>)"
  let ?s4 = "setPhase 1 Removed_account (?s3\<lparr>al_users := removeUser ''o'' ''u'' (al_users ?s3),
    al_retired := retire None (al_retired ?s3),
    al_missed := (al_missed ?s3 \<or> (None :: nat option) = None \<and> uid_of (al_users ?s3) (''o'', ''u'') \<noteq> None)\<rparr>)"
  let ?s5 = "?s4\<lparr>al_users := al_users ?s4 @ [?v], al_born := insert (account ?v) (al_born ?s4)\<rparr>"
  let ?s6 = "setPhase 2 Waiting ?s5"
  let ?s7 = "setPhase 2 (Holding 300001)
    (?s6\<lparr>al_users := [\<lparr>pu_org = ''o'', pu_user = ''v'', pu_uid = Some 300001\<rparr>],
         al_given := (al_given ?s6)((''o'', ''v'') \<mapsto> 300001)\<rparr>)"
  note defs = alloc_defs removeRead_def removeUser_def retire_def account_def
  have "posix_step ?who ex_alloc ?s1"
    by (rule remove_read [where org = "''o''" and user = "''u''"]) (simp_all add: defs)
  moreover have "posix_step ?who ?s1 ?s2"
    by (rule read_none [where org = "''o''" and user = "''u''"]) (simp_all add: defs)
  moreover have "posix_step ?who ?s2 ?s3"
    by (rule settle [where org = "''o''" and user = "''u''"]) (simp_all add: defs)
  moreover have "posix_step ?who ?s3 ?s4"
    by (rule remove_delete [where org = "''o''" and user = "''u''"]) (simp_all add: defs)
  moreover have "posix_step ?who ?s4 ?s5"
    by (rule account_claimed) (simp_all add: defs)
  moreover have "posix_step ?who ?s5 ?s6"
    by (rule read_none [where org = "''o''" and user = "''v''"]) (simp_all add: defs)
  moreover have "posix_step ?who ?s6 ?s7"
    by (rule settle [where org = "''o''" and user = "''v''"]) (simp_all add: defs)
  ultimately have "(posix_step ?who)\<^sup>*\<^sup>* ex_alloc ?s7"
    by (meson rtranclp.rtrancl_refl rtranclp.rtrancl_into_rtrancl)
  then show ?thesis by (intro exI [of _ ?s7]) (simp add: setPhase_def)
qed

end
