(* ===== verification/Text.thy ===== *)
theory Text
  imports Prelude
begin

text \<open>
  Decimal numerals: what \<open>String(n)\<close>, a template literal and SQL's \<open>||\<close> make of a number, and reading
  them back with \<open>Number\<close> on a string of digits.
\<close>

definition digit :: "nat \<Rightarrow> char" where
  "digit n = char_of (48 + n)"

definition digitValue :: "char \<Rightarrow> nat option" where
  "digitValue c = (let n = of_char c :: nat in if 48 \<le> n \<and> n \<le> 57 then Some (n - 48) else None)"

fun decimal :: "nat \<Rightarrow> string" where
  "decimal n = (if n < 10 then [digit n] else decimal (n div 10) @ [digit (n mod 10)])"

declare decimal.simps [simp del]

text \<open>The value of a string of digits, read from the left; \<open>None\<close> when a character is not a digit.\<close>

definition readDigits :: "string \<Rightarrow> nat option" where
  "readDigits cs =
     fold (\<lambda>c acc. case acc of None \<Rightarrow> None | Some n \<Rightarrow>
        (case digitValue c of None \<Rightarrow> None | Some d \<Rightarrow> Some (10 * n + d))) cs (Some 0)"

lemma digitValue_digit: "n < 10 \<Longrightarrow> digitValue (digit n) = Some n"
  by (simp add: digitValue_def digit_def)

lemma decimal_not_Nil [simp]: "decimal n \<noteq> []"
  by (subst decimal.simps) simp

lemma decimal_digits: "c \<in> set (decimal n) \<Longrightarrow> \<exists>d < 10. c = digit d"
proof (induction n rule: decimal.induct)
  case (1 n)
  show ?case
  proof (cases "n < 10")
    case True
    then show ?thesis using 1(2) by (auto simp: decimal.simps [of n])
  next
    case False
    then consider "c \<in> set (decimal (n div 10))" | "c = digit (n mod 10)"
      using 1(2) by (auto simp: decimal.simps [of n])
    then show ?thesis
    proof cases
      case 1
      then show ?thesis using "1.IH" [OF False] by blast
    next
      case 2
      then show ?thesis by (intro exI [of _ "n mod 10"]) simp
    qed
  qed
qed

lemma readDigits_append: "readDigits cs = Some n \<Longrightarrow> d < 10 \<Longrightarrow> readDigits (cs @ [digit d]) = Some (10 * n + d)"
  by (simp add: readDigits_def digitValue_digit)

lemma readDigits_decimal [simp]: "readDigits (decimal n) = Some n"
proof (induction n rule: decimal.induct)
  case (1 n)
  show ?case
  proof (cases "n < 10")
    case True
    then show ?thesis
      by (subst decimal.simps) (simp add: readDigits_def digitValue_digit)
  next
    case False
    have "readDigits (decimal (n div 10) @ [digit (n mod 10)]) = Some (10 * (n div 10) + n mod 10)"
      by (rule readDigits_append) (use 1 False in auto)
    then show ?thesis using False by (subst decimal.simps) simp
  qed
qed

lemma decimal_inject: "decimal m = decimal n \<Longrightarrow> m = n"
  by (metis option.inject readDigits_decimal)

end
