(* ===== verification/Jobs.thy ===== *)
theory Jobs
  imports Keyset Text Complex_Main
begin

text \<open>
  The job queue: \<open>apps/api/src/jobs/jobs.service.ts\<close> and the functions of the database it calls
  (\<open>claim_job\<close> of migration 0018, \<open>heartbeat_job\<close> of 0007, \<open>finish_job\<close> of 0056, \<open>cancel_job\<close> of 0059).
  A job is a row of \<open>job_queue\<close> until it ends and a row of \<open>job_history\<close> afterwards. Each call here is one
  transaction: it gives the answer and the new tables, or the error that rolled it back. Times are
  seconds; \<open>now()\<close> is an argument. Rows another transaction holds locked, which \<open>SKIP LOCKED\<close> passes
  over, are an argument of \<open>claim_job\<close>.
\<close>

section \<open>Rows\<close>

datatype JobStatus = Queued | Running | Succeeded | JobFailed | Dead | Cancelled

record JobRow =
  jq_id :: id
  jq_org :: "id option"
  jq_kind :: string
  jq_payload :: "(string \<times> string) list"
  jq_status :: JobStatus
  jq_priority :: int
  jq_run_after :: nat
  jq_attempt :: nat
  jq_max :: nat
  jq_lease :: "nat option"
  jq_worker :: "string option"
  jq_progress :: rat
  jq_error :: "string option"
  jq_created :: nat
  jq_updated :: nat

record job_db =
  jd_queue :: "JobRow list"
  jd_history :: "(JobRow \<times> nat) list"

datatype job_error = JobUniqueViolation | JobDatabaseError string | JobNotEnqueued

section \<open>Constraints\<close>

text \<open>The kinds that schedule themselves: a partial unique index each, on the rows still queued. The
  index on \<open>files.reconcile\<close> also has the share of the payload.\<close>

definition singleKinds :: "string list" where
  "singleKinds = [''files.trash.purge'', ''files.index-drain'', ''tasks.overdue-sweep'', ''storage.backup-tick'',
     ''storage.backup.run'', ''storage.backup.purge'', ''storage.backup.verify'', ''jobs.prune'',
     ''remote.authorize'', ''auth.retention'']"

definition jobSlot :: "JobRow \<Rightarrow> (id \<times> string \<times> string) option" where
  "jobSlot r =
     (case jq_org r of
        None \<Rightarrow> None
      | Some org \<Rightarrow>
          if jq_kind r \<in> set singleKinds then Some (org, jq_kind r, '''')
          else if jq_kind r = ''files.reconcile''
            then map_option (\<lambda>s. (org, jq_kind r, s)) (map_of (jq_payload r) ''shareId'')
          else None)"

definition slotTaken :: "JobRow list \<Rightarrow> JobRow \<Rightarrow> bool" where
  "slotTaken q r =
     (jq_status r = Queued \<and> jobSlot r \<noteq> None
      \<and> list_ex (\<lambda>x. jq_id x \<noteq> jq_id r \<and> jq_status x = Queued \<and> jobSlot x = jobSlot r) q)"

definition jobAccepted :: "JobRow \<Rightarrow> bool" where
  "jobAccepted r =
     (0 < jq_max r \<and> 0 \<le> jq_progress r \<and> jq_progress r \<le> 1
      \<and> list_ex (\<lambda>c. c \<noteq> CHR '' '') (jq_kind r)
      \<and> (jq_status r = Running \<longrightarrow> jq_lease r \<noteq> None))"

section \<open>The tenant's side\<close>

definition newJob ::
  "id \<Rightarrow> id \<Rightarrow> string \<Rightarrow> (string \<times> string) list \<Rightarrow> int \<Rightarrow> nat \<Rightarrow> nat \<Rightarrow> nat \<Rightarrow> JobRow" where
  "newJob i org kind payload priority maxAttempts runAfter now =
     \<lparr>jq_id = i, jq_org = Some org, jq_kind = kind, jq_payload = payload, jq_status = Queued,
      jq_priority = priority, jq_run_after = runAfter, jq_attempt = 0, jq_max = maxAttempts,
      jq_lease = None, jq_worker = None, jq_progress = 0, jq_error = None, jq_created = now,
      jq_updated = now\<rparr>"

text \<open>\<open>enqueue\<close>: the id is the new row's uuid; the options have the defaults of the code.\<close>

definition enqueue ::
  "id \<Rightarrow> id \<Rightarrow> string \<Rightarrow> (string \<times> string) list \<Rightarrow> int option \<Rightarrow> nat option \<Rightarrow> nat option \<Rightarrow> nat \<Rightarrow> job_db
     \<Rightarrow> job_error + id \<times> job_db" where
  "enqueue i org kind payload priority maxAttempts runAfter now db =
     (let r = newJob i org kind payload (case priority of None \<Rightarrow> 0 | Some p \<Rightarrow> p)
                (case maxAttempts of None \<Rightarrow> 5 | Some m \<Rightarrow> m) (case runAfter of None \<Rightarrow> now | Some t \<Rightarrow> t) now
      in if \<not> jobAccepted r then Inl (JobDatabaseError ''constraint'')
         else if slotTaken (jd_queue db) r then Inl JobUniqueViolation
         else Inr (i, db\<lparr>jd_queue := jd_queue db @ [r]\<rparr>))"

text \<open>What a tenant sees: row level security, over both tables.\<close>

definition jobsOf :: "id \<Rightarrow> job_db \<Rightarrow> JobRow list" where
  "jobsOf org db = filter (\<lambda>r. jq_org r = Some org) (jd_queue db @ map fst (jd_history db))"

definition find_job :: "id \<Rightarrow> id \<Rightarrow> job_db \<Rightarrow> JobRow option" where
  "find_job org i db = List.find (\<lambda>r. jq_id r = i) (jobsOf org db)"

definition newestFirst :: "JobRow \<Rightarrow> JobRow \<Rightarrow> bool" where
  "newestFirst a b \<longleftrightarrow> jq_created b < jq_created a \<or> (jq_created a = jq_created b \<and> jq_id b < jq_id a)"

definition listJobs :: "id \<Rightarrow> JobStatus list \<Rightarrow> nat \<Rightarrow> job_db \<Rightarrow> JobRow list" where
  "listJobs org statuses limit db =
     take limit (order_by newestFirst
       (filter (\<lambda>r. length statuses = 0 \<or> jq_status r \<in> set statuses) (jobsOf org db)))"

text \<open>The move from the queue to history, in one statement each for \<open>claim_job\<close>, \<open>finish_job\<close> and
  \<open>cancel_job\<close>: the status and the error are the caller's.\<close>

definition endJob :: "id \<Rightarrow> JobStatus \<Rightarrow> (JobRow \<Rightarrow> string option) \<Rightarrow> nat \<Rightarrow> job_db \<Rightarrow> job_db" where
  "endJob i status err now db =
     \<lparr>jd_queue = filter (\<lambda>r. jq_id r \<noteq> i) (jd_queue db),
      jd_history = jd_history db @ map (\<lambda>r. (r\<lparr>jq_status := status, jq_lease := None, jq_error := err r,
        jq_updated := now\<rparr>, now)) (filter (\<lambda>r. jq_id r = i) (jd_queue db))\<rparr>"

definition cancel_job :: "id \<Rightarrow> id \<Rightarrow> nat \<Rightarrow> job_db \<Rightarrow> bool \<times> job_db" where
  "cancel_job org i now db =
     (if list_ex (\<lambda>r. jq_id r = i \<and> jq_org r = Some org) (jd_queue db)
      then (True, endJob i Cancelled jq_error now db) else (False, db))"

section \<open>The worker's side\<close>

definition abandoned :: "nat \<Rightarrow> JobRow \<Rightarrow> bool" where
  "abandoned now r =
     (jq_status r = Queued
      \<or> (jq_status r = Running \<and> (case jq_lease r of None \<Rightarrow> False | Some l \<Rightarrow> l < now)))"

definition claimBefore :: "JobRow \<Rightarrow> JobRow \<Rightarrow> bool" where
  "claimBefore a b \<longleftrightarrow> jq_priority b < jq_priority a
     \<or> (jq_priority a = jq_priority b \<and> (jq_run_after a < jq_run_after b
        \<or> (jq_run_after a = jq_run_after b \<and> jq_id a < jq_id b)))"

text \<open>First half: the abandoned jobs that have no attempt left are dead.\<close>

definition exhausted :: "string list \<Rightarrow> id list \<Rightarrow> nat \<Rightarrow> JobRow \<Rightarrow> bool" where
  "exhausted kinds locked now r =
     (jq_kind r \<in> set kinds \<and> jq_max r \<le> jq_attempt r \<and> abandoned now r \<and> jq_id r \<notin> set locked)"

definition workerStopped :: "JobRow \<Rightarrow> string option" where
  "workerStopped r =
     (case jq_error r of
        Some e \<Rightarrow> Some e
      | None \<Rightarrow> Some (''the worker holding this job stopped without finishing it, and its attempts are exhausted (''
          @ decimal (jq_attempt r) @ ''/'' @ decimal (jq_max r) @ '')''))"

definition reapExhausted :: "string list \<Rightarrow> id list \<Rightarrow> nat \<Rightarrow> job_db \<Rightarrow> job_db" where
  "reapExhausted kinds locked now db =
     fold (\<lambda>i d. endJob i Dead workerStopped now d)
       (map jq_id (filter (exhausted kinds locked now) (jd_queue db))) db"

text \<open>Second half: the best of the rows that can be taken.\<close>

definition claimable :: "string list \<Rightarrow> id list \<Rightarrow> nat \<Rightarrow> JobRow \<Rightarrow> bool" where
  "claimable kinds locked now r =
     (jq_kind r \<in> set kinds \<and> jq_run_after r \<le> now \<and> jq_attempt r < jq_max r \<and> abandoned now r
      \<and> jq_id r \<notin> set locked)"

definition claimed :: "string \<Rightarrow> nat \<Rightarrow> nat \<Rightarrow> JobRow \<Rightarrow> JobRow" where
  "claimed worker leaseSeconds now r =
     r\<lparr>jq_status := Running, jq_lease := Some (now + leaseSeconds), jq_attempt := jq_attempt r + 1,
       jq_worker := Some worker, jq_updated := now\<rparr>"

definition takeBest ::
  "string \<Rightarrow> string list \<Rightarrow> nat \<Rightarrow> id list \<Rightarrow> nat \<Rightarrow> job_db \<Rightarrow> JobRow option \<times> job_db" where
  "takeBest worker kinds leaseSeconds locked now db =
     (case order_by claimBefore (filter (claimable kinds locked now) (jd_queue db)) of
        [] \<Rightarrow> (None, db)
      | best # _ \<Rightarrow>
          (Some (claimed worker leaseSeconds now best),
           db\<lparr>jd_queue := map (\<lambda>r. if jq_id r = jq_id best then claimed worker leaseSeconds now r else r)
                (jd_queue db)\<rparr>))"

definition claim_job ::
  "string \<Rightarrow> string list \<Rightarrow> nat \<Rightarrow> id list \<Rightarrow> nat \<Rightarrow> job_db \<Rightarrow> JobRow option \<times> job_db" where
  "claim_job worker kinds leaseSeconds locked now db =
     takeBest worker kinds leaseSeconds locked now (reapExhausted kinds locked now db)"

text \<open>\<open>claim\<close> asks nothing for no kinds.\<close>

definition claim ::
  "string \<Rightarrow> string list \<Rightarrow> nat \<Rightarrow> id list \<Rightarrow> nat \<Rightarrow> job_db \<Rightarrow> JobRow option \<times> job_db" where
  "claim worker kinds leaseSeconds locked now db =
     (if length kinds = 0 then (None, db) else claim_job worker kinds leaseSeconds locked now db)"

definition holds_lease :: "id \<Rightarrow> string \<Rightarrow> nat \<Rightarrow> JobRow \<Rightarrow> bool" where
  "holds_lease i worker now r =
     (jq_id r = i \<and> jq_worker r = Some worker \<and> jq_status r = Running
      \<and> (case jq_lease r of None \<Rightarrow> False | Some l \<Rightarrow> now \<le> l))"

definition heartbeat_job ::
  "id \<Rightarrow> string \<Rightarrow> nat \<Rightarrow> rat option \<Rightarrow> nat \<Rightarrow> job_db \<Rightarrow> job_error + bool \<times> job_db" where
  "heartbeat_job i worker leaseSeconds progress now db =
     (if \<not> list_ex (holds_lease i worker now) (jd_queue db) then Inr (False, db)
      else if (case progress of None \<Rightarrow> False | Some p \<Rightarrow> p < 0 \<or> 1 < p)
        then Inl (JobDatabaseError ''job_progress_range'')
      else Inr (True, db\<lparr>jd_queue := map (\<lambda>r.
             if holds_lease i worker now r
             then r\<lparr>jq_lease := Some (now + leaseSeconds),
                    jq_progress := (case progress of None \<Rightarrow> jq_progress r | Some p \<Rightarrow> p),
                    jq_updated := now\<rparr>
             else r) (jd_queue db)\<rparr>))"

text \<open>The retry of \<open>finish_job\<close>, with its backoff. \<open>power(2, attempt)::integer\<close> is out of range from 31
  on, and that exception is not the one the block catches.\<close>

definition requeued :: "string option \<Rightarrow> nat \<Rightarrow> JobRow \<Rightarrow> JobRow" where
  "requeued err now r =
     r\<lparr>jq_status := Queued, jq_lease := None, jq_worker := None, jq_error := err,
       jq_run_after := now + min 300 (2 ^ jq_attempt r), jq_updated := now\<rparr>"

definition notRetried :: "string option \<Rightarrow> string option" where
  "notRetried err =
     Some ((case err of None \<Rightarrow> ''the attempt failed'' | Some e \<Rightarrow> e)
       @ '' '' @ [CHR 0xE2, CHR 0x80, CHR 0x94] @ '' not retried: a successor of this kind is already queued'')"

definition finish_job ::
  "id \<Rightarrow> string \<Rightarrow> bool \<Rightarrow> string option \<Rightarrow> nat \<Rightarrow> job_db \<Rightarrow> job_error + JobStatus option \<times> job_db" where
  "finish_job i worker succeeded err now db =
     (case List.find (holds_lease i worker now) (jd_queue db) of
        None \<Rightarrow> Inr (None, db)
      | Some job \<Rightarrow>
          if succeeded then Inr (Some Succeeded, endJob i Succeeded (\<lambda>_. err) now db)
          else if jq_max job \<le> jq_attempt job then Inr (Some Dead, endJob i Dead (\<lambda>_. err) now db)
          else if 31 \<le> jq_attempt job then Inl (JobDatabaseError ''integer out of range'')
          else if slotTaken (jd_queue db) (requeued err now job)
            then Inr (Some JobFailed, endJob i JobFailed (\<lambda>_. notRetried err) now db)
          else Inr (Some Queued, db\<lparr>jd_queue := map (\<lambda>r. if jq_id r = i then requeued err now r else r)
                 (jd_queue db)\<rparr>))"

text \<open>\<open>finish\<close> cuts the message at 2000 characters.\<close>

definition finish ::
  "id \<Rightarrow> string \<Rightarrow> bool \<Rightarrow> string option \<Rightarrow> nat \<Rightarrow> job_db \<Rightarrow> job_error + JobStatus option \<times> job_db" where
  "finish i worker succeeded err now db =
     finish_job i worker succeeded (map_option (take 2000) err) now db"

section \<open>History retention\<close>

definition PRUNE_KEEP_DAYS :: nat where
  "PRUNE_KEEP_DAYS = 7"

definition PRUNE_KEEP_TERMINAL_DAYS :: nat where
  "PRUNE_KEEP_TERMINAL_DAYS = 90"

definition expired :: "nat \<Rightarrow> JobRow \<times> nat \<Rightarrow> bool" where
  "expired now h =
     (snd h + 86400 * (if jq_status (fst h) \<in> {Dead, JobFailed} then PRUNE_KEEP_TERMINAL_DAYS
                       else PRUNE_KEEP_DAYS) < now)"

definition schedulePrune :: "id \<Rightarrow> id \<Rightarrow> nat \<Rightarrow> nat \<Rightarrow> job_db \<Rightarrow> job_db" where
  "schedulePrune i org runAfter now db =
     (let r = newJob i org ''jobs.prune'' [] 0 3 runAfter now
      in if slotTaken (jd_queue db) r then db else db\<lparr>jd_queue := jd_queue db @ [r]\<rparr>)"

definition hurryUpPrune :: "id \<Rightarrow> nat \<Rightarrow> job_db \<Rightarrow> job_db" where
  "hurryUpPrune org now db =
     db\<lparr>jd_queue := map (\<lambda>r. if jq_org r = Some org \<and> jq_kind r = ''jobs.prune'' \<and> jq_status r = Queued
                            then r\<lparr>jq_run_after := now\<rparr> else r) (jd_queue db)\<rparr>"

text \<open>One batch: the rows the inner \<open>SELECT\<close> meets first, up to the limit.\<close>

definition pruneHistory :: "id \<Rightarrow> nat \<Rightarrow> nat \<Rightarrow> job_db \<Rightarrow> nat \<times> job_db" where
  "pruneHistory org batch now db =
     (let gone = map (jq_id o fst) (take batch
            (filter (\<lambda>h. jq_org (fst h) = Some org \<and> expired now h) (jd_history db)))
      in (length gone, db\<lparr>jd_history := filter (\<lambda>h. jq_id (fst h) \<notin> set gone) (jd_history db)\<rparr>))"

end
