(* ===== verification/JobQueue.thy ===== *)
theory JobQueue
  imports Jobs
begin

text \<open>
  What every transaction on the queue keeps: a job is in one table, once; the queue holds waiting and
  running rows, history the ended ones; attempts stay within their budget; a kind that schedules
  itself has one waiting row.
\<close>

definition job_ids :: "job_db \<Rightarrow> id list" where
  "job_ids db = map jq_id (jd_queue db) @ map (jq_id o fst) (jd_history db)"

definition live_row :: "JobRow \<Rightarrow> bool" where
  "live_row r \<longleftrightarrow> jq_status r \<in> {Queued, Running} \<and> jq_attempt r \<le> jq_max r
     \<and> (jq_status r = Running \<longrightarrow> jq_lease r \<noteq> None \<and> jq_worker r \<noteq> None)
     \<and> (jq_status r = Queued \<longrightarrow> jq_lease r = None \<and> jq_worker r = None)"

definition ended_row :: "JobRow \<Rightarrow> bool" where
  "ended_row r \<longleftrightarrow> jq_status r \<in> {Succeeded, JobFailed, Dead, Cancelled} \<and> jq_attempt r \<le> jq_max r
     \<and> jq_lease r = None"

definition slots_single :: "JobRow list \<Rightarrow> bool" where
  "slots_single q \<longleftrightarrow> (\<forall>r \<in> set q. \<not> slotTaken q r)"

definition jobs_inv :: "job_db \<Rightarrow> bool" where
  "jobs_inv db \<longleftrightarrow> distinct (job_ids db) \<and> (\<forall>r \<in> set (jd_queue db). live_row r)
     \<and> (\<forall>h \<in> set (jd_history db). ended_row (fst h)) \<and> slots_single (jd_queue db)"

lemma slotTaken_iff:
  "slotTaken q r \<longleftrightarrow> jq_status r = Queued \<and> jobSlot r \<noteq> None
     \<and> (\<exists>x \<in> set q. jq_id x \<noteq> jq_id r \<and> jq_status x = Queued \<and> jobSlot x = jobSlot r)"
  by (auto simp: slotTaken_def list_ex_iff)

lemma slots_single_mono:
  "slots_single q \<Longrightarrow> set q' \<subseteq> set q \<Longrightarrow> slots_single q'"
  unfolding slots_single_def slotTaken_iff by blast

lemma jobSlot_cong:
  "jq_org a = jq_org b \<Longrightarrow> jq_kind a = jq_kind b \<Longrightarrow> jq_payload a = jq_payload b \<Longrightarrow> jobSlot a = jobSlot b"
  unfolding jobSlot_def by (cases "jq_org b") simp_all

lemma jobSlot_updates [simp]:
  "jobSlot (claimed w l now r) = jobSlot r"
  "jobSlot (requeued err now r) = jobSlot r"
  "jobSlot (r\<lparr>jq_run_after := t\<rparr>) = jobSlot r"
  "jobSlot (r\<lparr>jq_lease := b, jq_progress := p, jq_updated := e\<rparr>) = jobSlot r"
  by (rule jobSlot_cong; simp add: claimed_def requeued_def)+

lemma claimed_fields [simp]:
  "jq_id (claimed w l now r) = jq_id r" "jq_status (claimed w l now r) = Running"
  "jq_attempt (claimed w l now r) = Suc (jq_attempt r)" "jq_worker (claimed w l now r) = Some w"
  "jq_max (claimed w l now r) = jq_max r"
  by (simp_all add: claimed_def)

lemma requeued_fields [simp]:
  "jq_id (requeued err now r) = jq_id r" "jq_status (requeued err now r) = Queued"
  "jq_attempt (requeued err now r) = jq_attempt r" "jq_worker (requeued err now r) = None"
  "jq_max (requeued err now r) = jq_max r"
  by (simp_all add: requeued_def)

text \<open>A new row, a row replaced by one with the same id, rows moved to history.\<close>

lemma inv_append:
  assumes "jobs_inv db" and "jq_id r \<notin> set (job_ids db)" and "live_row r" and "\<not> slotTaken (jd_queue db) r"
  shows "jobs_inv (db\<lparr>jd_queue := jd_queue db @ [r]\<rparr>)"
proof -
  have "\<not> slotTaken (jd_queue db @ [r]) x" if x: "x \<in> set (jd_queue db) \<union> {r}" for x
  proof
    assume "slotTaken (jd_queue db @ [r]) x"
    then obtain y where "y \<in> set (jd_queue db) \<union> {r}" "jq_id y \<noteq> jq_id x" "jq_status x = Queued"
      "jq_status y = Queued" "jobSlot y = jobSlot x" "jobSlot x \<noteq> None"
      by (auto simp: slotTaken_iff)
    moreover have "\<not> slotTaken (jd_queue db) z" if "z \<in> set (jd_queue db)" for z
      using assms(1) that by (simp add: jobs_inv_def slots_single_def)
    ultimately show False using x assms(4) unfolding slotTaken_iff by (metis Un_iff singletonD)
  qed
  then show ?thesis
    using assms by (auto simp: jobs_inv_def slots_single_def job_ids_def)
qed

lemma inv_replace:
  assumes inv: "jobs_inv db" and ids: "\<And>r. jq_id (f r) = jq_id r"
    and live: "\<And>r. r \<in> set (jd_queue db) \<Longrightarrow> live_row (f r)"
    and slot: "\<And>r. r \<in> set (jd_queue db) \<Longrightarrow> jobSlot (f r) = jobSlot r"
    and kept: "\<And>r. r \<in> set (jd_queue db) \<Longrightarrow> jq_status (f r) = Queued \<Longrightarrow> jq_status r = Queued
      \<or> (jq_id r = i \<and> \<not> slotTaken (jd_queue db) (f r))"
  shows "jobs_inv (db\<lparr>jd_queue := map f (jd_queue db)\<rparr>)"
proof -
  have "map jq_id (map f (jd_queue db)) = map jq_id (jd_queue db)" by (simp add: ids)
  then have "job_ids (db\<lparr>jd_queue := map f (jd_queue db)\<rparr>) = job_ids db" by (simp add: job_ids_def)
  moreover have "\<not> slotTaken (map f (jd_queue db)) (f r)" if r: "r \<in> set (jd_queue db)" for r
  proof
    assume "slotTaken (map f (jd_queue db)) (f r)"
    then obtain x where x: "x \<in> set (jd_queue db)" "jq_id x \<noteq> jq_id r" "jq_status (f r) = Queued"
      "jq_status (f x) = Queued" "jobSlot x = jobSlot r" "jobSlot r \<noteq> None"
      using r by (auto simp: slotTaken_iff ids slot)
    have single: "\<not> slotTaken (jd_queue db) y" if "y \<in> set (jd_queue db)" for y
      using inv that by (simp add: jobs_inv_def slots_single_def)
    consider "jq_status r = Queued" "jq_status x = Queued"
      | "jq_status r = Queued" "\<not> slotTaken (jd_queue db) (f x)"
      | "jq_status x = Queued" "\<not> slotTaken (jd_queue db) (f r)"
      using kept [OF r x(3)] kept [OF x(1,4)] x(2) by blast
    then show False
    proof cases
      case 1
      then show False using single [OF r] x by (auto simp: slotTaken_iff)
    next
      case 2
      then show False using x r by (auto simp: slotTaken_iff ids slot)
    next
      case 3
      then show False using x r by (auto simp: slotTaken_iff ids slot)
    qed
  qed
  ultimately show ?thesis
    using inv live by (auto simp: jobs_inv_def slots_single_def)
qed

lemma ended_split:
  assumes "distinct (map jq_id q)" and "r \<in> set q"
  shows "filter (\<lambda>x. jq_id x = jq_id r) q = [r]"
  using assms
proof (induction q)
  case (Cons x q)
  show ?case
  proof (cases "x = r")
    case True
    then have "filter (\<lambda>x. jq_id x = jq_id r) q = []"
      using Cons.prems(1) by (auto simp: filter_empty_conv image_iff)
    then show ?thesis using True by simp
  next
    case False
    then show ?thesis using Cons by (auto simp: image_iff)
  qed
qed simp

lemma inv_end:
  assumes "jobs_inv db" and "status \<in> {Succeeded, JobFailed, Dead, Cancelled}"
  shows "jobs_inv (endJob i status err now db)"
proof -
  let ?q = "jd_queue db"
  let ?out = "filter (\<lambda>r. jq_id r = i) ?q"
  have d: "distinct (map jq_id ?q)" using assms(1) by (simp add: jobs_inv_def job_ids_def)
  have ids: "map jq_id ?out = (if i \<in> set (map jq_id ?q) then [i] else [])"
  proof (cases "i \<in> set (map jq_id ?q)")
    case True
    then obtain r where "r \<in> set ?q" "i = jq_id r" by auto
    then show ?thesis using ended_split [OF d] by auto
  next
    case False
    then show ?thesis by (auto simp: filter_empty_conv)
  qed
  have "job_ids (endJob i status err now db)
      = map jq_id (filter (\<lambda>r. jq_id r \<noteq> i) ?q) @ map (jq_id o fst) (jd_history db) @ map jq_id ?out"
    by (simp add: job_ids_def endJob_def comp_def)
  moreover have "distinct (map jq_id (filter (\<lambda>r. jq_id r \<noteq> i) ?q) @ map (jq_id o fst) (jd_history db) @ map jq_id ?out)"
    unfolding ids using assms(1) by (auto simp: jobs_inv_def job_ids_def distinct_map_filter)
  moreover have "ended_row (r\<lparr>jq_status := status, jq_lease := None, jq_error := err r, jq_updated := now\<rparr>)"
    if "r \<in> set ?q" for r
    using assms that by (auto simp: jobs_inv_def live_row_def ended_row_def)
  moreover have "slots_single (filter (\<lambda>r. jq_id r \<noteq> i) ?q)"
    using assms(1) by (auto simp: jobs_inv_def elim!: slots_single_mono)
  ultimately show ?thesis
    using assms(1) by (auto simp: jobs_inv_def endJob_def)
qed

lemma inv_reap: "jobs_inv db \<Longrightarrow> jobs_inv (reapExhausted kinds locked now db)"
proof -
  have "jobs_inv db \<Longrightarrow> jobs_inv (fold (\<lambda>i d. endJob i Dead workerStopped now d) is db)" for "is" db
    by (induction "is" arbitrary: db) (simp_all add: inv_end)
  then show "jobs_inv db \<Longrightarrow> jobs_inv (reapExhausted kinds locked now db)"
    by (simp add: reapExhausted_def)
qed

lemma order_by_head: "order_by before xs = x # ys \<Longrightarrow> x \<in> set xs"
  by (metis list.set_intros(1) set_order_by)

lemma takeBest_cases:
  assumes "takeBest worker kinds lease locked now db = (found, db')"
  obtains (none) "found = None" "db' = db" "\<forall>r \<in> set (jd_queue db). \<not> claimable kinds locked now r"
    | (some) best where "best \<in> set (jd_queue db)" "claimable kinds locked now best"
      "found = Some (claimed worker lease now best)"
      "db' = db\<lparr>jd_queue := map (\<lambda>r. if jq_id r = jq_id best then claimed worker lease now r else r) (jd_queue db)\<rparr>"
      "best = hd (order_by claimBefore (filter (claimable kinds locked now) (jd_queue db)))"
proof (cases "order_by claimBefore (filter (claimable kinds locked now) (jd_queue db))")
  case Nil
  then have "set (filter (claimable kinds locked now) (jd_queue db)) = {}"
    by (metis set_order_by set_empty)
  then show ?thesis using assms Nil none by (auto simp: takeBest_def filter_empty_conv)
next
  case (Cons best ys)
  then have "best \<in> set (filter (claimable kinds locked now) (jd_queue db))" by (rule order_by_head)
  then show ?thesis using assms Cons some by (auto simp: takeBest_def)
qed

lemma claimed_live: "live_row r \<Longrightarrow> claimable kinds locked now r \<Longrightarrow> live_row (claimed w l t r)"
  by (auto simp: live_row_def claimable_def claimed_def)

lemma same_id: "jobs_inv db \<Longrightarrow> r \<in> set (jd_queue db) \<Longrightarrow> x \<in> set (jd_queue db) \<Longrightarrow> jq_id r = jq_id x \<Longrightarrow> r = x"
  by (auto simp: jobs_inv_def job_ids_def distinct_map dest: inj_onD)

lemma inv_takeBest:
  assumes "jobs_inv db" and "takeBest worker kinds lease locked now db = (found, db')"
  shows "jobs_inv db'"
  using assms(2)
proof (cases rule: takeBest_cases)
  case (some best)
  show ?thesis
    unfolding some(4)
  proof (rule inv_replace [OF assms(1)])
    fix r assume r: "r \<in> set (jd_queue db)"
    then have live: "live_row r" using assms(1) by (simp add: jobs_inv_def)
    show "live_row (if jq_id r = jq_id best then claimed worker lease now r else r)"
      using live claimed_live some(2) same_id [OF assms(1) r some(1)] by auto
  qed (auto split: if_splits)
qed (simp add: assms(1))

lemma inv_claim:
  "jobs_inv db \<Longrightarrow> claim worker kinds lease locked now db = (found, db') \<Longrightarrow> jobs_inv db'"
  using inv_takeBest [OF inv_reap] by (auto simp: claim_def claim_job_def split: if_splits)

lemma inv_heartbeat:
  assumes "jobs_inv db" and "heartbeat_job i worker lease progress now db = Inr (ok, db')"
  shows "jobs_inv db'"
proof (cases "db' = db")
  case False
  then have db': "db' = db\<lparr>jd_queue := map (\<lambda>r. if holds_lease i worker now r
      then r\<lparr>jq_lease := Some (now + lease),
             jq_progress := (case progress of None \<Rightarrow> jq_progress r | Some p \<Rightarrow> p), jq_updated := now\<rparr>
      else r) (jd_queue db)\<rparr>"
    using assms(2) by (auto simp: heartbeat_job_def split: if_splits)
  show ?thesis
    unfolding db' using assms(1)
    by (intro inv_replace) (auto simp: holds_lease_def jobs_inv_def live_row_def split: if_splits)
qed (simp add: assms(1))

lemma holds_lease_found:
  "List.find (holds_lease i worker now) q = Some job \<Longrightarrow> job \<in> set q \<and> holds_lease i worker now job \<and> jq_id job = i"
  using find_eq_Some_ex by (fastforce simp: holds_lease_def)

lemma inv_finish:
  assumes inv: "jobs_inv db" and fin: "finish i worker succeeded err now db = Inr (outcome, db')"
  shows "jobs_inv db'"
proof (cases "List.find (holds_lease i worker now) (jd_queue db)")
  case None
  then show ?thesis using assms by (simp add: finish_def finish_job_def)
next
  case (Some job)
  note job = holds_lease_found [OF Some]
  let ?err = "map_option (take 2000) err"
  have live: "live_row job" using inv job by (simp add: jobs_inv_def)
  show ?thesis
  proof (cases "outcome = Some Queued")
    case False
    then show ?thesis using fin Some inv by (auto simp: finish_def finish_job_def inv_end split: if_splits)
  next
    case True
    then have db': "db' = db\<lparr>jd_queue := map (\<lambda>r. if jq_id r = i then requeued ?err now r else r) (jd_queue db)\<rparr>"
      and free: "\<not> slotTaken (jd_queue db) (requeued ?err now job)"
      using fin Some by (auto simp: finish_def finish_job_def split: if_splits)
    show ?thesis
      unfolding db'
    proof (rule inv_replace [OF inv, where i = i])
      fix r assume r: "r \<in> set (jd_queue db)"
      have eq: "r = job" if "jq_id r = i"
        by (rule same_id [OF inv r]) (simp_all add: job that)
      show "live_row (if jq_id r = i then requeued ?err now r else r)"
        using r inv by (auto simp: jobs_inv_def live_row_def requeued_def)
      show "jq_status (if jq_id r = i then requeued ?err now r else r) = Queued \<Longrightarrow> jq_status r = Queued
          \<or> (jq_id r = i \<and> \<not> slotTaken (jd_queue db) (if jq_id r = i then requeued ?err now r else r))"
        using eq free by (auto split: if_splits)
    qed auto
  qed
qed

lemma inv_enqueue:
  assumes "jobs_inv db" and "i \<notin> set (job_ids db)"
    and "enqueue i org kind payload priority maxAttempts runAfter now db = Inr (j, db')"
  shows "jobs_inv db'"
  using assms(3) inv_append [OF assms(1)] assms(2)
  by (auto simp: enqueue_def Let_def newJob_def live_row_def split: if_splits)

lemma inv_schedulePrune:
  "jobs_inv db \<Longrightarrow> i \<notin> set (job_ids db) \<Longrightarrow> jobs_inv (schedulePrune i org runAfter now db)"
  unfolding schedulePrune_def Let_def
  by (cases "slotTaken (jd_queue db) (newJob i org ''jobs.prune'' [] 0 3 runAfter now)")
    (auto intro!: inv_append simp: newJob_def live_row_def)

lemma inv_hurryUp: "jobs_inv db \<Longrightarrow> jobs_inv (hurryUpPrune org now db)"
  unfolding hurryUpPrune_def
  by (intro inv_replace) (auto simp: jobs_inv_def live_row_def split: if_splits)

lemma inv_cancel: "jobs_inv db \<Longrightarrow> jobs_inv (snd (cancel_job org i now db))"
  by (simp add: cancel_job_def inv_end)

lemma inv_prune: "jobs_inv db \<Longrightarrow> jobs_inv (snd (pruneHistory org batch now db))"
  by (auto simp: pruneHistory_def Let_def jobs_inv_def job_ids_def distinct_map_filter)

end
