(* ===== verification/Worker.thy ===== *)
theory Worker
  imports JobQueue
begin

text \<open>
  The processes that consume the queue (\<open>apps/worker/src/worker.service.ts\<close>), any number of them, beside
  the API that enqueues, cancels and prunes. A handler is arbitrary code that may report progress, see
  whether the lease is still held, and return or throw: \<open>handler_run\<close>. A call to the database may
  fail, a process may stop anywhere, and time passes between any two statements.
\<close>

datatype handler_run =
  HReturn
| HThrow string
| HReport "rat option" "bool option \<Rightarrow> handler_run"

text \<open>Where a process stands in \<open>run\<close> and \<open>execute\<close>: between jobs; in a handler, with the flag \<open>held\<close>;
  about to record a failure; ended.\<close>

datatype worker_phase = Idle | Executing JobRow bool handler_run | Recording JobRow string | Gone

type_synonym handlers = "string \<Rightarrow> (JobRow \<Rightarrow> handler_run) option"

definition execute :: "handlers \<Rightarrow> JobRow \<Rightarrow> worker_phase" where
  "execute handlers job =
     (case handlers (jq_kind job) of
        None \<Rightarrow> Recording job (''no handler for '' @ CHR 0x27 # jq_kind job @ [CHR 0x27])
      | Some handler \<Rightarrow> Executing job True (handler job))"

text \<open>The \<open>catch\<close> of \<open>execute\<close>: nothing is recorded once the lease is known to be lost.\<close>

definition threw :: "JobRow \<Rightarrow> bool \<Rightarrow> string \<Rightarrow> worker_phase" where
  "threw job held message = (if held then Recording job message else Idle)"

record system =
  sys_db :: job_db
  sys_now :: nat
  sys_workers :: "string \<Rightarrow> worker_phase"
  sys_used :: "id set"
  sys_starts :: "id \<Rightarrow> nat"

definition goto :: "string \<Rightarrow> worker_phase \<Rightarrow> system \<Rightarrow> system" where
  "goto w ph s = s\<lparr>sys_workers := (sys_workers s)(w := ph)\<rparr>"

inductive worker_step :: "handlers \<Rightarrow> string list \<Rightarrow> nat \<Rightarrow> system \<Rightarrow> system \<Rightarrow> bool"
  for handlers kinds lease where
  claim_some: "sys_workers s w = Idle \<Longrightarrow>
    claim w kinds lease locked (sys_now s) (sys_db s) = (Some job, db) \<Longrightarrow>
    worker_step handlers kinds lease s (goto w (execute handlers job)
      (s\<lparr>sys_db := db, sys_starts := (sys_starts s)(jq_id job := Suc (sys_starts s (jq_id job)))\<rparr>))"
| claim_none: "sys_workers s w = Idle \<Longrightarrow>
    claim w kinds lease locked (sys_now s) (sys_db s) = (None, db) \<Longrightarrow>
    worker_step handlers kinds lease s (s\<lparr>sys_db := db\<rparr>)"
| report: "sys_workers s w = Executing job held (HReport progress k) \<Longrightarrow>
    heartbeat_job (jq_id job) w lease progress (sys_now s) (sys_db s) = Inr (ok, db) \<Longrightarrow>
    worker_step handlers kinds lease s (goto w (Executing job (held \<and> ok) (k (Some ok))) (s\<lparr>sys_db := db\<rparr>))"
| report_fails: "sys_workers s w = Executing job held (HReport progress k) \<Longrightarrow>
    worker_step handlers kinds lease s (goto w (Executing job held (k None)) s)"
| beat: "sys_workers s w = Executing job held h \<Longrightarrow>
    heartbeat_job (jq_id job) w lease None (sys_now s) (sys_db s) = Inr (ok, db) \<Longrightarrow>
    worker_step handlers kinds lease s (goto w (Executing job (held \<and> ok) h) (s\<lparr>sys_db := db\<rparr>))"
| late_beat: "heartbeat_job i w lease None (sys_now s) (sys_db s) = Inr (ok, db) \<Longrightarrow>
    worker_step handlers kinds lease s (s\<lparr>sys_db := db\<rparr>)"
| returned: "sys_workers s w = Executing job True HReturn \<Longrightarrow>
    finish (jq_id job) w True None (sys_now s) (sys_db s) = Inr (outcome, db) \<Longrightarrow>
    worker_step handlers kinds lease s (goto w Idle (s\<lparr>sys_db := db\<rparr>))"
| returned_unrecorded: "sys_workers s w = Executing job True HReturn \<Longrightarrow>
    worker_step handlers kinds lease s (goto w (threw job True message) s)"
| returned_late: "sys_workers s w = Executing job False HReturn \<Longrightarrow>
    worker_step handlers kinds lease s (goto w Idle s)"
| handler_threw: "sys_workers s w = Executing job held (HThrow message) \<Longrightarrow>
    worker_step handlers kinds lease s (goto w (threw job held message) s)"
| recorded: "sys_workers s w = Recording job message \<Longrightarrow>
    finish (jq_id job) w False (Some message) (sys_now s) (sys_db s) = Inr (outcome, db) \<Longrightarrow>
    worker_step handlers kinds lease s (goto w Idle (s\<lparr>sys_db := db\<rparr>))"
| unrecorded: "sys_workers s w = Recording job message \<Longrightarrow>
    worker_step handlers kinds lease s (goto w Idle s)"
| stopped: "worker_step handlers kinds lease s (goto w Gone s)"
| enqueued: "i \<notin> sys_used s \<Longrightarrow>
    enqueue i org kind payload priority maxAttempts runAfter (sys_now s) (sys_db s) = Inr (j, db) \<Longrightarrow>
    worker_step handlers kinds lease s (s\<lparr>sys_db := db, sys_used := insert i (sys_used s)\<rparr>)"
| prune_scheduled: "i \<notin> sys_used s \<Longrightarrow>
    worker_step handlers kinds lease s (s\<lparr>sys_db := schedulePrune i org runAfter (sys_now s) (sys_db s),
      sys_used := insert i (sys_used s)\<rparr>)"
| prune_hurried: "worker_step handlers kinds lease s (s\<lparr>sys_db := hurryUpPrune org (sys_now s) (sys_db s)\<rparr>)"
| pruned: "worker_step handlers kinds lease s (s\<lparr>sys_db := snd (pruneHistory org batch (sys_now s) (sys_db s))\<rparr>)"
| cancelled: "worker_step handlers kinds lease s (s\<lparr>sys_db := snd (cancel_job org i (sys_now s) (sys_db s))\<rparr>)"
| time_passes: "sys_now s \<le> t \<Longrightarrow> worker_step handlers kinds lease s (s\<lparr>sys_now := t\<rparr>)"

section \<open>Attempts\<close>

text \<open>The rows of both tables, as pairs of a job and its attempts.\<close>

definition tally :: "JobRow \<Rightarrow> id \<times> nat" where
  "tally r = (jq_id r, jq_attempt r)"

definition attempts :: "job_db \<Rightarrow> (id \<times> nat) set" where
  "attempts db = tally ` set (jd_queue db) \<union> (tally o fst) ` set (jd_history db)"

lemma attempts_ids: "(i, a) \<in> attempts db \<Longrightarrow> i \<in> set (job_ids db)"
  by (auto simp: attempts_def tally_def job_ids_def)

lemma attempts_end [simp]: "attempts (endJob i status err now db) = attempts db"
proof -
  let ?q = "set (jd_queue db)"
  have "(tally o fst) ` set (jd_history (endJob i status err now db))
      = (tally o fst) ` set (jd_history db) \<union> tally ` {r \<in> ?q. jq_id r = i}"
    by (simp add: endJob_def tally_def image_Un image_image comp_def)
  moreover have "set (jd_queue (endJob i status err now db)) = {r \<in> ?q. jq_id r \<noteq> i}"
    by (simp add: endJob_def)
  moreover have "tally ` {r \<in> ?q. jq_id r \<noteq> i} \<union> tally ` {r \<in> ?q. jq_id r = i} = tally ` ?q"
    by blast
  ultimately show ?thesis unfolding attempts_def by (simp only: Un_ac)
qed

lemma attempts_reap [simp]: "attempts (reapExhausted kinds locked now db) = attempts db"
proof -
  have "attempts (fold (\<lambda>i d. endJob i Dead workerStopped now d) is db) = attempts db" for "is" db
    by (induction "is" arbitrary: db) simp_all
  then show ?thesis by (simp add: reapExhausted_def)
qed

lemma attempts_map:
  assumes "\<And>r. r \<in> set (jd_queue db) \<Longrightarrow> tally (f r) = tally r"
  shows "attempts (db\<lparr>jd_queue := map f (jd_queue db)\<rparr>) = attempts db"
proof -
  have "tally ` set (map f (jd_queue db)) = tally ` set (jd_queue db)"
    unfolding set_map image_image by (rule image_cong [OF refl]) (rule assms)
  then show ?thesis by (simp add: attempts_def)
qed

lemma attempts_heartbeat:
  "heartbeat_job i worker lease progress now db = Inr (ok, db') \<Longrightarrow> attempts db' = attempts db"
  by (auto simp: heartbeat_job_def tally_def intro!: attempts_map split: if_splits)

lemma attempts_finish:
  "finish i worker succeeded err now db = Inr (outcome, db') \<Longrightarrow> attempts db' = attempts db"
  by (auto simp: finish_def finish_job_def tally_def intro!: attempts_map split: option.splits if_splits)

definition busy :: "worker_phase \<Rightarrow> JobRow option" where
  "busy ph = (case ph of Executing job _ _ \<Rightarrow> Some job | Recording job _ \<Rightarrow> Some job | _ \<Rightarrow> None)"

lemma busy_simps [simp]:
  "busy Idle = None" "busy Gone = None" "busy (Executing job held h) = Some job"
  "busy (Recording job m) = Some job" "busy (execute handlers job) = Some job"
  by (simp_all add: busy_def execute_def split: option.splits)

lemma busy_threw: "busy (threw job held m) = None \<or> busy (threw job held m) = Some job"
  by (simp add: threw_def)

text \<open>Every transaction but a claim: no attempt is added, and no worker gains a row.\<close>

definition no_claim :: "job_db \<Rightarrow> job_db \<Rightarrow> id set \<Rightarrow> bool" where
  "no_claim db db' fresh \<longleftrightarrow> attempts db' \<subseteq> attempts db \<union> fresh \<times> {0}
     \<and> set (job_ids db') \<subseteq> set (job_ids db) \<union> fresh
     \<and> (\<forall>x \<in> set (jd_queue db'). jq_worker x \<noteq> None \<longrightarrow>
          (\<exists>y \<in> set (jd_queue db). tally y = tally x \<and> jq_worker y = jq_worker x))"

lemma ids_of_attempts: "set (job_ids db) = fst ` attempts db"
  by (simp add: job_ids_def attempts_def tally_def image_Un image_image comp_def)

lemma no_claimI:
  assumes "attempts db' \<subseteq> attempts db \<union> fresh \<times> {0}"
    and "\<And>x w. x \<in> set (jd_queue db') \<Longrightarrow> jq_worker x = Some w \<Longrightarrow>
      \<exists>y \<in> set (jd_queue db). tally y = tally x \<and> jq_worker y = jq_worker x"
  shows "no_claim db db' fresh"
  using assms unfolding no_claim_def ids_of_attempts by fastforce

lemma no_claim_map:
  assumes "\<And>r. r \<in> set (jd_queue db) \<Longrightarrow> tally (f r) = tally r"
    and "\<And>r. r \<in> set (jd_queue db) \<Longrightarrow> jq_worker (f r) = jq_worker r \<or> jq_worker (f r) = None"
  shows "no_claim db (db\<lparr>jd_queue := map f (jd_queue db)\<rparr>) {}"
proof (rule no_claimI)
  show "attempts (db\<lparr>jd_queue := map f (jd_queue db)\<rparr>) \<subseteq> attempts db \<union> {} \<times> {0}"
    using attempts_map [of db f] assms(1) by simp
next
  fix x w assume "x \<in> set (jd_queue (db\<lparr>jd_queue := map f (jd_queue db)\<rparr>))" "jq_worker x = Some w"
  then obtain y where "y \<in> set (jd_queue db)" "x = f y" by auto
  then show "\<exists>y \<in> set (jd_queue db). tally y = tally x \<and> jq_worker y = jq_worker x"
    using assms \<open>jq_worker x = Some w\<close> by (metis option.distinct(1))
qed

lemma no_claim_refl: "no_claim db db {}"
  by (rule no_claimI) auto

lemma no_claim_end: "no_claim db (endJob i status err now db) {}"
  by (rule no_claimI, simp) (auto simp: endJob_def)

lemma no_claim_trans: "no_claim a b {} \<Longrightarrow> no_claim b c {} \<Longrightarrow> no_claim a c {}"
  unfolding no_claim_def by (simp, metis (no_types, opaque_lifting) order_trans)

lemma no_claim_reap: "no_claim db (reapExhausted kinds locked now db) {}"
proof -
  have "no_claim db (fold (\<lambda>i d. endJob i Dead workerStopped now d) is db) {}" for "is" db
    by (induction "is" arbitrary: db) (auto simp: no_claim_refl intro: no_claim_trans [OF no_claim_end])
  then show ?thesis by (simp add: reapExhausted_def)
qed

lemma no_claim_heartbeat:
  "heartbeat_job i worker lease progress now db = Inr (ok, db') \<Longrightarrow> no_claim db db' {}"
  by (auto simp: heartbeat_job_def no_claim_refl tally_def intro!: no_claim_map split: if_splits)

lemma no_claim_finish:
  "finish i worker succeeded err now db = Inr (outcome, db') \<Longrightarrow> no_claim db db' {}"
  by (auto simp: finish_def finish_job_def no_claim_refl no_claim_end tally_def intro!: no_claim_map
      split: option.splits if_splits)

lemma no_claim_new:
  assumes "jq_id r = i" and "jq_attempt r = 0" and "jq_worker r = None"
  shows "no_claim db (db\<lparr>jd_queue := jd_queue db @ [r]\<rparr>) {i}"
  using assms by (intro no_claimI) (auto simp: attempts_def tally_def)

lemma no_claim_more: "no_claim db db' {} \<Longrightarrow> no_claim db db' fresh"
  unfolding no_claim_def by blast

lemma no_claim_enqueue:
  "enqueue i org kind payload priority maxAttempts runAfter now db = Inr (j, db') \<Longrightarrow> no_claim db db' {i}"
  by (auto simp: enqueue_def Let_def newJob_def intro!: no_claim_new split: if_splits)

lemma no_claim_schedule: "no_claim db (schedulePrune i org runAfter now db) {i}"
  by (auto simp: schedulePrune_def Let_def newJob_def intro!: no_claim_new no_claim_more [OF no_claim_refl])

lemma no_claim_hurry: "no_claim db (hurryUpPrune org now db) {}"
  by (auto simp: hurryUpPrune_def tally_def intro!: no_claim_map split: if_splits)

lemma no_claim_cancel: "no_claim db (snd (cancel_job org i now db)) {}"
  by (simp add: cancel_job_def no_claim_end no_claim_refl)

lemma no_claim_prune: "no_claim db (snd (pruneHistory org batch now db)) {}"
  by (rule no_claimI) (auto simp: pruneHistory_def Let_def attempts_def)

lemma claim_none_value: "claim worker kinds lease locked now db = (None, db') \<Longrightarrow> no_claim db db' {}"
  by (auto simp: claim_def claim_job_def no_claim_refl no_claim_reap elim!: takeBest_cases split: if_splits)

section \<open>What every reachable state satisfies\<close>

definition worker_inv :: "system \<Rightarrow> bool" where
  "worker_inv s \<longleftrightarrow> jobs_inv (sys_db s) \<and> set (job_ids (sys_db s)) \<subseteq> sys_used s
     \<and> (\<forall>p \<in> attempts (sys_db s). snd p = sys_starts s (fst p))
     \<and> (\<forall>i. i \<notin> sys_used s \<longrightarrow> sys_starts s i = 0)
     \<and> (\<forall>w row. busy (sys_workers s w) = Some row \<longrightarrow>
          jq_id row \<in> sys_used s \<and> jq_attempt row \<le> sys_starts s (jq_id row))
     \<and> (\<forall>v w a b. busy (sys_workers s v) = Some a \<longrightarrow> busy (sys_workers s w) = Some b \<longrightarrow>
          jq_id a = jq_id b \<longrightarrow> jq_attempt a = jq_attempt b \<longrightarrow> v = w)
     \<and> (\<forall>w row r. busy (sys_workers s w) = Some row \<longrightarrow> r \<in> set (jd_queue (sys_db s)) \<longrightarrow>
          jq_id r = jq_id row \<longrightarrow> jq_worker r = Some w \<longrightarrow> jq_attempt r = jq_attempt row)"

definition quiet :: "system \<Rightarrow> system \<Rightarrow> bool" where
  "quiet s s' \<longleftrightarrow> (\<exists>fresh. no_claim (sys_db s) (sys_db s') fresh \<and> fresh \<inter> sys_used s = {}
     \<and> sys_used s' = sys_used s \<union> fresh) \<and> jobs_inv (sys_db s') \<and> sys_starts s' = sys_starts s
     \<and> (\<forall>w row. busy (sys_workers s' w) = Some row \<longrightarrow> busy (sys_workers s w) = Some row)"

lemma quiet_inv:
  assumes "worker_inv s" and "quiet s s'"
  shows "worker_inv s'"
proof -
  obtain fresh where nc: "no_claim (sys_db s) (sys_db s') fresh" and new: "fresh \<inter> sys_used s = {}"
    and used: "sys_used s' = sys_used s \<union> fresh"
    using assms(2) by (auto simp: quiet_def)
  have inv': "jobs_inv (sys_db s')" and starts: "sys_starts s' = sys_starts s"
    and phase: "\<And>w row. busy (sys_workers s' w) = Some row \<Longrightarrow> busy (sys_workers s w) = Some row"
    using assms(2) by (auto simp: quiet_def)
  have ids: "set (job_ids (sys_db s')) \<subseteq> sys_used s'"
    using nc used assms(1) unfolding no_claim_def worker_inv_def by blast
  have tallies: "snd p = sys_starts s' (fst p)" if p: "p \<in> attempts (sys_db s')" for p
  proof -
    consider "p \<in> attempts (sys_db s)" | "fst p \<in> fresh" "snd p = 0"
      using p nc unfolding no_claim_def by fastforce
    then show ?thesis
      using assms(1) new starts unfolding worker_inv_def by cases auto
  qed
  have own: "jq_attempt r = jq_attempt row"
    if h: "busy (sys_workers s' w) = Some row" "r \<in> set (jd_queue (sys_db s'))" "jq_id r = jq_id row"
      "jq_worker r = Some w" for w row r
  proof -
    have "jq_worker r \<noteq> None" using h(4) by simp
    then obtain y where y: "y \<in> set (jd_queue (sys_db s))" "tally y = tally r" "jq_worker y = Some w"
      using nc h(2,4) unfolding no_claim_def by metis
    then have "jq_id y = jq_id row" "jq_attempt y = jq_attempt r" using h(3) by (simp_all add: tally_def)
    then show ?thesis
      using assms(1) phase [OF h(1)] y(1,3) unfolding worker_inv_def by metis
  qed
  have apart: "v = w" if "busy (sys_workers s' v) = Some a" "busy (sys_workers s' w) = Some b"
      "jq_id a = jq_id b" "jq_attempt a = jq_attempt b" for v w a b
    using assms(1) phase [OF that(1)] phase [OF that(2)] that(3,4) unfolding worker_inv_def by blast
  have bound: "jq_id row \<in> sys_used s' \<and> jq_attempt row \<le> sys_starts s' (jq_id row)"
    if "busy (sys_workers s' w) = Some row" for w row
    using assms(1) phase [OF that] used starts unfolding worker_inv_def by (metis UnI1)
  have "sys_starts s' i = 0" if "i \<notin> sys_used s'" for i
    using assms(1) that used starts unfolding worker_inv_def by (metis UnI1)
  with inv' ids tallies own apart bound show ?thesis unfolding worker_inv_def by blast
qed

lemma quietI:
  assumes "worker_inv s" and "no_claim (sys_db s) (sys_db s') {}" and "jobs_inv (sys_db s')"
    and "sys_used s' = sys_used s" and "sys_starts s' = sys_starts s"
    and "\<And>w row. busy (sys_workers s' w) = Some row \<Longrightarrow> busy (sys_workers s w) = Some row"
  shows "quiet s s'"
  unfolding quiet_def using assms by (intro conjI exI [of _ "{}"]) auto

lemma reap_subset: "set (jd_queue (reapExhausted kinds locked now db)) \<subseteq> set (jd_queue db)"
proof -
  have "set (jd_queue (fold (\<lambda>i d. endJob i Dead workerStopped now d) is db)) \<subseteq> set (jd_queue db)" for "is" db
  proof (induction "is" arbitrary: db)
    case (Cons i "is")
    have "set (jd_queue (endJob i Dead workerStopped now db)) \<subseteq> set (jd_queue db)"
      by (auto simp: endJob_def)
    then show ?case using Cons.IH [of "endJob i Dead workerStopped now db"] by simp
  qed simp
  then show ?thesis by (simp add: reapExhausted_def)
qed

lemma claim_value:
  assumes "jobs_inv db" and "claim worker kinds lease locked now db = (Some job, db')"
  shows "jobs_inv db' \<and> jq_id job \<in> set (job_ids db) \<and> jq_worker job = Some worker
     \<and> (\<exists>a. (jq_id job, a) \<in> attempts db \<and> jq_attempt job = Suc a)
     \<and> (\<forall>p \<in> attempts db'. p = tally job \<or> (p \<in> attempts db \<and> fst p \<noteq> jq_id job))
     \<and> (\<forall>x \<in> set (jd_queue db'). x = job \<or> (x \<in> set (jd_queue db) \<and> jq_id x \<noteq> jq_id job))"
proof -
  let ?mid = "reapExhausted kinds locked now db"
  have mid: "takeBest worker kinds lease locked now ?mid = (Some job, db')"
    using assms(2) by (auto simp: claim_def claim_job_def split: if_splits)
  have inv: "jobs_inv ?mid" by (rule inv_reap [OF assms(1)])
  have sub: "set (jd_queue ?mid) \<subseteq> set (jd_queue db)"
    by (rule reap_subset)
  obtain best where best: "best \<in> set (jd_queue ?mid)" "job = claimed worker lease now best"
    and db': "db' = ?mid\<lparr>jd_queue := map (\<lambda>r. if jq_id r = jq_id best then claimed worker lease now r else r) (jd_queue ?mid)\<rparr>"
    using mid
  proof (cases rule: takeBest_cases)
    case (some best)
    show ?thesis by (rule that [OF some(1) _ some(4)]) (use some(3) in simp)
  qed simp
  have rows: "x = job \<or> (x \<in> set (jd_queue ?mid) \<and> jq_id x \<noteq> jq_id job)" if h: "x \<in> set (jd_queue db')" for x
  proof -
    obtain r where r: "r \<in> set (jd_queue ?mid)" "x = (if jq_id r = jq_id best then claimed worker lease now r else r)"
      using h db' by auto
    then show ?thesis using same_id [OF inv r(1) best(1)] best(2) by (cases "jq_id r = jq_id best") auto
  qed
  have hist: "fst p \<noteq> jq_id job" if "p \<in> (tally o fst) ` set (jd_history ?mid)" for p
  proof -
    have apart: "jq_id ` set (jd_queue ?mid) \<inter> (jq_id o fst) ` set (jd_history ?mid) = {}"
      using inv by (simp add: jobs_inv_def job_ids_def)
    have "jq_id job \<in> jq_id ` set (jd_queue ?mid)" using best by simp
    moreover have "fst p \<in> (jq_id o fst) ` set (jd_history ?mid)" using that by (force simp: tally_def)
    ultimately show ?thesis using apart by (metis IntI empty_iff)
  qed
  have "p = tally job \<or> (p \<in> attempts ?mid \<and> fst p \<noteq> jq_id job)" if p: "p \<in> attempts db'" for p
  proof -
    consider x where "x \<in> set (jd_queue db')" "p = tally x" | "p \<in> (tally o fst) ` set (jd_history ?mid)"
      using p db' by (auto simp: attempts_def)
    then show ?thesis
    proof cases
      case 1
      then show ?thesis using rows [OF 1(1)] by (auto simp: attempts_def tally_def)
    next
      case 2
      then show ?thesis using hist [OF 2] by (auto simp: attempts_def)
    qed
  qed
  moreover have "(jq_id job, jq_attempt best) \<in> attempts db \<and> jq_attempt job = Suc (jq_attempt best)"
    using best sub by (auto simp: attempts_def tally_def image_iff)
  moreover have "jq_id job \<in> set (job_ids db)"
    using best sub by (auto simp: job_ids_def)
  ultimately show ?thesis
    using inv_takeBest [OF inv mid] best(2) rows sub by (simp only: attempts_reap) (metis claimed_fields(4) subsetD)
qed

lemma claim_keeps_inv:
  assumes inv: "worker_inv s" and idle: "sys_workers s w = Idle"
    and run: "claim w kinds lease locked (sys_now s) (sys_db s) = (Some job, db)"
  shows "worker_inv (goto w (execute handlers job)
    (s\<lparr>sys_db := db, sys_starts := (sys_starts s)(jq_id job := Suc (sys_starts s (jq_id job)))\<rparr>))"
    (is "worker_inv ?s'")
proof -
  let ?i = "jq_id job"
  have jobs: "jobs_inv (sys_db s)" using inv by (simp add: worker_inv_def)
  note v = claim_value [OF jobs run]
  obtain a where a: "(?i, a) \<in> attempts (sys_db s)" "jq_attempt job = Suc a" using v by blast
  have starts: "sys_starts s ?i = a" using a(1) inv unfolding worker_inv_def by fastforce
  have used: "?i \<in> sys_used s" using v inv unfolding worker_inv_def by blast
  have new: "sys_starts ?s' j = (if j = ?i then Suc a else sys_starts s j)" for j
    by (simp add: goto_def starts)
  have fields: "sys_db ?s' = db" "sys_used ?s' = sys_used s"
    "\<And>u. sys_workers ?s' u = (if u = w then execute handlers job else sys_workers s u)"
    by (simp_all add: goto_def)
  have old: "jq_id row \<in> sys_used s \<and> jq_attempt row \<le> sys_starts s (jq_id row)"
    if "busy (sys_workers s u) = Some row" for u row
    using inv that unfolding worker_inv_def by blast
  have tallies: "snd p = sys_starts ?s' (fst p)" if "p \<in> attempts db" for p
  proof -
    have "p = tally job \<or> (p \<in> attempts (sys_db s) \<and> fst p \<noteq> ?i)" using v that by blast
    then show ?thesis
      using inv unfolding new worker_inv_def by (auto simp: tally_def a(2))
  qed
  have bound: "jq_id row \<in> sys_used s \<and> jq_attempt row \<le> sys_starts ?s' (jq_id row)"
    if "busy (sys_workers ?s' u) = Some row" for u row
  proof (cases "u = w")
    case True
    then have "row = job" using that by (simp add: fields)
    then show ?thesis using used a(2) by (simp add: new)
  next
    case False
    then show ?thesis using old [of u row] that starts by (auto simp: fields new)
  qed
  have apart: "u = u'" if h: "busy (sys_workers ?s' u) = Some b" "busy (sys_workers ?s' u') = Some c"
      "jq_id b = jq_id c" "jq_attempt b = jq_attempt c" for u u' b c
  proof -
    have fresh: False if "busy (sys_workers s x) = Some row" "jq_id row = ?i" "jq_attempt row = Suc a" for x row
      using old [OF that(1)] that starts by simp
    consider "u = w" "u' = w" | "u = w" "u' \<noteq> w" | "u \<noteq> w" "u' = w" | "u \<noteq> w" "u' \<noteq> w" by blast
    then show ?thesis
    proof cases
      case 2
      then have "b = job" "busy (sys_workers s u') = Some c" using h(1,2) unfolding fields by simp_all
      then show ?thesis using fresh [of u' c] h(3,4) a(2) by simp
    next
      case 3
      then have "c = job" "busy (sys_workers s u) = Some b" using h(1,2) unfolding fields by simp_all
      then show ?thesis using fresh [of u b] h(3,4) a(2) by simp
    next
      case 4
      then show ?thesis using h inv unfolding fields worker_inv_def by (metis (full_types))
    qed simp
  qed
  have own: "jq_attempt r = jq_attempt row"
    if h: "busy (sys_workers ?s' u) = Some row" "r \<in> set (jd_queue db)" "jq_id r = jq_id row" "jq_worker r = Some u"
    for u row r
  proof -
    consider "r = job" | "r \<in> set (jd_queue (sys_db s))" "jq_id r \<noteq> ?i" using v h(2) by blast
    then show ?thesis
    proof cases
      case 1
      then have "u = w" using v h(4) by simp
      then show ?thesis using h(1) 1 by (simp add: fields)
    next
      case 2
      then have "u \<noteq> w" using h(1,3) by (auto simp: fields)
      then show ?thesis using h 2 inv unfolding fields worker_inv_def by (metis (full_types))
    qed
  qed
  have ids: "set (job_ids db) \<subseteq> sys_used s"
  proof
    fix j assume "j \<in> set (job_ids db)"
    then obtain n where "(j, n) \<in> attempts db" by (auto simp: ids_of_attempts)
    then have "(j, n) = tally job \<or> (j, n) \<in> attempts (sys_db s)" using v by blast
    then show "j \<in> sys_used s"
      using used inv attempts_ids unfolding worker_inv_def by (auto simp: tally_def)
  qed
  have zero: "sys_starts ?s' j = 0" if "j \<notin> sys_used s" for j
    using that used inv unfolding new worker_inv_def by auto
  show ?thesis
    unfolding worker_inv_def fields
    using v ids tallies zero bound [unfolded fields] apart [unfolded fields] own [unfolded fields] by blast
qed

lemma worker_step_inv:
  assumes "worker_step handlers kinds lease s s'" and inv: "worker_inv s"
  shows "worker_inv s'"
proof -
  have jobs: "jobs_inv (sys_db s)" using inv by (simp add: worker_inv_def)
  show ?thesis
    using assms(1)
  proof cases
    case (claim_some w locked job db)
    then show ?thesis using claim_keeps_inv [OF inv claim_some(2,3)] by simp
  next
    case (enqueued i org kind payload priority maxAttempts runAfter j db)
    then have "i \<notin> set (job_ids (sys_db s))" using inv unfolding worker_inv_def by blast
    then have "quiet s s'"
      using enqueued inv_enqueue [OF jobs _ enqueued(3)] no_claim_enqueue [OF enqueued(3)]
      unfolding quiet_def by (intro conjI exI [of _ "{i}"]) simp_all
    then show ?thesis by (rule quiet_inv [OF inv])
  next
    case (prune_scheduled i org runAfter)
    then have "i \<notin> set (job_ids (sys_db s))" using inv unfolding worker_inv_def by blast
    then have "quiet s s'"
      using prune_scheduled inv_schedulePrune [OF jobs] no_claim_schedule
      unfolding quiet_def by (intro conjI exI [of _ "{i}"]) simp_all
    then show ?thesis by (rule quiet_inv [OF inv])
  next
    case (claim_none w locked db)
    then show ?thesis
      using claim_none_value inv_claim [OF jobs claim_none(3)]
      by (intro quiet_inv [OF inv] quietI [OF inv]) simp_all
  next
    case (report w job held progress k ok db)
    then show ?thesis
      using no_claim_heartbeat inv_heartbeat [OF jobs report(3)]
      by (intro quiet_inv [OF inv] quietI [OF inv]) (auto simp: goto_def split: if_splits)
  next
    case (beat w job held h ok db)
    then show ?thesis
      using no_claim_heartbeat inv_heartbeat [OF jobs beat(3)]
      by (intro quiet_inv [OF inv] quietI [OF inv]) (auto simp: goto_def split: if_splits)
  next
    case (late_beat i w ok db)
    then show ?thesis
      using no_claim_heartbeat inv_heartbeat [OF jobs late_beat(2)]
      by (intro quiet_inv [OF inv] quietI [OF inv]) simp_all
  next
    case (returned w job outcome db)
    then show ?thesis
      using no_claim_finish inv_finish [OF jobs returned(3)]
      by (intro quiet_inv [OF inv] quietI [OF inv]) (auto simp: goto_def split: if_splits)
  next
    case (recorded w job message outcome db)
    then show ?thesis
      using no_claim_finish inv_finish [OF jobs recorded(3)]
      by (intro quiet_inv [OF inv] quietI [OF inv]) (auto simp: goto_def split: if_splits)
  next
    case (returned_unrecorded w job message)
    then show ?thesis
      using jobs busy_threw [of job True message] no_claim_refl
      by (intro quiet_inv [OF inv] quietI [OF inv]) (auto simp: goto_def split: if_splits)
  next
    case (handler_threw w job held message)
    then show ?thesis
      using jobs busy_threw [of job held message] no_claim_refl
      by (intro quiet_inv [OF inv] quietI [OF inv]) (auto simp: goto_def split: if_splits)
  next
    case (prune_hurried org)
    then show ?thesis
      using no_claim_hurry inv_hurryUp [OF jobs] by (intro quiet_inv [OF inv] quietI [OF inv]) simp_all
  next
    case (pruned org batch)
    then show ?thesis
      using no_claim_prune inv_prune [OF jobs] by (intro quiet_inv [OF inv] quietI [OF inv]) simp_all
  next
    case (cancelled org i)
    then show ?thesis
      using no_claim_cancel inv_cancel [OF jobs] by (intro quiet_inv [OF inv] quietI [OF inv]) simp_all
  qed (use jobs no_claim_refl in \<open>intro quiet_inv [OF inv] quietI [OF inv]; auto simp: goto_def split: if_splits\<close>)+
qed

end
