(* ===== verification/JobProps.thy ===== *)
theory JobProps
  imports Worker
begin

text \<open>
  The properties of the queue and of the workers on it.
\<close>

section \<open>Claiming\<close>

interpretation claim_order: keyset_order claimBefore jq_id "\<lambda>_. True"
  by unfold_locales (auto simp: claimBefore_def)

interpretation newest_order: keyset_order newestFirst jq_id "\<lambda>_. True"
  by unfold_locales (auto simp: newestFirst_def)

lemma reap_queue:
  "jd_queue (reapExhausted kinds locked now db) = filter (\<lambda>r. \<not> (\<exists>x \<in> set (jd_queue db).
     exhausted kinds locked now x \<and> jq_id x = jq_id r)) (jd_queue db)"
proof -
  have "jd_queue (fold (\<lambda>i d. endJob i Dead workerStopped now d) is db) = filter (\<lambda>r. jq_id r \<notin> set is) (jd_queue db)"
    for "is" db
    by (induction "is" arbitrary: db) (auto simp: endJob_def intro: filter_cong)
  then have "jd_queue (reapExhausted kinds locked now db)
      = filter (\<lambda>r. jq_id r \<notin> jq_id ` {x \<in> set (jd_queue db). exhausted kinds locked now x}) (jd_queue db)"
    by (simp add: reapExhausted_def)
  also have "\<dots> = filter (\<lambda>r. \<not> (\<exists>x \<in> set (jd_queue db).
      exhausted kinds locked now x \<and> jq_id x = jq_id r)) (jd_queue db)"
    by (rule filter_cong) (force simp: image_iff)+
  finally show ?thesis .
qed

lemma reap_history:
  assumes "jobs_inv db" and "r \<in> set (jd_queue db)" and "exhausted kinds locked now r"
  shows "(r\<lparr>jq_status := Dead, jq_lease := None, jq_error := workerStopped r, jq_updated := now\<rparr>, now)
    \<in> set (jd_history (reapExhausted kinds locked now db))"
proof -
  let ?dead = "(r\<lparr>jq_status := Dead, jq_lease := None, jq_error := workerStopped r, jq_updated := now\<rparr>, now)"
  have "r \<in> set (jd_queue d) \<Longrightarrow> jq_id r \<in> set is \<Longrightarrow>
      ?dead \<in> set (jd_history (fold (\<lambda>i d. endJob i Dead workerStopped now d) is d))" for "is" d
  proof (induction "is" arbitrary: d)
    case (Cons i "is")
    have stays: "x \<in> set (jd_history d) \<Longrightarrow> x \<in> set (jd_history (fold (\<lambda>i d. endJob i Dead workerStopped now d) is d))"
      for x d "is"
      by (induction "is" arbitrary: d) (simp_all add: endJob_def)
    show ?case
    proof (cases "jq_id r = i")
      case True
      then have "?dead \<in> set (jd_history (endJob i Dead workerStopped now d))"
        using Cons.prems(1) by (auto simp: endJob_def)
      then show ?thesis using stays by simp
    next
      case False
      then show ?thesis using Cons by (simp add: endJob_def)
    qed
  qed simp
  then show ?thesis using assms(2,3) by (auto simp: reapExhausted_def)
qed

text \<open>The head of the candidates comes before every other one.\<close>

lemma head_is_best:
  assumes "jobs_inv db" and "best = hd (order_by claimBefore (filter (claimable kinds locked now) (jd_queue db)))"
    and "r \<in> set (jd_queue db)" and "claimable kinds locked now r"
  shows "r = best \<or> claimBefore best r"
proof -
  let ?can = "filter (claimable kinds locked now) (jd_queue db)"
  have "distinct (map jq_id ?can)" using assms(1) by (auto simp: jobs_inv_def job_ids_def distinct_map_filter)
  then have "sorted_wrt claimBefore (order_by claimBefore ?can)" by (rule claim_order.sorted_order_by) simp
  moreover have "r \<in> set (order_by claimBefore ?can)" using assms(3,4) by simp
  ultimately show ?thesis using assms(2) by (cases "order_by claimBefore ?can") auto
qed

text \<open>
  C27. On a consistent queue \<open>claim_job\<close> hands out a job exactly when there is one that can be taken
  (of a kind this worker runs, due, with attempts left, waiting or abandoned, not locked), and the one
  it hands out comes before every other by priority, then due time, then id. It leaves the queue with
  a fresh lease in this worker's name and one attempt more. Every abandoned job without attempts left
  is dead in history afterwards, and no other job has changed.
\<close>

theorem claim_job_takes_the_best:
  assumes "jobs_inv db" and "claim_job w kinds lease locked now db = (found, db')"
  shows "(found = None \<longleftrightarrow> \<not> (\<exists>r \<in> set (jd_queue db). claimable kinds locked now r))
    \<and> (\<forall>job. found = Some job \<longrightarrow> job \<in> set (jd_queue db') \<and> (\<exists>best \<in> set (jd_queue db). job = claimed w lease now best
         \<and> claimable kinds locked now best
         \<and> (\<forall>r \<in> set (jd_queue db). claimable kinds locked now r \<longrightarrow> r = best \<or> claimBefore best r)))
    \<and> (\<forall>r \<in> set (jd_queue db). exhausted kinds locked now r \<longrightarrow>
         (r\<lparr>jq_status := Dead, jq_lease := None, jq_error := workerStopped r, jq_updated := now\<rparr>, now)
           \<in> set (jd_history db'))
    \<and> (\<forall>r \<in> set (jd_queue db). exhausted kinds locked now r \<or> map_option jq_id found = Some (jq_id r)
         \<or> r \<in> set (jd_queue db'))"
proof -
  let ?mid = "reapExhausted kinds locked now db"
  have run: "takeBest w kinds lease locked now ?mid = (found, db')"
    using assms(2) by (simp add: claim_job_def)
  have inv: "jobs_inv ?mid" by (rule inv_reap [OF assms(1)])
  have mid: "r \<in> set (jd_queue ?mid) \<longleftrightarrow> r \<in> set (jd_queue db) \<and> \<not> exhausted kinds locked now r" for r
    unfolding reap_queue using same_id [OF assms(1)] by auto
  have free: "\<not> exhausted kinds locked now r" if "claimable kinds locked now r" for r
    using that by (simp add: claimable_def exhausted_def)
  have dead: "(r\<lparr>jq_status := Dead, jq_lease := None, jq_error := workerStopped r, jq_updated := now\<rparr>, now)
      \<in> set (jd_history ?mid)" if "r \<in> set (jd_queue db)" "exhausted kinds locked now r" for r
    by (rule reap_history [OF assms(1) that])
  show ?thesis
    using run
  proof (cases rule: takeBest_cases)
    case none
    then show ?thesis using mid free dead by auto
  next
    case (some best)
    have taken: "claimed w lease now best \<in> set (jd_queue db')"
      using some(1,4) by (force simp: image_iff)
    have kept: "r \<in> set (jd_queue db')" if "r \<in> set (jd_queue ?mid)" "jq_id r \<noteq> jq_id best" for r
      using that some(4) by (force simp: image_iff)
    have hist: "jd_history db' = jd_history ?mid" using some(4) by simp
    have best: "best \<in> set (jd_queue db)" using some(1) mid by simp
    have least: "\<forall>r \<in> set (jd_queue db). claimable kinds locked now r \<longrightarrow> r = best \<or> claimBefore best r"
      using head_is_best [OF inv some(5)] mid free by auto
    show ?thesis
    proof (intro conjI allI impI ballI)
      show "(found = None) = (\<not> (\<exists>r \<in> set (jd_queue db). claimable kinds locked now r))"
        using some(2,3) best by auto
      fix job assume "found = Some job"
      then have job: "job = claimed w lease now best" using some(3) by simp
      then show "job \<in> set (jd_queue db')" using taken by simp
      show "\<exists>best \<in> set (jd_queue db). job = claimed w lease now best \<and> claimable kinds locked now best
          \<and> (\<forall>r \<in> set (jd_queue db). claimable kinds locked now r \<longrightarrow> r = best \<or> claimBefore best r)"
        by (rule bexI [OF _ best]) (intro conjI job some(2) least)
    next
      fix r assume r: "r \<in> set (jd_queue db)"
      show "(r\<lparr>jq_status := Dead, jq_lease := None, jq_error := workerStopped r, jq_updated := now\<rparr>, now)
          \<in> set (jd_history db')" if "exhausted kinds locked now r"
        using dead [OF r that] by (simp add: hist)
      show "exhausted kinds locked now r \<or> map_option jq_id found = Some (jq_id r) \<or> r \<in> set (jd_queue db')"
        using kept [of r] r mid [of r] by (cases "jq_id r = jq_id best") (auto simp: some(3))
    qed
  qed
qed

definition ex_job :: "id \<Rightarrow> int \<Rightarrow> nat \<Rightarrow> nat \<Rightarrow> JobRow" where
  "ex_job i priority runAfter attempt =
     (newJob i ''o'' ''files.copy'' [] priority 5 runAfter 0)\<lparr>jq_attempt := attempt\<rparr>"

definition ex_queue :: job_db where
  "ex_queue = \<lparr>jd_queue = [ex_job ''a'' 0 1 0, ex_job ''b'' 1 2 0, ex_job ''c'' 1 1 0, ex_job ''d'' 9 0 5],
     jd_history = []\<rparr>"

lemma ex_queue_inv: "jobs_inv ex_queue"
  by (simp add: ex_queue_def jobs_inv_def job_ids_def ex_job_def newJob_def live_row_def slots_single_def
      slotTaken_def jobSlot_def singleKinds_def)

lemma claim_job_takes_the_best_witness:
  "fst (claim_job ''w'' [''files.copy''] 60 [] 10 ex_queue) = Some (claimed ''w'' 60 10 (ex_job ''c'' 1 1 0))
   \<and> fst ` set (jd_history (snd (claim_job ''w'' [''files.copy''] 60 [] 10 ex_queue))) \<noteq> {}"
proof -
  let ?run = "claim_job ''w'' [''files.copy''] 60 [] 10 ex_queue"
  have "fst ?run = Some (claimed ''w'' 60 10 (ex_job ''c'' 1 1 0))"
    by (simp add: claim_job_def reapExhausted_def exhausted_def takeBest_def endJob_def ex_queue_def claimable_def ex_job_def newJob_def
        abandoned_def order_by_def claimBefore_def claimed_def)
  moreover have "ex_job ''d'' 9 0 5 \<in> set (jd_queue ex_queue)" by (simp add: ex_queue_def)
  moreover have "exhausted [''files.copy''] [] 10 (ex_job ''d'' 9 0 5)"
    by (simp add: exhausted_def ex_job_def newJob_def abandoned_def)
  moreover from claim_job_takes_the_best [OF ex_queue_inv surjective_pairing, of "''w''" "[''files.copy'']" 60 "[]" 10]
  have "\<forall>r \<in> set (jd_queue ex_queue). exhausted [''files.copy''] [] 10 r \<longrightarrow>
      (r\<lparr>jq_status := Dead, jq_lease := None, jq_error := workerStopped r, jq_updated := 10\<rparr>, 10)
        \<in> set (jd_history (snd ?run))" by (elim conjE)
  ultimately show ?thesis by (metis empty_iff image_eqI)
qed

section \<open>Ending\<close>

lemma not_held:
  assumes "\<And>r. r \<in> set (jd_queue db) \<Longrightarrow> jq_id r = i \<Longrightarrow> jq_status r = Queued"
  shows "heartbeat_job i w lease progress t db = Inr (False, db)" and "finish i w ok e t db = Inr (None, db)"
proof -
  have free: "\<not> holds_lease i w t r" if "r \<in> set (jd_queue db)" for r
    using assms [OF that] by (auto simp: holds_lease_def)
  then have "List.find (holds_lease i w t) (jd_queue db) = None" by (simp add: find_None_iff)
  then show "heartbeat_job i w lease progress t db = Inr (False, db)" and "finish i w ok e t db = Inr (None, db)"
    using free by (auto simp: heartbeat_job_def finish_def finish_job_def list_ex_iff)
qed

lemma finish_requeues:
  assumes "finish i w succeeded err now db = Inr (Some Queued, db')"
  obtains job where "job \<in> set (jd_queue db)" "holds_lease i w now job"
    and "\<exists>r \<in> set (jd_queue db'). jq_id r = i \<and> jq_status r = Queued \<and> jq_attempt r = jq_attempt job
          \<and> jq_run_after r \<le> now + 300 \<and> jq_attempt job < jq_max job"
    and "\<And>r. r \<in> set (jd_queue db') \<Longrightarrow> jq_id r = i \<Longrightarrow> jq_status r = Queued"
proof (cases "List.find (holds_lease i w now) (jd_queue db)")
  case None
  then show ?thesis using assms by (simp add: finish_def finish_job_def)
next
  case (Some job)
  note job = holds_lease_found [OF Some]
  let ?again = "requeued (map_option (take 2000) err) now"
  have db': "db' = db\<lparr>jd_queue := map (\<lambda>r. if jq_id r = i then ?again r else r) (jd_queue db)\<rparr>"
    and more: "jq_attempt job < jq_max job"
    using assms Some by (auto simp: finish_def finish_job_def split: if_splits)
  have "?again job \<in> set (jd_queue db')" using job by (force simp: db' image_iff)
  moreover have "jq_run_after (?again job) \<le> now + 300" by (simp add: requeued_def)
  ultimately have waiting: "\<exists>r \<in> set (jd_queue db'). jq_id r = i \<and> jq_status r = Queued
      \<and> jq_attempt r = jq_attempt job \<and> jq_run_after r \<le> now + 300 \<and> jq_attempt job < jq_max job"
    using job more by (intro bexI [of _ "?again job"]) simp_all
  have "jq_status r = Queued" if h: "r \<in> set (jd_queue db')" "jq_id r = i" for r
  proof -
    have "r \<in> (\<lambda>r. if jq_id r = i then ?again r else r) ` set (jd_queue db)" using h(1) unfolding db' by simp
    then obtain x where "r = (if jq_id x = i then ?again x else x)" by (rule imageE)
    then show ?thesis using h(2) by (cases "jq_id x = i") simp_all
  qed
  with waiting job show ?thesis using that by blast
qed

lemma finish_ends:
  assumes "finish i w succeeded err now db = Inr (Some status, db')" and "status \<noteq> Queued"
  obtains job where "job \<in> set (jd_queue db)" "holds_lease i w now job"
    and "\<exists>r. (r, now) \<in> set (jd_history db') \<and> jq_id r = i \<and> jq_status r = status" and "i \<notin> jq_id ` set (jd_queue db')"
proof (cases "List.find (holds_lease i w now) (jd_queue db)")
  case None
  then show ?thesis using assms by (simp add: finish_def finish_job_def)
next
  case (Some job)
  note job = holds_lease_found [OF Some]
  obtain e where db': "db' = endJob i status e now db"
    using assms Some by (auto simp: finish_def finish_job_def split: if_splits)
  let ?r = "job\<lparr>jq_status := status, jq_lease := None, jq_error := e job, jq_updated := now\<rparr>"
  have "(?r, now) \<in> set (jd_history db')" using job by (auto simp: db' endJob_def)
  then have ended: "\<exists>r. (r, now) \<in> set (jd_history db') \<and> jq_id r = i \<and> jq_status r = status"
    using job by (intro exI [of _ ?r]) simp
  have "i \<notin> jq_id ` set (jd_queue db')" by (auto simp: db' endJob_def)
  with ended job show ?thesis using that by blast
qed

lemma finish_refused: "finish i w succeeded err now db = Inr (None, db') \<Longrightarrow> db' = db"
  by (auto simp: finish_def finish_job_def split: option.splits if_splits)

text \<open>
  C28. An outcome settles a job: once \<open>finish\<close> has answered with one, the job is either history with
  that status or waiting again, due within five minutes, with the attempts it had; and from then on,
  until somebody claims it again, no heartbeat and no other \<open>finish\<close> for it, by this or any other
  worker, finds it. Asked by a worker without a live lease, \<open>finish\<close> changes nothing.
\<close>

theorem finish_settles_once:
  assumes "jobs_inv db" and "finish i w succeeded err now db = Inr (outcome, db')"
  shows "(outcome = None \<longrightarrow> db' = db)
    \<and> (\<forall>status. outcome = Some status \<longrightarrow>
        (\<exists>job \<in> set (jd_queue db). holds_lease i w now job \<and> (if status = Queued
          then \<exists>r \<in> set (jd_queue db'). jq_id r = i \<and> jq_status r = Queued \<and> jq_attempt r = jq_attempt job
                 \<and> jq_run_after r \<le> now + 300 \<and> jq_attempt job < jq_max job
          else (\<exists>r. (r, now) \<in> set (jd_history db') \<and> jq_id r = i \<and> jq_status r = status)
                 \<and> i \<notin> jq_id ` set (jd_queue db')))
        \<and> (\<forall>w' lease progress t. heartbeat_job i w' lease progress t db' = Inr (False, db'))
        \<and> (\<forall>w' ok e t. finish i w' ok e t db' = Inr (None, db')))"
proof (intro conjI allI impI)
  fix status
  let ?settled = "\<lambda>job. if status = Queued
      then \<exists>r \<in> set (jd_queue db'). jq_id r = i \<and> jq_status r = Queued \<and> jq_attempt r = jq_attempt job
             \<and> jq_run_after r \<le> now + 300 \<and> jq_attempt job < jq_max job
      else (\<exists>r. (r, now) \<in> set (jd_history db') \<and> jq_id r = i \<and> jq_status r = status) \<and> i \<notin> jq_id ` set (jd_queue db')"
  assume out: "outcome = Some status"
  have run: "finish i w succeeded err now db = Inr (Some status, db')" using assms(2) out by simp
  have "(\<exists>job \<in> set (jd_queue db). holds_lease i w now job \<and> ?settled job)
    \<and> (\<forall>r \<in> set (jd_queue db'). jq_id r = i \<longrightarrow> jq_status r = Queued)"
  proof (cases "status = Queued")
    case True
    then obtain job where "job \<in> set (jd_queue db)" "holds_lease i w now job" "?settled job"
      and "\<And>r. r \<in> set (jd_queue db') \<Longrightarrow> jq_id r = i \<Longrightarrow> jq_status r = Queued"
      using finish_requeues [of i w succeeded err now db db'] run by auto
    then show ?thesis by blast
  next
    case False
    then obtain job where "job \<in> set (jd_queue db)" "holds_lease i w now job" "?settled job" and "i \<notin> jq_id ` set (jd_queue db')"
      using finish_ends [OF run] by auto
    then show ?thesis by blast
  qed
  note settled = conjunct1 [OF this] not_held [OF conjunct2 [OF this, rule_format]]
  show "\<exists>job \<in> set (jd_queue db). holds_lease i w now job \<and> ?settled job" by (rule settled(1))
  show "heartbeat_job i w' lease progress t db' = Inr (False, db')" for w' lease progress t by (rule settled(2))
  show "finish i w' ok e t db' = Inr (None, db')" for w' ok e t by (rule settled(3))
qed (use assms(2) finish_refused in blast)

definition ex_running :: job_db where
  "ex_running = \<lparr>jd_queue = [claimed ''w'' 60 10 (ex_job ''c'' 1 1 0)], jd_history = []\<rparr>"

lemma finish_settles_once_witness:
  "\<exists>db'. finish ''c'' ''w'' False (Some ''disk full'') 20 ex_running = Inr (Some Queued, db')
     \<and> finish ''c'' ''w'' True None 21 db' = Inr (None, db')"
proof -
  obtain db' where run: "finish ''c'' ''w'' False (Some ''disk full'') 20 ex_running = Inr (Some Queued, db')"
    by (simp add: ex_running_def finish_def finish_job_def holds_lease_def claimed_def ex_job_def newJob_def
        slotTaken_def)
  have "jobs_inv ex_running"
    by (simp add: ex_running_def jobs_inv_def job_ids_def ex_job_def newJob_def claimed_def live_row_def
        slots_single_def slotTaken_def)
  then show ?thesis using finish_settles_once [OF _ run] run by blast
qed

section \<open>Workers\<close>

definition sys_init :: "nat \<Rightarrow> system" where
  "sys_init t = \<lparr>sys_db = \<lparr>jd_queue = [], jd_history = []\<rparr>, sys_now = t, sys_workers = (\<lambda>_. Idle), sys_used = {},
     sys_starts = (\<lambda>_. 0)\<rparr>"

lemma init_inv: "worker_inv (sys_init t)"
  by (simp add: worker_inv_def sys_init_def jobs_inv_def job_ids_def slots_single_def attempts_def)

lemma worker_run_inv:
  "(worker_step handlers kinds lease)\<^sup>*\<^sup>* s s' \<Longrightarrow> worker_inv s \<Longrightarrow> worker_inv s'"
  by (induction rule: rtranclp_induct) (auto intro: worker_step_inv)

text \<open>
  C29. However any number of workers, handlers, crashes, failing statements, cancellations and the clock
  interleave: a job is in one of the two tables and only once; it has been started exactly as often as
  its row says, never more often than its budget; two workers that are both busy with it hold different
  attempts; and an outcome is only ever accepted from the worker of the latest attempt.
\<close>

theorem queue_runs_each_attempt_once:
  assumes "(worker_step handlers kinds lease)\<^sup>*\<^sup>* (sys_init t) s"
  shows "distinct (job_ids (sys_db s))
    \<and> (\<forall>r \<in> set (jd_queue (sys_db s)) \<union> fst ` set (jd_history (sys_db s)).
         sys_starts s (jq_id r) = jq_attempt r \<and> jq_attempt r \<le> jq_max r)
    \<and> (\<forall>v w a b. busy (sys_workers s v) = Some a \<longrightarrow> busy (sys_workers s w) = Some b \<longrightarrow>
         jq_id a = jq_id b \<longrightarrow> jq_attempt a = jq_attempt b \<longrightarrow> v = w)
    \<and> (\<forall>w job ok err status db. busy (sys_workers s w) = Some job \<longrightarrow>
         finish (jq_id job) w ok err (sys_now s) (sys_db s) = Inr (Some status, db) \<longrightarrow>
         jq_attempt job = sys_starts s (jq_id job))"
proof -
  have inv: "worker_inv s" by (rule worker_run_inv [OF assms init_inv])
  then have jobs: "jobs_inv (sys_db s)" by (simp add: worker_inv_def)
  have counted: "sys_starts s (jq_id r) = jq_attempt r"
    if "r \<in> set (jd_queue (sys_db s)) \<union> fst ` set (jd_history (sys_db s))" for r
  proof -
    have "tally r \<in> attempts (sys_db s)" using that by (auto simp: attempts_def)
    then show ?thesis using inv unfolding worker_inv_def tally_def by fastforce
  qed
  have latest: "jq_attempt job = sys_starts s (jq_id job)"
    if "busy (sys_workers s w) = Some job"
      and fin: "finish (jq_id job) w ok err (sys_now s) (sys_db s) = Inr (Some status, db)" for w job ok err status db
  proof -
    obtain r where "List.find (holds_lease (jq_id job) w (sys_now s)) (jd_queue (sys_db s)) = Some r"
      using fin by (auto simp: finish_def finish_job_def split: option.splits)
    note r = holds_lease_found [OF this]
    then have "jq_worker r = Some w" by (simp add: holds_lease_def)
    then have "jq_attempt r = jq_attempt job" using inv r that(1) unfolding worker_inv_def by blast
    then show ?thesis using counted [of r] r by simp
  qed
  have "jq_attempt r \<le> jq_max r" if "r \<in> set (jd_queue (sys_db s)) \<union> fst ` set (jd_history (sys_db s))" for r
    using that jobs by (auto simp: jobs_inv_def live_row_def ended_row_def)
  then show ?thesis
    using jobs counted inv latest unfolding jobs_inv_def worker_inv_def by blast
qed

lemma end_history: "h \<in> set (jd_history db) \<Longrightarrow> h \<in> set (jd_history (endJob i status err now db))"
  by (simp add: endJob_def)

lemma reap_keeps_history: "h \<in> set (jd_history db) \<Longrightarrow> h \<in> set (jd_history (reapExhausted kinds locked now db))"
proof -
  have "h \<in> set (jd_history db) \<Longrightarrow> h \<in> set (jd_history (fold (\<lambda>i d. endJob i Dead workerStopped now d) is db))"
    for "is" db
    by (induction "is" arbitrary: db) (simp_all add: end_history)
  then show "h \<in> set (jd_history db) \<Longrightarrow> h \<in> set (jd_history (reapExhausted kinds locked now db))"
    by (simp add: reapExhausted_def)
qed

lemma claim_keeps_history:
  "claim w kinds lease locked now db = (found, db') \<Longrightarrow> h \<in> set (jd_history db) \<Longrightarrow> h \<in> set (jd_history db')"
  by (auto simp: claim_def claim_job_def elim!: takeBest_cases intro: reap_keeps_history split: if_splits)

lemma finish_keeps_history:
  "finish i w ok err now db = Inr (outcome, db') \<Longrightarrow> h \<in> set (jd_history db) \<Longrightarrow> h \<in> set (jd_history db')"
  by (auto simp: finish_def finish_job_def end_history split: option.splits if_splits)

lemma prune_keeps_history:
  assumes "jobs_inv db" and "h \<in> set (jd_history db)"
  shows "h \<in> set (jd_history (snd (pruneHistory org batch now db))) \<or> expired now h"
proof (rule disjCI)
  assume "\<not> expired now h"
  have "jq_id (fst h) \<noteq> jq_id (fst x)"
    if "x \<in> set (take batch (filter (\<lambda>h. jq_org (fst h) = Some org \<and> expired now h) (jd_history db)))" for x
  proof -
    have "x \<in> set (jd_history db)" "expired now x" using in_set_takeD [OF that] by simp_all
    moreover have "inj_on (jq_id o fst) (set (jd_history db))"
      using assms(1) by (simp add: jobs_inv_def job_ids_def distinct_map)
    ultimately show ?thesis using assms(2) \<open>\<not> expired now h\<close> by (metis comp_apply inj_onD)
  qed
  then show "h \<in> set (jd_history (snd (pruneHistory org batch now db)))"
    using assms(2) by (auto simp: pruneHistory_def Let_def)
qed

lemma history_step:
  assumes "worker_step handlers kinds lease s s'" and "jobs_inv (sys_db s)" and "h \<in> set (jd_history (sys_db s))"
  shows "h \<in> set (jd_history (sys_db s')) \<or> expired (sys_now s) h"
  using assms(1)
proof cases
  case (pruned org batch)
  then show ?thesis using prune_keeps_history [OF assms(2,3)] by simp
next
  case (report w job held progress k ok db)
  then show ?thesis using assms(3) by (auto simp: goto_def heartbeat_job_def split: if_splits)
next
  case (beat w job held h ok db)
  then show ?thesis using assms(3) by (auto simp: goto_def heartbeat_job_def split: if_splits)
next
  case (late_beat i w ok db)
  then show ?thesis using assms(3) by (auto simp: heartbeat_job_def split: if_splits)
next
  case (enqueued i org kind payload priority maxAttempts runAfter j db)
  then show ?thesis using assms(3) by (auto simp: enqueue_def Let_def split: if_splits)
qed (use assms(3) in \<open>auto simp: goto_def schedulePrune_def hurryUpPrune_def cancel_job_def Let_def end_history
      intro: claim_keeps_history finish_keeps_history\<close>)

text \<open>
  C30. What history says about a job does not change: a row of \<open>job_history\<close> stays as it is until it has
  outlived its retention, 90 days for a dead or failed job and 7 for any other.
\<close>

theorem history_is_kept:
  assumes "(worker_step handlers kinds lease)\<^sup>*\<^sup>* s s'" and "worker_inv s" and "h \<in> set (jd_history (sys_db s))"
  shows "h \<in> set (jd_history (sys_db s')) \<or> expired (sys_now s') h"
  using assms(1)
proof (induction rule: rtranclp_induct)
  case base
  then show ?case using assms(3) by simp
next
  case (step m s')
  have inv: "jobs_inv (sys_db m)" using worker_run_inv [OF step(1) assms(2)] by (simp add: worker_inv_def)
  have later: "sys_now m \<le> sys_now s'" using step(2) by cases (simp_all add: goto_def)
  have old: "expired (sys_now s') h" if "expired (sys_now m) h"
    using that later by (auto simp: expired_def)
  have "h \<in> set (jd_history (sys_db s')) \<or> expired (sys_now m) h" if h: "h \<in> set (jd_history (sys_db m))"
    using history_step [OF step(2) inv h] .
  then show ?case using step.IH old by blast
qed

section \<open>Runs\<close>

definition ex_handlers :: handlers where
  "ex_handlers kind = Some (\<lambda>_. HReturn)"

definition ex_new :: JobRow where
  "ex_new = newJob ''j'' ''o'' ''files.copy'' [] 0 5 0 0"

definition ex_enqueued :: system where
  "ex_enqueued = (sys_init 0)\<lparr>sys_db := \<lparr>jd_queue = [ex_new], jd_history = []\<rparr>, sys_used := {''j''}\<rparr>"

definition ex_first :: system where
  "ex_first = goto ''w'' (Executing (claimed ''w'' 60 0 ex_new) True HReturn) (ex_enqueued\<lparr>
     sys_db := \<lparr>jd_queue = [claimed ''w'' 60 0 ex_new], jd_history = []\<rparr>, sys_starts := (\<lambda>_. 0)(''j'' := 1)\<rparr>)"

definition ex_second :: system where
  "ex_second = goto ''v'' (Executing (claimed ''v'' 60 100 (claimed ''w'' 60 0 ex_new)) True HReturn) (ex_first\<lparr>sys_now := 100,
     sys_db := \<lparr>jd_queue = [claimed ''v'' 60 100 (claimed ''w'' 60 0 ex_new)], jd_history = []\<rparr>,
     sys_starts := (\<lambda>_. 0)(''j'' := 1, ''j'' := 2)\<rparr>)"

lemmas ex_run_defs = ex_new_def ex_enqueued_def ex_first_def ex_second_def ex_handlers_def goto_def sys_init_def
  execute_def newJob_def

lemma ex_step1: "worker_step ex_handlers [''files.copy''] 60 (sys_init 0) ex_enqueued"
proof -
  have "enqueue ''j'' ''o'' ''files.copy'' [] None None None 0 (sys_db (sys_init 0))
      = Inr (''j'', \<lparr>jd_queue = [ex_new], jd_history = []\<rparr>)"
    by (simp add: ex_run_defs enqueue_def jobAccepted_def slotTaken_def)
  then show ?thesis
    using enqueued [of "''j''" "sys_init 0" "''o''" "''files.copy''" "[]" None None None]
    by (simp add: ex_enqueued_def sys_init_def)
qed

lemma ex_step2: "worker_step ex_handlers [''files.copy''] 60 ex_enqueued ex_first"
proof -
  have "claim ''w'' [''files.copy''] 60 [] (sys_now ex_enqueued) (sys_db ex_enqueued)
      = (Some (claimed ''w'' 60 0 ex_new), \<lparr>jd_queue = [claimed ''w'' 60 0 ex_new], jd_history = []\<rparr>)"
    by (simp add: ex_run_defs claim_def claim_job_def reapExhausted_def exhausted_def takeBest_def claimable_def
        abandoned_def order_by_def claimed_def)
  from claim_some [OF _ this, of ex_handlers] show ?thesis
    by (simp add: ex_run_defs claimed_def fun_upd_def)
qed

lemma ex_step3: "worker_step ex_handlers [''files.copy''] 60 ex_first (ex_first\<lparr>sys_now := 100\<rparr>)"
  by (rule time_passes) (simp add: ex_run_defs)

lemma ex_step4: "worker_step ex_handlers [''files.copy''] 60 (ex_first\<lparr>sys_now := 100\<rparr>) ex_second"
proof -
  have "claim ''v'' [''files.copy''] 60 [] (sys_now (ex_first\<lparr>sys_now := 100\<rparr>)) (sys_db (ex_first\<lparr>sys_now := 100\<rparr>))
      = (Some (claimed ''v'' 60 100 (claimed ''w'' 60 0 ex_new)),
         \<lparr>jd_queue = [claimed ''v'' 60 100 (claimed ''w'' 60 0 ex_new)], jd_history = []\<rparr>)"
    by (simp add: ex_run_defs claim_def claim_job_def reapExhausted_def exhausted_def takeBest_def claimable_def
        abandoned_def order_by_def claimed_def)
  from claim_some [OF _ this, of ex_handlers] show ?thesis
    by (simp add: ex_run_defs claimed_def fun_upd_def numeral_2_eq_2)
qed

lemma ex_run: "(worker_step ex_handlers [''files.copy''] 60)\<^sup>*\<^sup>* (sys_init 0) ex_second"
  by (meson ex_step1 ex_step2 ex_step3 ex_step4 rtranclp.rtrancl_refl rtranclp.rtrancl_into_rtrancl)

text \<open>The lease of the first worker ran out and the second took the job over: both are busy with it.\<close>

lemma queue_runs_each_attempt_once_witness:
  "\<exists>s a b. (worker_step ex_handlers [''files.copy''] 60)\<^sup>*\<^sup>* (sys_init 0) s
     \<and> busy (sys_workers s ''w'') = Some a \<and> busy (sys_workers s ''v'') = Some b \<and> jq_id a = jq_id b
     \<and> jq_attempt a \<noteq> jq_attempt b \<and> sys_starts s (jq_id a) = 2"
proof -
  let ?a = "claimed ''w'' 60 0 ex_new" and ?b = "claimed ''v'' 60 100 (claimed ''w'' 60 0 ex_new)"
  have busy: "busy (sys_workers ex_second ''w'') = Some ?a" "busy (sys_workers ex_second ''v'') = Some ?b"
    by (simp_all add: ex_first_def ex_second_def goto_def)
  note once = queue_runs_each_attempt_once [OF ex_run]
  from once have "\<forall>r \<in> set (jd_queue (sys_db ex_second)) \<union> fst ` set (jd_history (sys_db ex_second)).
      sys_starts ex_second (jq_id r) = jq_attempt r \<and> jq_attempt r \<le> jq_max r" by (elim conjE)
  moreover have "?b \<in> set (jd_queue (sys_db ex_second))" by (simp add: ex_second_def goto_def)
  ultimately have "sys_starts ex_second (jq_id ?b) = jq_attempt ?b" by blast
  then have "sys_starts ex_second (jq_id ?a) = 2" by (simp add: ex_new_def newJob_def)
  with ex_run busy show ?thesis
    by (intro exI [of _ ex_second] exI [of _ ?a] exI [of _ ?b]) simp
qed

definition ex_dead :: "JobRow \<times> nat" where
  "ex_dead = (ex_new\<lparr>jq_status := Dead, jq_attempt := 5\<rparr>, 10)"

definition ex_past :: system where
  "ex_past = (sys_init 10)\<lparr>sys_db := \<lparr>jd_queue = [], jd_history = [ex_dead]\<rparr>, sys_used := {''j''},
     sys_starts := (\<lambda>_. 0)(''j'' := 5)\<rparr>"

lemma history_is_kept_witness:
  "ex_dead \<in> set (jd_history (sys_db (ex_past\<lparr>sys_now := 8 * 86400\<rparr>)))
   \<and> (worker_step ex_handlers [''files.copy''] 60)\<^sup>*\<^sup>* ex_past (ex_past\<lparr>sys_now := 8 * 86400\<rparr>)"
proof -
  have run: "(worker_step ex_handlers [''files.copy''] 60)\<^sup>*\<^sup>* ex_past (ex_past\<lparr>sys_now := 8 * 86400\<rparr>)"
    by (rule r_into_rtranclp, rule time_passes) (simp add: ex_past_def sys_init_def)
  have "worker_inv ex_past"
    by (simp add: worker_inv_def ex_past_def sys_init_def jobs_inv_def job_ids_def slots_single_def attempts_def
        tally_def ex_dead_def ex_new_def newJob_def ended_row_def)
  from history_is_kept [OF run this, of ex_dead]
  have "ex_dead \<in> set (jd_history (sys_db (ex_past\<lparr>sys_now := 8 * 86400\<rparr>))) \<or> expired (8 * 86400) ex_dead"
    by (simp add: ex_past_def)
  moreover have "\<not> expired (8 * 86400) ex_dead"
    by (simp add: expired_def ex_dead_def PRUNE_KEEP_TERMINAL_DAYS_def)
  ultimately show ?thesis using run by blast
qed

end
