(* ===== verification/AclApply.thy ===== *)
theory AclApply
  imports FileAccess FileWorld
begin

text \<open>
  \<open>apps/api/src/permissions/apply-acl.service.ts\<close>: grants put onto the filesystem. One call to the
  agent per folder, each with the entries that folder resolves to; a share with more than
  \<open>APPLY_CHUNK\<close> folders is written by a chain of jobs, each starting after the last id of the one
  before (\<open>apps/worker/src/handlers/apply-acl.handler.ts\<close>). The tables of shares, teams and grants
  are read and never written here: they are an argument. \<open>principalOf\<close> and the row of a grant are
  those of \<open>FileAccess\<close>, which both files of the code repeat.
\<close>

section \<open>Payload and tables\<close>

record ApplyAclPayload =
  ap_share :: id
  ap_entry :: "id option"
  ap_after :: "id option"

definition APPLY_CHUNK :: nat where
  "APPLY_CHUNK = 1000"

definition TREE_LOAD_LIMIT :: nat where
  "TREE_LOAD_LIMIT = 250000"

definition MAX_TREE_DEPTH :: nat where
  "MAX_TREE_DEPTH = 256"

record ResolvedEntry =
  re_principal :: Principal
  re_read :: bool
  re_write :: bool
  re_execute :: bool

text \<open>A row of the recursive query, \<open>depth\<close> included.\<close>

record FolderRow =
  fo_id :: id
  fo_parent :: "id option"
  fo_parts :: "string list"
  fo_depth :: nat

record Folders =
  fs_all :: "FolderRow list"
  fs_written :: "id list"
  fs_next :: "id option"

record ShareRow =
  sr_org :: id
  sr_id :: id
  sr_name :: string

record TeamRow =
  tr_org :: id
  tr_id :: id
  tr_gid :: "nat option"

record acl_tables =
  at_shares :: "ShareRow list"
  at_teams :: "TeamRow list"
  at_grants :: "GrantRow list"

datatype acl_error =
  NoSuchShare id
| ShareTooLarge id
| NestedTooDeep id "string list"
| PlanUnavailable file_error
| NotApplied nat nat "(id \<times> file_error option) list"

section \<open>The folders of a share\<close>

text \<open>\<open>WITH RECURSIVE tree\<close>: the levels below the top one, as many as the bound on \<open>depth\<close> lets in.\<close>

definition folderOf :: "nat \<Rightarrow> FileEntryRow \<times> string list \<Rightarrow> FolderRow" where
  "folderOf depth = (\<lambda>(r, parts). \<lparr>fo_id = fe_id r, fo_parent = fe_parent r, fo_parts = parts, fo_depth = depth\<rparr>)"

fun folderLevels :: "nat \<Rightarrow> table \<Rightarrow> nat \<Rightarrow> (FileEntryRow \<times> string list) list \<Rightarrow> FolderRow list" where
  "folderLevels 0 rows depth level = map (folderOf depth) level"
| "folderLevels (Suc n) rows depth level =
     map (folderOf depth) level
     @ folderLevels n rows (Suc depth) (nextLevel (\<lambda>parts c. parts @ [fe_name c]) rows level)"

definition shareFolders :: "id \<Rightarrow> id \<Rightarrow> table \<Rightarrow> table" where
  "shareFolders org shareId db = filter (\<lambda>r. fe_kind r = Folder) (in_share org shareId db)"

text \<open>The first part of the query fixes the share and the second does not: a child is any folder of
  the organisation whose parent is in the tree.\<close>

definition folderTree :: "id \<Rightarrow> id \<Rightarrow> table \<Rightarrow> FolderRow list" where
  "folderTree org shareId db =
     (let seed = filter (\<lambda>r. fe_parent r = None) (shareFolders org shareId db);
          folders = filter (\<lambda>r. fe_org r = org \<and> fe_kind r = Folder) db;
          rows = folderLevels (Suc MAX_TREE_DEPTH) folders 0 (map (\<lambda>r. (r, [fe_name r])) seed)
      in take TREE_LOAD_LIMIT
           (order_by (\<lambda>a b. fo_depth a < fo_depth b \<or> (fo_depth a = fo_depth b \<and> fo_id a < fo_id b)) rows))"

text \<open>\<open>inSubtree\<close>: at most \<open>rows.length + 1\<close> steps up.\<close>

fun inSubtree :: "(id \<Rightarrow> id option option) \<Rightarrow> id \<Rightarrow> nat \<Rightarrow> id option \<Rightarrow> bool" where
  "inSubtree parentOf entryId steps None = False"
| "inSubtree parentOf entryId 0 (Some cursor) = False"
| "inSubtree parentOf entryId (Suc steps) (Some cursor) =
     (cursor = entryId
      \<or> inSubtree parentOf entryId steps
          (case parentOf cursor of None \<Rightarrow> None | Some parent \<Rightarrow> parent))"

definition candidatesOf :: "FolderRow list \<Rightarrow> id option \<Rightarrow> id list" where
  "candidatesOf rows entry =
     (case entry of
        None \<Rightarrow> map fo_id rows
      | Some entryId \<Rightarrow>
          (let parentOf = map_of (rev (map (\<lambda>r. (fo_id r, fo_parent r)) rows))
           in filter (\<lambda>i. inSubtree parentOf entryId (Suc (length rows)) (Some i)) (map fo_id rows)))"

definition chunkOf :: "id list \<Rightarrow> id option \<Rightarrow> id list \<times> id option" where
  "chunkOf candidates start =
     (let ordered = order_by (<) candidates;
          remaining = (case start of None \<Rightarrow> ordered | Some a \<Rightarrow> filter (\<lambda>i. a < i) ordered);
          written = take APPLY_CHUNK remaining
      in (written,
          if length remaining > length written \<and> written \<noteq> [] then Some (last written) else None))"

definition aclFolderRows :: "id \<Rightarrow> ApplyAclPayload \<Rightarrow> table \<Rightarrow> acl_error + Folders" where
  "aclFolderRows org payload db =
     (let rows = folderTree org (ap_share payload) db;
          tooDeep = filter (\<lambda>r. fo_depth r \<ge> MAX_TREE_DEPTH) rows
      in if length rows \<ge> TREE_LOAD_LIMIT then Inl (ShareTooLarge (ap_share payload))
         else case tooDeep of
                r # _ \<Rightarrow> Inl (NestedTooDeep (ap_share payload) (fo_parts r))
              | [] \<Rightarrow>
                  (let (written, next_id) = chunkOf (candidatesOf rows (ap_entry payload)) (ap_after payload)
                   in Inr \<lparr>fs_all = rows, fs_written = written, fs_next = next_id\<rparr>))"

section \<open>Resolution\<close>

definition shareName :: "id \<Rightarrow> id \<Rightarrow> acl_tables \<Rightarrow> acl_error + string" where
  "shareName org shareId db =
     (case List.find (\<lambda>s. sr_org s = org \<and> sr_id s = shareId) (at_shares db) of
        None \<Rightarrow> Inl (NoSuchShare shareId) | Some s \<Rightarrow> Inr (sr_name s))"

definition grantRows :: "id \<Rightarrow> id \<Rightarrow> GrantRow list \<Rightarrow> GrantRow list" where
  "grantRows org shareId gs = filter (\<lambda>g. gr_org g = org \<and> gr_share g = shareId) gs"

definition aclGrantStep :: "id \<Rightarrow> GrantRow \<Rightarrow> (id \<Rightarrow> Grant list option) \<Rightarrow> id \<Rightarrow> Grant list option" where
  "aclGrantStep shareId row granted =
     (case principalOf row of
        None \<Rightarrow> granted
      | Some p \<Rightarrow>
          (let perms = List.map_filter parsePermission (gr_permissions row);
               key = (case gr_entry row of None \<Rightarrow> shareId | Some e \<Rightarrow> e)
           in if length perms = 0 then granted
              else case granted key of
                     None \<Rightarrow> granted(key \<mapsto> [\<lparr>principal = p, permissions = perms\<rparr>])
                   | Some existing \<Rightarrow> granted(key \<mapsto> existing @ [\<lparr>principal = p, permissions = perms\<rparr>])))"

text \<open>A principal as a key of a \<open>Set\<close>, and back.\<close>

definition aclKeyOf :: "GrantRow \<Rightarrow> string option" where
  "aclKeyOf row =
     (case gr_user row of
        Some u \<Rightarrow> Some (''user:'' @ u)
      | None \<Rightarrow> (case gr_team row of Some t \<Rightarrow> Some (''team:'' @ t) | None \<Rightarrow> None))"

definition unkey :: "string \<Rightarrow> Principal" where
  "unkey key = (if take 5 key = ''user:'' then User (drop 5 key) else Team (drop 5 key))"

definition principalsIn :: "GrantRow list \<Rightarrow> Principal list" where
  "principalsIn gs = map unkey (dedupe (List.map_filter aclKeyOf gs))"

definition parentsOf :: "id \<Rightarrow> FolderRow list \<Rightarrow> id \<Rightarrow> id option option" where
  "parentsOf shareId rows =
     fold (\<lambda>r m. m(fo_id r \<mapsto> Some (case fo_parent r of None \<Rightarrow> shareId | Some p \<Rightarrow> p))) rows [shareId \<mapsto> None]"

definition partsIn :: "id \<Rightarrow> FolderRow list \<Rightarrow> id \<Rightarrow> string list option" where
  "partsIn shareId rows = fold (\<lambda>r m. m(fo_id r \<mapsto> fo_parts r)) rows [shareId \<mapsto> []]"

text \<open>\<open>chainTo\<close>: the loop of \<open>FileAccess\<close>, over \<open>parents\<close>; its last node must be the share.\<close>

definition aclChainTo ::
  "id \<Rightarrow> id \<Rightarrow> (id \<Rightarrow> id option option) \<Rightarrow> nat \<Rightarrow> (id \<Rightarrow> Grant list option) \<Rightarrow> AclNode list option" where
  "aclChainTo nodeId shareId parents keyCount granted =
     (case chainLoop parents (\<lambda>cursor parent. \<lparr>acl_id = cursor, parentId = parent, grants = grantsOn granted cursor\<rparr>)
             (Suc keyCount) (Some nodeId) [] of
        None \<Rightarrow> None
      | Some reversed \<Rightarrow>
          if reversed = [] \<or> acl_id (last reversed) \<noteq> shareId then None else Some (rev reversed))"

definition aclFor :: "AclNode list \<Rightarrow> Principal \<Rightarrow> ResolvedEntry option" where
  "aclFor ch p =
     (case nearestGrant ch p of
        None \<Rightarrow> None
      | Some source \<Rightarrow>
          (let has = (\<lambda>permission. permission \<in> set (src_permissions source));
               r = has PList;
               w = (has PCreate \<or> has PModify \<or> has PMove \<or> has PDelete);
               x = (r \<or> w \<or> has PRead \<or> has PDownload)
           in if \<not> r \<and> \<not> w \<and> \<not> x then None
              else Some \<lparr>re_principal = p, re_read = r, re_write = w, re_execute = x\<rparr>))"

record AclPlan =
  pl_share :: string
  pl_folders :: Folders
  pl_grants :: "GrantRow list"

definition aclPlan :: "acl_tables \<Rightarrow> id \<Rightarrow> ApplyAclPayload \<Rightarrow> table \<Rightarrow> acl_error + AclPlan" where
  "aclPlan tables org payload db =
     bindE (shareName org (ap_share payload) tables) (\<lambda>share.
     bindE (aclFolderRows org payload db) (\<lambda>folders.
     Inr \<lparr>pl_share = share, pl_folders = folders,
          pl_grants = grantRows org (ap_share payload) (at_grants tables)\<rparr>))"

text \<open>The entries of one folder, or \<open>None\<close> where the walk finds no way up to the share root.\<close>

definition resolvedFor :: "id \<Rightarrow> AclPlan \<Rightarrow> id \<Rightarrow> ResolvedEntry list option" where
  "resolvedFor shareId plan nodeId =
     (let rows = fs_all (pl_folders plan);
          granted = fold (aclGrantStep shareId) (pl_grants plan) (\<lambda>_. None);
          keyCount = length (dedupe (shareId # map fo_id rows))
      in map_option (\<lambda>ch. List.map_filter (aclFor ch) (principalsIn (pl_grants plan)))
           (aclChainTo nodeId shareId (parentsOf shareId rows) keyCount granted))"

definition targetsOf :: "ApplyAclPayload \<Rightarrow> AclPlan \<Rightarrow> id list" where
  "targetsOf payload plan =
     (if ap_entry payload = None \<and> ap_after payload = None
      then ap_share payload # fs_written (pl_folders plan) else fs_written (pl_folders plan))"

section \<open>The calls\<close>

definition gidFor :: "acl_tables \<Rightarrow> id \<Rightarrow> Principal \<Rightarrow> ('d, nat option) op" where
  "gidFor tables org p =
     (case p of
        User u \<Rightarrow> seqE (posixUidFor org u) (\<lambda>uid. ret (Some uid))
      | Team t \<Rightarrow>
          withTenant (\<lambda>w. Inr (case List.find (\<lambda>r. tr_org r = org \<and> tr_id r = t) (at_teams tables) of
             None \<Rightarrow> None | Some r \<Rightarrow> tr_gid r, w)))"

fun numbered :: "acl_tables \<Rightarrow> id \<Rightarrow> ResolvedEntry list \<Rightarrow> ('d, AclEntry list) op" where
  "numbered tables org [] = ret []"
| "numbered tables org (en # rest) =
     seqE (gidFor tables org (re_principal en)) (\<lambda>gid.
     seqE (numbered tables org rest) (\<lambda>entries.
     ret (case gid of
            None \<Rightarrow> entries
          | Some g \<Rightarrow> \<lparr>ae_gid = g, ae_read = re_read en, ae_write = re_write en, ae_execute = re_execute en\<rparr>
                       # entries)))"

definition applyOne ::
  "'d env \<Rightarrow> acl_tables \<Rightarrow> id \<Rightarrow> string \<Rightarrow> string list \<Rightarrow> ResolvedEntry list \<Rightarrow> ('d, unit) op" where
  "applyOne e tables org share path resolved =
     seqE (numbered tables org resolved) (\<lambda>entries.
     seqE (agent_call e (ApplyFolderAcl share path entries)) (\<lambda>response.
     case response of
       AclApplied \<Rightarrow> ret ()
     | AclUnavailable reason \<Rightarrow> raise (AgentUnavailableError reason)
     | other \<Rightarrow> raise (expectStatus other)))"

text \<open>Whatever the agent says to \<open>secure_share_root\<close>, the job goes on; the answers differ in the log only.\<close>

definition secureRoot :: "'d env \<Rightarrow> string \<Rightarrow> ('d, unit) op" where
  "secureRoot e share =
     catchE (seqE (agent_call e (SecureShareRoot share)) (\<lambda>_. ret ())) (\<lambda>_. ret ())"

text \<open>The loop over the targets: the folders that could not be written, \<open>None\<close> for one without a chain.\<close>

fun applyTargets ::
  "'d env \<Rightarrow> acl_tables \<Rightarrow> id \<Rightarrow> id \<Rightarrow> AclPlan \<Rightarrow> id list \<Rightarrow> 'd world
     \<Rightarrow> (id \<times> file_error option) list \<times> 'd world" where
  "applyTargets e tables org shareId plan [] w = ([], w)"
| "applyTargets e tables org shareId plan (nodeId # rest) w =
     (case resolvedFor shareId plan nodeId of
        None \<Rightarrow> (case applyTargets e tables org shareId plan rest w of
                   (failures, w') \<Rightarrow> ((nodeId, None) # failures, w'))
      | Some resolved \<Rightarrow>
          (let path = (case partsIn shareId (fs_all (pl_folders plan)) nodeId of None \<Rightarrow> [] | Some ps \<Rightarrow> ps)
           in case applyOne e tables org (pl_share plan) path resolved w of
                (Inr _, w') \<Rightarrow> applyTargets e tables org shareId plan rest w'
              | (Inl err, w') \<Rightarrow>
                  (case applyTargets e tables org shareId plan rest w' of
                     (failures, w'') \<Rightarrow> ((nodeId, Some err) # failures, w''))))"

definition applyAcl ::
  "'d env \<Rightarrow> acl_tables \<Rightarrow> id \<Rightarrow> ApplyAclPayload \<Rightarrow> ('d world, acl_error, id option) eff" where
  "applyAcl e tables org payload w =
     (case withTenant (\<lambda>w. Inr (aclPlan tables org payload (w_entries w), w)) w of
        (Inl err, w') \<Rightarrow> (Inl (PlanUnavailable err), w')
      | (Inr (Inl err), w') \<Rightarrow> (Inl err, w')
      | (Inr (Inr plan), w') \<Rightarrow>
          (let targets = targetsOf payload plan;
               w'' = (if targets \<noteq> [] \<and> hd targets = ap_share payload
                      then snd (secureRoot e (pl_share plan) w') else w')
           in case applyTargets e tables org (ap_share payload) plan targets w'' of
                (failures, w3) \<Rightarrow>
                  if failures \<noteq> [] then (Inl (NotApplied (length failures) (length targets) (take 5 failures)), w3)
                  else (Inr (fs_next (pl_folders plan)), w3)))"

text \<open>\<open>applyAclHandler\<close> enqueues the successor when there is one; here the chain of jobs one payload
  starts, as long as each succeeds. The fuel is the number of jobs.\<close>

fun applyJobs ::
  "nat \<Rightarrow> 'd env \<Rightarrow> acl_tables \<Rightarrow> id \<Rightarrow> ApplyAclPayload \<Rightarrow> ('d world, acl_error, unit option) eff" where
  "applyJobs 0 e tables org payload w = (Inr None, w)"
| "applyJobs (Suc n) e tables org payload w =
     (case applyAcl e tables org payload w of
        (Inl err, w') \<Rightarrow> (Inl err, w')
      | (Inr None, w') \<Rightarrow> (Inr (Some ()), w')
      | (Inr (Some c), w') \<Rightarrow> applyJobs n e tables org (payload\<lparr>ap_after := Some c\<rparr>) w')"

end
