(* ===== verification/AclTree.thy ===== *)
theory AclTree
  imports AclApply Keyset
begin

text \<open>
  The folders \<open>folderRows\<close> loads are the folders of the share, each once, with the names on its way
  down as \<open>parts\<close> and the number of its ancestors as \<open>depth\<close>, whenever the bounds let the job run.
\<close>

text \<open>One level of the query: the folders with \<open>k\<close> ancestors.\<close>

definition level_rows :: "table \<Rightarrow> nat \<Rightarrow> (FileEntryRow \<times> string list) set" where
  "level_rows sh k = {(r, rev (map fe_name (r # rs))) | r rs.
     fe_kind r = Folder \<and> lineage sh (Some (fe_id r)) (r # rs) \<and> length rs = k}"

lemma set_nextLevel:
  "set (nextLevel f rows level) =
     {(c, f a c) | c a r. (r, a) \<in> set level \<and> c \<in> set rows \<and> fe_parent c = Some (fe_id r)}"
  by (auto simp: nextLevel_def)

lemma wf_tree_parent_folder:
  assumes "wf_tree db" and "r \<in> set db" and "fe_parent r = Some (fe_id q)" and "q \<in> set db"
  shows "fe_kind q = Folder \<and> fe_org q = fe_org r \<and> fe_share q = fe_share r"
proof -
  obtain p where "p \<in> set db" "fe_id p = fe_id q" "fe_org p = fe_org r" "fe_share p = fe_share r" "fe_kind p = Folder"
    using wf_tree_parent [OF assms(1,2,3)] by metis
  moreover have "p = q"
    using distinct_ids_eq [of db p q] assms(1,4) calculation by (simp add: wf_tree_def)
  ultimately show ?thesis by simp
qed

lemma level_step:
  assumes wf: "wf_tree db"
    and rows: "set rows = {r \<in> set db. fe_org r = org \<and> fe_kind r = Folder}"
    and level: "set level = level_rows (in_share org s db) k"
  shows "set (nextLevel (\<lambda>parts c. parts @ [fe_name c]) rows level) = level_rows (in_share org s db) (Suc k)"
    (is "?next = ?rhs")
proof
  show "?next \<subseteq> ?rhs"
  proof
    fix x assume "x \<in> ?next"
    then obtain c a r where x: "x = (c, a @ [fe_name c])" "(r, a) \<in> set level" "c \<in> set rows" "fe_parent c = Some (fe_id r)"
      unfolding set_nextLevel by blast
    then obtain rs where r: "a = rev (map fe_name (r # rs))" "lineage (in_share org s db) (Some (fe_id r)) (r # rs)" "length rs = k"
      using level unfolding level_rows_def by blast
    have "r \<in> set db" "fe_share r = s" using r(2) by auto
    then have "c \<in> set (in_share org s db)" "fe_kind c = Folder"
      using x rows wf_tree_parent_folder [OF wf, of c r] by auto
    then show "x \<in> ?rhs"
      using x(1,4) r unfolding level_rows_def by (intro CollectI exI [of _ c] exI [of _ "r # rs"]) simp
  qed
next
  show "?rhs \<subseteq> ?next"
  proof
    fix x assume "x \<in> ?rhs"
    then obtain c rs where x: "x = (c, rev (map fe_name (c # rs)))" "fe_kind c = Folder"
      "lineage (in_share org s db) (Some (fe_id c)) (c # rs)" "length rs = Suc k"
      unfolding level_rows_def by blast
    then obtain r qs where rs: "rs = r # qs" by (cases rs) auto
    have r: "fe_parent c = Some (fe_id r)" "r \<in> set (in_share org s db)" "c \<in> set (in_share org s db)"
      using x(3) by (simp_all add: rs)
    have "lineage (in_share org s db) (Some (fe_id r)) (r # qs)"
      using x(3) by (simp add: rs)
    moreover have "fe_kind r = Folder"
      using wf_tree_parent_folder [OF wf _ r(1)] r(2,3) by auto
    ultimately have "(r, rev (map fe_name (r # qs))) \<in> set level"
      using x(4) level unfolding level_rows_def rs by auto
    then show "x \<in> ?next"
      unfolding set_nextLevel using x(1,2) r rows rs
      by (intro CollectI exI [of _ c] exI [of _ "rev (map fe_name (r # qs))"] exI [of _ r]) auto
  qed
qed

lemma distinct_nextLevel:
  assumes "distinct (map fe_id rows)" and "distinct (map (fe_id o fst) level)"
  shows "distinct (map (fe_id o fst) (nextLevel f rows level))"
  using assms(2)
proof (induction level)
  case Nil
  then show ?case by (simp add: nextLevel_def)
next
  case (Cons x level)
  obtain r a where x: "x = (r, a)" by (cases x)
  have ids: "map (fe_id o fst) (nextLevel f rows (x # level))
      = map fe_id (filter (\<lambda>c. fe_parent c = Some (fe_id r)) rows) @ map (fe_id o fst) (nextLevel f rows level)"
    by (simp add: nextLevel_def x comp_def)
  have "fe_id c \<notin> set (map (fe_id o fst) (nextLevel f rows level))"
    if c: "c \<in> set rows" "fe_parent c = Some (fe_id r)" for c
  proof
    assume "fe_id c \<in> set (map (fe_id o fst) (nextLevel f rows level))"
    then obtain c' r' a' where c': "fe_id c = fe_id c'" "(r', a') \<in> set level" "c' \<in> set rows" "fe_parent c' = Some (fe_id r')"
      by (auto simp: set_nextLevel)
    then have "c' = c" using distinct_ids_eq [OF assms(1)] c by metis
    then have "fe_id r' = fe_id r" using c c' by simp
    then show False using Cons.prems c'(2) by (force simp: x)
  qed
  then show ?case
    using Cons assms(1) unfolding ids by (auto simp: distinct_map_filter comp_def)
qed

lemma folderLevels_set:
  assumes wf: "wf_tree db"
    and rows: "set rows = {r \<in> set db. fe_org r = org \<and> fe_kind r = Folder}"
    and level: "set level = level_rows (in_share org s db) d"
  shows "set (folderLevels n rows d level) = (\<Union>k \<in> {d..d + n}. folderOf k ` level_rows (in_share org s db) k)"
  using level
proof (induction n arbitrary: d level)
  case (Suc n)
  have "set (folderLevels n rows (Suc d) (nextLevel (\<lambda>parts c. parts @ [fe_name c]) rows level))
      = (\<Union>k \<in> {Suc d..Suc d + n}. folderOf k ` level_rows (in_share org s db) k)"
    by (rule Suc.IH) (rule level_step [OF wf rows Suc.prems])
  moreover have "{d..d + Suc n} = insert d {Suc d..Suc d + n}" by auto
  ultimately show ?case using Suc.prems by simp
qed simp

lemma folderLevels_distinct:
  assumes wf: "wf_tree db" and dist: "distinct (map fe_id rows)"
    and rows: "set rows = {r \<in> set db. fe_org r = org \<and> fe_kind r = Folder}"
    and level: "set level = level_rows (in_share org s db) d" "distinct (map (fe_id o fst) level)"
  shows "distinct (map fo_id (folderLevels n rows d level))"
  using level
proof (induction n arbitrary: d level)
  case 0
  then show ?case by (simp add: comp_def folderOf_def case_prod_beta)
next
  case (Suc n)
  let ?next = "nextLevel (\<lambda>parts c. parts @ [fe_name c]) rows level"
  have nxt: "set ?next = level_rows (in_share org s db) (Suc d)"
    by (rule level_step [OF wf rows Suc.prems(1)])
  have share: "distinct (map fe_id (in_share org s db))"
    using wf by (simp add: wf_tree_def in_share_def distinct_map_filter)
  have line: "\<exists>rs. lineage (in_share org s db) (Some (fe_id (fst z))) (fst z # rs) \<and> length rs = i"
    if z: "z \<in> level_rows (in_share org s db) i" for z i
    using z unfolding level_rows_def by (auto simp del: lineage.simps)
  have apart: False
    if h: "x \<in> level_rows (in_share org s db) j" "y \<in> level_rows (in_share org s db) k"
      "fe_id (fst x) = fe_id (fst y)" "j < k" for x y j k
  proof -
    obtain rs qs where "lineage (in_share org s db) (Some (fe_id (fst x))) (fst x # rs)" "length rs = j"
      "lineage (in_share org s db) (Some (fe_id (fst x))) (fst y # qs)" "length qs = k"
      using line [OF h(1)] line [OF h(2)] h(3) by metis
    then show False using lineage_unique [OF share] h(4) by (metis list.inject less_irrefl)
  qed
  have "distinct (map fo_id (folderLevels n rows (Suc d) ?next))"
    by (rule Suc.IH [OF nxt distinct_nextLevel [OF dist Suc.prems(2)]])
  moreover have "set (map fo_id (map (folderOf d) level)) \<inter> set (map fo_id (folderLevels n rows (Suc d) ?next)) = {}"
    unfolding set_map folderLevels_set [OF wf rows nxt]
    using apart [of _ d] Suc.prems(1) by (fastforce simp: folderOf_def image_iff)
  ultimately show ?case
    using Suc.prems(2) by (simp add: comp_def folderOf_def case_prod_beta)
qed

lemma folderLevels_Nil [simp]: "folderLevels n rows d [] = []"
  by (induction n arbitrary: d) (simp_all add: nextLevel_def)

text \<open>What the query returns for a row of the share, from its lineage.\<close>

definition loadedAs :: "FileEntryRow \<Rightarrow> table \<Rightarrow> FolderRow" where
  "loadedAs r rs = folderOf (length rs) (r, rev (map fe_name (r # rs)))"

lemma loadedAs_fields [simp]:
  "fo_id (loadedAs r rs) = fe_id r" "fo_parent (loadedAs r rs) = fe_parent r"
  "fo_parts (loadedAs r rs) = rev (map fe_name (r # rs))" "fo_depth (loadedAs r rs) = length rs"
  by (simp_all add: loadedAs_def folderOf_def)

definition treeRows :: "id \<Rightarrow> id \<Rightarrow> table \<Rightarrow> FolderRow list" where
  "treeRows org s db = folderLevels (Suc MAX_TREE_DEPTH) (filter (\<lambda>r. fe_org r = org \<and> fe_kind r = Folder) db) 0
     (map (\<lambda>r. (r, [fe_name r])) (filter (\<lambda>r. fe_parent r = None) (shareFolders org s db)))"

lemma collect_lengths:
  "(\<Union>k \<in> {0..n}. {g r rs | r rs. P r rs \<and> length rs = k}) = {g r rs | r rs. P r rs \<and> length rs \<le> n}"
  by fastforce

lemma treeRows_set:
  assumes "wf_tree db"
  shows "set (treeRows org s db) = {loadedAs r rs | r rs. fe_kind r = Folder
      \<and> lineage (in_share org s db) (Some (fe_id r)) (r # rs) \<and> length rs \<le> Suc MAX_TREE_DEPTH}"
    and "distinct (map fo_id (treeRows org s db))"
proof -
  let ?seed = "map (\<lambda>r. (r, [fe_name r])) (filter (\<lambda>r. fe_parent r = None) (shareFolders org s db))"
  let ?rows = "filter (\<lambda>r. fe_org r = org \<and> fe_kind r = Folder) db"
  have seed: "set ?seed = level_rows (in_share org s db) 0"
    unfolding level_rows_def shareFolders_def by (auto simp: image_iff)
  have rows: "set ?rows = {r \<in> set db. fe_org r = org \<and> fe_kind r = Folder}" by auto
  have dist: "distinct (map fe_id ?rows)" "distinct (map (fe_id o fst) ?seed)"
    using assms by (simp_all add: wf_tree_def distinct_map_filter comp_def shareFolders_def in_share_def)
  have level: "folderOf k ` level_rows (in_share org s db) k = {loadedAs r rs | r rs. fe_kind r = Folder
      \<and> lineage (in_share org s db) (Some (fe_id r)) (r # rs) \<and> length rs = k}" for k
    unfolding level_rows_def loadedAs_def by (auto simp del: lineage.simps)
  show "set (treeRows org s db) = {loadedAs r rs | r rs. fe_kind r = Folder
      \<and> lineage (in_share org s db) (Some (fe_id r)) (r # rs) \<and> length rs \<le> Suc MAX_TREE_DEPTH}"
    unfolding treeRows_def folderLevels_set [OF assms rows seed] level add_0
    by (rule collect_lengths [where P = "\<lambda>r rs. fe_kind r = Folder \<and> lineage (in_share org s db) (Some (fe_id r)) (r # rs)",
        unfolded conj_assoc])
  show "distinct (map fo_id (treeRows org s db))"
    unfolding treeRows_def by (rule folderLevels_distinct [OF assms dist(1) rows seed dist(2)])
qed

lemma lineage_at_depth:
  assumes "lineage db c rs" and "i < length rs"
  shows "lineage db (Some (fe_id (rs ! i))) (rs ! i # drop (Suc i) rs)"
  using assms
proof (induction rs arbitrary: c i)
  case (Cons r rs)
  then show ?case by (cases i) auto
qed simp

lemma lineage_folders:
  assumes wf: "wf_tree db" and "lineage (in_share org s db) (Some (fe_id r)) (r # rs)" and "fe_kind r = Folder"
  shows "\<forall>q \<in> set (r # rs). fe_kind q = Folder"
  using assms(2,3)
proof (induction rs arbitrary: r)
  case (Cons q rs)
  have "fe_kind q = Folder"
    using Cons.prems(1) wf_tree_parent_folder [OF wf, of r q] by auto
  then show ?case using Cons.IH [of q] Cons.prems by auto
qed simp

text \<open>A job that may run has loaded every folder of the share.\<close>

lemma distinct_insort_by:
  "distinct (map f (insort_by before x ys)) \<longleftrightarrow> f x \<notin> f ` set ys \<and> distinct (map f ys)"
  by (induction ys) auto

lemma distinct_order_by: "distinct (map f (order_by before xs)) \<longleftrightarrow> distinct (map f xs)"
  by (induction xs) (simp_all add: order_by_Cons distinct_insort_by)

lemma folderTree_rows:
  "folderTree org s db = take TREE_LOAD_LIMIT
     (order_by (\<lambda>a b. fo_depth a < fo_depth b \<or> (fo_depth a = fo_depth b \<and> fo_id a < fo_id b)) (treeRows org s db))"
  by (simp add: folderTree_def treeRows_def Let_def)

lemma loaded_all:
  assumes wf: "wf_tree db" and run: "aclFolderRows org payload db = Inr fs"
  shows "set (fs_all fs) = {loadedAs r rs | r rs. fe_kind r = Folder
      \<and> lineage (in_share org (ap_share payload) db) (Some (fe_id r)) (r # rs)}"
    and "distinct (map fo_id (fs_all fs))"
proof -
  let ?s = "ap_share payload"
  let ?rows = "folderTree org ?s db"
  have short: "length ?rows < TREE_LOAD_LIMIT" and all: "fs_all fs = ?rows"
    and shallow: "filter (\<lambda>r. fo_depth r \<ge> MAX_TREE_DEPTH) ?rows = []"
    using run by (auto simp: aclFolderRows_def Let_def split: if_splits list.splits prod.splits)
  have whole: "?rows = order_by (\<lambda>a b. fo_depth a < fo_depth b \<or> (fo_depth a = fo_depth b \<and> fo_id a < fo_id b)) (treeRows org ?s db)"
    using short unfolding folderTree_rows by (simp add: min_def split: if_splits)
  have rows: "set ?rows = set (treeRows org ?s db)"
    unfolding whole by simp
  have depth: "length rs < MAX_TREE_DEPTH"
    if h: "lineage (in_share org ?s db) (Some (fe_id r)) (r # rs)" "fe_kind r = Folder" for r rs
  proof (rule ccontr)
    assume deep: "\<not> length rs < MAX_TREE_DEPTH"
    let ?i = "length rs - MAX_TREE_DEPTH"
    have i: "?i < length (r # rs)" by simp
    have "lineage (in_share org ?s db) (Some (fe_id ((r # rs) ! ?i))) ((r # rs) ! ?i # drop (Suc ?i) (r # rs))"
      by (rule lineage_at_depth [OF h(1) i])
    moreover have "fe_kind ((r # rs) ! ?i) = Folder"
      using lineage_folders [OF wf h] nth_mem [OF i] by blast
    moreover have len: "length (drop (Suc ?i) (r # rs)) = MAX_TREE_DEPTH"
      using deep by simp
    ultimately have "loadedAs ((r # rs) ! ?i) (drop (Suc ?i) (r # rs)) \<in> set ?rows"
      unfolding rows treeRows_set(1) [OF wf] by fastforce
    then show False
      using shallow len unfolding filter_empty_conv by (metis loadedAs_fields(4) order_refl)
  qed
  show "set (fs_all fs) = {loadedAs r rs | r rs. fe_kind r = Folder
      \<and> lineage (in_share org ?s db) (Some (fe_id r)) (r # rs)}"
    unfolding all rows treeRows_set(1) [OF wf]
    using depth by (intro Collect_cong ex_cong1) (metis le_SucI less_imp_le)
  show "distinct (map fo_id (fs_all fs))"
    unfolding all whole distinct_order_by by (rule treeRows_set(2) [OF wf])
qed

end
