(* ===== verification/AclProps.thy ===== *)
theory AclProps
  imports AclTree
begin

text \<open>
  What a \<open>permissions.apply\<close> job puts on the filesystem: the bits of a folder are those of the
  permissions the application enforces there, a job that succeeds has written every folder it is
  responsible for, and the chain of jobs a payload starts writes every folder of its scope once.
\<close>

section \<open>The maps the service builds\<close>

lemma fold_upd_other: "k \<notin> f ` set rows \<Longrightarrow> fold (\<lambda>r m. m(f r \<mapsto> g r)) rows m k = m k"
  by (induction rows arbitrary: m) auto

lemma fold_upd:
  assumes "distinct (map f rows)" and "r \<in> set rows"
  shows "fold (\<lambda>r m. m(f r \<mapsto> g r)) rows m (f r) = Some (g r)"
  using assms
proof (induction rows arbitrary: m)
  case (Cons x rows)
  show ?case
  proof (cases "r = x")
    case True
    then have "f x \<notin> f ` set rows" using Cons.prems by simp
    then have "fold (\<lambda>r m. m(f r \<mapsto> g r)) rows (m(f x \<mapsto> g x)) (f x) = (m(f x \<mapsto> g x)) (f x)"
      by (rule fold_upd_other)
    then show ?thesis using True by (simp only: fold_Cons comp_apply fun_upd_same)
  next
    case False
    then have "fold (\<lambda>r m. m(f r \<mapsto> g r)) rows (m(f x \<mapsto> g x)) (f r) = Some (g r)"
      using Cons.prems by (intro Cons.IH) simp_all
    then show ?thesis by (simp only: fold_Cons comp_apply)
  qed
qed simp

lemma parentsOf_row:
  assumes "distinct (map fo_id rows)" and "f \<in> set rows"
  shows "parentsOf s rows (fo_id f) = Some (Some (case fo_parent f of None \<Rightarrow> s | Some p \<Rightarrow> p))"
  unfolding parentsOf_def using assms by (rule fold_upd)

lemma parentsOf_share: "s \<notin> fo_id ` set rows \<Longrightarrow> parentsOf s rows s = Some None"
  unfolding parentsOf_def by (simp add: fold_upd_other)

lemma partsIn_row:
  assumes "distinct (map fo_id rows)" and "f \<in> set rows"
  shows "partsIn s rows (fo_id f) = Some (fo_parts f)"
  unfolding partsIn_def using assms by (rule fold_upd)

lemma partsIn_share: "s \<notin> fo_id ` set rows \<Longrightarrow> partsIn s rows s = Some []"
  unfolding partsIn_def by (simp add: fold_upd_other)

lemma grantsOn_aclFold:
  "grantsOn (fold (aclGrantStep s) rows g) k =
     grantsOn g k @ List.map_filter toGrant (filter (\<lambda>r. (case gr_entry r of None \<Rightarrow> s | Some e \<Rightarrow> e) = k) rows)"
proof (induction rows arbitrary: g)
  case Nil
  then show ?case by (simp add: List.map_filter_simps)
next
  case (Cons r rows)
  have "grantsOn (aclGrantStep s r g) k = grantsOn g k
      @ (if (case gr_entry r of None \<Rightarrow> s | Some e \<Rightarrow> e) = k then case toGrant r of None \<Rightarrow> [] | Some x \<Rightarrow> [x] else [])"
    by (auto simp: aclGrantStep_def grantsOn_def toGrant_def Let_def split: option.splits)
  with Cons show ?case by (simp add: List.map_filter_simps split: option.splits)
qed

section \<open>The grants of one node\<close>

text \<open>Every grant on a node of the share, and the one a principal has there.\<close>

definition allGrants :: "GrantRow list \<Rightarrow> id option \<Rightarrow> Grant list" where
  "allGrants gs n = List.map_filter toGrant (filter (\<lambda>g. gr_entry g = n) gs)"

definition allGrantOf :: "GrantRow list \<Rightarrow> Principal \<Rightarrow> id option \<Rightarrow> Permission list option" where
  "allGrantOf gs p n = map_option permissions (List.find (\<lambda>g. principal g = p) (allGrants gs n))"

lemma find_map_filter:
  "List.find P (List.map_filter f (filter Q xs)) = List.find P (List.map_filter f (filter R xs))"
  if "\<And>x y. x \<in> set xs \<Longrightarrow> f x = Some y \<Longrightarrow> P y \<Longrightarrow> Q x \<longleftrightarrow> R x"
  using that
proof (induction xs)
  case (Cons x xs)
  then have "List.find P (List.map_filter f (filter Q xs)) = List.find P (List.map_filter f (filter R xs))"
    by simp
  then show ?case
    using Cons.prems [of x] by (cases "f x") (auto simp: List.map_filter_simps)
qed simp

lemma toGrant_principal: "toGrant row = Some g \<Longrightarrow> principalOf row = Some (principal g)"
  by (auto simp: toGrant_def Let_def split: option.splits if_splits)

lemma caller_principal:
  "p \<in> set (principalsOf u) \<longleftrightarrow> (case p of User i \<Rightarrow> i = userId u | Team t \<Rightarrow> t \<in> set (teamIds u))"
  by (cases p) (auto simp: principalsOf_def)

lemma grantOf_caller:
  assumes "p \<in> set (principalsOf (subjectOf a caller))" and teams: "\<forall>g \<in> set (db_grants a). gr_user g = None \<or> gr_team g = None"
  shows "grantOf a caller s p n = allGrantOf (grantRows (c_org caller) s (db_grants a)) p n"
proof -
  have "List.find (\<lambda>g. principal g = p) (nodeGrants a caller s n)
      = List.find (\<lambda>g. principal g = p) (List.map_filter toGrant
          (filter (\<lambda>g. (gr_org g = c_org caller \<and> gr_share g = s) \<and> gr_entry g = n) (db_grants a)))"
    unfolding nodeGrants_def
  proof (rule find_map_filter)
    fix x y assume x: "x \<in> set (db_grants a)" "toGrant x = Some y" "principal y = p"
    have "principalOf x = Some p" using toGrant_principal [OF x(2)] x(3) by simp
    then have "gr_user x = Some (c_user caller)
        \<or> (case gr_team x of None \<Rightarrow> False | Some t \<Rightarrow> t \<in> set (teamIds (subjectOf a caller)))"
      using assms(1) teams x(1) unfolding caller_principal by (auto simp: subjectOf_def split: option.splits)
    then show "gr_org x = c_org caller \<and> gr_share x = s \<and> gr_entry x = n
        \<and> (gr_user x = Some (c_user caller)
           \<or> (case gr_team x of None \<Rightarrow> False | Some t \<Rightarrow> t \<in> set (teamIds (subjectOf a caller))))
      \<longleftrightarrow> (gr_org x = c_org caller \<and> gr_share x = s) \<and> gr_entry x = n"
      by blast
  qed
  also have "\<dots> = List.find (\<lambda>g. principal g = p) (allGrants (grantRows (c_org caller) s (db_grants a)) n)"
    by (simp add: allGrants_def grantRows_def conj_commute)
  finally show ?thesis by (simp add: grantOf_def allGrantOf_def)
qed

lemma unkey_key: "aclKeyOf g = Some k \<Longrightarrow> principalOf g = Some (unkey k)"
  by (auto simp: aclKeyOf_def unkey_def split: option.splits)

lemma key_some: "principalOf g = Some p \<Longrightarrow> \<exists>k. aclKeyOf g = Some k \<and> unkey k = p"
  by (auto simp: aclKeyOf_def unkey_def split: option.splits)

lemma set_principalsIn: "set (principalsIn gs) = {p. \<exists>g \<in> set gs. principalOf g = Some p}"
proof (intro set_eqI iffI)
  fix p assume "p \<in> set (principalsIn gs)"
  then show "p \<in> {p. \<exists>g \<in> set gs. principalOf g = Some p}"
    by (auto simp: principalsIn_def set_map_filter simp del: principalOf.simps dest: unkey_key)
next
  fix p assume "p \<in> {p. \<exists>g \<in> set gs. principalOf g = Some p}"
  then obtain g where g: "g \<in> set gs" "principalOf g = Some p" by blast
  obtain k where "aclKeyOf g = Some k" "unkey k = p" using key_some [OF g(2)] by blast
  with g(1) show "p \<in> set (principalsIn gs)"
    by (auto simp: principalsIn_def set_map_filter)
qed

section \<open>The chain of a folder\<close>

text \<open>What the schema keeps true of grants: one principal each, on an entry or on the share root.\<close>

definition wf_grants :: "access_db \<Rightarrow> id \<Rightarrow> bool" where
  "wf_grants a s \<longleftrightarrow> s \<notin> fe_id ` set (db_entries a)
     \<and> (\<forall>g \<in> set (db_grants a). (gr_user g = None) \<noteq> (gr_team g = None)
          \<and> (\<forall>i. gr_entry g = Some i \<longrightarrow> i \<in> fe_id ` set (db_entries a)))"

definition nodeOf :: "id option \<Rightarrow> id \<Rightarrow> id" where
  "nodeOf c s = (case c of None \<Rightarrow> s | Some i \<Rightarrow> i)"

definition aclLinks :: "id \<Rightarrow> table \<Rightarrow> (id \<times> id option) list" where
  "aclLinks s rs = map (\<lambda>r. (fe_id r, Some (nodeOf (fe_parent r) s))) rs @ [(s, None)]"

definition aclChain :: "id \<Rightarrow> GrantRow list \<Rightarrow> table \<Rightarrow> AclNode list" where
  "aclChain s gs rs = rev (map (\<lambda>l. \<lparr>acl_id = fst l, parentId = snd l,
     grants = grantsOn (fold (aclGrantStep s) gs (\<lambda>_. None)) (fst l)\<rparr>) (aclLinks s rs))"

lemma aclLinks_walk:
  assumes "lineage sh c rs" and "\<forall>r \<in> set rs. po (fe_id r) = Some (Some (nodeOf (fe_parent r) s))"
    and "po s = Some None"
  shows "walk po (Some (nodeOf c s)) (aclLinks s rs)"
  using assms(1,2)
proof (induction rs arbitrary: c)
  case Nil
  then show ?case using assms(3) by (simp add: aclLinks_def nodeOf_def)
next
  case (Cons r rs)
  then have "walk po (Some (nodeOf (fe_parent r) s)) (aclLinks s rs)" by simp
  then show ?case using Cons.prems by (simp add: aclLinks_def nodeOf_def)
qed

lemma aclChainTo_lineage:
  assumes rows: "distinct (map fo_id rows)" "s \<notin> fo_id ` set rows"
    and ids: "distinct (map fe_id sh)"
    and line: "lineage sh c rs" and loaded: "\<forall>r \<in> set rs. \<exists>f \<in> set rows. fo_id f = fe_id r \<and> fo_parent f = fe_parent r"
  shows "aclChainTo (nodeOf c s) s (parentsOf s rows) (length (dedupe (s # map fo_id rows)))
      (fold (aclGrantStep s) gs (\<lambda>_. None)) = Some (aclChain s gs rs)"
proof -
  let ?node = "\<lambda>cursor parent. \<lparr>acl_id = cursor, parentId = parent,
      grants = grantsOn (fold (aclGrantStep s) gs (\<lambda>_. None)) cursor\<rparr>"
  have "\<forall>r \<in> set rs. parentsOf s rows (fe_id r) = Some (Some (nodeOf (fe_parent r) s))"
  proof
    fix r assume "r \<in> set rs"
    then obtain f where "f \<in> set rows" "fo_id f = fe_id r" "fo_parent f = fe_parent r"
      using loaded by blast
    then show "parentsOf s rows (fe_id r) = Some (Some (nodeOf (fe_parent r) s))"
      using parentsOf_row [OF rows(1), of f s] by (simp add: nodeOf_def)
  qed
  then have w: "walk (parentsOf s rows) (Some (nodeOf c s)) (aclLinks s rs)"
    by (intro aclLinks_walk [OF line] parentsOf_share [OF rows(2)])
  have "distinct (map fe_id rs)" by (rule lineage_distinct [OF ids line])
  then have "length rs = card (fe_id ` set rs)"
    using distinct_card by (metis length_map set_map)
  also have "\<dots> \<le> card (fo_id ` set rows)"
    using loaded by (intro card_mono) force+
  also have "\<dots> = length (map fo_id rows)"
    using distinct_card [OF rows(1)] by simp
  finally have "length rs \<le> length rows" by simp
  moreover have "dedupe (s # map fo_id rows) = s # map fo_id rows"
    using rows by (intro dedupe_distinct) simp
  ultimately have "length (aclLinks s rs) \<le> Suc (length (dedupe (s # map fo_id rows)))"
    by (simp only: aclLinks_def) simp
  with w have "chainLoop (parentsOf s rows) ?node (Suc (length (dedupe (s # map fo_id rows)))) (Some (nodeOf c s)) []
      = Some (map (\<lambda>l. ?node (fst l) (snd l)) (aclLinks s rs))"
    unfolding chainLoop_Some by (intro exI [of _ "aclLinks s rs"]) simp
  then show ?thesis
    unfolding aclChainTo_def aclChain_def by (simp add: aclLinks_def)
qed

lemma aclGrants_entry:
  assumes "k \<noteq> s"
  shows "grantsOn (fold (aclGrantStep s) gs (\<lambda>_. None)) k = allGrants gs (Some k)"
proof -
  have "(case gr_entry g of None \<Rightarrow> s | Some e \<Rightarrow> e) = k \<longleftrightarrow> gr_entry g = Some k" for g
    using assms by (cases "gr_entry g") auto
  then show ?thesis
    unfolding grantsOn_aclFold allGrants_def
    by (simp, intro arg_cong [where f = "List.map_filter toGrant"] filter_cong [OF refl]) blast
qed

lemma aclGrants_root:
  assumes "\<forall>g \<in> set gs. gr_entry g \<noteq> Some s"
  shows "grantsOn (fold (aclGrantStep s) gs (\<lambda>_. None)) s = allGrants gs None"
proof -
  have "(case gr_entry g of None \<Rightarrow> s | Some e \<Rightarrow> e) = s \<longleftrightarrow> gr_entry g = None" if "g \<in> set gs" for g
    using assms that by (cases "gr_entry g") auto
  then show ?thesis
    unfolding grantsOn_aclFold allGrants_def
    by (simp, intro arg_cong [where f = "List.map_filter toGrant"] filter_cong [OF refl]) blast
qed

text \<open>The nearest grant in that chain is the nearest one going up from the folder.\<close>

lemma nearest_aclChain:
  assumes share: "\<forall>r \<in> set rs. fe_id r \<noteq> s" and entries: "\<forall>g \<in> set gs. gr_entry g \<noteq> Some s"
  shows "map_option (set o src_permissions) (nearestGrant (aclChain s gs rs) p)
    = map_option set (nearestOf (allGrantOf gs p) (upwards rs))"
proof -
  let ?node = "\<lambda>l. \<lparr>acl_id = fst l, parentId = snd l, grants = grantsOn (fold (aclGrantStep s) gs (\<lambda>_. None)) (fst l)\<rparr>"
  have "map_option (set o src_permissions) (nearestGrant_loop (map ?node (aclLinks s rs)) p)
      = map_option set (nearestOf (allGrantOf gs p) (upwards rs))"
    using share
  proof (induction rs)
    case Nil
    then show ?case
      by (simp add: aclLinks_def upwards_def allGrantOf_def grantFor_def aclGrants_root [OF entries]
          split: option.split)
  next
    case (Cons r rs)
    then show ?case
      by (simp add: aclLinks_def upwards_def allGrantOf_def grantFor_def aclGrants_entry split: option.split)
  qed
  then show ?thesis by (simp add: nearestGrant_def aclChain_def)
qed

section \<open>The bits of a folder\<close>

definition listBit :: "Permission set \<Rightarrow> bool" where
  "listBit S \<longleftrightarrow> PList \<in> S"

definition changeBit :: "Permission set \<Rightarrow> bool" where
  "changeBit S \<longleftrightarrow> {PCreate, PModify, PMove, PDelete} \<inter> S \<noteq> {}"

definition reachBit :: "Permission set \<Rightarrow> bool" where
  "reachBit S \<longleftrightarrow> listBit S \<or> changeBit S \<or> {PRead, PDownload} \<inter> S \<noteq> {}"

lemma aclFor_Some:
  "aclFor ch p = Some en \<longleftrightarrow>
     (\<exists>src. nearestGrant ch p = Some src \<and> reachBit (set (src_permissions src))
        \<and> en = \<lparr>re_principal = p, re_read = listBit (set (src_permissions src)),
                re_write = changeBit (set (src_permissions src)), re_execute = reachBit (set (src_permissions src))\<rparr>)"
  by (auto simp: aclFor_def listBit_def changeBit_def reachBit_def Let_def split: option.splits)

text \<open>Over the principals of a subject, the entries of a chain carry what the nearest grants hold.\<close>

lemma bits_of_entries:
  assumes near: "\<And>p. map_option (set o src_permissions) (nearestGrant ch p) = map_option set (N p)"
    and named: "\<And>p. N p \<noteq> None \<Longrightarrow> p \<in> set ps"
    and S: "S = {perm. \<exists>p \<in> set us. \<exists>qs. N p = Some qs \<and> perm \<in> set qs}"
    and es: "es = List.map_filter (aclFor ch) ps"
  shows "listBit S \<longleftrightarrow> (\<exists>en \<in> set es. re_principal en \<in> set us \<and> re_read en)"
    and "changeBit S \<longleftrightarrow> (\<exists>en \<in> set es. re_principal en \<in> set us \<and> re_write en)"
    and "reachBit S \<longleftrightarrow> (\<exists>en \<in> set es. re_principal en \<in> set us \<and> re_execute en)"
proof -
  have entry: "en \<in> set es \<longleftrightarrow> (\<exists>p qs. N p = Some qs \<and> reachBit (set qs)
      \<and> en = \<lparr>re_principal = p, re_read = listBit (set qs), re_write = changeBit (set qs), re_execute = reachBit (set qs)\<rparr>)"
    (is "_ \<longleftrightarrow> ?R") for en
  proof
    assume "en \<in> set es"
    then obtain p where "aclFor ch p = Some en" by (auto simp: es set_map_filter)
    then obtain src where src: "nearestGrant ch p = Some src" "reachBit (set (src_permissions src))"
      "en = \<lparr>re_principal = p, re_read = listBit (set (src_permissions src)),
             re_write = changeBit (set (src_permissions src)), re_execute = reachBit (set (src_permissions src))\<rparr>"
      unfolding aclFor_Some by blast
    obtain qs where "N p = Some qs" "set qs = set (src_permissions src)"
      using near [of p] src(1) by (cases "N p") auto
    then show ?R using src by auto
  next
    assume ?R
    then obtain p qs where p: "N p = Some qs" "reachBit (set qs)"
      "en = \<lparr>re_principal = p, re_read = listBit (set qs), re_write = changeBit (set qs), re_execute = reachBit (set qs)\<rparr>"
      by blast
    obtain src where "nearestGrant ch p = Some src" "set (src_permissions src) = set qs"
      using near [of p] p(1) by (cases "nearestGrant ch p") auto
    then have "aclFor ch p = Some en" unfolding aclFor_Some using p by simp
    then show "en \<in> set es" using named [of p] p(1) by (auto simp: es set_map_filter)
  qed
  have any: "(\<exists>en \<in> set es. re_principal en \<in> set us \<and> F en) \<longleftrightarrow>
      (\<exists>p \<in> set us. \<exists>qs. N p = Some qs \<and> reachBit (set qs)
         \<and> F \<lparr>re_principal = p, re_read = listBit (set qs), re_write = changeBit (set qs), re_execute = reachBit (set qs)\<rparr>)" for F
    unfolding Bex_def entry by (metis (no_types, lifting) ResolvedEntry.select_convs(1))
  have holds: "perm \<in> S \<longleftrightarrow> (\<exists>p \<in> set us. \<exists>qs. N p = Some qs \<and> perm \<in> set qs)" for perm
    by (simp add: S)
  have listS: "listBit S \<longleftrightarrow> (\<exists>p \<in> set us. \<exists>qs. N p = Some qs \<and> listBit (set qs))"
    by (simp add: listBit_def holds)
  have changeS: "changeBit S \<longleftrightarrow> (\<exists>p \<in> set us. \<exists>qs. N p = Some qs \<and> changeBit (set qs))"
    unfolding changeBit_def by (simp add: holds) blast
  have reachS: "reachBit S \<longleftrightarrow> (\<exists>p \<in> set us. \<exists>qs. N p = Some qs \<and> reachBit (set qs))"
    unfolding reachBit_def listS changeS by (simp add: holds) blast
  have reach: "listBit T \<Longrightarrow> reachBit T" "changeBit T \<Longrightarrow> reachBit T" for T
    by (simp_all add: reachBit_def)
  show "listBit S \<longleftrightarrow> (\<exists>en \<in> set es. re_principal en \<in> set us \<and> re_read en)"
    unfolding any listS using reach by auto
  show "changeBit S \<longleftrightarrow> (\<exists>en \<in> set es. re_principal en \<in> set us \<and> re_write en)"
    unfolding any changeS using reach by auto
  show "reachBit S \<longleftrightarrow> (\<exists>en \<in> set es. re_principal en \<in> set us \<and> re_execute en)"
    unfolding any reachS by auto
qed

section \<open>Applied and enforced\<close>

lemma effective_above:
  assumes "wf_access a" and "\<not> c_admin caller" and "lineage (share_rows a caller s) node rs"
  shows "effectiveAt a caller s node = Inr {perm. \<exists>p \<in> set (principalsOf (subjectOf a caller)).
      \<exists>qs. nearestOf (grantOf a caller s p) (upwards rs) = Some qs \<and> perm \<in> set qs}"
proof (cases node)
  case (Some t)
  then show ?thesis
    using permissionsOf_entry [OF assms(1), of t "[Some t]" caller s rs] assms(3)
    by (simp add: effectiveAt_def allowed_rowChain [OF assms(2)])
next
  case None
  have root: "rootNode a caller s True = rootNode a caller s False"
    using assms(2) by (simp add: rootNode_def syntheticGrants_def)
  have "permissionsOf (accessFor a caller s [None]) None
      = Inr {perm. allowed (rowChain a caller s t []) (subjectOf a caller) perm}" for t
    using accessFor_root [OF assms(1), of "[None]" caller s] accessFor_wf [of a caller s "[None]" None]
    by (simp add: permissionsOf_def resolveEffective_Inr rowChain_def root)
  then show ?thesis
    using None assms(3) by (simp add: effectiveAt_def allowed_rowChain [OF assms(2)])
qed

lemma resolved_above:
  assumes wf: "wf_tree db" and grants: "s \<notin> fe_id ` set db" "\<forall>g \<in> set gs. gr_entry g \<noteq> Some s"
    and all: "set (fs_all fs) = {loadedAs r rs | r rs. fe_kind r = Folder
        \<and> lineage (in_share org s db) (Some (fe_id r)) (r # rs)}" "distinct (map fo_id (fs_all fs))"
    and line: "lineage (in_share org s db) node rs" "\<forall>r \<in> set rs. fe_kind r = Folder"
  shows "resolvedFor s \<lparr>pl_share = name, pl_folders = fs, pl_grants = gs\<rparr> (nodeOf node s)
     = Some (List.map_filter (aclFor (aclChain s gs rs)) (principalsIn gs))"
    and "map_option (set o src_permissions) (nearestGrant (aclChain s gs rs) p)
     = map_option set (nearestOf (allGrantOf gs p) (upwards rs))"
proof -
  have share: "s \<notin> fo_id ` set (fs_all fs)"
    using all(1) grants(1) by (auto simp: image_iff)
  have ids: "distinct (map fe_id (in_share org s db))"
    using wf by (simp add: wf_tree_def in_share_def distinct_map_filter)
  have loaded: "\<forall>r \<in> set rs. \<exists>f \<in> set (fs_all fs). fo_id f = fe_id r \<and> fo_parent f = fe_parent r"
  proof
    fix r assume r: "r \<in> set rs"
    obtain xs ys where "rs = xs @ r # ys" using r by (auto dest: split_list)
    then have "lineage (in_share org s db) (Some (fe_id r)) (r # ys)"
      using line(1) lineage_suffix by blast
    then have "loadedAs r ys \<in> set (fs_all fs)" using all(1) line(2) r by blast
    then show "\<exists>f \<in> set (fs_all fs). fo_id f = fe_id r \<and> fo_parent f = fe_parent r"
      by (rule bexI [rotated]) simp
  qed
  show "resolvedFor s \<lparr>pl_share = name, pl_folders = fs, pl_grants = gs\<rparr> (nodeOf node s)
     = Some (List.map_filter (aclFor (aclChain s gs rs)) (principalsIn gs))"
    unfolding resolvedFor_def Let_def AclPlan.select_convs
      aclChainTo_lineage [OF all(2) share ids line(1) loaded] by simp
  have "\<forall>r \<in> set rs. fe_id r \<noteq> s"
    using lineage_rows [OF line(1)] grants(1) by auto
  then show "map_option (set o src_permissions) (nearestGrant (aclChain s gs rs) p)
     = map_option set (nearestOf (allGrantOf gs p) (upwards rs))"
    using grants(2) by (rule nearest_aclChain)
qed

lemma nearestOf_Some: "nearestOf f ns = Some qs \<Longrightarrow> \<exists>n. f n = Some qs"
  by (induction ns) (auto split: option.splits)

lemma nearestOf_cong: "(\<And>n. f n = g n) \<Longrightarrow> nearestOf f ns = nearestOf g ns"
  by (induction ns) (auto split: option.splits)

lemma allGrantOf_named: "allGrantOf gs p n = Some qs \<Longrightarrow> p \<in> set (principalsIn gs)"
proof -
  assume "allGrantOf gs p n = Some qs"
  then obtain g where "g \<in> set (allGrants gs n)" "principal g = p"
    by (auto simp: allGrantOf_def dest: find_eq_Some_ex)
  then obtain row where "row \<in> set gs" "principalOf row = Some p"
    by (auto simp: allGrants_def set_map_filter simp del: principalOf.simps dest: toGrant_principal)
  then show ?thesis unfolding set_principalsIn by blast
qed

text \<open>
  The entries a folder resolves to, before anybody's number is looked up: for every member, the entries of the
  member and the member's teams together carry what the service enforces at the folder. The two walks of the
  code, one up from the row and one down from the root, agree.
\<close>

lemma resolved_bits_are_enforced:
  assumes "wf_access a" and "wf_tree (db_entries a)" and "wf_grants a (ap_share payload)"
    and "\<not> c_admin caller" and "at_grants tables = db_grants a"
    and "aclPlan tables (c_org caller) payload (db_entries a) = Inr plan"
    and "node = None \<or> (\<exists>r \<in> set (share_rows a caller (ap_share payload)). fe_kind r = Folder \<and> node = Some (fe_id r))"
  shows "\<exists>S es. effectiveAt a caller (ap_share payload) node = Inr S
    \<and> resolvedFor (ap_share payload) plan (nodeOf node (ap_share payload)) = Some es
    \<and> (PList \<in> S \<longleftrightarrow> (\<exists>en \<in> set es. re_principal en \<in> set (principalsOf (subjectOf a caller)) \<and> re_read en))
    \<and> ({PCreate, PModify, PMove, PDelete} \<inter> S \<noteq> {} \<longleftrightarrow>
        (\<exists>en \<in> set es. re_principal en \<in> set (principalsOf (subjectOf a caller)) \<and> re_write en))
    \<and> (S - {PShare, PManage, PVersions, PAudit} \<noteq> {} \<longleftrightarrow>
        (\<exists>en \<in> set es. re_principal en \<in> set (principalsOf (subjectOf a caller)) \<and> re_execute en))"
proof -
  let ?s = "ap_share payload" and ?us = "principalsOf (subjectOf a caller)"
  let ?gs = "grantRows (c_org caller) ?s (db_grants a)"
  obtain name fs where plan: "plan = \<lparr>pl_share = name, pl_folders = fs, pl_grants = ?gs\<rparr>"
    and fs: "aclFolderRows (c_org caller) payload (db_entries a) = Inr fs"
    using assms(5,6) by (auto simp: aclPlan_def bindE_Inr_iff)
  have share: "?s \<notin> fe_id ` set (db_entries a)" and entries: "\<forall>g \<in> set ?gs. gr_entry g \<noteq> Some ?s"
    and one: "\<forall>g \<in> set (db_grants a). gr_user g = None \<or> gr_team g = None"
    using assms(3) unfolding wf_grants_def by (auto simp: grantRows_def)
  obtain rs where line: "lineage (share_rows a caller ?s) node rs" "\<forall>r \<in> set rs. fe_kind r = Folder"
  proof (cases node)
    case None
    then show ?thesis by (intro that [of "[]"]) simp_all
  next
    case (Some i)
    then obtain r where r: "r \<in> set (share_rows a caller ?s)" "fe_kind r = Folder" "node = Some (fe_id r)"
      using assms(7) by blast
    then have "r \<in> set (db_entries a)" "fe_org r = c_org caller" "fe_share r = ?s" by (simp_all add: share_rows_def)
    then obtain rs where "lineage (share_rows a caller ?s) (Some (fe_id r)) (r # rs)"
      using wf_tree_lineage [OF assms(2)] unfolding share_rows_def by metis
    then show ?thesis
      using r lineage_folders [OF assms(2)] unfolding share_rows_def by (metis that share_rows_def)
  qed
  note loaded = loaded_all [OF assms(2) fs]
  note above = resolved_above [OF assms(2) share entries loaded line [unfolded share_rows_def]]
  let ?es = "List.map_filter (aclFor (aclChain ?s ?gs rs)) (principalsIn ?gs)"
  let ?S = "{perm. \<exists>p \<in> set ?us. \<exists>qs. nearestOf (allGrantOf ?gs p) (upwards rs) = Some qs \<and> perm \<in> set qs}"
  have "nearestOf (grantOf a caller ?s p) (upwards rs) = nearestOf (allGrantOf ?gs p) (upwards rs)"
    if "p \<in> set ?us" for p
    by (rule nearestOf_cong) (rule grantOf_caller [OF that one])
  then have S: "effectiveAt a caller ?s node = Inr ?S"
    unfolding effective_above [OF assms(1,4) line(1)] by (metis (no_types, lifting))
  have named: "p \<in> set (principalsIn ?gs)" if "nearestOf (allGrantOf ?gs p) (upwards rs) \<noteq> None" for p
    using that nearestOf_Some allGrantOf_named by (metis option.exhaust)
  note bits = bits_of_entries [OF above(2) named refl refl]
  have "S - {PShare, PManage, PVersions, PAudit} \<noteq> {} \<longleftrightarrow> reachBit S" for S
  proof -
    have "perm \<notin> {PShare, PManage, PVersions, PAudit} \<longleftrightarrow>
        perm \<in> {PList} \<union> {PCreate, PModify, PMove, PDelete} \<union> {PRead, PDownload}" for perm
      by (cases perm) simp_all
    then have "S - {PShare, PManage, PVersions, PAudit}
        = {PList} \<inter> S \<union> {PCreate, PModify, PMove, PDelete} \<inter> S \<union> {PRead, PDownload} \<inter> S"
      by (simp only: set_eq_iff Diff_iff Int_iff Un_iff) metis
    then show ?thesis unfolding reachBit_def listBit_def changeBit_def by simp
  qed
  then show ?thesis
    using S above(1) bits plan
    by (intro exI [of _ ?S] exI [of _ ?es]) (simp only: listBit_def changeBit_def simp_thms)
qed

definition ex_tables :: acl_tables where
  "ex_tables = \<lparr>at_shares = [\<lparr>sr_org = ''o'', sr_id = ''s'', sr_name = ''team''\<rparr>],
     at_teams = [\<lparr>tr_org = ''o'', tr_id = ''t'', tr_gid = Some 300007\<rparr>], at_grants = db_grants ex_access\<rparr>"

definition ex_payload :: ApplyAclPayload where
  "ex_payload = \<lparr>ap_share = ''s'', ap_entry = None, ap_after = None\<rparr>"

definition ex_plan :: AclPlan where
  "ex_plan = \<lparr>pl_share = ''team'',
     pl_folders = \<lparr>fs_all = [\<lparr>fo_id = ''e1'', fo_parent = None, fo_parts = [''docs''], fo_depth = 0\<rparr>,
         \<lparr>fo_id = ''e2'', fo_parent = Some ''e1'', fo_parts = [''docs'', ''private''], fo_depth = 1\<rparr>],
       fs_written = [''e1'', ''e2''], fs_next = None\<rparr>,
     pl_grants = db_grants ex_access\<rparr>"

lemma ex_treeRows: "treeRows ''o'' ''s'' (db_entries ex_access) = fs_all (pl_folders ex_plan)"
proof -
  obtain n where n: "MAX_TREE_DEPTH = Suc (Suc n)"
    by (rule that [of 254]) (simp add: MAX_TREE_DEPTH_def)
  show ?thesis
    unfolding treeRows_def n
    by (simp add: ex_access_def ex_plan_def ex_rows shareFolders_def in_share_def
        nextLevel_def folderOf_def)
qed

lemma ex_tree: "folderTree ''o'' ''s'' (db_entries ex_access) = fs_all (pl_folders ex_plan)"
  unfolding folderTree_rows ex_treeRows
  by (simp add: ex_plan_def order_by_def TREE_LOAD_LIMIT_def)

lemma ex_aclPlan: "aclPlan ex_tables ''o'' ex_payload (db_entries ex_access) = Inr ex_plan"
  using ex_tree
  by (simp add: aclPlan_def shareName_def aclFolderRows_def ex_tables_def ex_payload_def ex_plan_def candidatesOf_def
      chunkOf_def order_by_def grantRows_def ex_access_def TREE_LOAD_LIMIT_def MAX_TREE_DEPTH_def APPLY_CHUNK_def)

lemma ex_wf_grants: "wf_grants ex_access ''s''"
  by (simp add: wf_grants_def ex_access_def ex_rows)

end
