(* ===== verification/AclLog.thy ===== *)
theory AclLog
  imports AclProps Posix FileTable
begin

text \<open>
  What a job has told the agent: the environment keeps a log of every request with its answer, and the
  confirmed \<open>apply_folder_acl\<close> calls are read off it. Numbers of people never change once they are given,
  so the entries of every call of a run can be stated with the accounts as they are at its end.
\<close>

section \<open>A log of the calls\<close>

type_synonym call_log = "(AgentRequest \<times> (string + AgentResponse)) list"

definition logging :: "'d env \<Rightarrow> ('d \<times> call_log) env" where
  "logging e = \<lparr>env_call = (\<lambda>req (d, log). case env_call e req d of (ans, d') \<Rightarrow> (ans, (d', log @ [(req, ans)]))),
     env_pg = env_pg e, env_id = env_id e\<rparr>"

fun confirmed :: "AgentRequest \<times> (string + AgentResponse) \<Rightarrow> (string \<times> string list \<times> AclEntry list) option" where
  "confirmed (ApplyFolderAcl share path entries, Inr AclApplied) = Some (share, path, entries)"
| "confirmed call = None"

definition applied :: "('d \<times> call_log) world \<Rightarrow> (string \<times> string list \<times> AclEntry list) list" where
  "applied w = List.map_filter confirmed (snd (w_disk w))"

lemma confirmed_Some:
  "confirmed (req, ans) = Some (s, p, es) \<longleftrightarrow> req = ApplyFolderAcl s p es \<and> ans = Inr AclApplied"
  by (cases "(req, ans)" rule: confirmed.cases) auto

lemma agent_call_logged:
  assumes "agent_call (logging e) req w = (r, w')"
  shows "w_users w' = w_users w \<and> w_gids w' = w_gids w \<and> w_entries w' = w_entries w \<and>
    (\<exists>ans. applied w' = applied w @ List.map_filter confirmed [(req, ans)]
       \<and> r = (case ans of Inl reason \<Rightarrow> Inl (AgentUnavailableError reason) | Inr resp \<Rightarrow> Inr resp))"
proof -
  obtain d log where w: "w_disk w = (d, log)" by (cases "w_disk w")
  obtain ans d' where c: "env_call e req d = (ans, d')" by (cases "env_call e req d")
  have "env_call (logging e) req (w_disk w) = (ans, (d', log @ [(req, ans)]))"
    by (simp add: logging_def w c)
  then have "w' = w\<lparr>w_disk := (d', log @ [(req, ans)])\<rparr>
      \<and> r = (case ans of Inl reason \<Rightarrow> Inl (AgentUnavailableError reason) | Inr resp \<Rightarrow> Inr resp)"
    using assms by (auto simp: agent_call_def split: sum.splits)
  then show ?thesis
    by (auto simp: applied_def w map_filter_append)
qed

section \<open>Numbers stay\<close>

definition grown :: "PosixUser list \<Rightarrow> PosixUser list \<Rightarrow> bool" where
  "grown us us' \<longleftrightarrow> (\<forall>a n. uid_of us a = Some n \<longrightarrow> uid_of us' a = Some n)"

lemma grown_refl [simp]: "grown us us"
  by (simp add: grown_def)

lemma grown_trans: "grown a b \<Longrightarrow> grown b c \<Longrightarrow> grown a c"
  by (simp add: grown_def)

text \<open>What the calls of a job leave alone; numbers stay each with one owner.\<close>

definition only_grown :: "('d \<times> call_log) world \<Rightarrow> ('d \<times> call_log) world \<Rightarrow> bool" where
  "only_grown w w' \<longleftrightarrow> grown (w_users w) (w_users w') \<and> w_entries w' = w_entries w \<and> w_gids w' = w_gids w
     \<and> (posix_ok (w_users w) (w_gids w) \<longrightarrow> posix_ok (w_users w') (w_gids w))"

lemma only_grown_refl [simp]: "only_grown w w"
  by (simp add: only_grown_def)

lemma only_grown_trans: "only_grown a b \<Longrightarrow> only_grown b c \<Longrightarrow> only_grown a c"
  unfolding only_grown_def using grown_trans by fastforce

lemma withTenant_cases:
  assumes "withTenant body w = (r, w')"
  obtains (failed) err where "r = Inl err" "w_users w' = w_users w" "w_gids w' = w_gids w" "w_entries w' = w_entries w"
      "w_disk w' = w_disk w"
  | (ran) v a where "body v = Inr (a, w')" "r = Inr a" "w_users v = w_users w" "w_gids v = w_gids w" "w_entries v = w_entries w"
      "w_disk v = w_disk w"
  using assms unfolding withTenant_def
  by (auto split: list.splits option.splits sum.splits)

lemma posixUidFor_logged:
  assumes "posixUidFor org user w = (r, w')"
  shows "only_grown w w' \<and> w_disk w' = w_disk w \<and> (\<forall>n. r = Inr n \<longrightarrow> uid_of (w_users w') (org, user) = Some n)"
proof -
  have body: "only_grown w w' \<and> w_disk w' = w_disk w \<and> uid_of (w_users w') (org, user) = Some n"
    if run: "bindE (posixRead org user (w_users w)) (\<lambda>existing. case existing of Some uid \<Rightarrow> Inr (uid, w)
        | None \<Rightarrow> bindE (posixSettle org user (w_users w) (w_gids w @ w_retired w)) (\<lambda>(uid, users). Inr (uid, w\<lparr>w_users := users\<rparr>)))
      = Inr (n, w')" for w w' :: "('d \<times> call_log) world" and n
  proof -
    obtain existing where read: "posixRead org user (w_users w) = Inr existing"
      using run by (auto simp: bindE_Inr_iff)
    show ?thesis
    proof (cases existing)
      case (Some uid)
      then show ?thesis using run read posixRead_value by (auto simp: bindE_Inr_iff)
    next
      case None
      have blank: "uid_of (w_users w) (org, user) = None" "(org, user) \<in> account ` set (w_users w)"
        using read None unfolding posixRead_def find_account
        by (auto simp: bindE_Inr_iff uid_of_def split: option.splits dest!: find_eq_Some_ex) force+
      obtain users where settle: "posixSettle org user (w_users w) (w_gids w @ w_retired w) = Inr (n, users)"
        "w' = w\<lparr>w_users := users\<rparr>"
        using run read None by (auto simp: bindE_Inr_iff)
      have "users = give (org, user) n (w_users w)"
        using settle(1) blank(1) unfolding posixSettle_def find_account
        by (auto simp: bindE_Inr_iff give_def account_def assertUsable_def uid_of_def split: if_splits option.splits)
      moreover have "posix_ok users (w_gids w)" if ok: "posix_ok (w_users w) (w_gids w)"
        using posixSettle_value [OF ok settle(1)] blank(1) give_ok [OF ok] ok by auto
      ultimately show ?thesis
        using blank by (simp add: settle(2) only_grown_def grown_def uid_of_give)
    qed
  qed
  from assms [unfolded posixUidFor_def] show ?thesis
  proof (cases rule: withTenant_cases)
    case failed
    then show ?thesis by (simp add: only_grown_def)
  next
    case (ran v n)
    then show ?thesis using body [OF ran(1)] by (simp add: only_grown_def)
  qed
qed

section \<open>One folder\<close>

definition gidIn :: "acl_tables \<Rightarrow> id \<Rightarrow> PosixUser list \<Rightarrow> Principal \<Rightarrow> nat option" where
  "gidIn tables org users p =
     (case p of
        User u \<Rightarrow> uid_of users (org, u)
      | Team t \<Rightarrow> (case List.find (\<lambda>r. tr_org r = org \<and> tr_id r = t) (at_teams tables) of
                     None \<Rightarrow> None | Some r \<Rightarrow> tr_gid r))"

definition entryIn :: "acl_tables \<Rightarrow> id \<Rightarrow> PosixUser list \<Rightarrow> ResolvedEntry \<Rightarrow> AclEntry option" where
  "entryIn tables org users en =
     map_option (\<lambda>g. \<lparr>ae_gid = g, ae_read = re_read en, ae_write = re_write en, ae_execute = re_execute en\<rparr>)
       (gidIn tables org users (re_principal en))"

text \<open>Everybody an entry names has a number.\<close>

definition known :: "id \<Rightarrow> PosixUser list \<Rightarrow> ResolvedEntry list \<Rightarrow> bool" where
  "known org users es \<longleftrightarrow> (\<forall>en \<in> set es. \<forall>u. re_principal en = User u \<longrightarrow> uid_of users (org, u) \<noteq> None)"

lemma known_grown: "known org us es \<Longrightarrow> grown us us' \<Longrightarrow> known org us' es"
  unfolding known_def grown_def by (metis option.exhaust option.distinct(1))

lemma entries_grown:
  assumes "known org us es" and "grown us us'"
  shows "List.map_filter (entryIn tables org us) es = List.map_filter (entryIn tables org us') es"
proof -
  have "entryIn tables org us en = entryIn tables org us' en" if "en \<in> set es" for en
    using assms that unfolding known_def grown_def entryIn_def gidIn_def
    by (cases "re_principal en") (auto, metis)
  then show ?thesis by (induction es) (simp_all add: List.map_filter_simps split: option.split)
qed

lemma gidFor_logged:
  assumes "gidFor tables org p w = (r, w')"
  shows "only_grown w w' \<and> w_disk w' = w_disk w
    \<and> (\<forall>g. r = Inr g \<longrightarrow> g = gidIn tables org (w_users w') p \<and> (\<forall>u. p = User u \<longrightarrow> uid_of (w_users w') (org, u) \<noteq> None))"
proof (cases p)
  case (User u)
  then show ?thesis
    using assms posixUidFor_logged [of org u w]
    by (cases "posixUidFor org u w"; cases "fst (posixUidFor org u w)") (auto simp: gidFor_def seqE_def gidIn_def)
next
  case (Team t)
  then show ?thesis
    using assms unfolding gidFor_def Principal.case
    by (auto simp: gidIn_def only_grown_def Team elim!: withTenant_cases)
qed

lemma numbered_logged:
  "numbered tables org es w = (r, w') \<Longrightarrow> only_grown w w' \<and> w_disk w' = w_disk w
    \<and> (\<forall>entries. r = Inr entries \<longrightarrow> entries = List.map_filter (entryIn tables org (w_users w')) es \<and> known org (w_users w') es)"
proof (induction es arbitrary: w w' r)
  case Nil
  then show ?case by (auto simp: List.map_filter_simps known_def)
next
  case (Cons en es)
  obtain g v where one: "gidFor tables org (re_principal en) w = (g, v)" by fastforce
  note step = gidFor_logged [OF one]
  show ?case
  proof (cases g)
    case (Inl err)
    then show ?thesis using Cons.prems one step by (auto simp: seqE_def)
  next
    case (Inr gid)
    obtain rest u where many: "numbered tables org es v = (rest, u)" by fastforce
    note IH = Cons.IH [OF many]
    have w': "w' = u" using Cons.prems one many Inr by (auto simp: seqE_def split: sum.splits)
    have grow: "grown (w_users v) (w_users w')" using IH by (simp add: w' only_grown_def)
    have keep: "only_grown w w' \<and> w_disk w' = w_disk w" using step IH only_grown_trans by (metis w')
    have head: "known org (w_users v) [en]" using step Inr by (simp add: known_def)
    have "entries = List.map_filter (entryIn tables org (w_users w')) (en # es) \<and> known org (w_users w') (en # es)"
      if r: "r = Inr entries" for entries
    proof -
      obtain tail where tail: "rest = Inr tail"
        using Cons.prems one many Inr r by (auto simp: seqE_def split: sum.splits)
      have "List.map_filter (entryIn tables org (w_users w')) [en]
          = (case gid of None \<Rightarrow> [] | Some n \<Rightarrow> [\<lparr>ae_gid = n, ae_read = re_read en, ae_write = re_write en, ae_execute = re_execute en\<rparr>])"
        using step Inr entries_grown [OF head grow, of tables]
        by (auto simp: List.map_filter_simps entryIn_def split: option.splits)
      moreover have "known org (w_users w') (en # es)"
        using known_grown [OF head grow] IH tail by (auto simp: known_def w')
      ultimately show ?thesis
        using Cons.prems one many Inr r tail IH
        by (auto simp: seqE_def w' List.map_filter_simps split: option.splits)
    qed
    with keep show ?thesis by blast
  qed
qed

text \<open>A call that returns has been confirmed by the agent; one that throws has not.\<close>

lemma applyOne_logged:
  assumes "applyOne (logging e) tables org share path es w = (r, w')"
  shows "only_grown w w' \<and> applied w' = applied w
      @ (case r of Inl _ \<Rightarrow> [] | Inr _ \<Rightarrow> [(share, path, List.map_filter (entryIn tables org (w_users w')) es)])
    \<and> (\<forall>u. r = Inr u \<longrightarrow> known org (w_users w') es)"
proof -
  obtain n v where nums: "numbered tables org es w = (n, v)" by fastforce
  note num = numbered_logged [OF nums]
  have same: "applied v = applied w" using num by (simp add: applied_def)
  show ?thesis
  proof (cases n)
    case (Inl err)
    then show ?thesis using assms nums num same by (auto simp: applyOne_def seqE_def)
  next
    case (Inr entries)
    obtain c u where call: "agent_call (logging e) (ApplyFolderAcl share path entries) v = (c, u)" by fastforce
    obtain ans where log: "applied u = applied v @ List.map_filter confirmed [(ApplyFolderAcl share path entries, ans)]"
      "c = (case ans of Inl reason \<Rightarrow> Inl (AgentUnavailableError reason) | Inr resp \<Rightarrow> Inr resp)"
      "w_users u = w_users v" "w_entries u = w_entries v" "w_gids u = w_gids v"
      using agent_call_logged [OF call] by blast
    have r: "w' = u" "r = (case c of Inl err \<Rightarrow> Inl err | Inr AclApplied \<Rightarrow> Inr ()
        | Inr (AclUnavailable reason) \<Rightarrow> Inl (AgentUnavailableError reason) | Inr other \<Rightarrow> Inl (expectStatus other))"
      using assms nums call Inr
      by (auto simp: applyOne_def seqE_def split: sum.splits AgentResponse.splits)
    have "only_grown w w'" using num log(3-5) by (simp add: only_grown_def r(1))
    moreover have "applied w' = applied w @ (case r of Inl _ \<Rightarrow> [] | Inr _ \<Rightarrow> [(share, path, entries)])"
      using log(1,2) r same
      by (cases ans) (auto simp: List.map_filter_simps split: AgentResponse.splits)
    ultimately show ?thesis using num Inr log(3) r(1) by (auto split: sum.splits)
  qed
qed

end
