(* ===== verification/AclJobs.thy ===== *)
theory AclJobs
  imports AclLog SubtreeSize
begin

text \<open>
  The jobs of one payload: what each writes, and that together they write every folder of its scope.
\<close>

interpretation id_order: keyset_order "(<) :: id \<Rightarrow> id \<Rightarrow> bool" "\<lambda>i. i" "\<lambda>_. True"
  by unfold_locales auto

section \<open>One job\<close>

definition pathOf :: "id \<Rightarrow> AclPlan \<Rightarrow> id \<Rightarrow> string list" where
  "pathOf s plan i = (case partsIn s (fs_all (pl_folders plan)) i of None \<Rightarrow> [] | Some ps \<Rightarrow> ps)"

text \<open>The call that writes a folder, with the accounts as they are.\<close>

definition folderCall ::
  "acl_tables \<Rightarrow> id \<Rightarrow> id \<Rightarrow> AclPlan \<Rightarrow> PosixUser list \<Rightarrow> id \<Rightarrow> string \<times> string list \<times> AclEntry list" where
  "folderCall tables org s plan users i =
     (pl_share plan, pathOf s plan i,
      List.map_filter (entryIn tables org users) (case resolvedFor s plan i of None \<Rightarrow> [] | Some es \<Rightarrow> es))"

text \<open>The folder has a chain, and everybody its entries name has a number.\<close>

definition ready :: "id \<Rightarrow> id \<Rightarrow> AclPlan \<Rightarrow> PosixUser list \<Rightarrow> id \<Rightarrow> bool" where
  "ready org s plan users i \<longleftrightarrow> (\<exists>es. resolvedFor s plan i = Some es \<and> known org users es)"

lemma ready_grown: "ready org s plan us i \<Longrightarrow> grown us us' \<Longrightarrow> ready org s plan us' i"
  unfolding ready_def using known_grown by blast

lemma call_grown:
  assumes "ready org s plan us i" and "grown us us'"
  shows "folderCall tables org s plan us i = folderCall tables org s plan us' i"
  using assms unfolding ready_def folderCall_def by (auto dest: entries_grown)

lemma applyTargets_logged:
  "applyTargets (logging e) tables org s plan ts w = (failures, w') \<Longrightarrow> distinct ts \<Longrightarrow>
     only_grown w w' \<and> distinct (map fst failures) \<and> fst ` set failures \<subseteq> set ts
     \<and> applied w' = applied w @ map (folderCall tables org s plan (w_users w')) (filter (\<lambda>i. i \<notin> fst ` set failures) ts)
     \<and> (\<forall>i \<in> set ts. i \<notin> fst ` set failures \<longrightarrow> ready org s plan (w_users w') i)"
proof (induction ts arbitrary: w failures)
  case Nil
  then show ?case by auto
next
  case (Cons i ts)
  have same: "filter (\<lambda>j. j \<noteq> i \<and> j \<notin> F) ts = filter (\<lambda>j. j \<notin> F) ts" for F
    using Cons.prems(2) by (intro filter_cong) auto
  show ?case
  proof (cases "resolvedFor s plan i")
    case None
    then obtain fs where run: "applyTargets (logging e) tables org s plan ts w = (fs, w')" "failures = (i, None) # fs"
      using Cons.prems(1) by (auto split: prod.splits)
    then show ?thesis using Cons.IH [OF run(1)] Cons.prems(2) by (auto simp: same)
  next
    case (Some es)
    obtain r v where one: "applyOne (logging e) tables org (pl_share plan) (pathOf s plan i) es w = (r, v)" by fastforce
    note step = applyOne_logged [OF one]
    show ?thesis
    proof (cases r)
      case (Inl err)
      then obtain fs where run: "applyTargets (logging e) tables org s plan ts v = (fs, w')" "failures = (i, Some err) # fs"
        using Cons.prems(1) Some one by (auto simp: pathOf_def [symmetric] Let_def split: prod.splits)
      then show ?thesis
        using Cons.IH [OF run(1)] Cons.prems(2) step Inl only_grown_trans by (auto simp: same)
    next
      case (Inr u)
      then have run: "applyTargets (logging e) tables org s plan ts v = (failures, w')"
        using Cons.prems(1) Some one by (auto simp: pathOf_def [symmetric] Let_def split: prod.splits)
      note IH = Cons.IH [OF run]
      have grow: "grown (w_users v) (w_users w')" using IH Cons.prems(2) by (simp add: only_grown_def)
      have r: "ready org s plan (w_users v) i" using step Inr Some by (simp add: ready_def)
      have i: "i \<notin> fst ` set failures" using IH Cons.prems(2) by auto
      have "(pl_share plan, pathOf s plan i, List.map_filter (entryIn tables org (w_users v)) es)
          = folderCall tables org s plan (w_users w') i"
        using call_grown [OF r grow] Some by (simp add: folderCall_def)
      then have "applied w' = applied w @ map (folderCall tables org s plan (w_users w')) (filter (\<lambda>j. j \<notin> fst ` set failures) (i # ts))"
        using IH Cons.prems(2) step Inr i by simp
      moreover have "only_grown w w'" using step IH Cons.prems(2) only_grown_trans by auto
      ultimately show ?thesis
        using IH Cons.prems(2) ready_grown [OF r grow] by auto
    qed
  qed
qed

lemma secureRoot_logged:
  "only_grown w (snd (secureRoot (logging e) share w)) \<and> applied (snd (secureRoot (logging e) share w)) = applied w"
proof -
  obtain r v where c: "agent_call (logging e) (SecureShareRoot share) w = (r, v)" by fastforce
  have "w_users v = w_users w" "w_entries v = w_entries w" "w_gids v = w_gids w" "applied v = applied w"
    using agent_call_logged [OF c] by (auto simp: List.map_filter_simps)
  then show ?thesis
    using c by (cases r) (simp_all add: secureRoot_def seqE_def catchE_def only_grown_def)
qed

lemma aclPlan_parts:
  assumes "aclPlan tables org payload db = Inr plan"
  shows "aclFolderRows org payload db = Inr (pl_folders plan)"
    and "pl_grants plan = grantRows org (ap_share payload) (at_grants tables)"
    and "shareName org (ap_share payload) tables = Inr (pl_share plan)"
  using assms by (auto simp: aclPlan_def bindE_Inr_iff)

lemma written_loaded:
  assumes "aclFolderRows org payload db = Inr fs"
  shows "fs_written fs = fst (chunkOf (candidatesOf (fs_all fs) (ap_entry payload)) (ap_after payload))"
    and "fs_next fs = snd (chunkOf (candidatesOf (fs_all fs) (ap_entry payload)) (ap_after payload))"
  using assms by (auto simp: aclFolderRows_def Let_def split: if_splits list.splits prod.splits)

lemma candidates_distinct:
  "distinct (map fo_id rows) \<Longrightarrow> distinct (candidatesOf rows entry) \<and> set (candidatesOf rows entry) \<subseteq> fo_id ` set rows"
  by (auto simp: candidatesOf_def Let_def split: option.splits)

lemma targets_distinct:
  assumes wf: "wf_tree db" "ap_share payload \<notin> fe_id ` set db" and plan: "aclPlan tables org payload db = Inr plan"
  shows "distinct (targetsOf payload plan)"
proof -
  note fs = aclPlan_parts(1) [OF plan]
  let ?cs = "candidatesOf (fs_all (pl_folders plan)) (ap_entry payload)"
  have cs: "distinct ?cs" "set ?cs \<subseteq> fo_id ` set (fs_all (pl_folders plan))"
    using candidates_distinct loaded_all(2) [OF wf(1) fs] by blast+
  then have "distinct (order_by (<) ?cs)"
    using distinct_order_by [of "\<lambda>x. x" "(<)" ?cs] by simp
  then have "distinct (fs_written (pl_folders plan)) \<and> set (fs_written (pl_folders plan)) \<subseteq> set ?cs"
    unfolding written_loaded [OF fs] chunkOf_def
    by (auto simp: Let_def split: option.split dest: in_set_takeD)
  moreover have "ap_share payload \<notin> fo_id ` set (fs_all (pl_folders plan))"
    using loaded_all(1) [OF wf(1) fs] wf(2) by (auto simp: image_iff)
  ultimately show ?thesis using cs(2) by (auto simp: targetsOf_def)
qed

lemma applyAcl_logged:
  assumes wf: "wf_tree (w_entries w)" "ap_share payload \<notin> fe_id ` set (w_entries w)"
    and plan: "aclPlan tables org payload (w_entries w) = Inr plan"
    and run: "applyAcl (logging e) tables org payload w = (r, w')"
  shows "only_grown w w' \<and>
    ((\<exists>err. r = Inl (PlanUnavailable err) \<and> applied w' = applied w)
     \<or> (\<exists>failures. (r = (if failures = [] then Inr (fs_next (pl_folders plan))
            else Inl (NotApplied (length failures) (length (targetsOf payload plan)) (take 5 failures))))
          \<and> distinct (map fst failures) \<and> fst ` set failures \<subseteq> set (targetsOf payload plan)
          \<and> applied w' = applied w @ map (folderCall tables org (ap_share payload) plan (w_users w'))
              (filter (\<lambda>i. i \<notin> fst ` set failures) (targetsOf payload plan))
          \<and> (\<forall>i \<in> set (targetsOf payload plan). i \<notin> fst ` set failures \<longrightarrow>
               ready org (ap_share payload) plan (w_users w') i)))"
proof -
  obtain q v where tx: "withTenant (\<lambda>w. Inr (aclPlan tables org payload (w_entries w), w)) w = (q, v)" by fastforce
  from tx show ?thesis
  proof (cases rule: withTenant_cases)
    case (failed err)
    then show ?thesis
      using run tx by (auto simp: applyAcl_def only_grown_def applied_def)
  next
    case (ran v' a)
    then have a: "a = Inr plan" "w_users v = w_users w" "w_entries v = w_entries w" "w_gids v = w_gids w" "w_disk v = w_disk w"
      using plan by auto
    let ?ts = "targetsOf payload plan"
    let ?u = "if ?ts \<noteq> [] \<and> hd ?ts = ap_share payload then snd (secureRoot (logging e) (pl_share plan) v) else v"
    obtain failures u' where loop: "applyTargets (logging e) tables org (ap_share payload) plan ?ts ?u = (failures, u')"
      by fastforce
    have "only_grown v ?u \<and> applied ?u = applied v"
      using secureRoot_logged [of v e "pl_share plan"] by (cases "?ts \<noteq> [] \<and> hd ?ts = ap_share payload") simp_all
    then have start: "only_grown w ?u" "applied ?u = applied w"
      using a by (auto simp: only_grown_def applied_def)
    note all = applyTargets_logged [OF loop targets_distinct [OF wf plan]]
    have "w' = u'" "r = (if failures = [] then Inr (fs_next (pl_folders plan))
        else Inl (NotApplied (length failures) (length ?ts) (take 5 failures)))"
      using run tx ran(2) a(1) loop by (auto simp: applyAcl_def Let_def split: if_splits)
    then show ?thesis
      using all start only_grown_trans [OF start(1)] by auto
  qed
qed

section \<open>The scope of a payload\<close>

definition inScope :: "table \<Rightarrow> id \<Rightarrow> ApplyAclPayload \<Rightarrow> FileEntryRow \<Rightarrow> bool" where
  "inScope db org payload r \<longleftrightarrow> r \<in> set (in_share org (ap_share payload) db) \<and> fe_kind r = Folder
     \<and> (case ap_entry payload of None \<Rightarrow> True | Some i \<Rightarrow> (fe_id r, i) \<in> (parent_rel db)\<^sup>*)"

lemma inSubtree_lineage:
  "lineage sh c rs \<Longrightarrow> \<forall>r \<in> set rs. po (fe_id r) = Some (fe_parent r) \<Longrightarrow> length rs \<le> n \<Longrightarrow>
     inSubtree po i n c \<longleftrightarrow> i \<in> fe_id ` set rs"
proof (induction rs arbitrary: c n)
  case Nil
  then show ?case by (cases n) simp_all
next
  case (Cons r rs)
  then obtain m where "n = Suc m" by (cases n) auto
  then show ?case using Cons.IH [of "fe_parent r" m] Cons.prems by auto
qed

lemma scope_candidates:
  assumes wf: "wf_tree db" and fs: "aclFolderRows org payload db = Inr fs"
  shows "set (candidatesOf (fs_all fs) (ap_entry payload)) = fe_id ` {r. inScope db org payload r}"
proof -
  let ?s = "ap_share payload"
  note loaded = loaded_all [OF wf fs]
  have ids: "distinct (map fe_id (in_share org ?s db))"
    using wf by (simp add: wf_tree_def in_share_def distinct_map_filter)
  have row: "\<exists>rs. lineage (in_share org ?s db) (Some (fe_id r)) (r # rs) \<and> loadedAs r rs \<in> set (fs_all fs)"
    if "r \<in> set (in_share org ?s db)" "fe_kind r = Folder" for r
    using wf_tree_lineage [OF wf, of r] that loaded(1) by auto
  show ?thesis
  proof (cases "ap_entry payload")
    case None
    have "fo_id ` set (fs_all fs) = fe_id ` {r. r \<in> set (in_share org ?s db) \<and> fe_kind r = Folder}"
    proof (intro set_eqI iffI)
      fix i assume "i \<in> fo_id ` set (fs_all fs)"
      then show "i \<in> fe_id ` {r. r \<in> set (in_share org ?s db) \<and> fe_kind r = Folder}"
        using loaded(1) by force
    next
      fix i assume "i \<in> fe_id ` {r. r \<in> set (in_share org ?s db) \<and> fe_kind r = Folder}"
      then obtain r rs where "i = fe_id r" "loadedAs r rs \<in> set (fs_all fs)" using row by blast
      then show "i \<in> fo_id ` set (fs_all fs)" by (metis image_eqI loadedAs_fields(1))
    qed
    then show ?thesis by (simp add: None candidatesOf_def inScope_def)
  next
    case (Some e)
    let ?po = "map_of (rev (map (\<lambda>r. (fo_id r, fo_parent r)) (fs_all fs)))"
    have po: "?po (fo_id f) = Some (fo_parent f)" if "f \<in> set (fs_all fs)" for f
      using that loaded(2) by (intro map_of_is_SomeI) (auto simp: rev_map [symmetric] comp_def)
    have walks: "inSubtree ?po e (Suc (length (fs_all fs))) (Some (fe_id r)) \<longleftrightarrow> (fe_id r, e) \<in> (parent_rel db)\<^sup>*"
      if r: "r \<in> set (in_share org ?s db)" "fe_kind r = Folder" for r
    proof -
      obtain rs where rs: "lineage (in_share org ?s db) (Some (fe_id r)) (r # rs)" using row [OF r] by blast
      have up: "\<exists>f \<in> set (fs_all fs). fo_id f = fe_id q \<and> fo_parent f = fe_parent q" if "q \<in> set (r # rs)" for q
        using row [of q] that lineage_folders [OF wf rs r(2)] lineage_rows [OF rs] by (metis loadedAs_fields(1,2) subsetD)
      then have "\<forall>q \<in> set (r # rs). ?po (fe_id q) = Some (fe_parent q)" using po by metis
      moreover have "fe_id ` set (r # rs) \<subseteq> fo_id ` set (fs_all fs)" using up by force
      then have "card (fe_id ` set (r # rs)) \<le> card (fo_id ` set (fs_all fs))" by (intro card_mono) simp_all
      then have "length (r # rs) \<le> length (fs_all fs)"
        using distinct_card [OF lineage_distinct [OF ids rs]] distinct_card [OF loaded(2)] by simp
      ultimately have "inSubtree ?po e (Suc (length (fs_all fs))) (Some (fe_id r)) \<longleftrightarrow> e \<in> fe_id ` set (r # rs)"
        by (intro inSubtree_lineage [OF rs]) simp_all
      moreover have "lineage db (Some (fe_id r)) (r # rs)" using rs by (rule lineage_mono) auto
      then have "e \<in> fe_id ` set (r # rs) \<longleftrightarrow> (fe_id r, e) \<in> (parent_rel db)\<^sup>*"
        using lineage_reach lineage_reach_conv wf unfolding wf_tree_def by blast
      ultimately show ?thesis by blast
    qed
    have "i \<in> fo_id ` set (fs_all fs) \<and> inSubtree ?po e (Suc (length (fs_all fs))) (Some i) \<longleftrightarrow>
        i \<in> fe_id ` {r. inScope db org payload r}" for i
    proof
      assume i: "i \<in> fo_id ` set (fs_all fs) \<and> inSubtree ?po e (Suc (length (fs_all fs))) (Some i)"
      then obtain r rs where r: "i = fe_id r" "fe_kind r = Folder" "r \<in> set (in_share org ?s db)"
        using loaded(1) by force
      then show "i \<in> fe_id ` {r. inScope db org payload r}"
        using i walks [OF r(3,2)] Some by (auto simp: inScope_def)
    next
      assume "i \<in> fe_id ` {r. inScope db org payload r}"
      then obtain r where r: "i = fe_id r" "fe_kind r = Folder" "r \<in> set (in_share org ?s db)" "(fe_id r, e) \<in> (parent_rel db)\<^sup>*"
        using Some by (auto simp: inScope_def)
      then show "i \<in> fo_id ` set (fs_all fs) \<and> inSubtree ?po e (Suc (length (fs_all fs))) (Some i)"
      proof -
        obtain rs where "loadedAs r rs \<in> set (fs_all fs)" using row [OF r(3,2)] by blast
        then have "fo_id (loadedAs r rs) \<in> fo_id ` set (fs_all fs)" by (rule imageI)
        then show ?thesis using walks [OF r(3,2)] r(1,4) by simp
      qed
    qed
    then show ?thesis by (auto simp: Some candidatesOf_def Let_def)
  qed
qed

section \<open>The chain of jobs\<close>

definition remainingOf :: "id list \<Rightarrow> id option \<Rightarrow> id list" where
  "remainingOf cs start = (case start of None \<Rightarrow> cs | Some a \<Rightarrow> filter (\<lambda>i. a < i) cs)"

lemma chunkOf_remaining:
  "chunkOf cs start = (let rem = remainingOf (order_by (<) cs) start
     in (take APPLY_CHUNK rem, if APPLY_CHUNK < length rem then Some (last (take APPLY_CHUNK rem)) else None))"
proof -
  have "length rem > length (take n rem) \<and> take n rem \<noteq> [] \<longleftrightarrow> n < length rem" if "0 < n" for n and rem :: "id list"
    using that by auto
  then show ?thesis
    by (simp add: chunkOf_def remainingOf_def Let_def APPLY_CHUNK_def split: option.split)
qed

lemma chunk_next:
  assumes "distinct cs"
  shows "case snd (chunkOf cs start) of
      None \<Rightarrow> length (remainingOf (order_by (<) cs) start) \<le> APPLY_CHUNK
    | Some c \<Rightarrow> APPLY_CHUNK < length (remainingOf (order_by (<) cs) start)
        \<and> remainingOf (order_by (<) cs) (Some c) = drop APPLY_CHUNK (remainingOf (order_by (<) cs) start)"
proof -
  let ?cs = "order_by (<) cs"
  let ?rem = "remainingOf ?cs start"
  have sorted: "sorted_wrt (<) ?cs"
    using id_order.sorted_order_by [of cs] assms by simp
  then have srem: "sorted_wrt (<) ?rem"
    by (simp add: remainingOf_def sorted_wrt_filter split: option.split)
  have pos: "0 < APPLY_CHUNK" by (simp add: APPLY_CHUNK_def)
  show ?thesis
  proof (cases "APPLY_CHUNK < length ?rem")
    case True
    let ?c = "?rem ! (APPLY_CHUNK - 1)"
    have "last (take APPLY_CHUNK ?rem) = ?c"
      using True pos by (subst last_conv_nth) (auto simp: min_def)
    then have nxt: "snd (chunkOf cs start) = Some ?c"
      using True by (simp add: chunkOf_remaining Let_def)
    have c: "?c \<in> set ?rem" using True by simp
    have "filter (\<lambda>i. ?c < i) ?cs = filter (\<lambda>i. ?c < i) ?rem"
    proof (cases start)
      case None
      then show ?thesis by (simp add: remainingOf_def)
    next
      case (Some a)
      have "a < ?c" using c Some by (simp add: remainingOf_def)
      then have "?c < i \<longleftrightarrow> a < i \<and> ?c < i" for i by auto
      then show ?thesis using Some by (simp add: remainingOf_def conj_commute cong: filter_cong)
    qed
    also have "\<dots> = drop (Suc (APPLY_CHUNK - 1)) ?rem"
      using id_order.sorted_beyond [OF srem, of "APPLY_CHUNK - 1"] True by simp
    finally have "remainingOf ?cs (Some ?c) = drop APPLY_CHUNK ?rem"
      using pos by (simp add: remainingOf_def)
    then show ?thesis using True nxt by simp
  next
    case False
    then have "snd (chunkOf cs start) = None"
      by (simp add: chunkOf_remaining Let_def)
    then show ?thesis using False by simp
  qed
qed

lemma plan_later:
  assumes "aclPlan tables org payload db = Inr plan"
  shows "\<exists>written next_id. aclPlan tables org (payload\<lparr>ap_after := c\<rparr>) db
      = Inr (plan\<lparr>pl_folders := (pl_folders plan)\<lparr>fs_written := written, fs_next := next_id\<rparr>\<rparr>)"
  using assms
  by (fastforce simp: aclPlan_def aclFolderRows_def bindE_Inr_iff Let_def split: list.splits prod.splits if_splits)

lemma resolved_later:
  "resolvedFor s (plan\<lparr>pl_folders := (pl_folders plan)\<lparr>fs_written := written, fs_next := next_id\<rparr>\<rparr>) i = resolvedFor s plan i"
  by (simp add: resolvedFor_def Let_def)

lemma call_later:
  "folderCall tables org s (plan\<lparr>pl_folders := (pl_folders plan)\<lparr>fs_written := written, fs_next := next_id\<rparr>\<rparr>) users i
     = folderCall tables org s plan users i"
  by (simp add: folderCall_def resolved_later pathOf_def)

lemma ready_later:
  "ready org s (plan\<lparr>pl_folders := (pl_folders plan)\<lparr>fs_written := written, fs_next := next_id\<rparr>\<rparr>) users i
     = ready org s plan users i"
  by (simp add: ready_def resolved_later)

lemma applyJobs_logged:
  assumes wf: "wf_tree db" "ap_share payload \<notin> fe_id ` set db"
    and plan: "aclPlan tables org payload db = Inr plan"
    and cs: "cs = candidatesOf (fs_all (pl_folders plan)) (ap_entry payload)"
  shows "w_entries w = db \<Longrightarrow> applyJobs n (logging e) tables org (payload\<lparr>ap_after := start\<rparr>) w = (r, w') \<Longrightarrow>
     length (remainingOf (order_by (<) cs) start) < n * APPLY_CHUNK \<Longrightarrow>
     (\<exists>err. r = Inl err) \<or> (r = Inr (Some ()) \<and> only_grown w w'
       \<and> applied w' = applied w @ map (folderCall tables org (ap_share payload) plan (w_users w'))
           ((if ap_entry payload = None \<and> start = None then [ap_share payload] else []) @ remainingOf (order_by (<) cs) start)
       \<and> (\<forall>i \<in> set (remainingOf (order_by (<) cs) start). ready org (ap_share payload) plan (w_users w') i))"
proof (induction n arbitrary: w start)
  case 0
  then show ?case by simp
next
  case (Suc n)
  let ?s = "ap_share payload" and ?p = "payload\<lparr>ap_after := start\<rparr>"
  let ?rem = "remainingOf (order_by (<) cs) start"
  let ?root = "if ap_entry payload = None \<and> start = None then [?s] else []"
  obtain written next_id where later:
    "aclPlan tables org ?p (w_entries w) = Inr (plan\<lparr>pl_folders := (pl_folders plan)\<lparr>fs_written := written, fs_next := next_id\<rparr>\<rparr>)"
    (is "_ = Inr ?plan") using plan_later [OF plan] Suc.prems(1) by blast
  have chunk: "written = take APPLY_CHUNK ?rem" "next_id = snd (chunkOf cs start)"
    using written_loaded [OF aclPlan_parts(1) [OF later]] by (simp_all add: cs chunkOf_remaining Let_def)
  have "distinct cs"
    using candidates_distinct loaded_all(2) [OF wf(1) aclPlan_parts(1) [OF plan]] by (simp add: cs)
  note nxt = chunk_next [OF this, of start]
  have targets: "targetsOf ?p ?plan = ?root @ written" by (simp add: targetsOf_def)
  obtain q v where one: "applyAcl (logging e) tables org ?p w = (q, v)" by fastforce
  have wf': "wf_tree (w_entries w)" "ap_share ?p \<notin> fe_id ` set (w_entries w)" using wf Suc.prems(1) by simp_all
  have eqs: "ap_share ?p = ?s" "fs_next (pl_folders ?plan) = next_id" by simp_all
  note job = applyAcl_logged [OF wf' later one, unfolded targets call_later ready_later eqs]
  show ?case
  proof (cases q)
    case (Inl err)
    then show ?thesis using Suc.prems(2) one by auto
  next
    case (Inr c)
    have kept: "only_grown w v" using job by simp
    obtain failures where f: "q = (if failures = [] then Inr next_id
          else Inl (NotApplied (length failures) (length (?root @ written)) (take 5 failures)))"
      "applied v = applied w @ map (folderCall tables org ?s plan (w_users v)) (filter (\<lambda>i. i \<notin> fst ` set failures) (?root @ written))"
      "\<forall>i \<in> set (?root @ written). i \<notin> fst ` set failures \<longrightarrow> ready org ?s plan (w_users v) i"
      using job by (elim conjE disjE exE) (use Inr in simp, blast)
    have failures: "failures = []" and c: "c = next_id" using f(1) Inr by (auto split: if_splits)
    have calls: "applied v = applied w @ map (folderCall tables org ?s plan (w_users v)) (?root @ written)"
      and ready: "\<forall>i \<in> set (?root @ written). ready org ?s plan (w_users v) i"
      using f(2,3) unfolding failures by simp_all
    show ?thesis
    proof (cases next_id)
      case None
      then have "written = ?rem" using nxt unfolding chunk(2) [symmetric] by (simp add: chunk(1))
      moreover have "r = Inr (Some ()) \<and> w' = v"
        using Suc.prems(2) one Inr c None by simp
      ultimately show ?thesis using calls ready kept by simp
    next
      case (Some l)
      have run: "applyJobs n (logging e) tables org (payload\<lparr>ap_after := Some l\<rparr>) v = (r, w')"
        using Suc.prems(2) one Inr c Some by simp
      have rem: "remainingOf (order_by (<) cs) (Some l) = drop APPLY_CHUNK ?rem" "APPLY_CHUNK < length ?rem"
        using nxt unfolding chunk(2) [symmetric] Some by simp_all
      have "w_entries v = db" using kept Suc.prems(1) by (simp add: only_grown_def)
      moreover have "length (remainingOf (order_by (<) cs) (Some l)) < n * APPLY_CHUNK"
        using Suc.prems(3) rem by simp
      ultimately consider "\<exists>err. r = Inl err" | "r = Inr (Some ())" "only_grown v w'"
        "applied w' = applied v @ map (folderCall tables org ?s plan (w_users w')) (drop APPLY_CHUNK ?rem)"
        "\<forall>i \<in> set (drop APPLY_CHUNK ?rem). ready org ?s plan (w_users w') i"
        using Suc.IH [OF _ run] rem(1) by auto
      then show ?thesis
      proof cases
        case 2
        have grow: "grown (w_users v) (w_users w')" using 2(2) by (simp add: only_grown_def)
        have same: "map (folderCall tables org ?s plan (w_users v)) (?root @ written)
            = map (folderCall tables org ?s plan (w_users w')) (?root @ written)"
          using call_grown [OF _ grow] ready by (intro map_cong [OF refl]) blast
        have "applied w' = applied w @ map (folderCall tables org ?s plan (w_users w')) ((?root @ written) @ drop APPLY_CHUNK ?rem)"
          unfolding 2(3) calls same by simp
        moreover have "written @ drop APPLY_CHUNK ?rem = ?rem" by (simp add: chunk(1))
        moreover have "\<forall>i \<in> set (written @ drop APPLY_CHUNK ?rem). ready org ?s plan (w_users w') i"
          using ready ready_grown [OF _ grow] 2(4) by auto
        ultimately show ?thesis using 2(1) only_grown_trans [OF kept 2(2)] by simp
      qed simp
    qed
  qed
qed

section \<open>The calls a job makes\<close>

lemma applyAcl_no_plan:
  assumes "aclPlan tables org payload (w_entries w) = Inl err" and "applyAcl (logging e) tables org payload w = (r, w')"
  shows "(r = Inl err \<or> (\<exists>lost. r = Inl (PlanUnavailable lost))) \<and> applied w' = applied w"
proof -
  obtain q v where tx: "withTenant (\<lambda>w. Inr (aclPlan tables org payload (w_entries w), w)) w = (q, v)" by fastforce
  from tx show ?thesis
  proof (cases rule: withTenant_cases)
    case (failed lost)
    then show ?thesis using assms(2) tx by (auto simp: applyAcl_def applied_def)
  next
    case (ran v' a)
    then have "a = Inl err" "w_disk v = w_disk w" using assms(1) by auto
    then show ?thesis using assms(2) tx ran(2) by (simp add: applyAcl_def applied_def)
  qed
qed

text \<open>
  C32. One job, against an agent that may answer anything and a database that may fail at any statement:
  if it returns, the agent has confirmed exactly one \<open>apply_folder_acl\<close> for every folder the job is
  responsible for, in order and nothing else, with the numbers of everybody a grant names. If some folders
  could not be written, it fails with how many of how many and names the first five of them, and the agent
  has confirmed all the others. If it could not read the tables, or they give no plan, it has applied nothing.
\<close>

theorem job_applies_its_folders:
  assumes "wf_tree (w_entries w)" and "ap_share payload \<notin> fe_id ` set (w_entries w)"
    and "applyAcl (logging e) tables org payload w = (r, w')"
  shows "(\<exists>err. ((\<exists>lost. err = PlanUnavailable lost) \<or> aclPlan tables org payload (w_entries w) = Inl err) \<and> r = Inl err
         \<and> applied w' = applied w)
    \<or> (\<exists>plan. aclPlan tables org payload (w_entries w) = Inr plan
       \<and> (r = Inr (fs_next (pl_folders plan))
          \<and> applied w' = applied w @ map (folderCall tables org (ap_share payload) plan (w_users w')) (targetsOf payload plan)
          \<and> (\<forall>i \<in> set (targetsOf payload plan). ready org (ap_share payload) plan (w_users w') i)
        \<or> (\<exists>failures. failures \<noteq> [] \<and> distinct (map fst failures) \<and> fst ` set failures \<subseteq> set (targetsOf payload plan)
          \<and> r = Inl (NotApplied (length failures) (length (targetsOf payload plan)) (take 5 failures))
          \<and> applied w' = applied w @ map (folderCall tables org (ap_share payload) plan (w_users w'))
               (filter (\<lambda>i. i \<notin> fst ` set failures) (targetsOf payload plan)))))"
proof (cases "aclPlan tables org payload (w_entries w)")
  case (Inl err)
  then show ?thesis using applyAcl_no_plan [OF Inl assms(3)] by auto
next
  case (Inr plan)
  note job = applyAcl_logged [OF assms(1,2) Inr assms(3)]
  consider err where "r = Inl (PlanUnavailable err)" "applied w' = applied w"
    | failures where "r = (if failures = [] then Inr (fs_next (pl_folders plan))
          else Inl (NotApplied (length failures) (length (targetsOf payload plan)) (take 5 failures)))"
        "distinct (map fst failures)" "fst ` set failures \<subseteq> set (targetsOf payload plan)"
        "applied w' = applied w @ map (folderCall tables org (ap_share payload) plan (w_users w'))
            (filter (\<lambda>i. i \<notin> fst ` set failures) (targetsOf payload plan))"
        "\<forall>i \<in> set (targetsOf payload plan). i \<notin> fst ` set failures \<longrightarrow>
            ready org (ap_share payload) plan (w_users w') i"
    using job by blast
  then show ?thesis
  proof cases
    case 2
    then show ?thesis using Inr by (cases "failures = []") auto
  qed blast
qed

lemma scope_call:
  assumes wf: "wf_tree db" "s \<notin> fe_id ` set db" and plan: "aclPlan tables org payload db = Inr plan"
    and s: "s = ap_share payload" and r: "inScope db org payload r"
  shows "\<exists>rs. lineage (in_share org s db) (Some (fe_id r)) (r # rs) \<and> pathOf s plan (fe_id r) = rev (map fe_name (r # rs))"
proof -
  note loaded = loaded_all [OF wf(1) aclPlan_parts(1) [OF plan]]
  obtain rs where rs: "lineage (in_share org s db) (Some (fe_id r)) (r # rs)"
    using wf_tree_lineage [OF wf(1), of r] r s by (auto simp: inScope_def)
  then have "loadedAs r rs \<in> set (fs_all (pl_folders plan))"
    using loaded(1) r s by (auto simp: inScope_def)
  from partsIn_row [OF loaded(2) this, of s] show ?thesis
    using rs by (auto simp: pathOf_def)
qed

text \<open>The candidates of a plan, in their order, are the rows of the folders in scope.\<close>

lemma scope_rows:
  assumes wf: "wf_tree db" and plan: "aclPlan tables org payload db = Inr plan"
  defines "ids \<equiv> order_by (<) (candidatesOf (fs_all (pl_folders plan)) (ap_entry payload))"
  obtains rows where "map fe_id rows = ids" and "set rows = {f. inScope db org payload f}" and "sorted_wrt (<) ids"
    and "length ids \<le> length db"
proof -
  let ?cs = "candidatesOf (fs_all (pl_folders plan)) (ap_entry payload)"
  note fs = aclPlan_parts(1) [OF plan]
  have cs: "distinct ?cs" "set ?cs = fe_id ` {f. inScope db org payload f}"
    using candidates_distinct loaded_all(2) [OF wf fs] scope_candidates [OF wf fs] by blast+
  have at: "row_at db (fe_id f) = Some f" if "inScope db org payload f" for f
    using row_at_eq [of db f] wf that by (simp add: wf_tree_def inScope_def)
  have row: "the (row_at db i) \<in> {f. inScope db org payload f} \<and> fe_id (the (row_at db i)) = i" if "i \<in> set ?cs" for i
    using that cs(2) at by auto
  let ?rows = "map (\<lambda>i. the (row_at db i)) ids"
  have "map fe_id ?rows = ids" unfolding map_map by (rule map_idI) (simp add: row ids_def)
  moreover have "set ?rows = {f. inScope db org payload f}"
  proof (intro set_eqI iffI)
    fix f assume f: "f \<in> {f. inScope db org payload f}"
    then have "fe_id f \<in> set ids" using cs(2) by (auto simp: ids_def)
    then show "f \<in> set ?rows" using at f by (auto intro!: image_eqI [of _ _ "fe_id f"])
  qed (use row in \<open>auto simp: ids_def\<close>)
  moreover have "sorted_wrt (<) ids" using id_order.sorted_order_by [of ?cs] cs(1) by (simp add: ids_def)
  moreover have "length ids \<le> length db"
  proof -
    have "length ids = card (set ?cs)" using distinct_card [OF cs(1)] by (simp add: ids_def)
    also have "\<dots> \<le> card (fe_id ` set db)" using cs(2) by (intro card_mono) (auto simp: inScope_def)
    also have "\<dots> \<le> length db" using card_length [of "map fe_id db"] by simp
    finally show ?thesis .
  qed
  ultimately show ?thesis by (rule that)
qed

text \<open>
  C33. The chain of jobs that one payload starts comes to an end, at the latest with the job that has room
  for the folders left; and when none of them fails, every folder in the scope of the payload (the whole
  share, or the named folder and everything below it; binned folders too) has been written exactly once,
  in the order of the ids, at the path its names give, and the share root first when the payload names it.
\<close>

theorem chain_writes_every_folder_once:
  assumes "wf_tree (w_entries w)" and "ap_share payload \<notin> fe_id ` set (w_entries w)"
    and "aclPlan tables org payload (w_entries w) = Inr plan" and "ap_after payload = None"
    and "applyJobs n (logging e) tables org payload w = (r, w')"
    and "length (w_entries w) < n * APPLY_CHUNK"
  shows "(\<exists>err. r = Inl err) \<or> (r = Inr (Some ()) \<and> (\<exists>rows.
      sorted_wrt (<) (map fe_id rows) \<and> set rows = {f. inScope (w_entries w) org payload f}
      \<and> applied w' = applied w
          @ map (folderCall tables org (ap_share payload) plan (w_users w'))
              ((if ap_entry payload = None then [ap_share payload] else []) @ map fe_id rows)
      \<and> (\<forall>f \<in> set rows. ready org (ap_share payload) plan (w_users w') (fe_id f)
          \<and> (\<exists>fs. lineage (in_share org (ap_share payload) (w_entries w)) (Some (fe_id f)) (f # fs)
               \<and> pathOf (ap_share payload) plan (fe_id f) = rev (map fe_name (f # fs))))))"
proof -
  let ?db = "w_entries w"
  let ?ids = "order_by (<) (candidatesOf (fs_all (pl_folders plan)) (ap_entry payload))"
  obtain fr where fr: "map fe_id fr = ?ids" "set fr = {f. inScope ?db org payload f}"
    and sorted: "sorted_wrt (<) ?ids" and few: "length ?ids \<le> length ?db"
    by (rule scope_rows [OF assms(1,3)])
  have rem: "remainingOf ?ids None = ?ids" by (simp add: remainingOf_def)
  then have enough: "length (remainingOf ?ids None) < n * APPLY_CHUNK" using few assms(6) by simp
  have first: "(if ap_entry payload = None \<and> None = (None :: id option) then [ap_share payload] else [])
      = (if ap_entry payload = None then [ap_share payload] else [])" by simp
  have "payload\<lparr>ap_after := None\<rparr> = payload" using assms(4) by simp
  then have run: "applyJobs n (logging e) tables org (payload\<lparr>ap_after := None\<rparr>) w = (r, w')"
    using assms(5) by (simp only:)
  note chain = applyJobs_logged [OF assms(1,2,3) refl refl run enough, unfolded rem first]
  have paths: "\<exists>fs. lineage (in_share org (ap_share payload) ?db) (Some (fe_id f)) (f # fs)
      \<and> pathOf (ap_share payload) plan (fe_id f) = rev (map fe_name (f # fs))" if "f \<in> set fr" for f
    using scope_call [OF assms(1,2,3) refl] that fr(2) by blast
  from chain consider "\<exists>err. r = Inl err" | "r = Inr (Some ())"
    "applied w' = applied w @ map (folderCall tables org (ap_share payload) plan (w_users w'))
       ((if ap_entry payload = None then [ap_share payload] else []) @ ?ids)"
    "\<forall>i \<in> set ?ids. ready org (ap_share payload) plan (w_users w') i" by blast
  then show ?thesis
  proof cases
    case 2
    have "ready org (ap_share payload) plan (w_users w') (fe_id f)" if "f \<in> set fr" for f
    proof -
      have "fe_id f \<in> set (map fe_id fr)" using that by simp
      then show ?thesis using 2(3) unfolding fr(1) by blast
    qed
    moreover have "sorted_wrt (<) (map fe_id fr)" unfolding fr(1) by (rule sorted)
    moreover have "applied w' = applied w @ map (folderCall tables org (ap_share payload) plan (w_users w'))
       ((if ap_entry payload = None then [ap_share payload] else []) @ map fe_id fr)"
      unfolding fr(1) by (rule 2(2))
    ultimately show ?thesis
      using 2(1) fr(2) paths by (intro disjI2 conjI exI [of _ fr]) blast+
  qed simp
qed

section \<open>A concrete run\<close>

definition ex_acl_env :: "unit env" where
  "ex_acl_env = \<lparr>env_call = (\<lambda>req d. (Inr (case req of ApplyFolderAcl _ _ _ \<Rightarrow> AclApplied | _ \<Rightarrow> ShareRootSecured), d)),
     env_pg = ex_pg, env_id = (\<lambda>n. [])\<rparr>"

definition ex_acl_world :: "(unit \<times> call_log) world" where
  "ex_acl_world = \<lparr>w_entries = db_entries ex_access, w_uploads = [], w_users = [], w_gids = [300007], w_retired = [],
     w_queue = [], w_seq = 0, w_now = 0, w_faults = [], w_disk = ((), [])\<rparr>"

lemma ex_acl_entries: "w_entries ex_acl_world = db_entries ex_access"
  by (simp add: ex_acl_world_def)

lemma ex_acl_share: "ap_share ex_payload \<notin> fe_id ` set (db_entries ex_access)"
  by (simp add: ex_payload_def ex_access_def ex_rows)

lemma ex_resolved:
  "resolvedFor ''s'' ex_plan ''s'' = Some [\<lparr>re_principal = Team ''t'', re_read = True, re_write = True, re_execute = True\<rparr>]"
  "resolvedFor ''s'' ex_plan ''e1'' = Some [\<lparr>re_principal = Team ''t'', re_read = True, re_write = True, re_execute = True\<rparr>]"
  "resolvedFor ''s'' ex_plan ''e2'' = Some [\<lparr>re_principal = Team ''t'', re_read = True, re_write = False, re_execute = True\<rparr>]"
  by (simp_all add: resolvedFor_def ex_plan_def ex_access_def aclGrantStep_def principalsIn_def aclKeyOf_def unkey_def
      parentsOf_def aclChainTo_def grantsOn_def aclFor_def nearestGrant_def grantFor_def List.map_filter_simps
      parsePermission_def PERMISSIONS_def sortPermissions_def)

lemma ex_payload_after: "ap_after ex_payload = None" "ap_share ex_payload = ''s''" "ap_entry ex_payload = None"
  by (simp_all add: ex_payload_def)

lemma ex_targets: "targetsOf ex_payload ex_plan = [''s'', ''e1'', ''e2'']"
  by (simp add: targetsOf_def ex_payload_after) (simp add: ex_plan_def)

lemma ex_acl_run:
  obtains w' where "applyAcl (logging ex_acl_env) ex_tables ''o'' ex_payload ex_acl_world = (Inr None, w')"
proof -
  have gid: "gidFor ex_tables ''o'' (Team ''t'') w = (Inr (Some 300007), w)" if "w_faults w = []" for w :: "(unit \<times> call_log) world"
    using that by (simp add: gidFor_def withTenant_def ex_tables_def)
  have one: "\<exists>w'. applyOne (logging ex_acl_env) ex_tables ''o'' ''team'' p [\<lparr>re_principal = Team ''t'', re_read = a, re_write = b, re_execute = c\<rparr>] w
      = (Inr (), w') \<and> w_faults w' = []" if "w_faults w = []" for p a b c w
    using that by (auto simp: applyOne_def seqE_def gid agent_call_def logging_def ex_acl_env_def split: prod.splits)
  have all: "\<exists>w'. applyTargets (logging ex_acl_env) ex_tables ''o'' ''s'' ex_plan ts w = ([], w')"
    if "w_faults w = []" "set ts \<subseteq> {''s'', ''e1'', ''e2''}" for ts w
    using that
  proof (induction ts arbitrary: w)
    case (Cons i ts)
    obtain a b c where r: "resolvedFor ''s'' ex_plan i = Some [\<lparr>re_principal = Team ''t'', re_read = a, re_write = b, re_execute = c\<rparr>]"
      using Cons.prems(2) ex_resolved by auto
    have "pl_share ex_plan = ''team''" by (simp add: ex_plan_def)
    then obtain v where "applyOne (logging ex_acl_env) ex_tables ''o'' (pl_share ex_plan)
        (case partsIn ''s'' (fs_all (pl_folders ex_plan)) i of None \<Rightarrow> [] | Some ps \<Rightarrow> ps)
        [\<lparr>re_principal = Team ''t'', re_read = a, re_write = b, re_execute = c\<rparr>] w = (Inr (), v)" "w_faults v = []"
      using one [OF Cons.prems(1)] by metis
    then show ?case using Cons.IH [of v] Cons.prems(2) r by simp
  qed simp
  have start: "w_faults (snd (secureRoot (logging ex_acl_env) (pl_share ex_plan) ex_acl_world)) = []"
    by (simp add: secureRoot_def seqE_def catchE_def agent_call_def logging_def ex_acl_env_def ex_acl_world_def)
  have "set [''s'', ''e1'', ''e2''] \<subseteq> {''s'', ''e1'', ''e2''}" by simp
  from all [OF start this] obtain w' where "applyTargets (logging ex_acl_env) ex_tables ''o'' ''s'' ex_plan [''s'', ''e1'', ''e2'']
      (snd (secureRoot (logging ex_acl_env) (pl_share ex_plan) ex_acl_world)) = ([], w')"
    by blast
  moreover have "w_faults ex_acl_world = []" "fs_next (pl_folders ex_plan) = None"
    by (simp_all add: ex_acl_world_def ex_plan_def)
  ultimately have "applyAcl (logging ex_acl_env) ex_tables ''o'' ex_payload ex_acl_world = (Inr None, w')"
    using ex_aclPlan
    by (simp del: applyTargets.simps add: applyAcl_def withTenant_def ex_acl_entries ex_targets ex_payload_after)
  then show ?thesis by (rule that)
qed

lemmas ex_job = ex_wf_tree [folded ex_acl_entries] ex_acl_share [folded ex_acl_entries] ex_aclPlan [folded ex_acl_entries]

theorem job_applies_its_folders_witness:
  "\<exists>w'. applyAcl (logging ex_acl_env) ex_tables ''o'' ex_payload ex_acl_world = (Inr None, w')
     \<and> applied w' = map (folderCall ex_tables ''o'' ''s'' ex_plan (w_users w')) [''s'', ''e1'', ''e2'']"
proof -
  obtain w' where run: "applyAcl (logging ex_acl_env) ex_tables ''o'' ex_payload ex_acl_world = (Inr None, w')"
    by (rule ex_acl_run)
  have "applied ex_acl_world = []" by (simp add: applied_def ex_acl_world_def List.map_filter_simps)
  then show ?thesis
    using run job_applies_its_folders [OF ex_job(1,2) run] ex_job(3) unfolding ex_payload_after by (auto simp: ex_targets)
qed

theorem chain_writes_every_folder_once_witness:
  "\<exists>w' rows. applyJobs 1 (logging ex_acl_env) ex_tables ''o'' ex_payload ex_acl_world = (Inr (Some ()), w')
     \<and> set rows = {f. inScope (db_entries ex_access) ''o'' ex_payload f}
     \<and> applied w' = map (folderCall ex_tables ''o'' ''s'' ex_plan (w_users w')) (''s'' # map fe_id rows)"
proof -
  obtain w' where one: "applyAcl (logging ex_acl_env) ex_tables ''o'' ex_payload ex_acl_world = (Inr None, w')"
    by (rule ex_acl_run)
  then have run: "applyJobs 1 (logging ex_acl_env) ex_tables ''o'' ex_payload ex_acl_world = (Inr (Some ()), w')"
    by simp
  have enough: "length (w_entries ex_acl_world) < 1 * APPLY_CHUNK"
    by (simp add: ex_acl_entries ex_access_def APPLY_CHUNK_def)
  have "applied ex_acl_world = []" by (simp add: applied_def ex_acl_world_def List.map_filter_simps)
  then show ?thesis
    using run chain_writes_every_folder_once [OF ex_job ex_payload_after(1) run enough]
    unfolding ex_payload_after ex_acl_entries by auto
qed

end
