(* ===== verification/AclBits.thy ===== *)
theory AclBits
  imports AclJobs
begin

text \<open>
  What reaches the filesystem against what the service enforces: the entries of a confirmed call carry numbers,
  not principals, and a team without a number has no entry. The numbers are told apart by \<open>posix_ok\<close>, which is
  what \<open>Posix\<close> proves of every run of the identity service.
\<close>

section \<open>A number names one principal\<close>

text \<open>The numbers of the teams are those of the tables of \<open>Posix\<close>.\<close>

definition teamNumbers :: "acl_tables \<Rightarrow> nat list \<Rightarrow> bool" where
  "teamNumbers tables gids \<longleftrightarrow> distinct (List.map_filter tr_gid (at_teams tables))
     \<and> set (List.map_filter tr_gid (at_teams tables)) \<subseteq> set gids"

lemma gidIn_row:
  assumes "gidIn tables org users p = Some n"
  shows "(case p of
      User u \<Rightarrow> \<exists>v \<in> set users. account v = (org, u) \<and> pu_uid v = Some n
    | Team t \<Rightarrow> \<exists>r \<in> set (at_teams tables). tr_id r = t \<and> tr_gid r = Some n)"
  using assms by (cases p) (auto simp: gidIn_def split: option.splits dest: uid_of_row dest!: find_eq_Some_ex)

lemma own_number:
  assumes ok: "posix_ok users gids" and teams: "teamNumbers tables gids"
    and p: "gidIn tables org users p = Some n" and q: "gidIn tables org users q = Some n"
  shows "p = q"
proof -
  have d: "distinct (List.map_filter pu_uid users)" "set (List.map_filter pu_uid users) \<inter> set gids = {}"
    using ok by (auto simp: posix_ok_def ids_in_use_def)
  have t: "distinct (List.map_filter tr_gid (at_teams tables))" "set (List.map_filter tr_gid (at_teams tables)) \<subseteq> set gids"
    using teams by (simp_all add: teamNumbers_def)
  have apart: False if "v \<in> set users" "pu_uid v = Some n" "r \<in> set (at_teams tables)" "tr_gid r = Some n" for v r
    using that d(2) t(2) by (auto simp: set_map_filter)
  show ?thesis
  proof (cases p; cases q)
    fix u u' assume pq: "p = User u" "q = User u'"
    obtain v v' where "v \<in> set users" "account v = (org, u)" "pu_uid v = Some n"
      "v' \<in> set users" "account v' = (org, u')" "pu_uid v' = Some n"
      using gidIn_row [OF p] gidIn_row [OF q] pq by auto
    then show "p = q" using distinct_map_filter_unique [OF d(1), of v v' n] pq by simp
  next
    fix a b assume pq: "p = Team a" "q = Team b"
    obtain r r' where "r \<in> set (at_teams tables)" "tr_id r = a" "tr_gid r = Some n"
      "r' \<in> set (at_teams tables)" "tr_id r' = b" "tr_gid r' = Some n"
      using gidIn_row [OF p] gidIn_row [OF q] pq by auto
    then show "p = q" using distinct_map_filter_unique [OF t(1), of r r' n] pq by simp
  next
    fix u b assume "p = User u" "q = Team b"
    then show "p = q" using gidIn_row [OF p] gidIn_row [OF q] apart by auto
  next
    fix a u assume "p = Team a" "q = User u"
    then show "p = q" using gidIn_row [OF p] gidIn_row [OF q] apart by auto
  qed
qed

text \<open>The entries of a call that a member falls under.\<close>

definition theirs :: "acl_tables \<Rightarrow> id \<Rightarrow> PosixUser list \<Rightarrow> Principal list \<Rightarrow> AclEntry list \<Rightarrow> AclEntry list" where
  "theirs tables org users us entries =
     filter (\<lambda>ae. Some (ae_gid ae) \<in> gidIn tables org users ` set us) entries"

lemma theirs_entries:
  assumes own: "\<And>p q n. gidIn tables org users p = Some n \<Longrightarrow> gidIn tables org users q = Some n \<Longrightarrow> p = q"
    and bit: "\<And>en ae. entryIn tables org users en = Some ae \<Longrightarrow> F ae \<longleftrightarrow> G en"
  shows "(\<exists>ae \<in> set (theirs tables org users us (List.map_filter (entryIn tables org users) es)). F ae)
    \<longleftrightarrow> (\<exists>en \<in> set es. re_principal en \<in> set us \<and> gidIn tables org users (re_principal en) \<noteq> None \<and> G en)"
proof -
  have number: "gidIn tables org users (re_principal en) = Some (ae_gid ae)" if "entryIn tables org users en = Some ae" for en ae
    using that by (auto simp: entryIn_def)
  have mine: "Some (ae_gid ae) \<in> gidIn tables org users ` set us \<longleftrightarrow> re_principal en \<in> set us"
    if "entryIn tables org users en = Some ae" for en ae
    using number [OF that] own by (metis (no_types, lifting) image_iff)
  have some: "gidIn tables org users (re_principal en) \<noteq> None \<longleftrightarrow> (\<exists>ae. entryIn tables org users en = Some ae)" for en
    by (simp add: entryIn_def)
  have "ae \<in> set (theirs tables org users us (List.map_filter (entryIn tables org users) es)) \<and> F ae
      \<longleftrightarrow> (\<exists>en \<in> set es. entryIn tables org users en = Some ae \<and> re_principal en \<in> set us \<and> G en)" for ae
    unfolding theirs_def by (auto simp: set_map_filter dest: mine bit)
  then show ?thesis unfolding some by blast
qed

section \<open>The calls of a job\<close>

lemma new_call:
  assumes wf: "wf_tree (w_entries w)" "ap_share payload \<notin> fe_id ` set (w_entries w)"
    and run: "applyAcl (logging e) tables org payload w = (r, w')"
    and call: "call \<in> set (drop (length (applied w)) (applied w'))"
  obtains plan i where "aclPlan tables org payload (w_entries w) = Inr plan" and "only_grown w w'"
    and "i \<in> set (targetsOf payload plan)" and "ready org (ap_share payload) plan (w_users w') i"
    and "call = folderCall tables org (ap_share payload) plan (w_users w') i"
proof (cases "aclPlan tables org payload (w_entries w)")
  case (Inl err)
  then show ?thesis using applyAcl_no_plan [OF Inl run] call by simp
next
  case (Inr plan)
  note job = applyAcl_logged [OF wf Inr run]
  then show ?thesis
  proof (elim conjE disjE exE)
    assume "applied w' = applied w"
    then show ?thesis using call by simp
  next
    fix failures
    assume grew: "only_grown w w'"
      and new: "applied w' = applied w @ map (folderCall tables org (ap_share payload) plan (w_users w'))
          (filter (\<lambda>i. i \<notin> fst ` set failures) (targetsOf payload plan))"
      and ready: "\<forall>i \<in> set (targetsOf payload plan). i \<notin> fst ` set failures \<longrightarrow> ready org (ap_share payload) plan (w_users w') i"
    obtain i where i: "i \<in> set (targetsOf payload plan)" "i \<notin> fst ` set failures"
      "call = folderCall tables org (ap_share payload) plan (w_users w') i"
      using call unfolding new by auto
    show ?thesis using ready i(1,2) by (intro that [OF Inr grew i(1) _ i(3)]) blast
  qed
qed

text \<open>Every target is the share root or a folder of the share, written at the path of its names.\<close>

lemma target_node:
  assumes wf: "wf_tree db" "ap_share payload \<notin> fe_id ` set db"
    and plan: "aclPlan tables org payload db = Inr plan" and i: "i \<in> set (targetsOf payload plan)"
  shows "\<exists>node rs. i = nodeOf node (ap_share payload) \<and> lineage (in_share org (ap_share payload) db) node rs
    \<and> (\<forall>r \<in> set rs. fe_kind r = Folder) \<and> pathOf (ap_share payload) plan i = rev (map fe_name rs)"
proof -
  let ?s = "ap_share payload"
  note fs = aclPlan_parts(1) [OF plan]
  note loaded = loaded_all [OF wf(1) fs]
  show ?thesis
  proof (cases "i = ?s")
    case True
    have "?s \<notin> fo_id ` set (fs_all (pl_folders plan))" using loaded(1) wf(2) by (auto simp: image_iff)
    then show ?thesis using True
      by (intro exI [of _ None] exI [of _ "[]"]) (simp add: nodeOf_def pathOf_def partsIn_share)
  next
    case False
    then have "i \<in> set (fs_written (pl_folders plan))" using i by (auto simp: targetsOf_def split: if_splits)
    moreover have "set (fs_written (pl_folders plan)) \<subseteq> set (candidatesOf (fs_all (pl_folders plan)) (ap_entry payload))"
      unfolding written_loaded [OF fs] chunkOf_def by (auto simp: Let_def split: option.split dest: in_set_takeD)
    ultimately have "i \<in> fo_id ` set (fs_all (pl_folders plan))"
      using candidates_distinct [OF loaded(2), of "ap_entry payload"] by blast
    then obtain f where f: "f \<in> set (fs_all (pl_folders plan))" "fo_id f = i" by blast
    then obtain r rs where r: "fe_kind r = Folder" "lineage (in_share org ?s db) (Some (fe_id r)) (r # rs)" "f = loadedAs r rs"
      unfolding loaded(1) by blast
    have "pathOf ?s plan i = rev (map fe_name (r # rs))"
      using partsIn_row [OF loaded(2) f(1), of ?s] f(2) r(3) by (simp add: pathOf_def)
    moreover have "\<forall>x \<in> set (r # rs). fe_kind x = Folder" using lineage_folders [OF wf(1) r(2)] r(1) by simp
    moreover have "i = fe_id r" using f(2) r(3) by simp
    ultimately show ?thesis using r(2)
      by (intro exI [of _ "Some (fe_id r)"] exI [of _ "r # rs"]) (simp add: nodeOf_def)
  qed
qed

text \<open>
  C31. The bits on the filesystem are the permissions the service enforces. Take any call a job has confirmed: it
  writes the share root or a folder, at the path of its names, and of its entries those that carry a number of the
  member or of a team of the member give \<open>r\<close> only if the service lets the member list that folder, \<open>w\<close> only if it lets
  the member create, modify, move or delete in it, and \<open>x\<close> only if it lets the member do any of these, read or
  download. When every team of the member has a number they give exactly that; the entry of a team without one is
  left out, so then they may give less. Administrators aside, whom the service lets do everything without a grant.
\<close>

theorem applied_bits_are_enforced_permissions:
  assumes "wf_access a" and "wf_tree (db_entries a)" and "wf_grants a (ap_share payload)"
    and "\<not> c_admin caller" and "at_grants tables = db_grants a" and "w_entries w = db_entries a"
    and "posix_ok (w_users w) (w_gids w)" and "teamNumbers tables (w_gids w)"
    and "applyAcl (logging e) tables (c_org caller) payload w = (r, w')"
    and "(name, path, entries) \<in> set (drop (length (applied w)) (applied w'))"
    and "mine = theirs tables (c_org caller) (w_users w') (principalsOf (subjectOf a caller)) entries"
  shows "shareName (c_org caller) (ap_share payload) tables = Inr name
    \<and> (\<exists>node rs S. lineage (share_rows a caller (ap_share payload)) node rs \<and> path = rev (map fe_name rs)
       \<and> effectiveAt a caller (ap_share payload) node = Inr S
       \<and> (list_ex ae_read mine \<longrightarrow> PList \<in> S)
       \<and> (list_ex ae_write mine \<longrightarrow> {PCreate, PModify, PMove, PDelete} \<inter> S \<noteq> {})
       \<and> (list_ex ae_execute mine \<longrightarrow> S - {PShare, PManage, PVersions, PAudit} \<noteq> {})
       \<and> ((\<forall>t \<in> set (teamIds (subjectOf a caller)). gidIn tables (c_org caller) (w_users w') (Team t) \<noteq> None) \<longrightarrow>
            (PList \<in> S \<longrightarrow> list_ex ae_read mine)
            \<and> ({PCreate, PModify, PMove, PDelete} \<inter> S \<noteq> {} \<longrightarrow> list_ex ae_write mine)
            \<and> (S - {PShare, PManage, PVersions, PAudit} \<noteq> {} \<longrightarrow> list_ex ae_execute mine)))"
proof -
  let ?s = "ap_share payload" and ?us = "principalsOf (subjectOf a caller)" and ?org = "c_org caller"
  let ?num = "gidIn tables ?org (w_users w')"
  have wf: "wf_tree (w_entries w)" "?s \<notin> fe_id ` set (w_entries w)" using assms(2,3,6) by (simp_all add: wf_grants_def)
  obtain plan i where plan: "aclPlan tables ?org payload (db_entries a) = Inr plan" and grew: "only_grown w w'"
    and i: "i \<in> set (targetsOf payload plan)" and ready: "ready ?org ?s plan (w_users w') i"
    and call: "(name, path, entries) = folderCall tables ?org ?s plan (w_users w') i"
    by (rule new_call [OF wf assms(9,10)]) (simp add: assms(6))
  obtain node rs where node: "i = nodeOf node ?s" "lineage (share_rows a caller ?s) node rs" "pathOf ?s plan i = rev (map fe_name rs)"
    and folders: "\<forall>r \<in> set rs. fe_kind r = Folder"
    using target_node [OF wf [unfolded assms(6)] plan i] unfolding share_rows_def by blast
  have "node = None \<or> (\<exists>r \<in> set (share_rows a caller ?s). fe_kind r = Folder \<and> node = Some (fe_id r))"
    using node(2) folders lineage_rows [OF node(2)] by (cases rs; cases node) auto
  from resolved_bits_are_enforced [OF assms(1-5) plan this]
  obtain S es where S: "effectiveAt a caller ?s node = Inr S" and es: "resolvedFor ?s plan (nodeOf node ?s) = Some es"
    and bits: "PList \<in> S \<longleftrightarrow> (\<exists>en \<in> set es. re_principal en \<in> set ?us \<and> re_read en)"
      "{PCreate, PModify, PMove, PDelete} \<inter> S \<noteq> {} \<longleftrightarrow> (\<exists>en \<in> set es. re_principal en \<in> set ?us \<and> re_write en)"
      "S - {PShare, PManage, PVersions, PAudit} \<noteq> {} \<longleftrightarrow> (\<exists>en \<in> set es. re_principal en \<in> set ?us \<and> re_execute en)"
    by blast
  have sent: "entries = List.map_filter (entryIn tables ?org (w_users w')) es" "name = pl_share plan" "path = rev (map fe_name rs)"
    using call es node(1,3) by (simp_all add: folderCall_def)
  have known: "known ?org (w_users w') es" using ready es node(1) by (simp add: ready_def)
  have own: "p = q" if "?num p = Some n" "?num q = Some n" for p q n
    using own_number [OF _ assms(8) that] grew assms(7) by (simp add: only_grown_def)
  have fields: "ae_read ae = re_read en" "ae_write ae = re_write en" "ae_execute ae = re_execute en"
    if "entryIn tables ?org (w_users w') en = Some ae" for en ae
    using that by (auto simp: entryIn_def)
  have mine: "list_ex F mine \<longleftrightarrow> (\<exists>en \<in> set es. re_principal en \<in> set ?us \<and> ?num (re_principal en) \<noteq> None \<and> G en)"
    if "\<And>en ae. entryIn tables ?org (w_users w') en = Some ae \<Longrightarrow> F ae \<longleftrightarrow> G en" for F G
    unfolding assms(11) sent(1) list_ex_iff by (rule theirs_entries [OF own that])
  have every: "?num (re_principal en) \<noteq> None"
    if "\<forall>t \<in> set (teamIds (subjectOf a caller)). ?num (Team t) \<noteq> None" "en \<in> set es" "re_principal en \<in> set ?us" for en
    using that known by (cases "re_principal en") (auto simp: caller_principal known_def gidIn_def)
  note sentBits = mine [of ae_read re_read, OF fields(1)] mine [of ae_write re_write, OF fields(2)]
    mine [of ae_execute re_execute, OF fields(3)]
  have fewer: "list_ex ae_read mine \<Longrightarrow> PList \<in> S"
    "list_ex ae_write mine \<Longrightarrow> {PCreate, PModify, PMove, PDelete} \<inter> S \<noteq> {}"
    "list_ex ae_execute mine \<Longrightarrow> S - {PShare, PManage, PVersions, PAudit} \<noteq> {}"
    unfolding bits using sentBits by blast+
  have all: "PList \<in> S \<Longrightarrow> list_ex ae_read mine"
    "{PCreate, PModify, PMove, PDelete} \<inter> S \<noteq> {} \<Longrightarrow> list_ex ae_write mine"
    "S - {PShare, PManage, PVersions, PAudit} \<noteq> {} \<Longrightarrow> list_ex ae_execute mine"
    if "\<forall>t \<in> set (teamIds (subjectOf a caller)). ?num (Team t) \<noteq> None"
    unfolding bits using sentBits every [OF that] by blast+
  have "shareName ?org ?s tables = Inr name" using aclPlan_parts(3) [OF plan] sent(2) by simp
  then show ?thesis
    using node(2) sent(3) S 
    by - (intro conjI exI [of _ node] exI [of _ rs] exI [of _ S] impI;
        (assumption | (rule fewer, assumption) | (rule all, assumption, assumption)))
qed

text \<open>The job of \<open>AclJobs\<close>, in which the entry of the member's team reaches the inner folder.\<close>

lemma ex_names: "c_org ex_member = ''o''" "ap_share ex_payload = ''s''" "\<not> c_admin ex_member"
  by (simp_all add: ex_member_def ex_payload_def)

theorem applied_bits_are_enforced_permissions_witness:
  "\<exists>w' entries node S. applyAcl (logging ex_acl_env) ex_tables ''o'' ex_payload ex_acl_world = (Inr None, w')
     \<and> folderCall ex_tables ''o'' ''s'' ex_plan (w_users w') ''e2'' = (''team'', [''docs'', ''private''], entries)
     \<and> effectiveAt ex_access ex_member ''s'' node = Inr S
     \<and> (PList \<in> S \<longleftrightarrow> list_ex ae_read (theirs ex_tables ''o'' (w_users w') [User ''u'', Team ''t''] entries))
     \<and> ({PCreate, PModify, PMove, PDelete} \<inter> S \<noteq> {} \<longleftrightarrow>
         list_ex ae_write (theirs ex_tables ''o'' (w_users w') [User ''u'', Team ''t''] entries))"
proof -
  obtain w' where run: "applyAcl (logging ex_acl_env) ex_tables ''o'' ex_payload ex_acl_world = (Inr None, w')"
    by (rule ex_acl_run)
  have empty: "applied ex_acl_world = []" by (simp add: applied_def ex_acl_world_def List.map_filter_simps)
  have "applied w' = map (folderCall ex_tables ''o'' ''s'' ex_plan (w_users w')) [''s'', ''e1'', ''e2'']"
    using applyAcl_logged [OF ex_job run] unfolding ex_payload_after by (auto simp: empty ex_targets split: if_splits)
  moreover obtain entries where call: "folderCall ex_tables ''o'' ''s'' ex_plan (w_users w') ''e2'' = (''team'', [''docs'', ''private''], entries)"
    by (simp add: folderCall_def pathOf_def partsIn_def ex_plan_def)
  ultimately have sent: "(''team'', [''docs'', ''private''], entries) \<in> set (drop (length (applied ex_acl_world)) (applied w'))"
    by (simp add: empty)
  have numbers: "posix_ok (w_users ex_acl_world) (w_gids ex_acl_world)" "teamNumbers ex_tables (w_gids ex_acl_world)"
    by (simp_all add: ex_acl_world_def posix_ok_def ids_in_use_def teamNumbers_def ex_tables_def List.map_filter_simps)
  have grants: "at_grants ex_tables = db_grants ex_access" by (simp add: ex_tables_def)
  have us: "principalsOf (subjectOf ex_access ex_member) = [User ''u'', Team ''t'']" "teamIds (subjectOf ex_access ex_member) = [''t'']"
    by (rule ex_principals) (simp add: subjectOf_def ex_access_def ex_member_def)
  have team: "gidIn ex_tables ''o'' (w_users w') (Team ''t'') \<noteq> None" by (simp add: gidIn_def ex_tables_def)
  note ex_facts = ex_wf_access ex_wf_tree ex_wf_grants ex_names(3) grants ex_acl_entries numbers run sent refl
  obtain node S where "effectiveAt ex_access ex_member ''s'' node = Inr S"
    "PList \<in> S \<longleftrightarrow> list_ex ae_read (theirs ex_tables ''o'' (w_users w') [User ''u'', Team ''t''] entries)"
    "{PCreate, PModify, PMove, PDelete} \<inter> S \<noteq> {} \<longleftrightarrow>
       list_ex ae_write (theirs ex_tables ''o'' (w_users w') [User ''u'', Team ''t''] entries)"
    using applied_bits_are_enforced_permissions [of ex_access ex_payload ex_member ex_tables ex_acl_world ex_acl_env "Inr None" w'
        "''team''" "[''docs'', ''private'']" entries, unfolded ex_names us, OF ex_facts] team
    by (elim conjE exE) (simp only: list.set ball_simps simp_thms, blast)
  then show ?thesis using run call by (intro exI conjI)
qed

end
