(* ===== verification/Totp.thy ===== *)
theory Totp
  imports Text "HOL-Library.Word"
begin

unbundle bit_operations_syntax

text \<open>
  \<open>apps/api/src/auth/totp.ts\<close>: one-time codes and the base32 text that carries their secret. A buffer is
  a list of 8-bit words; JavaScript's \<open><<\<close>, \<open>>>>\<close>, \<open>|\<close> and \<open>&\<close> work on 32 bits, so a value they touch is a
  32-bit word and wraps where the code's does. HMAC is Node's: an argument. A text that comes from a
  client is the list of its UTF-16 code units.
\<close>

type_synonym buffer = "8 word list"

type_synonym units = "nat list"

type_synonym hmac = "buffer \<Rightarrow> buffer \<Rightarrow> buffer"

definition unitsOf :: "string \<Rightarrow> units" where
  "unitsOf s = map of_char s"

text \<open>What \<open>\s\<close> and \<open>trim\<close> take for white space.\<close>

definition isSpace :: "nat \<Rightarrow> bool" where
  "isSpace c = (c \<in> {9, 10, 11, 12, 13, 32, 160, 5760, 8232, 8233, 8239, 8287, 12288, 65279}
     \<or> (8192 \<le> c \<and> c \<le> 8202))"

definition isDigit :: "nat \<Rightarrow> bool" where
  "isDigit c = (48 \<le> c \<and> c \<le> 57)"

text \<open>\<open>toUpperCase\<close>, as far as a character class of ASCII letters can tell: besides \<open>a\<close> to \<open>z\<close> these are
  all the characters whose upper case consists of ASCII letters.\<close>

definition upperUnit :: "nat \<Rightarrow> units" where
  "upperUnit c =
     (if 97 \<le> c \<and> c \<le> 122 then [c - 32]
      else if c = 305 then [73] else if c = 383 then [83] else if c = 223 then [83, 83]
      else if c = 64256 then [70, 70] else if c = 64257 then [70, 73] else if c = 64258 then [70, 76]
      else if c = 64259 then [70, 70, 73] else if c = 64260 then [70, 70, 76]
      else if c = 64261 \<or> c = 64262 then [83, 84] else [c])"

definition toUpperCase :: "units \<Rightarrow> units" where
  "toUpperCase cs = concat (map upperUnit cs)"

section \<open>Codes\<close>

definition PERIOD_SECONDS :: int where
  "PERIOD_SECONDS = 30"

definition DIGITS :: nat where
  "DIGITS = 6"

definition DEFAULT_WINDOW :: int where
  "DEFAULT_WINDOW = 1"

datatype totp_error = CounterOutOfRange int | EmptyDigest | DigestTooShort | NotBase32

text \<open>\<open>writeBigUInt64BE\<close>.\<close>

definition writeBigUInt64BE :: "int \<Rightarrow> totp_error + buffer" where
  "writeBigUInt64BE counter =
     (if counter < 0 \<or> counter \<ge> 2 ^ 64 then Inl (CounterOutOfRange counter)
      else Inr (map (\<lambda>i. word_of_int (drop_bit (8 * (7 - i)) counter)) [0..<8]))"

definition padStart :: "nat \<Rightarrow> char \<Rightarrow> string \<Rightarrow> string" where
  "padStart n c s = replicate (n - length s) c @ s"

text \<open>RFC 4226's dynamic truncation.\<close>

definition truncateDigest :: "buffer \<Rightarrow> totp_error + 32 word" where
  "truncateDigest digest =
     (if digest = [] then Inl EmptyDigest
      else let offset = unat (last digest AND 15)
           in if length digest \<le> offset + 3 then Inl DigestTooShort
              else Inr (push_bit 24 (ucast (digest ! offset AND 0x7f))
                        OR push_bit 16 (ucast (digest ! (offset + 1)))
                        OR push_bit 8 (ucast (digest ! (offset + 2)))
                        OR ucast (digest ! (offset + 3))))"

definition totp :: "hmac \<Rightarrow> buffer \<Rightarrow> int \<Rightarrow> totp_error + string" where
  "totp hmac secret unixSeconds =
     bindE (writeBigUInt64BE (unixSeconds div PERIOD_SECONDS)) (\<lambda>message.
     bindE (truncateDigest (hmac secret message)) (\<lambda>binary.
     Inr (padStart DIGITS (CHR ''0'') (decimal (unat binary mod 10 ^ DIGITS)))))"

text \<open>The loop over the window does not stop at a match: the last one counts.\<close>

fun verifyLoop :: "hmac \<Rightarrow> buffer \<Rightarrow> units \<Rightarrow> int \<Rightarrow> int list \<Rightarrow> int option \<Rightarrow> totp_error + int option" where
  "verifyLoop hmac secret supplied unixSeconds [] matched = Inr matched"
| "verifyLoop hmac secret supplied unixSeconds (step # steps) matched =
     bindE (totp hmac secret (unixSeconds + step * PERIOD_SECONDS)) (\<lambda>expected.
     verifyLoop hmac secret supplied unixSeconds steps
       (if unitsOf expected = supplied then Some step else matched))"

definition verifyTotp :: "hmac \<Rightarrow> buffer \<Rightarrow> units \<Rightarrow> int \<Rightarrow> totp_error + int option" where
  "verifyTotp hmac secret code unixSeconds =
     (let candidate = filter (\<lambda>c. \<not> isSpace c) code in
      if \<not> (length candidate = DIGITS \<and> list_all isDigit candidate) then Inr None
      else verifyLoop hmac secret candidate unixSeconds [- DEFAULT_WINDOW..DEFAULT_WINDOW] None)"

section \<open>Base 32\<close>

definition ALPHABET :: string where
  "ALPHABET = ''ABCDEFGHIJKLMNOPQRSTUVWXYZ234567''"

text \<open>The inner \<open>while\<close>: characters for the whole groups of five bits, and the number of bits left.\<close>

fun emitGroups :: "nat \<Rightarrow> 32 word \<Rightarrow> string \<times> nat" where
  "emitGroups bits value =
     (if bits < 5 then ([], bits)
      else case emitGroups (bits - 5) value of
             (cs, left) \<Rightarrow> (ALPHABET ! unat (drop_bit (bits - 5) value AND 31) # cs, left))"

declare emitGroups.simps [simp del]

fun encodeLoop :: "buffer \<Rightarrow> nat \<Rightarrow> 32 word \<Rightarrow> string" where
  "encodeLoop [] bits value = (if bits > 0 then [ALPHABET ! unat (push_bit (5 - bits) value AND 31)] else [])"
| "encodeLoop (byte # rest) bits value =
     (let v = push_bit 8 value OR ucast byte in
      case emitGroups (bits + 8) v of (cs, left) \<Rightarrow> cs @ encodeLoop rest left v)"

definition base32Encode :: "buffer \<Rightarrow> string" where
  "base32Encode input =
     (let output = encodeLoop input 0 0
      in output @ replicate ((8 - length output mod 8) mod 8) (CHR ''=''))"

fun indexOf :: "'a \<Rightarrow> 'a list \<Rightarrow> nat option" where
  "indexOf c [] = None"
| "indexOf c (x # xs) = (if x = c then Some 0 else map_option Suc (indexOf c xs))"

fun decodeLoop :: "units \<Rightarrow> nat \<Rightarrow> 32 word \<Rightarrow> totp_error + buffer" where
  "decodeLoop [] bits value = Inr []"
| "decodeLoop (c # rest) bits value =
     (case indexOf c (unitsOf ALPHABET) of
        None \<Rightarrow> Inl NotBase32
      | Some index \<Rightarrow>
          (let v = push_bit 5 value OR of_nat index in
           if bits + 5 \<ge> 8
           then bindE (decodeLoop rest (bits + 5 - 8) v) (\<lambda>bytes.
                  Inr (ucast (drop_bit (bits + 5 - 8) v AND 0xff) # bytes))
           else decodeLoop rest (bits + 5) v))"

text \<open>\<open>replace(/=+$/, '')\<close> and \<open>replace(/\s/g, '')\<close>, in the order of the code.\<close>

definition stripPadding :: "units \<Rightarrow> units" where
  "stripPadding cs = rev (dropWhile (\<lambda>c. c = 61) (rev cs))"

definition base32Decode :: "units \<Rightarrow> totp_error + buffer" where
  "base32Decode input = decodeLoop (filter (\<lambda>c. \<not> isSpace c) (stripPadding (toUpperCase input))) 0 0"

end
