(* ===== verification/TotpProps.thy ===== *)
theory TotpProps
  imports Totp
begin

text \<open>
  Base 32 loses nothing although the code's accumulator wraps at 32 bits: only the bits still waiting
  to be written are ever read. And codes: their shape, and what the window accepts.
\<close>

section \<open>Bits\<close>

text \<open>The low bits of a word, the highest first.\<close>

definition bitsOf :: "nat \<Rightarrow> 'a::len word \<Rightarrow> bool list" where
  "bitsOf k w = map (bit w) (rev [0..<k])"

lemma length_bitsOf [simp]: "length (bitsOf k w) = k"
  by (simp add: bitsOf_def)

lemma bitsOf_nth: "i < k \<Longrightarrow> bitsOf k w ! i = bit w (k - Suc i)"
  by (simp add: bitsOf_def rev_nth)

lemma bitsOf_eq_iff: "bitsOf k v = bitsOf k w \<longleftrightarrow> (\<forall>i < k. bit v i = bit w i)"
  by (auto simp: bitsOf_def)

lemma byte_bits_inject: "bitsOf 8 (b :: 8 word) = bitsOf 8 c \<longleftrightarrow> b = c"
  by (auto simp: bitsOf_eq_iff intro!: bit_word_eqI)

lemma bitsOf_shift:
  fixes v :: "'a::len word"
  assumes "k + n \<le> LENGTH('a)" and "\<And>i. n \<le> i \<Longrightarrow> \<not> bit b i"
  shows "bitsOf (k + n) (push_bit n v OR b) = bitsOf k v @ bitsOf n b"
proof (rule nth_equalityI)
  fix i assume "i < length (bitsOf (k + n) (push_bit n v OR b))"
  then have i: "i < k + n" by simp
  then have "bitsOf (k + n) (push_bit n v OR b) ! i
      = (n \<le> k + n - Suc i \<and> bit v (k + n - Suc i - n) \<or> bit b (k + n - Suc i))"
    using assms(1) by (auto simp: bitsOf_nth bit_or_iff bit_push_bit_iff)
  also have "\<dots> = (bitsOf k v @ bitsOf n b) ! i"
    using i assms(2) by (auto simp: nth_append bitsOf_nth not_less le_diff_conv2 add.commute)
  finally show "bitsOf (k + n) (push_bit n v OR b) ! i = (bitsOf k v @ bitsOf n b) ! i" .
qed simp

lemma bitsOf_drop: "k \<le> n \<Longrightarrow> bitsOf n v = bitsOf (n - k) (drop_bit k v) @ bitsOf k v"
  by (rule nth_equalityI) (auto simp: nth_append bitsOf_nth bit_drop_bit_eq not_less)

section \<open>The alphabet\<close>

lemma alphabet_length [simp]: "length ALPHABET = 32"
  by (simp add: ALPHABET_def)

lemma alphabet_indexOf:
  assumes "n < 32"
  shows "indexOf (of_char (ALPHABET ! n)) (unitsOf ALPHABET) = Some n"
proof -
  have "\<forall>n \<in> set [0..<32]. indexOf (of_char (ALPHABET ! n)) (unitsOf ALPHABET) = Some n"
    by (simp add: ALPHABET_def unitsOf_def upt_rec)
  then show ?thesis using assms by simp
qed

lemma alphabet_plain:
  assumes "n < 32"
  shows "upperUnit (of_char (ALPHABET ! n)) = [of_char (ALPHABET ! n)]" and "\<not> isSpace (of_char (ALPHABET ! n))"
    and "of_char (ALPHABET ! n) \<noteq> (61 :: nat)"
proof -
  have "\<forall>n \<in> set [0..<32]. upperUnit (of_char (ALPHABET ! n)) = [of_char (ALPHABET ! n)]
      \<and> \<not> isSpace (of_char (ALPHABET ! n)) \<and> of_char (ALPHABET ! n) \<noteq> (61 :: nat)"
    by (simp add: ALPHABET_def upperUnit_def isSpace_def upt_rec)
  then show "upperUnit (of_char (ALPHABET ! n)) = [of_char (ALPHABET ! n)]" "\<not> isSpace (of_char (ALPHABET ! n))"
    "of_char (ALPHABET ! n) \<noteq> (61 :: nat)"
    using assms by simp_all
qed

text \<open>The character of an index, and the five bits it stands for.\<close>

definition charOf :: "32 word \<Rightarrow> char" where
  "charOf w = ALPHABET ! unat (w AND 31)"

lemma index_small: "unat (w AND 31 :: 32 word) < 32"
proof -
  have "w AND 31 \<le> 31" by (rule word_and_le1)
  then have "unat (w AND 31) \<le> unat (31 :: 32 word)" by (simp add: word_le_nat_alt)
  then show ?thesis by simp
qed

lemma low_five: "bitsOf 5 (w AND 31 :: 32 word) = bitsOf 5 w"
proof -
  have "w AND 31 = take_bit 5 w"
    by (simp add: take_bit_eq_mask mask_eq_exp_minus_1)
  then show ?thesis by (simp add: bitsOf_eq_iff bit_take_bit_iff)
qed

lemma index_bits: "bitsOf 5 (of_nat (unat (w AND 31)) :: 32 word) = bitsOf 5 (w :: 32 word)"
  by (simp add: low_five)

lemma bitsOf_0: "bitsOf n 0 = replicate n False"
  by (rule nth_equalityI) (simp_all add: bitsOf_nth)

definition carries :: "nat \<Rightarrow> bool list \<Rightarrow> bool" where
  "carries c g \<longleftrightarrow> (\<exists>w. c = of_char (charOf w) \<and> g = bitsOf 5 w)"

lemma carries_index:
  assumes "carries c g"
  obtains n where "indexOf c (unitsOf ALPHABET) = Some n" "bitsOf 5 (of_nat n :: 32 word) = g" "n < 32" "length g = 5"
proof -
  obtain w where w: "c = of_char (charOf w)" "g = bitsOf 5 w" using assms by (auto simp: carries_def)
  show ?thesis
    by (rule that [of "unat (w AND 31)"])
      (simp_all add: w charOf_def alphabet_indexOf index_small low_five)
qed

section \<open>Encoding\<close>

lemma emitGroups_bits:
  "emitGroups bits v = (cs, left) \<Longrightarrow> left < 5 \<and> left \<le> bits
     \<and> (\<exists>gs. list_all2 carries (unitsOf cs) gs \<and> bitsOf bits v = concat gs @ bitsOf left v)"
proof (induction bits v arbitrary: cs rule: emitGroups.induct)
  case (1 bits v)
  show ?case
  proof (cases "bits < 5")
    case True
    then show ?thesis using 1(2) by (simp add: emitGroups.simps [of bits v] unitsOf_def)
  next
    case False
    obtain ds where rec: "emitGroups (bits - 5) v = (ds, left)" "cs = ALPHABET ! unat (drop_bit (bits - 5) v AND 31) # ds"
      using 1(2) False by (auto simp: emitGroups.simps [of bits v] split: prod.splits)
    obtain gs where gs: "list_all2 carries (unitsOf ds) gs" "bitsOf (bits - 5) v = concat gs @ bitsOf left v"
      "left < 5" "left \<le> bits - 5"
      using 1(1) [OF False rec(1)] by blast
    have "carries (of_char (ALPHABET ! unat (drop_bit (bits - 5) v AND 31))) (bitsOf 5 (drop_bit (bits - 5) v))"
      by (auto simp: carries_def charOf_def)
    moreover have "bitsOf bits v = bitsOf 5 (drop_bit (bits - 5) v) @ bitsOf (bits - 5) v"
      using bitsOf_drop [of "bits - 5" bits v] False by simp
    ultimately show ?thesis
      using gs rec(2) by (auto simp: unitsOf_def intro!: exI [of _ "bitsOf 5 (drop_bit (bits - 5) v) # gs"])
  qed
qed

lemma ucast_byte_bits: "bitsOf 8 (ucast (b :: 8 word) :: 32 word) = bitsOf 8 b"
  by (simp add: bitsOf_eq_iff bitsOf_def bit_ucast_iff)

lemma push_byte: "k \<le> 24 \<Longrightarrow> bitsOf (k + 8) (push_bit 8 v OR ucast (b :: 8 word) :: 32 word) = bitsOf k v @ bitsOf 8 b"
  by (subst bitsOf_shift) (auto simp: ucast_byte_bits bit_ucast_iff dest: bit_imp_le_length)

lemma encodeLoop_bits:
  "bits < 5 \<Longrightarrow> \<exists>gs pad. list_all2 carries (unitsOf (encodeLoop xs bits v)) gs \<and> pad < 5
     \<and> concat gs = bitsOf bits v @ concat (map (bitsOf 8) xs) @ replicate pad False"
proof (induction xs arbitrary: bits v)
  case Nil
  show ?case
  proof (cases "bits = 0")
    case True
    then show ?thesis by (intro exI [of _ "[]"] exI [of _ 0]) (simp add: unitsOf_def bitsOf_def)
  next
    case False
    have "bitsOf (bits + (5 - bits)) (push_bit (5 - bits) v OR 0) = bitsOf bits v @ bitsOf (5 - bits) (0 :: 32 word)"
      using Nil by (intro bitsOf_shift) auto
    then have "bitsOf 5 (push_bit (5 - bits) v) = bitsOf bits v @ replicate (5 - bits) False"
      using Nil by (simp add: bitsOf_0)
    then show ?thesis
      using False
      by (intro exI [of _ "[bitsOf 5 (push_bit (5 - bits) v)]"] exI [of _ "5 - bits"])
        (auto simp: unitsOf_def carries_def charOf_def)
  qed
next
  case (Cons b xs)
  let ?v = "push_bit 8 v OR ucast b :: 32 word"
  obtain cs left where emit: "emitGroups (bits + 8) ?v = (cs, left)" by fastforce
  obtain gs where gs: "list_all2 carries (unitsOf cs) gs" "bitsOf (bits + 8) ?v = concat gs @ bitsOf left ?v" "left < 5"
    using emitGroups_bits [OF emit] by blast
  obtain hs pad where hs: "list_all2 carries (unitsOf (encodeLoop xs left ?v)) hs" "pad < 5"
    "concat hs = bitsOf left ?v @ concat (map (bitsOf 8) xs) @ replicate pad False"
    using Cons.IH [OF gs(3)] by blast
  have "bitsOf (bits + 8) ?v = bitsOf bits v @ bitsOf 8 b" using Cons.prems by (intro push_byte) simp
  then show ?case
    using gs hs emit
    by (intro exI [of _ "gs @ hs"] exI [of _ pad]) (auto simp: unitsOf_def Let_def intro: list_all2_appendI)
qed

section \<open>Decoding\<close>

lemma push_five:
  assumes "k \<le> 27" and "n < 32"
  shows "bitsOf (k + 5) (push_bit 5 v OR of_nat n :: 32 word) = bitsOf k v @ bitsOf 5 (of_nat n :: 32 word)"
proof (rule bitsOf_shift)
  fix i :: nat assume "5 \<le> i"
  then have "(2 :: nat) ^ 5 \<le> 2 ^ i" by (rule power_increasing) simp
  then have "n < 2 ^ i" using assms(2) by simp
  then have "\<not> bit n i" by (simp add: bit_iff_odd)
  then show "\<not> bit (of_nat n :: 32 word) i" by (simp add: bit_of_nat_iff)
qed (use assms(1) in simp)

lemma low_byte_bits: "bitsOf 8 (ucast (w AND 0xff :: 32 word) :: 8 word) = bitsOf 8 w"
proof -
  have "w AND 0xff = take_bit 8 w"
    by (simp add: take_bit_eq_mask mask_eq_exp_minus_1)
  then show ?thesis by (auto simp: bitsOf_def bit_ucast_iff bit_take_bit_iff)
qed

lemma decodeLoop_bits:
  "list_all2 carries cs gs \<Longrightarrow> bits < 8 \<Longrightarrow>
     \<exists>bytes left. decodeLoop cs bits v = Inr bytes \<and> length left < 8
       \<and> bitsOf bits v @ concat gs = concat (map (bitsOf 8) bytes) @ left"
proof (induction cs gs arbitrary: bits v rule: list_all2_induct)
  case Nil
  then show ?case by simp
next
  case (Cons c cs g gs)
  obtain n where n: "indexOf c (unitsOf ALPHABET) = Some n" "bitsOf 5 (of_nat n :: 32 word) = g" "n < 32"
    using carries_index [OF Cons.hyps(1)] by blast
  let ?v = "push_bit 5 v OR of_nat n :: 32 word"
  have v: "bitsOf (bits + 5) ?v = bitsOf bits v @ g"
    using push_five [of bits n v] Cons.prems n by simp
  show ?case
  proof (cases "bits + 5 \<ge> 8")
    case True
    let ?k = "bits + 5 - 8"
    obtain bytes left where rest: "decodeLoop cs ?k ?v = Inr bytes" "length left < 8"
      "bitsOf ?k ?v @ concat gs = concat (map (bitsOf 8) bytes) @ left"
    proof -
      have "?k < 8" using Cons.prems by simp
      from Cons.IH [OF this, of ?v] that show thesis by blast
    qed
    have "bitsOf bits v @ g = bitsOf 8 (drop_bit ?k ?v) @ bitsOf ?k ?v"
      using bitsOf_drop [of ?k "bits + 5" ?v] True v by simp
    then have "bitsOf bits v @ concat (g # gs) = bitsOf 8 (drop_bit ?k ?v) @ (bitsOf ?k ?v @ concat gs)"
      by (metis append_assoc concat.simps(2))
    also have "\<dots> = concat (map (bitsOf 8) (ucast (drop_bit ?k ?v AND 0xff) # bytes)) @ left"
      unfolding rest(3) by (simp only: list.map concat.simps low_byte_bits append_assoc)
    finally have "bitsOf bits v @ concat (g # gs) = concat (map (bitsOf 8) (ucast (drop_bit ?k ?v AND 0xff) # bytes)) @ left" .
    moreover have "decodeLoop (c # cs) bits v = Inr (ucast (drop_bit ?k ?v AND 0xff) # bytes)"
      using n(1) True rest(1) by (simp add: Let_def)
    ultimately show ?thesis using rest(2) by blast
  next
    case False
    then show ?thesis
      using Cons.IH [of "bits + 5" ?v] n(1) v by (auto simp: Let_def)
  qed
qed

lemma bytes_unique:
  "concat (map (bitsOf 8) xs) @ l = concat (map (bitsOf 8) ys) @ r \<Longrightarrow> length l < 8 \<Longrightarrow> length r < 8 \<Longrightarrow> xs = (ys :: buffer)"
proof (induction xs arbitrary: ys)
  case Nil
  show ?case
  proof (cases ys)
    case (Cons y zs)
    then have "l = bitsOf 8 y @ (concat (map (bitsOf 8) zs) @ r)" using Nil.prems(1) by simp
    then have "8 \<le> length l" by (simp only: length_append length_bitsOf le_add1)
    then show ?thesis using Nil.prems(2) by simp
  qed simp
next
  case (Cons x xs)
  show ?case
  proof (cases ys)
    case Nil
    then have "r = bitsOf 8 x @ (concat (map (bitsOf 8) xs) @ l)" using Cons.prems(1) by simp
    then have "8 \<le> length r" by (simp only: length_append length_bitsOf le_add1)
    then show ?thesis using Cons.prems(3) by simp
  next
    case (Cons y zs)
    then show ?thesis
      using Cons.IH [of zs] Cons.prems byte_bits_inject by simp
  qed
qed

section \<open>The round trip\<close>

lemma carries_plain:
  assumes "list_all2 carries cs gs"
  shows "toUpperCase cs = cs" and "filter (\<lambda>c. \<not> isSpace c) cs = cs" and "61 \<notin> set cs"
proof -
  have "upperUnit c = [c] \<and> \<not> isSpace c \<and> c \<noteq> 61" if "c \<in> set cs" for c
  proof -
    obtain g where "carries c g" using assms \<open>c \<in> set cs\<close> by (auto simp: list_all2_conv_all_nth in_set_conv_nth)
    then obtain w where "c = of_char (ALPHABET ! unat (w AND 31 :: 32 word))" by (auto simp: carries_def charOf_def)
    then show ?thesis using alphabet_plain [OF index_small] by simp
  qed
  then have plain: "\<forall>c \<in> set cs. upperUnit c = [c] \<and> \<not> isSpace c \<and> c \<noteq> 61" by blast
  then show "filter (\<lambda>c. \<not> isSpace c) cs = cs" and "61 \<notin> set cs" by (auto simp: filter_id_conv)
  have "concat (map upperUnit cs) = concat (map (\<lambda>c. [c]) cs)"
    using plain by (intro arg_cong [where f = concat] map_cong) simp_all
  then show "toUpperCase cs = cs" by (simp add: toUpperCase_def concat_map_singleton)
qed

lemma stripPadding_padded:
  assumes "61 \<notin> set cs"
  shows "stripPadding (cs @ replicate n 61) = cs"
proof -
  have "dropWhile (\<lambda>c. c = 61) (replicate n 61 @ rev cs) = rev cs"
    using assms by (induction n) (cases "rev cs"; force)+
  then show ?thesis by (simp add: stripPadding_def)
qed

lemma toUpperCase_append: "toUpperCase (xs @ ys) = toUpperCase xs @ toUpperCase ys"
  by (simp add: toUpperCase_def)

lemma decode_padded: "base32Decode (unitsOf (encodeLoop xs 0 0) @ replicate n 61) = Inr xs"
proof -
  let ?cs = "unitsOf (encodeLoop xs 0 0)"
  obtain gs pad where gs: "list_all2 carries ?cs gs" "pad < 5"
    "concat gs = concat (map (bitsOf 8) xs) @ replicate pad False"
    using encodeLoop_bits [of 0 xs 0] by (auto simp: bitsOf_def)
  obtain bytes left where dec: "decodeLoop ?cs 0 0 = Inr bytes" "length left < 8"
    "concat gs = concat (map (bitsOf 8) bytes) @ left"
    using decodeLoop_bits [OF gs(1), of 0 0] by (auto simp: bitsOf_def)
  have "concat (map (bitsOf 8) xs) @ replicate pad False = concat (map (bitsOf 8) bytes) @ left"
    using gs(3) dec(3) by simp
  then have "xs = bytes" by (rule bytes_unique) (use dec(2) gs(2) in simp_all)
  moreover have "toUpperCase (replicate n 61) = replicate n 61"
    by (induction n) (simp_all add: toUpperCase_def upperUnit_def)
  ultimately show ?thesis
    using dec(1) carries_plain [OF gs(1)]
    by (simp add: base32Decode_def toUpperCase_append stripPadding_padded)
qed

lemma multiple_of_eight: "(n + (8 - n mod 8) mod 8) mod 8 = (0 :: nat)"
proof (cases "n mod 8 = 0")
  case True
  then show ?thesis by (simp add: mod_add_eq)
next
  case False
  then have "(8 - n mod 8) mod 8 = 8 - n mod 8" by simp
  moreover have "n + (8 - n mod 8) = 8 * (n div 8) + 8"
    using mult_div_mod_eq [of 8 n] mod_less_divisor [of 8 n] by linarith
  ultimately show ?thesis by simp
qed

text \<open>
  C34. A secret survives its way to the authenticator: what \<open>base32Encode\<close> writes, with the padding or,
  as \<open>otpauthUri\<close> sends it, without, \<open>base32Decode\<close> reads back byte for byte, for a buffer of any length,
  although the accumulator of both loops overflows its 32 bits from the fourth byte on. The padded text is
  a multiple of eight characters long.
\<close>

theorem base32_round_trip:
  "base32Decode (unitsOf (base32Encode input)) = Inr input
   \<and> base32Decode (unitsOf (filter (\<lambda>c. c \<noteq> CHR ''='') (base32Encode input))) = Inr input
   \<and> length (base32Encode input) mod 8 = 0"
proof (intro conjI)
  let ?text = "encodeLoop input 0 0"
  have padded: "unitsOf (base32Encode input) = unitsOf ?text @ replicate ((8 - length ?text mod 8) mod 8) 61"
    by (simp add: base32Encode_def Let_def unitsOf_def)
  show "base32Decode (unitsOf (base32Encode input)) = Inr input"
    unfolding padded by (rule decode_padded)
  obtain gs where "list_all2 carries (unitsOf ?text) gs"
    using encodeLoop_bits [of 0 input 0] by auto
  then have "61 \<notin> set (unitsOf ?text)" by (rule carries_plain(3))
  then have "CHR ''='' \<notin> set ?text" unfolding unitsOf_def set_map by (rule contrapos_nn) (auto intro!: image_eqI)
  then have "filter (\<lambda>c. c \<noteq> CHR ''='') (base32Encode input) = ?text"
    by (auto simp: base32Encode_def Let_def filter_id_conv)
  then show "base32Decode (unitsOf (filter (\<lambda>c. c \<noteq> CHR ''='') (base32Encode input))) = Inr input"
    using decode_padded [of input 0] by simp
  show "length (base32Encode input) mod 8 = 0"
    by (simp only: base32Encode_def Let_def length_append length_replicate multiple_of_eight)
qed

section \<open>Codes\<close>

text \<open>A digest long enough for every window the truncation can pick.\<close>

definition full_digest :: "hmac \<Rightarrow> bool" where
  "full_digest hmac \<longleftrightarrow> (\<forall>key message. 19 \<le> length (hmac key message))"

definition six_digits :: "string \<Rightarrow> bool" where
  "six_digits code \<longleftrightarrow> length code = 6 \<and> (\<forall>c \<in> set code. \<exists>d < 10. c = digit d)"

lemma nibble_bound: "unat (b AND 15 :: 8 word) \<le> 15"
proof -
  have "b AND 15 \<le> 15" by (rule word_and_le1)
  then have "unat (b AND 15) \<le> unat (15 :: 8 word)" by (simp add: word_le_nat_alt)
  then show ?thesis by simp
qed

lemma truncateDigest_total: "19 \<le> length digest \<Longrightarrow> \<exists>binary. truncateDigest digest = Inr binary"
  using nibble_bound [of "last digest"] by (auto simp: truncateDigest_def Let_def)

lemma decimal_length: "n < 10 ^ k \<Longrightarrow> 0 < k \<Longrightarrow> length (decimal n) \<le> k"
proof (induction k arbitrary: n)
  case (Suc k)
  show ?case
  proof (cases "n < 10")
    case True
    then show ?thesis by (simp add: decimal.simps [of n])
  next
    case False
    then have "0 < k" using Suc.prems by (cases k) auto
    moreover have "n div 10 < 10 ^ k" using Suc.prems(1) by (simp add: less_mult_imp_div_less)
    ultimately have "length (decimal (n div 10)) \<le> k" using Suc.IH by blast
    then show ?thesis using False by (simp add: decimal.simps [of n])
  qed
qed simp

lemma padded_code: "n < 10 ^ DIGITS \<Longrightarrow> six_digits (padStart DIGITS (CHR ''0'') (decimal n))"
proof -
  assume "n < 10 ^ DIGITS"
  then have "length (decimal n) \<le> 6" using decimal_length [of n 6] by (simp add: DIGITS_def)
  moreover have "CHR ''0'' = digit 0" by code_simp
  moreover have "\<exists>d < 10. digit 0 = digit d" by (intro exI [of _ 0]) simp
  ultimately show ?thesis
    using decimal_digits [of _ n] by (auto simp: six_digits_def padStart_def DIGITS_def)
qed

lemma totp_total:
  assumes "full_digest hmac" and "0 \<le> t" and "t < 30 * 2 ^ 64"
  shows "\<exists>code. totp hmac secret t = Inr code \<and> six_digits code"
proof -
  have "0 \<le> t div 30" "t div 30 < 2 ^ 64" using assms(2,3) by linarith+
  then obtain message where m: "writeBigUInt64BE (t div 30) = Inr message"
    by (auto simp: writeBigUInt64BE_def)
  obtain binary where "truncateDigest (hmac secret message) = Inr binary"
    using truncateDigest_total assms(1) unfolding full_digest_def by blast
  then show ?thesis
    using m padded_code [of "unat binary mod 10 ^ DIGITS"] by (simp add: totp_def PERIOD_SECONDS_def DIGITS_def)
qed

lemma verifyLoop_value:
  assumes "\<And>s. s \<in> set steps \<Longrightarrow> totp hmac secret (t + s * PERIOD_SECONDS) = Inr (code s)"
  shows "verifyLoop hmac secret supplied t steps matched =
    Inr (case filter (\<lambda>s. unitsOf (code s) = supplied) (rev steps) of [] \<Rightarrow> matched | s # _ \<Rightarrow> Some s)"
  using assms
proof (induction steps arbitrary: matched)
  case (Cons s steps)
  then show ?case by (auto simp: filter_append split: list.splits)
qed simp

lemma six_digit_units: "six_digits code \<Longrightarrow> length (unitsOf code) = DIGITS \<and> list_all isDigit (unitsOf code)"
  by (auto simp: six_digits_def unitsOf_def DIGITS_def list_all_iff isDigit_def digit_def)

text \<open>
  C35. Every code is six decimal digits, whatever the HMAC says as long as it is a digest of at least 19
  bytes (SHA-1 gives 20): no window of the truncation runs out of the digest and the masked value stays a
  positive 31-bit number. And a check answers, never throws: it accepts exactly the texts that are, white
  space aside, the code of this period or of one next to it, and reports the latest such period.
\<close>

theorem codes_are_six_digits_and_checked_exactly:
  assumes "full_digest hmac" and "30 \<le> t" and "t < 2 ^ 64"
  shows "\<exists>code. (\<forall>s \<in> {-1, 0, 1}. totp hmac secret (t + s * PERIOD_SECONDS) = Inr (code s) \<and> six_digits (code s))
    \<and> (\<forall>supplied. verifyTotp hmac secret supplied t =
          Inr (if unitsOf (code 1) = filter (\<lambda>c. \<not> isSpace c) supplied then Some 1
               else if unitsOf (code 0) = filter (\<lambda>c. \<not> isSpace c) supplied then Some 0
               else if unitsOf (code (-1)) = filter (\<lambda>c. \<not> isSpace c) supplied then Some (-1)
               else None))"
proof -
  have "\<exists>code. totp hmac secret (t + s * PERIOD_SECONDS) = Inr code \<and> six_digits code" if "s \<in> {-1, 0, 1}" for s
    using that assms(2,3) by (intro totp_total [OF assms(1)]) (auto simp: PERIOD_SECONDS_def)
  then obtain code where code: "\<And>s. s \<in> {-1, 0, 1} \<Longrightarrow> totp hmac secret (t + s * PERIOD_SECONDS) = Inr (code s) \<and> six_digits (code s)"
    by metis
  have steps: "[- DEFAULT_WINDOW..DEFAULT_WINDOW] = [-1, 0, 1]" by (simp add: DEFAULT_WINDOW_def upto.simps)
  have shape: "unitsOf (code s) = c \<Longrightarrow> length c = DIGITS \<and> list_all isDigit c" if "s \<in> {-1, 0, 1}" for s c
    using six_digit_units code [OF that] by blast
  have "verifyTotp hmac secret supplied t =
          Inr (if unitsOf (code 1) = filter (\<lambda>c. \<not> isSpace c) supplied then Some 1
               else if unitsOf (code 0) = filter (\<lambda>c. \<not> isSpace c) supplied then Some 0
               else if unitsOf (code (-1)) = filter (\<lambda>c. \<not> isSpace c) supplied then Some (-1)
               else None)" for supplied
  proof -
    let ?c = "filter (\<lambda>c. \<not> isSpace c) supplied"
    have "verifyLoop hmac secret ?c t [-1, 0, 1] None =
        Inr (case filter (\<lambda>s. unitsOf (code s) = ?c) (rev [-1, 0, 1]) of [] \<Rightarrow> None | s # _ \<Rightarrow> Some s)"
      using code by (intro verifyLoop_value) auto
    then show ?thesis
      using shape [of 1 ?c] shape [of 0 ?c] shape [of "-1" ?c] by (auto simp: verifyTotp_def Let_def steps)
  qed
  then show ?thesis using code by (intro exI [of _ code]) blast
qed

definition ex_hmac :: hmac where
  "ex_hmac key message = replicate 20 0"

lemma ex_totp:
  assumes "0 \<le> t" and "t < 30 * 2 ^ 64"
  shows "totp ex_hmac [] t = Inr ''000000''"
proof -
  have "0 \<le> t div 30" "t div 30 < 2 ^ 64" using assms by linarith+
  moreover have "truncateDigest (ex_hmac [] message) = Inr 0" for message
    by (simp add: truncateDigest_def ex_hmac_def Let_def)
  moreover have "padStart DIGITS (CHR ''0'') (decimal 0) = ''000000''"
    by (subst decimal.simps) code_simp
  ultimately show ?thesis
    by (simp add: totp_def writeBigUInt64BE_def PERIOD_SECONDS_def)
qed

theorem codes_are_six_digits_and_checked_exactly_witness:
  "verifyTotp ex_hmac [] (unitsOf ''000 000'') 60 = Inr (Some 1) \<and> verifyTotp ex_hmac [] (unitsOf ''000001'') 60 = Inr None"
proof -
  have full: "full_digest ex_hmac" by (simp add: full_digest_def ex_hmac_def)
  obtain code where code: "\<And>s. s \<in> {-1, 0, 1} \<Longrightarrow> totp ex_hmac [] (60 + s * PERIOD_SECONDS) = Inr (code s)"
    and check: "\<And>supplied. verifyTotp ex_hmac [] supplied 60 =
          Inr (if unitsOf (code 1) = filter (\<lambda>c. \<not> isSpace c) supplied then Some 1
               else if unitsOf (code 0) = filter (\<lambda>c. \<not> isSpace c) supplied then Some 0
               else if unitsOf (code (-1)) = filter (\<lambda>c. \<not> isSpace c) supplied then Some (-1)
               else None)"
    using codes_are_six_digits_and_checked_exactly [OF full, of 60 "[]"] by force
  have "code s = ''000000''" if "s \<in> {-1, 0, 1}" for s
    using code [OF that] ex_totp [of "60 + s * PERIOD_SECONDS"] that by (auto simp: PERIOD_SECONDS_def)
  then show ?thesis by (simp add: check) (simp add: unitsOf_def isSpace_def)
qed

end
