(* ===== verification/Requests.thy ===== *)
theory Requests
  imports Prelude
begin

text \<open>
  Requests that run side by side. A handler of the API is an \<open>async\<close> function: between two of its
  \<open>await\<close>s on the database other requests run, and each awaited call is one transaction. Such a handler is
  a \<open>request\<close>: done with an answer or an exception, or waiting for a transaction, which takes the input the
  environment has at that moment (the clock, random bytes, a lost connection) and the tables, gives the new
  tables, and goes on. The theory has the sequencing of requests, the log of what one request did, the runs
  of any number of them, and what every transaction of a run keeps.
\<close>

section \<open>Requests and their sequence\<close>

datatype ('i, 's, 'e, 'a) request =
    Returns "'e + 'a"
  | Awaits "'i \<Rightarrow> 's \<Rightarrow> 's \<times> ('i, 's, 'e, 'a) request"

primrec bindR :: "('i, 's, 'e, 'a) request \<Rightarrow> ('a \<Rightarrow> ('i, 's, 'e, 'b) request) \<Rightarrow> ('i, 's, 'e, 'b) request" where
  "bindR (Returns r) k = (case r of Inl e \<Rightarrow> Returns (Inl e) | Inr a \<Rightarrow> k a)"
| "bindR (Awaits f) k = Awaits (\<lambda>i s. map_prod id (\<lambda>p. bindR p k) (f i s))"

definition returnR :: "'a \<Rightarrow> ('i, 's, 'e, 'a) request" where
  "returnR a = Returns (Inr a)"

definition throwR :: "'e \<Rightarrow> ('i, 's, 'e, 'a) request" where
  "throwR e = Returns (Inl e)"

lemma bindR_return [simp]: "bindR (returnR a) k = k a"
  by (simp add: returnR_def)

lemma bindR_throw [simp]: "bindR (throwR e) k = throwR e"
  by (simp add: throwR_def)

lemma bindR_assoc: "bindR (bindR p f) g = bindR p (\<lambda>a. bindR (f a) g)"
proof (induction p)
  case (Returns r)
  then show ?case by (cases r) auto
next
  case (Awaits h)
  have "map_prod id (\<lambda>p. bindR (bindR p f) g) (h i s) = map_prod id (\<lambda>p. bindR p (\<lambda>a. bindR (f a) g)) (h i s)" for i s
    by (rule prod.map_cong) (auto intro: Awaits.IH [OF rangeI rangeI])
  then show ?case by (simp add: prod.map_comp comp_def id_def)
qed

section \<open>What one request did\<close>

text \<open>\<open>plays p l q\<close>: the transactions \<open>l\<close>, each with its input and the tables before and after, take the
  request from \<open>p\<close> to \<open>q\<close>.\<close>

type_synonym ('i, 's) log = "('i \<times> 's \<times> 's) list"

inductive plays :: "('i, 's, 'e, 'a) request \<Rightarrow> ('i, 's) log \<Rightarrow> ('i, 's, 'e, 'a) request \<Rightarrow> bool" where
  plays_Nil: "plays p [] p"
| plays_Cons: "f i s = (s', q) \<Longrightarrow> plays q l p' \<Longrightarrow> plays (Awaits f) ((i, s, s') # l) p'"

declare plays.intros [intro]

inductive_cases plays_ConsE: "plays p (e # l) q"
inductive_cases plays_AwaitsE: "plays (Awaits f) l q"

lemma plays_Nil_iff [simp]: "plays p [] q \<longleftrightarrow> q = p"
  by (auto elim: plays.cases)

lemma plays_Returns_iff [simp]: "plays (Returns r) l q \<longleftrightarrow> l = [] \<and> q = Returns r"
  by (auto elim: plays.cases)

lemma plays_Cons_iff:
  "plays p ((i, s, s') # l) q \<longleftrightarrow> (\<exists>f p'. p = Awaits f \<and> f i s = (s', p') \<and> plays p' l q)"
  by (auto elim: plays_ConsE)

lemma plays_append: "plays p (l1 @ l2) q \<longleftrightarrow> (\<exists>m. plays p l1 m \<and> plays m l2 q)"
proof (induction l1 arbitrary: p)
  case (Cons e l1)
  then show ?case by (cases e) (auto simp: plays_Cons_iff)
qed simp

lemma plays_snoc: "plays p l (Awaits f) \<Longrightarrow> f i s = (s', q) \<Longrightarrow> plays p (l @ [(i, s, s')]) q"
  by (auto simp: plays_append plays_Cons_iff)

text \<open>The log of a sequence is the log of its first part, or that of the first part's return followed by
  one of the second.\<close>

lemma plays_bindE:
  assumes "plays (bindR p k) l q"
  obtains p' where "plays p l p'" and "q = bindR p' k"
  | l1 l2 a where "l = l1 @ l2" and "plays p l1 (Returns (Inr a))" and "plays (k a) l2 q" and "l2 \<noteq> []"
proof -
  have "(\<exists>p'. plays p l p' \<and> q = bindR p' k) \<or>
      (\<exists>l1 l2 a. l = l1 @ l2 \<and> plays p l1 (Returns (Inr a)) \<and> plays (k a) l2 q \<and> l2 \<noteq> [])"
    using assms
  proof (induction l arbitrary: p)
    case Nil
    then show ?case by auto
  next
    case (Cons e l)
    obtain i s s' where e: "e = (i, s, s')" by (cases e)
    show ?case
    proof (cases p)
      case (Returns r)
      then show ?thesis using Cons.prems by (cases r) (auto intro!: exI [of _ "[]"])
    next
      case (Awaits f)
      obtain p' where f: "f i s = (s', p')" and "plays (bindR p' k) l q"
        using Cons.prems unfolding Awaits e by (auto simp: plays_Cons_iff map_prod_def split: prod.splits)
      from Cons.IH [OF this(2)] show ?thesis
      proof
        assume "\<exists>p''. plays p' l p'' \<and> q = bindR p'' k"
        then show ?thesis using f unfolding Awaits e by blast
      next
        assume "\<exists>l1 l2 a. l = l1 @ l2 \<and> plays p' l1 (Returns (Inr a)) \<and> plays (k a) l2 q \<and> l2 \<noteq> []"
        then obtain l1 l2 a where "l = l1 @ l2" "plays p' l1 (Returns (Inr a))" "plays (k a) l2 q" "l2 \<noteq> []" by blast
        moreover have "plays (Awaits f) ((i, s, s') # l1) (Returns (Inr a))" using f calculation(2) by blast
        ultimately show ?thesis unfolding Awaits e by (metis append_Cons)
      qed
    qed
  qed
  then show thesis using that by blast
qed

lemma bindR_eq_return: "bindR p k = Returns (Inr b) \<longleftrightarrow> (\<exists>a. p = Returns (Inr a) \<and> k a = Returns (Inr b))"
  by (cases p) (auto split: sum.splits)

lemma plays_bind_return:
  "plays (bindR p k) l (Returns (Inr b)) \<longleftrightarrow>
     (\<exists>l1 l2 a. l = l1 @ l2 \<and> plays p l1 (Returns (Inr a)) \<and> plays (k a) l2 (Returns (Inr b)))"
  (is "?lhs \<longleftrightarrow> ?rhs")
proof
  assume ?lhs
  then show ?rhs
  proof (cases rule: plays_bindE)
    case (1 p')
    then have "\<exists>a. p' = Returns (Inr a) \<and> k a = Returns (Inr b)" by (metis bindR_eq_return)
    then show ?thesis using 1(1) by (intro exI [of _ l] exI [of _ "[]"]) auto
  next
    case (2 l1 l2 a)
    then show ?thesis by blast
  qed
next
  have seq: "plays p l1 (Returns (Inr a)) \<Longrightarrow> plays (bindR p k) l1 (k a)" for p l1 a
    by (induction l1 arbitrary: p) (auto simp: plays_Cons_iff)
  assume ?rhs
  then obtain l1 l2 a where "l = l1 @ l2" and "plays p l1 (Returns (Inr a))" and "plays (k a) l2 (Returns (Inr b))" by blast
  moreover from this(2) have "plays (bindR p k) l1 (k a)" by (rule seq)
  ultimately show ?lhs by (simp only: plays_append) blast
qed

section \<open>One transaction\<close>

text \<open>A transaction throws and leaves no trace, or returns and is committed. Its connection can be lost
  before the commit, or after: then the caller sees an error although the change is there.\<close>

datatype connection = Kept | LostBefore | LostAfter

definition transact :: "('i \<Rightarrow> connection) \<Rightarrow> 'e \<Rightarrow> ('i \<Rightarrow> 's \<Rightarrow> 'e + 's \<times> 'a) \<Rightarrow> ('i, 's, 'e, 'a) request" where
  "transact conn lost f = Awaits (\<lambda>i s.
     case f i s of
       Inl e \<Rightarrow> (s, Returns (Inl e))
     | Inr (s', a) \<Rightarrow>
         (case conn i of
            Kept \<Rightarrow> (s', Returns (Inr a))
          | LostBefore \<Rightarrow> (s, Returns (Inl lost))
          | LostAfter \<Rightarrow> (s', Returns (Inl lost))))"

lemma plays_transact_return:
  "plays (transact conn lost f) l (Returns (Inr a)) \<longleftrightarrow>
     (\<exists>i s s'. l = [(i, s, s')] \<and> f i s = Inr (s', a) \<and> conn i = Kept)"
  by (cases l; cases "tl l")
     (auto simp: transact_def plays_Cons_iff split: sum.splits prod.splits connection.splits)

lemma plays_transact_Cons:
  "plays (transact conn lost f) ((i, s, s') # l) q \<Longrightarrow>
     l = [] \<and> (s' = s \<or> (\<exists>a. f i s = Inr (s', a))) \<and> (\<exists>r. q = Returns r)"
  by (auto simp: transact_def plays_Cons_iff split: sum.splits prod.splits connection.splits)

section \<open>Runs\<close>

text \<open>\<open>runs P s t Q s'\<close>: the requests \<open>P\<close>, numbered, interleave their transactions in the order of the
  trace \<open>t\<close> from the tables \<open>s\<close>, and stand at \<open>Q\<close> and \<open>s'\<close> after it.\<close>

type_synonym ('i, 's) trace = "(nat \<times> 'i \<times> 's \<times> 's) list"

inductive runs :: "(nat \<Rightarrow> ('i, 's, 'e, 'a) request) \<Rightarrow> 's \<Rightarrow> ('i, 's) trace \<Rightarrow> (nat \<Rightarrow> ('i, 's, 'e, 'a) request) \<Rightarrow> 's \<Rightarrow> bool" where
  runs_Nil: "runs P s [] P s"
| runs_Cons: "P j = Awaits f \<Longrightarrow> f i s = (s', q) \<Longrightarrow> runs (P (j := q)) s' t Q s'' \<Longrightarrow> runs P s ((j, i, s, s') # t) Q s''"

declare runs.intros [intro]

inductive_cases runs_ConsE: "runs P s (e # t) Q s'"

lemma runs_Nil_iff [simp]: "runs P s [] Q s' \<longleftrightarrow> Q = P \<and> s' = s"
  by (auto elim: runs.cases)

lemma runs_Cons_iff:
  "runs P s ((j, i, u, v) # t) Q s' \<longleftrightarrow>
     u = s \<and> (\<exists>f q. P j = Awaits f \<and> f i s = (v, q) \<and> runs (P (j := q)) v t Q s')"
  by (auto elim: runs_ConsE)

lemma runs_append: "runs P s (t1 @ t2) Q s' \<longleftrightarrow> (\<exists>M m. runs P s t1 M m \<and> runs M m t2 Q s')"
proof (induction t1 arbitrary: P s)
  case (Cons e t1)
  obtain j i u v where "e = (j, i, u, v)" by (cases e)
  then show ?case unfolding append_Cons by (simp only: runs_Cons_iff Cons) blast
qed simp

text \<open>What request \<open>j\<close> did in a trace.\<close>

definition doneBy :: "nat \<Rightarrow> ('i, 's) trace \<Rightarrow> ('i, 's) log" where
  "doneBy j t = map snd (filter (\<lambda>e. fst e = j) t)"

lemma doneBy_simps [simp]:
  "doneBy j [] = []"
  "doneBy j ((k, e) # t) = (if k = j then e # doneBy j t else doneBy j t)"
  "doneBy j (t1 @ t2) = doneBy j t1 @ doneBy j t2"
  by (auto simp: doneBy_def)

lemma doneBy_mem: "e \<in> set (doneBy j t) \<longleftrightarrow> (j, e) \<in> set t"
  by (induction t) (auto split: if_splits)

lemma runs_plays: "runs P s t Q s' \<Longrightarrow> plays (P j) (doneBy j t) (Q j)"
  by (induction rule: runs.induct) (auto split: if_splits)

text \<open>One request alone, every transaction with the same input.\<close>

primrec solo :: "'i \<Rightarrow> ('i, 's, 'e, 'a) request \<Rightarrow> 's \<Rightarrow> ('i, 's) log \<times> ('i, 's, 'e, 'a) request \<times> 's" where
  "solo i (Returns r) s = ([], Returns r, s)"
| "solo i (Awaits f) s =
     (case map_prod id (solo i) (f i s) of
        (s', rest) \<Rightarrow> (case rest s' of (l, q) \<Rightarrow> ((i, s, s') # l, q)))"

lemma solo_runs: "solo i p s = (l, q, s') \<Longrightarrow> P j = p \<Longrightarrow> runs P s (map (Pair j) l) (P (j := q)) s'"
proof (induction p arbitrary: s l P)
  case (Returns r)
  then show ?case by (auto simp: fun_upd_idem)
next
  case (Awaits f)
  obtain u p' where f: "f i s = (u, p')" by (cases "f i s")
  obtain l' where l: "l = (i, s, u) # l'" and rest: "solo i p' u = (l', q, s')"
    using Awaits.prems(1) f by (auto split: prod.splits)
  have "p' \<in> Basic_BNFs.snds (f i s)" using f by (simp add: snds.intros)
  have "runs (P (j := p')) u (map (Pair j) l') ((P (j := p')) (j := q)) s'"
    by (rule Awaits.IH [OF rangeI rangeI \<open>p' \<in> Basic_BNFs.snds (f i s)\<close> rest]) simp
  then have "runs (P (j := p')) u (map (Pair j) l') (P (j := q)) s'" by (simp only: fun_upd_upd)
  then have "runs P s ((j, i, s, u) # map (Pair j) l') (P (j := q)) s'"
    using runs_Cons [of P j f i s u p'] Awaits.prems(2) f by blast
  then show ?case by (simp only: l list.map)
qed

section \<open>What every transaction keeps\<close>

text \<open>
  \<open>obeys I G R p\<close>: whatever other requests do as long as \<open>I\<close> holds, every transaction of \<open>p\<close> keeps \<open>I\<close> and
  changes the tables by a step of \<open>G\<close>, and an answer of \<open>p\<close> satisfies \<open>R\<close>.
\<close>

primrec obeys :: "('s \<Rightarrow> bool) \<Rightarrow> ('s \<Rightarrow> 's \<Rightarrow> bool) \<Rightarrow> ('a \<Rightarrow> bool) \<Rightarrow> ('i, 's, 'e, 'a) request \<Rightarrow> bool" where
  "obeys I G R (Returns r) = (case r of Inl e \<Rightarrow> True | Inr a \<Rightarrow> R a)"
| "obeys I G R (Awaits f) =
     (\<forall>i s. I s \<longrightarrow> (case map_prod id (obeys I G R) (f i s) of (s', ok) \<Rightarrow> I s' \<and> G s s' \<and> ok))"

lemma obeys_Awaits:
  "obeys I G R (Awaits f) \<longleftrightarrow> (\<forall>i s s' q. I s \<longrightarrow> f i s = (s', q) \<longrightarrow> I s' \<and> G s s' \<and> obeys I G R q)"
proof -
  have "(case map_prod id (obeys I G R) (f i s) of (s', ok) \<Rightarrow> I s' \<and> G s s' \<and> ok) \<longleftrightarrow>
      (\<forall>s' q. f i s = (s', q) \<longrightarrow> I s' \<and> G s s' \<and> obeys I G R q)" for i s
    by (cases "f i s") simp
  then show ?thesis by simp
qed

declare obeys.simps(2) [simp del]

lemma obeys_bind:
  "obeys I G R p \<Longrightarrow> (\<And>a. R a \<Longrightarrow> obeys I G S (k a)) \<Longrightarrow> obeys I G S (bindR p k)"
proof (induction p)
  case (Returns r)
  then show ?case by (cases r) auto
next
  case (Awaits f)
  have "I s' \<and> G s s' \<and> obeys I G S (bindR q k)" if "I s" and f: "f i s = (s', q)" for i s s' q
  proof -
    have *: "I s' \<and> G s s' \<and> obeys I G R q" using Awaits.prems(1) that by (auto simp only: obeys_Awaits)
    have "q \<in> Basic_BNFs.snds (f i s)" using f by (simp add: snds.intros)
    then have "obeys I G S (bindR q k)"
      using * by (intro Awaits.IH [of "f i" "f i s"]) (auto intro: Awaits.prems(2))
    then show ?thesis using * by blast
  qed
  then have "I s' \<and> G s s' \<and> obeys I G S q"
    if "I s" and "map_prod id (\<lambda>p. bindR p k) (f i s) = (s', q)" for i s s' q
    using that by (cases "f i s") auto
  then show ?case by (simp only: bindR.simps obeys_Awaits) blast
qed

lemma obeys_return [simp]: "obeys I G R (returnR a) \<longleftrightarrow> R a"
  by (simp add: returnR_def)

lemma obeys_throw [simp]: "obeys I G R (throwR e)"
  by (simp add: throwR_def)

lemma obeys_mono: "obeys I G R p \<Longrightarrow> (\<And>a. R a \<Longrightarrow> S a) \<Longrightarrow> (\<And>s t. I s \<Longrightarrow> G s t \<Longrightarrow> H s t) \<Longrightarrow> obeys I H S p"
proof (induction p)
  case (Returns r)
  then show ?case by (cases r) auto
next
  case (Awaits f)
  have "I s' \<and> H s s' \<and> obeys I H S q" if "I s" and f: "f i s = (s', q)" for i s s' q
  proof -
    have *: "I s' \<and> G s s' \<and> obeys I G R q" using Awaits.prems(1) that by (auto simp only: obeys_Awaits)
    have "q \<in> Basic_BNFs.snds (f i s)" using f by (simp add: snds.intros)
    then show ?thesis
      using * Awaits.prems(2,3) that(1) by (auto intro!: Awaits.IH [of "f i" "f i s"])
  qed
  then show ?case by (simp only: obeys_Awaits) blast
qed

lemma obeys_transact:
  assumes "\<And>s. I s \<Longrightarrow> G s s" and "\<And>i s s' a. I s \<Longrightarrow> f i s = Inr (s', a) \<Longrightarrow> I s' \<and> G s s' \<and> R a"
  shows "obeys I G R (transact conn lost f)"
  using assms by (auto simp: transact_def obeys_Awaits split: sum.splits prod.splits connection.splits)

text \<open>Sequences obey part by part; what the first part's answer satisfies is often nothing.\<close>

lemma obeys_seq: "obeys I G (\<lambda>a. True) p \<Longrightarrow> (\<And>a. obeys I G S (k a)) \<Longrightarrow> obeys I G S (bindR p k)"
  by (rule obeys_bind)

text \<open>The log of a request that obeys, in tables where \<open>I\<close> holds. When a transaction in it is no step of
  \<open>G\<close>, a first part that obeys \<open>G\<close> is behind it.\<close>

lemma plays_obeys:
  assumes "plays p l q" and "obeys I G R p" and "\<forall>e \<in> set l. I (fst (snd e))"
  shows "obeys I G R q" and "(i, u, v) \<in> set l \<Longrightarrow> I v \<and> G u v"
proof -
  have "obeys I G R q \<and> (\<forall>(i, u, v) \<in> set l. I v \<and> G u v)"
    using assms
  proof (induction rule: plays.induct)
    case (plays_Cons f i s s' q l p')
    have "I s" using plays_Cons.prems(2) by simp
    then have "I s' \<and> G s s' \<and> obeys I G R q"
      using plays_Cons.prems(1) plays_Cons.hyps(1) by (auto simp only: obeys_Awaits)
    then show ?case using plays_Cons.IH plays_Cons.prems(2) by auto
  qed auto
  then show "obeys I G R q" and "(i, u, v) \<in> set l \<Longrightarrow> I v \<and> G u v" by auto
qed

lemma plays_past:
  assumes "plays (bindR p k) l q" and "obeys I G R p" and "\<forall>e \<in> set l. I (fst (snd e))"
    and "(i, u, v) \<in> set l" and "\<not> G u v"
  obtains l1 l2 a where "l = l1 @ l2" and "plays p l1 (Returns (Inr a))" and "R a"
    and "plays (k a) l2 q" and "(i, u, v) \<in> set l2"
  using assms(1)
proof (cases rule: plays_bindE)
  case (1 p')
  then show ?thesis using plays_obeys(2) [OF 1(1) assms(2,3)] assms(4,5) by blast
next
  case (2 l1 l2 a)
  have I: "\<forall>e \<in> set l1. I (fst (snd e))" using assms(3) 2(1) by simp
  have "R a" using plays_obeys(1) [OF 2(2) assms(2) I] by simp
  moreover have "(i, u, v) \<notin> set l1" using plays_obeys(2) [OF 2(2) assms(2) I] assms(5) by blast
  ultimately show ?thesis using 2 that assms(4) by auto
qed

text \<open>An invariant that all requests of a run keep, and a relation that is a preorder on it, hold between
  any two moments of the run.\<close>

locale lasting =
  fixes I :: "'s \<Rightarrow> bool" and G :: "'s \<Rightarrow> 's \<Rightarrow> bool"
  assumes stays: "I s \<Longrightarrow> G s s"
    and lasts: "G s t \<Longrightarrow> G t u \<Longrightarrow> G s u"
begin

lemma runs_obey:
  "runs P s t Q s' \<Longrightarrow> I s \<Longrightarrow> \<forall>j. obeys I G (R j) (P j) \<Longrightarrow> I s' \<and> G s s' \<and> (\<forall>j. obeys I G (R j) (Q j))"
proof (induction rule: runs.induct)
  case (runs_Nil P s)
  then show ?case by (simp add: stays)
next
  case (runs_Cons P j f i s s' q t Q s'')
  have "obeys I G (R j) (Awaits f)" using runs_Cons.prems(2) runs_Cons.hyps(1) by metis
  then have *: "I s' \<and> G s s' \<and> obeys I G (R j) q"
    using runs_Cons.hyps(2) runs_Cons.prems(1) by (auto simp only: obeys_Awaits)
  then have "I s'' \<and> G s' s'' \<and> (\<forall>j. obeys I G (R j) (Q j))"
    using runs_Cons.prems(2) by (intro runs_Cons.IH) auto
  then show ?case using * lasts by blast
qed

lemma throughout:
  assumes "runs P s (t1 @ (j, i, u, v) # t2) Q s'" and "I s" and "\<forall>j. obeys I G (R j) (P j)"
  shows "I u" and "I v" and "G s u" and "G u v" and "G v s'"
proof -
  obtain M m where a: "runs P s t1 M m" and "runs M m ((j, i, u, v) # t2) Q s'"
    using assms(1) by (auto simp: runs_append)
  then obtain f q where [simp]: "m = u" and f: "M j = Awaits f" "f i u = (v, q)" and b: "runs (M (j := q)) v t2 Q s'"
    by (auto simp: runs_Cons_iff)
  have M: "I u" "G s u" "\<forall>j. obeys I G (R j) (M j)" using runs_obey [OF a assms(2,3)] by simp_all
  then show "I u" and "G s u" by simp_all
  have "obeys I G (R j) (Awaits f)" using M(3) f(1) by metis
  then have *: "I v \<and> G u v \<and> obeys I G (R j) q" using f(2) M(1) by (auto simp only: obeys_Awaits)
  then show "I v" and "G u v" by simp_all
  show "G v s'" using runs_obey [OF b, of R] * M(3) by auto
qed

lemma event_sound:
  assumes "runs P s t Q s'" and "I s" and "\<forall>j. obeys I G (R j) (P j)" and "(j, i, u, v) \<in> set t"
  shows "I u \<and> I v \<and> G s u \<and> G u v \<and> G v s'"
proof -
  obtain t1 t2 where t: "t = t1 @ (j, i, u, v) # t2" using split_list [OF assms(4)] by blast
  show ?thesis using throughout [OF assms(1) [unfolded t] assms(2,3)] by blast
qed

lemma between:
  assumes "runs P s (t1 @ (j, i, u, v) # t2 @ (j', i', u', v') # t3) Q s'" and "I s"
    and "\<forall>j. obeys I G (R j) (P j)"
  shows "G v u'"
proof -
  obtain M m where a: "runs P s t1 M m" and b: "runs M m ((j, i, u, v) # t2 @ (j', i', u', v') # t3) Q s'"
    using assms(1) by (auto simp: runs_append)
  obtain f q where f: "M j = Awaits f" "f i m = (v, q)"
    and c: "runs (M (j := q)) v (t2 @ (j', i', u', v') # t3) Q s'"
    using b by (auto simp: runs_Cons_iff)
  have M: "I m" "\<forall>j. obeys I G (R j) (M j)" using runs_obey [OF a assms(2,3)] by simp_all
  have "obeys I G (R j) (Awaits f)" using M(2) f(1) by metis
  then have "I v \<and> obeys I G (R j) q" using f(2) M(1) by (auto simp only: obeys_Awaits)
  then show ?thesis using throughout(3) [OF c, of R] M(2) by auto
qed

text \<open>The transactions of a trace, and of the log of one of its requests, are in order.\<close>

lemma trace_in_order:
  "runs P s t Q s' \<Longrightarrow> I s \<Longrightarrow> \<forall>j. obeys I G (R j) (P j) \<Longrightarrow>
     sorted_wrt (\<lambda>e e'. G (snd (snd (snd e))) (fst (snd (snd e')))) t"
proof (induction rule: runs.induct)
  case (runs_Cons P j f i s s' q t Q s'')
  have "obeys I G (R j) (Awaits f)" using runs_Cons.prems(2) runs_Cons.hyps(1) by metis
  then have *: "I s'" "\<forall>k. obeys I G (R k) ((P (j := q)) k)"
    using runs_Cons.hyps(2) runs_Cons.prems by (auto simp only: obeys_Awaits fun_upd_apply split: if_splits)
  then have "G s' (fst (snd (snd e)))" if "e \<in> set t" for e
    using event_sound [OF runs_Cons.hyps(3) *] that by (cases e) auto
  then show ?case using runs_Cons.IH * by simp
qed simp

lemma log_in_order:
  assumes "runs P s t Q s'" and "I s" and "\<forall>j. obeys I G (R j) (P j)"
  shows "sorted_wrt (\<lambda>e e'. G (snd (snd e)) (fst (snd e'))) (doneBy j t)"
  unfolding doneBy_def sorted_wrt_map
  by (rule sorted_wrt_mono_rel [OF _ sorted_wrt_filter [OF trace_in_order [OF assms]]]) auto

text \<open>Of two transactions of different requests one comes first.\<close>

lemma one_first:
  assumes "runs P s t Q s'" and "I s" and "\<forall>j. obeys I G (R j) (P j)"
    and "(j, i, u, v) \<in> set t" and "(j', i', u', v') \<in> set t" and "j \<noteq> j'"
  shows "G v u' \<or> G v' u"
proof -
  obtain t1 t2 where t: "t = t1 @ (j, i, u, v) # t2" using split_list [OF assms(4)] by blast
  consider "(j', i', u', v') \<in> set t1" | "(j', i', u', v') \<in> set t2" using assms(5,6) unfolding t by auto
  then show ?thesis
  proof cases
    case 1
    then obtain a b where "t1 = a @ (j', i', u', v') # b" using split_list by metis
    then have "runs P s (a @ (j', i', u', v') # b @ (j, i, u, v) # t2) Q s'" using assms(1) t by simp
    then show ?thesis using between [OF _ assms(2,3)] by blast
  next
    case 2
    then obtain a b where "t2 = a @ (j', i', u', v') # b" using split_list by metis
    then have "runs P s (t1 @ (j, i, u, v) # a @ (j', i', u', v') # b) Q s'" using assms(1) t by simp
    then show ?thesis using between [OF _ assms(2,3)] by blast
  qed
qed

end

end
