(* ===== verification/AuthTables.thy ===== *)
theory AuthTables
  imports Requests Totp
begin

text \<open>
  The tables of \<open>apps/api/src/auth\<close> and the services that own one each: the throttle
  (\<open>login-throttle.service.ts\<close>, table \<open>login_attempts\<close>), the challenges between the two factors
  (\<open>pending-login.service.ts\<close>), the sessions (\<open>session.service.ts\<close>), the password reset tickets
  (\<open>password-reset.service.ts\<close>), and the functions of the database that resolve a token before a tenant is
  known (migrations 0003, 0004, 0009, 0021). Row level security hides the rows of other organisations from
  a query inside \<open>withTenant\<close>: its condition is written out.

  The platform is a parameter: Argon2, SHA-256, HMAC, AES-GCM, and the database's folding of names. What is
  random, and the two clocks, are inputs of the transaction that uses them. The database counts microseconds;
  \<open>Date.now()\<close> is in milliseconds.
\<close>

record platform =
  pf_hmac :: hmac
  pf_sha256 :: "units \<Rightarrow> buffer"
  pf_fold :: "units \<Rightarrow> units"
  pf_argonHash :: "buffer \<Rightarrow> units \<Rightarrow> string"
  pf_argonVerify :: "string \<Rightarrow> units \<Rightarrow> bool"
  pf_encrypt :: "buffer \<Rightarrow> buffer \<Rightarrow> buffer \<Rightarrow> buffer \<Rightarrow> buffer \<times> buffer"
  pf_decrypt :: "buffer \<Rightarrow> buffer \<Rightarrow> buffer \<Rightarrow> buffer \<Rightarrow> buffer \<Rightarrow> buffer option"

record inp =
  in_now :: int
  in_clock :: int
  in_id :: id
  in_token :: units
  in_bytes :: "nat \<Rightarrow> buffer"
  in_conn :: connection

text \<open>\<open>randomBytes(n)\<close>, the \<open>k\<close>-th draw of a transaction: any \<open>n\<close> bytes.\<close>

definition randomBytes :: "inp \<Rightarrow> nat \<Rightarrow> nat \<Rightarrow> buffer" where
  "randomBytes i k n = take n (in_bytes i k @ replicate n 0)"

section \<open>Rows\<close>

record Account =
  ac_id :: id
  ac_org :: id
  ac_folded :: units
  ac_hash :: "string option"
  ac_disabled :: bool
  ac_role :: string
  ac_nt :: "(buffer \<times> nat) option"

record LoginAttempt =
  la_email :: units
  la_ip :: string
  la_succeeded :: bool
  la_at :: int

record PendingRow =
  pe_id :: id
  pe_org :: id
  pe_user :: id
  pe_hash :: buffer
  pe_attempts :: nat
  pe_expires :: int
  pe_consumed :: bool

record SessionRow =
  se_id :: id
  se_org :: id
  se_user :: id
  se_hash :: buffer
  se_agent :: "units option"
  se_ip :: "string option"
  se_seen :: int
  se_expires :: int
  se_revoked :: bool

record TotpRow =
  to_user :: id
  to_org :: id
  to_secret :: buffer
  to_version :: nat
  to_confirmed :: bool
  to_last :: "int option"

record RecoveryRow =
  re_org :: id
  re_user :: id
  re_hash :: buffer
  re_used :: bool

record ResetRow =
  rs_id :: id
  rs_org :: id
  rs_user :: id
  rs_by :: id
  rs_hash :: buffer
  rs_attempts :: nat
  rs_expires :: int
  rs_consumed :: bool

record AuditRow =
  au_org :: id
  au_actor :: id
  au_action :: string
  au_ip :: "string option"

record auth_db =
  ad_orgs :: "(id \<times> units) list"
  ad_users :: "Account list"
  ad_attempts :: "LoginAttempt list"
  ad_pending :: "PendingRow list"
  ad_sessions :: "SessionRow list"
  ad_secrets :: "TotpRow list"
  ad_codes :: "RecoveryRow list"
  ad_resets :: "ResetRow list"
  ad_audit :: "AuditRow list"

datatype auth_error =
    DatabaseLost
  | UniqueViolation
  | Unauthorized
  | Forbidden
  | NotFoundError
  | ConflictError
  | ValidationFailed
  | DependencyUnavailable
  | RateLimited int
  | CryptoFailed totp_error

type_synonym 'a handler = "(inp, auth_db, auth_error, 'a) request"

definition query :: "(inp \<Rightarrow> auth_db \<Rightarrow> auth_error + auth_db \<times> 'a) \<Rightarrow> 'a handler" where
  "query f = transact in_conn DatabaseLost f"

text \<open>\<open>UPDATE ... SET ... WHERE\<close>.\<close>

definition updateWhere :: "('r \<Rightarrow> bool) \<Rightarrow> ('r \<Rightarrow> 'r) \<Rightarrow> 'r list \<Rightarrow> 'r list" where
  "updateWhere p f = map (\<lambda>r. if p r then f r else r)"

definition enabled :: "auth_db \<Rightarrow> id \<Rightarrow> bool" where
  "enabled s user = list_ex (\<lambda>u. ac_id u = user \<and> \<not> ac_disabled u) (ad_users s)"

definition hashToken :: "platform \<Rightarrow> units \<Rightarrow> buffer" where
  "hashToken pf token = pf_sha256 pf token"

section \<open>The throttle\<close>

definition WINDOW_MINUTES :: int where
  "WINDOW_MINUTES = 15"

definition REFUSE_AFTER :: nat where
  "REFUSE_AFTER = 10"

definition MAX_DELAY_MS :: nat where
  "MAX_DELAY_MS = 1000"

datatype GateDecision = Allowed | Refused int

definition windowMicros :: int where
  "windowMicros = WINDOW_MINUTES * 60 * 1000000"

definition counted :: "int \<Rightarrow> units \<Rightarrow> string \<Rightarrow> LoginAttempt \<Rightarrow> bool" where
  "counted now email ip a \<longleftrightarrow>
     la_email a = email \<and> la_ip a = ip \<and> \<not> la_succeeded a \<and> la_at a > now - windowMicros"

definition recentFailures :: "units \<Rightarrow> string \<Rightarrow> nat handler" where
  "recentFailures email ip =
     query (\<lambda>i s. Inr (s, length (filter (counted (in_now i) email ip) (ad_attempts s))))"

text \<open>\<open>ceil(extract(epoch FROM ...))\<close>, of a difference in microseconds.\<close>

definition ceilSeconds :: "int \<Rightarrow> int" where
  "ceilSeconds micros = - ((- micros) div 1000000)"

definition newestFirstAttempts :: "LoginAttempt list \<Rightarrow> LoginAttempt list" where
  "newestFirstAttempts = sort_key (\<lambda>a. - la_at a)"

definition retryAfterSeconds :: "units \<Rightarrow> string \<Rightarrow> int handler" where
  "retryAfterSeconds email ip =
     query (\<lambda>i s.
       let rows = drop (REFUSE_AFTER - 1) (newestFirstAttempts (filter (counted (in_now i) email ip) (ad_attempts s)));
           seconds = (case rows of [] \<Rightarrow> 0 | r # _ \<Rightarrow> ceilSeconds (la_at r + windowMicros - in_now i))
       in Inr (s, max 1 seconds))"

definition delayAfter :: "nat \<Rightarrow> nat" where
  "delayAfter failures = min (2 ^ (failures - 1) * 50) MAX_DELAY_MS"

text \<open>While a request sleeps others run; how long is no part of the tables.\<close>

definition sleepFor :: "nat \<Rightarrow> unit handler" where
  "sleepFor ms = Awaits (\<lambda>i s. (s, returnR ()))"

definition gate :: "units \<Rightarrow> string \<Rightarrow> GateDecision handler" where
  "gate email ip =
     bindR (recentFailures email ip) (\<lambda>failures.
     if failures \<ge> REFUSE_AFTER
     then bindR (retryAfterSeconds email ip) (\<lambda>seconds. returnR (Refused seconds))
     else if failures > 0 then bindR (sleepFor (delayAfter failures)) (\<lambda>_. returnR Allowed)
     else returnR Allowed)"

definition recordLogin :: "units \<Rightarrow> string \<Rightarrow> bool \<Rightarrow> unit handler" where
  "recordLogin email ip succeeded =
     query (\<lambda>i s. Inr (s\<lparr>ad_attempts := ad_attempts s @
       [\<lparr>la_email = email, la_ip = ip, la_succeeded = succeeded, la_at = in_now i\<rparr>]\<rparr>, ()))"

section \<open>Challenges\<close>

definition PENDING_LIFETIME_MS :: int where
  "PENDING_LIFETIME_MS = 5 * 60000"

definition MAX_ATTEMPTS :: nat where
  "MAX_ATTEMPTS = 6"

record PendingChallenge =
  pc_token :: units
  pc_expires :: int

record ResolvedPending =
  rp_id :: id
  rp_org :: id
  rp_user :: id
  rp_attempts :: nat

definition openPending :: "id \<Rightarrow> id \<Rightarrow> PendingRow \<Rightarrow> bool" where
  "openPending org user p \<longleftrightarrow> pe_org p = org \<and> pe_user p = user \<and> \<not> pe_consumed p"

definition createPending :: "platform \<Rightarrow> id \<Rightarrow> id \<Rightarrow> PendingChallenge handler" where
  "createPending pf org user =
     query (\<lambda>i s.
       let expires = in_clock i + PENDING_LIFETIME_MS;
           rows = updateWhere (openPending org user) (pe_consumed_update (\<lambda>_. True)) (ad_pending s);
           new = \<lparr>pe_id = in_id i, pe_org = org, pe_user = user, pe_hash = hashToken pf (in_token i),
                  pe_attempts = 0, pe_expires = 1000 * expires, pe_consumed = False\<rparr>
       in if list_ex (\<lambda>p. pe_id p = pe_id new \<or> pe_hash p = pe_hash new) rows then Inl UniqueViolation
          else Inr (s\<lparr>ad_pending := rows @ [new]\<rparr>, \<lparr>pc_token = in_token i, pc_expires = expires\<rparr>))"

text \<open>\<open>resolve_pending_login\<close> of migration 0004.\<close>

definition livePending :: "int \<Rightarrow> buffer \<Rightarrow> auth_db \<Rightarrow> PendingRow \<Rightarrow> bool" where
  "livePending now h s p \<longleftrightarrow>
     pe_hash p = h \<and> \<not> pe_consumed p \<and> pe_expires p > now \<and> pe_attempts p < MAX_ATTEMPTS \<and> enabled s (pe_user p)"

definition resolvePending :: "platform \<Rightarrow> units \<Rightarrow> ResolvedPending option handler" where
  "resolvePending pf token =
     query (\<lambda>i s. Inr (s, map_option
       (\<lambda>p. \<lparr>rp_id = pe_id p, rp_org = pe_org p, rp_user = pe_user p, rp_attempts = pe_attempts p\<rparr>)
       (List.find (livePending (in_now i) (hashToken pf token) s) (ad_pending s))))"

definition countAttempt :: "id \<Rightarrow> id \<Rightarrow> unit handler" where
  "countAttempt org pending =
     query (\<lambda>i s. Inr (s\<lparr>ad_pending :=
       updateWhere (\<lambda>p. pe_org p = org \<and> pe_id p = pending) (pe_attempts_update Suc) (ad_pending s)\<rparr>, ()))"

definition consumePending :: "id \<Rightarrow> id \<Rightarrow> bool handler" where
  "consumePending org pending =
     query (\<lambda>i s.
       let hit = (\<lambda>p. pe_org p = org \<and> pe_id p = pending \<and> \<not> pe_consumed p)
       in Inr (s\<lparr>ad_pending := updateWhere hit (pe_consumed_update (\<lambda>_. True)) (ad_pending s)\<rparr>,
               length (filter hit (ad_pending s)) = 1))"

section \<open>Sessions\<close>

datatype UserRole = Admin | Member

record ResolvedSession =
  rv_id :: id
  rv_org :: id
  rv_user :: id
  rv_role :: UserRole
  rv_expires :: int

record IssuedSession =
  is_token :: units
  is_id :: id
  is_expires :: int

definition LIFETIME_HOURS :: int where
  "LIFETIME_HOURS = 24 * 7"

definition issueSession :: "platform \<Rightarrow> id \<Rightarrow> id \<Rightarrow> units option \<Rightarrow> string option \<Rightarrow> IssuedSession handler" where
  "issueSession pf org user agent ip =
     query (\<lambda>i s.
       let expires = in_clock i + LIFETIME_HOURS * 3600000;
           new = \<lparr>se_id = in_id i, se_org = org, se_user = user, se_hash = hashToken pf (in_token i),
                  se_agent = map_option (take 512) agent, se_ip = ip, se_seen = in_now i,
                  se_expires = 1000 * expires, se_revoked = False\<rparr>
       in if list_ex (\<lambda>r. se_id r = se_id new \<or> se_hash r = se_hash new) (ad_sessions s) then Inl UniqueViolation
          else Inr (s\<lparr>ad_sessions := ad_sessions s @ [new]\<rparr>,
                    \<lparr>is_token = in_token i, is_id = in_id i, is_expires = expires\<rparr>))"

text \<open>\<open>resolve_session\<close> of migration 0009: the role is read by the statement that resolves the token.\<close>

definition liveSession :: "int \<Rightarrow> buffer \<Rightarrow> auth_db \<Rightarrow> SessionRow \<Rightarrow> bool" where
  "liveSession now h s r \<longleftrightarrow>
     se_hash r = h \<and> \<not> se_revoked r \<and> se_expires r > now \<and> enabled s (se_user r)"

definition roleOf :: "auth_db \<Rightarrow> id \<Rightarrow> UserRole" where
  "roleOf s user =
     (case List.find (\<lambda>u. ac_id u = user) (ad_users s) of
        None \<Rightarrow> Member
      | Some u \<Rightarrow> if ac_role u = ''admin'' then Admin else Member)"

definition resolveSession :: "platform \<Rightarrow> units \<Rightarrow> ResolvedSession option handler" where
  "resolveSession pf token =
     query (\<lambda>i s. Inr (s, map_option
       (\<lambda>r. \<lparr>rv_id = se_id r, rv_org = se_org r, rv_user = se_user r, rv_role = roleOf s (se_user r),
             rv_expires = se_expires r\<rparr>)
       (List.find (liveSession (in_now i) (hashToken pf token) s) (ad_sessions s))))"

definition revokeSession :: "id \<Rightarrow> id \<Rightarrow> unit handler" where
  "revokeSession org session =
     query (\<lambda>i s. Inr (s\<lparr>ad_sessions :=
       updateWhere (\<lambda>r. se_org r = org \<and> se_id r = session \<and> \<not> se_revoked r) (se_revoked_update (\<lambda>_. True))
         (ad_sessions s)\<rparr>, ()))"

definition revokeAllForUser :: "id \<Rightarrow> id \<Rightarrow> nat handler" where
  "revokeAllForUser org user =
     query (\<lambda>i s.
       let hit = (\<lambda>r. se_org r = org \<and> se_user r = user \<and> \<not> se_revoked r)
       in Inr (s\<lparr>ad_sessions := updateWhere hit (se_revoked_update (\<lambda>_. True)) (ad_sessions s)\<rparr>,
               length (filter hit (ad_sessions s))))"

definition touchSession :: "id \<Rightarrow> id \<Rightarrow> unit handler" where
  "touchSession org session =
     query (\<lambda>i s. Inr (s\<lparr>ad_sessions :=
       updateWhere (\<lambda>r. se_org r = org \<and> se_id r = session) (se_seen_update (\<lambda>_. in_now i)) (ad_sessions s)\<rparr>, ()))"

section \<open>Reset tickets\<close>

definition RESET_LIFETIME_MS :: int where
  "RESET_LIFETIME_MS = 30 * 60000"

record IssuedReset =
  ir_token :: units
  ir_expires :: int

record ResolvedReset =
  rr_id :: id
  rr_org :: id
  rr_user :: id
  rr_attempts :: nat

definition openReset :: "platform \<Rightarrow> id \<Rightarrow> id \<Rightarrow> id \<Rightarrow> IssuedReset handler" where
  "openReset pf org user createdBy =
     query (\<lambda>i s.
       let expires = in_clock i + RESET_LIFETIME_MS;
           rows = updateWhere (\<lambda>r. rs_org r = org \<and> rs_user r = user \<and> \<not> rs_consumed r)
                    (rs_consumed_update (\<lambda>_. True)) (ad_resets s);
           new = \<lparr>rs_id = in_id i, rs_org = org, rs_user = user, rs_by = createdBy,
                  rs_hash = hashToken pf (in_token i), rs_attempts = 0, rs_expires = 1000 * expires,
                  rs_consumed = False\<rparr>
       in if list_ex (\<lambda>r. rs_id r = rs_id new \<or> rs_hash r = rs_hash new) rows then Inl UniqueViolation
          else Inr (s\<lparr>ad_resets := rows @ [new]\<rparr>, \<lparr>ir_token = in_token i, ir_expires = expires\<rparr>))"

text \<open>\<open>resolve_password_reset\<close> of migration 0021.\<close>

definition liveReset :: "int \<Rightarrow> buffer \<Rightarrow> auth_db \<Rightarrow> ResetRow \<Rightarrow> bool" where
  "liveReset now h s r \<longleftrightarrow>
     rs_hash r = h \<and> \<not> rs_consumed r \<and> rs_expires r > now \<and> rs_attempts r < MAX_ATTEMPTS \<and> enabled s (rs_user r)"

definition resolveReset :: "platform \<Rightarrow> units \<Rightarrow> ResolvedReset option handler" where
  "resolveReset pf token =
     query (\<lambda>i s. Inr (s, map_option
       (\<lambda>r. \<lparr>rr_id = rs_id r, rr_org = rs_org r, rr_user = rs_user r, rr_attempts = rs_attempts r\<rparr>)
       (List.find (liveReset (in_now i) (hashToken pf token) s) (ad_resets s))))"

definition recordAttempt :: "id \<Rightarrow> id \<Rightarrow> unit handler" where
  "recordAttempt org reset =
     query (\<lambda>i s. Inr (s\<lparr>ad_resets :=
       updateWhere (\<lambda>r. rs_org r = org \<and> rs_id r = reset) (rs_attempts_update Suc) (ad_resets s)\<rparr>, ()))"

definition consumeReset :: "id \<Rightarrow> id \<Rightarrow> bool handler" where
  "consumeReset org reset =
     query (\<lambda>i s.
       let hit = (\<lambda>r. rs_org r = org \<and> rs_id r = reset \<and> \<not> rs_consumed r)
       in Inr (s\<lparr>ad_resets := updateWhere hit (rs_consumed_update (\<lambda>_. True)) (ad_resets s)\<rparr>,
               length (filter hit (ad_resets s)) > 0))"

section \<open>The audit trail\<close>

text \<open>Of a row of the trail: who, what and from where; its sentence is left out.\<close>

definition auditRecord :: "id \<Rightarrow> id \<Rightarrow> string \<Rightarrow> string option \<Rightarrow> unit handler" where
  "auditRecord org actor action ip =
     query (\<lambda>i s. Inr (s\<lparr>ad_audit := ad_audit s @
       [\<lparr>au_org = org, au_actor = actor, au_action = action, au_ip = ip\<rparr>]\<rparr>, ()))"

end
