(* ===== verification/NtHash.thy ===== *)
theory NtHash
  imports Totp
begin

text \<open>
  \<open>apps/api/src/auth/nt-hash.ts\<close>: MD4 as the code writes it, one loop of 48 rounds over two tables, on
  32-bit words, and the NT hash of a password.
\<close>

definition SHIFTS :: "nat list" where
  "SHIFTS =
     [3, 7, 11, 19, 3, 7, 11, 19, 3, 7, 11, 19, 3, 7, 11, 19, 3, 5, 9, 13, 3, 5, 9, 13, 3, 5, 9, 13, 3,
      5, 9, 13, 3, 9, 11, 15, 3, 9, 11, 15, 3, 9, 11, 15, 3, 9, 11, 15]"

definition ORDER :: "nat list" where
  "ORDER =
     [0, 1, 2, 3, 4, 5, 6, 7, 8, 9, 10, 11, 12, 13, 14, 15, 0, 4, 8, 12, 1, 5, 9, 13, 2, 6, 10, 14, 3,
      7, 11, 15, 0, 8, 4, 12, 2, 10, 6, 14, 1, 9, 5, 13, 3, 11, 7, 15]"

definition rotl :: "32 word \<Rightarrow> nat \<Rightarrow> 32 word" where
  "rotl x n = push_bit n x OR drop_bit (32 - n) x"

text \<open>\<open>setBigUint64(..., true)\<close>, \<open>getUint32(..., true)\<close> and \<open>setUint32(..., true)\<close>.\<close>

definition uint64LE :: "int \<Rightarrow> buffer" where
  "uint64LE n = map (\<lambda>i. word_of_int (drop_bit (8 * i) n)) [0..<8]"

definition getUint32LE :: "buffer \<Rightarrow> nat \<Rightarrow> 32 word" where
  "getUint32LE v i =
     ucast (v ! i) OR push_bit 8 (ucast (v ! (i + 1))) OR push_bit 16 (ucast (v ! (i + 2)))
     OR push_bit 24 (ucast (v ! (i + 3)))"

definition uint32LE :: "32 word \<Rightarrow> buffer" where
  "uint32LE w = map (\<lambda>i. ucast (drop_bit (8 * i) w)) [0..<4]"

text \<open>The message, \<open>0x80\<close>, zeros, and the number of bits, in a buffer of whole 64-byte blocks.\<close>

definition padMd4 :: "buffer \<Rightarrow> buffer" where
  "padMd4 message =
     (let size = ((length message + 8) div 64 + 1) * 64;
          zeros = replicate size 0;
          withMessage = message @ drop (length message) zeros;
          marked = withMessage[length message := 0x80]
      in take (size - 8) marked @ uint64LE (int (length message) * 8))"

type_synonym registers = "32 word \<times> 32 word \<times> 32 word \<times> 32 word"

definition md4Round :: "32 word list \<Rightarrow> registers \<Rightarrow> nat \<Rightarrow> registers" where
  "md4Round x r i =
     (case r of (a, b, c, d) \<Rightarrow>
        let fk = (if i < 16 then ((b AND c) OR (NOT b AND d), 0)
                  else if i < 32 then ((b AND c) OR (b AND d) OR (c AND d), 0x5a827999)
                  else (b XOR c XOR d, 0x6ed9eba1));
            word = x ! (ORDER ! i);
            shift = SHIFTS ! i;
            next = rotl (a + fst fk + word + snd fk) shift
        in (d, next, b, c))"

definition md4Block :: "buffer \<Rightarrow> registers \<Rightarrow> nat \<Rightarrow> registers" where
  "md4Block padded r offset =
     (let x = map (\<lambda>i. getUint32LE padded (offset + i * 4)) [0..<16]
      in case fold (\<lambda>i r. md4Round x r i) [0..<48] r of
           (a, b, c, d) \<Rightarrow> (case r of (aa, bb, cc, dd) \<Rightarrow> (a + aa, b + bb, c + cc, d + dd)))"

definition md4 :: "buffer \<Rightarrow> buffer" where
  "md4 message =
     (let padded = padMd4 message in
      case fold (\<lambda>k r. md4Block padded r (64 * k)) [0..<length padded div 64]
             (0x67452301, 0xefcdab89, 0x98badcfe, 0x10325476) of
        (a, b, c, d) \<Rightarrow> uint32LE a @ uint32LE b @ uint32LE c @ uint32LE d)"

definition utf16le :: "units \<Rightarrow> buffer" where
  "utf16le cs = concat (map (\<lambda>c. [word_of_nat c, word_of_nat (c div 256)]) cs)"

definition HEX :: string where
  "HEX = ''0123456789ABCDEF''"

definition hexUpper :: "buffer \<Rightarrow> string" where
  "hexUpper v = concat (map (\<lambda>b. [HEX ! (unat b div 16), HEX ! (unat b mod 16)]) v)"

definition ntHash :: "units \<Rightarrow> string" where
  "ntHash password = hexUpper (md4 (utf16le password))"

end
