(* ===== verification/Mfa.thy ===== *)
theory Mfa
  imports AuthTables NtHash
begin

text \<open>
  The second factor: the envelope of a secret at rest (\<open>secret-box.ts\<close>) and \<open>mfa.service.ts\<close>, which owns
  \<open>user_totp_secrets\<close> and \<open>user_recovery_codes\<close>. \<open>None\<close> for the key is the code's \<open>secrets === null\<close>.
\<close>

section \<open>Sealing\<close>

definition NONCE_BYTES :: nat where
  "NONCE_BYTES = 12"

definition TAG_BYTES :: nat where
  "TAG_BYTES = 16"

definition KEY_VERSION_PLAINTEXT :: nat where
  "KEY_VERSION_PLAINTEXT = 0"

definition KEY_VERSION_AES_GCM :: nat where
  "KEY_VERSION_AES_GCM = 1"

text \<open>The identifiers are uuids, so their UTF-8 is their characters.\<close>

definition aad :: "id \<Rightarrow> id \<Rightarrow> buffer" where
  "aad userId organizationId = map (\<lambda>c. word_of_nat (of_char c)) (userId @ ''|'' @ organizationId)"

definition seal :: "platform \<Rightarrow> buffer \<Rightarrow> buffer \<Rightarrow> buffer \<Rightarrow> id \<Rightarrow> id \<Rightarrow> buffer" where
  "seal pf key nonce plaintext userId organizationId =
     (case pf_encrypt pf key nonce (aad userId organizationId) plaintext of
        (body, tag) \<Rightarrow> [word_of_nat KEY_VERSION_AES_GCM] @ nonce @ body @ tag)"

datatype decryption_error = TooShort | UnknownVersion | AuthenticationFailed

definition openEnvelope :: "platform \<Rightarrow> buffer \<Rightarrow> buffer \<Rightarrow> id \<Rightarrow> id \<Rightarrow> decryption_error + buffer" where
  "openEnvelope pf key envelope userId organizationId =
     (if length envelope < 1 + NONCE_BYTES + TAG_BYTES then Inl TooShort
      else if envelope ! 0 \<noteq> word_of_nat KEY_VERSION_AES_GCM then Inl UnknownVersion
      else let nonce = take NONCE_BYTES (drop 1 envelope);
               body = drop (1 + NONCE_BYTES) (take (length envelope - TAG_BYTES) envelope);
               tag = drop (length envelope - TAG_BYTES) envelope
           in case pf_decrypt pf key nonce (aad userId organizationId) body tag of
                None \<Rightarrow> Inl AuthenticationFailed
              | Some plaintext \<Rightarrow> Inr plaintext)"

section \<open>Secrets\<close>

definition mineSecret :: "id \<Rightarrow> id \<Rightarrow> TotpRow \<Rightarrow> bool" where
  "mineSecret org user r \<longleftrightarrow> to_org r = org \<and> to_user r = user"

definition unsealed_totp_secret_count :: "nat handler" where
  "unsealed_totp_secret_count =
     query (\<lambda>i s. Inr (s, length (filter (\<lambda>r. to_version r = KEY_VERSION_PLAINTEXT) (ad_secrets s))))"

text \<open>A plaintext row is sealed when it is read, if it still is plaintext.\<close>

definition unseal :: "platform \<Rightarrow> buffer option \<Rightarrow> id \<Rightarrow> id \<Rightarrow> buffer \<Rightarrow> nat \<Rightarrow> buffer option handler" where
  "unseal pf secrets org user stored version =
     (if version = KEY_VERSION_PLAINTEXT
      then (case secrets of
              None \<Rightarrow> returnR (Some stored)
            | Some key \<Rightarrow>
                query (\<lambda>i s.
                  let sealed = seal pf key (randomBytes i 0 NONCE_BYTES) stored user org
                  in Inr (s\<lparr>ad_secrets :=
                       updateWhere (\<lambda>r. mineSecret org user r \<and> to_version r = KEY_VERSION_PLAINTEXT)
                         (\<lambda>r. r\<lparr>to_secret := sealed, to_version := KEY_VERSION_AES_GCM\<rparr>) (ad_secrets s)\<rparr>,
                     Some stored)))
      else (case secrets of
              None \<Rightarrow> returnR None
            | Some key \<Rightarrow>
                (case openEnvelope pf key stored user org of
                   Inl e \<Rightarrow> returnR None
                 | Inr secret \<Rightarrow> returnR (Some secret))))"

definition secretRow :: "platform \<Rightarrow> buffer option \<Rightarrow> id \<Rightarrow> id \<Rightarrow> bool \<Rightarrow> (buffer \<times> int option) option handler" where
  "secretRow pf secrets org user requireConfirmed =
     bindR (query (\<lambda>i s. Inr (s, List.find
              (\<lambda>r. mineSecret org user r \<and> (requireConfirmed \<longrightarrow> to_confirmed r)) (ad_secrets s)))) (\<lambda>found.
     case found of
       None \<Rightarrow> returnR None
     | Some row \<Rightarrow>
         bindR (unseal pf secrets org user (to_secret row) (to_version row)) (\<lambda>secret.
         returnR (map_option (\<lambda>secret. (secret, to_last row)) secret)))"

definition secretOf :: "platform \<Rightarrow> buffer option \<Rightarrow> id \<Rightarrow> id \<Rightarrow> bool \<Rightarrow> buffer option handler" where
  "secretOf pf secrets org user requireConfirmed =
     bindR (secretRow pf secrets org user requireConfirmed) (\<lambda>row. returnR (map_option fst row))"

text \<open>\<open>Math.floor(Date.now() / 1000)\<close>, read between two transactions.\<close>

definition unixNow :: "int handler" where
  "unixNow = Awaits (\<lambda>i s. (s, returnR (in_clock i div 1000)))"

definition absoluteStep :: "int \<Rightarrow> int \<Rightarrow> int" where
  "absoluteStep unixSeconds offset = unixSeconds div PERIOD_SECONDS + offset"

definition checkCode :: "platform \<Rightarrow> buffer \<Rightarrow> units \<Rightarrow> int \<Rightarrow> int option handler" where
  "checkCode pf secret code now =
     (case verifyTotp (pf_hmac pf) secret code now of
        Inl e \<Rightarrow> throwR (CryptoFailed e)
      | Inr step \<Rightarrow> returnR step)"

section \<open>Recovery codes\<close>

definition RECOVERY_CODE_COUNT :: nat where
  "RECOVERY_CODE_COUNT = 10"

definition RECOVERY_CODE_CHARS :: nat where
  "RECOVERY_CODE_CHARS = 20"

text \<open>The inner loop of \<open>generateRecoveryCode\<close>, over one draw of \<open>randomBytes\<close>: each byte gives a character,
  because its low five bits index the alphabet, so the draw of 20 bytes fills the code.\<close>

fun recoveryLoop :: "string \<Rightarrow> buffer \<Rightarrow> string" where
  "recoveryLoop out [] = out"
| "recoveryLoop out (byte # rest) =
     (let out' = out @ [ALPHABET ! unat (byte AND 31)]
      in if length out' = RECOVERY_CODE_CHARS then out' else recoveryLoop out' rest)"

definition generateRecoveryCode :: "buffer \<Rightarrow> string" where
  "generateRecoveryCode draw = recoveryLoop [] draw"

definition canonical :: "units \<Rightarrow> units" where
  "canonical code = toUpperCase (filter (\<lambda>c. \<not> isSpace c \<and> c \<noteq> 45) code)"

definition hashRecoveryCode :: "platform \<Rightarrow> units \<Rightarrow> buffer" where
  "hashRecoveryCode pf code = pf_sha256 pf (canonical code)"

definition mineCode :: "id \<Rightarrow> id \<Rightarrow> RecoveryRow \<Rightarrow> bool" where
  "mineCode org user r \<longleftrightarrow> re_org r = org \<and> re_user r = user"

text \<open>\<open>DELETE\<close> and the ten \<open>INSERT\<close>s, in the transaction of the caller; \<open>(organization_id, code_hash)\<close> is
  unique.\<close>

fun insertCodes :: "id \<Rightarrow> id \<Rightarrow> buffer list \<Rightarrow> RecoveryRow list \<Rightarrow> auth_error + RecoveryRow list" where
  "insertCodes org user [] rows = Inr rows"
| "insertCodes org user (h # hs) rows =
     (if list_ex (\<lambda>r. re_org r = org \<and> re_hash r = h) rows then Inl UniqueViolation
      else insertCodes org user hs (rows @ [\<lparr>re_org = org, re_user = user, re_hash = h, re_used = False\<rparr>]))"

definition replaceCodes :: "platform \<Rightarrow> id \<Rightarrow> id \<Rightarrow> string list \<Rightarrow> auth_db \<Rightarrow> auth_error + auth_db" where
  "replaceCodes pf org user codes s =
     bindE (insertCodes org user (map (\<lambda>c. hashRecoveryCode pf (unitsOf c)) codes)
              (filter (\<lambda>r. \<not> mineCode org user r) (ad_codes s)))
       (\<lambda>rows. Inr (s\<lparr>ad_codes := rows\<rparr>))"

definition newCodes :: "inp \<Rightarrow> string list" where
  "newCodes i = map (\<lambda>k. generateRecoveryCode (randomBytes i k RECOVERY_CODE_CHARS)) [0..<RECOVERY_CODE_COUNT]"

definition regenerateRecoveryCodes :: "platform \<Rightarrow> id \<Rightarrow> id \<Rightarrow> string list handler" where
  "regenerateRecoveryCodes pf org user =
     query (\<lambda>i s. bindE (replaceCodes pf org user (newCodes i) s) (\<lambda>s'. Inr (s', newCodes i)))"

definition remainingRecoveryCodes :: "id \<Rightarrow> id \<Rightarrow> nat handler" where
  "remainingRecoveryCodes org user =
     query (\<lambda>i s. Inr (s, length (filter (\<lambda>r. mineCode org user r \<and> \<not> re_used r) (ad_codes s))))"

definition consumeRecoveryCode :: "platform \<Rightarrow> id \<Rightarrow> id \<Rightarrow> units \<Rightarrow> bool handler" where
  "consumeRecoveryCode pf org user code =
     query (\<lambda>i s.
       let hit = (\<lambda>r. mineCode org user r \<and> re_hash r = hashRecoveryCode pf code \<and> \<not> re_used r)
       in Inr (s\<lparr>ad_codes := updateWhere hit (re_used_update (\<lambda>_. True)) (ad_codes s)\<rparr>,
               length (filter hit (ad_codes s)) = 1))"

section \<open>Enrolment\<close>

text \<open>Of the answer, the text form of the secret; the URI carries the same text.\<close>

definition beginEnrolment :: "platform \<Rightarrow> buffer option \<Rightarrow> id \<Rightarrow> id \<Rightarrow> string handler" where
  "beginEnrolment pf secrets org user =
     (case secrets of
        None \<Rightarrow> throwR DependencyUnavailable
      | Some key \<Rightarrow>
          query (\<lambda>i s.
            let secret = randomBytes i 0 20;
                sealed = seal pf key (randomBytes i 1 NONCE_BYTES) secret user org;
                new = \<lparr>to_user = user, to_org = org, to_secret = sealed, to_version = KEY_VERSION_AES_GCM,
                       to_confirmed = False, to_last = None\<rparr>
            in if list_ex (\<lambda>r. to_user r = user \<and> to_org r \<noteq> org) (ad_secrets s) then Inl Forbidden
               else Inr (s\<lparr>ad_secrets :=
                      (if list_ex (mineSecret org user) (ad_secrets s)
                       then updateWhere (mineSecret org user) (\<lambda>r. new) (ad_secrets s)
                       else ad_secrets s @ [new])\<rparr>,
                    base32Encode secret)))"

definition confirmEnrolment :: "platform \<Rightarrow> buffer option \<Rightarrow> id \<Rightarrow> id \<Rightarrow> units \<Rightarrow> string list option handler" where
  "confirmEnrolment pf secrets org user code =
     bindR (secretOf pf secrets org user False) (\<lambda>secret.
     case secret of
       None \<Rightarrow> returnR None
     | Some secret \<Rightarrow>
         bindR unixNow (\<lambda>now.
         bindR (checkCode pf secret code now) (\<lambda>step.
         case step of
           None \<Rightarrow> returnR None
         | Some step \<Rightarrow>
             query (\<lambda>i s.
               let confirmed = s\<lparr>ad_secrets := updateWhere (mineSecret org user)
                     (\<lambda>r. r\<lparr>to_confirmed := True, to_last := Some (absoluteStep now step)\<rparr>) (ad_secrets s)\<rparr>
               in bindE (replaceCodes pf org user (newCodes i) confirmed) (\<lambda>s'. Inr (s', Some (newCodes i)))))))"

definition isEnrolled :: "id \<Rightarrow> id \<Rightarrow> bool handler" where
  "isEnrolled org user =
     query (\<lambda>i s. Inr (s, list_ex (\<lambda>r. mineSecret org user r \<and> to_confirmed r) (ad_secrets s)))"

section \<open>Verification\<close>

datatype UsedFactor = Totp | RecoveryCode

datatype SecondFactorResult = FactorOk UsedFactor | FactorRejected

text \<open>The burn is one conditional \<open>UPDATE\<close>: it matches only while the counter is below the step.\<close>

definition burnStep :: "id \<Rightarrow> id \<Rightarrow> int \<Rightarrow> bool handler" where
  "burnStep org user used =
     query (\<lambda>i s.
       let hit = (\<lambda>r. mineSecret org user r \<and> (case to_last r of None \<Rightarrow> True | Some l \<Rightarrow> l < used))
       in Inr (s\<lparr>ad_secrets := updateWhere hit (to_last_update (\<lambda>_. Some used)) (ad_secrets s)\<rparr>,
               length (filter hit (ad_secrets s)) = 1))"

definition verifyTotpCode :: "platform \<Rightarrow> buffer option \<Rightarrow> id \<Rightarrow> id \<Rightarrow> units \<Rightarrow> bool handler" where
  "verifyTotpCode pf secrets org user code =
     bindR (secretRow pf secrets org user True) (\<lambda>row.
     case row of
       None \<Rightarrow> returnR False
     | Some (secret, lastUsedStep) \<Rightarrow>
         bindR unixNow (\<lambda>now.
         bindR (checkCode pf secret code now) (\<lambda>step.
         case step of
           None \<Rightarrow> returnR False
         | Some step \<Rightarrow>
             (let used = absoluteStep now step in
              case lastUsedStep of
                Some l \<Rightarrow> if used \<le> l then returnR False else burnStep org user used
              | None \<Rightarrow> burnStep org user used))))"

definition totpShape :: "units \<Rightarrow> bool" where
  "totpShape c \<longleftrightarrow> length c = 6 \<and> list_all isDigit c"

definition recoveryShape :: "units \<Rightarrow> bool" where
  "recoveryShape c \<longleftrightarrow> length c = 20 \<and> list_all (\<lambda>u. (65 \<le> u \<and> u \<le> 90) \<or> (50 \<le> u \<and> u \<le> 55)) c"

definition verifySecondFactor :: "platform \<Rightarrow> buffer option \<Rightarrow> id \<Rightarrow> id \<Rightarrow> units \<Rightarrow> SecondFactorResult handler" where
  "verifySecondFactor pf secrets org user submitted =
     (let cleaned = canonical submitted in
      if totpShape cleaned
      then bindR (verifyTotpCode pf secrets org user cleaned) (\<lambda>ok.
           returnR (if ok then FactorOk Totp else FactorRejected))
      else if recoveryShape cleaned
      then bindR (consumeRecoveryCode pf org user cleaned) (\<lambda>ok.
           returnR (if ok then FactorOk RecoveryCode else FactorRejected))
      else returnR FactorRejected)"

end
