(* ===== verification/SignIn.thy ===== *)
theory SignIn
  imports Mfa
begin

text \<open>
  Signing in and what a session may do to its own account: \<open>auth.service.ts\<close>, \<open>reauth.service.ts\<close>,
  \<open>users/password-reset.controller.ts\<close>, the parts of \<open>me.controller.ts\<close>, \<open>auth.controller.ts\<close> and
  \<open>users.service.ts\<close> that change these tables, and \<open>session.guard.ts\<close>. Parsing and the origin check of a
  request come before these and touch no table.
\<close>

section \<open>Passwords and organisations\<close>

text \<open>\<open>PasswordService.verify\<close>: an account without a password fails, after the decoy's verification.\<close>

definition verifyPassword :: "platform \<Rightarrow> string option \<Rightarrow> units \<Rightarrow> bool" where
  "verifyPassword pf stored candidate =
     (case stored of None \<Rightarrow> False | Some h \<Rightarrow> pf_argonVerify pf h candidate)"

definition resolveSoleId :: "id option handler" where
  "resolveSoleId = query (\<lambda>i s. Inr (s, case ad_orgs s of [(org, slug)] \<Rightarrow> Some org | _ \<Rightarrow> None))"

definition resolveIdBySlug :: "units \<Rightarrow> id option handler" where
  "resolveIdBySlug slug =
     query (\<lambda>i s. Inr (s, map_option fst (List.find (\<lambda>r. snd r = slug) (ad_orgs s))))"

definition foldName :: "platform \<Rightarrow> units \<Rightarrow> units handler" where
  "foldName pf name = query (\<lambda>i s. Inr (s, pf_fold pf name))"

record UserRow =
  ur_id :: id
  ur_hash :: "string option"

definition findUser :: "id \<Rightarrow> units \<Rightarrow> UserRow option handler" where
  "findUser org usernameFolded =
     query (\<lambda>i s. Inr (s, map_option (\<lambda>u. \<lparr>ur_id = ac_id u, ur_hash = ac_hash u\<rparr>)
       (List.find (\<lambda>u. ac_org u = org \<and> ac_folded u = usernameFolded \<and> \<not> ac_disabled u) (ad_users s))))"

section \<open>The two steps\<close>

record LoginRequest =
  lr_username :: units
  lr_slug :: "units option"
  lr_password :: units
  lr_agent :: "units option"
  lr_ip :: string

datatype LoginResult =
    LoginOk IssuedSession id id
  | MfaRequired PendingChallenge
  | LoginRejected
  | Throttled int

record SecondFactorRequest =
  sf_token :: units
  sf_code :: units
  sf_agent :: "units option"
  sf_ip :: string

datatype SecondFactorLoginResult =
    SecondOk IssuedSession id id UsedFactor
  | SecondRejected

definition login :: "platform \<Rightarrow> LoginRequest \<Rightarrow> LoginResult handler" where
  "login pf request =
     bindR (foldName pf (lr_username request)) (\<lambda>usernameFolded.
     bindR (gate usernameFolded (lr_ip request)) (\<lambda>decision.
     case decision of
       Refused seconds \<Rightarrow> returnR (Throttled seconds)
     | Allowed \<Rightarrow>
         bindR (case lr_slug request of
                  None \<Rightarrow> resolveSoleId
                | Some slug \<Rightarrow> if slug = [] then resolveSoleId else resolveIdBySlug slug) (\<lambda>organizationId.
         bindR (case organizationId of None \<Rightarrow> returnR None | Some org \<Rightarrow> findUser org usernameFolded) (\<lambda>user.
         let ok = verifyPassword pf (case user of None \<Rightarrow> None | Some u \<Rightarrow> ur_hash u) (lr_password request) in
         case (organizationId, user) of
           (Some org, Some u) \<Rightarrow>
             if \<not> ok
             then bindR (recordLogin usernameFolded (lr_ip request) False) (\<lambda>_.
                  bindR (auditRecord org (ur_id u) ''auth.login-failed'' (Some (lr_ip request))) (\<lambda>_.
                  returnR LoginRejected))
             else bindR (isEnrolled org (ur_id u)) (\<lambda>enrolled.
                  if enrolled
                  then bindR (createPending pf org (ur_id u)) (\<lambda>challenge.
                       bindR (recordLogin usernameFolded (lr_ip request) True) (\<lambda>_.
                       returnR (MfaRequired challenge)))
                  else bindR (issueSession pf org (ur_id u) (lr_agent request) (Some (lr_ip request))) (\<lambda>session.
                       bindR (recordLogin usernameFolded (lr_ip request) True) (\<lambda>_.
                       bindR (auditRecord org (ur_id u) ''auth.login'' (Some (lr_ip request))) (\<lambda>_.
                       returnR (LoginOk session (ur_id u) org)))))
         | _ \<Rightarrow>
             bindR (recordLogin usernameFolded (lr_ip request) False) (\<lambda>_. returnR LoginRejected)))))"

definition completeSecondFactor :: "platform \<Rightarrow> buffer option \<Rightarrow> SecondFactorRequest \<Rightarrow> SecondFactorLoginResult handler" where
  "completeSecondFactor pf secrets request =
     bindR (resolvePending pf (sf_token request)) (\<lambda>challenge.
     case challenge of
       None \<Rightarrow> returnR SecondRejected
     | Some c \<Rightarrow>
         bindR (countAttempt (rp_org c) (rp_id c)) (\<lambda>_.
         bindR (verifySecondFactor pf secrets (rp_org c) (rp_user c) (sf_code request)) (\<lambda>verified.
         case verified of
           FactorRejected \<Rightarrow>
             bindR (auditRecord (rp_org c) (rp_user c) ''auth.login-failed'' (Some (sf_ip request))) (\<lambda>_.
             returnR SecondRejected)
         | FactorOk used \<Rightarrow>
             bindR (consumePending (rp_org c) (rp_id c)) (\<lambda>spent.
             if \<not> spent then returnR SecondRejected
             else bindR (issueSession pf (rp_org c) (rp_user c) (sf_agent request) (Some (sf_ip request))) (\<lambda>session.
                  bindR (auditRecord (rp_org c) (rp_user c) ''auth.login'' (Some (sf_ip request))) (\<lambda>_.
                  returnR (SecondOk session (rp_user c) (rp_org c) used)))))))"

section \<open>The guard and the password asked again\<close>

definition canActivate :: "platform \<Rightarrow> units option \<Rightarrow> ResolvedSession handler" where
  "canActivate pf token =
     (case token of
        None \<Rightarrow> throwR Unauthorized
      | Some token \<Rightarrow>
          bindR (resolveSession pf token) (\<lambda>session.
          case session of None \<Rightarrow> throwR Unauthorized | Some session \<Rightarrow> returnR session))"

definition adminOnly :: "ResolvedSession \<Rightarrow> unit handler" where
  "adminOnly session = (if rv_role session \<noteq> Admin then throwR Forbidden else returnR ())"

text \<open>\<open>ReauthService.require\<close>.\<close>

definition requirePassword :: "platform \<Rightarrow> id \<Rightarrow> id \<Rightarrow> units \<Rightarrow> string \<Rightarrow> unit handler" where
  "requirePassword pf org user password ip =
     bindR (query (\<lambda>i s. Inr (s, List.find (\<lambda>u. ac_org u = org \<and> ac_id u = user) (ad_users s)))) (\<lambda>row.
     case row of
       None \<Rightarrow> throwR Unauthorized
     | Some u \<Rightarrow>
         bindR (gate (ac_folded u) ip) (\<lambda>decision.
         case decision of
           Refused seconds \<Rightarrow> throwR (RateLimited seconds)
         | Allowed \<Rightarrow>
             (let ok = verifyPassword pf (ac_hash u) password in
              bindR (recordLogin (ac_folded u) ip ok) (\<lambda>_.
              if \<not> ok then throwR Unauthorized else returnR ()))))"

section \<open>The account of a session\<close>

text \<open>\<open>IdentitySyncService.rememberPassword\<close>, inside the transaction that changes the password. The job
  that follows it is the queue's (theory \<open>JobQueue\<close>), and its failure is swallowed.\<close>

definition rememberPassword :: "platform \<Rightarrow> buffer option \<Rightarrow> buffer \<Rightarrow> id \<Rightarrow> id \<Rightarrow> units \<Rightarrow> Account list \<Rightarrow> Account list" where
  "rememberPassword pf secrets nonce org user password users =
     (case secrets of
        None \<Rightarrow> users
      | Some key \<Rightarrow>
          let sealed = seal pf key nonce (map (\<lambda>c. word_of_nat (of_char c)) (ntHash password)) user org
          in updateWhere (\<lambda>u. ac_org u = org \<and> ac_id u = user)
               (\<lambda>u. u\<lparr>ac_nt := Some (sealed, KEY_VERSION_AES_GCM)\<rparr>) users)"

text \<open>\<open>UsersService.setPasswordHash\<close>, and the same two statements of \<open>changePassword\<close>. The salt and the
  nonce are the transaction's draws.\<close>

definition setPasswordHash :: "platform \<Rightarrow> buffer option \<Rightarrow> id \<Rightarrow> id \<Rightarrow> units \<Rightarrow> unit handler" where
  "setPasswordHash pf secrets org user password =
     query (\<lambda>i s.
       let users = updateWhere (\<lambda>u. ac_org u = org \<and> ac_id u = user)
                     (\<lambda>u. u\<lparr>ac_hash := Some (pf_argonHash pf (in_bytes i 0) password)\<rparr>) (ad_users s)
       in Inr (s\<lparr>ad_users := rememberPassword pf secrets (randomBytes i 1 NONCE_BYTES) org user password users\<rparr>, ()))"

definition changePassword ::
  "platform \<Rightarrow> buffer option \<Rightarrow> ResolvedSession \<Rightarrow> units \<Rightarrow> units \<Rightarrow> string \<Rightarrow> nat handler" where
  "changePassword pf secrets session currentPassword newPassword ip =
     bindR (requirePassword pf (rv_org session) (rv_user session) currentPassword ip) (\<lambda>_.
     bindR (setPasswordHash pf secrets (rv_org session) (rv_user session) newPassword) (\<lambda>_.
     bindR (revokeAllForUser (rv_org session) (rv_user session)) (\<lambda>revoked.
     bindR (query (\<lambda>i s. Inr (s\<lparr>ad_sessions :=
              updateWhere (\<lambda>r. se_org r = rv_org session \<and> se_id r = rv_id session) (se_revoked_update (\<lambda>_. False))
                (ad_sessions s)\<rparr>, ()))) (\<lambda>_.
     bindR (auditRecord (rv_org session) (rv_user session) ''auth.password-changed'' None) (\<lambda>_.
     returnR (max 0 (revoked - 1)))))))"

definition revokeOwnSession :: "ResolvedSession \<Rightarrow> id \<Rightarrow> unit handler" where
  "revokeOwnSession session target =
     bindR (query (\<lambda>i s.
       let hit = (\<lambda>r. se_org r = rv_org session \<and> se_user r = rv_user session \<and> se_id r = target \<and> \<not> se_revoked r)
       in Inr (s\<lparr>ad_sessions := updateWhere hit (se_revoked_update (\<lambda>_. True)) (ad_sessions s)\<rparr>,
               length (filter hit (ad_sessions s))))) (\<lambda>n.
     if n = 0 then throwR NotFoundError
     else auditRecord (rv_org session) (rv_user session) ''auth.session-revoked'' None)"

definition logout :: "ResolvedSession \<Rightarrow> string \<Rightarrow> unit handler" where
  "logout session ip =
     bindR (revokeSession (rv_org session) (rv_id session)) (\<lambda>_.
     auditRecord (rv_org session) (rv_user session) ''auth.logout'' (Some ip))"

definition enrolMfa :: "platform \<Rightarrow> buffer option \<Rightarrow> ResolvedSession \<Rightarrow> string handler" where
  "enrolMfa pf secrets session =
     bindR (isEnrolled (rv_org session) (rv_user session)) (\<lambda>enrolled.
     if enrolled then throwR ConflictError
     else bindR (query (\<lambda>i s. Inr (s, list_ex (\<lambda>u. ac_org u = rv_org session \<and> ac_id u = rv_user session) (ad_users s))))
            (\<lambda>known.
          if \<not> known then throwR Unauthorized
          else beginEnrolment pf secrets (rv_org session) (rv_user session)))"

definition confirmMfa ::
  "platform \<Rightarrow> buffer option \<Rightarrow> ResolvedSession \<Rightarrow> units \<Rightarrow> units \<Rightarrow> string \<Rightarrow> string list handler" where
  "confirmMfa pf secrets session password code ip =
     bindR (requirePassword pf (rv_org session) (rv_user session) password ip) (\<lambda>_.
     bindR (confirmEnrolment pf secrets (rv_org session) (rv_user session) code) (\<lambda>codes.
     case codes of
       None \<Rightarrow> throwR Unauthorized
     | Some codes \<Rightarrow>
         bindR (auditRecord (rv_org session) (rv_user session) ''mfa.enabled'' None) (\<lambda>_. returnR codes)))"

text \<open>Both tables of the second factor: \<open>removeMfa\<close>, and \<open>UsersService.clearMfa\<close> for an administrator.\<close>

definition clearMfa :: "id \<Rightarrow> id \<Rightarrow> unit handler" where
  "clearMfa org user =
     query (\<lambda>i s. Inr (s\<lparr>ad_secrets := filter (\<lambda>r. \<not> mineSecret org user r) (ad_secrets s),
                          ad_codes := filter (\<lambda>r. \<not> mineCode org user r) (ad_codes s)\<rparr>, ()))"

definition removeMfa :: "platform \<Rightarrow> ResolvedSession \<Rightarrow> units \<Rightarrow> string \<Rightarrow> unit handler" where
  "removeMfa pf session password ip =
     bindR (requirePassword pf (rv_org session) (rv_user session) password ip) (\<lambda>_.
     bindR (clearMfa (rv_org session) (rv_user session)) (\<lambda>_.
     bindR (revokeAllForUser (rv_org session) (rv_user session)) (\<lambda>_.
     auditRecord (rv_org session) (rv_user session) ''mfa.disabled'' None)))"

definition regenerateCodes :: "platform \<Rightarrow> ResolvedSession \<Rightarrow> units \<Rightarrow> string \<Rightarrow> string list handler" where
  "regenerateCodes pf session password ip =
     bindR (requirePassword pf (rv_org session) (rv_user session) password ip) (\<lambda>_.
     bindR (isEnrolled (rv_org session) (rv_user session)) (\<lambda>enrolled.
     if \<not> enrolled then throwR ConflictError
     else bindR (regenerateRecoveryCodes pf (rv_org session) (rv_user session)) (\<lambda>codes.
          bindR (auditRecord (rv_org session) (rv_user session) ''mfa.recovery-codes-regenerated'' None) (\<lambda>_.
          returnR codes))))"

section \<open>An administrator's account operations\<close>

definition findUserRow :: "id \<Rightarrow> id \<Rightarrow> id handler" where
  "findUserRow org user =
     bindR (query (\<lambda>i s. Inr (s, list_ex (\<lambda>u. ac_org u = org \<and> ac_id u = user) (ad_users s)))) (\<lambda>known.
     if known then returnR user else throwR NotFoundError)"

definition openPasswordReset :: "platform \<Rightarrow> ResolvedSession \<Rightarrow> id \<Rightarrow> units \<Rightarrow> string \<Rightarrow> IssuedReset handler" where
  "openPasswordReset pf session target password ip =
     bindR (requirePassword pf (rv_org session) (rv_user session) password ip) (\<lambda>_.
     if target = rv_user session then throwR ConflictError
     else bindR (findUserRow (rv_org session) target) (\<lambda>_.
          bindR (openReset pf (rv_org session) target (rv_user session)) (\<lambda>issued.
          bindR (auditRecord (rv_org session) (rv_user session) ''user.password-reset-issued'' None) (\<lambda>_.
          returnR issued))))"

definition resetMfa :: "platform \<Rightarrow> ResolvedSession \<Rightarrow> id \<Rightarrow> units \<Rightarrow> string \<Rightarrow> unit handler" where
  "resetMfa pf session target password ip =
     bindR (requirePassword pf (rv_org session) (rv_user session) password ip) (\<lambda>_.
     if target = rv_user session then throwR ConflictError
     else bindR (findUserRow (rv_org session) target) (\<lambda>_.
          bindR (clearMfa (rv_org session) target) (\<lambda>_.
          bindR (revokeAllForUser (rv_org session) target) (\<lambda>_.
          auditRecord (rv_org session) (rv_user session) ''user.mfa-reset'' None))))"

section \<open>A reset ticket\<close>

definition MIN_PASSWORD :: nat where
  "MIN_PASSWORD = 12"

definition redeem :: "platform \<Rightarrow> buffer option \<Rightarrow> units \<Rightarrow> units \<Rightarrow> units option \<Rightarrow> string option \<Rightarrow> unit handler" where
  "redeem pf secrets token password code ip =
     (if length token < 1 \<or> length token > 512 \<or> length password < MIN_PASSWORD \<or> length password > 1024
         \<or> (case code of None \<Rightarrow> False | Some c \<Rightarrow> length c < 1 \<or> length c > 64)
      then throwR ValidationFailed
      else bindR (resolveReset pf token) (\<lambda>reset.
      case reset of
        None \<Rightarrow> throwR Unauthorized
      | Some r \<Rightarrow>
          bindR (isEnrolled (rr_org r) (rr_user r)) (\<lambda>enrolled.
          bindR (if \<not> enrolled then returnR True
                 else bindR (case code of
                               None \<Rightarrow> returnR FactorRejected
                             | Some c \<Rightarrow> verifySecondFactor pf secrets (rr_org r) (rr_user r) c) (\<lambda>verdict.
                      returnR (verdict \<noteq> FactorRejected))) (\<lambda>ok.
          if \<not> ok
          then bindR (recordAttempt (rr_org r) (rr_id r)) (\<lambda>_. throwR Unauthorized)
          else bindR (consumeReset (rr_org r) (rr_id r)) (\<lambda>spent.
               if \<not> spent then throwR Unauthorized
               else bindR (setPasswordHash pf secrets (rr_org r) (rr_user r) password) (\<lambda>_.
                    bindR (revokeAllForUser (rr_org r) (rr_user r)) (\<lambda>_.
                    auditRecord (rr_org r) (rr_user r) ''auth.password-reset-redeemed'' ip)))))))"

section \<open>The routes\<close>

text \<open>A request as it arrives, with its cookie where the route is behind the guard. \<open>Touch\<close> is the
  unawaited write of \<open>SessionGuard.remember\<close>, at whatever moment it gets its turn.\<close>

datatype Endpoint =
    Login LoginRequest
  | SecondFactor SecondFactorRequest
  | Redeem units units "units option" "string option"
  | Logout "units option" string
  | Touch id id
  | RevokeOwn "units option" id
  | ChangePassword "units option" units units string
  | EnrolMfa "units option"
  | ConfirmMfa "units option" units units string
  | RemoveMfa "units option" units string
  | RegenerateCodes "units option" units string
  | OpenReset "units option" id units string
  | ResetMfa "units option" id units string

definition answered :: "'a handler \<Rightarrow> unit handler" where
  "answered p = bindR p (\<lambda>_. returnR ())"

fun serve :: "platform \<Rightarrow> buffer option \<Rightarrow> Endpoint \<Rightarrow> unit handler" where
  "serve pf secrets (Login request) = answered (login pf request)"
| "serve pf secrets (SecondFactor request) = answered (completeSecondFactor pf secrets request)"
| "serve pf secrets (Redeem token password code ip) = redeem pf secrets token password code ip"
| "serve pf secrets (Logout cookie ip) = bindR (canActivate pf cookie) (\<lambda>session. logout session ip)"
| "serve pf secrets (Touch org session) = touchSession org session"
| "serve pf secrets (RevokeOwn cookie target) = bindR (canActivate pf cookie) (\<lambda>session. revokeOwnSession session target)"
| "serve pf secrets (ChangePassword cookie currentPassword newPassword ip) =
     bindR (canActivate pf cookie) (\<lambda>session. answered (changePassword pf secrets session currentPassword newPassword ip))"
| "serve pf secrets (EnrolMfa cookie) = bindR (canActivate pf cookie) (\<lambda>session. answered (enrolMfa pf secrets session))"
| "serve pf secrets (ConfirmMfa cookie password code ip) =
     bindR (canActivate pf cookie) (\<lambda>session. answered (confirmMfa pf secrets session password code ip))"
| "serve pf secrets (RemoveMfa cookie password ip) =
     bindR (canActivate pf cookie) (\<lambda>session. removeMfa pf session password ip)"
| "serve pf secrets (RegenerateCodes cookie password ip) =
     bindR (canActivate pf cookie) (\<lambda>session. answered (regenerateCodes pf session password ip))"
| "serve pf secrets (OpenReset cookie target password ip) =
     bindR (canActivate pf cookie) (\<lambda>session.
     bindR (adminOnly session) (\<lambda>_. answered (openPasswordReset pf session target password ip)))"
| "serve pf secrets (ResetMfa cookie target password ip) =
     bindR (canActivate pf cookie) (\<lambda>session.
     bindR (adminOnly session) (\<lambda>_. resetMfa pf session target password ip))"

end
