(* ===== verification/SignInSound.thy ===== *)
theory SignInSound
  imports SignIn
begin

text \<open>
  What the tables keep while sign-ins, ticket redemptions and session operations interleave: the unique keys,
  the secret a row stands for (sealing it changes its bytes, not the secret), and between two moments that a
  spent challenge stays spent, a session keeps its owner, a burnt step and a used recovery code stay so. The
  operations that change a second factor (enrolling, confirming, removing, new codes) are not among these
  requests.
\<close>

section \<open>The invariant and the lasting relation\<close>

definition plainSecret :: "platform \<Rightarrow> buffer option \<Rightarrow> TotpRow \<Rightarrow> buffer option" where
  "plainSecret pf secrets r =
     (if to_version r = KEY_VERSION_PLAINTEXT then Some (to_secret r)
      else case secrets of
             None \<Rightarrow> None
           | Some key \<Rightarrow>
               (case openEnvelope pf key (to_secret r) (to_user r) (to_org r) of Inl e \<Rightarrow> None | Inr x \<Rightarrow> Some x))"

text \<open>AES-GCM: a tag of 16 bytes, and decryption of what was encrypted under the same key, nonce and
  associated data.\<close>

definition sealing_right :: "platform \<Rightarrow> bool" where
  "sealing_right pf \<longleftrightarrow>
     (\<forall>key nonce ad x. case pf_encrypt pf key nonce ad x of
        (body, tag) \<Rightarrow> length tag = TAG_BYTES \<and> pf_decrypt pf key nonce ad body tag = Some x)"

definition sound :: "platform \<Rightarrow> buffer option \<Rightarrow> (id \<Rightarrow> id \<Rightarrow> buffer option) \<Rightarrow> auth_db \<Rightarrow> bool" where
  "sound pf secrets K s \<longleftrightarrow>
     distinct (map pe_id (ad_pending s)) \<and> distinct (map pe_hash (ad_pending s))
     \<and> distinct (map se_id (ad_sessions s))
     \<and> distinct (map (\<lambda>r. (to_org r, to_user r)) (ad_secrets s))
     \<and> distinct (map (\<lambda>r. (re_org r, re_hash r)) (ad_codes s))
     \<and> (\<forall>r \<in> set (ad_secrets s). plainSecret pf secrets r = K (to_org r) (to_user r))"

definition leStep :: "int option \<Rightarrow> int option \<Rightarrow> bool" where
  "leStep a b \<longleftrightarrow> (case a of None \<Rightarrow> True | Some x \<Rightarrow> (case b of None \<Rightarrow> False | Some y \<Rightarrow> x \<le> y))"

definition laterPending :: "PendingRow \<Rightarrow> PendingRow \<Rightarrow> bool" where
  "laterPending p q \<longleftrightarrow>
     pe_id q = pe_id p \<and> pe_org q = pe_org p \<and> pe_user q = pe_user p \<and> pe_hash q = pe_hash p
     \<and> (pe_consumed p \<longrightarrow> pe_consumed q)"

definition laterSession :: "SessionRow \<Rightarrow> SessionRow \<Rightarrow> bool" where
  "laterSession p q \<longleftrightarrow> se_id q = se_id p \<and> se_org q = se_org p \<and> se_user q = se_user p"

definition laterSecret :: "TotpRow \<Rightarrow> TotpRow \<Rightarrow> bool" where
  "laterSecret p q \<longleftrightarrow>
     to_org q = to_org p \<and> to_user q = to_user p \<and> to_confirmed q = to_confirmed p \<and> leStep (to_last p) (to_last q)"

definition laterCode :: "RecoveryRow \<Rightarrow> RecoveryRow \<Rightarrow> bool" where
  "laterCode p q \<longleftrightarrow> re_org q = re_org p \<and> re_user q = re_user p \<and> re_hash q = re_hash p \<and> (re_used p \<longrightarrow> re_used q)"

definition kept :: "('r \<Rightarrow> 'r \<Rightarrow> bool) \<Rightarrow> 'r list \<Rightarrow> 'r list \<Rightarrow> bool" where
  "kept R xs ys \<longleftrightarrow> (\<forall>p \<in> set xs. \<exists>q \<in> set ys. R p q)"

definition auth_lasts :: "auth_db \<Rightarrow> auth_db \<Rightarrow> bool" where
  "auth_lasts s s' \<longleftrightarrow>
     kept laterPending (ad_pending s) (ad_pending s')
     \<and> kept laterSession (ad_sessions s) (ad_sessions s')
     \<and> list_all2 laterSecret (ad_secrets s) (ad_secrets s')
     \<and> list_all2 laterCode (ad_codes s) (ad_codes s')"

lemmas later_defs = laterPending_def laterSession_def laterSecret_def laterCode_def

lemma leStep_refl [simp]: "leStep a a" and leStep_trans: "leStep a b \<Longrightarrow> leStep b c \<Longrightarrow> leStep a c"
  by (auto simp: leStep_def split: option.splits)

lemma later_refl [simp]: "laterPending p p" "laterSession q q" "laterSecret r r" "laterCode c c"
  by (simp_all add: later_defs)

lemma later_trans:
  "laterPending p p' \<Longrightarrow> laterPending p' p'' \<Longrightarrow> laterPending p p''"
  "laterSession q q' \<Longrightarrow> laterSession q' q'' \<Longrightarrow> laterSession q q''"
  "laterSecret r r' \<Longrightarrow> laterSecret r' r'' \<Longrightarrow> laterSecret r r''"
  "laterCode c c' \<Longrightarrow> laterCode c' c'' \<Longrightarrow> laterCode c c''"
  by (auto simp: later_defs elim: leStep_trans)

lemma kept_refl: "(\<And>x. R x x) \<Longrightarrow> kept R xs xs"
  by (auto simp: kept_def)

lemma kept_trans: "(\<And>x y z. R x y \<Longrightarrow> R y z \<Longrightarrow> R x z) \<Longrightarrow> kept R xs ys \<Longrightarrow> kept R ys zs \<Longrightarrow> kept R xs zs"
  unfolding kept_def by meson

lemma auth_lasts_refl [simp]: "auth_lasts s s"
  by (simp add: auth_lasts_def list.rel_refl kept_refl)

lemma auth_lasts_trans:
  assumes "auth_lasts s t" and "auth_lasts t u"
  shows "auth_lasts s u"
proof -
  have "kept laterPending (ad_pending s) (ad_pending u)"
    by (rule kept_trans [OF later_trans(1)]) (use assms in \<open>auto simp: auth_lasts_def\<close>)
  moreover have "kept laterSession (ad_sessions s) (ad_sessions u)"
    by (rule kept_trans [OF later_trans(2)]) (use assms in \<open>auto simp: auth_lasts_def\<close>)
  moreover have "list_all2 laterSecret (ad_secrets s) (ad_secrets u)"
    by (rule list_all2_trans [OF later_trans(3)]) (use assms in \<open>auto simp: auth_lasts_def\<close>)
  moreover have "list_all2 laterCode (ad_codes s) (ad_codes u)"
    by (rule list_all2_trans [OF later_trans(4)]) (use assms in \<open>auto simp: auth_lasts_def\<close>)
  ultimately show ?thesis by (simp add: auth_lasts_def)
qed

interpretation auth: lasting "sound pf secrets K" auth_lasts
  by unfold_locales (auto elim: auth_lasts_trans)

section \<open>Steps of the services\<close>

text \<open>A step that opens no session.\<close>

definition quietStep :: "auth_db \<Rightarrow> auth_db \<Rightarrow> bool" where
  "quietStep s s' \<longleftrightarrow> auth_lasts s s' \<and> map se_id (ad_sessions s') = map se_id (ad_sessions s)"

lemma quietStep_refl [simp]: "quietStep s s"
  by (simp add: quietStep_def)

lemma set_updateWhere: "set (updateWhere p f xs) = {if p x then f x else x |x. x \<in> set xs}"
  by (auto simp: updateWhere_def)

lemma map_updateWhere:
  "(\<And>x. x \<in> set xs \<Longrightarrow> p x \<Longrightarrow> key (f x) = key x) \<Longrightarrow> map key (updateWhere p f xs) = map key xs"
  by (auto simp: updateWhere_def)

lemma all2_updateWhere:
  "(\<And>x. R x x) \<Longrightarrow> (\<And>x. x \<in> set xs \<Longrightarrow> p x \<Longrightarrow> R x (f x)) \<Longrightarrow> list_all2 R xs (updateWhere p f xs)"
  by (auto simp: updateWhere_def list_all2_map2 intro!: list.rel_refl_strong)

lemma kept_updateWhere:
  assumes "\<And>x. R x x" and "\<And>x. x \<in> set xs \<Longrightarrow> p x \<Longrightarrow> R x (f x)"
  shows "kept R xs (updateWhere p f xs)"
proof -
  have "\<exists>q \<in> set (updateWhere p f xs). R x q" if "x \<in> set xs" for x
  proof (cases "p x")
    case True
    then have "f x \<in> set (updateWhere p f xs)" using that by (force simp: updateWhere_def)
    then show ?thesis using assms(2) [OF that True] by blast
  next
    case False
    then have "x \<in> set (updateWhere p f xs)" using that by (force simp: updateWhere_def)
    then show ?thesis using assms(1) by blast
  qed
  then show ?thesis by (simp add: kept_def)
qed

lemma quiet_pending:
  assumes "sound pf secrets K s" and "\<And>p. p \<in> set (ad_pending s) \<Longrightarrow> hit p \<Longrightarrow> laterPending p (f p)"
  shows "sound pf secrets K (s\<lparr>ad_pending := updateWhere hit f (ad_pending s)\<rparr>)
    \<and> quietStep s (s\<lparr>ad_pending := updateWhere hit f (ad_pending s)\<rparr>)"
proof -
  have "map pe_id (updateWhere hit f (ad_pending s)) = map pe_id (ad_pending s)"
    "map pe_hash (updateWhere hit f (ad_pending s)) = map pe_hash (ad_pending s)"
    using assms(2) by (auto intro!: map_updateWhere simp: laterPending_def)
  moreover have "kept laterPending (ad_pending s) (updateWhere hit f (ad_pending s))"
    by (rule kept_updateWhere) (simp_all add: assms(2))
  ultimately show ?thesis using assms(1)
    by (simp add: sound_def quietStep_def auth_lasts_def list.rel_refl kept_refl)
qed

lemma quiet_sessions:
  assumes "sound pf secrets K s" and "\<And>p. laterSession p (f p)"
  shows "sound pf secrets K (s\<lparr>ad_sessions := updateWhere hit f (ad_sessions s)\<rparr>)
    \<and> quietStep s (s\<lparr>ad_sessions := updateWhere hit f (ad_sessions s)\<rparr>)"
proof -
  have "map se_id (updateWhere hit f (ad_sessions s)) = map se_id (ad_sessions s)"
    using assms(2) by (auto intro!: map_updateWhere simp: laterSession_def)
  moreover have "kept laterSession (ad_sessions s) (updateWhere hit f (ad_sessions s))"
    by (rule kept_updateWhere) (simp_all add: assms(2))
  ultimately show ?thesis using assms(1)
    by (simp add: sound_def quietStep_def auth_lasts_def list.rel_refl kept_refl)
qed

lemma quiet_secrets:
  assumes "sound pf secrets K s"
    and "\<And>r. r \<in> set (ad_secrets s) \<Longrightarrow> hit r \<Longrightarrow> laterSecret r (f r) \<and> plainSecret pf secrets (f r) = plainSecret pf secrets r"
  shows "sound pf secrets K (s\<lparr>ad_secrets := updateWhere hit f (ad_secrets s)\<rparr>)
    \<and> quietStep s (s\<lparr>ad_secrets := updateWhere hit f (ad_secrets s)\<rparr>)"
proof -
  have "map (\<lambda>r. (to_org r, to_user r)) (updateWhere hit f (ad_secrets s)) = map (\<lambda>r. (to_org r, to_user r)) (ad_secrets s)"
    using assms(2) by (auto intro!: map_updateWhere simp: laterSecret_def)
  moreover have "list_all2 laterSecret (ad_secrets s) (updateWhere hit f (ad_secrets s))"
    using assms(2) by (intro all2_updateWhere) auto
  moreover have "\<forall>r \<in> set (updateWhere hit f (ad_secrets s)). plainSecret pf secrets r = K (to_org r) (to_user r)"
    using assms by (auto simp: set_updateWhere sound_def laterSecret_def)
  ultimately show ?thesis using assms(1)
    by (simp add: sound_def quietStep_def auth_lasts_def list.rel_refl kept_refl)
qed

lemma quiet_codes:
  assumes "sound pf secrets K s" and "\<And>c. laterCode c (f c)"
  shows "sound pf secrets K (s\<lparr>ad_codes := updateWhere hit f (ad_codes s)\<rparr>)
    \<and> quietStep s (s\<lparr>ad_codes := updateWhere hit f (ad_codes s)\<rparr>)"
proof -
  have "map (\<lambda>r. (re_org r, re_hash r)) (updateWhere hit f (ad_codes s)) = map (\<lambda>r. (re_org r, re_hash r)) (ad_codes s)"
    using assms(2) by (auto intro!: map_updateWhere simp: laterCode_def)
  moreover have "list_all2 laterCode (ad_codes s) (updateWhere hit f (ad_codes s))"
    using assms(2) by (intro all2_updateWhere) auto
  ultimately show ?thesis using assms(1)
    by (simp add: sound_def quietStep_def auth_lasts_def list.rel_refl kept_refl)
qed

lemma quiet_elsewhere:
  assumes "sound pf secrets K s" and "ad_pending s' = ad_pending s" and "ad_sessions s' = ad_sessions s"
    and "ad_secrets s' = ad_secrets s" and "ad_codes s' = ad_codes s"
  shows "sound pf secrets K s' \<and> quietStep s s'"
  using assms by (simp add: sound_def quietStep_def auth_lasts_def list.rel_refl kept_refl)

section \<open>What each operation keeps\<close>

abbreviation calm :: "platform \<Rightarrow> buffer option \<Rightarrow> (id \<Rightarrow> id \<Rightarrow> buffer option) \<Rightarrow> ('a \<Rightarrow> bool) \<Rightarrow> 'a handler \<Rightarrow> bool" where
  "calm pf secrets K \<equiv> obeys (sound pf secrets K) quietStep"

named_theorems calm_rules

lemma calm_query:
  assumes "\<And>i s s' a. sound pf secrets K s \<Longrightarrow> f i s = Inr (s', a) \<Longrightarrow>
    sound pf secrets K s' \<and> quietStep s s' \<and> R a"
  shows "calm pf secrets K R (query f)"
  unfolding query_def using assms by (intro obeys_transact) auto

lemma calm_read: "(\<And>i s a. sound pf secrets K s \<Longrightarrow> f i s = Inr (s, a) \<Longrightarrow> R a) \<Longrightarrow>
    (\<And>i s s' a. f i s = Inr (s', a) \<Longrightarrow> s' = s) \<Longrightarrow> calm pf secrets K R (query f)"
  by (rule calm_query) (metis quietStep_refl)

lemma calm_then: "calm pf secrets K (\<lambda>a. True) p \<Longrightarrow> (\<And>a. calm pf secrets K R (k a)) \<Longrightarrow> calm pf secrets K R (bindR p k)"
  by (rule obeys_bind)

lemma calm_if: "(b \<Longrightarrow> calm pf secrets K R p) \<Longrightarrow> (\<not> b \<Longrightarrow> calm pf secrets K R q) \<Longrightarrow>
    calm pf secrets K R (if b then p else q)"
  by simp

lemma calm_option: "(x = None \<Longrightarrow> calm pf secrets K R p) \<Longrightarrow> (\<And>y. x = Some y \<Longrightarrow> calm pf secrets K R (q y)) \<Longrightarrow>
    calm pf secrets K R (case x of None \<Rightarrow> p | Some y \<Rightarrow> q y)"
  by (cases x) auto

lemma calm_decision: "(x = Allowed \<Longrightarrow> calm pf secrets K R p) \<Longrightarrow>
    (\<And>n. x = Refused n \<Longrightarrow> calm pf secrets K R (q n)) \<Longrightarrow>
    calm pf secrets K R (case x of Allowed \<Rightarrow> p | Refused n \<Rightarrow> q n)"
  by (cases x) auto

lemma calm_bool: "calm pf secrets K (\<lambda>b. True) p \<Longrightarrow> calm pf secrets K R (returnR a) \<or> \<not> R a \<Longrightarrow>
    calm pf secrets K (\<lambda>b. True) p"
  by simp

text \<open>Operations that touch only users, attempts, tickets or the trail.\<close>

lemma calm_elsewhere:
  assumes "\<And>i s s' a. f i s = Inr (s', a) \<Longrightarrow> ad_pending s' = ad_pending s \<and> ad_sessions s' = ad_sessions s
    \<and> ad_secrets s' = ad_secrets s \<and> ad_codes s' = ad_codes s"
  shows "calm pf secrets K (\<lambda>a. True) (query f)"
  using assms quiet_elsewhere by (intro calm_query) blast

lemma calm_simple [calm_rules]:
  "calm pf secrets K (\<lambda>a. True) (recentFailures email ip)"
  "calm pf secrets K (\<lambda>a. True) (retryAfterSeconds email ip)"
  "calm pf secrets K (\<lambda>a. True) (recordLogin email ip ok)"
  "calm pf secrets K (\<lambda>a. True) (auditRecord org actor action from)"
  "calm pf secrets K (\<lambda>a. True) resolveSoleId"
  "calm pf secrets K (\<lambda>a. True) (resolveIdBySlug slug)"
  "calm pf secrets K (\<lambda>a. True) (foldName pf name)"
  "calm pf secrets K (\<lambda>a. True) (findUser org name)"
  "calm pf secrets K (\<lambda>a. True) (resolvePending pf token)"
  "calm pf secrets K (\<lambda>a. True) (resolveSession pf token)"
  "calm pf secrets K (\<lambda>a. True) (resolveReset pf token)"
  "calm pf secrets K (\<lambda>a. True) (openReset pf org user by_user)"
  "calm pf secrets K (\<lambda>a. True) (recordAttempt org reset)"
  "calm pf secrets K (\<lambda>a. True) (consumeReset org reset)"
  "calm pf secrets K (\<lambda>a. True) (isEnrolled org user)"
  "calm pf secrets K (\<lambda>a. True) (setPasswordHash pf secrets' org user password)"
  unfolding recentFailures_def retryAfterSeconds_def recordLogin_def auditRecord_def resolveSoleId_def
    resolveIdBySlug_def foldName_def findUser_def resolvePending_def resolveSession_def resolveReset_def
    openReset_def recordAttempt_def consumeReset_def isEnrolled_def setPasswordHash_def
  by (rule calm_elsewhere; auto simp: Let_def split: if_splits)+

lemma calm_sleep [calm_rules]: "calm pf secrets K (\<lambda>a. True) (sleepFor ms)"
  and calm_unixNow [calm_rules]: "calm pf secrets K (\<lambda>a. True) unixNow"
  by (simp_all add: sleepFor_def unixNow_def obeys_Awaits)

lemma calm_gate [calm_rules]: "calm pf secrets K (\<lambda>a. True) (gate email ip)"
  unfolding gate_def by (intro calm_then calm_if calm_rules) simp_all

lemma calm_checkCode [calm_rules]: "calm pf secrets K (\<lambda>a. True) (checkCode pf secret code now)"
  by (simp add: checkCode_def split: sum.split)

lemma calm_pending [calm_rules]:
  "calm pf secrets K (\<lambda>a. True) (countAttempt org pending)"
  "calm pf secrets K (\<lambda>a. True) (consumePending org pending)"
  unfolding countAttempt_def consumePending_def
  by (rule calm_query; auto simp: Let_def laterPending_def intro!: quiet_pending)+

lemma calm_sessions [calm_rules]:
  "calm pf secrets K (\<lambda>a. True) (revokeSession org session)"
  "calm pf secrets K (\<lambda>a. True) (revokeAllForUser org user)"
  "calm pf secrets K (\<lambda>a. True) (touchSession org session)"
  unfolding revokeSession_def revokeAllForUser_def touchSession_def
  by (rule calm_query; auto simp: Let_def laterSession_def intro!: quiet_sessions)+

lemma calm_consumeRecoveryCode [calm_rules]: "calm pf secrets K (\<lambda>a. True) (consumeRecoveryCode pf org user code)"
  unfolding consumeRecoveryCode_def
  by (rule calm_query; auto simp: Let_def laterCode_def intro!: quiet_codes)

lemma calm_burnStep [calm_rules]: "calm pf secrets K (\<lambda>a. True) (burnStep org user used)"
  unfolding burnStep_def
  by (rule calm_query; auto simp: Let_def laterSecret_def leStep_def plainSecret_def split: option.splits
        intro!: quiet_secrets)

lemma kept_append: "kept R xs ys \<Longrightarrow> kept R xs (ys @ zs)"
  by (auto simp: kept_def)

lemma calm_createPending [calm_rules]: "calm pf secrets K (\<lambda>a. True) (createPending pf org user)"
  unfolding createPending_def
proof (rule calm_query)
  fix i and s s' :: auth_db and a
  let ?rows = "updateWhere (openPending org user) (pe_consumed_update (\<lambda>_. True)) (ad_pending s)"
  let ?new = "\<lparr>pe_id = in_id i, pe_org = org, pe_user = user, pe_hash = hashToken pf (in_token i),
                  pe_attempts = 0, pe_expires = 1000 * (in_clock i + PENDING_LIFETIME_MS), pe_consumed = False\<rparr>"
  assume s: "sound pf secrets K s"
    and "(let expires = in_clock i + PENDING_LIFETIME_MS;
           rows = updateWhere (openPending org user) (pe_consumed_update (\<lambda>_. True)) (ad_pending s);
           new = \<lparr>pe_id = in_id i, pe_org = org, pe_user = user, pe_hash = hashToken pf (in_token i),
                  pe_attempts = 0, pe_expires = 1000 * expires, pe_consumed = False\<rparr>
       in if list_ex (\<lambda>p. pe_id p = pe_id new \<or> pe_hash p = pe_hash new) rows then Inl UniqueViolation
          else Inr (s\<lparr>ad_pending := rows @ [new]\<rparr>, \<lparr>pc_token = in_token i, pc_expires = expires\<rparr>))
       = Inr (s', a)"
  then have s': "s' = s\<lparr>ad_pending := ?rows @ [?new]\<rparr>"
    and fresh: "\<forall>p \<in> set ?rows. pe_id p \<noteq> in_id i \<and> pe_hash p \<noteq> hashToken pf (in_token i)"
    by (auto simp: Let_def list_ex_iff split: if_splits)
  have "sound pf secrets K (s\<lparr>ad_pending := ?rows\<rparr>) \<and> quietStep s (s\<lparr>ad_pending := ?rows\<rparr>)"
    by (rule quiet_pending [OF s]) (simp add: laterPending_def)
  then show "sound pf secrets K s' \<and> quietStep s s' \<and> True"
    using fresh unfolding s' by (force simp: sound_def quietStep_def auth_lasts_def kept_append)
qed

section \<open>Secrets\<close>

lemma length_randomBytes [simp]: "length (randomBytes i k n) = n"
  by (simp add: randomBytes_def)

lemma open_seal:
  assumes "sealing_right pf" and "length nonce = NONCE_BYTES"
  shows "openEnvelope pf key (seal pf key nonce x user org) user org = Inr x"
proof -
  obtain body tag where enc: "pf_encrypt pf key nonce (aad user org) x = (body, tag)" by (cases "pf_encrypt pf key nonce (aad user org) x")
  then have "length tag = TAG_BYTES" and "pf_decrypt pf key nonce (aad user org) body tag = Some x"
    using assms(1) [unfolded sealing_right_def, THEN spec, THEN spec, THEN spec, THEN spec, of key nonce "aad user org" x]
    by simp_all
  then show ?thesis using enc assms(2) by (simp add: seal_def openEnvelope_def Let_def)
qed

lemma calm_unseal:
  assumes "sealing_right pf" and "K org user = (if version = KEY_VERSION_PLAINTEXT then Some stored else
      case secrets of None \<Rightarrow> None | Some key \<Rightarrow> (case openEnvelope pf key stored user org of Inl e \<Rightarrow> None | Inr x \<Rightarrow> Some x))"
  shows "calm pf secrets K (\<lambda>x. x = K org user) (unseal pf secrets org user stored version)"
proof (cases "version = KEY_VERSION_PLAINTEXT \<and> secrets \<noteq> None")
  case True
  then obtain key where key: "secrets = Some key" and K: "K org user = Some stored" using assms(2) by auto
  have same: "plainSecret pf secrets (r\<lparr>to_secret := seal pf key (randomBytes i 0 NONCE_BYTES) stored user org, to_version := KEY_VERSION_AES_GCM\<rparr>)
      = plainSecret pf secrets r"
    if "sound pf secrets K s" "r \<in> set (ad_secrets s)" "mineSecret org user r" for i r and s :: auth_db
  proof -
    have "plainSecret pf secrets r = Some stored" using that K by (auto simp: sound_def mineSecret_def)
    then show ?thesis using that(3) key open_seal [OF assms(1)]
      by (simp add: plainSecret_def mineSecret_def KEY_VERSION_PLAINTEXT_def KEY_VERSION_AES_GCM_def)
  qed
  have "unseal pf secrets org user stored version =
      query (\<lambda>i s. Inr (s\<lparr>ad_secrets :=
         updateWhere (\<lambda>r. mineSecret org user r \<and> to_version r = KEY_VERSION_PLAINTEXT)
           (\<lambda>r. r\<lparr>to_secret := seal pf key (randomBytes i 0 NONCE_BYTES) stored user org,
                  to_version := KEY_VERSION_AES_GCM\<rparr>) (ad_secrets s)\<rparr>, Some stored))"
    using True by (simp add: unseal_def key)
  moreover have "calm pf secrets K (\<lambda>x. x = K org user) \<dots>"
  proof (rule calm_query)
    fix i and s s' :: auth_db and a
    let ?f = "\<lambda>r. r\<lparr>to_secret := seal pf key (randomBytes i 0 NONCE_BYTES) stored user org, to_version := KEY_VERSION_AES_GCM\<rparr>"
    let ?s = "s\<lparr>ad_secrets := updateWhere (\<lambda>r. mineSecret org user r \<and> to_version r = KEY_VERSION_PLAINTEXT) ?f (ad_secrets s)\<rparr>"
    assume s: "sound pf secrets K s" and "Inr (?s, Some stored) = (Inr (s', a) :: auth_error + auth_db \<times> buffer option)"
    then have "s' = ?s" and a: "a = Some stored" by auto
    moreover have "sound pf secrets K ?s \<and> quietStep s ?s"
      by (rule quiet_secrets [OF s]) (simp add: same [OF s] laterSecret_def)
    ultimately show "sound pf secrets K s' \<and> quietStep s s' \<and> a = K org user" using K by simp
  qed
  ultimately show ?thesis by simp
next
  case False
  then show ?thesis using assms(2) by (auto simp: unseal_def split: option.split sum.split)
qed

lemma calm_secretRow:
  assumes "sealing_right pf"
  shows "calm pf secrets K (\<lambda>x. case x of None \<Rightarrow> True | Some (secret, l) \<Rightarrow> K org user = Some secret)
    (secretRow pf secrets org user c)"
  unfolding secretRow_def
proof (rule obeys_bind)
  show "calm pf secrets K (\<lambda>x. case x of None \<Rightarrow> True
      | Some r \<Rightarrow> to_org r = org \<and> to_user r = user \<and> plainSecret pf secrets r = K org user)
    (query (\<lambda>i s. Inr (s, List.find (\<lambda>r. mineSecret org user r \<and> (c \<longrightarrow> to_confirmed r)) (ad_secrets s))))"
    by (rule calm_read) (auto simp: sound_def mineSecret_def split: option.splits dest!: find_eq_Some_ex)
  fix found :: "TotpRow option"
  assume found: "case found of None \<Rightarrow> True
      | Some r \<Rightarrow> to_org r = org \<and> to_user r = user \<and> plainSecret pf secrets r = K org user"
  show "calm pf secrets K (\<lambda>x. case x of None \<Rightarrow> True | Some (secret, l) \<Rightarrow> K org user = Some secret)
    (case found of None \<Rightarrow> returnR None | Some row \<Rightarrow>
         bindR (unseal pf secrets org user (to_secret row) (to_version row)) (\<lambda>secret.
         returnR (map_option (\<lambda>secret. (secret, to_last row)) secret)))"
  proof (cases found)
    case (Some row)
    have "K org user = (if to_version row = KEY_VERSION_PLAINTEXT then Some (to_secret row) else
      case secrets of None \<Rightarrow> None | Some key \<Rightarrow>
        (case openEnvelope pf key (to_secret row) user org of Inl e \<Rightarrow> None | Inr x \<Rightarrow> Some x))"
      using found Some by (auto simp: plainSecret_def)
    from calm_unseal [where K = K, OF assms this] show ?thesis
      unfolding Some option.case by (rule obeys_bind) (auto split: option.splits)
  qed simp
qed

lemma calm_verifyTotpCode [calm_rules]:
  assumes "sealing_right pf"
  shows "calm pf secrets K (\<lambda>a. True) (verifyTotpCode pf secrets org user code)"
  unfolding verifyTotpCode_def
proof (rule obeys_bind [OF calm_secretRow [OF assms]])
  fix row :: "(buffer \<times> int option) option"
  show "calm pf secrets K (\<lambda>a. True) (case row of None \<Rightarrow> returnR False
     | Some (secret, lastUsedStep) \<Rightarrow>
         bindR unixNow (\<lambda>now.
         bindR (checkCode pf secret code now) (\<lambda>step.
         case step of
           None \<Rightarrow> returnR False
         | Some step \<Rightarrow>
             (let used = absoluteStep now step in
              case lastUsedStep of
                Some l \<Rightarrow> if used \<le> l then returnR False else burnStep org user used
              | None \<Rightarrow> burnStep org user used))))"
    unfolding Let_def case_prod_beta by (intro calm_option calm_then calm_if calm_rules) simp_all
qed

lemma calm_verifySecondFactor [calm_rules]:
  "sealing_right pf \<Longrightarrow> calm pf secrets K (\<lambda>a. True) (verifySecondFactor pf secrets org user code)"
  unfolding verifySecondFactor_def Let_def by (intro calm_if calm_then calm_rules) simp_all

section \<open>What each request keeps\<close>

lemma calm_canActivate [calm_rules]: "calm pf secrets K (\<lambda>a. True) (canActivate pf cookie)"
  unfolding canActivate_def by (intro calm_option calm_then calm_rules) simp_all

lemma calm_requirePassword [calm_rules]: "calm pf secrets K (\<lambda>a. True) (requirePassword pf org user password ip)"
  unfolding requirePassword_def Let_def
  by (intro calm_option calm_then calm_decision calm_if calm_rules calm_elsewhere) (auto split: if_splits)

lemma calm_adminOnly [calm_rules]: "calm pf secrets K (\<lambda>a. True) (adminOnly session)"
  by (simp add: adminOnly_def)

lemma calm_findUserRow [calm_rules]: "calm pf secrets K (\<lambda>a. True) (findUserRow org user)"
  unfolding findUserRow_def by (intro calm_then calm_if calm_elsewhere) (auto split: if_splits)

lemma calm_own_session [calm_rules]:
  "calm pf secrets K (\<lambda>a. True) (logout session ip)"
  "calm pf secrets K (\<lambda>a. True) (revokeOwnSession session target)"
  "calm pf secrets K (\<lambda>a. True) (changePassword pf secrets session old new ip)"
  "calm pf secrets K (\<lambda>a. True) (openPasswordReset pf session target password ip)"
proof -
  show "calm pf secrets K (\<lambda>a. True) (logout session ip)"
    unfolding logout_def by (intro calm_then calm_rules)
  have "calm pf secrets K (\<lambda>a. True) (query (\<lambda>i s.
       let hit = (\<lambda>r. se_org r = rv_org session \<and> se_user r = rv_user session \<and> se_id r = target \<and> \<not> se_revoked r)
       in Inr (s\<lparr>ad_sessions := updateWhere hit (se_revoked_update (\<lambda>_. True)) (ad_sessions s)\<rparr>,
               length (filter hit (ad_sessions s)))))"
    by (rule calm_query) (auto simp: Let_def laterSession_def intro!: quiet_sessions)
  then show "calm pf secrets K (\<lambda>a. True) (revokeOwnSession session target)"
    unfolding revokeOwnSession_def by (intro calm_then calm_if calm_rules) simp_all
  have "calm pf secrets K (\<lambda>a. True) (query (\<lambda>i s. Inr (s\<lparr>ad_sessions :=
              updateWhere (\<lambda>r. se_org r = rv_org session \<and> se_id r = rv_id session) (se_revoked_update (\<lambda>_. False))
                (ad_sessions s)\<rparr>, ())))"
    by (rule calm_query) (auto simp: laterSession_def intro!: quiet_sessions)
  then show "calm pf secrets K (\<lambda>a. True) (changePassword pf secrets session old new ip)"
    unfolding changePassword_def by (intro calm_then calm_rules) simp_all
  show "calm pf secrets K (\<lambda>a. True) (openPasswordReset pf session target password ip)"
    unfolding openPasswordReset_def by (intro calm_then calm_if calm_rules) simp_all
qed

lemma calm_redeem [calm_rules]:
  assumes "sealing_right pf"
  shows "calm pf secrets K (\<lambda>a. True) (redeem pf secrets token password code ip)"
  unfolding redeem_def by (intro calm_then calm_if calm_option calm_rules assms) simp_all

text \<open>Issuing is the one step that adds a session.\<close>

lemma obeys_issueSession: "obeys (sound pf secrets K) auth_lasts (\<lambda>a. True) (issueSession pf org user agent ip)"
  unfolding issueSession_def query_def
  by (rule obeys_transact)
     (auto simp: Let_def sound_def auth_lasts_def list.rel_refl list_ex_iff intro!: kept_refl kept_append split: if_splits, blast)

lemma calm_obeys: "calm pf secrets K R p \<Longrightarrow> obeys (sound pf secrets K) auth_lasts R p"
  by (erule obeys_mono) (auto simp: quietStep_def)

lemmas obeys_calm = calm_rules [THEN calm_obeys]

lemma obeys_if: "(b \<Longrightarrow> obeys I G R p) \<Longrightarrow> (\<not> b \<Longrightarrow> obeys I G R q) \<Longrightarrow> obeys I G R (if b then p else q)"
  by simp

lemma obeys_option:
  "(x = None \<Longrightarrow> obeys I G R p) \<Longrightarrow> (\<And>y. x = Some y \<Longrightarrow> obeys I G R (q y)) \<Longrightarrow>
     obeys I G R (case x of None \<Rightarrow> p | Some y \<Rightarrow> q y)"
  by (cases x) auto

lemma obeys_decision:
  "(x = Allowed \<Longrightarrow> obeys I G R p) \<Longrightarrow> (\<And>n. x = Refused n \<Longrightarrow> obeys I G R (q n)) \<Longrightarrow>
     obeys I G R (case x of Allowed \<Rightarrow> p | Refused n \<Rightarrow> q n)"
  by (cases x) auto

lemma obeys_verdict:
  "(\<And>f. x = FactorOk f \<Longrightarrow> obeys I G R (p f)) \<Longrightarrow> (x = FactorRejected \<Longrightarrow> obeys I G R q) \<Longrightarrow>
     obeys I G R (case x of FactorOk f \<Rightarrow> p f | FactorRejected \<Rightarrow> q)"
  by (cases x) auto

lemmas obeys_cases = obeys_if obeys_option obeys_decision obeys_verdict

lemma obeys_login: "obeys (sound pf secrets K) auth_lasts (\<lambda>a. True) (login pf request)"
  unfolding login_def Let_def prod.case
  by (intro obeys_seq obeys_cases obeys_calm obeys_issueSession) simp_all

lemma obeys_completeSecondFactor:
  assumes "sealing_right pf"
  shows "obeys (sound pf secrets K) auth_lasts (\<lambda>a. True) (completeSecondFactor pf secrets request)"
  unfolding completeSecondFactor_def
  by (intro obeys_seq obeys_cases obeys_calm obeys_issueSession assms) simp_all

section \<open>The requests of a run\<close>

fun changesMfa :: "Endpoint \<Rightarrow> bool" where
  "changesMfa (EnrolMfa cookie) = True"
| "changesMfa (ConfirmMfa cookie password code ip) = True"
| "changesMfa (RemoveMfa cookie password ip) = True"
| "changesMfa (RegenerateCodes cookie password ip) = True"
| "changesMfa (ResetMfa cookie target password ip) = True"
| "changesMfa e = False"

lemma obeys_answered: "obeys I G (\<lambda>a. True) p \<Longrightarrow> obeys I G (\<lambda>a. True) (answered p)"
  unfolding answered_def by (rule obeys_seq) simp_all

lemma obeys_serve:
  assumes "sealing_right pf" and "\<not> changesMfa e"
  shows "obeys (sound pf secrets K) auth_lasts (\<lambda>a. True) (serve pf secrets e)"
  using assms
  by (cases e) (auto intro!: obeys_answered obeys_login obeys_completeSecondFactor obeys_seq obeys_calm)

end
