(* ===== verification/SignInProps.thy ===== *)
theory SignInProps
  imports SignInSound
begin

text \<open>
  Who got a session: for a user with a confirmed second factor, every session opened while requests
  interleave was opened by a second-step request that spent a challenge and a factor no other session was
  opened with.
\<close>

section \<open>What one transaction spends or opens\<close>

datatype factor = StepOf id id int | CodeOf id id buffer

definition opens :: "id \<Rightarrow> auth_db \<Rightarrow> auth_db \<Rightarrow> bool" where
  "opens session u v \<longleftrightarrow> session \<notin> se_id ` set (ad_sessions u) \<and> session \<in> se_id ` set (ad_sessions v)"

definition spendsChallenge :: "buffer \<Rightarrow> id \<Rightarrow> auth_db \<Rightarrow> auth_db \<Rightarrow> bool" where
  "spendsChallenge h user u v \<longleftrightarrow>
     (\<exists>p \<in> set (ad_pending u). pe_hash p = h \<and> pe_user p = user \<and> \<not> pe_consumed p)
     \<and> (\<exists>p \<in> set (ad_pending v). pe_hash p = h \<and> pe_user p = user \<and> pe_consumed p)"

fun spendsFactor :: "factor \<Rightarrow> auth_db \<Rightarrow> auth_db \<Rightarrow> bool" where
  "spendsFactor (StepOf org user k) u v \<longleftrightarrow>
     (\<exists>r \<in> set (ad_secrets u). mineSecret org user r \<and> \<not> leStep (Some k) (to_last r))
     \<and> (\<exists>r \<in> set (ad_secrets v). mineSecret org user r \<and> leStep (Some k) (to_last r))"
| "spendsFactor (CodeOf org user h) u v \<longleftrightarrow>
     (\<exists>c \<in> set (ad_codes u). mineCode org user c \<and> re_hash c = h \<and> \<not> re_used c)
     \<and> (\<exists>c \<in> set (ad_codes v). mineCode org user c \<and> re_hash c = h \<and> re_used c)"

lemma distinct_eq: "distinct (map f xs) \<Longrightarrow> x \<in> set xs \<Longrightarrow> y \<in> set xs \<Longrightarrow> f x = f y \<Longrightarrow> x = y"
  by (auto simp: distinct_map inj_on_def)

lemma all2_ex: "list_all2 R xs ys \<Longrightarrow> x \<in> set xs \<Longrightarrow> \<exists>y \<in> set ys. R x y"
  by (induction rule: list_all2_induct) auto

lemma all2_ex_left: "list_all2 R xs ys \<Longrightarrow> y \<in> set ys \<Longrightarrow> \<exists>x \<in> set xs. R x y"
  by (induction rule: list_all2_induct) auto

text \<open>What one transaction spent no later one spends.\<close>

lemma challenge_once:
  assumes "spendsChallenge h user u v" and "auth_lasts v u'" and "sound pf secrets K u'"
  shows "\<not> spendsChallenge h user' u' v'"
proof
  assume "spendsChallenge h user' u' v'"
  then obtain q where q: "q \<in> set (ad_pending u')" "pe_hash q = h" "\<not> pe_consumed q"
    by (auto simp: spendsChallenge_def)
  obtain p where "p \<in> set (ad_pending v)" "pe_hash p = h" "pe_consumed p"
    using assms(1) by (auto simp: spendsChallenge_def)
  moreover obtain p' where "p' \<in> set (ad_pending u')" "laterPending p p'"
    using assms(2) \<open>p \<in> set (ad_pending v)\<close> by (auto simp: auth_lasts_def kept_def)
  ultimately have "p' \<in> set (ad_pending u')" "pe_hash p' = h" "pe_consumed p'" by (auto simp: laterPending_def)
  then show False using distinct_eq [of pe_hash "ad_pending u'" p' q] q assms(3) by (auto simp: sound_def)
qed

lemma factor_once:
  assumes "spendsFactor f u v" and "auth_lasts v u'" and "sound pf secrets K u'"
  shows "\<not> spendsFactor f u' v'"
proof (cases f)
  case (StepOf org user k)
  obtain r where r: "r \<in> set (ad_secrets v)" "mineSecret org user r" "leStep (Some k) (to_last r)"
    using assms(1) StepOf by auto
  then obtain r' where r': "r' \<in> set (ad_secrets u')" "laterSecret r r'"
    using assms(2) all2_ex [of laterSecret "ad_secrets v" "ad_secrets u'" r] by (auto simp: auth_lasts_def)
  then have "mineSecret org user r' \<and> leStep (Some k) (to_last r')"
    using r by (auto simp: laterSecret_def mineSecret_def intro: leStep_trans)
  then have "leStep (Some k) (to_last x)" if "x \<in> set (ad_secrets u')" "mineSecret org user x" for x
    using distinct_eq [of "\<lambda>r. (to_org r, to_user r)" "ad_secrets u'" x r'] that r' assms(3)
    by (auto simp: sound_def mineSecret_def)
  then show ?thesis using StepOf by auto
next
  case (CodeOf org user h)
  obtain c where c: "c \<in> set (ad_codes v)" "mineCode org user c" "re_hash c = h" "re_used c"
    using assms(1) CodeOf by auto
  then obtain c' where c': "c' \<in> set (ad_codes u')" "laterCode c c'"
    using assms(2) all2_ex [of laterCode "ad_codes v" "ad_codes u'" c] by (auto simp: auth_lasts_def)
  then have "x = c'" if "x \<in> set (ad_codes u')" "mineCode org user x" "re_hash x = h" for x
    using distinct_eq [of "\<lambda>r. (re_org r, re_hash r)" "ad_codes u'" x c'] that c c' assms(3)
    by (auto simp: sound_def mineCode_def laterCode_def)
  then show ?thesis using CodeOf c c' by (auto simp: laterCode_def)
qed

section \<open>The log of a verification\<close>

lemma verifyLoop_sound:
  "verifyLoop hmac secret supplied now steps m = Inr (Some step) \<Longrightarrow>
     m = Some step \<or> (step \<in> set steps \<and> (\<exists>shown. totp hmac secret (now + step * PERIOD_SECONDS) = Inr shown \<and> unitsOf shown = supplied))"
  by (induction steps arbitrary: m) (auto simp: bindE_Inr_iff split: if_splits)

lemma verifyTotp_sound:
  assumes "verifyTotp hmac secret code now = Inr (Some step)" and "totpShape code"
  shows "\<exists>shown. totp hmac secret (absoluteStep now step * PERIOD_SECONDS) = Inr shown \<and> unitsOf shown = code"
proof -
  have "filter (\<lambda>c. \<not> isSpace c) code = code"
    using assms(2) by (auto simp: totpShape_def filter_id_conv list_all_iff isDigit_def isSpace_def)
  then obtain shown where "totp hmac secret (now + step * PERIOD_SECONDS) = Inr shown" "unitsOf shown = code"
    using assms(1) by (auto simp: verifyTotp_def Let_def split: if_splits dest!: verifyLoop_sound)
  moreover have "(now + step * PERIOD_SECONDS) div PERIOD_SECONDS = absoluteStep now step * PERIOD_SECONDS div PERIOD_SECONDS"
    by (simp add: absoluteStep_def PERIOD_SECONDS_def)
  ultimately show ?thesis unfolding totp_def by metis
qed

text \<open>The code a factor answers to.\<close>

fun answersTo :: "platform \<Rightarrow> (id \<Rightarrow> id \<Rightarrow> buffer option) \<Rightarrow> id \<Rightarrow> id \<Rightarrow> units \<Rightarrow> factor \<Rightarrow> bool" where
  "answersTo pf K org user code (StepOf o' u' k) \<longleftrightarrow>
     o' = org \<and> u' = user \<and> (\<exists>secret shown. K org user = Some secret
       \<and> totp (pf_hmac pf) secret (k * PERIOD_SECONDS) = Inr shown \<and> unitsOf shown = canonical code)"
| "answersTo pf K org user code (CodeOf o' u' h) \<longleftrightarrow>
     o' = org \<and> u' = user \<and> h = hashRecoveryCode pf (canonical code)"

lemma plays_query_return:
  "plays (query f) l (Returns (Inr a)) \<longleftrightarrow> (\<exists>i u v. l = [(i, u, v)] \<and> f i u = Inr (v, a) \<and> in_conn i = Kept)"
  by (simp add: query_def plays_transact_return)

lemma burnStep_log:
  assumes "plays (burnStep org user k) l (Returns (Inr True))"
  shows "\<exists>(i, u, v) \<in> set l. spendsFactor (StepOf org user k) u v"
proof -
  let ?hit = "\<lambda>r. mineSecret org user r \<and> (case to_last r of None \<Rightarrow> True | Some l \<Rightarrow> l < k)"
  obtain i u where l: "l = [(i, u, u\<lparr>ad_secrets := updateWhere ?hit (to_last_update (\<lambda>_. Some k)) (ad_secrets u)\<rparr>)]"
    and one: "length (filter ?hit (ad_secrets u)) = 1"
    using assms by (auto simp: burnStep_def plays_query_return Let_def)
  obtain r where r: "r \<in> set (ad_secrets u)" "?hit r" 
    using one nth_mem [of 0 "filter ?hit (ad_secrets u)"] by auto
  let ?after = "updateWhere ?hit (to_last_update (\<lambda>_. Some k)) (ad_secrets u)"
  have "r\<lparr>to_last := Some k\<rparr> \<in> set ?after" using r by (force simp: updateWhere_def)
  moreover have "mineSecret org user (r\<lparr>to_last := Some k\<rparr>)" using r by (simp add: mineSecret_def)
  moreover have "leStep (Some k) (to_last (r\<lparr>to_last := Some k\<rparr>))" by (simp add: leStep_def)
  ultimately have "\<exists>r \<in> set ?after. mineSecret org user r \<and> leStep (Some k) (to_last r)" by blast
  moreover have "\<not> leStep (Some k) (to_last r)" using r by (auto simp: leStep_def split: option.splits)
  ultimately have "spendsFactor (StepOf org user k) u (u\<lparr>ad_secrets := ?after\<rparr>)" using r by auto
  then show ?thesis unfolding l by simp
qed

lemma consumeRecoveryCode_log:
  assumes "plays (consumeRecoveryCode pf org user code) l (Returns (Inr True))"
  shows "\<exists>(i, u, v) \<in> set l. spendsFactor (CodeOf org user (hashRecoveryCode pf code)) u v"
proof -
  let ?h = "hashRecoveryCode pf code"
  let ?hit = "\<lambda>c. mineCode org user c \<and> re_hash c = ?h \<and> \<not> re_used c"
  obtain i u where l: "l = [(i, u, u\<lparr>ad_codes := updateWhere ?hit (re_used_update (\<lambda>_. True)) (ad_codes u)\<rparr>)]"
    and one: "length (filter ?hit (ad_codes u)) = 1"
    using assms by (auto simp: consumeRecoveryCode_def plays_query_return Let_def)
  obtain c where c: "c \<in> set (ad_codes u)" "?hit c"
    using one nth_mem [of 0 "filter ?hit (ad_codes u)"] by auto
  let ?after = "updateWhere ?hit (re_used_update (\<lambda>_. True)) (ad_codes u)"
  have "c\<lparr>re_used := True\<rparr> \<in> set ?after" using c by (force simp: updateWhere_def)
  moreover have "mineCode org user (c\<lparr>re_used := True\<rparr>) \<and> re_hash (c\<lparr>re_used := True\<rparr>) = ?h \<and> re_used (c\<lparr>re_used := True\<rparr>)"
    using c by (simp add: mineCode_def)
  ultimately have "\<exists>c \<in> set ?after. mineCode org user c \<and> re_hash c = ?h \<and> re_used c" by blast
  then have "spendsFactor (CodeOf org user ?h) u (u\<lparr>ad_codes := ?after\<rparr>)" using c by auto
  then show ?thesis unfolding l by simp
qed

lemma consumePending_log:
  assumes "plays (consumePending org pending) l (Returns (Inr True))"
  shows "\<exists>(i, u, v) \<in> set l. \<exists>p \<in> set (ad_pending u). pe_id p = pending \<and> \<not> pe_consumed p
    \<and> (\<exists>q \<in> set (ad_pending v). laterPending p q \<and> pe_consumed q)"
proof -
  let ?hit = "\<lambda>p. pe_org p = org \<and> pe_id p = pending \<and> \<not> pe_consumed p"
  obtain i u where l: "l = [(i, u, u\<lparr>ad_pending := updateWhere ?hit (pe_consumed_update (\<lambda>_. True)) (ad_pending u)\<rparr>)]"
    and one: "length (filter ?hit (ad_pending u)) = 1"
    using assms by (auto simp: consumePending_def plays_query_return Let_def)
  obtain p where p: "p \<in> set (ad_pending u)" "?hit p"
    using one nth_mem [of 0 "filter ?hit (ad_pending u)"] by auto
  let ?after = "updateWhere ?hit (pe_consumed_update (\<lambda>_. True)) (ad_pending u)"
  have "p\<lparr>pe_consumed := True\<rparr> \<in> set ?after" using p by (force simp: updateWhere_def)
  moreover have "laterPending p (p\<lparr>pe_consumed := True\<rparr>) \<and> pe_consumed (p\<lparr>pe_consumed := True\<rparr>)"
    by (simp add: laterPending_def)
  ultimately have "\<exists>q \<in> set ?after. laterPending p q \<and> pe_consumed q" by blast
  then show ?thesis using p unfolding l by auto
qed

lemma resolvePending_log:
  assumes "plays (resolvePending pf token) l (Returns (Inr (Some c)))"
  shows "\<exists>(i, u, v) \<in> set l. v = u \<and> (\<exists>p \<in> set (ad_pending u). pe_id p = rp_id c \<and> pe_org p = rp_org c \<and> pe_user p = rp_user c
    \<and> pe_hash p = hashToken pf token \<and> \<not> pe_consumed p \<and> pe_attempts p < MAX_ATTEMPTS)"
  using assms
  by (auto simp: resolvePending_def plays_query_return livePending_def dest!: find_eq_Some_ex)

lemma verifyTotpCode_log:
  assumes "plays (verifyTotpCode pf secrets org user code) l (Returns (Inr True))" and "totpShape code"
    and "sealing_right pf" and "\<forall>e \<in> set l. sound pf secrets K (fst (snd e))"
  shows "\<exists>k secret shown. K org user = Some secret \<and> totp (pf_hmac pf) secret (k * PERIOD_SECONDS) = Inr shown
    \<and> unitsOf shown = code \<and> (\<exists>(i, u, v) \<in> set l. spendsFactor (StepOf org user k) u v)"
proof -
  obtain l1 l2 row where l: "l = l1 @ l2" and row: "plays (secretRow pf secrets org user True) l1 (Returns (Inr row))"
    and rest: "plays (case row of None \<Rightarrow> returnR False | Some (secret, lastUsedStep) \<Rightarrow>
         bindR unixNow (\<lambda>now.
         bindR (checkCode pf secret code now) (\<lambda>step.
         case step of
           None \<Rightarrow> returnR False
         | Some step \<Rightarrow>
             (let used = absoluteStep now step in
              case lastUsedStep of
                Some l \<Rightarrow> if used \<le> l then returnR False else burnStep org user used
              | None \<Rightarrow> burnStep org user used)))) l2 (Returns (Inr True))"
    using assms(1) by (auto simp: verifyTotpCode_def plays_bind_return)
  obtain secret lastUsedStep where [simp]: "row = Some (secret, lastUsedStep)"
    using rest by (cases row) (auto simp: returnR_def)
  have K: "K org user = Some secret"
    using plays_obeys(1) [OF row calm_secretRow [OF assms(3)]] assms(4) l by (simp add: returnR_def)
  obtain l3 l4 l5 l6 now found where l2: "l2 = l3 @ l4" "l4 = l5 @ l6"
    and check: "plays (checkCode pf secret code now) l5 (Returns (Inr found))"
    and tail: "plays (case found of
           None \<Rightarrow> returnR False
         | Some step \<Rightarrow>
             (let used = absoluteStep now step in
              case lastUsedStep of
                Some l \<Rightarrow> if used \<le> l then returnR False else burnStep org user used
              | None \<Rightarrow> burnStep org user used)) l6 (Returns (Inr True))"
    using rest by (simp add: plays_bind_return) blast
  obtain step where [simp]: "found = Some step" using tail by (cases found) (auto simp: returnR_def)
  have step: "verifyTotp (pf_hmac pf) secret code now = Inr (Some step)"
    using check by (cases "verifyTotp (pf_hmac pf) secret code now") (auto simp: checkCode_def returnR_def throwR_def)
  have burn: "plays (burnStep org user (absoluteStep now step)) l6 (Returns (Inr True))"
    using tail by (cases lastUsedStep) (auto simp: returnR_def Let_def split: if_splits)
  obtain shown where "totp (pf_hmac pf) secret (absoluteStep now step * PERIOD_SECONDS) = Inr shown" "unitsOf shown = code"
    using verifyTotp_sound [OF step assms(2)] by blast
  moreover have "\<exists>(i, u, v) \<in> set l. spendsFactor (StepOf org user (absoluteStep now step)) u v"
    using burnStep_log [OF burn] unfolding l l2 by auto
  ultimately show ?thesis using K by blast
qed

lemma canonical_shape: "totpShape (canonical code) \<Longrightarrow> canonical (canonical code) = canonical code"
  and canonical_recovery: "recoveryShape (canonical code) \<Longrightarrow> canonical (canonical code) = canonical code"
proof -
  have *: "canonical c = c" if "list_all (\<lambda>u. (48 \<le> u \<and> u \<le> 57) \<or> (65 \<le> u \<and> u \<le> 90)) c" for c
  proof -
    have "filter (\<lambda>c. \<not> isSpace c \<and> c \<noteq> 45) c = c"
      using that by (auto simp: filter_id_conv list_all_iff isSpace_def)
    moreover have "concat (map upperUnit c) = c"
      using that by (induction c) (auto simp: upperUnit_def)
    ultimately show ?thesis by (simp add: canonical_def toUpperCase_def)
  qed
  show "totpShape (canonical code) \<Longrightarrow> canonical (canonical code) = canonical code"
    by (rule *) (auto simp: totpShape_def list_all_iff isDigit_def)
  show "recoveryShape (canonical code) \<Longrightarrow> canonical (canonical code) = canonical code"
    by (rule *) (auto simp: recoveryShape_def list_all_iff)
qed

lemma verifySecondFactor_log:
  assumes "plays (verifySecondFactor pf secrets org user code) l (Returns (Inr (FactorOk used)))"
    and "sealing_right pf" and "\<forall>e \<in> set l. sound pf secrets K (fst (snd e))"
  shows "\<exists>f. answersTo pf K org user code f \<and> (\<exists>(i, u, v) \<in> set l. spendsFactor f u v)"
proof -
  consider (totp) "totpShape (canonical code)" "plays (verifyTotpCode pf secrets org user (canonical code)) l (Returns (Inr True))"
    | (recovery) "recoveryShape (canonical code)" "plays (consumeRecoveryCode pf org user (canonical code)) l (Returns (Inr True))"
    using assms(1) unfolding verifySecondFactor_def Let_def
    by (auto simp: plays_bind_return returnR_def split: if_splits)
  then show ?thesis
  proof cases
    case totp
    obtain k secret shown where "K org user = Some secret" "totp (pf_hmac pf) secret (k * PERIOD_SECONDS) = Inr shown"
      "unitsOf shown = canonical code" "\<exists>(i, u, v) \<in> set l. spendsFactor (StepOf org user k) u v"
      using verifyTotpCode_log [OF totp(2,1) assms(2,3)] by blast
    then show ?thesis by (intro exI [of _ "StepOf org user k"]) auto
  next
    case recovery
    then show ?thesis
      using consumeRecoveryCode_log [OF recovery(2)] canonical_recovery [OF recovery(1)]
      by (intro exI [of _ "CodeOf org user (hashRecoveryCode pf (canonical code))"])
         (simp add: hashRecoveryCode_def)
  qed
qed

section \<open>The log of a second step that opened a session\<close>

lemma opens_not_quiet: "opens session u v \<Longrightarrow> \<not> quietStep u v"
  unfolding opens_def quietStep_def by (metis list.set_map)

lemma issueSession_log:
  assumes "plays (issueSession pf org user agent ip) l q" and "(i, u, v) \<in> set l" and "opens session u v"
  shows "l = [(i, u, v)] \<and> session = in_id i \<and> (\<exists>r \<in> set (ad_sessions v). se_id r = in_id i \<and> se_org r = org \<and> se_user r = user)"
proof -
  have l: "l = [(i, u, v)]"
    using assms(1,2) by (cases l) (auto simp: issueSession_def query_def dest!: plays_transact_Cons)
  have "v \<noteq> u" using assms(3) by (auto simp: opens_def)
  then show ?thesis
    using assms(1,3) unfolding l
    by (auto simp: issueSession_def query_def opens_def Let_def split: if_splits dest!: plays_transact_Cons)
qed

lemma bind_rejected [simp]: "plays (bindR (returnR SecondRejected) k) l q \<longleftrightarrow> plays (k SecondRejected) l q"
  by simp

text \<open>A part of a log that obeys takes only quiet steps, and a step that is not quiet lies behind it.\<close>

lemma calm_log:
  assumes "plays p l q" and "calm pf secrets K R p" and "\<forall>e \<in> set l. sound pf secrets K (fst (snd e))"
  shows "\<forall>e \<in> set l. quietStep (fst (snd e)) (snd (snd e))"
  using plays_obeys(2) [OF assms] by auto

lemma past_calm:
  assumes "plays (bindR p k) l q" and "calm pf secrets K (\<lambda>a. True) p"
    and "\<forall>e \<in> set l. sound pf secrets K (fst (snd e))" and "(i, u, v) \<in> set l" and "\<not> quietStep u v"
  obtains l1 l2 a where "l = l1 @ l2" and "plays p l1 (Returns (Inr a))" and "plays (k a) l2 q" and "(i, u, v) \<in> set l2"
    and "\<forall>e \<in> set l1. quietStep (fst (snd e)) (snd (snd e))" and "\<forall>e \<in> set l2. sound pf secrets K (fst (snd e))"
proof -
  obtain l1 l2 a where *: "l = l1 @ l2" "plays p l1 (Returns (Inr a))" "plays (k a) l2 q" "(i, u, v) \<in> set l2"
    using plays_past [OF assms] by blast
  moreover have "\<forall>e \<in> set l1. quietStep (fst (snd e)) (snd (snd e))"
    by (rule calm_log [OF *(2) assms(2)]) (use assms(3) *(1) in simp)
  ultimately show thesis using that assms(3) by simp
qed

text \<open>Issuing, and quiet steps after it.\<close>

lemma issue_part:
  assumes "plays (bindR (issueSession pf org user agent ip) k) l q" and "\<And>a. calm pf secrets K (\<lambda>a. True) (k a)"
    and sound: "\<forall>e \<in> set l. sound pf secrets K (fst (snd e))" and e: "(i, u, v) \<in> set l" "opens session u v"
  shows "\<exists>l'. l = (i, u, v) # l' \<and> session = in_id i \<and> (\<forall>e \<in> set l'. quietStep (fst (snd e)) (snd (snd e)))
    \<and> (\<exists>r \<in> set (ad_sessions v). se_id r = in_id i \<and> se_org r = org \<and> se_user r = user)"
  using assms(1)
proof (cases rule: plays_bindE)
  case (1 p')
  note * = issueSession_log [OF 1(1) e]
  show ?thesis using conjunct1 [OF *] conjunct2 [OF *] by simp
next
  case (2 l1 l2 a)
  have quiet: "\<forall>e \<in> set l2. quietStep (fst (snd e)) (snd (snd e))"
    by (rule calm_log [OF 2(3) assms(2)]) (use sound 2(1) in simp)
  then have "(i, u, v) \<in> set l1" using e opens_not_quiet [OF e(2)] 2(1) by auto
  note * = issueSession_log [OF 2(2) this e(2)]
  show ?thesis using conjunct1 [OF *] conjunct2 [OF *] quiet 2(1) by simp
qed

text \<open>\<open>completeSecondFactor\<close> cut after the challenge, and after the verdict.\<close>

definition issueStep :: "platform \<Rightarrow> SecondFactorRequest \<Rightarrow> ResolvedPending \<Rightarrow> UsedFactor \<Rightarrow> SecondFactorLoginResult handler" where
  "issueStep pf a c used =
     bindR (issueSession pf (rp_org c) (rp_user c) (sf_agent a) (Some (sf_ip a))) (\<lambda>session.
     bindR (auditRecord (rp_org c) (rp_user c) ''auth.login'' (Some (sf_ip a))) (\<lambda>_.
     returnR (SecondOk session (rp_user c) (rp_org c) used)))"

definition verdictStep :: "platform \<Rightarrow> SecondFactorRequest \<Rightarrow> ResolvedPending \<Rightarrow> SecondFactorResult \<Rightarrow> SecondFactorLoginResult handler" where
  "verdictStep pf a c verified =
     (case verified of
        FactorRejected \<Rightarrow>
          bindR (auditRecord (rp_org c) (rp_user c) ''auth.login-failed'' (Some (sf_ip a))) (\<lambda>_. returnR SecondRejected)
      | FactorOk used \<Rightarrow>
          bindR (consumePending (rp_org c) (rp_id c)) (\<lambda>spent.
          if \<not> spent then returnR SecondRejected else issueStep pf a c used))"

lemma second_step_eq:
  "serve pf secrets (SecondFactor a) =
     bindR (resolvePending pf (sf_token a)) (\<lambda>ch.
     case ch of
       None \<Rightarrow> returnR ()
     | Some c \<Rightarrow>
         bindR (countAttempt (rp_org c) (rp_id c)) (\<lambda>_.
         bindR (verifySecondFactor pf secrets (rp_org c) (rp_user c) (sf_code a)) (\<lambda>verified.
         answered (verdictStep pf a c verified))))"
  unfolding serve.simps answered_def completeSecondFactor_def verdictStep_def issueStep_def bindR_assoc
  by (rule arg_cong [where f = "bindR (resolvePending pf (sf_token a))"])
     (auto simp: fun_eq_iff bindR_assoc split: option.split)

lemma answered_bind: "answered (bindR p k) = bindR p (\<lambda>a. answered (k a))"
  by (simp add: answered_def bindR_assoc)

lemma answered_return [simp]: "answered (returnR a) = returnR ()"
  by (simp add: answered_def)

text \<open>The log up to the issue: what was resolved, verified and consumed before it.\<close>

lemma second_step_parts:
  assumes log: "plays (serve pf secrets (SecondFactor a)) l q" and right: "sealing_right pf"
    and sound: "\<forall>e \<in> set l. sound pf secrets K (fst (snd e))"
    and e: "(i, u, v) \<in> set l" "opens session u v"
  shows "\<exists>l1 l2 l3 l4 l5 c used. l = l1 @ l2 @ l3 @ l4 @ (i, u, v) # l5
    \<and> plays (resolvePending pf (sf_token a)) l1 (Returns (Inr (Some c)))
    \<and> plays (verifySecondFactor pf secrets (rp_org c) (rp_user c) (sf_code a)) l3 (Returns (Inr (FactorOk used)))
    \<and> plays (consumePending (rp_org c) (rp_id c)) l4 (Returns (Inr True))
    \<and> (\<exists>r \<in> set (ad_sessions v). se_id r = in_id i \<and> se_org r = rp_org c \<and> se_user r = rp_user c)
    \<and> session = in_id i \<and> (\<forall>e \<in> set (l1 @ l2 @ l3 @ l4 @ l5). quietStep (fst (snd e)) (snd (snd e)))"
proof -
  note loud = opens_not_quiet [OF e(2)]
  obtain l1 m1 ch where 1: "l = l1 @ m1" "plays (resolvePending pf (sf_token a)) l1 (Returns (Inr ch))"
    "\<forall>e \<in> set l1. quietStep (fst (snd e)) (snd (snd e))"
    and m1: "plays (case ch of None \<Rightarrow> returnR () | Some c \<Rightarrow>
         bindR (countAttempt (rp_org c) (rp_id c)) (\<lambda>_.
         bindR (verifySecondFactor pf secrets (rp_org c) (rp_user c) (sf_code a)) (\<lambda>verified.
         answered (verdictStep pf a c verified)))) m1 q"
      "(i, u, v) \<in> set m1" "\<forall>e \<in> set m1. sound pf secrets K (fst (snd e))"
    using log unfolding second_step_eq by (rule past_calm [OF _ calm_rules(9) sound e(1) loud]) blast
  obtain c where ch: "ch = Some c" using m1 by (cases ch) (auto simp: returnR_def)
  obtain l2 m2 w where 2: "m1 = l2 @ m2" "\<forall>e \<in> set l2. quietStep (fst (snd e)) (snd (snd e))"
    and m2: "plays (bindR (verifySecondFactor pf secrets (rp_org c) (rp_user c) (sf_code a)) (\<lambda>verified.
         answered (verdictStep pf a c verified))) m2 q"
      "(i, u, v) \<in> set m2" "\<forall>e \<in> set m2. sound pf secrets K (fst (snd e))"
    using m1(1) unfolding ch option.case by (rule past_calm [OF _ calm_pending(1) m1(3,2) loud]) blast
  obtain l3 m3 verified where 3: "m2 = l3 @ m3" "\<forall>e \<in> set l3. quietStep (fst (snd e)) (snd (snd e))"
    "plays (verifySecondFactor pf secrets (rp_org c) (rp_user c) (sf_code a)) l3 (Returns (Inr verified))"
    and m3: "plays (answered (verdictStep pf a c verified)) m3 q"
      "(i, u, v) \<in> set m3" "\<forall>e \<in> set m3. sound pf secrets K (fst (snd e))"
    using m2(1) by (rule past_calm [OF _ calm_verifySecondFactor [OF right] m2(3,2) loud]) blast
  have "verified \<noteq> FactorRejected"
  proof
    assume "verified = FactorRejected"
    then have "calm pf secrets K (\<lambda>a. True) (answered (verdictStep pf a c verified))"
      unfolding answered_def verdictStep_def by (simp only: SecondFactorResult.case) (intro calm_then calm_rules; simp)
    from calm_log [OF m3(1) this m3(3)] show False using m3(2) loud by auto
  qed
  then obtain used where used: "verified = FactorOk used" by (cases verified) auto
  have "plays (bindR (consumePending (rp_org c) (rp_id c)) (\<lambda>spent.
      answered (if \<not> spent then returnR SecondRejected else issueStep pf a c used))) m3 q"
    using m3(1) by (simp add: verdictStep_def used answered_bind)
  then obtain l4 m4 spent where 4: "m3 = l4 @ m4" "\<forall>e \<in> set l4. quietStep (fst (snd e)) (snd (snd e))"
    "plays (consumePending (rp_org c) (rp_id c)) l4 (Returns (Inr spent))"
    and m4: "plays (answered (if \<not> spent then returnR SecondRejected else issueStep pf a c used)) m4 q"
      "(i, u, v) \<in> set m4" "\<forall>e \<in> set m4. sound pf secrets K (fst (snd e))"
    by (rule past_calm [OF _ calm_pending(2) m3(3,2) loud]) blast
  have spent: "spent" using m4(1,2) by (cases spent) (auto simp: returnR_def answered_def)
  have "plays (bindR (issueSession pf (rp_org c) (rp_user c) (sf_agent a) (Some (sf_ip a))) (\<lambda>session.
      answered (bindR (auditRecord (rp_org c) (rp_user c) ''auth.login'' (Some (sf_ip a))) (\<lambda>_.
      returnR (SecondOk session (rp_user c) (rp_org c) used))))) m4 q"
    using m4(1) spent by (simp add: issueStep_def answered_bind)
  from issue_part [OF this _ m4(3,2) e(2)] obtain l5 where 5: "m4 = (i, u, v) # l5" "session = in_id i"
    "\<forall>e \<in> set l5. quietStep (fst (snd e)) (snd (snd e))"
    "\<exists>r \<in> set (ad_sessions v). se_id r = in_id i \<and> se_org r = rp_org c \<and> se_user r = rp_user c"
    unfolding answered_bind answered_return by (blast intro: calm_then calm_rules obeys_return [THEN iffD2])
  have "l = l1 @ l2 @ l3 @ l4 @ (i, u, v) # l5" using 1 2 3 4 5 by simp
  moreover have "\<forall>e \<in> set (l1 @ l2 @ l3 @ l4 @ l5). quietStep (fst (snd e)) (snd (snd e))"
    using 1(3) 2(2) 3(2) 4(2) 5(3) by auto
  ultimately show ?thesis using 1(2) 3(3) 4(3) 5(2,4) unfolding ch used by (metis spent)
qed

section \<open>The log of a first step that opened a session\<close>

definition enrolledIn :: "auth_db \<Rightarrow> id \<Rightarrow> id \<Rightarrow> bool" where
  "enrolledIn s org user = list_ex (\<lambda>r. mineSecret org user r \<and> to_confirmed r) (ad_secrets s)"

text \<open>\<open>login\<close> once the password is right.\<close>

definition passwordRight :: "platform \<Rightarrow> LoginRequest \<Rightarrow> units \<Rightarrow> id \<Rightarrow> UserRow \<Rightarrow> LoginResult handler" where
  "passwordRight pf request name org u =
     bindR (isEnrolled org (ur_id u)) (\<lambda>enrolled.
     if enrolled
     then bindR (createPending pf org (ur_id u)) (\<lambda>challenge.
          bindR (recordLogin name (lr_ip request) True) (\<lambda>_.
          returnR (MfaRequired challenge)))
     else bindR (issueSession pf org (ur_id u) (lr_agent request) (Some (lr_ip request))) (\<lambda>session.
          bindR (recordLogin name (lr_ip request) True) (\<lambda>_.
          bindR (auditRecord org (ur_id u) ''auth.login'' (Some (lr_ip request))) (\<lambda>_.
          returnR (LoginOk session (ur_id u) org)))))"

definition accountFound :: "platform \<Rightarrow> LoginRequest \<Rightarrow> units \<Rightarrow> id option \<Rightarrow> UserRow option \<Rightarrow> LoginResult handler" where
  "accountFound pf request name organizationId user =
     (let ok = verifyPassword pf (case user of None \<Rightarrow> None | Some u \<Rightarrow> ur_hash u) (lr_password request) in
      case (organizationId, user) of
        (Some org, Some u) \<Rightarrow>
          if \<not> ok
          then bindR (recordLogin name (lr_ip request) False) (\<lambda>_.
               bindR (auditRecord org (ur_id u) ''auth.login-failed'' (Some (lr_ip request))) (\<lambda>_.
               returnR LoginRejected))
          else passwordRight pf request name org u
      | _ \<Rightarrow> bindR (recordLogin name (lr_ip request) False) (\<lambda>_. returnR LoginRejected))"

lemma login_eq:
  "login pf request =
     bindR (foldName pf (lr_username request)) (\<lambda>name.
     bindR (gate name (lr_ip request)) (\<lambda>decision.
     case decision of
       Refused seconds \<Rightarrow> returnR (Throttled seconds)
     | Allowed \<Rightarrow>
         bindR (case lr_slug request of
                  None \<Rightarrow> resolveSoleId
                | Some slug \<Rightarrow> if slug = [] then resolveSoleId else resolveIdBySlug slug) (\<lambda>organizationId.
         bindR (case organizationId of None \<Rightarrow> returnR None | Some org \<Rightarrow> findUser org name) (\<lambda>user.
         accountFound pf request name organizationId user))))"
  unfolding login_def accountFound_def passwordRight_def Let_def by (rule refl)

lemma passwordRight_log:
  assumes "plays (answered (passwordRight pf request name org u)) l q"
    and sound: "\<forall>e \<in> set l. sound pf secrets K (fst (snd e))"
    and e: "(i, s, s') \<in> set l" "opens session s s'"
  shows "(\<exists>r \<in> set (ad_sessions s'). se_id r = in_id i \<and> se_org r = org \<and> se_user r = ur_id u) \<and> session = in_id i
    \<and> (\<exists>(i, s, s') \<in> set l. \<not> enrolledIn s org (ur_id u))"
proof -
  note loud = opens_not_quiet [OF e(2)]
  obtain l1 l2 enrolled where l: "l = l1 @ l2" "plays (isEnrolled org (ur_id u)) l1 (Returns (Inr enrolled))"
    and rest: "plays (answered (if enrolled
     then bindR (createPending pf org (ur_id u)) (\<lambda>challenge.
          bindR (recordLogin name (lr_ip request) True) (\<lambda>_.
          returnR (MfaRequired challenge)))
     else bindR (issueSession pf org (ur_id u) (lr_agent request) (Some (lr_ip request))) (\<lambda>session.
          bindR (recordLogin name (lr_ip request) True) (\<lambda>_.
          bindR (auditRecord org (ur_id u) ''auth.login'' (Some (lr_ip request))) (\<lambda>_.
          returnR (LoginOk session (ur_id u) org)))))) l2 q"
      "(i, s, s') \<in> set l2" "\<forall>e \<in> set l2. sound pf secrets K (fst (snd e))"
    using assms(1) unfolding passwordRight_def answered_bind
    by (rule past_calm [OF _ calm_rules(15) sound e(1) loud]) blast
  have "\<not> enrolled"
  proof
    assume enrolled
    then have "calm pf secrets K (\<lambda>a. True) (answered (if enrolled
     then bindR (createPending pf org (ur_id u)) (\<lambda>challenge.
          bindR (recordLogin name (lr_ip request) True) (\<lambda>_.
          returnR (MfaRequired challenge)))
     else bindR (issueSession pf org (ur_id u) (lr_agent request) (Some (lr_ip request))) (\<lambda>session.
          bindR (recordLogin name (lr_ip request) True) (\<lambda>_.
          bindR (auditRecord org (ur_id u) ''auth.login'' (Some (lr_ip request))) (\<lambda>_.
          returnR (LoginOk session (ur_id u) org))))))"
      unfolding answered_def by (simp only: if_True) (intro calm_then calm_rules; simp)
    from calm_log [OF rest(1) this rest(3)] show False using rest(2) loud by auto
  qed
  then have "\<exists>(i, s, s') \<in> set l. \<not> enrolledIn s org (ur_id u)"
    using l(2) unfolding l(1) by (auto simp: isEnrolled_def plays_query_return enrolledIn_def)
  moreover have "plays (bindR (issueSession pf org (ur_id u) (lr_agent request) (Some (lr_ip request))) (\<lambda>session.
          answered (bindR (recordLogin name (lr_ip request) True) (\<lambda>_.
          bindR (auditRecord org (ur_id u) ''auth.login'' (Some (lr_ip request))) (\<lambda>_.
          returnR (LoginOk session (ur_id u) org)))))) l2 q"
    using rest(1) \<open>\<not> enrolled\<close> by (simp add: answered_bind)
  from issue_part [OF this _ rest(3,2) e(2)]
  have "session = in_id i \<and> (\<exists>r \<in> set (ad_sessions s'). se_id r = in_id i \<and> se_org r = org \<and> se_user r = ur_id u)"
    unfolding answered_bind answered_return by (blast intro: calm_then calm_rules obeys_return [THEN iffD2])
  ultimately show ?thesis by blast
qed

lemma login_log:
  assumes "plays (serve pf secrets (Login request)) l q"
    and sound: "\<forall>e \<in> set l. sound pf secrets K (fst (snd e))"
    and e: "(i, s, s') \<in> set l" "opens session s s'"
  shows "\<exists>org user. (\<exists>r \<in> set (ad_sessions s'). se_id r = in_id i \<and> se_org r = org \<and> se_user r = user) \<and> session = in_id i
    \<and> (\<exists>(i, s, s') \<in> set l. \<not> enrolledIn s org user)"
proof -
  note loud = opens_not_quiet [OF e(2)]
  let ?slug = "case lr_slug request of None \<Rightarrow> resolveSoleId
     | Some slug \<Rightarrow> if slug = [] then resolveSoleId else resolveIdBySlug slug"
  let ?user = "\<lambda>name organizationId. case organizationId of None \<Rightarrow> returnR None | Some org \<Rightarrow> findUser org name"
  have slug: "calm pf secrets K (\<lambda>a. True) ?slug"
    by (intro calm_option calm_if calm_rules)
  have user: "calm pf secrets K (\<lambda>a. True) (?user name organizationId)" for name organizationId
    by (intro calm_option calm_rules) simp
  obtain l1 m1 name where 1: "l = l1 @ m1"
    and m1: "plays (bindR (gate name (lr_ip request)) (\<lambda>decision. answered (case decision of
       Refused seconds \<Rightarrow> returnR (Throttled seconds)
     | Allowed \<Rightarrow> bindR ?slug (\<lambda>organizationId. bindR (?user name organizationId) (\<lambda>user.
         accountFound pf request name organizationId user))))) m1 q"
      "(i, s, s') \<in> set m1" "\<forall>e \<in> set m1. sound pf secrets K (fst (snd e))"
    using assms(1) unfolding serve.simps login_eq answered_bind
    by (rule past_calm [OF _ calm_rules(7) sound e(1) loud]) blast
  obtain l2 m2 decision where 2: "m1 = l2 @ m2"
    and m2: "plays (answered (case decision of
       Refused seconds \<Rightarrow> returnR (Throttled seconds)
     | Allowed \<Rightarrow> bindR ?slug (\<lambda>organizationId. bindR (?user name organizationId) (\<lambda>user.
         accountFound pf request name organizationId user)))) m2 q"
      "(i, s, s') \<in> set m2" "\<forall>e \<in> set m2. sound pf secrets K (fst (snd e))"
    using m1(1) by (rule past_calm [OF _ calm_gate m1(3,2) loud]) blast
  have "decision = Allowed" using m2 by (cases decision) (auto simp: returnR_def answered_def)
  then have "plays (bindR ?slug (\<lambda>organizationId. bindR (?user name organizationId) (\<lambda>user.
         answered (accountFound pf request name organizationId user)))) m2 q"
    using m2(1) by (simp add: answered_bind)
  then obtain l3 m3 organizationId where 3: "m2 = l3 @ m3"
    and m3: "plays (bindR (?user name organizationId) (\<lambda>user. answered (accountFound pf request name organizationId user))) m3 q"
      "(i, s, s') \<in> set m3" "\<forall>e \<in> set m3. sound pf secrets K (fst (snd e))"
    by (rule past_calm [OF _ slug m2(3,2) loud]) blast
  obtain l4 m4 found where 4: "m3 = l4 @ m4"
    and m4: "plays (answered (accountFound pf request name organizationId found)) m4 q"
      "(i, s, s') \<in> set m4" "\<forall>e \<in> set m4. sound pf secrets K (fst (snd e))"
    using m3(1) by (rule past_calm [OF _ user m3(3,2) loud]) blast
  have "\<not> calm pf secrets K (\<lambda>a. True) (answered (accountFound pf request name organizationId found))"
    using calm_log [OF m4(1) _ m4(3)] m4(2) loud by fastforce
  moreover have "calm pf secrets K (\<lambda>a. True)
      (answered (bindR (recordLogin name (lr_ip request) False) (\<lambda>_. returnR LoginRejected)))"
    unfolding answered_def by (intro calm_then calm_rules; simp)
  moreover have "calm pf secrets K (\<lambda>a. True)
      (answered (bindR (recordLogin name (lr_ip request) False) (\<lambda>_.
         bindR (auditRecord org u ''auth.login-failed'' (Some (lr_ip request))) (\<lambda>_. returnR LoginRejected))))" for org u
    unfolding answered_def by (intro calm_then calm_rules; simp)
  ultimately obtain org u where "organizationId = Some org" "found = Some u"
    and "accountFound pf request name organizationId found = passwordRight pf request name org u"
    unfolding accountFound_def Let_def by (cases organizationId; cases found) (auto split: if_splits)
  then show ?thesis
    using passwordRight_log [of pf request name org u m4 q, OF _ m4(3,2) e(2)] m4(1) 1 2 3 4 by fastforce
qed

section \<open>Every session of an enrolled user was earned\<close>

text \<open>No other request opens a session.\<close>

lemma opens_only:
  assumes "plays (serve pf secrets e) l q" and "sealing_right pf" and "\<not> changesMfa e"
    and "\<forall>e \<in> set l. sound pf secrets K (fst (snd e))" and "(i, s, s') \<in> set l" and "opens session s s'"
  shows "(\<exists>a. e = SecondFactor a) \<or> (\<exists>r. e = Login r)"
proof (rule ccontr)
  assume "\<not> ?thesis"
  then have "calm pf secrets K (\<lambda>a. True) (serve pf secrets e)"
    using assms(2,3) by (cases e) (auto intro!: calm_then calm_rules simp: answered_def)
  from calm_log [OF assms(1) this assms(4)] show False
    using assms(5) opens_not_quiet [OF assms(6)] by auto
qed

lemma enrolled_lasts: "auth_lasts s s' \<Longrightarrow> enrolledIn s org user \<Longrightarrow> enrolledIn s' org user"
  by (auto simp: enrolledIn_def auth_lasts_def list_ex_iff laterSecret_def mineSecret_def dest!: all2_ex)

text \<open>The first transaction of a run that has a session it did not start with.\<close>

lemma first_opening:
  "runs P s t Q s' \<Longrightarrow> session \<notin> se_id ` set (ad_sessions s) \<Longrightarrow> session \<in> se_id ` set (ad_sessions s') \<Longrightarrow>
     \<exists>(j, i, u, v) \<in> set t. opens session u v"
proof (induction rule: runs.induct)
  case (runs_Cons P j f i s s' q t Q s'')
  then show ?case
    by (cases "session \<in> se_id ` set (ad_sessions s')") (auto simp: opens_def)
qed simp

text \<open>The trace's account of one session: who opened it, with which challenge and factor.\<close>

definition earned ::
  "platform \<Rightarrow> (id \<Rightarrow> id \<Rightarrow> buffer option) \<Rightarrow> (nat \<Rightarrow> Endpoint) \<Rightarrow> (inp, auth_db) trace \<Rightarrow> SessionRow \<Rightarrow>
   nat \<Rightarrow> SecondFactorRequest \<Rightarrow> factor \<Rightarrow> bool" where
  "earned pf K reqs t r j a f \<longleftrightarrow>
     reqs j = SecondFactor a \<and> answersTo pf K (se_org r) (se_user r) (sf_code a) f
     \<and> (\<exists>(i, u, v) \<in> set (doneBy j t). opens (se_id r) u v)
     \<and> (\<exists>(i, u, v) \<in> set (doneBy j t). spendsChallenge (hashToken pf (sf_token a)) (se_user r) u v)
     \<and> (\<exists>(i, u, v) \<in> set (doneBy j t). spendsFactor f u v)"

lemma challenge_of_log:
  assumes order: "sorted_wrt (\<lambda>e e'. auth_lasts (snd (snd e)) (fst (snd e'))) (l1 @ l2 @ l3 @ l4 @ l5)"
    and sound: "\<forall>e \<in> set l4. sound pf secrets K (fst (snd e))"
    and resolved: "plays (resolvePending pf token) l1 (Returns (Inr (Some c)))"
    and consumed: "plays (consumePending (rp_org c) (rp_id c)) l4 (Returns (Inr True))"
  shows "\<exists>(i, u, v) \<in> set l4. spendsChallenge (hashToken pf token) (rp_user c) u v"
proof -
  obtain i u p where 1: "(i, u, u) \<in> set l1" and p: "p \<in> set (ad_pending u)" "pe_id p = rp_id c" "pe_user p = rp_user c"
    "pe_hash p = hashToken pf token"
    using resolvePending_log [OF resolved] by auto
  obtain e where e: "e \<in> set l4" "case e of (i, u, v) \<Rightarrow> \<exists>p \<in> set (ad_pending u). pe_id p = rp_id c \<and> \<not> pe_consumed p
    \<and> (\<exists>q \<in> set (ad_pending v). laterPending p q \<and> pe_consumed q)"
    using consumePending_log [OF consumed] by blast
  obtain i' u' v' where "e = (i', u', v')" by (cases e)
  then have 2: "(i', u', v') \<in> set l4" and "\<exists>p \<in> set (ad_pending u'). pe_id p = rp_id c \<and> \<not> pe_consumed p
    \<and> (\<exists>q \<in> set (ad_pending v'). laterPending p q \<and> pe_consumed q)" using e by simp_all
  then obtain x y where x: "x \<in> set (ad_pending u')" "pe_id x = rp_id c" "\<not> pe_consumed x"
    and y: "y \<in> set (ad_pending v')" "laterPending x y" "pe_consumed y" by blast
  have "\<forall>e \<in> set l1. \<forall>e' \<in> set l4. auth_lasts (snd (snd e)) (fst (snd e'))"
    using order by (auto simp: sorted_wrt_append)
  from bspec [OF bspec [OF this 1] 2] have "auth_lasts u u'" by simp
  then obtain p' where p': "p' \<in> set (ad_pending u')" "laterPending p p'"
    using p(1) by (auto simp: auth_lasts_def kept_def)
  have "distinct (map pe_id (ad_pending u'))" using sound 2 by (auto simp: sound_def)
  then have "x = p'" using distinct_eq [of pe_id "ad_pending u'" x p'] x p' p(2) by (auto simp: laterPending_def)
  then have "spendsChallenge (hashToken pf token) (rp_user c) u' v'"
    using x y p p' unfolding spendsChallenge_def laterPending_def by auto
  then show ?thesis using 2 by blast
qed

lemma earned_exists:
  assumes run: "runs (\<lambda>j. serve pf secrets (reqs j)) s0 t Q s" and plain: "\<forall>j. \<not> changesMfa (reqs j)"
    and s0: "sound pf secrets K s0" and right: "sealing_right pf"
    and r: "r \<in> set (ad_sessions s)" "se_id r \<notin> se_id ` set (ad_sessions s0)" "enrolledIn s0 (se_org r) (se_user r)"
  shows "\<exists>j a f. earned pf K reqs t r j a f"
proof -
  have obeys: "\<forall>j. obeys (sound pf secrets K) auth_lasts (\<lambda>a. True) (serve pf secrets (reqs j))"
    using obeys_serve [OF right] plain by blast
  obtain j i u v where e: "(j, i, u, v) \<in> set t" "opens (se_id r) u v"
    using first_opening [OF run r(2)] r(1) by auto
  define l where "l = doneBy j t"
  have el: "(i, u, v) \<in> set l" using e(1) by (simp add: l_def doneBy_mem)
  have log: "plays (serve pf secrets (reqs j)) l (Q j)" using runs_plays [OF run] by (simp add: l_def)
  have at: "sound pf secrets K u' \<and> auth_lasts s0 u' \<and> auth_lasts v' s" if "(i', u', v') \<in> set l" for i' u' v'
    using auth.event_sound [OF run s0 obeys, of j i' u' v'] that by (simp add: l_def doneBy_mem)
  then have sound: "\<forall>e \<in> set l. sound pf secrets K (fst (snd e))" by auto
  have s: "sound pf secrets K s" using auth.runs_obey [OF run s0 obeys] by simp
  have owner: "se_org r = org \<and> se_user r = user"
    if row: "\<exists>x \<in> set (ad_sessions v). se_id x = in_id i \<and> se_org x = org \<and> se_user x = user"
      and id: "se_id r = in_id i" for org user
  proof -
    obtain x where x: "x \<in> set (ad_sessions v)" "se_id x = se_id r" "se_org x = org" "se_user x = user"
      using row id by auto
    then obtain y where "y \<in> set (ad_sessions s)" "laterSession x y"
      using at [OF el] by (auto simp: auth_lasts_def kept_def)
    then show ?thesis using distinct_eq [of se_id "ad_sessions s" y r] s r(1) x by (auto simp: sound_def laterSession_def)
  qed
  show ?thesis
  proof (cases "\<exists>request. reqs j = Login request")
    case True
    then obtain org user where "\<exists>x \<in> set (ad_sessions v). se_id x = in_id i \<and> se_org x = org \<and> se_user x = user"
      "se_id r = in_id i" and no: "\<exists>(i, s, s') \<in> set l. \<not> enrolledIn s org user"
      using login_log [OF _ sound el e(2)] log by metis
    then have "se_org r = org \<and> se_user r = user" by (intro owner)
    then show ?thesis using no at enrolled_lasts r(3) by blast
  next
    case False
    then obtain a where a: "reqs j = SecondFactor a"
      using opens_only [OF log right _ sound el e(2)] plain by auto
    obtain l1 l2 l3 l4 l5 c used where l: "l = l1 @ l2 @ l3 @ l4 @ (i, u, v) # l5"
      and resolved: "plays (resolvePending pf (sf_token a)) l1 (Returns (Inr (Some c)))"
      and verified: "plays (verifySecondFactor pf secrets (rp_org c) (rp_user c) (sf_code a)) l3 (Returns (Inr (FactorOk used)))"
      and consumed: "plays (consumePending (rp_org c) (rp_id c)) l4 (Returns (Inr True))"
      and row: "\<exists>x \<in> set (ad_sessions v). se_id x = in_id i \<and> se_org x = rp_org c \<and> se_user x = rp_user c"
      and id: "se_id r = in_id i"
      using second_step_parts [OF _ right sound el e(2)] log unfolding a by metis
    have who: "se_org r = rp_org c" "se_user r = rp_user c" using owner [OF row id] by simp_all
    have "\<forall>e \<in> set l3. sound pf secrets K (fst (snd e))" using sound l by auto
    from verifySecondFactor_log [OF verified right this]
    obtain f where f: "answersTo pf K (rp_org c) (rp_user c) (sf_code a) f" "\<exists>(i, u, v) \<in> set l3. spendsFactor f u v"
      by blast
    have "sorted_wrt (\<lambda>e e'. auth_lasts (snd (snd e)) (fst (snd e'))) (l1 @ l2 @ l3 @ l4 @ (i, u, v) # l5)"
      using auth.log_in_order [OF run s0 obeys, of j] by (simp add: l_def [symmetric] l)
    moreover have "\<forall>e \<in> set l4. sound pf secrets K (fst (snd e))" using sound l by auto
    ultimately have "\<exists>(i, u, v) \<in> set l4. spendsChallenge (hashToken pf (sf_token a)) (rp_user c) u v"
      by (rule challenge_of_log [OF _ _ resolved consumed])
    then have "earned pf K reqs t r j a f"
      using a f el e(2) unfolding earned_def l_def [symmetric] who l by auto
    then show ?thesis by blast
  qed
qed

lemma earned_apart:
  assumes run: "runs (\<lambda>j. serve pf secrets (reqs j)) s0 t Q s" and plain: "\<forall>j. \<not> changesMfa (reqs j)"
    and s0: "sound pf secrets K s0" and right: "sealing_right pf"
    and "earned pf K reqs t r j a f" and "earned pf K reqs t r' j' a' f'" and "se_id r \<noteq> se_id r'"
  shows "f \<noteq> f' \<and> hashToken pf (sf_token a) \<noteq> hashToken pf (sf_token a')"
proof -
  have obeys: "\<forall>j. obeys (sound pf secrets K) auth_lasts (\<lambda>a. True) (serve pf secrets (reqs j))"
    using obeys_serve [OF right] plain by blast
  have in_trace: "(j, i, u, v) \<in> set t" if "(i, u, v) \<in> set (doneBy j t)" for j i u v
    using that by (simp add: doneBy_mem)
  have sound: "\<forall>e \<in> set (doneBy j t). sound pf secrets K (fst (snd e))"
    using auth.event_sound [OF run s0 obeys] in_trace by fastforce
  have "j \<noteq> j'"
  proof
    assume "j = j'"
    obtain i u v where e: "(i, u, v) \<in> set (doneBy j t)" "opens (se_id r) u v" and a: "reqs j = SecondFactor a"
      using assms(5) by (auto simp: earned_def)
    obtain i' u' v' where e': "(i', u', v') \<in> set (doneBy j t)" "opens (se_id r') u' v'"
      using assms(6) \<open>j = j'\<close> by (auto simp: earned_def)
    have log: "plays (serve pf secrets (SecondFactor a)) (doneBy j t) (Q j)" using runs_plays [OF run, of j] a by simp
    from second_step_parts [OF log right sound e] second_step_parts [OF log right sound e']
    have ids: "se_id r = in_id i" "se_id r' = in_id i'" by auto
    obtain l1 l2 l3 l4 l5 where "doneBy j t = l1 @ l2 @ l3 @ l4 @ (i, u, v) # l5"
      "\<forall>e \<in> set (l1 @ l2 @ l3 @ l4 @ l5). quietStep (fst (snd e)) (snd (snd e))"
      using second_step_parts [OF log right sound e] by auto
    then have "(i', u', v') = (i, u, v)" using e'(1) opens_not_quiet [OF e'(2)] by (fastforce dest: bspec)
    then show False using ids assms(7) by simp
  qed
  have apart: "\<not> P u' v' \<or> \<not> P u v"
    if once: "\<And>u v u' v'. P u v \<Longrightarrow> auth_lasts v u' \<Longrightarrow> sound pf secrets K u' \<Longrightarrow> \<not> P u' v'"
      and "(i, u, v) \<in> set (doneBy j t)" "(i', u', v') \<in> set (doneBy j' t)" for P i u v i' u' v'
  proof -
    have e: "(j, i, u, v) \<in> set t" "(j', i', u', v') \<in> set t" using that in_trace by auto
    have "sound pf secrets K u" "sound pf secrets K u'" using auth.event_sound [OF run s0 obeys] e by blast+
    then show ?thesis using auth.one_first [OF run s0 obeys e \<open>j \<noteq> j'\<close>] once by metis
  qed
  have "f \<noteq> f'"
    using apart [of "spendsFactor f"] factor_once assms(5,6) unfolding earned_def by fast
  moreover have "hashToken pf (sf_token a) \<noteq> hashToken pf (sf_token a')"
  proof
    assume same: "hashToken pf (sf_token a) = hashToken pf (sf_token a')"
    let ?P = "\<lambda>u v. \<exists>user. spendsChallenge (hashToken pf (sf_token a)) user u v"
    have "\<not> ?P u' v'" if "?P u v" "auth_lasts v u'" "sound pf secrets K u'" for u v u' v'
      using challenge_once that by blast
    from apart [of ?P, OF this] show False
      using assms(5,6) same unfolding earned_def by fastforce
  qed
  ultimately show ?thesis by blast
qed

lemma spends_over: "spendsFactor f u v \<Longrightarrow> auth_lasts s u \<Longrightarrow> auth_lasts v s' \<Longrightarrow> spendsFactor f s s'"
proof (cases f)
  case (StepOf org user k)
  assume a: "spendsFactor f u v" "auth_lasts s u" "auth_lasts v s'"
  obtain x where x: "x \<in> set (ad_secrets u)" "mineSecret org user x" "\<not> leStep (Some k) (to_last x)" using a(1) StepOf by auto
  obtain y where y: "y \<in> set (ad_secrets v)" "mineSecret org user y" "leStep (Some k) (to_last y)" using a(1) StepOf by auto
  obtain x0 where x0: "x0 \<in> set (ad_secrets s)" "laterSecret x0 x"
    using a(2) all2_ex_left [of laterSecret "ad_secrets s" "ad_secrets u" x] x by (auto simp: auth_lasts_def)
  obtain y1 where y1: "y1 \<in> set (ad_secrets s')" "laterSecret y y1"
    using a(3) all2_ex [of laterSecret "ad_secrets v" "ad_secrets s'" y] y by (auto simp: auth_lasts_def)
  have "mineSecret org user x0 \<and> \<not> leStep (Some k) (to_last x0)"
    using x x0 leStep_trans by (auto simp: laterSecret_def mineSecret_def)
  moreover have "mineSecret org user y1 \<and> leStep (Some k) (to_last y1)"
    using y y1 leStep_trans by (auto simp: laterSecret_def mineSecret_def)
  ultimately show ?thesis using StepOf x0(1) y1(1) by auto
next
  case (CodeOf org user h)
  assume a: "spendsFactor f u v" "auth_lasts s u" "auth_lasts v s'"
  obtain x where x: "x \<in> set (ad_codes u)" "mineCode org user x" "re_hash x = h" "\<not> re_used x" using a(1) CodeOf by auto
  obtain y where y: "y \<in> set (ad_codes v)" "mineCode org user y" "re_hash y = h" "re_used y" using a(1) CodeOf by auto
  obtain x0 where x0: "x0 \<in> set (ad_codes s)" "laterCode x0 x"
    using a(2) all2_ex_left [of laterCode "ad_codes s" "ad_codes u" x] x by (auto simp: auth_lasts_def)
  obtain y1 where y1: "y1 \<in> set (ad_codes s')" "laterCode y y1"
    using a(3) all2_ex [of laterCode "ad_codes v" "ad_codes s'" y] y by (auto simp: auth_lasts_def)
  have "mineCode org user x0 \<and> re_hash x0 = h \<and> \<not> re_used x0"
    using x x0 by (auto simp: laterCode_def mineCode_def)
  moreover have "mineCode org user y1 \<and> re_hash y1 = h \<and> re_used y1"
    using y y1 by (auto simp: laterCode_def mineCode_def)
  ultimately show ?thesis using CodeOf x0(1) y1(1) by auto
qed

definition keyed :: "auth_db \<Rightarrow> bool" where
  "keyed s \<longleftrightarrow>
     distinct (map pe_id (ad_pending s)) \<and> distinct (map pe_hash (ad_pending s))
     \<and> distinct (map se_id (ad_sessions s))
     \<and> distinct (map (\<lambda>r. (to_org r, to_user r)) (ad_secrets s))
     \<and> distinct (map (\<lambda>r. (re_org r, re_hash r)) (ad_codes s))"

definition secretIn :: "platform \<Rightarrow> buffer option \<Rightarrow> auth_db \<Rightarrow> id \<Rightarrow> id \<Rightarrow> buffer option" where
  "secretIn pf secrets s org user =
     (case List.find (mineSecret org user) (ad_secrets s) of None \<Rightarrow> None | Some r \<Rightarrow> plainSecret pf secrets r)"

lemma keyed_sound:
  assumes "keyed s"
  shows "sound pf secrets (secretIn pf secrets s) s"
proof -
  have "plainSecret pf secrets r = secretIn pf secrets s (to_org r) (to_user r)" if r: "r \<in> set (ad_secrets s)" for r
  proof (cases "List.find (mineSecret (to_org r) (to_user r)) (ad_secrets s)")
    case None
    then show ?thesis using r by (auto simp: find_None_iff mineSecret_def)
  next
    case (Some x)
    then have "x = r"
      using find_eq_Some_ex [OF Some] r assms distinct_eq [of "\<lambda>r. (to_org r, to_user r)" "ad_secrets s" x r]
      by (auto simp: keyed_def mineSecret_def)
    then show ?thesis using Some by (simp add: secretIn_def)
  qed
  then show ?thesis using assms by (simp add: sound_def keyed_def)
qed

text \<open>The sessions a run opened for users who had a confirmed second factor when it began.\<close>

definition newSessions :: "auth_db \<Rightarrow> auth_db \<Rightarrow> SessionRow set" where
  "newSessions s0 s = {r \<in> set (ad_sessions s). se_id r \<notin> se_id ` set (ad_sessions s0)
     \<and> enrolledIn s0 (se_org r) (se_user r)}"

text \<open>
  C36. The second factor cannot be walked around or used twice, however requests interleave. Let any number
  of sign-ins, second steps, ticket redemptions and session operations run side by side, transaction by
  transaction, with connections lost at any moment (no request of the run changes a second factor itself).
  Every session the run opens for a user who had a confirmed second factor was opened by a second-step
  request that carried a code answering to a factor of that user: the code of a time step above the last one
  used, or an unused recovery code. That factor is spent at the end, the challenge of the request is
  consumed, and no two of the sessions share a factor or a challenge token.
\<close>

theorem sessions_are_earned:
  assumes "runs (\<lambda>j. serve pf secrets (reqs j)) s0 t Q s" and "\<forall>j. \<not> changesMfa (reqs j)" and "keyed s0"
    and "sealing_right pf"
  shows "\<exists>via burnt. inj_on burnt (newSessions s0 s) \<and> inj_on (\<lambda>r. hashToken pf (sf_token (via r))) (newSessions s0 s)
    \<and> (\<forall>r \<in> newSessions s0 s. SecondFactor (via r) \<in> range reqs
        \<and> answersTo pf (secretIn pf secrets s0) (se_org r) (se_user r) (sf_code (via r)) (burnt r)
        \<and> spendsFactor (burnt r) s0 s
        \<and> (\<exists>p \<in> set (ad_pending s). pe_hash p = hashToken pf (sf_token (via r)) \<and> pe_user p = se_user r \<and> pe_consumed p))"
proof -
  let ?K = "secretIn pf secrets s0"
  have s0: "sound pf secrets ?K s0" by (rule keyed_sound [OF assms(3)])
  have obeys: "\<forall>j. obeys (sound pf secrets ?K) auth_lasts (\<lambda>a. True) (serve pf secrets (reqs j))"
    using obeys_serve [OF assms(4)] assms(2) by blast
  have s: "sound pf secrets ?K s" using auth.runs_obey [OF assms(1) s0 obeys] by simp
  have "\<forall>r \<in> newSessions s0 s. \<exists>w. earned pf ?K reqs t r (fst w) (fst (snd w)) (snd (snd w))"
    using earned_exists [OF assms(1,2) s0 assms(4)] by (fastforce simp: newSessions_def)
  then obtain w where w: "\<And>r. r \<in> newSessions s0 s \<Longrightarrow> earned pf ?K reqs t r (fst (w r)) (fst (snd (w r))) (snd (snd (w r)))"
    by metis
  let ?via = "\<lambda>r. fst (snd (w r))" and ?burnt = "\<lambda>r. snd (snd (w r))"
  have apart: "?burnt r \<noteq> ?burnt r' \<and> hashToken pf (sf_token (?via r)) \<noteq> hashToken pf (sf_token (?via r'))"
    if "r \<in> newSessions s0 s" "r' \<in> newSessions s0 s" "r \<noteq> r'" for r r'
    using earned_apart [OF assms(1,2) s0 assms(4) w [OF that(1)] w [OF that(2)]] that
      distinct_eq [of se_id "ad_sessions s" r r'] s by (auto simp: newSessions_def sound_def)
  have "SecondFactor (?via r) \<in> range reqs
      \<and> answersTo pf ?K (se_org r) (se_user r) (sf_code (?via r)) (?burnt r) \<and> spendsFactor (?burnt r) s0 s
      \<and> (\<exists>p \<in> set (ad_pending s). pe_hash p = hashToken pf (sf_token (?via r)) \<and> pe_user p = se_user r \<and> pe_consumed p)"
    if r: "r \<in> newSessions s0 s" for r
  proof -
    note e = w [OF r, unfolded earned_def]
    have at: "auth_lasts s0 u \<and> auth_lasts v s" if "(i, u, v) \<in> set (doneBy (fst (w r)) t)" for i u v
      using auth.event_sound [OF assms(1) s0 obeys] that by (simp add: doneBy_mem)
    obtain i u v where 1: "(i, u, v) \<in> set (doneBy (fst (w r)) t)" "spendsFactor (?burnt r) u v" using e by auto
    obtain i' u' v' where 2: "(i', u', v') \<in> set (doneBy (fst (w r)) t)"
      "spendsChallenge (hashToken pf (sf_token (?via r))) (se_user r) u' v'" using e by auto
    have "spendsFactor (?burnt r) s0 s" using spends_over [OF 1(2)] at [OF 1(1)] by blast
    moreover have "\<exists>p \<in> set (ad_pending s). pe_hash p = hashToken pf (sf_token (?via r)) \<and> pe_user p = se_user r \<and> pe_consumed p"
      using 2(2) at [OF 2(1)] by (fastforce simp: spendsChallenge_def auth_lasts_def kept_def laterPending_def)
    moreover have "SecondFactor (?via r) \<in> range reqs" using e by (metis rangeI)
    ultimately show ?thesis using e by blast
  qed
  then show ?thesis using apart by (intro exI [of _ ?via] exI [of _ ?burnt]) (auto simp: inj_on_def)
qed

section \<open>A run\<close>

definition ex_pf :: platform where
  "ex_pf = \<lparr>pf_hmac = \<lambda>key message. replicate 20 0, pf_sha256 = map word_of_nat, pf_fold = \<lambda>name. name,
     pf_argonHash = \<lambda>salt password. '''', pf_argonVerify = \<lambda>h password. True,
     pf_encrypt = \<lambda>key nonce ad x. (x, replicate 16 0), pf_decrypt = \<lambda>key nonce ad body tag. Some body\<rparr>"

definition ex_inp :: inp where
  "ex_inp = \<lparr>in_now = 0, in_clock = 0, in_id = ''new'', in_token = [115], in_bytes = \<lambda>k. [], in_conn = Kept\<rparr>"

definition ex_code :: units where
  "ex_code = replicate 20 65"

definition ex_auth :: auth_db where
  "ex_auth = \<lparr>ad_orgs = [(''o'', [])],
     ad_users = [\<lparr>ac_id = ''u'', ac_org = ''o'', ac_folded = [117], ac_hash = Some '''', ac_disabled = False,
                  ac_role = ''member'', ac_nt = None\<rparr>],
     ad_attempts = [],
     ad_pending = [\<lparr>pe_id = ''p'', pe_org = ''o'', pe_user = ''u'', pe_hash = [116], pe_attempts = 0, pe_expires = 1,
                    pe_consumed = False\<rparr>],
     ad_sessions = [],
     ad_secrets = [\<lparr>to_user = ''u'', to_org = ''o'', to_secret = [], to_version = 0, to_confirmed = True, to_last = None\<rparr>],
     ad_codes = [\<lparr>re_org = ''o'', re_user = ''u'', re_hash = replicate 20 65, re_used = False\<rparr>],
     ad_resets = [], ad_audit = []\<rparr>"

definition ex_second :: "nat \<Rightarrow> Endpoint" where
  "ex_second j = (if j = 0 then SecondFactor \<lparr>sf_token = [116], sf_code = ex_code, sf_agent = None, sf_ip = ''ip''\<rparr>
                  else Touch ''o'' ''new'')"

definition ex_after :: auth_db where
  "ex_after = snd (snd (solo ex_inp (serve ex_pf None (ex_second 0)) ex_auth))"

lemma ex_second_runs: "\<exists>t Q. runs (\<lambda>j. serve ex_pf None (ex_second j)) ex_auth t Q ex_after"
proof -
  obtain l q where "solo ex_inp (serve ex_pf None (ex_second 0)) ex_auth = (l, q, ex_after)"
    unfolding ex_after_def by (metis prod.collapse)
  from solo_runs [OF this, where j = 0 and P = "\<lambda>j. serve ex_pf None (ex_second j)"] show ?thesis by blast
qed

lemma ex_shapes: "canonical ex_code = ex_code" "\<not> totpShape ex_code" "recoveryShape ex_code"
  "map word_of_nat ex_code = replicate 20 (65 :: 8 word)"
  by (simp_all add: canonical_def toUpperCase_def upperUnit_def isSpace_def totpShape_def recoveryShape_def ex_code_def
        replicate_eq_replicate[symmetric] filter_replicate concat_replicate_single list_all_iff)

lemma ex_after_sessions:
  "map (\<lambda>r. (se_id r, se_org r, se_user r)) (ad_sessions ex_after) = [(''new'', ''o'', ''u'')]"
  by (simp add: ex_after_def ex_second_def answered_def completeSecondFactor_def resolvePending_def countAttempt_def
      verifySecondFactor_def consumeRecoveryCode_def consumePending_def issueSession_def auditRecord_def query_def
      transact_def returnR_def hashRecoveryCode_def hashToken_def livePending_def enabled_def ex_auth_def ex_inp_def ex_pf_def
      MAX_ATTEMPTS_def mineCode_def updateWhere_def Let_def ex_shapes)

theorem sessions_are_earned_witness:
  "\<exists>r \<in> newSessions ex_auth ex_after. \<exists>a f. SecondFactor a \<in> range ex_second
     \<and> answersTo ex_pf (secretIn ex_pf None ex_auth) ''o'' ''u'' (sf_code a) f \<and> spendsFactor f ex_auth ex_after"
proof -
  obtain r where r: "r \<in> set (ad_sessions ex_after)" "se_id r = ''new''" "se_org r = ''o''" "se_user r = ''u''"
    using ex_after_sessions by (cases "ad_sessions ex_after") auto
  have new: "r \<in> newSessions ex_auth ex_after"
    using r by (simp add: newSessions_def ex_auth_def enrolledIn_def mineSecret_def)
  obtain t Q where run: "runs (\<lambda>j. serve ex_pf None (ex_second j)) ex_auth t Q ex_after" using ex_second_runs by blast
  have plain: "\<forall>j. \<not> changesMfa (ex_second j)" by (simp add: ex_second_def)
  have "keyed ex_auth" by (simp add: keyed_def ex_auth_def)
  note earned = sessions_are_earned [OF run plain this]
  have "sealing_right ex_pf" by (simp add: sealing_right_def ex_pf_def TAG_BYTES_def)
  from earned [OF this] obtain via burnt where
    w: "\<forall>r \<in> newSessions ex_auth ex_after. SecondFactor (via r) \<in> range ex_second
        \<and> answersTo ex_pf (secretIn ex_pf None ex_auth) (se_org r) (se_user r) (sf_code (via r)) (burnt r)
        \<and> spendsFactor (burnt r) ex_auth ex_after
        \<and> (\<exists>p \<in> set (ad_pending ex_after). pe_hash p = hashToken ex_pf (sf_token (via r)) \<and> pe_user p = se_user r \<and> pe_consumed p)"
    by (elim exE conjE) (rule that)
  show ?thesis using bspec [OF w new] new unfolding r(3,4) by blast
qed

end
