(* ===== verification/SignInBudget.thy ===== *)
theory SignInBudget
  imports SignInProps
begin

text \<open>
  How many codes a challenge takes. \<open>resolve_pending_login\<close> answers while fewer than six attempts are
  counted, and the count is a transaction of its own: requests that resolve before another's count all go on.
  The bound is five and the number of requests under way at once.
\<close>

section \<open>Attempts\<close>

definition onePerId :: "auth_db \<Rightarrow> bool" where
  "onePerId s = distinct (map pe_id (ad_pending s))"

definition samePending :: "PendingRow \<Rightarrow> PendingRow \<Rightarrow> bool" where
  "samePending x y \<longleftrightarrow> pe_id y = pe_id x \<and> pe_org y = pe_org x \<and> pe_attempts y = pe_attempts x"

text \<open>A step that counts nothing: every challenge keeps its attempts, a new one has none.\<close>

definition tally :: "auth_db \<Rightarrow> auth_db \<Rightarrow> bool" where
  "tally u v \<longleftrightarrow> kept samePending (ad_pending u) (ad_pending v)
     \<and> (\<forall>y \<in> set (ad_pending v). pe_id y \<in> pe_id ` set (ad_pending u) \<or> pe_attempts y = 0)"

abbreviation steady :: "('a \<Rightarrow> bool) \<Rightarrow> 'a handler \<Rightarrow> bool" where
  "steady \<equiv> obeys onePerId tally"

lemma tally_refl [simp]: "tally s s"
  by (auto simp: tally_def samePending_def intro!: kept_refl)

lemma tally_same: "ad_pending v = ad_pending u \<Longrightarrow> tally u v"
  by (auto simp: tally_def samePending_def intro!: kept_refl)

named_theorems steady_rules

lemma steady_query:
  assumes "\<And>i s s' a. onePerId s \<Longrightarrow> f i s = Inr (s', a) \<Longrightarrow> onePerId s' \<and> tally s s'"
  shows "steady (\<lambda>a. True) (query f)"
  unfolding query_def using assms by (intro obeys_transact) auto

lemma steady_elsewhere:
  assumes "\<And>i s s' a. f i s = Inr (s', a) \<Longrightarrow> ad_pending s' = ad_pending s"
  shows "steady (\<lambda>a. True) (query f)"
proof (rule steady_query)
  fix i s s' a
  assume "onePerId s" "f i s = Inr (s', a)"
  then show "onePerId s' \<and> tally s s'" using assms [of i s s' a] by (auto simp: onePerId_def tally_same)
qed

lemma steady_seq: "steady (\<lambda>a. True) p \<Longrightarrow> (\<And>a. steady R (k a)) \<Longrightarrow> steady R (bindR p k)"
  by (rule obeys_bind)

lemma steady_simple [steady_rules]:
  "steady (\<lambda>a. True) (recentFailures email ip)"
  "steady (\<lambda>a. True) (retryAfterSeconds email ip)"
  "steady (\<lambda>a. True) (recordLogin email ip ok)"
  "steady (\<lambda>a. True) (auditRecord org actor action from)"
  "steady (\<lambda>a. True) resolveSoleId"
  "steady (\<lambda>a. True) (resolveIdBySlug slug)"
  "steady (\<lambda>a. True) (foldName pf name)"
  "steady (\<lambda>a. True) (findUser org name)"
  "steady (\<lambda>a. True) (resolvePending pf token)"
  "steady (\<lambda>a. True) (resolveSession pf token)"
  "steady (\<lambda>a. True) (resolveReset pf token)"
  "steady (\<lambda>a. True) (openReset pf org user by_user)"
  "steady (\<lambda>a. True) (recordAttempt org reset)"
  "steady (\<lambda>a. True) (consumeReset org reset)"
  "steady (\<lambda>a. True) (isEnrolled org user)"
  "steady (\<lambda>a. True) (setPasswordHash pf secrets org user password)"
  "steady (\<lambda>a. True) (issueSession pf org user agent from)"
  "steady (\<lambda>a. True) (revokeSession org session)"
  "steady (\<lambda>a. True) (revokeAllForUser org user)"
  "steady (\<lambda>a. True) (touchSession org session)"
  "steady (\<lambda>a. True) (consumeRecoveryCode pf org user code)"
  "steady (\<lambda>a. True) (burnStep org user used)"
  "steady (\<lambda>a. True) (clearMfa org user)"
  "steady (\<lambda>a. True) (regenerateRecoveryCodes pf org user)"
  unfolding recentFailures_def retryAfterSeconds_def recordLogin_def auditRecord_def resolveSoleId_def
    resolveIdBySlug_def foldName_def findUser_def resolvePending_def resolveSession_def resolveReset_def
    openReset_def recordAttempt_def consumeReset_def isEnrolled_def setPasswordHash_def issueSession_def
    revokeSession_def revokeAllForUser_def touchSession_def consumeRecoveryCode_def burnStep_def clearMfa_def
    regenerateRecoveryCodes_def
  by (rule steady_elsewhere; auto simp: Let_def replaceCodes_def bindE_Inr_iff split: if_splits)+

lemma tally_consume:
  assumes "onePerId s"
  shows "onePerId (s\<lparr>ad_pending := updateWhere hit (pe_consumed_update (\<lambda>_. True)) (ad_pending s)\<rparr>)
    \<and> tally s (s\<lparr>ad_pending := updateWhere hit (pe_consumed_update (\<lambda>_. True)) (ad_pending s)\<rparr>)"
proof -
  let ?rows = "updateWhere hit (pe_consumed_update (\<lambda>_. True)) (ad_pending s)"
  have "map pe_id ?rows = map pe_id (ad_pending s)" by (auto intro!: map_updateWhere)
  then have "distinct (map pe_id ?rows)" and ids: "set (map pe_id ?rows) = set (map pe_id (ad_pending s))"
    using assms by (simp_all only: onePerId_def)
  moreover have "pe_id y \<in> pe_id ` set (ad_pending s)" if "y \<in> set ?rows" for y
    using imageI [OF that, of pe_id] ids unfolding set_map by blast
  moreover have "kept samePending (ad_pending s) ?rows" by (auto intro!: kept_updateWhere simp: samePending_def)
  ultimately show ?thesis by (simp add: tally_def onePerId_def)
qed

lemma tally_create:
  assumes "onePerId s" and "\<forall>p \<in> set (updateWhere hit (pe_consumed_update (\<lambda>_. True)) (ad_pending s)). pe_id p \<noteq> pe_id new"
    and "pe_attempts new = 0"
  shows "onePerId (s\<lparr>ad_pending := updateWhere hit (pe_consumed_update (\<lambda>_. True)) (ad_pending s) @ [new]\<rparr>)
    \<and> tally s (s\<lparr>ad_pending := updateWhere hit (pe_consumed_update (\<lambda>_. True)) (ad_pending s) @ [new]\<rparr>)"
proof -
  define rows where "rows = updateWhere hit (pe_consumed_update (\<lambda>_. True)) (ad_pending s)"
  have old: "distinct (map pe_id rows)" "kept samePending (ad_pending s) rows"
    "\<forall>y \<in> set rows. pe_id y \<in> pe_id ` set (ad_pending s) \<or> pe_attempts y = 0"
    using tally_consume [OF assms(1), of hit] by (simp_all add: onePerId_def tally_def rows_def)
  have "pe_id new \<notin> pe_id ` set rows" using assms(2) unfolding rows_def by (auto simp: image_iff)
  then have "distinct (map pe_id (rows @ [new]))" using old(1) by simp
  then show ?thesis using old(2,3) assms(3) unfolding rows_def [symmetric]
    by (simp add: onePerId_def tally_def kept_append)
qed

lemma steady_consumePending [steady_rules]: "steady (\<lambda>a. True) (consumePending org pending)"
  unfolding consumePending_def
proof (rule steady_query)
  fix i s s' a
  assume s: "onePerId s" and "(let hit = (\<lambda>p. pe_org p = org \<and> pe_id p = pending \<and> \<not> pe_consumed p)
       in Inr (s\<lparr>ad_pending := updateWhere hit (pe_consumed_update (\<lambda>_. True)) (ad_pending s)\<rparr>,
               length (filter hit (ad_pending s)) = 1)) = (Inr (s', a) :: auth_error + auth_db \<times> bool)"
  then have "s' = s\<lparr>ad_pending := updateWhere (\<lambda>p. pe_org p = org \<and> pe_id p = pending \<and> \<not> pe_consumed p)
      (pe_consumed_update (\<lambda>_. True)) (ad_pending s)\<rparr>" by (simp add: Let_def)
  then show "onePerId s' \<and> tally s s'" using tally_consume [OF s] by simp
qed

lemma steady_createPending [steady_rules]: "steady (\<lambda>a. True) (createPending pf org user)"
proof -
  have "onePerId s' \<and> tally s s'"
    if s: "onePerId s" and f: "(let expires = in_clock i + PENDING_LIFETIME_MS;
           rows = updateWhere (openPending org user) (pe_consumed_update (\<lambda>_. True)) (ad_pending s);
           new = \<lparr>pe_id = in_id i, pe_org = org, pe_user = user, pe_hash = hashToken pf (in_token i),
                  pe_attempts = 0, pe_expires = 1000 * expires, pe_consumed = False\<rparr>
       in if list_ex (\<lambda>p. pe_id p = pe_id new \<or> pe_hash p = pe_hash new) rows then Inl UniqueViolation
          else Inr (s\<lparr>ad_pending := rows @ [new]\<rparr>, \<lparr>pc_token = in_token i, pc_expires = expires\<rparr>))
        = Inr (s', a)" for i and s s' :: auth_db and a
  proof -
    let ?rows = "updateWhere (openPending org user) (pe_consumed_update (\<lambda>_. True)) (ad_pending s)"
    let ?new = "\<lparr>pe_id = in_id i, pe_org = org, pe_user = user, pe_hash = hashToken pf (in_token i),
                  pe_attempts = 0, pe_expires = 1000 * (in_clock i + PENDING_LIFETIME_MS), pe_consumed = False\<rparr>"
    have "s' = s\<lparr>ad_pending := ?rows @ [?new]\<rparr>" and "\<forall>p \<in> set ?rows. pe_id p \<noteq> pe_id ?new"
      using f by (auto simp: Let_def list_ex_iff split: if_splits)
    then show ?thesis using tally_create [OF s, of "openPending org user" ?new] by simp
  qed
  then show ?thesis unfolding createPending_def by (intro steady_query)
qed

lemma steady_sleep [steady_rules]: "steady (\<lambda>a. True) (sleepFor ms)"
  and steady_unixNow [steady_rules]: "steady (\<lambda>a. True) unixNow"
  by (simp_all add: sleepFor_def unixNow_def obeys_Awaits)

lemma steady_checkCode [steady_rules]: "steady (\<lambda>a. True) (checkCode pf secret code now)"
  by (simp add: checkCode_def split: sum.split)

lemma steady_gate [steady_rules]: "steady (\<lambda>a. True) (gate email ip)"
  unfolding gate_def by (intro steady_seq obeys_cases steady_rules) simp_all

lemma steady_unseal [steady_rules]: "steady (\<lambda>a. True) (unseal pf secrets org user stored version)"
proof -
  have "steady (\<lambda>a. True) (query (\<lambda>i s.
      let sealed = seal pf key (randomBytes i 0 NONCE_BYTES) stored user org
      in Inr (s\<lparr>ad_secrets :=
           updateWhere (\<lambda>r. mineSecret org user r \<and> to_version r = KEY_VERSION_PLAINTEXT)
             (\<lambda>r. r\<lparr>to_secret := sealed, to_version := KEY_VERSION_AES_GCM\<rparr>) (ad_secrets s)\<rparr>,
         Some stored)))" for key
    by (rule steady_elsewhere) (auto simp: Let_def)
  then show ?thesis unfolding unseal_def by (auto split: option.split sum.split)
qed

lemma steady_secretRow [steady_rules]:
  "steady (\<lambda>a. True) (secretRow pf secrets org user c)"
  "steady (\<lambda>a. True) (secretOf pf secrets org user c)"
proof -
  show "steady (\<lambda>a. True) (secretRow pf secrets org user c)"
    unfolding secretRow_def by (intro steady_seq obeys_cases steady_rules steady_elsewhere) auto
  then show "steady (\<lambda>a. True) (secretOf pf secrets org user c)"
    unfolding secretOf_def by (intro steady_seq) simp_all
qed

lemma steady_verifySecondFactor [steady_rules]:
  "steady (\<lambda>a. True) (verifyTotpCode pf secrets org user code)"
  "steady (\<lambda>a. True) (verifySecondFactor pf secrets org user submitted)"
proof -
  show code: "steady (\<lambda>a. True) (verifyTotpCode pf secrets org user code)" for code
    unfolding verifyTotpCode_def Let_def case_prod_beta by (intro steady_seq obeys_cases steady_rules) simp_all
  show "steady (\<lambda>a. True) (verifySecondFactor pf secrets org user submitted)"
    unfolding verifySecondFactor_def Let_def by (intro steady_seq obeys_cases steady_rules code) simp_all
qed

lemma steady_enrolment [steady_rules]:
  "steady (\<lambda>a. True) (beginEnrolment pf secrets org user)"
  "steady (\<lambda>a. True) (confirmEnrolment pf secrets org user code)"
proof -
  show "steady (\<lambda>a. True) (beginEnrolment pf secrets org user)"
    unfolding beginEnrolment_def by (intro obeys_cases steady_elsewhere) (auto simp: Let_def split: if_splits)
  show "steady (\<lambda>a. True) (confirmEnrolment pf secrets org user code)"
    unfolding confirmEnrolment_def
    by (intro steady_seq obeys_cases steady_rules steady_elsewhere)
       (auto simp: Let_def replaceCodes_def bindE_Inr_iff)
qed

lemma steady_guards [steady_rules]:
  "steady (\<lambda>a. True) (canActivate pf cookie)"
  "steady (\<lambda>a. True) (adminOnly session)"
  "steady (\<lambda>a. True) (findUserRow org user)"
  "steady (\<lambda>a. True) (requirePassword pf org user password ip)"
proof -
  show "steady (\<lambda>a. True) (canActivate pf cookie)"
    unfolding canActivate_def by (intro steady_seq obeys_cases steady_rules) simp_all
  show "steady (\<lambda>a. True) (adminOnly session)" by (simp add: adminOnly_def)
  show "steady (\<lambda>a. True) (findUserRow org user)"
    unfolding findUserRow_def by (intro steady_seq obeys_cases steady_elsewhere) auto
  show "steady (\<lambda>a. True) (requirePassword pf org user password ip)"
    unfolding requirePassword_def Let_def
    by (intro steady_seq obeys_cases steady_rules steady_elsewhere) auto
qed

lemma steady_elsewhere_True:
  "(\<And>i s. \<exists>s' a. f i s = Inr (s', a) \<and> ad_pending s' = ad_pending s) \<Longrightarrow> steady (\<lambda>a. True) (query f)"
  by (rule steady_elsewhere) (metis Inr_inject prod.inject)

lemma steady_operations [steady_rules]:
  "steady (\<lambda>a. True) (login pf request)"
  "steady (\<lambda>a. True) (redeem pf secrets token password code from)"
  "steady (\<lambda>a. True) (logout session ip)"
  "steady (\<lambda>a. True) (revokeOwnSession session target)"
  "steady (\<lambda>a. True) (changePassword pf secrets session old new ip)"
  "steady (\<lambda>a. True) (enrolMfa pf secrets session)"
  "steady (\<lambda>a. True) (confirmMfa pf secrets session password submitted ip)"
  "steady (\<lambda>a. True) (removeMfa pf session password ip)"
  "steady (\<lambda>a. True) (regenerateCodes pf session password ip)"
  "steady (\<lambda>a. True) (openPasswordReset pf session target password ip)"
  "steady (\<lambda>a. True) (resetMfa pf session target password ip)"
  unfolding login_def redeem_def logout_def revokeOwnSession_def changePassword_def enrolMfa_def confirmMfa_def
    removeMfa_def regenerateCodes_def openPasswordReset_def resetMfa_def Let_def prod.case
  by (intro steady_seq obeys_cases steady_rules steady_elsewhere_True; simp)+

lemma steady_serve:
  "(\<And>request. e \<noteq> SecondFactor request) \<Longrightarrow> steady (\<lambda>a. True) (serve pf secrets e)"
  by (cases e) (auto intro!: obeys_answered steady_seq steady_rules)

section \<open>Counting\<close>

definition attemptsOf :: "auth_db \<Rightarrow> id \<Rightarrow> nat" where
  "attemptsOf s x = (case List.find (\<lambda>p. pe_id p = x) (ad_pending s) of None \<Rightarrow> 0 | Some p \<Rightarrow> pe_attempts p)"

definition countedIn :: "id \<Rightarrow> id \<Rightarrow> auth_db \<Rightarrow> auth_db" where
  "countedIn org x s = s\<lparr>ad_pending :=
     updateWhere (\<lambda>p. pe_org p = org \<and> pe_id p = x) (pe_attempts_update Suc) (ad_pending s)\<rparr>"

lemma attemptsOf_row:
  assumes "onePerId s" and "p \<in> set (ad_pending s)"
  shows "attemptsOf s (pe_id p) = pe_attempts p"
proof -
  obtain r where r: "List.find (\<lambda>r. pe_id r = pe_id p) (ad_pending s) = Some r"
    using assms(2) by (cases "List.find (\<lambda>r. pe_id r = pe_id p) (ad_pending s)") (auto simp: find_None_iff)
  then have "r \<in> set (ad_pending s)" "pe_id r = pe_id p" by (auto simp: find_Some_iff)
  then have "r = p" using assms by (auto simp: onePerId_def intro: distinct_eq [of pe_id])
  then show ?thesis using r by (simp add: attemptsOf_def)
qed

lemma attemptsOf_none: "x \<notin> pe_id ` set (ad_pending s) \<Longrightarrow> attemptsOf s x = 0"
  by (auto simp: attemptsOf_def find_Some_iff split: option.splits)

lemma tally_attempts:
  assumes "onePerId u" and "onePerId v" and "tally u v"
  shows "attemptsOf v x = attemptsOf u x"
proof (cases "x \<in> pe_id ` set (ad_pending u)")
  case True
  then obtain p where p: "p \<in> set (ad_pending u)" "pe_id p = x" by blast
  then obtain r where "r \<in> set (ad_pending v)" "samePending p r"
    using assms(3) unfolding tally_def kept_def by blast
  then show ?thesis using attemptsOf_row [OF assms(1) p(1)] attemptsOf_row [OF assms(2), of r] p(2)
    by (auto simp: samePending_def)
next
  case False
  show ?thesis
  proof (cases "x \<in> pe_id ` set (ad_pending v)")
    case True
    then obtain r where r: "r \<in> set (ad_pending v)" "pe_id r = x" by blast
    then have "pe_attempts r = 0" using assms(3) False unfolding tally_def by blast
    then show ?thesis using attemptsOf_row [OF assms(2) r(1)] attemptsOf_none [OF False] r(2) by simp
  qed (simp add: attemptsOf_none False)
qed

lemma onePerId_counted [simp]: "onePerId (countedIn org x s) \<longleftrightarrow> onePerId s"
  by (simp add: onePerId_def countedIn_def map_updateWhere)

lemma counted_attempts:
  assumes "p \<in> set (ad_pending s)" and "pe_id p = x" and "pe_org p = org" and "onePerId s"
  shows "attemptsOf (countedIn org x s) y = attemptsOf s y + (if y = x then 1 else 0)"
proof (cases "y \<in> pe_id ` set (ad_pending s)")
  case True
  then obtain r where r: "r \<in> set (ad_pending s)" "pe_id r = y" by blast
  let ?r = "if pe_org r = org \<and> pe_id r = x then pe_attempts_update Suc r else r"
  have "?r \<in> set (ad_pending (countedIn org x s))" using r(1) by (auto simp: countedIn_def updateWhere_def)
  moreover have "pe_id ?r = y" "pe_attempts ?r = (if pe_org r = org \<and> pe_id r = x then Suc (pe_attempts r) else pe_attempts r)"
    using r(2) by simp_all
  ultimately have "attemptsOf (countedIn org x s) y = pe_attempts ?r"
    using attemptsOf_row [of "countedIn org x s" ?r] assms(4) by (simp only: onePerId_counted)
  moreover have "y = x \<Longrightarrow> r = p" using r assms by (auto simp: onePerId_def intro: distinct_eq [of pe_id])
  ultimately show ?thesis using attemptsOf_row [OF assms(4) r(1)] r(2) assms(2,3) by auto
next
  case False
  then have "y \<notin> pe_id ` set (ad_pending (countedIn org x s))" by (auto simp: countedIn_def updateWhere_def)
  then show ?thesis using False assms(1,2) by (auto simp: attemptsOf_none)
qed

section \<open>The log of a second step\<close>

lemma plays_query_bind:
  assumes "plays (bindR (query f) k) ((i, u, v) # l) q"
  shows "(v = u \<or> (\<exists>a. f i u = Inr (v, a))) \<and> (l \<noteq> [] \<longrightarrow> (\<exists>a. f i u = Inr (v, a) \<and> plays (k a) l q))"
  using assms
  by (auto simp: query_def transact_def plays_Cons_iff returnR_def split: sum.splits prod.splits connection.splits)

text \<open>The challenge a second step's first transaction finds.\<close>

definition foundBy :: "platform \<Rightarrow> SecondFactorRequest \<Rightarrow> inp \<times> auth_db \<times> auth_db \<Rightarrow> PendingRow option" where
  "foundBy pf a e = (case e of (i, u, v) \<Rightarrow>
     List.find (livePending (in_now i) (hashToken pf (sf_token a)) u) (ad_pending u))"

lemma foundBy_row:
  "foundBy pf a e = Some p \<Longrightarrow> p \<in> set (ad_pending (fst (snd e))) \<and> pe_attempts p < MAX_ATTEMPTS"
  by (cases e) (auto simp: foundBy_def livePending_def dest!: find_eq_Some_ex)

lemma steady_after_count: "steady (\<lambda>a. True) (bindR (verifySecondFactor pf secrets org user submitted)
    (\<lambda>verified. answered (verdictStep pf a c verified)))"
  unfolding verdictStep_def issueStep_def
  by (intro obeys_answered steady_seq obeys_cases steady_rules; simp)+

lemma second_step_log:
  assumes log: "plays (serve pf secrets (SecondFactor a)) (e1 # l) q"
    and one: "\<forall>e \<in> set (e1 # l). onePerId (fst (snd e))"
  shows "snd (snd e1) = fst (snd e1)"
    and "l = (i, u, v) # l' \<Longrightarrow> \<exists>p. foundBy pf a e1 = Some p \<and> (v = u \<or> v = countedIn (pe_org p) (pe_id p) u)
      \<and> (l' \<noteq> [] \<longrightarrow> v = countedIn (pe_org p) (pe_id p) u)
      \<and> (\<forall>(i, u, v) \<in> set l'. onePerId v \<and> tally u v)"
proof -
  obtain i1 u1 v1 where e1: "e1 = (i1, u1, v1)" by (cases e1)
  note first = plays_query_bind [OF log [unfolded second_step_eq resolvePending_def e1]]
  then show "snd (snd e1) = fst (snd e1)" by (auto simp: e1)
  assume l: "l = (i, u, v) # l'"
  obtain p where p: "foundBy pf a e1 = Some p"
    and rest: "plays (bindR (countAttempt (pe_org p) (pe_id p)) (\<lambda>_.
         bindR (verifySecondFactor pf secrets (pe_org p) (pe_user p) (sf_code a)) (\<lambda>verified.
         answered (verdictStep pf a \<lparr>rp_id = pe_id p, rp_org = pe_org p, rp_user = pe_user p, rp_attempts = pe_attempts p\<rparr> verified)))) l q"
    using first l by (auto simp: foundBy_def e1 returnR_def split: option.splits)
  note second = plays_query_bind [OF rest [unfolded countAttempt_def l]]
  have "v = u \<or> v = countedIn (pe_org p) (pe_id p) u" and "l' \<noteq> [] \<longrightarrow> v = countedIn (pe_org p) (pe_id p) u"
    using second by (auto simp: countedIn_def)
  moreover have "onePerId v' \<and> tally u' v'" if "(i', u', v') \<in> set l'" for i' u' v'
  proof -
    have "l' \<noteq> []" and "\<forall>e \<in> set l'. onePerId (fst (snd e))" using that one unfolding l by auto
    with second plays_obeys(2) [OF _ steady_after_count _ that] show ?thesis by blast
  qed
  ultimately show "\<exists>p. foundBy pf a e1 = Some p \<and> (v = u \<or> v = countedIn (pe_org p) (pe_id p) u)
      \<and> (l' \<noteq> [] \<longrightarrow> v = countedIn (pe_org p) (pe_id p) u)
      \<and> (\<forall>(i, u, v) \<in> set l'. onePerId v \<and> tally u v)" using p by blast
qed

section \<open>Challenges stay\<close>

definition onward :: "auth_db \<Rightarrow> auth_db \<Rightarrow> bool" where
  "onward u v = kept (\<lambda>x y. pe_id y = pe_id x \<and> pe_org y = pe_org x) (ad_pending u) (ad_pending v)"

interpretation challenges: lasting onePerId onward
  by unfold_locales (unfold onward_def kept_def, blast, metis)

lemma tally_onward: "tally u v \<Longrightarrow> onward u v"
  unfolding tally_def onward_def kept_def samePending_def by blast

lemma counted_onward: "onward u (countedIn org x u)"
  by (auto simp: onward_def countedIn_def intro!: kept_updateWhere)

lemma onward_serve: "obeys onePerId onward (\<lambda>a. True) (serve pf secrets e)"
proof -
  have later: "steady (\<lambda>a. True) p \<Longrightarrow> obeys onePerId onward (\<lambda>a. True) p" for p :: "'b handler"
    by (erule obeys_mono) (auto intro: tally_onward)
  have count: "obeys onePerId onward (\<lambda>a. True) (countAttempt org x)" for org x
    unfolding countAttempt_def query_def
    by (rule obeys_transact) (auto simp flip: countedIn_def intro: challenges.stays counted_onward)
  show ?thesis
  proof (cases "\<exists>a. e = SecondFactor a")
    case True
    then obtain a where e: "e = SecondFactor a" by blast
    show ?thesis unfolding e second_step_eq
      by (intro obeys_seq obeys_option count later [OF steady_after_count] later [OF steady_simple(9)]) simp_all
  next
    case False
    then show ?thesis by (intro later steady_serve) blast
  qed
qed

section \<open>Codes tried\<close>

text \<open>\<open>challengeOf\<close>: the challenge a request found. It \<open>holds\<close> it until its count, and has \<open>spent\<close> an attempt
  when the count was committed.\<close>

definition challengeOf :: "platform \<Rightarrow> Endpoint \<Rightarrow> (inp, auth_db) log \<Rightarrow> id option" where
  "challengeOf pf e l = (case (e, l) of
      (SecondFactor a, e1 # _) \<Rightarrow> map_option pe_id (foundBy pf a e1)
    | _ \<Rightarrow> None)"

definition holds :: "platform \<Rightarrow> Endpoint \<Rightarrow> id \<Rightarrow> (inp, auth_db) log \<Rightarrow> bool" where
  "holds pf e x l \<longleftrightarrow> length l = 1 \<and> challengeOf pf e l = Some x"

definition spent :: "platform \<Rightarrow> Endpoint \<Rightarrow> id \<Rightarrow> (inp, auth_db) log \<Rightarrow> bool" where
  "spent pf e x l \<longleftrightarrow> length l > 1 \<and> challengeOf pf e l = Some x
     \<and> (case l ! 1 of (i, u, v) \<Rightarrow> attemptsOf v x = Suc (attemptsOf u x))"

lemma challengeOf_snoc: "l \<noteq> [] \<Longrightarrow> challengeOf pf e (l @ [x]) = challengeOf pf e l"
  by (cases l) (auto simp: challengeOf_def split: Endpoint.splits)

lemma challengeOf_other: "(\<And>a. e \<noteq> SecondFactor a) \<Longrightarrow> challengeOf pf e l = None"
  by (auto simp: challengeOf_def split: Endpoint.splits)

lemma challengeOf_eq_Some:
  "challengeOf pf e l = Some x \<longleftrightarrow> (\<exists>a e1 l' p. e = SecondFactor a \<and> l = e1 # l' \<and> foundBy pf a e1 = Some p \<and> pe_id p = x)"
  by (cases e; cases l) (auto simp: challengeOf_def)

lemma spent_snoc: "length l > 1 \<Longrightarrow> spent pf e x (l @ [a]) \<longleftrightarrow> spent pf e x l"
proof -
  assume l: "length l > 1"
  then have "l \<noteq> []" by auto
  then show ?thesis using l by (auto simp: spent_def challengeOf_snoc nth_append)
qed

lemma spent_short: "length l \<le> 1 \<Longrightarrow> \<not> spent pf e x l"
  by (simp add: spent_def)

text \<open>One transaction more in a request's log: it counts on the challenge held, or on none.\<close>

lemma step_of_log:
  assumes log: "plays (serve pf secrets e) (l @ [(i, u, v)]) q"
    and one: "\<forall>e \<in> set (l @ [(i, u, v)]). onePerId (fst (snd e))" "onePerId v"
    and row: "\<And>p. l \<noteq> [] \<Longrightarrow> p \<in> set (ad_pending (snd (snd (hd l)))) \<Longrightarrow>
      \<exists>r \<in> set (ad_pending u). pe_id r = pe_id p \<and> pe_org r = pe_org p"
  shows "attemptsOf v x = attemptsOf u x + (if \<not> spent pf e x l \<and> spent pf e x (l @ [(i, u, v)]) then 1 else 0)"
    (is "_ = _ + ?more")
proof (cases "\<exists>a. e = SecondFactor a")
  case False
  then have "onePerId v \<and> tally u v"
    using plays_obeys(2) [OF log steady_serve one(1)] by auto
  then show ?thesis using tally_attempts [of u v] one False by (simp add: spent_def challengeOf_other)
next
  case True
  then obtain a where e: "e = SecondFactor a" by blast
  consider "l = []" | e1 where "l = [e1]" | e1 e2 l' where "l = e1 # e2 # l'" by (metis list.exhaust)
  then show ?thesis
  proof cases
    case 1
    then have "v = u" using second_step_log(1) [of pf secrets a "(i, u, v)" "[]" q] log one(1) unfolding e by simp
    then show ?thesis using 1 by (simp add: spent_short)
  next
    case 2
    obtain i1 u1 v1 where e1: "e1 = (i1, u1, v1)" by (cases e1)
    have log': "plays (serve pf secrets (SecondFactor a)) (e1 # [(i, u, v)]) q" using log unfolding 2 e by simp
    have one': "\<forall>e \<in> set (e1 # [(i, u, v)]). onePerId (fst (snd e))" using one(1) unfolding 2 by simp
    obtain p where p: "foundBy pf a e1 = Some p" and v: "v = u \<or> v = countedIn (pe_org p) (pe_id p) u"
      using second_step_log(2) [OF log' one' refl] by blast
    have "v1 = u1" using second_step_log(1) [OF log' one'] by (simp add: e1)
    then obtain r where "r \<in> set (ad_pending u)" "pe_id r = pe_id p" "pe_org r = pe_org p"
      using row [of p] foundBy_row [OF p] by (auto simp: 2 e1)
    then have "v = u \<and> attemptsOf v x = attemptsOf u x
        \<or> v \<noteq> u \<and> attemptsOf v x = attemptsOf u x + (if x = pe_id p then 1 else 0) \<and> attemptsOf v (pe_id p) = Suc (attemptsOf u (pe_id p))"
      using v counted_attempts [of r u "pe_id p" "pe_org p"] one(1) by fastforce
    moreover have "challengeOf pf e [e1, (i, u, v)] = Some (pe_id p)" by (simp add: challengeOf_def e p)
    ultimately show ?thesis by (auto simp: 2 spent_def)
  next
    case 3
    obtain i2 u2 v2 where e2: "e2 = (i2, u2, v2)" by (cases e2)
    have "plays (serve pf secrets (SecondFactor a)) (e1 # (i2, u2, v2) # l' @ [(i, u, v)]) q"
      and "\<forall>e \<in> set (e1 # (i2, u2, v2) # l' @ [(i, u, v)]). onePerId (fst (snd e))"
      using log one(1) unfolding 3 e e2 by simp_all
    from second_step_log(2) [OF this refl] have "tally u v" by auto
    moreover have "spent pf e x (l @ [(i, u, v)]) = spent pf e x l" using 3 by (intro spent_snoc) simp
    ultimately show ?thesis using tally_attempts [of u v] one by simp
  qed
qed

lemma spent_from:
  assumes "\<not> spent pf e x l" and "spent pf e x (l @ [a])"
  shows "holds pf e x l"
proof -
  have "length l = 1" using assms spent_snoc [of l pf e x a] spent_short [of "l @ [a]" pf e x] by (cases l) auto
  moreover from this have "challengeOf pf e (l @ [a]) = challengeOf pf e l" by (intro challengeOf_snoc) auto
  ultimately show ?thesis using assms(2) by (simp add: spent_def holds_def)
qed

lemma holds_from:
  assumes "plays (serve pf secrets e) (l @ [(i, u, v)]) q" and "onePerId u"
    and "holds pf e x (l @ [(i, u, v)])"
  shows "l = [] \<and> attemptsOf v x < MAX_ATTEMPTS"
proof -
  have l: "l = []" using assms(3) by (simp add: holds_def)
  obtain a p where e: "e = SecondFactor a" and p: "foundBy pf a (i, u, v) = Some p" "pe_id p = x"
    using assms(3) unfolding l by (auto simp: holds_def challengeOf_eq_Some)
  have "v = u" using second_step_log(1) [of pf secrets a "(i, u, v)" "[]" q] assms(1,2) unfolding l e by simp
  then show ?thesis using foundBy_row [OF p(1)] attemptsOf_row [OF assms(2), of p] p(2) l by simp
qed

section \<open>The budget of a run\<close>

text \<open>The second steps in the middle of their transactions when a trace stands between \<open>t1\<close> and \<open>t2\<close>.\<close>

definition underway :: "(nat \<Rightarrow> Endpoint) \<Rightarrow> (inp, auth_db) trace \<Rightarrow> (inp, auth_db) trace \<Rightarrow> nat set" where
  "underway reqs t1 t2 = {j. (\<exists>a. reqs j = SecondFactor a) \<and> doneBy j t1 \<noteq> [] \<and> doneBy j t2 \<noteq> []}"

definition heldBy :: "platform \<Rightarrow> (nat \<Rightarrow> Endpoint) \<Rightarrow> id \<Rightarrow> (inp, auth_db) trace \<Rightarrow> (inp, auth_db) trace \<Rightarrow> nat set" where
  "heldBy pf reqs x t1 t2 = {j. holds pf (reqs j) x (doneBy j t1) \<and> doneBy j t2 \<noteq> []}"

definition spentBy :: "platform \<Rightarrow> (nat \<Rightarrow> Endpoint) \<Rightarrow> id \<Rightarrow> (inp, auth_db) trace \<Rightarrow> nat set" where
  "spentBy pf reqs x t = {j. spent pf (reqs j) x (doneBy j t)}"

lemma finite_done: "finite {j. doneBy j t \<noteq> []}"
proof -
  have "{j. doneBy j t \<noteq> []} \<subseteq> fst ` set t" by (auto simp: doneBy_def filter_empty_conv)
  then show ?thesis by (rule finite_subset) simp
qed

lemma finite_sets: "finite (underway reqs t1 t2)" "finite (heldBy pf reqs x t1 t2)" "finite (spentBy pf reqs x t)"
proof -
  show "finite (underway reqs t1 t2)" by (rule finite_subset [OF _ finite_done [of t1]]) (auto simp: underway_def)
  show "finite (heldBy pf reqs x t1 t2)" by (rule finite_subset [OF _ finite_done [of t2]]) (auto simp: heldBy_def)
  show "finite (spentBy pf reqs x t)"
    by (rule finite_subset [OF _ finite_done [of t]]) (auto simp: spentBy_def spent_def)
qed

lemma held_underway: "heldBy pf reqs x t1 t2 \<subseteq> underway reqs t1 t2"
  by (auto simp: heldBy_def underway_def holds_def challengeOf_eq_Some)

text \<open>What is still open on a challenge, counted or held, grows by no step of another request.\<close>

lemma held_snoc:
  assumes "k \<noteq> j"
  shows "k \<in> heldBy pf reqs x (t1 @ [(j, e)]) t2 \<longleftrightarrow> k \<in> heldBy pf reqs x t1 ((j, e) # t2)"
    and "k \<in> spentBy pf reqs x (t1 @ [(j, e)]) \<longleftrightarrow> k \<in> spentBy pf reqs x t1"
  using assms by (auto simp: heldBy_def spentBy_def)

lemma budget_step:
  assumes "attemptsOf u x + card (heldBy pf reqs x t1 ((j, i, u, v) # t2)) < MAX_ATTEMPTS + k"
    and "card (spentBy pf reqs x t1) \<le> attemptsOf u x"
    and more: "attemptsOf v x = attemptsOf u x + (if j \<notin> spentBy pf reqs x t1 \<and> j \<in> spentBy pf reqs x (t1 @ [(j, i, u, v)]) then 1 else 0)"
    and stays: "j \<in> spentBy pf reqs x t1 \<Longrightarrow> j \<in> spentBy pf reqs x (t1 @ [(j, i, u, v)])"
    and was: "j \<notin> spentBy pf reqs x t1 \<Longrightarrow> j \<in> spentBy pf reqs x (t1 @ [(j, i, u, v)]) \<Longrightarrow>
      j \<in> heldBy pf reqs x t1 ((j, i, u, v) # t2) \<and> j \<notin> heldBy pf reqs x (t1 @ [(j, i, u, v)]) t2"
    and room: "j \<in> heldBy pf reqs x (t1 @ [(j, i, u, v)]) t2 \<Longrightarrow> attemptsOf v x < MAX_ATTEMPTS"
    and width: "card (underway reqs (t1 @ [(j, i, u, v)]) t2) \<le> k"
  shows "attemptsOf v x + card (heldBy pf reqs x (t1 @ [(j, i, u, v)]) t2) < MAX_ATTEMPTS + k
    \<and> card (spentBy pf reqs x (t1 @ [(j, i, u, v)])) \<le> attemptsOf v x"
proof -
  let ?H = "heldBy pf reqs x t1 ((j, i, u, v) # t2)" and ?H' = "heldBy pf reqs x (t1 @ [(j, i, u, v)]) t2"
  let ?S = "spentBy pf reqs x t1" and ?S' = "spentBy pf reqs x (t1 @ [(j, i, u, v)])"
  have H: "?H' - {j} = ?H - {j}" and S: "?S' - {j} = ?S - {j}" by (auto simp: held_snoc)
  show ?thesis
  proof (cases "j \<notin> ?S \<and> j \<in> ?S'")
    case True
    then have "?H' = ?H - {j}" "j \<in> ?H" "?S' = insert j ?S" using was H S by auto
    then have "card ?H = Suc (card ?H')" "card ?S' = Suc (card ?S)" using True finite_sets
      by (metis card_Suc_Diff1, simp)
    then show ?thesis using assms(1,2) more True by simp
  next
    case False
    then have "?S' = ?S" using stays S by blast
    moreover have same: "attemptsOf v x = attemptsOf u x" using more False by auto
    moreover have "attemptsOf v x + card ?H' < MAX_ATTEMPTS + k"
    proof (cases "j \<in> ?H'")
      case True
      have "card ?H' \<le> k" using card_mono [OF finite_sets(1) held_underway] width by (rule order_trans)
      then show ?thesis using room True by simp
    next
      case False
      then have "?H' \<subseteq> ?H" using H by blast
      then have "card ?H' \<le> card ?H" by (rule card_mono [OF finite_sets(2)])
      then show ?thesis using assms(1) same by simp
    qed
    ultimately show ?thesis using assms(2) by simp
  qed
qed

lemma budget_inv:
  assumes run: "runs (\<lambda>j. serve pf secrets (reqs j)) s0 t Q s" and one: "onePerId s0"
    and start: "\<forall>p \<in> set (ad_pending s0). pe_attempts p < MAX_ATTEMPTS + k"
    and width: "\<forall>t1 t2. t = t1 @ t2 \<longrightarrow> card (underway reqs t1 t2) \<le> k"
  shows "t = t1 @ t2 \<Longrightarrow> runs (\<lambda>j. serve pf secrets (reqs j)) s0 t1 M m \<Longrightarrow>
    attemptsOf m x + card (heldBy pf reqs x t1 t2) < MAX_ATTEMPTS + k \<and> card (spentBy pf reqs x t1) \<le> attemptsOf m x"
proof (induction t1 arbitrary: t2 M m rule: rev_induct)
  case Nil
  have "attemptsOf s0 x < MAX_ATTEMPTS + k"
  proof (cases "x \<in> pe_id ` set (ad_pending s0)")
    case True
    then show ?thesis using start attemptsOf_row [OF one] by auto
  qed (simp add: attemptsOf_none MAX_ATTEMPTS_def)
  then show ?case using Nil by (simp add: heldBy_def spentBy_def holds_def spent_def)
next
  case (snoc e t1)
  obtain j i u v where e: "e = (j, i, u, v)" by (cases e)
  obtain P w where before: "runs (\<lambda>j. serve pf secrets (reqs j)) s0 t1 P w" and "runs P w [e] M m"
    using snoc.prems(2) unfolding runs_append by blast
  then have [simp]: "w = u" "m = v" unfolding e by (auto simp: runs_Cons_iff)
  let ?l = "doneBy j t1"
  have sound: "\<forall>j. obeys onePerId onward (\<lambda>a. True) (serve pf secrets (reqs j))" by (simp add: onward_serve)
  note at = challenges.event_sound [OF snoc.prems(2) one sound]
  have log: "plays (serve pf secrets (reqs j)) (?l @ [(i, u, v)]) (M j)"
    using runs_plays [OF snoc.prems(2), of j] by (simp add: e)
  have I: "\<forall>e \<in> set (?l @ [(i, u, v)]). onePerId (fst (snd e))" "onePerId u" "onePerId v"
    using at by (fastforce simp: e doneBy_mem)+
  have row: "\<exists>r \<in> set (ad_pending u). pe_id r = pe_id p \<and> pe_org r = pe_org p"
    if l: "?l \<noteq> []" and p: "p \<in> set (ad_pending (snd (snd (hd ?l))))" for p
  proof -
    have "sorted_wrt (\<lambda>e e'. onward (snd (snd e)) (fst (snd e'))) (?l @ [(i, u, v)])"
      using challenges.log_in_order [OF snoc.prems(2) one sound, of j] by (simp add: e)
    then have "onward (snd (snd (hd ?l))) u" using hd_in_set [OF l] by (simp add: sorted_wrt_append)
    then show ?thesis using p unfolding onward_def kept_def by auto
  qed
  let ?more = "\<not> spent pf (reqs j) x ?l \<and> spent pf (reqs j) x (?l @ [(i, u, v)])"
  have more: "attemptsOf v x = attemptsOf u x + (if ?more then 1 else 0)" by (rule step_of_log [OF log I(1,3) row])
  have stays: "spent pf (reqs j) x ?l \<Longrightarrow> spent pf (reqs j) x (?l @ [(i, u, v)])"
    using spent_snoc [of ?l] spent_short [of ?l] by (metis not_le)
  have was: "?more \<Longrightarrow> holds pf (reqs j) x ?l" using spent_from by blast
  note room = holds_from [OF log I(2), of x]
  have "attemptsOf u x + card (heldBy pf reqs x t1 ((j, i, u, v) # t2)) < MAX_ATTEMPTS + k
      \<and> card (spentBy pf reqs x t1) \<le> attemptsOf u x"
    using snoc.IH [OF _ before] snoc.prems(1) by (simp add: e)
  moreover have "card (underway reqs (t1 @ [(j, i, u, v)]) t2) \<le> k" using width snoc.prems(1) unfolding e by blast
  ultimately have "attemptsOf v x + card (heldBy pf reqs x (t1 @ [(j, i, u, v)]) t2) < MAX_ATTEMPTS + k
      \<and> card (spentBy pf reqs x (t1 @ [(j, i, u, v)])) \<le> attemptsOf v x"
    using more stays was room by (intro budget_step) (auto simp: spentBy_def heldBy_def, auto simp: holds_def)
  then show ?case by (simp add: e)
qed

text \<open>The second steps that had a code looked at on the challenge \<open>x\<close>: they went past the count.\<close>

definition triedBy :: "platform \<Rightarrow> (nat \<Rightarrow> Endpoint) \<Rightarrow> id \<Rightarrow> (inp, auth_db) trace \<Rightarrow> nat set" where
  "triedBy pf reqs x t = {j. length (doneBy j t) > 2 \<and> challengeOf pf (reqs j) (doneBy j t) = Some x}"

lemma tried_spent:
  assumes run: "runs (\<lambda>j. serve pf secrets (reqs j)) s0 t Q s" and one: "onePerId s0"
  shows "triedBy pf reqs x t \<subseteq> spentBy pf reqs x t"
proof
  fix j
  assume j: "j \<in> triedBy pf reqs x t"
  have sound: "\<forall>j. obeys onePerId onward (\<lambda>a. True) (serve pf secrets (reqs j))" by (simp add: onward_serve)
  let ?l = "doneBy j t"
  obtain a e1 l p where a: "reqs j = SecondFactor a" "?l = e1 # l" and p: "foundBy pf a e1 = Some p" "pe_id p = x"
    using j by (auto simp: triedBy_def challengeOf_eq_Some)
  then obtain i u v l' where l: "l = (i, u, v) # l'" "l' \<noteq> []" using j by (cases l) (auto simp: triedBy_def)
  have log: "plays (serve pf secrets (SecondFactor a)) (e1 # l) (Q j)" using runs_plays [OF run, of j] a by simp
  have at: "\<forall>e \<in> set (e1 # l). onePerId (fst (snd e))"
    using challenges.event_sound [OF run one sound] unfolding a(2) [symmetric] by (auto simp: doneBy_mem)
  have v: "v = countedIn (pe_org p) (pe_id p) u"
    using second_step_log(2) [OF log at, of i u v l'] p(1) l by auto
  have "onward (snd (snd e1)) u" using challenges.log_in_order [OF run one sound, of j] unfolding a(2) l(1) by simp
  moreover have "p \<in> set (ad_pending (snd (snd e1)))"
    using foundBy_row [OF p(1)] second_step_log(1) [OF log at] by simp
  ultimately obtain r where "r \<in> set (ad_pending u)" "pe_id r = x" "pe_org r = pe_org p"
    using p(2) unfolding onward_def kept_def by auto
  then have "attemptsOf v x = Suc (attemptsOf u x)"
    using counted_attempts [of r u x "pe_org p" x] at l(1) v p(2) by simp
  then show "j \<in> spentBy pf reqs x t"
    using j a(2) l(1) by (simp add: spentBy_def spent_def triedBy_def)
qed

text \<open>
  C38. The attempt budget of a challenge, with requests side by side. When at no moment more than \<open>k\<close> second
  steps are between two of their transactions, no challenge is counted beyond five and \<open>k\<close>, and a count
  stands behind every code that was looked at: with one request at a time six codes at most, and with \<open>k\<close>
  at a time never more than five and \<open>k\<close>, whatever else runs, whichever connections are lost, and however
  often the challenge's user signs in again.
\<close>

theorem codes_are_bounded:
  assumes "runs (\<lambda>j. serve pf secrets (reqs j)) s0 t Q s" and "onePerId s0"
    and "\<forall>p \<in> set (ad_pending s0). pe_attempts p < MAX_ATTEMPTS + k"
    and "\<forall>t1 t2. t = t1 @ t2 \<longrightarrow> card (underway reqs t1 t2) \<le> k"
  shows "\<forall>p \<in> set (ad_pending s). card (triedBy pf reqs (pe_id p) t) \<le> pe_attempts p \<and> pe_attempts p < MAX_ATTEMPTS + k"
proof
  fix p
  assume p: "p \<in> set (ad_pending s)"
  have sound: "\<forall>j. obeys onePerId onward (\<lambda>a. True) (serve pf secrets (reqs j))" by (simp add: onward_serve)
  have "onePerId s" using challenges.runs_obey [OF assms(1,2) sound] by simp
  then have "attemptsOf s (pe_id p) = pe_attempts p" using p by (rule attemptsOf_row)
  moreover have "attemptsOf s (pe_id p) + card (heldBy pf reqs (pe_id p) t []) < MAX_ATTEMPTS + k
      \<and> card (spentBy pf reqs (pe_id p) t) \<le> attemptsOf s (pe_id p)"
    using budget_inv [OF assms, of t "[]"] assms(1) by simp
  moreover have "card (triedBy pf reqs (pe_id p) t) \<le> card (spentBy pf reqs (pe_id p) t)"
    by (intro card_mono finite_sets tried_spent [OF assms(1,2)])
  ultimately show "card (triedBy pf reqs (pe_id p) t) \<le> pe_attempts p \<and> pe_attempts p < MAX_ATTEMPTS + k" by simp
qed

text \<open>Two guesses at once on a challenge with one attempt left: both find it open, and it ends at seven.\<close>

definition ex_five :: "nat \<Rightarrow> auth_db" where
  "ex_five n = ex_auth\<lparr>ad_pending := map (pe_attempts_update (\<lambda>_. n)) (ad_pending ex_auth)\<rparr>"

definition ex_failed :: "nat \<Rightarrow> auth_db" where
  "ex_failed m = (ex_five 7)\<lparr>ad_audit := replicate m
     \<lparr>au_org = ''o'', au_actor = ''u'', au_action = ''auth.login-failed'', au_ip = Some ''ip''\<rparr>\<rparr>"

definition ex_guess :: "nat \<Rightarrow> Endpoint" where
  "ex_guess j = (if j < 2 then SecondFactor \<lparr>sf_token = [116], sf_code = [], sf_agent = None, sf_ip = ''ip''\<rparr>
                 else Touch ''o'' ''new'')"

definition ex_trace :: "(inp, auth_db) trace" where
  "ex_trace = [(0, ex_inp, ex_five 5, ex_five 5), (1, ex_inp, ex_five 5, ex_five 5),
     (0, ex_inp, ex_five 5, ex_five 6), (1, ex_inp, ex_five 6, ex_five 7),
     (0, ex_inp, ex_five 7, ex_failed 1), (1, ex_inp, ex_failed 1, ex_failed 2)]"

definition ex_reject :: "unit handler" where
  "ex_reject = bindR (auditRecord ''o'' ''u'' ''auth.login-failed'' (Some ''ip'')) returnR"

definition ex_count :: "unit handler" where
  "ex_count = bindR (countAttempt ''o'' ''p'') (\<lambda>_. ex_reject)"

lemma ex_serve:
  "serve ex_pf None (SecondFactor \<lparr>sf_token = [116], sf_code = [], sf_agent = None, sf_ip = ''ip''\<rparr>) =
     bindR (resolvePending ex_pf [116]) (\<lambda>ch. case ch of
       None \<Rightarrow> returnR ()
     | Some c \<Rightarrow> bindR (countAttempt (rp_org c) (rp_id c)) (\<lambda>_.
         bindR (auditRecord (rp_org c) (rp_user c) ''auth.login-failed'' (Some ''ip'')) returnR))"
  unfolding second_step_eq verdictStep_def verifySecondFactor_def Let_def
  by (simp add: canonical_def toUpperCase_def totpShape_def recoveryShape_def answered_bind)

lemma ex_resolves: "plays (serve ex_pf None (SecondFactor \<lparr>sf_token = [116], sf_code = [], sf_agent = None, sf_ip = ''ip''\<rparr>))
    [(ex_inp, ex_five 5, ex_five 5)] ex_count"
  unfolding ex_serve
  by (simp add: plays_Cons_iff resolvePending_def query_def transact_def ex_inp_def hashToken_def ex_pf_def livePending_def
        enabled_def ex_five_def ex_auth_def MAX_ATTEMPTS_def ex_count_def ex_reject_def)

lemma ex_counts: "plays ex_count [(ex_inp, ex_five n, ex_five (Suc n))] ex_reject"
  by (simp add: ex_count_def plays_Cons_iff countAttempt_def query_def transact_def ex_inp_def ex_five_def ex_auth_def
        updateWhere_def)

lemma ex_rejects: "plays ex_reject [(ex_inp, ex_failed m, ex_failed (Suc m))] (Returns (Inr ()))"
  by (simp add: ex_reject_def plays_Cons_iff auditRecord_def query_def transact_def ex_inp_def ex_failed_def returnR_def
        ex_five_def ex_auth_def replicate_append_same)

lemma runs_play: "plays (P j) [(i, u, v)] q \<Longrightarrow> runs (P (j := q)) v t Q s \<Longrightarrow> runs P u ((j, i, u, v) # t) Q s"
  by (auto simp: plays_Cons_iff runs_Cons_iff)

lemma ex_race_runs: "\<exists>Q. runs (\<lambda>j. serve ex_pf None (ex_guess j)) (ex_five 5) ex_trace Q (ex_failed 2)"
proof -
  let ?P = "\<lambda>j. serve ex_pf None (ex_guess j)"
  have P: "?P 0 = serve ex_pf None (SecondFactor \<lparr>sf_token = [116], sf_code = [], sf_agent = None, sf_ip = ''ip''\<rparr>)"
    "?P 1 = ?P 0" by (simp_all only: ex_guess_def) simp_all
  have seven: "ex_five 7 = ex_failed 0" by (simp add: ex_failed_def ex_five_def ex_auth_def)
  have counts: "plays ex_count [(ex_inp, ex_five 5, ex_five 6)] ex_reject" "plays ex_count [(ex_inp, ex_five 6, ex_five 7)] ex_reject"
    using ex_counts [of 5] ex_counts [of 6] by simp_all
  have rejects: "plays ex_reject [(ex_inp, ex_five 7, ex_failed 1)] (Returns (Inr ()))"
    "plays ex_reject [(ex_inp, ex_failed 1, ex_failed 2)] (Returns (Inr ()))"
    using ex_rejects [of 0] ex_rejects [of 1] by (simp_all add: seven numeral_2_eq_2)
  show ?thesis unfolding ex_trace_def
    apply (rule exI)
    apply (rule runs_play, unfold P, rule ex_resolves)
    apply (rule runs_play, simp only: fun_upd_apply one_neq_zero if_False P, rule ex_resolves)
    apply (rule runs_play, simp only: fun_upd_apply zero_neq_one if_False if_True simp_thms, rule counts)
    apply (rule runs_play, simp only: fun_upd_apply one_neq_zero if_False if_True simp_thms, rule counts)
    apply (rule runs_play, simp only: fun_upd_apply zero_neq_one if_False if_True simp_thms, rule rejects)
    apply (rule runs_play, simp only: fun_upd_apply one_neq_zero if_False if_True simp_thms, rule rejects)
    by (rule runs_Nil)
qed

theorem codes_are_bounded_witness:
  "map pe_attempts (ad_pending (ex_failed 2)) = [7] \<and> (7 :: nat) < MAX_ATTEMPTS + 2
   \<and> triedBy ex_pf ex_guess ''p'' ex_trace = {0, 1} \<and> card (triedBy ex_pf ex_guess ''p'' ex_trace) \<le> 7"
proof -
  obtain Q where run: "runs (\<lambda>j. serve ex_pf None (ex_guess j)) (ex_five 5) ex_trace Q (ex_failed 2)"
    using ex_race_runs by blast
  have one: "onePerId (ex_five 5)" and start: "\<forall>p \<in> set (ad_pending (ex_five 5)). pe_attempts p < MAX_ATTEMPTS + 2"
    by (simp_all add: onePerId_def ex_five_def ex_auth_def MAX_ATTEMPTS_def)
  have "card (underway ex_guess t1 t2) \<le> card {..<2 :: nat}" for t1 t2
    by (rule card_mono) (auto simp: underway_def ex_guess_def split: if_splits)
  then have "\<forall>t1 t2. ex_trace = t1 @ t2 \<longrightarrow> card (underway ex_guess t1 t2) \<le> 2" by simp
  from codes_are_bounded [OF run one start this]
  have "card (triedBy ex_pf ex_guess ''p'' ex_trace) \<le> 7 \<and> (7 :: nat) < MAX_ATTEMPTS + 2"
    by (simp add: ex_failed_def ex_five_def ex_auth_def)
  moreover have "triedBy ex_pf ex_guess ''p'' ex_trace = {0, 1}"
  proof -
    have found: "map_option pe_id (foundBy ex_pf a (ex_inp, ex_five 5, ex_five 5)) = Some ''p''" if "sf_token a = [116]" for a
      using that by (simp add: foundBy_def ex_five_def ex_auth_def livePending_def hashToken_def ex_pf_def ex_inp_def
          enabled_def MAX_ATTEMPTS_def)
    have "length (doneBy j ex_trace) > 2 \<longleftrightarrow> j < 2" for j by (auto simp: ex_trace_def)
    moreover have "challengeOf ex_pf (ex_guess j) (doneBy j ex_trace) = Some ''p''" if "j < 2" for j
    proof -
      have "\<exists>l. doneBy j ex_trace = (ex_inp, ex_five 5, ex_five 5) # l" using that by (auto simp: ex_trace_def)
      then show ?thesis using that found by (auto simp: challengeOf_def ex_guess_def)
    qed
    ultimately show ?thesis by (auto simp: triedBy_def)
  qed
  ultimately show ?thesis by (simp add: ex_failed_def ex_five_def ex_auth_def)
qed

end
