(* ===== verification/ThrottleProps.thy ===== *)
theory ThrottleProps
  imports SignInProps
begin

text \<open>
  The throttle of the password: when it refuses, and that the wait it announces is the wait there is. Time
  is in microseconds, the announcement in seconds.
\<close>

section \<open>The tenth newest failure\<close>

lemma descending_count:
  "sorted_wrt (\<lambda>x y. f y \<le> f x) xs \<Longrightarrow> Suc n \<le> length (filter (\<lambda>x. (c :: int) < f x) xs) \<longleftrightarrow> n < length xs \<and> c < f (xs ! n)"
proof (induction xs arbitrary: n)
  case (Cons x xs)
  show ?case
  proof (cases "c < f x")
    case True
    then show ?thesis using Cons by (cases n) auto
  next
    case False
    then have none: "filter (\<lambda>x. c < f x) xs = []" and old: "\<forall>y \<in> set xs. f y \<le> c"
      using Cons.prems by (fastforce simp: filter_empty_conv)+
    have "\<not> c < f ((x # xs) ! n)" if "n < length (x # xs)"
      using False old that by (cases n) (auto simp: not_less)
    then show ?thesis using False none by auto
  qed
qed simp

lemma newestFirst_sorted: "sorted_wrt (\<lambda>x y. la_at y \<le> la_at x) (newestFirstAttempts xs)"
  using sorted_sort_key [of "\<lambda>a. - la_at a" xs] by (simp add: newestFirstAttempts_def sorted_map)

definition failures :: "auth_db \<Rightarrow> int \<Rightarrow> units \<Rightarrow> string \<Rightarrow> nat" where
  "failures s now email ip = length (filter (counted now email ip) (ad_attempts s))"

lemma later_failures:
  assumes "0 \<le> d"
  shows "failures s (now + d) email ip = length (filter (\<lambda>a. now + d - windowMicros < la_at a)
    (newestFirstAttempts (filter (counted now email ip) (ad_attempts s))))"
proof -
  have "filter (counted (now + d) email ip) xs = filter (\<lambda>a. now + d - windowMicros < la_at a) (filter (counted now email ip) xs)" for xs
    using assms by (auto simp: counted_def intro!: filter_cong)
  moreover have "length (filter P (newestFirstAttempts xs)) = length (filter P xs)" for P xs
    by (simp add: newestFirstAttempts_def filter_sort)
  ultimately show ?thesis by (simp add: failures_def)
qed

lemma ceilSeconds_bounds: "(ceilSeconds m - 1) * 1000000 < m" "m \<le> ceilSeconds m * 1000000"
proof -
  have "(- m) div 1000000 * 1000000 + (- m) mod 1000000 = - m" by (rule div_mult_mod_eq)
  moreover have "0 \<le> (- m) mod 1000000" "(- m) mod 1000000 < (1000000 :: int)" by simp_all
  ultimately show "(ceilSeconds m - 1) * 1000000 < m" and "m \<le> ceilSeconds m * 1000000"
    unfolding ceilSeconds_def by (simp_all add: algebra_simps)
qed

text \<open>The wait read off the tenth newest counted failure is the time until fewer than ten are counted.\<close>

lemma wait_exact:
  assumes "REFUSE_AFTER \<le> failures s now email ip" and "0 \<le> d"
    and "drop (REFUSE_AFTER - 1) (newestFirstAttempts (filter (counted now email ip) (ad_attempts s))) = r # rest"
  shows "REFUSE_AFTER \<le> failures s (now + d) email ip \<longleftrightarrow> d < la_at r + windowMicros - now"
proof -
  let ?rows = "newestFirstAttempts (filter (counted now email ip) (ad_attempts s))"
  have "REFUSE_AFTER - 1 < length ?rows" using assms(3) by (cases "REFUSE_AFTER - 1 < length ?rows") auto
  moreover from this have "?rows ! (REFUSE_AFTER - 1) = r" using assms(3) by (metis Cons_nth_drop_Suc list.inject)
  moreover have "REFUSE_AFTER = Suc (REFUSE_AFTER - 1)" by (simp add: REFUSE_AFTER_def)
  ultimately have "REFUSE_AFTER \<le> failures s (now + d) email ip \<longleftrightarrow> now + d - windowMicros < la_at r"
    unfolding later_failures [OF assms(2)]
    using descending_count [OF newestFirst_sorted, of "REFUSE_AFTER - 1" "now + d - windowMicros"] by metis
  then show ?thesis by linarith
qed

section \<open>The gate\<close>

lemma plays_recentFailures:
  "plays (recentFailures email ip) l (Returns (Inr n)) \<longleftrightarrow>
     (\<exists>i s. l = [(i, s, s)] \<and> n = failures s (in_now i) email ip \<and> in_conn i = Kept)"
  by (auto simp: recentFailures_def plays_query_return failures_def)

lemma plays_sleepFor: "plays (sleepFor ms) l (Returns (Inr ())) \<longleftrightarrow> (\<exists>i s. l = [(i, s, s)])"
  by (cases l; cases "tl l") (auto simp: sleepFor_def plays_Cons_iff returnR_def)

text \<open>\<open>w\<close> seconds is the wait: a second less and the pair is still refused, \<open>w\<close> seconds and it is not, when no
  failure is added.\<close>

definition exactWait :: "auth_db \<Rightarrow> int \<Rightarrow> units \<Rightarrow> string \<Rightarrow> int \<Rightarrow> bool" where
  "exactWait s now email ip w \<longleftrightarrow> 1 \<le> w
     \<and> (\<forall>d. 0 \<le> d \<and> d \<le> (w - 1) * 1000000 \<longrightarrow> REFUSE_AFTER \<le> failures s (now + d) email ip)
     \<and> (\<forall>d. w * 1000000 \<le> d \<longrightarrow> failures s (now + d) email ip < REFUSE_AFTER)"

lemma tenth_newest:
  assumes full: "REFUSE_AFTER \<le> failures s now email ip"
  shows "exactWait s now email ip (max 1
    (case drop (REFUSE_AFTER - 1) (newestFirstAttempts (filter (counted now email ip) (ad_attempts s))) of
       [] \<Rightarrow> 0 | r # _ \<Rightarrow> ceilSeconds (la_at r + windowMicros - now)))"
proof -
  let ?rows = "newestFirstAttempts (filter (counted now email ip) (ad_attempts s))"
  have "length ?rows = failures s now email ip" by (simp add: newestFirstAttempts_def failures_def)
  then have "REFUSE_AFTER - 1 < length ?rows" using full by (simp add: REFUSE_AFTER_def)
  then obtain r rest where r: "drop (REFUSE_AFTER - 1) ?rows = r # rest" by (metis Cons_nth_drop_Suc)
  let ?left = "la_at r + windowMicros - now"
  note counts = wait_exact [OF full _ r] and ceil = ceilSeconds_bounds [of ?left]
  have "0 < ?left" using counts [of 0] full by simp
  then have one: "1 \<le> ceilSeconds ?left" using ceil(2) by linarith
  have "REFUSE_AFTER \<le> failures s (now + d) email ip" if "0 \<le> d" "d \<le> (ceilSeconds ?left - 1) * 1000000" for d
    using counts [OF that(1)] that(2) ceil(1) by linarith
  moreover have "failures s (now + d) email ip < REFUSE_AFTER" if "ceilSeconds ?left * 1000000 \<le> d" for d
    using counts [of d] that ceil(2) \<open>0 < ?left\<close> by linarith
  ultimately show ?thesis using one unfolding r list.case exactWait_def by (auto simp: max_def)
qed

lemma plays_retryAfterSeconds:
  assumes "plays (retryAfterSeconds email ip) l (Returns (Inr w))"
  shows "\<exists>i s. l = [(i, s, s)] \<and> 1 \<le> w
    \<and> (REFUSE_AFTER \<le> failures s (in_now i) email ip \<longrightarrow> exactWait s (in_now i) email ip w)"
  using assms unfolding retryAfterSeconds_def plays_query_return Let_def
  by (auto intro: tenth_newest [unfolded One_nat_def])

lemma gate_log:
  assumes "plays (gate email ip) l (Returns (Inr decision))"
  shows "\<exists>i u l'. l = (i, u, u) # l'
    \<and> (case decision of
         Allowed \<Rightarrow> failures u (in_now i) email ip < REFUSE_AFTER
           \<and> length l' = (if failures u (in_now i) email ip = 0 then 0 else 1)
       | Refused w \<Rightarrow> REFUSE_AFTER \<le> failures u (in_now i) email ip
           \<and> (\<exists>i' u'. l' = [(i', u', u')] \<and> 1 \<le> w
                \<and> (REFUSE_AFTER \<le> failures u' (in_now i') email ip \<longrightarrow> exactWait u' (in_now i') email ip w)))
    \<and> (\<forall>(i, u, v) \<in> set l. v = u)"
proof -
  obtain i u l' where l: "l = (i, u, u) # l'"
    and rest: "plays (if REFUSE_AFTER \<le> failures u (in_now i) email ip
         then bindR (retryAfterSeconds email ip) (\<lambda>seconds. returnR (Refused seconds))
         else if 0 < failures u (in_now i) email ip
         then bindR (sleepFor (delayAfter (failures u (in_now i) email ip))) (\<lambda>_. returnR Allowed)
         else returnR Allowed) l' (Returns (Inr decision))"
    using assms unfolding gate_def by (auto simp: plays_bind_return plays_recentFailures)
  then show ?thesis
    by (auto simp: plays_bind_return plays_sleepFor returnR_def split: if_splits dest!: plays_retryAfterSeconds)
qed

section \<open>The sign-in\<close>

lemma plays_then:
  "plays p l1 (Returns (Inr a)) \<Longrightarrow> plays (k a) l2 (Returns (Inr b)) \<Longrightarrow> plays (bindR p k) (l1 @ l2) (Returns (Inr b))"
  unfolding plays_bind_return by blast

lemma never_throttled:
  "\<not> plays (accountFound pf request name organizationId user) l (Returns (Inr (Throttled w)))"
  unfolding accountFound_def passwordRight_def
  by (auto simp: plays_bind_return returnR_def split: option.splits if_splits)

lemma login_parts:
  assumes "plays (login pf request) l (Returns (Inr result))"
  shows "\<exists>i s l1 l2 decision. l = (i, s, s) # l1 @ l2
    \<and> plays (gate (pf_fold pf (lr_username request)) (lr_ip request)) l1 (Returns (Inr decision))
    \<and> (case decision of Refused w \<Rightarrow> l2 = [] \<and> result = Throttled w | Allowed \<Rightarrow> \<forall>w. result \<noteq> Throttled w)"
proof -
  obtain i s l1 l2 decision where l: "l = (i, s, s) # l1 @ l2"
    and gate: "plays (gate (pf_fold pf (lr_username request)) (lr_ip request)) l1 (Returns (Inr decision))"
    and rest: "plays (case decision of
       Refused seconds \<Rightarrow> returnR (Throttled seconds)
     | Allowed \<Rightarrow>
         bindR (case lr_slug request of
                  None \<Rightarrow> resolveSoleId
                | Some slug \<Rightarrow> if slug = [] then resolveSoleId else resolveIdBySlug slug) (\<lambda>organizationId.
         bindR (case organizationId of None \<Rightarrow> returnR None | Some org \<Rightarrow> findUser org (pf_fold pf (lr_username request))) (\<lambda>user.
         accountFound pf request (pf_fold pf (lr_username request)) organizationId user))) l2 (Returns (Inr result))"
    using assms unfolding login_eq by (auto simp: plays_bind_return foldName_def plays_query_return)
  have "case decision of Refused w \<Rightarrow> l2 = [] \<and> result = Throttled w | Allowed \<Rightarrow> \<forall>w. result \<noteq> Throttled w"
    using rest never_throttled by (cases decision) (auto simp: returnR_def plays_bind_return)
  then show ?thesis using l gate by blast
qed

text \<open>
  C39. The throttle of a name and an address, as a sign-in meets it. The sign-in counts the failures of the
  last fifteen minutes of exactly this pair, and answers with a wait if and only if there are ten or more.
  Then nothing else happens: no table changes, so a refused attempt does not extend the wait; and the
  seconds it answers are the wait there is: with no failure added, the pair is refused up to a second before
  they have passed, and no longer once they have.
\<close>

theorem throttle_is_exact:
  assumes "plays (login pf request) l (Returns (Inr result))"
    and "name = pf_fold pf (lr_username request)"
  shows "\<exists>e i u l'. l = e # (i, u, u) # l'
    \<and> ((\<exists>w. result = Throttled w) \<longleftrightarrow> REFUSE_AFTER \<le> failures u (in_now i) name (lr_ip request))
    \<and> (\<forall>w. result = Throttled w \<longrightarrow> snd (snd e) = fst (snd e)
        \<and> (\<exists>i' u'. l' = [(i', u', u')] \<and> 1 \<le> w
             \<and> (REFUSE_AFTER \<le> failures u' (in_now i') name (lr_ip request) \<longrightarrow> exactWait u' (in_now i') name (lr_ip request) w)))"
proof -
  obtain i s l1 l2 decision where l: "l = (i, s, s) # l1 @ l2"
    and gate: "plays (gate name (lr_ip request)) l1 (Returns (Inr decision))"
    and result: "case decision of Refused w \<Rightarrow> l2 = [] \<and> result = Throttled w | Allowed \<Rightarrow> \<forall>w. result \<noteq> Throttled w"
    using login_parts [OF assms(1)] unfolding assms(2) by blast
  from gate_log [OF gate] obtain i' u' l' where "l1 = (i', u', u') # l'"
    and "case decision of Allowed \<Rightarrow> failures u' (in_now i') name (lr_ip request) < REFUSE_AFTER
      | Refused w \<Rightarrow> REFUSE_AFTER \<le> failures u' (in_now i') name (lr_ip request)
           \<and> (\<exists>i'' u''. l' = [(i'', u'', u'')] \<and> 1 \<le> w
                \<and> (REFUSE_AFTER \<le> failures u'' (in_now i'') name (lr_ip request) \<longrightarrow> exactWait u'' (in_now i'') name (lr_ip request) w))"
    by (fastforce split: GateDecision.splits)
  with l result show ?thesis by (cases decision) auto
qed

text \<open>Nine failures now and one half a second old: 900 seconds.\<close>

definition ex_guesses :: "LoginAttempt list" where
  "ex_guesses = \<lparr>la_email = [117], la_ip = ''ip'', la_succeeded = False, la_at = -500000\<rparr> #
     replicate 9 \<lparr>la_email = [117], la_ip = ''ip'', la_succeeded = False, la_at = 0\<rparr>"

definition ex_full :: auth_db where
  "ex_full = ex_auth\<lparr>ad_attempts := ex_guesses\<rparr>"

definition ex_login :: LoginRequest where
  "ex_login = \<lparr>lr_username = [117], lr_slug = None, lr_password = [], lr_agent = None, lr_ip = ''ip''\<rparr>"

lemma ex_counted: "filter (counted 0 [117] ''ip'') ex_guesses = ex_guesses"
  by (simp add: ex_guesses_def counted_def windowMicros_def WINDOW_MINUTES_def)

lemma ex_tenth: "drop (REFUSE_AFTER - 1) (newestFirstAttempts ex_guesses) = [hd ex_guesses]"
  by (simp add: ex_guesses_def newestFirstAttempts_def REFUSE_AFTER_def numeral_eq_Suc)

lemma ex_failures: "failures ex_full 0 [117] ''ip'' = 10"
  by (simp add: failures_def ex_full_def ex_counted) (simp add: ex_guesses_def)

lemma ex_refused: "plays (login ex_pf ex_login) (replicate 3 (ex_inp, ex_full, ex_full)) (Returns (Inr (Throttled 900)))"
proof -
  let ?e = "[(ex_inp, ex_full, ex_full)]"
  have name: "plays (foldName ex_pf (lr_username ex_login)) ?e (Returns (Inr [117]))"
    by (simp add: foldName_def plays_query_return ex_inp_def ex_pf_def ex_login_def)
  have count: "plays (recentFailures [117] ''ip'') ?e (Returns (Inr 10))"
    using ex_failures by (simp add: plays_recentFailures ex_inp_def)
  have wait: "plays (retryAfterSeconds [117] ''ip'') ?e (Returns (Inr 900))"
    unfolding retryAfterSeconds_def plays_query_return
    by (simp add: ex_inp_def ex_full_def ex_counted ex_tenth [unfolded One_nat_def])
       (simp add: ex_guesses_def ceilSeconds_def windowMicros_def WINDOW_MINUTES_def)
  have "plays (gate [117] ''ip'') (?e @ ?e @ []) (Returns (Inr (Refused 900)))"
    unfolding gate_def
    by (rule plays_then [OF count], simp only: REFUSE_AFTER_def order_refl if_True, rule plays_then [OF wait])
       (simp add: returnR_def)
  then have gate: "plays (gate [117] (lr_ip ex_login)) (?e @ ?e @ []) (Returns (Inr (Refused 900)))" by (simp add: ex_login_def)
  have "plays (login ex_pf ex_login) (?e @ (?e @ ?e @ []) @ []) (Returns (Inr (Throttled 900)))"
    unfolding login_eq by (rule plays_then [OF name], rule plays_then [OF gate]) (simp add: returnR_def)
  then show ?thesis by (simp add: numeral_3_eq_3)
qed

theorem throttle_is_exact_witness:
  "exactWait ex_full 0 [117] ''ip'' 900 \<and> failures ex_full 0 [117] ''ip'' = 10"
proof -
  from throttle_is_exact [OF ex_refused refl]
  have "exactWait ex_full 0 [117] ''ip'' 900"
    using ex_failures by (auto simp: numeral_3_eq_3 ex_login_def ex_inp_def ex_pf_def REFUSE_AFTER_def)
  then show ?thesis using ex_failures by simp
qed

end
