(* ===== verification/NtProps.thy ===== *)
theory NtProps
  imports NtHash
begin

text \<open>
  MD4 as RFC 1320 states it, and its equality with the code's single loop over tables: the padding is the
  least that fits, a word is read low byte first, and a block goes through three rounds of sixteen
  operations, four at a time on the registers in place, each round with its own function, word order and
  shifts written out.
\<close>

section \<open>RFC 1320\<close>

definition F_rfc :: "32 word \<Rightarrow> 32 word \<Rightarrow> 32 word \<Rightarrow> 32 word" where
  "F_rfc x y z = (x AND y) OR (NOT x AND z)"

definition G_rfc :: "32 word \<Rightarrow> 32 word \<Rightarrow> 32 word \<Rightarrow> 32 word" where
  "G_rfc x y z = (x AND y) OR (x AND z) OR (y AND z)"

definition H_rfc :: "32 word \<Rightarrow> 32 word \<Rightarrow> 32 word \<Rightarrow> 32 word" where
  "H_rfc x y z = x XOR y XOR z"

text \<open>The operations \<open>[ABCD k1 s1] [DABC k2 s2] [CDAB k3 s3] [BCDA k4 s4]\<close> of one line of the RFC.\<close>

definition four_rfc ::
  "(32 word \<Rightarrow> 32 word \<Rightarrow> 32 word \<Rightarrow> 32 word) \<Rightarrow> 32 word \<Rightarrow> nat \<times> nat \<times> nat \<times> nat \<Rightarrow> (nat \<Rightarrow> 32 word) \<Rightarrow>
   nat \<times> nat \<times> nat \<times> nat \<Rightarrow> registers \<Rightarrow> registers" where
  "four_rfc f t s X k r =
     (case (r, k, s) of ((a, b, c, d), (k1, k2, k3, k4), (s1, s2, s3, s4)) \<Rightarrow>
        let a' = rotl (a + f b c d + X k1 + t) s1;
            d' = rotl (d + f a' b c + X k2 + t) s2;
            c' = rotl (c + f d' a' b + X k3 + t) s3;
            b' = rotl (b + f c' d' a' + X k4 + t) s4
        in (a', b', c', d'))"

definition rounds_rfc :: "(nat \<Rightarrow> 32 word) \<Rightarrow> registers \<Rightarrow> registers" where
  "rounds_rfc X r =
     fold (four_rfc H_rfc 0x6ed9eba1 (3, 9, 11, 15) X) [(0, 8, 4, 12), (2, 10, 6, 14), (1, 9, 5, 13), (3, 11, 7, 15)]
     (fold (four_rfc G_rfc 0x5a827999 (3, 5, 9, 13) X) [(0, 4, 8, 12), (1, 5, 9, 13), (2, 6, 10, 14), (3, 7, 11, 15)]
     (fold (four_rfc F_rfc 0 (3, 7, 11, 19) X) [(0, 1, 2, 3), (4, 5, 6, 7), (8, 9, 10, 11), (12, 13, 14, 15)] r))"

definition word_rfc :: "buffer \<Rightarrow> nat \<Rightarrow> 32 word" where
  "word_rfc block k =
     of_nat (unat (block ! (4 * k)) + 2 ^ 8 * unat (block ! (4 * k + 1)) + 2 ^ 16 * unat (block ! (4 * k + 2))
             + 2 ^ 24 * unat (block ! (4 * k + 3)))"

definition pad_rfc :: "buffer \<Rightarrow> buffer" where
  "pad_rfc m = m @ [0x80] @ replicate (nat ((55 - int (length m)) mod 64)) 0 @ uint64LE (8 * int (length m))"

function blocks_rfc :: "buffer \<Rightarrow> registers \<Rightarrow> registers" where
  "blocks_rfc m r =
     (if m = [] then r
      else case (rounds_rfc (word_rfc (take 64 m)) r, r) of
             ((a, b, c, d), (aa, bb, cc, dd)) \<Rightarrow> blocks_rfc (drop 64 m) (a + aa, b + bb, c + cc, d + dd))"
  by pat_completeness auto
termination by (relation "measure (\<lambda>(m, r). length m)") auto

declare blocks_rfc.simps [simp del]

definition md4_rfc :: "buffer \<Rightarrow> buffer" where
  "md4_rfc m =
     (case blocks_rfc (pad_rfc m) (0x67452301, 0xefcdab89, 0x98badcfe, 0x10325476) of
        (a, b, c, d) \<Rightarrow> uint32LE a @ uint32LE b @ uint32LE c @ uint32LE d)"

section \<open>The rounds\<close>

text \<open>Four rounds of the loop, from the \<open>i\<close>-th.\<close>

definition fourFrom :: "32 word list \<Rightarrow> nat \<Rightarrow> registers \<Rightarrow> registers" where
  "fourFrom x i r = fold (\<lambda>i r. md4Round x r i) [i, i + 1, i + 2, i + 3] r"

definition tableAt :: "nat list \<Rightarrow> nat \<Rightarrow> nat \<times> nat \<times> nat \<times> nat" where
  "tableAt xs i = (xs ! i, xs ! (i + 1), xs ! (i + 2), xs ! (i + 3))"

lemma fourFrom_rfc:
  "i + 3 < 16 \<Longrightarrow> fourFrom x i r = four_rfc F_rfc 0 (tableAt SHIFTS i) (\<lambda>k. x ! k) (tableAt ORDER i) r"
  "16 \<le> i \<Longrightarrow> i + 3 < 32 \<Longrightarrow>
     fourFrom x i r = four_rfc G_rfc 0x5a827999 (tableAt SHIFTS i) (\<lambda>k. x ! k) (tableAt ORDER i) r"
  "32 \<le> i \<Longrightarrow> fourFrom x i r = four_rfc H_rfc 0x6ed9eba1 (tableAt SHIFTS i) (\<lambda>k. x ! k) (tableAt ORDER i) r"
  by (cases r; simp add: fourFrom_def tableAt_def md4Round_def four_rfc_def F_rfc_def G_rfc_def H_rfc_def Let_def)+

lemma fold_concat_map: "fold f (concat (map g is)) r = fold (\<lambda>i r. fold f (g i) r) is r"
  by (induction "is" arbitrary: r) auto

lemma rounds_are_rfc: "fold (\<lambda>i r. md4Round x r i) [0..<48] r = rounds_rfc (\<lambda>k. x ! k) r"
proof -
  have split: "[0..<48] = concat (map (\<lambda>i. [i, i + 1, i + 2, i + 3]) [0, 4, 8, 12, 16, 20, 24, 28, 32, 36, 40, 44])"
    by (simp add: upt_rec)
  have "fold (\<lambda>i r. md4Round x r i) [0..<48] r = fold (fourFrom x) [0, 4, 8, 12, 16, 20, 24, 28, 32, 36, 40, 44] r"
    unfolding split fold_concat_map fourFrom_def [abs_def] by (rule refl)
  then show ?thesis
    by (simp add: fourFrom_rfc rounds_rfc_def) (simp add: tableAt_def SHIFTS_def ORDER_def)
qed

section \<open>Words and padding\<close>

lemma bytes_as_sum:
  "ucast b0 OR push_bit 8 (ucast b1) OR push_bit 16 (ucast b2) OR push_bit 24 (ucast b3)
     = (of_nat (unat b0 + 2 ^ 8 * unat b1 + 2 ^ 16 * unat b2 + 2 ^ 24 * unat b3) :: 32 word)"
  for b0 b1 b2 b3 :: "8 word"
proof -
  let ?w = "\<lambda>b :: 8 word. ucast b :: 32 word"
  have "push_bit 16 (?w b2) OR push_bit 24 (?w b3) = push_bit 16 (?w b2) + push_bit 24 (?w b3)"
    by (rule disjunctive_add_eq_or [symmetric]) (auto simp: bit_eq_iff bit_simps dest: bit_imp_le_length)
  moreover have "push_bit 8 (?w b1) OR (push_bit 16 (?w b2) OR push_bit 24 (?w b3))
      = push_bit 8 (?w b1) + (push_bit 16 (?w b2) OR push_bit 24 (?w b3))"
    by (rule disjunctive_add_eq_or [symmetric]) (auto simp: bit_eq_iff bit_simps dest: bit_imp_le_length)
  moreover have "?w b0 OR (push_bit 8 (?w b1) OR (push_bit 16 (?w b2) OR push_bit 24 (?w b3)))
      = ?w b0 + (push_bit 8 (?w b1) OR (push_bit 16 (?w b2) OR push_bit 24 (?w b3)))"
    by (rule disjunctive_add_eq_or [symmetric]) (auto simp: bit_eq_iff bit_simps dest: bit_imp_le_length)
  ultimately show ?thesis
    by (simp add: push_bit_eq_mult algebra_simps)
qed

lemma getUint32LE_word:
  assumes "k < 16" and "offset + 64 \<le> length v"
  shows "getUint32LE v (offset + k * 4) = word_rfc (take 64 (drop offset v)) k"
  using assms by (simp add: getUint32LE_def word_rfc_def bytes_as_sum algebra_simps)

lemma four_cong:
  assumes "\<And>k. k < 16 \<Longrightarrow> X k = Y k" and "k1 < 16" and "k2 < 16" and "k3 < 16" and "k4 < 16"
  shows "four_rfc f t s X (k1, k2, k3, k4) r = four_rfc f t s Y (k1, k2, k3, k4) r"
  using assms by (simp add: four_rfc_def)

lemma rounds_cong:
  assumes "\<And>k. k < 16 \<Longrightarrow> X k = Y k"
  shows "rounds_rfc X r = rounds_rfc Y r"
  by (simp add: rounds_rfc_def four_cong [of X Y, OF assms])

lemma words_rfc:
  assumes "offset + 64 \<le> length v"
  shows "rounds_rfc (\<lambda>k. map (\<lambda>i. getUint32LE v (offset + i * 4)) [0..<16] ! k) r
    = rounds_rfc (word_rfc (take 64 (drop offset v))) r"
proof -
  have "map (\<lambda>i. getUint32LE v (offset + i * 4)) [0..<16] ! k = word_rfc (take 64 (drop offset v)) k" if "k < 16" for k
    using that by (simp add: getUint32LE_word [OF that assms])
  then show ?thesis by (rule rounds_cong)
qed

lemma pad_is_rfc: "padMd4 m = pad_rfc m" and pad_whole: "length (padMd4 m) mod 64 = 0"
proof -
  define size where "size = ((length m + 8) div 64 + 1) * 64"
  define k where "k = nat ((55 - int (length m)) mod 64)"
  have k: "size = length m + 1 + k + 8"
  proof -
    define q where "q = int ((length m + 8) div 64)"
    define t where "t = int ((length m + 8) mod 64)"
    have n: "int (length m) = 64 * q + t - 8" and t: "0 \<le> t" "t < 64"
      using div_mult_mod_eq [of "length m + 8" 64] unfolding q_def t_def by linarith+
    have "(55 - int (length m)) mod 64 = (63 - t + (- q) * 64) mod 64" unfolding n by (simp add: algebra_simps)
    also have "\<dots> = 63 - t" using t by (simp only: mod_mult_self1) simp
    finally have "int k = 63 - t" using t by (simp add: k_def)
    moreover have "int size = 64 * q + 64" by (simp add: size_def q_def)
    ultimately show ?thesis using n by linarith
  qed
  have len: "length (uint64LE n) = 8" for n by (simp add: uint64LE_def)
  have "(m @ drop (length m) (replicate size (0 :: 8 word)))[length m := 0x80] = m @ 0x80 # replicate (k + 8) 0"
    using replicate_Suc [of "k + 8" "0 :: 8 word"] by (simp add: list_update_append k)
  then have "padMd4 m = take (length m + 1 + k) (m @ 0x80 # replicate (k + 8) 0) @ uint64LE (int (length m) * 8)"
    using k unfolding padMd4_def Let_def size_def [symmetric] by simp
  then show "padMd4 m = pad_rfc m"
    by (simp add: pad_rfc_def k_def [symmetric] replicate_add algebra_simps)
  then have "length (padMd4 m) = size" unfolding k by (simp add: pad_rfc_def k_def [symmetric] len)
  then show "length (padMd4 m) mod 64 = 0" by (simp add: size_def)
qed

section \<open>Blocks\<close>

lemma block_is_rfc:
  assumes "offset + 64 \<le> length v"
  shows "md4Block v r offset =
    (case (rounds_rfc (word_rfc (take 64 (drop offset v))) r, r) of
       ((a, b, c, d), (aa, bb, cc, dd)) \<Rightarrow> (a + aa, b + bb, c + cc, d + dd))"
  using words_rfc [OF assms] by (simp add: md4Block_def Let_def rounds_are_rfc split: prod.splits)

lemma blocks_are_rfc:
  assumes "length v = 64 * (j + n)"
  shows "fold (\<lambda>k r. md4Block v r (64 * k)) [j..<j + n] r = blocks_rfc (drop (64 * j) v) r"
  using assms
proof (induction n arbitrary: j r)
  case 0
  then show ?case by (simp add: blocks_rfc.simps)
next
  case (Suc n)
  then have more: "drop (64 * j) v \<noteq> []" and at: "64 * j + 64 \<le> length v" by auto
  have "[j..<j + Suc n] = j # [Suc j..<Suc j + n]" by (simp add: upt_rec)
  then have "fold (\<lambda>k r. md4Block v r (64 * k)) [j..<j + Suc n] r
      = fold (\<lambda>k r. md4Block v r (64 * k)) [Suc j..<Suc j + n] (md4Block v r (64 * j))" by simp
  also have "\<dots> = blocks_rfc (drop (64 * Suc j) v) (md4Block v r (64 * j))"
    by (rule Suc.IH) (use Suc.prems in simp)
  also have "\<dots> = blocks_rfc (drop (64 * j) v) r"
    using more at by (subst (2) blocks_rfc.simps) (simp add: block_is_rfc add.commute split: prod.splits)
  finally show ?case .
qed

text \<open>
  C37. The loop over tables is MD4: for every message, \<open>md4\<close> gives the digest RFC 1320 prescribes (padding,
  word order, the three rounds on registers in place), and the NT hash of a password is 32 upper case
  hexadecimal digits of it.
\<close>

theorem md4_is_rfc_1320:
  "md4 message = md4_rfc message \<and> length (md4 message) = 16
   \<and> ntHash password = hexUpper (md4_rfc (utf16le password)) \<and> length (ntHash password) = 32"
proof -
  have md4: "md4 m = md4_rfc m" for m
  proof -
    have "length (padMd4 m) = 64 * (0 + length (padMd4 m) div 64)" using pad_whole [of m] by presburger
    from blocks_are_rfc [OF this] show ?thesis
      by (simp add: md4_def md4_rfc_def Let_def pad_is_rfc)
  qed
  have "length (md4 m) = 16" for m by (simp add: md4_def Let_def uint32LE_def split: prod.splits)
  moreover have "length (hexUpper v) = 2 * length v" for v by (induction v) (auto simp: hexUpper_def)
  ultimately show ?thesis by (simp add: ntHash_def md4 [symmetric])
qed

text \<open>The digest Samba stores for the password \<open>password\<close>.\<close>

lemma nt_hash_vector: "ntHash (unitsOf ''password'') = ''8846F7EAEE8FB117AD06BDD830B7586C''"
  by code_simp

end
