(* ===== verification/LocalTime.thy ===== *)
theory LocalTime
  imports Prelude "HOL-Library.Signed_Division"
begin

text \<open>
  \<open>nextRun\<close> of \<open>apps/api/src/system/backup-schedules.service.ts\<close> and the local time of the language it
  computes with. A \<open>Date\<close> is its milliseconds since 1970. A time zone is the offset of local time before its
  first transition, and the transitions with the offset after each, in milliseconds and in order. The setters
  of \<open>Date\<close> change local fields and go back to the instant (ECMAScript, \<open>LocalTime\<close> and \<open>UTC\<close>): a local time
  that occurs twice means the first, and one that is skipped is read with the offset before the gap.
\<close>

section \<open>Time zones\<close>

type_synonym zone = "int \<times> (int \<times> int) list"

fun offsetFrom :: "int \<Rightarrow> (int \<times> int) list \<Rightarrow> int \<Rightarrow> int" where
  "offsetFrom o1 [] t = o1"
| "offsetFrom o1 ((at, o2) # z) t = (if t < at then o1 else offsetFrom o2 z t)"

definition offsetAt :: "zone \<Rightarrow> int \<Rightarrow> int" where
  "offsetAt z t = offsetFrom (fst z) (snd z) t"

definition localTime :: "zone \<Rightarrow> int \<Rightarrow> int" where
  "localTime z t = t + offsetAt z t"

text \<open>The instants with a given local time; the offset that holds before a gap it falls in.\<close>

definition instants :: "zone \<Rightarrow> int \<Rightarrow> int list" where
  "instants z l = filter (\<lambda>t. localTime z t = l) (map (\<lambda>d. l - d) (fst z # map snd (snd z)))"

fun gapOffset :: "int \<Rightarrow> (int \<times> int) list \<Rightarrow> int \<Rightarrow> int" where
  "gapOffset o1 [] l = o1"
| "gapOffset o1 ((at, o2) # z) l = (if l < at + o2 then o1 else gapOffset o2 z l)"

definition utc :: "zone \<Rightarrow> int \<Rightarrow> int" where
  "utc z l = (case instants z l of [] \<Rightarrow> l - gapOffset (fst z) (snd z) l | t # ts \<Rightarrow> foldl min t ts)"

section \<open>Fields and setters of a date\<close>

abbreviation msPerMinute :: int where "msPerMinute \<equiv> 60000"
abbreviation msPerHour :: int where "msPerHour \<equiv> 3600000"
abbreviation msPerDay :: int where "msPerDay \<equiv> 86400000"

definition getDay :: "zone \<Rightarrow> int \<Rightarrow> int" where
  "getDay z t = (localTime z t div msPerDay + 4) mod 7"

definition makeTime :: "int \<Rightarrow> int \<Rightarrow> int \<Rightarrow> int \<Rightarrow> int" where
  "makeTime h m s ms = h * msPerHour + m * msPerMinute + s * 1000 + ms"

definition setSeconds :: "zone \<Rightarrow> int \<Rightarrow> int \<Rightarrow> int \<Rightarrow> int" where
  "setSeconds z t s ms = (let l = localTime z t in
     utc z (l div msPerDay * msPerDay + makeTime (l div msPerHour mod 24) (l div msPerMinute mod 60) s ms))"

definition setMinutes :: "zone \<Rightarrow> int \<Rightarrow> int \<Rightarrow> int" where
  "setMinutes z t m = (let l = localTime z t in
     utc z (l div msPerDay * msPerDay + makeTime (l div msPerHour mod 24) m (l div 1000 mod 60) (l mod 1000)))"

definition setHours :: "zone \<Rightarrow> int \<Rightarrow> int \<Rightarrow> int \<Rightarrow> int" where
  "setHours z t h m = (let l = localTime z t in
     utc z (l div msPerDay * msPerDay + makeTime h m (l div 1000 mod 60) (l mod 1000)))"

text \<open>\<open>at.setDate(at.getDate() + n)\<close>: \<open>MakeDay\<close> carries a day of the month past the end of its month over.\<close>

definition addDays :: "zone \<Rightarrow> int \<Rightarrow> int \<Rightarrow> int" where
  "addDays z t n = (let l = localTime z t in utc z ((l div msPerDay + n) * msPerDay + l mod msPerDay))"

section \<open>The next run\<close>

datatype Cadence = Hourly | Daily | Weekly

definition nextRun :: "zone \<Rightarrow> Cadence \<Rightarrow> int option \<Rightarrow> int \<Rightarrow> int option \<Rightarrow> int \<Rightarrow> int" where
  "nextRun z cadence atHour atMinute weekday start =
     (let t0 = setSeconds z start 0 0 in
      case cadence of
        Hourly \<Rightarrow>
          (let t1 = setMinutes z t0 atMinute in
           if t1 \<le> start then t1 + 60 * 60000 else t1)
      | Daily \<Rightarrow>
          (let t1 = setHours z t0 (case atHour of None \<Rightarrow> 0 | Some h \<Rightarrow> h) atMinute in
           if t1 \<le> start then addDays z t1 1 else t1)
      | Weekly \<Rightarrow>
          (let t1 = setHours z t0 (case atHour of None \<Rightarrow> 0 | Some h \<Rightarrow> h) atMinute;
               wanted = (case weekday of None \<Rightarrow> 0 | Some d \<Rightarrow> d);
               shift = (wanted - getDay z t1 + 7) smod 7;
               t2 = addDays z t1 shift
           in if t2 \<le> start then addDays z t2 7 else t2))"

end
