(* ===== verification/Schedules.thy ===== *)
theory Schedules
  imports LocalTime Totp
begin

text \<open>
  \<open>BackupSchedulesService\<close> (\<open>apps/api/src/system/backup-schedules.service.ts\<close>) and the job that runs it
  (\<open>apps/worker/src/handlers/backup-tick.handler.ts\<close>), with the table of migration 0032.

  The agent is the function \<open>be_call\<close>: a request and the state of the pool to an answer, or to an exception.
  What it was asked, and what it answered, is kept in \<open>bw_asked\<close>. A database transaction fails when
  \<open>bw_faults\<close> says so. Sentences a person reads (\<open>last_result\<close>, \<open>last_verify_result\<close>, the note of a dump) are
  data. \<open>localeCompare\<close> belongs to the platform and is the parameter \<open>be_collate\<close>.
\<close>

section \<open>Snapshot names\<close>

text \<open>The date of a day counted from the first of January 1970.\<close>

definition civilDate :: "int \<Rightarrow> int \<times> int \<times> int" where
  "civilDate days =
     (let z = days + 719468;
          era = z div 146097;
          doe = z mod 146097;
          yoe = (doe - doe div 1460 + doe div 36524 - doe div 146096) div 365;
          doy = doe - (365 * yoe + yoe div 4 - yoe div 100);
          mp = (5 * doy + 2) div 153;
          d = doy - (153 * mp + 2) div 5 + 1;
          m = (if mp < 10 then mp + 3 else mp - 9)
      in (yoe + era * 400 + (if m \<le> 2 then 1 else 0), m, d))"

definition twoDigits :: "int \<Rightarrow> string" where
  "twoDigits n = padStart 2 (CHR ''0'') (decimal (nat n))"

text \<open>\<open>toISOString()\<close> without hyphens, colons and milliseconds, of the years it writes with four digits.\<close>

definition isoStamp :: "int \<Rightarrow> string" where
  "isoStamp t =
     (case civilDate (t div msPerDay) of (y, m, d) \<Rightarrow>
        padStart 4 (CHR ''0'') (decimal (nat y)) @ twoDigits m @ twoDigits d @ ''T''
        @ twoDigits (t div msPerHour mod 24) @ twoDigits (t div msPerMinute mod 60) @ twoDigits (t div 1000 mod 60) @ ''Z'')"

definition cadenceName :: "Cadence \<Rightarrow> string" where
  "cadenceName c = (case c of Hourly \<Rightarrow> ''hourly'' | Daily \<Rightarrow> ''daily'' | Weekly \<Rightarrow> ''weekly'')"

definition prefixFor :: "Cadence \<Rightarrow> string" where
  "prefixFor cadence = ''depsis-'' @ cadenceName cadence @ ''-''"

definition snapshotNameFor :: "Cadence \<Rightarrow> int \<Rightarrow> string" where
  "snapshotNameFor cadence moment = prefixFor cadence @ isoStamp moment"

definition startsWith :: "string \<Rightarrow> string \<Rightarrow> bool" where
  "startsWith s p \<longleftrightarrow> take (length p) s = p"

section \<open>Pruning\<close>

record Snapshot =
  sn_name :: string
  sn_created :: int

text \<open>\<open>Array.prototype.sort\<close> is stable: an element goes before the first one it does not come after.\<close>

fun insertBy :: "('a \<Rightarrow> 'a \<Rightarrow> int) \<Rightarrow> 'a \<Rightarrow> 'a list \<Rightarrow> 'a list" where
  "insertBy cmp x [] = [x]"
| "insertBy cmp x (y # ys) = (if cmp x y \<le> 0 then x # y # ys else y # insertBy cmp x ys)"

definition sortBy :: "('a \<Rightarrow> 'a \<Rightarrow> int) \<Rightarrow> 'a list \<Rightarrow> 'a list" where
  "sortBy cmp xs = foldr (insertBy cmp) xs []"

type_synonym collation = "string \<Rightarrow> string \<Rightarrow> int"

definition newestFirstSnapshots :: "collation \<Rightarrow> Snapshot \<Rightarrow> Snapshot \<Rightarrow> int" where
  "newestFirstSnapshots collate a b =
     (let byTime = sn_created b - sn_created a in if byTime \<noteq> 0 then byTime else collate (sn_name b) (sn_name a))"

definition prunable :: "collation \<Rightarrow> Snapshot list \<Rightarrow> Cadence \<Rightarrow> nat \<Rightarrow> string list" where
  "prunable collate snapshots cadence keep =
     (let mine = filter (\<lambda>s. startsWith (sn_name s) (prefixFor cadence)) snapshots;
          ordered = sortBy (newestFirstSnapshots collate) mine
      in rev (map sn_name (drop keep ordered)))"

section \<open>The table\<close>

datatype RunResult = RanOk | RanFailed

datatype VerifyResult =
    PoolNotAsked
  | DatasetGone
  | NoSnapshots
  | NotAShare string
  | NotOpened string
  | OpenedEmpty string
  | Opened string nat
  | VerifyFailed

record Offsite =
  of_host :: string
  of_port :: nat
  of_user :: string

record ScheduleRow =
  sc_id :: id
  sc_org :: id
  sc_dataset :: string
  sc_label :: string
  sc_cadence :: Cadence
  sc_hour :: "int option"
  sc_minute :: int
  sc_weekday :: "int option"
  sc_keep :: nat
  sc_target :: "string option"
  sc_offsite :: "Offsite option"
  sc_enabled :: bool
  sc_next :: int
  sc_last :: "int option"
  sc_result :: "RunResult option"
  sc_base :: "string option"
  sc_verified :: "int option"
  sc_verify_result :: "VerifyResult option"

record ScheduleInput =
  si_dataset :: string
  si_label :: string
  si_cadence :: Cadence
  si_hour :: "int option"
  si_minute :: int
  si_weekday :: "int option"
  si_keep :: nat
  si_target :: "string option"
  si_offsite :: "Offsite option"
  si_enabled :: bool

text \<open>The checks of the table, and its unique index over the dataset and the cadence.\<close>

definition datasetFormat :: "string \<Rightarrow> bool" where
  "datasetFormat d \<longleftrightarrow> 1 \<le> length d \<and> length d \<le> 255
     \<and> list_all (\<lambda>c. c \<in> set ''ABCDEFGHIJKLMNOPQRSTUVWXYZabcdefghijklmnopqrstuvwxyz0123456789_.:/-'') d
     \<and> hd d \<notin> set ''_.:/-''"

definition scheduleAccepted :: "ScheduleRow list \<Rightarrow> ScheduleRow \<Rightarrow> bool" where
  "scheduleAccepted rows r \<longleftrightarrow>
     datasetFormat (sc_dataset r) \<and> 1 \<le> length (sc_label r) \<and> length (sc_label r) \<le> 80 \<and> 0 \<le> sc_minute r \<and> sc_minute r \<le> 59
     \<and> (case sc_hour r of None \<Rightarrow> sc_cadence r = Hourly | Some h \<Rightarrow> 0 \<le> h \<and> h \<le> 23 \<and> sc_cadence r \<noteq> Hourly)
     \<and> (case sc_weekday r of None \<Rightarrow> sc_cadence r \<noteq> Weekly | Some d \<Rightarrow> 0 \<le> d \<and> d \<le> 6 \<and> sc_cadence r = Weekly)
     \<and> 1 \<le> sc_keep r \<and> sc_keep r \<le> 10000
     \<and> (case sc_offsite r of None \<Rightarrow> True | Some p \<Rightarrow> 1 \<le> of_port p \<and> of_port p \<le> 65535 \<and> sc_target r = None)
     \<and> \<not> list_ex (\<lambda>q. sc_id q \<noteq> sc_id r \<and> sc_org q = sc_org r \<and> sc_dataset q = sc_dataset r \<and> sc_cadence q = sc_cadence r) rows"

datatype BackupJob =
    TickJob int
  | ReplicateJob string string string "string option" id
  | OffsiteJob string string Offsite "string option" id

section \<open>The agent and the world\<close>

datatype BackupRequest =
    ListSnapshots string
  | CreateSnapshot string string
  | DestroySnapshot string string
  | SnapshotEntries string string
  | ListDumps
  | DumpDatabase string nat
  | BackupIdentity string nat

datatype BackupAnswer =
    SnapshotList bool "Snapshot list"
  | SnapshotTaken
  | SnapshotDestroyed
  | EntryListing nat
  | DumpList "int list"
  | IdentityArchived nat nat
  | OtherAnswer string

datatype backup_error = DatabaseFault | AgentGone | UnexpectedAnswer | ConstraintViolation

record 'd backup_world =
  bw_rows :: "ScheduleRow list"
  bw_jobs :: "(id \<times> BackupJob) list"
  bw_shares :: "(id \<times> string \<times> string) list"
  bw_pool :: 'd
  bw_faults :: "bool list"
  bw_asked :: "(BackupRequest \<times> BackupAnswer option) list"

record 'd backup_env =
  be_call :: "BackupRequest \<Rightarrow> 'd \<Rightarrow> BackupAnswer option \<times> 'd"
  be_zone :: zone
  be_collate :: collation

type_synonym ('d, 'a) backup = "('d backup_world, backup_error, 'a) eff"

definition ask :: "'d backup_env \<Rightarrow> BackupRequest \<Rightarrow> ('d, BackupAnswer) backup" where
  "ask e req w =
     (case be_call e req (bw_pool w) of (answer, pool) \<Rightarrow>
        ((case answer of None \<Rightarrow> Inl AgentGone | Some a \<Rightarrow> Inr a),
         w\<lparr>bw_pool := pool, bw_asked := bw_asked w @ [(req, answer)]\<rparr>))"

text \<open>One transaction: it fails as a whole, or does what it does.\<close>

definition inTenant :: "('d backup_world \<Rightarrow> backup_error + 'a \<times> 'd backup_world) \<Rightarrow> ('d, 'a) backup" where
  "inTenant body w =
     (case bw_faults w of
        True # rest \<Rightarrow> (Inl DatabaseFault, w\<lparr>bw_faults := rest\<rparr>)
      | faults \<Rightarrow>
          (let w1 = w\<lparr>bw_faults := tl faults\<rparr>
           in case body w1 of Inl err \<Rightarrow> (Inl err, w1) | Inr (a, w2) \<Rightarrow> (Inr a, w2)))"

definition updateSchedules :: "(ScheduleRow \<Rightarrow> bool) \<Rightarrow> (ScheduleRow \<Rightarrow> ScheduleRow) \<Rightarrow> ScheduleRow list \<Rightarrow> ScheduleRow list" where
  "updateSchedules p f = map (\<lambda>r. if p r then f r else r)"

section \<open>Keeping schedules\<close>

text \<open>\<open>ON CONFLICT DO NOTHING\<close>: one tick of an organisation is queued at a time.\<close>

definition scheduleTick :: "id \<Rightarrow> int \<Rightarrow> ('d, unit) backup" where
  "scheduleTick org runAfter =
     inTenant (\<lambda>w. Inr ((),
       if list_ex (\<lambda>(o', j). o' = org \<and> (case j of TickJob t \<Rightarrow> True | _ \<Rightarrow> False)) (bw_jobs w) then w
       else w\<lparr>bw_jobs := bw_jobs w @ [(org, TickJob runAfter)]\<rparr>))"

definition recordReplicated :: "id \<Rightarrow> id \<Rightarrow> string option \<Rightarrow> ('d, unit) backup" where
  "recordReplicated org schedule snapshot =
     inTenant (\<lambda>w. Inr ((), w\<lparr>bw_rows :=
       updateSchedules (\<lambda>r. sc_org r = org \<and> sc_id r = schedule) (sc_base_update (\<lambda>_. snapshot)) (bw_rows w)\<rparr>))"

definition listSchedules :: "id \<Rightarrow> ('d, ScheduleRow list) backup" where
  "listSchedules org = inTenant (\<lambda>w. Inr (sort_key sc_label (filter (\<lambda>r. sc_org r = org) (bw_rows w)), w))"

definition withInput :: "zone \<Rightarrow> int \<Rightarrow> ScheduleInput \<Rightarrow> ScheduleRow \<Rightarrow> ScheduleRow" where
  "withInput z now inp r = r\<lparr>sc_dataset := si_dataset inp, sc_label := si_label inp, sc_cadence := si_cadence inp,
     sc_hour := si_hour inp, sc_minute := si_minute inp, sc_weekday := si_weekday inp, sc_keep := si_keep inp,
     sc_target := si_target inp, sc_offsite := si_offsite inp, sc_enabled := si_enabled inp,
     sc_next := nextRun z (si_cadence inp) (si_hour inp) (si_minute inp) (si_weekday inp) now\<rparr>"

definition createSchedule :: "'d backup_env \<Rightarrow> id \<Rightarrow> id \<Rightarrow> int \<Rightarrow> int \<Rightarrow> ScheduleInput \<Rightarrow> ('d, ScheduleRow) backup" where
  "createSchedule e org newId now tickAt inp =
     seqE (inTenant (\<lambda>w.
       let r = withInput (be_zone e) now inp
             \<lparr>sc_id = newId, sc_org = org, sc_dataset = [], sc_label = [], sc_cadence = Hourly, sc_hour = None,
              sc_minute = 0, sc_weekday = None, sc_keep = 0, sc_target = None, sc_offsite = None, sc_enabled = True,
              sc_next = 0, sc_last = None, sc_result = None, sc_base = None, sc_verified = None,
              sc_verify_result = None\<rparr>
       in if scheduleAccepted (bw_rows w) r then Inr (r, w\<lparr>bw_rows := bw_rows w @ [r]\<rparr>)
          else Inl ConstraintViolation)) (\<lambda>created.
     seqE (scheduleTick org tickAt) (\<lambda>_. ret created))"

definition updateSchedule :: "'d backup_env \<Rightarrow> id \<Rightarrow> id \<Rightarrow> int \<Rightarrow> ScheduleInput \<Rightarrow> ('d, ScheduleRow option) backup" where
  "updateSchedule e org schedule now inp =
     inTenant (\<lambda>w.
       let hit = (\<lambda>r. sc_org r = org \<and> sc_id r = schedule);
           rows = updateSchedules hit (withInput (be_zone e) now inp) (bw_rows w)
       in if list_all (scheduleAccepted rows) (filter hit rows)
          then Inr (List.find hit rows, w\<lparr>bw_rows := rows\<rparr>)
          else Inl ConstraintViolation)"

definition removeSchedule :: "id \<Rightarrow> id \<Rightarrow> ('d, bool) backup" where
  "removeSchedule org schedule =
     inTenant (\<lambda>w.
       let hit = (\<lambda>r. sc_org r = org \<and> sc_id r = schedule)
       in Inr (list_ex hit (bw_rows w), w\<lparr>bw_rows := filter (\<lambda>r. \<not> hit r) (bw_rows w)\<rparr>))"

section \<open>A round\<close>

definition enqueueReplication :: "id \<Rightarrow> ScheduleRow \<Rightarrow> string \<Rightarrow> ('d, unit) backup" where
  "enqueueReplication org schedule snapshot =
     (let add = (\<lambda>job. inTenant (\<lambda>w. Inr ((), w\<lparr>bw_jobs := bw_jobs w @ [(org, job)]\<rparr>))) in
      case sc_target schedule of
        Some target \<Rightarrow> add (ReplicateJob (sc_dataset schedule) snapshot target (sc_base schedule) (sc_id schedule))
      | None \<Rightarrow>
          (case sc_offsite schedule of
             Some place \<Rightarrow> add (OffsiteJob (sc_dataset schedule) snapshot place (sc_base schedule) (sc_id schedule))
           | None \<Rightarrow> ret ()))"

text \<open>An answer other than \<open>snapshot_destroyed\<close> is a line in the log; an exception ends the pruning.\<close>

fun destroyLoop :: "'d backup_env \<Rightarrow> string \<Rightarrow> string list \<Rightarrow> ('d, unit) backup" where
  "destroyLoop e dataset [] = ret ()"
| "destroyLoop e dataset (name # names) =
     seqE (ask e (DestroySnapshot dataset name)) (\<lambda>gone. destroyLoop e dataset names)"

definition prune :: "'d backup_env \<Rightarrow> ScheduleRow \<Rightarrow> ('d, unit) backup" where
  "prune e schedule =
     seqE (ask e (ListSnapshots (sc_dataset schedule))) (\<lambda>listed.
     case listed of
       SnapshotList missing snapshots \<Rightarrow>
         destroyLoop e (sc_dataset schedule) (prunable (be_collate e) snapshots (sc_cadence schedule) (sc_keep schedule))
     | _ \<Rightarrow> ret ())"

definition runOne :: "'d backup_env \<Rightarrow> id \<Rightarrow> int \<Rightarrow> ScheduleRow \<Rightarrow> ('d, unit) backup" where
  "runOne e org now schedule =
     (let name = snapshotNameFor (sc_cadence schedule) now in
      seqE (ask e (CreateSnapshot (sc_dataset schedule) name)) (\<lambda>created.
      if created \<noteq> SnapshotTaken then raise UnexpectedAnswer
      else seqE (enqueueReplication org schedule name) (\<lambda>_. prune e schedule)))"

definition advance :: "'d backup_env \<Rightarrow> id \<Rightarrow> int \<Rightarrow> ScheduleRow \<Rightarrow> RunResult \<Rightarrow> ('d, unit) backup" where
  "advance e org now schedule result =
     inTenant (\<lambda>w. Inr ((), w\<lparr>bw_rows :=
       updateSchedules (\<lambda>r. sc_org r = org \<and> sc_id r = sc_id schedule)
         (\<lambda>r. r\<lparr>sc_next := nextRun (be_zone e) (sc_cadence schedule) (sc_hour schedule) (sc_minute schedule)
                  (sc_weekday schedule) now,
                sc_last := Some now, sc_result := Some result\<rparr>) (bw_rows w)\<rparr>))"

definition dueSchedules :: "id \<Rightarrow> int \<Rightarrow> ScheduleRow list \<Rightarrow> ScheduleRow list" where
  "dueSchedules org now rows =
     take 50 (sort_key sc_next (filter (\<lambda>r. sc_org r = org \<and> sc_enabled r \<and> sc_next r \<le> now) rows))"

fun dueLoop :: "'d backup_env \<Rightarrow> id \<Rightarrow> int \<Rightarrow> ScheduleRow list \<Rightarrow> nat \<times> nat \<Rightarrow> ('d, nat \<times> nat) backup" where
  "dueLoop e org now [] (good, failed) = ret (good, failed)"
| "dueLoop e org now (schedule # rest) (good, failed) =
     seqE (catchE (seqE (runOne e org now schedule) (\<lambda>_. ret RanOk)) (\<lambda>_. ret RanFailed)) (\<lambda>result.
     seqE (advance e org now schedule result) (\<lambda>_.
     dueLoop e org now rest (if result = RanOk then (good + 1, failed) else (good, failed + 1))))"

definition runDue :: "'d backup_env \<Rightarrow> id \<Rightarrow> int \<Rightarrow> ('d, nat \<times> nat) backup" where
  "runDue e org now =
     seqE (inTenant (\<lambda>w. Inr (dueSchedules org now (bw_rows w), w))) (\<lambda>due.
     dueLoop e org now due (0, 0))"

section \<open>Verification and dumps\<close>

definition VERIFY_INTERVAL_MS :: int where
  "VERIFY_INTERVAL_MS = 24 * 60 * 60000"

definition DUMP_INTERVAL_MS :: int where
  "DUMP_INTERVAL_MS = 24 * 60 * 60000"

definition DUMP_KEEP :: nat where
  "DUMP_KEEP = 14"

definition TICK_INTERVAL_MS :: int where
  "TICK_INTERVAL_MS = 5 * 60000"

definition verify :: "'d backup_env \<Rightarrow> id \<Rightarrow> ScheduleRow \<Rightarrow> ('d, VerifyResult) backup" where
  "verify e org schedule =
     seqE (ask e (ListSnapshots (sc_dataset schedule))) (\<lambda>listed.
     case listed of
       SnapshotList missing snapshots \<Rightarrow>
         if missing then ret DatasetGone
         else (case sortBy (\<lambda>a b. sn_created b - sn_created a)
                     (filter (\<lambda>s. startsWith (sn_name s) (prefixFor (sc_cadence schedule))) snapshots) of
                 [] \<Rightarrow> ret NoSnapshots
               | newest # _ \<Rightarrow>
                   seqE (inTenant (\<lambda>w. Inr (List.find (\<lambda>(o', d, name). o' = org \<and> d = sc_dataset schedule) (bw_shares w), w))) (\<lambda>share.
                   case share of
                     None \<Rightarrow> ret (NotAShare (sn_name newest))
                   | Some (_, _, name) \<Rightarrow>
                       seqE (ask e (SnapshotEntries name (sn_name newest))) (\<lambda>entries.
                       case entries of
                         EntryListing n \<Rightarrow> ret (if n = 0 then OpenedEmpty (sn_name newest) else Opened (sn_name newest) n)
                       | _ \<Rightarrow> ret (NotOpened (sn_name newest)))))
     | _ \<Rightarrow> ret PoolNotAsked)"

text \<open>\<open>ORDER BY last_verified_at NULLS FIRST LIMIT 1\<close>.\<close>

definition staleSchedules :: "id \<Rightarrow> int \<Rightarrow> ScheduleRow list \<Rightarrow> ScheduleRow list" where
  "staleSchedules org stale rows =
     (let due = filter (\<lambda>r. sc_org r = org \<and> sc_enabled r \<and> (case sc_verified r of None \<Rightarrow> True | Some v \<Rightarrow> v < stale)) rows
      in take 1 (filter (\<lambda>r. sc_verified r = None) due
           @ sort_key (\<lambda>r. case sc_verified r of None \<Rightarrow> 0 | Some v \<Rightarrow> v) (filter (\<lambda>r. sc_verified r \<noteq> None) due)))"

definition verifyOne :: "'d backup_env \<Rightarrow> id \<Rightarrow> int \<Rightarrow> ('d, VerifyResult option) backup" where
  "verifyOne e org now =
     seqE (inTenant (\<lambda>w. Inr (staleSchedules org (now - VERIFY_INTERVAL_MS) (bw_rows w), w))) (\<lambda>rows.
     case rows of
       [] \<Rightarrow> ret None
     | schedule # _ \<Rightarrow>
         seqE (catchE (verify e org schedule) (\<lambda>_. ret VerifyFailed)) (\<lambda>result.
         seqE (inTenant (\<lambda>w. Inr ((), w\<lparr>bw_rows :=
                 updateSchedules (\<lambda>r. sc_org r = org \<and> sc_id r = sc_id schedule)
                   (\<lambda>r. r\<lparr>sc_verified := Some now, sc_verify_result := Some result\<rparr>) (bw_rows w)\<rparr>))) (\<lambda>_.
         ret (Some result))))"

datatype DumpNote = DumpRefused | DumpTaken string nat "(nat \<times> nat) option"

definition dumpDatabaseIfDue :: "'d backup_env \<Rightarrow> int \<Rightarrow> ('d, DumpNote option) backup" where
  "dumpDatabaseIfDue e now =
     seqE (ask e ListDumps) (\<lambda>listed.
     case listed of
       DumpList dumps \<Rightarrow>
         if (case dumps of [] \<Rightarrow> False | newest # _ \<Rightarrow> now - newest * 1000 < DUMP_INTERVAL_MS) then ret None
         else let name = ''depsis-'' @ isoStamp now in
              seqE (ask e (DumpDatabase name DUMP_KEEP)) (\<lambda>dumped.
              case dumped of
                DumpList kept \<Rightarrow>
                  seqE (ask e (BackupIdentity name DUMP_KEEP)) (\<lambda>identity.
                  ret (Some (DumpTaken name (length kept)
                    (case identity of IdentityArchived included unreadable \<Rightarrow> Some (included, unreadable) | _ \<Rightarrow> None))))
              | _ \<Rightarrow> ret (Some DumpRefused))
     | _ \<Rightarrow> ret None)"

text \<open>The job: its successor first. \<open>leased\<close> is what \<open>report\<close> answers, the four moments are its clock.\<close>

definition backupTick :: "'d backup_env \<Rightarrow> id \<Rightarrow> bool \<Rightarrow> int \<Rightarrow> int \<Rightarrow> int \<Rightarrow> int \<Rightarrow> ('d, unit) backup" where
  "backupTick e org leased t0 t1 t2 t3 =
     (if \<not> leased then ret ()
      else seqE (scheduleTick org (t0 + TICK_INTERVAL_MS)) (\<lambda>_.
           seqE (runDue e org t1) (\<lambda>_.
           seqE (verifyOne e org t2) (\<lambda>_.
           seqE (dumpDatabaseIfDue e t3) (\<lambda>_. ret ())))))"

end
