(* ===== verification/ScheduleProps.thy ===== *)
theory ScheduleProps
  imports LocalTime
begin

text \<open>
  \<open>nextRun\<close> gives the first moment after now whose local time is the schedule's, where the offset of local
  time does not change around it; and what it does in the hour the clock is set back, and after the day it is
  set forward.
\<close>

section \<open>Where the offset is steady\<close>

definition offsets :: "zone \<Rightarrow> int list" where
  "offsets z = fst z # map snd (snd z)"

definition steadyZone :: "zone \<Rightarrow> int \<Rightarrow> int \<Rightarrow> bool" where
  "steadyZone z start d \<longleftrightarrow> (\<forall>e \<in> set (offsets z). \<bar>e\<bar> < msPerDay)
     \<and> (\<forall>t. start - 3 * msPerDay \<le> t \<and> t \<le> start + 10 * msPerDay \<longrightarrow> offsetAt z t = d)"

lemma offsetFrom_mem: "offsetFrom o1 ts t \<in> set (o1 # map snd ts)"
  by (induction o1 ts t rule: offsetFrom.induct) auto

lemma steady_offset: "steadyZone z start d \<Longrightarrow> start - 3 * msPerDay \<le> t \<Longrightarrow> t \<le> start + 10 * msPerDay \<Longrightarrow> localTime z t = t + d"
  by (simp add: steadyZone_def localTime_def)

lemma steady_mem: "steadyZone z start d \<Longrightarrow> d \<in> set (offsets z)"
proof -
  assume z: "steadyZone z start d"
  then have "offsetAt z start = d" by (simp add: steadyZone_def)
  then show ?thesis using offsetFrom_mem [of "fst z" "snd z" start] by (simp add: offsetAt_def offsets_def)
qed

lemma foldl_min_const: "\<forall>y \<in> set ys. y = (x :: int) \<Longrightarrow> foldl min x ys = x"
  by (induction ys) auto

lemma steady_utc:
  assumes z: "steadyZone z start d" and t: "start - msPerDay \<le> t" "t \<le> start + 8 * msPerDay"
  shows "utc z (t + d) = t"
proof -
  have same: "x = t" if "x \<in> set (instants z (t + d))" for x
  proof -
    have "\<exists>e \<in> set (offsets z). x = t + d - e \<and> localTime z x = t + d"
      using that unfolding instants_def offsets_def [symmetric] by auto
    then obtain e where e: "e \<in> set (offsets z)" "x = t + d - e" and l: "localTime z x = t + d" by blast
    have "\<bar>d\<bar> < msPerDay" "\<bar>e\<bar> < msPerDay" using z e(1) steady_mem [OF z] by (auto simp: steadyZone_def)
    then have "localTime z x = x + d" using e(2) t by (intro steady_offset [OF z]) linarith+
    then show "x = t" using l by simp
  qed
  have "localTime z t = t + d" using t by (intro steady_offset [OF z]) linarith+
  then have "t \<in> set (instants z (t + d))"
    using imageI [OF steady_mem [OF z], of "\<lambda>e. t + d - e"] unfolding instants_def offsets_def [symmetric] by auto
  then obtain x ts where i: "instants z (t + d) = x # ts" by (cases "instants z (t + d)") simp_all
  have "x = t" "\<forall>y \<in> set ts. y = x" using same unfolding i by (metis list.set_intros)+
  then show ?thesis using i by (simp add: utc_def foldl_min_const)
qed

section \<open>The schedule's moments\<close>

definition hourOf :: "int option \<Rightarrow> int" where
  "hourOf h = (case h of None \<Rightarrow> 0 | Some h \<Rightarrow> h)"

definition runsAt :: "zone \<Rightarrow> Cadence \<Rightarrow> int option \<Rightarrow> int \<Rightarrow> int option \<Rightarrow> int \<Rightarrow> bool" where
  "runsAt z cadence atHour atMinute weekday t \<longleftrightarrow>
     localTime z t mod msPerMinute = 0 \<and> localTime z t div msPerMinute mod 60 = atMinute
     \<and> (cadence = Hourly \<or> localTime z t div msPerHour mod 24 = hourOf atHour)
     \<and> (cadence = Weekly \<longrightarrow> getDay z t = hourOf weekday)"

definition validTime :: "int option \<Rightarrow> int \<Rightarrow> int option \<Rightarrow> bool" where
  "validTime atHour atMinute weekday \<longleftrightarrow> 0 \<le> atMinute \<and> atMinute < 60
     \<and> 0 \<le> hourOf atHour \<and> hourOf atHour < 24 \<and> 0 \<le> hourOf weekday \<and> hourOf weekday < 7"

text \<open>They are the moments of one phase of a period.\<close>

lemma digits:
  fixes a b c q r :: int
  assumes "0 < b" "0 < c" "0 \<le> r" "r < b" "0 \<le> q" "q < c"
  shows "a mod b = r \<and> a div b mod c = q \<longleftrightarrow> a mod (b * c) = b * q + r"
proof -
  have a: "a mod (b * c) = b * (a div b mod c) + a mod b" using assms(2) by (simp add: zmod_zmult2_eq)
  have "(b * x + y) div b = x" "(b * x + y) mod b = y" if "0 \<le> y" "y < b" for x y :: int
    using that assms(1) by (simp_all add: div_pos_pos_trivial mod_pos_pos_trivial)
  from this [of r q] this [of "a mod b" "a div b mod c"] show ?thesis
    using assms a by (metis pos_mod_bound pos_mod_sign)
qed

definition period :: "Cadence \<Rightarrow> int" where
  "period cadence = (case cadence of Hourly \<Rightarrow> msPerHour | Daily \<Rightarrow> msPerDay | Weekly \<Rightarrow> 7 * msPerDay)"

definition phaseOf :: "Cadence \<Rightarrow> int option \<Rightarrow> int \<Rightarrow> int option \<Rightarrow> int" where
  "phaseOf cadence atHour atMinute weekday =
     (case cadence of Hourly \<Rightarrow> 0 | Daily \<Rightarrow> hourOf atHour * msPerHour
        | Weekly \<Rightarrow> hourOf weekday * msPerDay + hourOf atHour * msPerHour) + atMinute * msPerMinute"

text \<open>A week begins on Sunday, and the first of January 1970 was a Thursday.\<close>

definition weekOffset :: "Cadence \<Rightarrow> int" where
  "weekOffset cadence = (if cadence = Weekly then 4 * msPerDay else 0)"

lemma runsAt_phase:
  assumes "validTime atHour atMinute weekday"
  shows "runsAt z cadence atHour atMinute weekday t \<longleftrightarrow>
    (localTime z t + weekOffset cadence) mod period cadence = phaseOf cadence atHour atMinute weekday"
proof -
  let ?l = "localTime z t" and ?h = "hourOf atHour" and ?w = "hourOf weekday"
  have v: "0 \<le> atMinute" "atMinute < 60" "0 \<le> ?h" "?h < 24" "0 \<le> ?w" "?w < 7" using assms by (auto simp: validTime_def)
  have minute: "l mod 60000 = 0 \<and> l div 60000 mod 60 = atMinute \<longleftrightarrow> l mod 3600000 = 60000 * atMinute" for l :: int
    using digits [of 60000 60 0 atMinute l] v by simp
  have hour: "l mod 3600000 = 60000 * atMinute \<and> l div 3600000 mod 24 = ?h \<longleftrightarrow> l mod 86400000 = 3600000 * ?h + 60000 * atMinute" for l :: int
    using digits [of 3600000 24 "60000 * atMinute" ?h l] v by simp
  have week: "l mod 86400000 = 3600000 * ?h + 60000 * atMinute \<and> l div 86400000 mod 7 = ?w
      \<longleftrightarrow> l mod 604800000 = 86400000 * ?w + (3600000 * ?h + 60000 * atMinute)" for l :: int
    using digits [of 86400000 7 "3600000 * ?h + 60000 * atMinute" ?w l] v by simp
  have shift: "(l + 345600000) mod 86400000 = l mod 86400000" "(l + 345600000) div 86400000 = l div 86400000 + 4" for l :: int
    using mod_mult_self1 [of l 4 86400000] div_mult_self1 [of 86400000 l 4] by simp_all
  let ?m = "?l mod 60000 = 0 \<and> ?l div 60000 mod 60 = atMinute"
  note fields = runsAt_def getDay_def period_def phaseOf_def weekOffset_def
  show ?thesis
  proof (cases cadence)
    case Hourly
    then have "runsAt z cadence atHour atMinute weekday t \<longleftrightarrow> ?m" by (simp add: runsAt_def)
    then show ?thesis unfolding minute [of ?l] Hourly by (simp add: fields mult.commute)
  next
    case Daily
    then have "runsAt z cadence atHour atMinute weekday t \<longleftrightarrow> ?m \<and> ?l div 3600000 mod 24 = ?h" by (simp add: runsAt_def)
    then show ?thesis unfolding minute [of ?l] hour [of ?l] Daily by (simp add: fields mult.commute)
  next
    case Weekly
    then have "runsAt z cadence atHour atMinute weekday t \<longleftrightarrow> (?m \<and> ?l div 3600000 mod 24 = ?h) \<and> (?l div 86400000 + 4) mod 7 = ?w"
      by (simp add: runsAt_def getDay_def)
    then show ?thesis using week [of "?l + 345600000"] unfolding minute [of ?l] hour [of ?l] shift Weekly
      by (simp add: fields mult.commute add.assoc)
  qed
qed

text \<open>Less than a period after one such moment there is no other.\<close>

lemma none_between:
  fixes a b p :: int
  assumes "a mod p = b mod p" and "a < b" and "b < a + p"
  shows False
proof -
  have "(b - a) mod p = 0" using assms(1) by (metis mod_eq_dvd_iff dvd_imp_mod_0)
  moreover have "(b - a) mod p = b - a" using assms(2,3) by (simp add: mod_pos_pos_trivial)
  ultimately show False using assms(2) by simp
qed

lemma first_moment:
  assumes z: "steadyZone z start d" and v: "validTime atHour atMinute weekday"
    and r: "start < r" "r \<le> start + period cadence" "runsAt z cadence atHour atMinute weekday r"
    and t: "start < t" "t < r"
  shows "\<not> runsAt z cadence atHour atMinute weekday t"
proof
  assume t': "runsAt z cadence atHour atMinute weekday t"
  have p: "period cadence \<le> 7 * msPerDay" by (cases cadence) (simp_all add: period_def)
  have l: "localTime z t = t + d" "localTime z r = r + d"
    using r(1,2) t p by (auto intro!: steady_offset [OF z])
  have "(t + d + weekOffset cadence) mod period cadence = (r + d + weekOffset cadence) mod period cadence"
    using t' r(3) unfolding runsAt_phase [OF v] l by simp
  then show False by (rule none_between) (use r t in linarith)+
qed

section \<open>The setters there\<close>

lemma floor_floor:
  fixes b c l :: int
  assumes "0 < c"
  shows "(l - l mod b) div (b * c) * (b * c) = l div (b * c) * (b * c)"
proof (cases "b = 0")
  case False
  have "(l - l mod b) div (b * c) = (b * (l div b)) div b div c" using assms by (simp add: minus_mod_eq_mult_div zdiv_zmult2_eq)
  also have "\<dots> = l div (b * c)" using False assms by (simp add: zdiv_zmult2_eq)
  finally show ?thesis by simp
qed simp

lemma day_fields:
  fixes l :: int
  shows "l div msPerDay * msPerDay + l div msPerHour mod 24 * msPerHour = l div msPerHour * msPerHour"
    and "l div msPerHour * msPerHour + l div msPerMinute mod 60 * msPerMinute = l - l mod msPerMinute"
proof -
  have h: "l mod (3600000 * 24) = 3600000 * (l div 3600000 mod 24) + l mod (3600000 :: int)" by (rule zmod_zmult2_eq) simp
  have m: "l mod (60000 * 60) = 60000 * (l div 60000 mod 60) + l mod (60000 :: int)" by (rule zmod_zmult2_eq) simp
  show "l div msPerDay * msPerDay + l div msPerHour mod 24 * msPerHour = l div msPerHour * msPerHour"
    using h [simplified] div_mult_mod_eq [of l msPerDay] div_mult_mod_eq [of l msPerHour] by linarith
  show "l div msPerHour * msPerHour + l div msPerMinute mod 60 * msPerMinute = l - l mod msPerMinute"
    using m [simplified] div_mult_mod_eq [of l msPerHour] by linarith
qed

lemma whole_minute:
  fixes l :: int
  shows "(l - l mod msPerMinute) div 1000 mod 60 = 0" "(l - l mod msPerMinute) mod 1000 = 0"
proof -
  have "l - l mod 60000 = 1000 * (60 * (l div 60000))" by (simp add: minus_mod_eq_mult_div)
  then show "(l - l mod msPerMinute) div 1000 mod 60 = 0" "(l - l mod msPerMinute) mod 1000 = 0" by simp_all
qed

lemma start_minute:
  assumes z: "steadyZone z start d"
  shows "setSeconds z start 0 0 = start - (start + d) mod msPerMinute"
proof -
  let ?l = "start + d"
  have "localTime z start = ?l" by (intro steady_offset [OF z]) simp_all
  then have "setSeconds z start 0 0 = utc z (?l - ?l mod msPerMinute)"
    using day_fields [of ?l] by (simp add: setSeconds_def Let_def makeTime_def add.assoc [symmetric])
  also have "?l - ?l mod msPerMinute = start - ?l mod msPerMinute + d" by simp
  also have "utc z \<dots> = start - ?l mod msPerMinute"
  proof (rule steady_utc [OF z])
    have "0 \<le> ?l mod msPerMinute" "?l mod msPerMinute < msPerMinute" by simp_all
    then show "start - msPerDay \<le> start - ?l mod msPerMinute" "start - ?l mod msPerMinute \<le> start + 8 * msPerDay" by linarith+
  qed
  finally show ?thesis .
qed

lemma steady_addDays:
  assumes z: "steadyZone z start d" and "start - msPerDay \<le> t" "t \<le> start + 8 * msPerDay"
    and "start - msPerDay \<le> t + n * msPerDay" "t + n * msPerDay \<le> start + 8 * msPerDay"
  shows "addDays z t n = t + n * msPerDay"
proof -
  have "localTime z t = t + d" using assms(2,3) by (intro steady_offset [OF z]) linarith+
  then have "addDays z t n = utc z (t + n * msPerDay + d)"
    using div_mult_mod_eq [of "t + d" msPerDay] by (simp add: addDays_def Let_def distrib_right algebra_simps)
  then show ?thesis using steady_utc [OF z assms(4,5)] by simp
qed

lemma steady_setMinutes:
  assumes z: "steadyZone z start d" and "0 \<le> m" "m < 60"
  shows "setMinutes z (start - (start + d) mod msPerMinute) m = (start + d) div msPerHour * msPerHour + m * msPerMinute - d"
proof -
  let ?l = "start + d" and ?t = "start - (start + d) mod msPerMinute"
  have s: "0 \<le> ?l mod msPerMinute" "?l mod msPerMinute < msPerMinute" "0 \<le> ?l mod msPerHour" "?l mod msPerHour < msPerHour" by simp_all
  have "localTime z ?t = ?l - ?l mod msPerMinute" using s by (subst steady_offset [OF z]) linarith+
  moreover have "(?l - ?l mod msPerMinute) div msPerHour * msPerHour = ?l div msPerHour * msPerHour"
    using floor_floor [of 60 ?l msPerMinute] by simp
  ultimately have "setMinutes z ?t m = utc z (?l div msPerHour * msPerHour + m * msPerMinute)"
    using day_fields(1) [of "?l - ?l mod msPerMinute"] whole_minute [of ?l]
    by (simp add: setMinutes_def Let_def makeTime_def add.assoc [symmetric])
  also have "?l div msPerHour * msPerHour + m * msPerMinute = ?l div msPerHour * msPerHour + m * msPerMinute - d + d" by simp
  also have "utc z \<dots> = ?l div msPerHour * msPerHour + m * msPerMinute - d"
    using s assms(2,3) div_mult_mod_eq [of ?l msPerHour] by (intro steady_utc [OF z]) linarith+
  finally show ?thesis .
qed

lemma steady_setHours:
  assumes z: "steadyZone z start d" and "0 \<le> m" "m < 60" "0 \<le> h" "h < 24"
  shows "setHours z (start - (start + d) mod msPerMinute) h m =
    (start + d) div msPerDay * msPerDay + h * msPerHour + m * msPerMinute - d"
proof -
  let ?l = "start + d" and ?t = "start - (start + d) mod msPerMinute"
  have s: "0 \<le> ?l mod msPerMinute" "?l mod msPerMinute < msPerMinute" "0 \<le> ?l mod msPerDay" "?l mod msPerDay < msPerDay" by simp_all
  have "localTime z ?t = ?l - ?l mod msPerMinute" using s by (subst steady_offset [OF z]) linarith+
  moreover have "(?l - ?l mod msPerMinute) div msPerDay * msPerDay = ?l div msPerDay * msPerDay"
    using floor_floor [of 1440 ?l msPerMinute] by simp
  ultimately have "setHours z ?t h m = utc z (?l div msPerDay * msPerDay + h * msPerHour + m * msPerMinute)"
    using whole_minute [of ?l] by (simp add: setHours_def Let_def makeTime_def add.assoc [symmetric])
  also have "?l div msPerDay * msPerDay + h * msPerHour + m * msPerMinute
      = ?l div msPerDay * msPerDay + h * msPerHour + m * msPerMinute - d + d" by simp
  also have "utc z \<dots> = ?l div msPerDay * msPerDay + h * msPerHour + m * msPerMinute - d"
    using s assms(2-5) div_mult_mod_eq [of ?l msPerDay] by (intro steady_utc [OF z]) linarith+
  finally show ?thesis .
qed

section \<open>The next run\<close>

lemma smod_weekday: "0 \<le> w \<Longrightarrow> w < 7 \<Longrightarrow> 0 \<le> g \<Longrightarrow> g < 7 \<Longrightarrow> (w - g + 7) smod 7 = (w - g + 7) mod (7 :: int)"
  by (simp add: signed_modulo_int_def)

lemma local_phase:
  assumes z: "steadyZone z start d" and v: "validTime atHour atMinute weekday"
    and r: "start - msPerDay \<le> r" "r \<le> start + 8 * msPerDay"
    and l: "r + d + weekOffset cadence = q * period cadence + phaseOf cadence atHour atMinute weekday"
  shows "runsAt z cadence atHour atMinute weekday r"
proof -
  have "localTime z r = r + d" using r by (intro steady_offset [OF z]) linarith+
  moreover have "0 \<le> phaseOf cadence atHour atMinute weekday" "phaseOf cadence atHour atMinute weekday < period cadence"
    using v by (auto simp: validTime_def phaseOf_def period_def split: Cadence.splits)
  ultimately show ?thesis using l unfolding runsAt_phase [OF v] by (simp add: mod_pos_pos_trivial)
qed

lemma next_of_phase:
  assumes z: "steadyZone z start d" and v: "validTime atHour atMinute weekday"
    and t: "t + d + weekOffset cadence = q * period cadence + phaseOf cadence atHour atMinute weekday"
    and near: "t \<le> start + period cadence" "start < t + period cadence"
    and r: "r = (if t \<le> start then t + period cadence else t)"
  shows "start < r \<and> r \<le> start + period cadence \<and> runsAt z cadence atHour atMinute weekday r"
proof -
  have p: "0 < period cadence" "period cadence \<le> 7 * msPerDay" by (cases cadence; simp add: period_def)+
  have "runsAt z cadence atHour atMinute weekday r"
  proof (cases "t \<le> start")
    case True
    then have "r = t + period cadence" using r by simp
    moreover from this have "r + d + weekOffset cadence = (q + 1) * period cadence + phaseOf cadence atHour atMinute weekday"
      using t by (simp only: distrib_right mult_1)
    ultimately show ?thesis using near p True by (intro local_phase [OF z v, of r cadence "q + 1"]) linarith+
  next
    case False
    then have "r = t" using r by simp
    then show ?thesis using t near p False by (intro local_phase [OF z v, of r cadence q]) linarith+
  qed
  then show ?thesis using near r p by (auto split: if_splits)
qed

lemma nextRun_Weekly:
  "nextRun z Weekly atHour atMinute weekday start =
     (let t1 = setHours z (setSeconds z start 0 0) (hourOf atHour) atMinute;
          t2 = addDays z t1 ((hourOf weekday - getDay z t1 + 7) smod 7)
      in if t2 \<le> start then addDays z t2 7 else t2)"
  by (simp add: nextRun_def Let_def hourOf_def)

text \<open>The day of the week reached by the shift.\<close>

lemma weekday_shift:
  fixes k w :: int
  assumes "0 \<le> w" "w < 7"
  defines "s \<equiv> (w - (k + 4) mod 7 + 7) smod 7"
  shows "0 \<le> s \<and> s < 7 \<and> (\<exists>q. k + 4 + s = 7 * q + w)"
proof -
  have g: "0 \<le> (k + 4) mod 7" "(k + 4) mod 7 < 7" by simp_all
  have s: "s = (w - (k + 4) mod 7 + 7) mod 7" unfolding s_def using assms(1,2) g by (rule smod_weekday)
  have "(k + 4 + s) mod 7 = (k + 4 + (w - (k + 4) mod 7 + 7)) mod 7" unfolding s by (rule mod_add_right_eq)
  also have "k + 4 + (w - (k + 4) mod 7 + 7) = w + 7 * ((k + 4) div 7 + 1)"
    using minus_mod_eq_mult_div [of "k + 4" 7] by (simp add: distrib_left)
  also have "\<dots> mod 7 = w" using assms(1,2) by (simp only: mod_mult_self2 mod_pos_pos_trivial)
  finally have "k + 4 + s = 7 * ((k + 4 + s) div 7) + w" using mult_div_mod_eq [of 7 "k + 4 + s"] by simp
  then show ?thesis unfolding s by auto
qed

lemma nextRun_moment:
  assumes z: "steadyZone z start d" and v: "validTime atHour atMinute weekday"
  shows "start < nextRun z cadence atHour atMinute weekday start
    \<and> nextRun z cadence atHour atMinute weekday start \<le> start + period cadence
    \<and> runsAt z cadence atHour atMinute weekday (nextRun z cadence atHour atMinute weekday start)"
proof -
  let ?h = "hourOf atHour" and ?w = "hourOf weekday"
  define n k where "n = (start + d) div msPerHour" and "k = (start + d) div msPerDay"
  have m: "0 \<le> atMinute" "atMinute < 60" "0 \<le> ?h" "?h < 24" "0 \<le> ?w" "?w < 7" using v by (auto simp: validTime_def)
  obtain a b where n: "start + d = n * msPerHour + a" "0 \<le> a" "a < msPerHour" and k: "start + d = k * msPerDay + b" "0 \<le> b" "b < msPerDay"
    unfolding n_def k_def by (metis div_mult_mod_eq pos_mod_bound pos_mod_sign zero_less_numeral)
  show ?thesis
  proof (cases cadence)
    case Hourly
    let ?t = "n * msPerHour + atMinute * msPerMinute - d"
    show ?thesis
    proof (rule next_of_phase [OF z v, of ?t cadence n])
      show "nextRun z cadence atHour atMinute weekday start = (if ?t \<le> start then ?t + period cadence else ?t)"
        using steady_setMinutes [OF z m(1,2)] by (simp add: nextRun_def Let_def Hourly start_minute [OF z] n_def period_def)
    qed (use m n in \<open>simp_all add: Hourly weekOffset_def period_def phaseOf_def\<close>)
  next
    case Daily
    let ?t = "k * msPerDay + ?h * msPerHour + atMinute * msPerMinute - d"
    have "addDays z ?t 1 = ?t + msPerDay" if "?t \<le> start" using steady_addDays [OF z, of ?t 1] m k that by simp
    show ?thesis
    proof (rule next_of_phase [OF z v, of ?t cadence k])
      show "nextRun z cadence atHour atMinute weekday start = (if ?t \<le> start then ?t + period cadence else ?t)"
        using steady_setHours [OF z m(1-4)] \<open>?t \<le> start \<Longrightarrow> _\<close>
        by (simp add: nextRun_def Let_def Daily start_minute [OF z] k_def period_def hourOf_def)
    qed (use m k in \<open>simp_all add: Daily weekOffset_def period_def phaseOf_def\<close>)
  next
    case Weekly
    let ?t = "k * msPerDay + ?h * msPerHour + atMinute * msPerMinute - d" and ?s = "(?w - (k + 4) mod 7 + 7) smod 7"
    obtain q where s: "0 \<le> ?s" "?s < 7" and q: "k + 4 + ?s = 7 * q + ?w" using weekday_shift [OF m(5,6), of k] by blast
    let ?t2 = "?t + ?s * msPerDay"
    have "localTime z ?t = k * msPerDay + (?h * msPerHour + atMinute * msPerMinute)"
      using m k by (subst steady_offset [OF z]) linarith+
    moreover have "(k * msPerDay + c) div msPerDay = k" if "0 \<le> c" "c < msPerDay" for c
      using that by (simp add: div_pos_pos_trivial)
    ultimately have day: "getDay z ?t = (k + 4) mod 7" using m by (simp add: getDay_def)
    have week: "addDays z ?t ?s = ?t2" using m k s by (intro steady_addDays [OF z]) linarith+
    have more: "addDays z ?t2 7 = ?t2 + 7 * msPerDay" if "?t2 \<le> start"
      using m k s that by (intro steady_addDays [OF z]) linarith+
    show ?thesis
    proof (rule next_of_phase [OF z v, of ?t2 cadence q])
      have "setHours z (setSeconds z start 0 0) ?h atMinute = ?t"
        unfolding start_minute [OF z] k_def by (rule steady_setHours [OF z m(1-4)])
      then have "nextRun z cadence atHour atMinute weekday start = (if ?t2 \<le> start then addDays z ?t2 7 else ?t2)"
        unfolding Weekly nextRun_Weekly Let_def by (simp only: day week)
      moreover have "period cadence = 7 * msPerDay" by (simp only: Weekly period_def Cadence.case)
      ultimately show "nextRun z cadence atHour atMinute weekday start = (if ?t2 \<le> start then ?t2 + period cadence else ?t2)"
        using more by (simp only: split: if_split) blast
      have "?t2 + d + 4 * msPerDay = (7 * q + ?w) * msPerDay + (?h * msPerHour + atMinute * msPerMinute)"
        unfolding q [symmetric] by (simp add: algebra_simps)
      then show "?t2 + d + weekOffset cadence = q * period cadence + phaseOf cadence atHour atMinute weekday"
        by (simp add: Weekly weekOffset_def period_def phaseOf_def algebra_simps)
      show "?t2 \<le> start + period cadence" "start < ?t2 + period cadence"
        using m k s unfolding Weekly period_def by simp_all
    qed
  qed
qed

text \<open>
  C3. When a schedule runs next. Where the offset of local time does not change from three days before to ten
  days after, \<open>nextRun\<close> gives a moment strictly after now whose local minute, hour and day are the schedule's,
  with no seconds, and it is the first such moment.
\<close>

theorem nextRun_is_the_first_moment:
  assumes "steadyZone z start d" and "validTime atHour atMinute weekday"
  shows "start < nextRun z cadence atHour atMinute weekday start
    \<and> runsAt z cadence atHour atMinute weekday (nextRun z cadence atHour atMinute weekday start)
    \<and> (\<forall>t. start < t \<and> runsAt z cadence atHour atMinute weekday t \<longrightarrow> nextRun z cadence atHour atMinute weekday start \<le> t)"
  using nextRun_moment [OF assms, of cadence] first_moment [OF assms, of _ cadence] by (metis not_le)

text \<open>Sunday at half past two, asked on a Thursday evening two hours east.\<close>

theorem nextRun_is_the_first_moment_witness:
  "nextRun (7200000, []) Weekly (Some 2) 30 (Some 0) 72000000 = 261000000
   \<and> runsAt (7200000, []) Weekly (Some 2) 30 (Some 0) 261000000"
proof -
  have "steadyZone (7200000, []) 72000000 7200000" and "validTime (Some 2) 30 (Some 0)"
    by (simp_all add: steadyZone_def offsets_def offsetAt_def validTime_def hourOf_def)
  from nextRun_is_the_first_moment [OF this, of Weekly]
  have "runsAt (7200000, []) Weekly (Some 2) 30 (Some 0) (nextRun (7200000, []) Weekly (Some 2) 30 (Some 0) 72000000)" by blast
  moreover have "nextRun (7200000, []) Weekly (Some 2) 30 (Some 0) 72000000 = 261000000"
    by (simp add: nextRun_def setSeconds_def setHours_def addDays_def getDay_def makeTime_def localTime_def offsetAt_def
        utc_def instants_def signed_modulo_int_def)
  ultimately show ?thesis by simp
qed

section \<open>Where it changes\<close>

text \<open>A zone two hours east that goes back to one hour at one o'clock of day ten: local time from two to three
  comes twice. In the second pass an hourly schedule gets a next run in the first, so it is due at once, again
  and again.\<close>

lemma hourly_run_in_the_past:
  "nextRun (7200000, [(867600000, 3600000)]) Hourly None 5 None 868200000 = 867900000"
  by (simp add: nextRun_def setSeconds_def setMinutes_def makeTime_def localTime_def offsetAt_def utc_def instants_def)

text \<open>A zone one hour east that goes forward at two in the morning of day ten. A daily schedule of half past
  two runs at half past three that day; asked then, \<open>nextRun\<close> says half past three of the next day too.\<close>

lemma daily_run_an_hour_late:
  "nextRun (3600000, [(867600000, 7200000)]) Daily (Some 2) 30 None 869460000 = 869400000 + msPerDay"
  "localTime (3600000, [(867600000, 7200000)]) (869400000 + msPerDay) mod msPerDay = 3 * msPerHour + 30 * msPerMinute"
  by (simp_all add: nextRun_def setSeconds_def setHours_def addDays_def makeTime_def localTime_def offsetAt_def utc_def
      instants_def)

end
