(* ===== verification/RoundProps.thy ===== *)
theory RoundProps
  imports Schedules ScheduleProps "HOL-Library.Multiset"
begin

text \<open>
  A round of the scheduled backups, against an agent that answers anything and transactions that fail at any
  point: which snapshots it asks to destroy, and what it leaves of the schedules that were due.
\<close>

section \<open>Which snapshots are pruned\<close>

lemma mset_insertBy: "mset (insertBy cmp x xs) = add_mset x (mset xs)"
  by (induction xs) auto

lemma mset_sortBy [simp]: "mset (sortBy cmp xs) = mset xs"
  by (induction xs) (auto simp: sortBy_def mset_insertBy)

lemma newest_insertBy:
  "sorted_wrt (\<lambda>a b. sn_created b \<le> sn_created a) xs \<Longrightarrow>
     sorted_wrt (\<lambda>a b. sn_created b \<le> sn_created a) (insertBy (newestFirstSnapshots collate) x xs)"
proof (induction xs)
  case (Cons y ys)
  show ?case
  proof (cases "newestFirstSnapshots collate x y \<le> 0")
    case True
    then have "sn_created y \<le> sn_created x" by (auto simp: newestFirstSnapshots_def Let_def split: if_splits)
    then show ?thesis using Cons.prems True by fastforce
  next
    case False
    then have "sn_created x \<le> sn_created y" by (auto simp: newestFirstSnapshots_def Let_def split: if_splits)
    moreover have "set (insertBy (newestFirstSnapshots collate) x ys) = insert x (set ys)"
      using mset_insertBy [of _ x ys] by (metis set_mset_add_mset_insert set_mset_mset)
    ultimately show ?thesis using Cons False by simp
  qed
qed simp

lemma newest_sortBy: "sorted_wrt (\<lambda>a b. sn_created b \<le> sn_created a) (sortBy (newestFirstSnapshots collate) xs)"
  by (induction xs) (simp_all add: sortBy_def newest_insertBy)

text \<open>\<open>spared\<close>: of the snapshots \<open>mine\<close>, \<open>names\<close> are all but \<open>keep\<close>, oldest first, and none is newer than one
  that stays.\<close>

definition spared :: "nat \<Rightarrow> Snapshot list \<Rightarrow> string list \<Rightarrow> bool" where
  "spared keep mine names \<longleftrightarrow> (\<exists>kept pruned. mset kept + mset pruned = mset mine
     \<and> length kept = min keep (length mine) \<and> names = map sn_name pruned
     \<and> sorted_wrt (\<lambda>a b. sn_created a \<le> sn_created b) pruned
     \<and> (\<forall>a \<in> set kept. \<forall>b \<in> set pruned. sn_created b \<le> sn_created a))"

lemma spared_drop:
  assumes sorted: "sorted_wrt (\<lambda>a b. sn_created b \<le> sn_created a) ordered" and mset: "mset ordered = mset mine"
  shows "spared keep mine (rev (map sn_name (drop keep ordered)))"
  unfolding spared_def
proof (rule exI [of _ "take keep ordered"], rule exI [of _ "rev (drop keep ordered)"], intro conjI)
  have halves: "sorted_wrt (\<lambda>a b. sn_created b \<le> sn_created a) (take keep ordered @ drop keep ordered)" using sorted by simp
  then show "sorted_wrt (\<lambda>a b. sn_created a \<le> sn_created b) (rev (drop keep ordered))"
    by (simp add: sorted_wrt_append sorted_wrt_rev)
  show "\<forall>a \<in> set (take keep ordered). \<forall>b \<in> set (rev (drop keep ordered)). sn_created b \<le> sn_created a"
    using halves unfolding sorted_wrt_append set_rev by blast
  show "mset (take keep ordered) + mset (rev (drop keep ordered)) = mset mine"
    using mset by (metis append_take_drop_id mset_append mset_rev)
  show "length (take keep ordered) = min keep (length mine)" using mset_eq_length [OF mset] by simp
qed (simp add: rev_map)

lemma prunable_spared:
  "spared keep (filter (\<lambda>s. startsWith (sn_name s) (prefixFor cadence)) snapshots) (prunable collate snapshots cadence keep)"
  unfolding prunable_def Let_def by (rule spared_drop [OF newest_sortBy mset_sortBy])

section \<open>What a round asks\<close>

definition mayAsk :: "collation \<Rightarrow> ScheduleRow set \<Rightarrow> (BackupRequest \<times> BackupAnswer option) list \<Rightarrow> BackupRequest \<Rightarrow> bool" where
  "mayAsk collate S seen req \<longleftrightarrow> (\<forall>dataset name. req = DestroySnapshot dataset name \<longrightarrow>
     (\<exists>s \<in> S. \<exists>missing xs. dataset = sc_dataset s \<and> (ListSnapshots dataset, Some (SnapshotList missing xs)) \<in> set seen
        \<and> name \<in> set (prunable collate xs (sc_cadence s) (sc_keep s))))"

fun okLog :: "collation \<Rightarrow> ScheduleRow set \<Rightarrow> (BackupRequest \<times> BackupAnswer option) list \<Rightarrow> (BackupRequest \<times> BackupAnswer option) list \<Rightarrow> bool" where
  "okLog collate S seen [] = True"
| "okLog collate S seen (x # l) = (mayAsk collate S seen (fst x) \<and> okLog collate S (seen @ [x]) l)"

lemma okLog_append: "okLog c S seen (a @ b) \<longleftrightarrow> okLog c S seen a \<and> okLog c S (seen @ a) b"
  by (induction a arbitrary: seen) auto

lemma okLog_mono: "okLog c S seen l \<Longrightarrow> set seen \<subseteq> set seen' \<Longrightarrow> S \<subseteq> S' \<Longrightarrow> okLog c S' seen' l"
proof (induction l arbitrary: seen seen')
  case (Cons x l)
  then have "okLog c S' (seen' @ [x]) l" using Cons.IH [of "seen @ [x]" "seen' @ [x]"] by auto
  moreover have "mayAsk c S' seen' (fst x)" using Cons.prems unfolding okLog.simps mayAsk_def by blast
  ultimately show ?case by simp
qed simp

definition pruning :: "collation \<Rightarrow> ScheduleRow set \<Rightarrow> (BackupRequest \<times> BackupAnswer option) list \<Rightarrow> ('d, 'a) backup \<Rightarrow> bool" where
  "pruning c S seen m \<longleftrightarrow> (\<forall>w. \<exists>new. bw_asked (snd (m w)) = bw_asked w @ new \<and> okLog c S seen new)"

named_theorems pruning_rules

lemma pruning_mono: "pruning c S seen m \<Longrightarrow> set seen \<subseteq> set seen' \<Longrightarrow> S \<subseteq> S' \<Longrightarrow> pruning c S' seen' m"
  unfolding pruning_def using okLog_mono by blast

lemma pruning_ret [pruning_rules]: "pruning c S seen (ret a)"
  and pruning_raise [pruning_rules]: "pruning c S seen (raise err)"
  by (simp_all add: pruning_def)

lemma pruning_seq [pruning_rules]:
  assumes "pruning c S seen m" and "\<And>a. pruning c S seen (k a)"
  shows "pruning c S seen (seqE m k)"
  unfolding pruning_def
proof
  fix w
  obtain r u where m: "m w = (r, u)" by (cases "m w")
  then obtain a where a: "bw_asked u = bw_asked w @ a" "okLog c S seen a"
    using assms(1) unfolding pruning_def by (metis snd_conv)
  show "\<exists>new. bw_asked (snd (seqE m k w)) = bw_asked w @ new \<and> okLog c S seen new"
  proof (cases r)
    case (Inl e)
    then show ?thesis using m a by (simp add: seqE_def)
  next
    case (Inr x)
    obtain b where "bw_asked (snd (k x u)) = bw_asked u @ b" "okLog c S seen b"
      using assms(2) [of x] unfolding pruning_def by blast
    moreover from this have "okLog c S seen (a @ b)" using a(2) okLog_mono by (fastforce simp: okLog_append)
    ultimately show ?thesis using m Inr a(1) by (intro exI [of _ "a @ b"]) (simp add: seqE_def)
  qed
qed

lemma pruning_catch [pruning_rules]:
  assumes "pruning c S seen m" and "\<And>err. pruning c S seen (ret (h err))"
  shows "pruning c S seen (catchE m (\<lambda>err. ret (h err)))"
  using assms(1) unfolding pruning_def catchE_def by (auto split: prod.split sum.split) (metis snd_conv)+

lemma pruning_inTenant [pruning_rules]:
  assumes "\<And>w a w'. body w = Inr (a, w') \<Longrightarrow> bw_asked w' = bw_asked w"
  shows "pruning c S seen (inTenant body)"
  unfolding pruning_def
proof
  fix w
  have "bw_asked (snd (inTenant body w)) = bw_asked w"
    using assms by (auto simp: inTenant_def Let_def split: list.splits bool.splits sum.splits prod.splits)
  then show "\<exists>new. bw_asked (snd (inTenant body w)) = bw_asked w @ new \<and> okLog c S seen new"
    by (intro exI [of _ "[]"]) simp
qed

lemma pruning_ask [pruning_rules]:
  "(\<And>dataset name. req \<noteq> DestroySnapshot dataset name) \<Longrightarrow> pruning c S seen (ask e req)"
  by (auto simp: pruning_def ask_def mayAsk_def split: prod.splits)

lemma pruning_destroyLoop:
  assumes "s \<in> S" and "(ListSnapshots (sc_dataset s), Some (SnapshotList missing xs)) \<in> set seen"
    and "set names \<subseteq> set (prunable c xs (sc_cadence s) (sc_keep s))"
  shows "pruning c S seen (destroyLoop e (sc_dataset s) names)"
  using assms(3)
proof (induction names)
  case (Cons name names)
  have "mayAsk c S seen (DestroySnapshot (sc_dataset s) name)" unfolding mayAsk_def using assms(1,2) Cons.prems by auto
  then have "pruning c S seen (ask e (DestroySnapshot (sc_dataset s) name))"
    by (auto simp: pruning_def ask_def split: prod.splits)
  then show ?case using Cons by (auto intro: pruning_seq)
qed (simp add: pruning_ret)

lemma pruning_prune [pruning_rules]:
  fixes e :: "'d backup_env"
  assumes "s \<in> S" and "be_collate e = c"
  shows "pruning c S seen (prune e s)"
  unfolding pruning_def
proof
  fix w :: "'d backup_world"
  obtain answer pool where call: "be_call e (ListSnapshots (sc_dataset s)) (bw_pool w) = (answer, pool)" by fastforce
  let ?x = "(ListSnapshots (sc_dataset s), answer)"
  let ?u = "w\<lparr>bw_pool := pool, bw_asked := bw_asked w @ [?x]\<rparr>"
  have listed: "mayAsk c S seen (fst ?x)" by (simp add: mayAsk_def)
  show "\<exists>new. bw_asked (snd (prune e s w)) = bw_asked w @ new \<and> okLog c S seen new"
  proof (cases "\<exists>missing xs. answer = Some (SnapshotList missing xs)")
    case True
    then obtain missing xs where a: "answer = Some (SnapshotList missing xs)" by blast
    have "pruning c S (seen @ [?x]) (destroyLoop e (sc_dataset s) (prunable c xs (sc_cadence s) (sc_keep s)))"
      by (rule pruning_destroyLoop [OF assms(1)]) (auto simp: a)
    then obtain new where "bw_asked (snd (destroyLoop e (sc_dataset s) (prunable c xs (sc_cadence s) (sc_keep s)) ?u)) = bw_asked ?u @ new"
      and "okLog c S (seen @ [?x]) new" unfolding pruning_def by blast
    then show ?thesis using call listed assms(2)
      by (intro exI [of _ "?x # new"]) (simp add: prune_def seqE_def ask_def a)
  next
    case False
    then have "snd (prune e s w) = ?u" using call
      by (auto simp: prune_def seqE_def ask_def split: option.splits BackupAnswer.splits)
    then show ?thesis using listed by (intro exI [of _ "[?x]"]) simp
  qed
qed

lemma pruning_enqueue [pruning_rules]: "pruning c S seen (enqueueReplication org s name)"
  unfolding enqueueReplication_def Let_def by (auto split: option.split intro!: pruning_rules)

lemma pruning_runOne [pruning_rules]:
  "s \<in> S \<Longrightarrow> be_collate e = c \<Longrightarrow> pruning c S seen (runOne e org now s)"
  unfolding runOne_def Let_def by (auto intro!: pruning_rules)

lemma pruning_advance [pruning_rules]: "pruning c S seen (advance e org now s r)"
  unfolding advance_def by (auto intro: pruning_inTenant)

lemma pruning_dueLoop:
  "set due \<subseteq> S \<Longrightarrow> be_collate e = c \<Longrightarrow> pruning c S seen (dueLoop e org now due n)"
  by (induction due arbitrary: n) (auto intro!: pruning_rules split: prod.split simp: dueLoop.simps)

text \<open>The query that begins a round reads only.\<close>

lemma read_due:
  obtains "inTenant (\<lambda>w. Inr (dueSchedules org now (bw_rows w), w)) w = (Inl DatabaseFault, w\<lparr>bw_faults := tl (bw_faults w)\<rparr>)"
  | "inTenant (\<lambda>w. Inr (dueSchedules org now (bw_rows w), w)) w
      = (Inr (dueSchedules org now (bw_rows w)), w\<lparr>bw_faults := tl (bw_faults w)\<rparr>)"
  by (cases "bw_faults w"; cases "hd (bw_faults w)") (auto simp: inTenant_def Let_def)

lemma round_log:
  fixes e :: "'d backup_env"
  shows "\<exists>new. bw_asked (snd (runDue e org now w)) = bw_asked w @ new
    \<and> okLog (be_collate e) (set (dueSchedules org now (bw_rows w))) [] new"
proof (cases rule: read_due [of org now w])
  case 1
  then show ?thesis by (intro exI [of _ "[]"]) (simp add: runDue_def)
next
  case 2
  let ?u = "w\<lparr>bw_faults := tl (bw_faults w)\<rparr>"
  have "pruning (be_collate e) (set (dueSchedules org now (bw_rows w))) [] (dueLoop e org now (dueSchedules org now (bw_rows w)) (0, 0))"
    by (rule pruning_dueLoop) simp_all
  then obtain new where "bw_asked (snd (dueLoop e org now (dueSchedules org now (bw_rows w)) (0, 0) ?u)) = bw_asked ?u @ new"
    and "okLog (be_collate e) (set (dueSchedules org now (bw_rows w))) [] new"
    unfolding pruning_def by blast
  then show ?thesis using 2 by (intro exI [of _ new]) (simp add: runDue_def)
qed

text \<open>
  C5. A round never prunes anything but its own surplus. Whatever the agent answers, whichever transactions
  fail, and whether the round returns or not: every snapshot it asks to destroy was in a listing the agent
  gave of that dataset in this round, carries the prefix of a due schedule of the dataset, and is one of those
  that are left when the \<open>keep\<close> newest of that prefix are spared.
\<close>

theorem round_spares_the_newest:
  assumes "bw_asked (snd (runDue e org now w)) = bw_asked w @ before @ (DestroySnapshot dataset name, answer) # later"
  shows "\<exists>s \<in> set (dueSchedules org now (bw_rows w)). \<exists>missing xs names. sc_dataset s = dataset
    \<and> (ListSnapshots dataset, Some (SnapshotList missing xs)) \<in> set before
    \<and> spared (sc_keep s) (filter (\<lambda>x. startsWith (sn_name x) (prefixFor (sc_cadence s))) xs) names \<and> name \<in> set names"
proof -
  have "okLog (be_collate e) (set (dueSchedules org now (bw_rows w))) before ((DestroySnapshot dataset name, answer) # later)"
    using round_log [of e org now w] assms by (simp add: okLog_append)
  then show ?thesis unfolding okLog.simps mayAsk_def using prunable_spared by fastforce
qed

section \<open>What a round leaves\<close>

definition keepsRows :: "('d, 'a) backup \<Rightarrow> bool" where
  "keepsRows m \<longleftrightarrow> (\<forall>w. bw_rows (snd (m w)) = bw_rows w)"

named_theorems rows_rules

lemma keepsRows_simple [rows_rules]: "keepsRows (ret a)" "keepsRows (raise err)" "keepsRows (ask e req)"
  by (auto simp: keepsRows_def ask_def split: prod.splits)

lemma keepsRows_seq [rows_rules]: "keepsRows m \<Longrightarrow> (\<And>a. keepsRows (k a)) \<Longrightarrow> keepsRows (seqE m k)"
  unfolding keepsRows_def seqE_def by (auto split: prod.split sum.split) (metis snd_conv)+

lemma keepsRows_inTenant [rows_rules]:
  "(\<And>w a w'. body w = Inr (a, w') \<Longrightarrow> bw_rows w' = bw_rows w) \<Longrightarrow> keepsRows (inTenant body)"
  by (auto simp: keepsRows_def inTenant_def Let_def split: list.splits bool.splits sum.splits prod.splits)

lemma keepsRows_pure [rows_rules]: "keepsRows (Pair (Inr a))"
  by (simp add: keepsRows_def)

lemma keepsRows_jobs: "keepsRows (inTenant (\<lambda>w. Inr ((), w\<lparr>bw_jobs := f w\<rparr>)))"
  by (rule keepsRows_inTenant) auto

lemma keepsRows_destroyLoop [rows_rules]: "keepsRows (destroyLoop e dataset names)"
  by (induction names) (auto intro!: rows_rules)

lemma keepsRows_enqueue [rows_rules]: "keepsRows (enqueueReplication org s name)"
  unfolding enqueueReplication_def Let_def
  by (auto intro!: rows_rules keepsRows_jobs split: option.split)

lemma keepsRows_prune [rows_rules]: "keepsRows (prune e s)"
  unfolding prune_def by (rule keepsRows_seq [OF keepsRows_simple(3)]) (auto intro!: rows_rules split: BackupAnswer.split)

lemma keepsRows_runOne: "keepsRows (runOne e org now s)"
  unfolding runOne_def Let_def by (auto intro!: rows_rules)

text \<open>The request of a schedule's own snapshot is the first one of its run.\<close>

definition takeRequest :: "int \<Rightarrow> ScheduleRow \<Rightarrow> BackupRequest" where
  "takeRequest now s = CreateSnapshot (sc_dataset s) (snapshotNameFor (sc_cadence s) now)"

lemma runOne_log:
  fixes e :: "'d backup_env"
  assumes "runOne e org now s w = (r, w')"
  shows "bw_rows w' = bw_rows w" and "\<exists>new answer. bw_asked w' = bw_asked w @ new \<and> (takeRequest now s, answer) \<in> set new
    \<and> (r = Inr () \<longrightarrow> answer = Some SnapshotTaken)"
proof -
  show "bw_rows w' = bw_rows w" using keepsRows_runOne [of e org now s] assms unfolding keepsRows_def by (metis snd_conv)
  obtain answer pool where call: "be_call e (takeRequest now s) (bw_pool w) = (answer, pool)" by fastforce
  let ?x = "(takeRequest now s, answer)"
  let ?u = "w\<lparr>bw_pool := pool, bw_asked := bw_asked w @ [?x]\<rparr>"
  have ask: "ask e (takeRequest now s) w = (case answer of None \<Rightarrow> Inl AgentGone | Some a \<Rightarrow> Inr a, ?u)"
    using call by (simp add: ask_def)
  let ?rest = "seqE (enqueueReplication org s (snapshotNameFor (sc_cadence s) now)) (\<lambda>_. prune e s)"
  have step: "runOne e org now s w = (if answer = Some SnapshotTaken then ?rest ?u
      else (Inl (if answer = None then AgentGone else UnexpectedAnswer), ?u))"
    unfolding runOne_def Let_def takeRequest_def [symmetric] by (simp add: seqE_def ask split: option.splits)
  show "\<exists>new answer. bw_asked w' = bw_asked w @ new \<and> (takeRequest now s, answer) \<in> set new
    \<and> (r = Inr () \<longrightarrow> answer = Some SnapshotTaken)"
  proof (cases "answer = Some SnapshotTaken")
    case True
    have "pruning (be_collate e) {s} [] ?rest" by (intro pruning_rules) simp_all
    then obtain new where "bw_asked (snd (?rest ?u)) = bw_asked ?u @ new" unfolding pruning_def by blast
    moreover have "?rest ?u = (r, w')" using step True assms by simp
    ultimately have "bw_asked w' = bw_asked w @ ?x # new" by simp
    then show ?thesis using True by (intro exI [of _ "?x # new"] exI [of _ answer]) simp
  next
    case False
    then have "bw_asked w' = bw_asked w @ [?x]" and "r \<noteq> Inr ()" using step assms by auto
    then show ?thesis by (intro exI [of _ "[?x]"] exI [of _ answer]) simp
  qed
qed

text \<open>\<open>stepped\<close>: a row after the round advanced it.\<close>

definition stepped :: "zone \<Rightarrow> int \<Rightarrow> ScheduleRow \<Rightarrow> RunResult \<Rightarrow> ScheduleRow \<Rightarrow> ScheduleRow" where
  "stepped z now s res r = r\<lparr>sc_next := nextRun z (sc_cadence s) (sc_hour s) (sc_minute s) (sc_weekday s) now,
     sc_last := Some now, sc_result := Some res\<rparr>"

lemma stepped_key [simp]: "sc_org (stepped z now s res r) = sc_org r" "sc_id (stepped z now s res r) = sc_id r"
  by (simp_all add: stepped_def)

lemma advance_rows:
  "advance e org now s res w = (Inr (), w') \<Longrightarrow> bw_asked w' = bw_asked w
     \<and> bw_rows w' = map (\<lambda>r. if sc_org r = org \<and> sc_id r = sc_id s then stepped (be_zone e) now s res r else r) (bw_rows w)"
  by (auto simp: advance_def inTenant_def Let_def updateSchedules_def stepped_def split: list.splits bool.splits)

definition visited :: "zone \<Rightarrow> id \<Rightarrow> int \<Rightarrow> ScheduleRow list \<Rightarrow> (BackupRequest \<times> BackupAnswer option) list \<Rightarrow> ScheduleRow \<Rightarrow> ScheduleRow \<Rightarrow> bool" where
  "visited z org now due new r r' \<longleftrightarrow>
     (if \<exists>s \<in> set due. sc_org r = org \<and> sc_id r = sc_id s
      then \<exists>s \<in> set due. sc_id r = sc_id s \<and> (\<exists>res. r' = stepped z now s res r
             \<and> (res = RanOk \<longrightarrow> (takeRequest now s, Some SnapshotTaken) \<in> set new))
      else r' = r)"

lemma dueLoop_visits:
  fixes e :: "'d backup_env"
  assumes "dueLoop e org now due (g, f) w = (Inr (g', f'), w')" and "distinct (map sc_id due)"
  shows "\<exists>new. bw_asked w' = bw_asked w @ new \<and> g' + f' = g + f + length due
    \<and> list_all2 (visited (be_zone e) org now due new) (bw_rows w) (bw_rows w')
    \<and> (\<forall>s \<in> set due. \<exists>answer. (takeRequest now s, answer) \<in> set new)"
  using assms
proof (induction due arbitrary: g f w)
  case Nil
  then show ?case by (auto simp: visited_def list.rel_refl)
next
  case (Cons s due)
  obtain r u where one: "runOne e org now s w = (r, u)" by fastforce
  define res where "res = (case r of Inl err \<Rightarrow> RanFailed | Inr a \<Rightarrow> RanOk)"
  have "catchE (seqE (runOne e org now s) (\<lambda>_. ret RanOk)) (\<lambda>_. ret RanFailed) w = (Inr res, u)"
    using one by (simp add: catchE_def seqE_def res_def split: sum.split)
  then obtain v where adv: "advance e org now s res u = (Inr (), v)"
    and rest: "dueLoop e org now due (if res = RanOk then (g + 1, f) else (g, f + 1)) v = (Inr (g', f'), w')"
    using Cons.prems(1) by (auto simp: seqE_eq_Inr)
  obtain a answer where a: "bw_asked u = bw_asked w @ a" "(takeRequest now s, answer) \<in> set a"
    "r = Inr () \<longrightarrow> answer = Some SnapshotTaken" using runOne_log(2) [OF one] by blast
  note rows = runOne_log(1) [OF one] advance_rows [OF adv]
  obtain g1 f1 where "(if res = RanOk then (g + 1, f) else (g, f + 1)) = (g1, f1)" and n: "g1 + f1 = g + f + 1"
    by (cases "res = RanOk") auto
  with rest have "dueLoop e org now due (g1, f1) v = (Inr (g', f'), w')" by simp
  from Cons.IH [OF this] Cons.prems(2) obtain b where b: "bw_asked w' = bw_asked v @ b" "g' + f' = g1 + f1 + length due"
    "list_all2 (visited (be_zone e) org now due b) (bw_rows v) (bw_rows w')"
    "\<forall>s \<in> set due. \<exists>answer. (takeRequest now s, answer) \<in> set b" by auto
  let ?step = "\<lambda>r. if sc_org r = org \<and> sc_id r = sc_id s then stepped (be_zone e) now s res r else r"
  have ok: "res = RanOk \<longrightarrow> (takeRequest now s, Some SnapshotTaken) \<in> set (a @ b)"
    using a by (auto simp: res_def split: sum.splits)
  have "visited (be_zone e) org now (s # due) (a @ b) x y" if "visited (be_zone e) org now due b (?step x) y" for x y
  proof (cases "sc_org x = org \<and> sc_id x = sc_id s")
    case True
    then have "\<not> (\<exists>s' \<in> set due. sc_id (?step x) = sc_id s')" using Cons.prems(2) by force
    then have "y = stepped (be_zone e) now s res x" using that True unfolding visited_def by auto
    then show ?thesis using True ok unfolding visited_def by auto
  next
    case False
    have v: "visited (be_zone e) org now due b x y" using that unfolding if_not_P [OF False] .
    show ?thesis
    proof (cases "\<exists>s \<in> set due. sc_org x = org \<and> sc_id x = sc_id s")
      case True
      then obtain s' r' where "s' \<in> set due" "sc_id x = sc_id s'" "y = stepped (be_zone e) now s' r' x"
        "r' = RanOk \<longrightarrow> (takeRequest now s', Some SnapshotTaken) \<in> set b"
        using v unfolding visited_def by auto
      then show ?thesis using True unfolding visited_def by auto
    next
      case none: False
      then show ?thesis using v False unfolding visited_def by auto
    qed
  qed
  moreover have "list_all2 (\<lambda>x y. visited (be_zone e) org now due b (?step x) y) (bw_rows w) (bw_rows w')"
    using b(3) rows by (simp add: list_all2_map1)
  ultimately have "list_all2 (visited (be_zone e) org now (s # due) (a @ b)) (bw_rows w) (bw_rows w')"
    by (rule list_all2_mono [rotated])
  then show ?case using a b n rows by (intro exI [of _ "a @ b"]) auto
qed

lemma set_dueSchedules: "s \<in> set (dueSchedules org now rows) \<Longrightarrow> s \<in> set rows \<and> sc_org s = org \<and> sc_enabled s \<and> sc_next s \<le> now"
  unfolding dueSchedules_def by (auto dest!: in_set_takeD)

lemma distinct_due: "distinct rows \<Longrightarrow> distinct (dueSchedules org now rows)"
  by (simp add: dueSchedules_def)

lemma distinct_dueSchedules: "distinct (map sc_id rows) \<Longrightarrow> distinct (map sc_id (dueSchedules org now rows))"
  unfolding distinct_map by (meson distinct_due inj_on_subset set_dueSchedules subsetI)

text \<open>All of them, when there are no more than a round takes.\<close>

lemma in_dueSchedules:
  assumes "length (filter (\<lambda>r. sc_org r = org \<and> sc_enabled r \<and> sc_next r \<le> now) rows) \<le> 50"
  shows "r \<in> set (dueSchedules org now rows) \<longleftrightarrow> r \<in> set rows \<and> sc_org r = org \<and> sc_enabled r \<and> sc_next r \<le> now"
  unfolding dueSchedules_def using assms by simp

text \<open>\<open>wentForward\<close>: what a round that returns makes of a row.\<close>

definition wentForward :: "zone \<Rightarrow> int \<Rightarrow> ScheduleRow list \<Rightarrow> (BackupRequest \<times> BackupAnswer option) list \<Rightarrow> ScheduleRow \<Rightarrow> ScheduleRow \<Rightarrow> bool" where
  "wentForward z now due new r r' \<longleftrightarrow>
     (if r \<in> set due
      then (\<exists>res. r' = r\<lparr>sc_next := nextRun z (sc_cadence r) (sc_hour r) (sc_minute r) (sc_weekday r) now,
               sc_last := Some now, sc_result := Some res\<rparr>
             \<and> (res = RanOk \<longrightarrow> (takeRequest now r, Some SnapshotTaken) \<in> set new))
      else r' = r)"

lemma visited_wentForward:
  assumes "visited z org now (dueSchedules org now rows) new r r'" and "distinct (map sc_id rows)" and "r \<in> set rows"
  shows "wentForward z now (dueSchedules org now rows) new r r'"
proof -
  have same: "s = r" if "s \<in> set (dueSchedules org now rows)" and "sc_id r = sc_id s" for s
    using that assms(2,3) set_dueSchedules unfolding distinct_map inj_on_def by metis
  show ?thesis
  proof (cases "r \<in> set (dueSchedules org now rows)")
    case True
    then show ?thesis using assms(1) same set_dueSchedules [OF True]
      unfolding visited_def wentForward_def stepped_def by metis
  next
    case False
    then have "\<not> (\<exists>s \<in> set (dueSchedules org now rows). sc_org r = org \<and> sc_id r = sc_id s)" using same by metis
    with False assms(1) show ?thesis unfolding visited_def wentForward_def by simp
  qed
qed

lemma round_visits:
  fixes e :: "'d backup_env"
  assumes "runDue e org now w = (Inr (good, failed), w')" and "distinct (map sc_id (bw_rows w))"
  shows "\<exists>new. bw_asked w' = bw_asked w @ new \<and> good + failed = length (dueSchedules org now (bw_rows w))
    \<and> list_all2 (wentForward (be_zone e) now (dueSchedules org now (bw_rows w)) new) (bw_rows w) (bw_rows w')
    \<and> (\<forall>s \<in> set (dueSchedules org now (bw_rows w)). \<exists>answer. (takeRequest now s, answer) \<in> set new)"
proof (cases rule: read_due [of org now w])
  case 1
  then show ?thesis using assms(1) by (simp add: runDue_def)
next
  case 2
  let ?due = "dueSchedules org now (bw_rows w)"
  have "dueLoop e org now ?due (0, 0) (w\<lparr>bw_faults := tl (bw_faults w)\<rparr>) = (Inr (good, failed), w')"
    using assms(1) 2 by (simp add: runDue_def)
  from dueLoop_visits [OF this distinct_dueSchedules [OF assms(2)]]
  obtain new where new: "bw_asked w' = bw_asked w @ new" "good + failed = length ?due"
    "\<forall>s \<in> set ?due. \<exists>answer. (takeRequest now s, answer) \<in> set new"
    and each: "list_all2 (visited (be_zone e) org now ?due new) (bw_rows w) (bw_rows w')" by auto
  have "list_all2 (wentForward (be_zone e) now ?due new) (bw_rows w) (bw_rows w')"
    using each by (rule list.rel_mono_strong) (rule visited_wentForward [OF _ assms(2)])
  with new show ?thesis by blast
qed

text \<open>After a round in which all due schedules were reached, none is due.\<close>

lemma none_due:
  assumes each: "list_all2 (wentForward z now (dueSchedules org now rows) new) rows rows'"
    and steady: "steadyZone z now d" and valid: "\<forall>r \<in> set rows. validTime (sc_hour r) (sc_minute r) (sc_weekday r)"
    and few: "length (filter (\<lambda>r. sc_org r = org \<and> sc_enabled r \<and> sc_next r \<le> now) rows) \<le> 50"
  shows "dueSchedules org now rows' = []"
proof -
  have "\<not> (sc_org r' = org \<and> sc_enabled r' \<and> sc_next r' \<le> now)" if "r' \<in> set rows'" for r'
  proof -
    obtain r where r: "r \<in> set rows" "wentForward z now (dueSchedules org now rows) new r r'"
      using each \<open>r' \<in> set rows'\<close> unfolding list_all2_conv_all_nth in_set_conv_nth by metis
    show ?thesis
    proof (cases "r \<in> set (dueSchedules org now rows)")
      case True
      moreover have "now < nextRun z (sc_cadence r) (sc_hour r) (sc_minute r) (sc_weekday r) now"
        using nextRun_moment [OF steady] valid r(1) by blast
      ultimately show ?thesis using r(2) unfolding wentForward_def by auto
    next
      case False
      then show ?thesis using r in_dueSchedules [OF few] unfolding wentForward_def by auto
    qed
  qed
  then have "filter (\<lambda>r. sc_org r = org \<and> sc_enabled r \<and> sc_next r \<le> now) rows' = []" by (simp add: filter_empty_conv)
  then show ?thesis unfolding dueSchedules_def by simp
qed

text \<open>A pool with one old snapshot, and an hourly schedule that keeps one.\<close>

definition smallPool :: "BackupRequest \<Rightarrow> Snapshot list \<Rightarrow> BackupAnswer option \<times> Snapshot list" where
  "smallPool req pool =
     (case req of
        ListSnapshots dataset \<Rightarrow> (Some (SnapshotList False pool), pool)
      | CreateSnapshot dataset name \<Rightarrow> (Some SnapshotTaken, pool @ [\<lparr>sn_name = name, sn_created = 9\<rparr>])
      | DestroySnapshot dataset name \<Rightarrow> (Some SnapshotDestroyed, filter (\<lambda>s. sn_name s \<noteq> name) pool)
      | _ \<Rightarrow> (None, pool))"

definition smallBox :: "Snapshot list backup_env" where
  "smallBox = \<lparr>be_call = smallPool, be_zone = (7200000, []), be_collate = (\<lambda>a b. 0)\<rparr>"

definition smallSchedule :: ScheduleRow where
  "smallSchedule = \<lparr>sc_id = ''s1'', sc_org = ''o1'', sc_dataset = ''tank/a'', sc_label = ''A'', sc_cadence = Hourly, sc_hour = None,
     sc_minute = 5, sc_weekday = None, sc_keep = 1, sc_target = None, sc_offsite = None, sc_enabled = True,
     sc_next = 69900000, sc_last = None, sc_result = None, sc_base = None, sc_verified = None, sc_verify_result = None\<rparr>"

definition smallWorld :: "Snapshot list backup_world" where
  "smallWorld = \<lparr>bw_rows = [smallSchedule], bw_jobs = [], bw_shares = [],
     bw_pool = [\<lparr>sn_name = ''depsis-hourly-old'', sn_created = 5\<rparr>], bw_faults = [], bw_asked = []\<rparr>"

lemma stamp_of_smallRound: "snapshotNameFor Hourly 72000000 = ''depsis-hourly-19700101T200000Z''"
  by code_simp

lemma smallRun:
  "runOne smallBox ''o1'' 72000000 smallSchedule smallWorld = (Inr (), smallWorld\<lparr>
     bw_pool := [\<lparr>sn_name = ''depsis-hourly-19700101T200000Z'', sn_created = 9\<rparr>],
     bw_asked := [(CreateSnapshot ''tank/a'' ''depsis-hourly-19700101T200000Z'', Some SnapshotTaken),
       (ListSnapshots ''tank/a'', Some (SnapshotList False
          [\<lparr>sn_name = ''depsis-hourly-old'', sn_created = 5\<rparr>, \<lparr>sn_name = ''depsis-hourly-19700101T200000Z'', sn_created = 9\<rparr>])),
       (DestroySnapshot ''tank/a'' ''depsis-hourly-old'', Some SnapshotDestroyed)]\<rparr>)"
  by (simp add: runOne_def Let_def smallSchedule_def stamp_of_smallRound seqE_def ask_def smallBox_def smallPool_def
      smallWorld_def enqueueReplication_def prune_def prunable_def startsWith_def prefixFor_def cadenceName_def sortBy_def
      newestFirstSnapshots_def)

lemma smallRound:
  "runDue smallBox ''o1'' 72000000 smallWorld = (Inr (1, 0), (snd (runOne smallBox ''o1'' 72000000 smallSchedule smallWorld))\<lparr>
     bw_rows := [smallSchedule\<lparr>sc_next := 72300000, sc_last := Some 72000000, sc_result := Some RanOk\<rparr>]\<rparr>)"
proof -
  have later: "nextRun (7200000, []) Hourly None 5 None 72000000 = 72300000"
    by (simp add: nextRun_def setSeconds_def setMinutes_def makeTime_def localTime_def offsetAt_def utc_def instants_def)
  have due: "dueSchedules ''o1'' 72000000 [smallSchedule] = [smallSchedule]"
    by (simp add: dueSchedules_def smallSchedule_def)
  have faults: "bw_faults smallWorld = []" and rows: "bw_rows smallWorld = [smallSchedule]"
    by (simp_all add: smallWorld_def)
  have zone: "be_zone smallBox = (7200000, [])" by (simp add: smallBox_def)
  have untouched: "smallWorld\<lparr>bw_faults := []\<rparr> = smallWorld" by (simp add: smallWorld_def)
  show ?thesis unfolding runDue_def
    by (simp add: seqE_def inTenant_def faults due untouched catchE_def smallRun advance_def updateSchedules_def rows zone)
      (simp add: smallSchedule_def later smallWorld_def)
qed

theorem round_spares_the_newest_witness:
  "\<exists>s \<in> set (dueSchedules ''o1'' 72000000 (bw_rows smallWorld)). \<exists>missing xs names. sc_dataset s = ''tank/a''
    \<and> spared (sc_keep s) (filter (\<lambda>x. startsWith (sn_name x) (prefixFor (sc_cadence s))) xs) names
    \<and> ''depsis-hourly-old'' \<in> set names"
proof -
  have "bw_asked smallWorld = []" by (simp add: smallWorld_def)
  then have "bw_asked (snd (runDue smallBox ''o1'' 72000000 smallWorld)) = bw_asked smallWorld
      @ [(CreateSnapshot ''tank/a'' ''depsis-hourly-19700101T200000Z'', Some SnapshotTaken),
         (ListSnapshots ''tank/a'', Some (SnapshotList False
            [\<lparr>sn_name = ''depsis-hourly-old'', sn_created = 5\<rparr>, \<lparr>sn_name = ''depsis-hourly-19700101T200000Z'', sn_created = 9\<rparr>]))]
      @ (DestroySnapshot ''tank/a'' ''depsis-hourly-old'', Some SnapshotDestroyed) # []"
    by (simp add: smallRound smallRun)
  from round_spares_the_newest [OF this] show ?thesis by blast
qed

text \<open>
  C7. What a round that returns has done. It asked for a snapshot of every due schedule it took (the first fifty
  of the organisation, in the order of their moments) and counted each once; every one of these rows goes to
  \<open>nextRun\<close> from now, with now as its last run, whether the run worked or not, and it says that it worked only if the agent
  answered that the snapshot was taken; no other row changes. Where the offset of local time is steady and the
  rows have valid times, nothing is due any more unless there were more than fifty.
\<close>

theorem round_sets_every_due_schedule_forward:
  fixes e :: "'d backup_env"
  assumes "distinct (map sc_id (bw_rows w))" and "runDue e org now w = (Inr (good, failed), w')"
  shows "good + failed = length (dueSchedules org now (bw_rows w))
    \<and> (\<exists>new. bw_asked w' = bw_asked w @ new
        \<and> list_all2 (wentForward (be_zone e) now (dueSchedules org now (bw_rows w)) new) (bw_rows w) (bw_rows w')
        \<and> (\<forall>s \<in> set (dueSchedules org now (bw_rows w)). \<exists>answer. (takeRequest now s, answer) \<in> set new))
    \<and> (steadyZone (be_zone e) now d \<and> (\<forall>r \<in> set (bw_rows w). validTime (sc_hour r) (sc_minute r) (sc_weekday r))
         \<and> length (filter (\<lambda>r. sc_org r = org \<and> sc_enabled r \<and> sc_next r \<le> now) (bw_rows w)) \<le> 50
       \<longrightarrow> dueSchedules org now (bw_rows w') = [])"
proof -
  obtain new where new: "bw_asked w' = bw_asked w @ new" "good + failed = length (dueSchedules org now (bw_rows w))"
    "list_all2 (wentForward (be_zone e) now (dueSchedules org now (bw_rows w)) new) (bw_rows w) (bw_rows w')"
    "\<forall>s \<in> set (dueSchedules org now (bw_rows w)). \<exists>answer. (takeRequest now s, answer) \<in> set new"
    using round_visits [OF assms(2,1)] by blast
  then show ?thesis using none_due [OF new(3)] by blast
qed

theorem round_sets_every_due_schedule_forward_witness:
  "dueSchedules ''o1'' 72000000 (bw_rows (snd (runDue smallBox ''o1'' 72000000 smallWorld))) = []
   \<and> map sc_next (bw_rows (snd (runDue smallBox ''o1'' 72000000 smallWorld))) = [72300000]"
proof -
  have rows: "bw_rows smallWorld = [smallSchedule]" and zone: "be_zone smallBox = (7200000, [])"
    by (simp_all add: smallWorld_def smallBox_def)
  have "steadyZone (be_zone smallBox) 72000000 7200000"
    by (simp add: zone steadyZone_def offsets_def offsetAt_def)
  moreover have "\<forall>r \<in> set (bw_rows smallWorld). validTime (sc_hour r) (sc_minute r) (sc_weekday r)"
    by (simp add: rows smallSchedule_def validTime_def hourOf_def)
  ultimately show ?thesis
    using round_sets_every_due_schedule_forward [OF _ smallRound, of 7200000] rows by (simp add: smallRound)
qed

section \<open>The base of a transfer\<close>

text \<open>A schedule that keeps one snapshot and replicates: the round queues the transfer from the snapshot that was
  sent last, and then has that very snapshot destroyed, before any worker took the job.\<close>

lemma pruned_base:
  "map snd (bw_jobs (snd (runOne smallBox ''o1'' 72000000
      (smallSchedule\<lparr>sc_target := Some ''backup/a'', sc_base := Some ''depsis-hourly-old''\<rparr>) smallWorld)))
     = [ReplicateJob ''tank/a'' ''depsis-hourly-19700101T200000Z'' ''backup/a'' (Some ''depsis-hourly-old'') ''s1'']"
  "(DestroySnapshot ''tank/a'' ''depsis-hourly-old'', Some SnapshotDestroyed) \<in> set (bw_asked (snd (runOne smallBox ''o1'' 72000000
      (smallSchedule\<lparr>sc_target := Some ''backup/a'', sc_base := Some ''depsis-hourly-old''\<rparr>) smallWorld)))"
  by (simp_all add: runOne_def Let_def smallSchedule_def stamp_of_smallRound seqE_def ask_def smallBox_def smallPool_def
      smallWorld_def enqueueReplication_def inTenant_def prune_def prunable_def startsWith_def prefixFor_def cadenceName_def
      sortBy_def newestFirstSnapshots_def)

end
