(* ===== verification/TrashRetention.thy ===== *)
theory TrashRetention
  imports FileReach
begin

text \<open>
  \<open>TrashRetentionService\<close> (\<open>apps/api/src/files/trash-retention.service.ts\<close>), the table of migration 0023 and
  the job that runs it (\<open>apps/worker/src/handlers/trash-purge.handler.ts\<close>), over the world of
  \<open>FilesService\<close>: what a run deletes it deletes with \<open>purge\<close>. Any transaction of the service fails when
  \<open>bn_faults\<close> says so; \<open>bn_leases\<close> is what \<open>report\<close> answers, \<open>None\<close> when it throws. The subtraction of days
  from the time of the database is the database's, and a parameter.
\<close>

section \<open>The world\<close>

record PolicyRow =
  po_org :: id
  po_days :: "nat option"
  po_updated :: nat
  po_by :: id

record TrashPolicy =
  tp_days :: "nat option"
  tp_updated :: "nat option"

record TrashImpact =
  ti_entries :: nat
  ti_files :: nat
  ti_bytes :: nat
  ti_oldest :: "nat option"

record PurgeResult =
  pr_purged :: nat
  pr_failed :: nat
  pr_bytes :: nat

record 'd bin_world =
  bn_files :: "'d world"
  bn_settings :: "PolicyRow list"
  bn_runs :: "(id \<times> nat) list"
  bn_shares :: "(id \<times> ShareRef) list"
  bn_results :: "(id \<times> id \<times> PurgeResult) list"
  bn_leases :: "bool option list"
  bn_faults :: "bool list"

record 'd bin_env =
  bi_env :: "'d env"
  bi_daysBefore :: "nat \<Rightarrow> nat \<Rightarrow> nat"

type_synonym ('d, 'a) bin = "('d bin_world, file_error, 'a) eff"

definition bnTx :: "('d bin_world \<Rightarrow> file_error + 'a \<times> 'd bin_world) \<Rightarrow> ('d, 'a) bin" where
  "bnTx body w =
     (case bn_faults w of
        True # rest \<Rightarrow> (Inl (DatabaseError ''connection''), w\<lparr>bn_faults := rest\<rparr>)
      | faults \<Rightarrow>
          (let w1 = w\<lparr>bn_faults := tl faults\<rparr>
           in case body w1 of Inl err \<Rightarrow> (Inl err, w1) | Inr (a, w2) \<Rightarrow> (Inr a, w2)))"

definition onFiles :: "('d, 'a) op \<Rightarrow> ('d, 'a) bin" where
  "onFiles m w = (case m (bn_files w) of (r, f) \<Rightarrow> (r, w\<lparr>bn_files := f\<rparr>))"

definition report :: "('d, bool) bin" where
  "report w =
     (case bn_leases w of
        [] \<Rightarrow> (Inr True, w)
      | None # rest \<Rightarrow> (Inl (DatabaseError ''connection''), w\<lparr>bn_leases := rest\<rparr>)
      | Some kept # rest \<Rightarrow> (Inr kept, w\<lparr>bn_leases := rest\<rparr>))"

section \<open>The policy\<close>

definition policy :: "id \<Rightarrow> ('d, TrashPolicy) bin" where
  "policy org = bnTx (\<lambda>w. Inr (
     (case List.find (\<lambda>p. po_org p = org) (bn_settings w) of
        None \<Rightarrow> \<lparr>tp_days = None, tp_updated = None\<rparr>
      | Some p \<Rightarrow> \<lparr>tp_days = po_days p, tp_updated = Some (po_updated p)\<rparr>), w))"

text \<open>\<open>organization_settings_retention_sane\<close>.\<close>

definition retentionSane :: "nat option \<Rightarrow> bool" where
  "retentionSane days = (case days of None \<Rightarrow> True | Some d \<Rightarrow> 1 \<le> d \<and> d \<le> 3650)"

text \<open>\<open>ON CONFLICT DO NOTHING\<close> against the index on queued runs.\<close>

definition scheduleRun :: "id \<Rightarrow> nat \<Rightarrow> ('d, unit) bin" where
  "scheduleRun org runAfter = bnTx (\<lambda>w. Inr ((),
     if org \<in> fst ` set (bn_runs w) then w else w\<lparr>bn_runs := bn_runs w @ [(org, runAfter)]\<rparr>))"

definition setPolicy :: "id \<Rightarrow> nat option \<Rightarrow> id \<Rightarrow> nat \<Rightarrow> ('d, TrashPolicy) bin" where
  "setPolicy org days actor now =
     seqE (bnTx (\<lambda>w.
       let row = \<lparr>po_org = org, po_days = days, po_updated = w_now (bn_files w), po_by = actor\<rparr>
       in if \<not> retentionSane days then Inl (DatabaseError ''check'')
          else Inr ((), w\<lparr>bn_settings :=
            (if list_ex (\<lambda>p. po_org p = org) (bn_settings w)
             then map (\<lambda>p. if po_org p = org then row else p) (bn_settings w)
             else bn_settings w @ [row])\<rparr>))) (\<lambda>_.
     seqE (scheduleRun org now) (\<lambda>_. policy org))"

fun organizationsWithPolicy :: "id list \<Rightarrow> ('d, id list) bin" where
  "organizationsWithPolicy [] = ret []"
| "organizationsWithPolicy (org # orgs) =
     seqE (bnTx (\<lambda>w. Inr (list_ex (\<lambda>p. po_org p = org \<and> po_days p \<noteq> None) (bn_settings w), w))) (\<lambda>has.
     seqE (organizationsWithPolicy orgs) (\<lambda>found. ret (if has then org # found else found)))"

fun scheduleAll :: "id list \<Rightarrow> nat \<Rightarrow> ('d, unit) bin" where
  "scheduleAll [] now = ret ()"
| "scheduleAll (org # orgs) now = seqE (scheduleRun org now) (\<lambda>_. scheduleAll orgs now)"

definition onModuleInit :: "id list \<Rightarrow> nat \<Rightarrow> ('d, unit) bin" where
  "onModuleInit tenants now =
     catchE (seqE (organizationsWithPolicy tenants) (\<lambda>orgs. scheduleAll orgs now)) (\<lambda>_. ret ())"

section \<open>What has expired\<close>

text \<open>The trashed entries whose own parent is not trashed, past their time.\<close>

definition expiredRoots :: "id \<Rightarrow> nat \<Rightarrow> table \<Rightarrow> table" where
  "expiredRoots org cutoff db =
     (let rows = in_org org db in
      filter (\<lambda>r. (case fe_trashed_at r of None \<Rightarrow> False | Some t \<Rightarrow> t < cutoff)
        \<and> \<not> list_ex (\<lambda>p. fe_parent r = Some (fe_id p) \<and> fe_trashed_at p \<noteq> None) rows) rows)"

text \<open>The files at or below some rows, as often as the recursive query finds them.\<close>

definition filesBelow :: "table \<Rightarrow> table \<Rightarrow> FileEntryRow list option" where
  "filesBelow rows roots =
     map_option (\<lambda>levels. filter (\<lambda>r. fe_kind r = File) (map fst (concat levels)))
       (treeLevels (Suc (length rows)) (\<lambda>u c. u) rows (map (\<lambda>r. (r, ())) roots))"

definition impact :: "'d bin_env \<Rightarrow> id \<Rightarrow> nat option \<Rightarrow> ('d, TrashImpact) bin" where
  "impact e org days =
     (case days of
        None \<Rightarrow> ret \<lparr>ti_entries = 0, ti_files = 0, ti_bytes = 0, ti_oldest = None\<rparr>
      | Some d \<Rightarrow> bnTx (\<lambda>w.
          let db = w_entries (bn_files w);
              roots = expiredRoots org (bi_daysBefore e d (w_now (bn_files w))) db
          in case filesBelow (in_org org db) roots of
               None \<Rightarrow> Inl StatementTimeoutError
             | Some files \<Rightarrow> Inr (\<lparr>ti_entries = length roots, ti_files = length files,
                 ti_bytes = sum_list (map fe_size files),
                 ti_oldest = (case roots of [] \<Rightarrow> None | _ \<Rightarrow> Some (Min ((the \<circ> fe_trashed_at) ` set roots)))\<rparr>, w)))"

section \<open>A run\<close>

definition INTERVAL_MS :: nat where
  "INTERVAL_MS = 60 * 60000"

definition BATCH :: nat where
  "BATCH = 100"

text \<open>\<open>ORDER BY trashed_at LIMIT\<close>, each root with the bytes below it.\<close>

definition batchOf :: "id \<Rightarrow> nat \<Rightarrow> table \<Rightarrow> (FileEntryRow \<times> nat) list option" where
  "batchOf org cutoff db =
     those (map (\<lambda>r. map_option (\<lambda>files. (r, sum_list (map fe_size files))) (filesBelow (in_org org db) [r]))
       (take BATCH (order_by (\<lambda>a b. the (fe_trashed_at a) < the (fe_trashed_at b)) (expiredRoots org cutoff db))))"

definition shareOf :: "id \<Rightarrow> id \<Rightarrow> ('d, ShareRef option) bin" where
  "shareOf org share = bnTx (\<lambda>w. Inr (map_option snd (List.find (\<lambda>(o', s). o' = org \<and> sh_id s = share) (bn_shares w)), w))"

fun rootLoop :: "'d bin_env \<Rightarrow> id \<Rightarrow> (FileEntryRow \<times> nat) list \<Rightarrow> PurgeResult \<Rightarrow> ('d, PurgeResult) bin" where
  "rootLoop e org [] tally = ret tally"
| "rootLoop e org ((root, bytes) # roots) tally =
     seqE report (\<lambda>kept.
     if \<not> kept then ret tally
     else
     seqE (shareOf org (fe_share root)) (\<lambda>share.
     case share of
       None \<Rightarrow> rootLoop e org roots (tally\<lparr>pr_failed := pr_failed tally + 1\<rparr>)
     | Some s \<Rightarrow>
         seqE (catchE (seqE (onFiles (purge (bi_env e) org (fe_id root) s)) (\<lambda>_. ret True)) (\<lambda>_. ret False)) (\<lambda>ok.
         rootLoop e org roots
           (if ok then tally\<lparr>pr_purged := pr_purged tally + 1, pr_bytes := pr_bytes tally + bytes\<rparr>
            else tally\<lparr>pr_failed := pr_failed tally + 1\<rparr>))))"

definition purgeExpired :: "'d bin_env \<Rightarrow> id \<Rightarrow> ('d, PurgeResult \<times> bool) bin" where
  "purgeExpired e org =
     (let nothing = \<lparr>pr_purged = 0, pr_failed = 0, pr_bytes = 0\<rparr> in
      seqE (policy org) (\<lambda>p.
      case tp_days p of
        None \<Rightarrow> ret (nothing, False)
      | Some days \<Rightarrow>
          seqE (bnTx (\<lambda>w. case batchOf org (bi_daysBefore e days (w_now (bn_files w))) (w_entries (bn_files w)) of
                            None \<Rightarrow> Inl StatementTimeoutError | Some roots \<Rightarrow> Inr (roots, w))) (\<lambda>roots.
          seqE (rootLoop e org roots nothing) (\<lambda>result.
          ret (result, pr_purged result > 0 \<and> length roots \<ge> BATCH)))))"

text \<open>Onto the payload of the job that runs.\<close>

definition recordResult :: "id \<Rightarrow> id \<Rightarrow> PurgeResult \<Rightarrow> ('d, unit) bin" where
  "recordResult org job result = bnTx (\<lambda>w. Inr ((), w\<lparr>bn_results := bn_results w @ [(org, job, result)]\<rparr>))"

definition trashPurge :: "'d bin_env \<Rightarrow> id \<Rightarrow> id \<Rightarrow> nat \<Rightarrow> ('d, unit) bin" where
  "trashPurge e org job now =
     seqE (purgeExpired e org) (\<lambda>(result, more).
     seqE (recordResult org job result) (\<lambda>_.
     seqE (scheduleRun org (if more then now else now + INTERVAL_MS)) (\<lambda>_.
     seqE report (\<lambda>_. ret ()))))"

end
