(* ===== verification/RetentionProps.thy ===== *)
theory RetentionProps
  imports TrashRetention FileProps
begin

text \<open>What a run of the retention deletes, what it counts, and when it asks to be run again at once.\<close>

section \<open>Subtrees of a table that only loses rows\<close>

lemma dropAll_row: "x \<in> set (dropAll t org is db) \<Longrightarrow>
    \<exists>r \<in> set db. fe_id r = fe_id x \<and> fe_org r = fe_org x \<and> fe_parent r = fe_parent x"
  unfolding in_dropAll by (metis forgetSources_fields)

lemma row_up_dropAll:
  assumes "(c, r) \<in> (row_up (in_org org (dropAll t org is db)))\<^sup>*" and "r \<in> set (dropAll t org is db)"
  shows "\<exists>c' r'. r' \<in> set db \<and> fe_id r' = fe_id r \<and> fe_org r' = fe_org r \<and> fe_id c' = fe_id c
    \<and> (c', r') \<in> (row_up (in_org org db))\<^sup>*"
proof -
  obtain r' where r': "r' \<in> set db" "fe_id r' = fe_id r" "fe_org r' = fe_org r" using dropAll_row [OF assms(2)] by blast
  from assms(1) have "\<exists>c'. fe_id c' = fe_id c \<and> (c', r') \<in> (row_up (in_org org db))\<^sup>*"
  proof (induction rule: converse_rtrancl_induct)
    case base
    then show ?case using r'(2) by blast
  next
    case (step c y)
    then obtain y' where y': "fe_id y' = fe_id y" "(y', r') \<in> (row_up (in_org org db))\<^sup>*" by blast
    have c: "c \<in> set (dropAll t org is db)" "fe_org c = org" using step(1) by (auto simp: row_up_def)
    then obtain c' where c': "c' \<in> set db" "fe_org c' = org" "fe_id c' = fe_id c" "fe_parent c' = fe_parent c"
      using dropAll_row [OF c(1)] by auto
    then have "(c', y') \<in> row_up (in_org org db)" using step(1) y'(1) by (simp add: row_up_def)
    then show ?case using y'(2) c'(3) by (meson converse_rtrancl_into_rtrancl)
  qed
  with r' show ?thesis by blast
qed

lemma subtree_dropAll: "subtree (dropAll t org is db) org i \<subseteq> subtree db org i"
proof
  fix j assume "j \<in> subtree (dropAll t org is db) org i"
  then obtain c r where "r \<in> set (dropAll t org is db)" "fe_org r = org" "fe_id r = i" "fe_id c = j"
    "(c, r) \<in> (row_up (in_org org (dropAll t org is db)))\<^sup>*" unfolding subtree_def by blast
  with row_up_dropAll [of c r org t "is" db] obtain c' r' where "r' \<in> set db" "fe_id r' = i" "fe_org r' = org"
    "fe_id c' = j" "(c', r') \<in> (row_up (in_org org db))\<^sup>*" by metis
  then show "j \<in> subtree db org i" unfolding subtree_def by blast
qed

lemma dropAll_shorter:
  assumes "r \<in> set db" and "fe_org r = org" and "fe_id r \<in> is"
  shows "length (dropAll t org is db) < length db"
  unfolding dropAll_def length_map by (rule length_filter_less [OF assms(1)]) (use assms in simp)

section \<open>A run\<close>

text \<open>\<open>took pg org R t db w\<close>: at the time \<open>t\<close>, from the table \<open>db\<close> only rows below the roots \<open>R\<close> are gone.\<close>

definition took :: "pg_text \<Rightarrow> id \<Rightarrow> id set \<Rightarrow> nat \<Rightarrow> table \<Rightarrow> 'd bin_world \<Rightarrow> bool" where
  "took pg org R t db w \<longleftrightarrow> entries_ok pg (w_entries (bn_files w)) \<and> w_now (bn_files w) = t
     \<and> (\<exists>gone. gone \<subseteq> (\<Union>i \<in> R. subtree db org i) \<and> w_entries (bn_files w) = dropAll t org gone db)"

abbreviation rowsLeft :: "'d bin_world \<Rightarrow> nat" where
  "rowsLeft w \<equiv> length (w_entries (bn_files w))"

lemma took_start: "entries_ok pg (w_entries (bn_files w)) \<Longrightarrow> took pg org R (w_now (bn_files w)) (w_entries (bn_files w)) w"
  unfolding took_def by (intro conjI exI [of _ "{}"]) simp_all

lemma took_cong: "bn_files w' = bn_files w \<Longrightarrow> took pg org R t db w' = took pg org R t db w"
  by (simp add: took_def)

text \<open>Everything but \<open>purge\<close> leaves the files alone.\<close>

lemma bnTx_files:
  assumes "bnTx body w = (r, w')" and "\<And>v a v'. body v = Inr (a, v') \<Longrightarrow> bn_files v' = bn_files v"
  shows "bn_files w' = bn_files w"
  using assms by (auto simp: bnTx_def Let_def split: list.splits bool.splits sum.splits prod.splits)

lemma report_files: "report w = (r, w') \<Longrightarrow> bn_files w' = bn_files w"
  by (auto simp: report_def split: list.splits option.splits)

lemma shareOf_files: "shareOf org s w = (r, w') \<Longrightarrow> bn_files w' = bn_files w"
  unfolding shareOf_def by (erule bnTx_files) auto

lemma purge_took:
  assumes "took (env_pg e) org R t db w" and "i \<in> R" and "onFiles (purge e org i s) w = (r, w')"
  shows "took (env_pg e) org R t db w' \<and> rowsLeft w' \<le> rowsLeft w \<and> (r = Inr () \<longrightarrow> rowsLeft w' < rowsLeft w)"
proof -
  let ?now = "w_entries (bn_files w)"
  obtain gone where gone: "gone \<subseteq> (\<Union>i \<in> R. subtree db org i)" "?now = dropAll t org gone db" and ok: "entries_ok (env_pg e) ?now"
    using assms(1) unfolding took_def by blast
  have time: "w_now (bn_files w) = t" using assms(1) by (simp add: took_def)
  obtain f where run: "purge e org i s (bn_files w) = (r, f)" and w': "w' = w\<lparr>bn_files := f\<rparr>"
    using assms(3) by (auto simp: onFiles_def split: prod.splits)
  obtain more where more: "entries_ok (env_pg e) (w_entries f)" "more \<subseteq> subtree ?now org i" "w_entries f = dropAll t org more ?now" "w_now f = t"
    and all: "r = Inr () \<Longrightarrow> more = subtree ?now org i \<and> (\<exists>entry \<in> set ?now. fe_id entry = i \<and> fe_org entry = org)"
    using purge_fate [OF ok run] unfolding time by blast
  have "more \<subseteq> subtree db org i" using more(2) subtree_dropAll unfolding gone(2) by blast
  then have "took (env_pg e) org R t db w'"
    unfolding took_def w' using more gone assms(2) by (auto simp: dropAll_dropAll intro!: exI [of _ "gone \<union> more"])
  moreover have "rowsLeft w' \<le> rowsLeft w" unfolding w' by (simp add: more(3) dropAll_def)
  moreover have "rowsLeft w' < rowsLeft w" if "r = Inr ()"
  proof -
    from all [OF that] obtain entry where "entry \<in> set ?now" "fe_id entry = i" "fe_org entry = org" "more = subtree ?now org i" by blast
    then show ?thesis unfolding w' by (auto simp: more(3) subtree_def intro!: dropAll_shorter)
  qed
  ultimately show ?thesis by blast
qed

text \<open>The loop over the roots: nothing else goes, each root is counted at most once, and a counted purge is at
  least one row.\<close>

lemma rootLoop_took:
  assumes "rootLoop e org roots tally w = (r, w')" and "took (env_pg (bi_env e)) org R t db w"
    and "(fe_id \<circ> fst) ` set roots \<subseteq> R"
  shows "took (env_pg (bi_env e)) org R t db w' \<and> rowsLeft w' \<le> rowsLeft w
    \<and> (\<forall>t. r = Inr t \<longrightarrow> pr_purged t + rowsLeft w' \<le> pr_purged tally + rowsLeft w
         \<and> pr_purged t + pr_failed t \<le> pr_purged tally + pr_failed tally + length roots)"
  using assms
proof (induction roots arbitrary: tally w)
  case Nil
  then show ?case by auto
next
  case (Cons root roots)
  obtain row bytes where root: "root = (row, bytes)" by fastforce
  obtain kept u where rep: "report w = (kept, u)" by fastforce
  note u = report_files [OF rep]
  have tooku: "took (env_pg (bi_env e)) org R t db u" using Cons.prems(2) took_cong [OF u] by simp
  show ?case
  proof (cases "kept = Inr True")
    case False
    then have "w' = u \<and> (\<forall>t. r = Inr t \<longrightarrow> t = tally)" using Cons.prems(1) rep root
      by (auto simp: seqE_def split: sum.splits if_splits)
    then show ?thesis using tooku u by auto
  next
    case True
    obtain share v where sh: "shareOf org (fe_share row) u = (share, v)" by fastforce
    note v = shareOf_files [OF sh]
    have tookv: "took (env_pg (bi_env e)) org R t db v" using tooku took_cong [OF v] by simp
    consider err where "share = Inl err" | "share = Inr None" | s where "share = Inr (Some s)" by (metis sum.exhaust option.exhaust)
    then show ?thesis
    proof cases
      case 1
      then have "w' = v \<and> r = Inl err" using Cons.prems(1) rep root True sh by (simp add: seqE_def)
      then show ?thesis using tookv u v by auto
    next
      case 2
      then have "rootLoop e org roots (tally\<lparr>pr_failed := pr_failed tally + 1\<rparr>) v = (r, w')"
        using Cons.prems(1) rep root True sh by (simp add: seqE_def)
      from Cons.IH [OF this tookv] Cons.prems(3) show ?thesis using u v by auto
    next
      case 3
      obtain p x where pur: "onFiles (purge (bi_env e) org (fe_id row) s) v = (p, x)" by fastforce
      have x: "took (env_pg (bi_env e)) org R t db x \<and> rowsLeft x \<le> rowsLeft v \<and> (p = Inr () \<longrightarrow> rowsLeft x < rowsLeft v)"
        by (rule purge_took [OF tookv _ pur]) (use Cons.prems(3) root in auto)
      let ?tally = "if p = Inr () then tally\<lparr>pr_purged := pr_purged tally + 1, pr_bytes := pr_bytes tally + bytes\<rparr>
        else tally\<lparr>pr_failed := pr_failed tally + 1\<rparr>"
      have "rootLoop e org roots ?tally x = (r, w')"
        using Cons.prems(1) rep root True sh 3 pur by (cases p) (simp_all add: seqE_def catchE_def)
      from Cons.IH [OF this] x Cons.prems(3) show ?thesis using u v by (cases p) fastforce+
    qed
  qed
qed

lemma set_those: "those (map f xs) = Some ys \<Longrightarrow> length ys = length xs \<and> set ys \<subseteq> {y. \<exists>x \<in> set xs. f x = Some y}"
proof (induction xs arbitrary: ys)
  case (Cons x xs)
  then obtain z zs where "f x = Some z" "those (map f xs) = Some zs" "ys = z # zs" by (auto split: option.splits)
  with Cons.IH [of zs] show ?case by auto
qed simp

lemma batchOf_roots:
  assumes "batchOf org cutoff db = Some roots"
  shows "fst ` set roots \<subseteq> set (expiredRoots org cutoff db)" and "length roots \<le> BATCH"
proof -
  let ?old = "take BATCH (order_by (\<lambda>a b. the (fe_trashed_at a) < the (fe_trashed_at b)) (expiredRoots org cutoff db))"
  have "length roots = length ?old \<and> fst ` set roots \<subseteq> set ?old"
    using set_those [OF assms [unfolded batchOf_def]] by auto
  moreover have "set ?old \<subseteq> set (expiredRoots org cutoff db)" using set_take_subset set_order_by by metis
  ultimately show "fst ` set roots \<subseteq> set (expiredRoots org cutoff db)" and "length roots \<le> BATCH" by auto
qed

text \<open>An entry a run may begin with: in the bin for longer than the policy of its organisation says, in a folder
  that is not in the bin.\<close>

definition expiredEntry :: "'d bin_env \<Rightarrow> id \<Rightarrow> 'd bin_world \<Rightarrow> FileEntryRow \<Rightarrow> bool" where
  "expiredEntry e org w root \<longleftrightarrow> root \<in> set (w_entries (bn_files w)) \<and> fe_org root = org
     \<and> (\<exists>p days t. p \<in> set (bn_settings w) \<and> po_org p = org \<and> po_days p = Some days
          \<and> fe_trashed_at root = Some t \<and> t < bi_daysBefore e days (w_now (bn_files w)))
     \<and> (\<forall>p. p \<in> set (w_entries (bn_files w)) \<and> fe_org p = org \<and> fe_parent root = Some (fe_id p) \<longrightarrow> fe_trashed_at p = None)"

lemma expiredRoots_expired:
  assumes "po \<in> set (bn_settings w)" and "po_org po = org" and "po_days po = Some days"
    and "root \<in> set (expiredRoots org (bi_daysBefore e days (w_now (bn_files w))) (w_entries (bn_files w)))"
  shows "expiredEntry e org w root"
  using assms unfolding expiredEntry_def expiredRoots_def Let_def list_ex_iff by (auto split: option.splits)

lemma policy_files: "policy org w = (r, w') \<Longrightarrow> bn_files w' = bn_files w"
  unfolding policy_def by (erule bnTx_files) auto

lemma policy_days:
  assumes "policy org w = (Inr p, w')" and "tp_days p = Some days"
  shows "\<exists>po. po \<in> set (bn_settings w) \<and> po_org po = org \<and> po_days po = Some days"
proof -
  have "p = (case List.find (\<lambda>p. po_org p = org) (bn_settings w) of None \<Rightarrow> \<lparr>tp_days = None, tp_updated = None\<rparr>
      | Some p \<Rightarrow> \<lparr>tp_days = po_days p, tp_updated = Some (po_updated p)\<rparr>)"
    using assms(1) by (auto simp: policy_def bnTx_def Let_def split: list.splits bool.splits)
  with assms(2) obtain po where "List.find (\<lambda>p. po_org p = org) (bn_settings w) = Some po" "po_days po = Some days"
    by (auto split: option.splits)
  then show ?thesis using find_eq_Some_ex by fastforce
qed

lemma purgeExpired_took:
  assumes ok: "entries_ok (env_pg (bi_env e)) (w_entries (bn_files w))" and run: "purgeExpired e org w = (r, w')"
  shows "\<exists>R. (\<forall>i \<in> R. \<exists>root. expiredEntry e org w root \<and> fe_id root = i)
    \<and> took (env_pg (bi_env e)) org R (w_now (bn_files w)) (w_entries (bn_files w)) w'
    \<and> (\<forall>t more. r = Inr (t, more) \<longrightarrow> pr_purged t + rowsLeft w' \<le> rowsLeft w \<and> pr_purged t + pr_failed t \<le> BATCH
         \<and> (more \<longrightarrow> 0 < pr_purged t))"
proof -
  let ?db = "w_entries (bn_files w)"
  obtain p u where pol: "policy org w = (p, u)" by fastforce
  note u = policy_files [OF pol]
  have nothing_yet: "took (env_pg (bi_env e)) org R (w_now (bn_files w)) ?db x" if "bn_files x = bn_files w" for R and x :: "'a bin_world"
    using took_start [OF ok] took_cong [OF that] by blast
  show ?thesis
  proof (cases "\<exists>pol days. p = Inr pol \<and> tp_days pol = Some days")
    case False
    then have "w' = u \<and> (\<forall>t more. r = Inr (t, more) \<longrightarrow> \<not> more \<and> pr_purged t = 0 \<and> pr_failed t = 0)"
      using run pol by (auto simp: purgeExpired_def Let_def seqE_def split: sum.splits option.splits)
    then show ?thesis using nothing_yet u by (intro exI [of _ "{}"]) auto
  next
    case True
    then obtain pol days where pd: "p = Inr pol" "tp_days pol = Some days" by blast
    then obtain po where po: "po \<in> set (bn_settings w)" "po_org po = org" "po_days po = Some days"
      using policy_days pol by blast
    let ?read = "\<lambda>w. case batchOf org (bi_daysBefore e days (w_now (bn_files w))) (w_entries (bn_files w)) of
                    None \<Rightarrow> Inl StatementTimeoutError | Some roots \<Rightarrow> Inr (roots, w)"
    obtain q v where read: "bnTx ?read u = (q, v)" by fastforce
    have v: "bn_files v = bn_files u" by (rule bnTx_files [OF read]) (auto split: option.splits)
    show ?thesis
    proof (cases q)
      case (Inl err)
      then have "w' = v \<and> r = Inl err" using run pol pd read by (auto simp: purgeExpired_def Let_def seqE_def)
      then show ?thesis using nothing_yet u v by (intro exI [of _ "{}"]) auto
    next
      case (Inr roots)
      then have batch: "batchOf org (bi_daysBefore e days (w_now (bn_files w))) ?db = Some roots"
        using read u by (auto simp: bnTx_def Let_def split: list.splits bool.splits option.splits)
      let ?nothing = "\<lparr>pr_purged = 0, pr_failed = 0, pr_bytes = 0\<rparr>" and ?R = "(fe_id \<circ> fst) ` set roots"
      obtain s x where loop: "rootLoop e org roots ?nothing v = (s, x)" by fastforce
      then have fin: "w' = x \<and> (\<forall>t more. r = Inr (t, more) \<longrightarrow> s = Inr t \<and> (more \<longrightarrow> 0 < pr_purged t))"
        using run pol pd read Inr by (cases s) (auto simp: purgeExpired_def Let_def seqE_def)
      have "took (env_pg (bi_env e)) org ?R (w_now (bn_files w)) ?db v" by (rule nothing_yet) (simp add: u v)
      from rootLoop_took [OF loop this] batchOf_roots [OF batch] fin u v
      show ?thesis by (intro exI [of _ ?R]) (use expiredRoots_expired [OF po] in fastforce)
    qed
  qed
qed

text \<open>
  C40. The expiry of the bin takes only what has expired. Whatever the agent answers, whichever transactions
  fail, whether the lease holds, and whether the run returns or not: the table stays well-formed, and every row
  that is gone lies at or below an entry of the organisation that was in the bin for longer than its policy says,
  in a folder that was not in the bin; a row that stays is as it was, but for the source a copy forgets when its
  original is deleted. A run that returns counts at most one purge for each row it deleted and
  tries at most a hundred roots; one that asks to be run again at once left fewer rows than it found, so runs
  cannot follow each other without delay for ever.
\<close>

theorem purge_takes_only_what_expired:
  assumes "entries_ok (env_pg (bi_env e)) (w_entries (bn_files w))" and "purgeExpired e org w = (r, w')"
  shows "entries_ok (env_pg (bi_env e)) (w_entries (bn_files w'))
    \<and> (\<exists>gone. w_entries (bn_files w') = dropAll (w_now (bn_files w)) org gone (w_entries (bn_files w))
         \<and> (\<forall>i \<in> gone. \<exists>root. expiredEntry e org w root \<and> i \<in> subtree (w_entries (bn_files w)) org (fe_id root)))
    \<and> (\<forall>t more. r = Inr (t, more) \<longrightarrow>
         pr_purged t + length (w_entries (bn_files w')) \<le> length (w_entries (bn_files w))
         \<and> pr_purged t + pr_failed t \<le> BATCH
         \<and> (more \<longrightarrow> length (w_entries (bn_files w')) < length (w_entries (bn_files w))))"
proof -
  obtain R where R: "\<forall>i \<in> R. \<exists>root. expiredEntry e org w root \<and> fe_id root = i"
    and took: "took (env_pg (bi_env e)) org R (w_now (bn_files w)) (w_entries (bn_files w)) w'"
    and counts: "\<forall>t more. r = Inr (t, more) \<longrightarrow> pr_purged t + rowsLeft w' \<le> rowsLeft w
      \<and> pr_purged t + pr_failed t \<le> BATCH \<and> (more \<longrightarrow> 0 < pr_purged t)"
    using purgeExpired_took [OF assms] by blast
  obtain gone where gone: "gone \<subseteq> (\<Union>i \<in> R. subtree (w_entries (bn_files w)) org i)"
    "w_entries (bn_files w') = dropAll (w_now (bn_files w)) org gone (w_entries (bn_files w))"
    using took unfolding took_def by blast
  have "\<exists>root. expiredEntry e org w root \<and> i \<in> subtree (w_entries (bn_files w)) org (fe_id root)" if i: "i \<in> gone" for i
  proof -
    obtain j where j: "j \<in> R" "i \<in> subtree (w_entries (bn_files w)) org j" using gone(1) i by blast
    then obtain root where "expiredEntry e org w root" "fe_id root = j" using R by blast
    with j(2) show ?thesis by blast
  qed
  moreover have "rowsLeft w' < rowsLeft w" if "r = Inr (t, True)" for t using counts that by fastforce
  ultimately show ?thesis using took gone(2) counts unfolding took_def by (intro conjI exI [of _ gone]) simp_all
qed

definition ex_kept :: "table \<Rightarrow> unit bin_world" where
  "ex_kept db = \<lparr>bn_files = ex_world db,
     bn_settings = [\<lparr>po_org = ''o'', po_days = Some 30, po_updated = 1, po_by = ''u''\<rparr>],
     bn_runs = [], bn_shares = [(''o'', ex_share)], bn_results = [], bn_leases = [], bn_faults = []\<rparr>"

definition ex_keeper :: "unit bin_env" where
  "ex_keeper = \<lparr>bi_env = ex_env, bi_daysBefore = (\<lambda>days t. t - days)\<rparr>"

lemma ex_purge:
  "purge ex_env ''o'' ''d'' ex_share (ex_world ex_tree) = (Inr (), ex_world (take 3 ex_tree))"
  by (simp add: ex_simps ex_rows purge_def purgeNodes_def purgeNode_def dropRows_def deleteEntry_def forgetSource_def run_simps guardE_def
      nextLevel_def order_by_def)

theorem purge_takes_only_what_expired_witness:
  "\<exists>w'. purgeExpired ex_keeper ''o'' (ex_kept ex_tree) = (Inr (\<lparr>pr_purged = 1, pr_failed = 0, pr_bytes = 5\<rparr>, False), w')
     \<and> map fe_id (w_entries (bn_files w')) = [''a'', ''b'', ''c'']
     \<and> (\<exists>gone. w_entries (bn_files w') = dropAll 50 ''o'' gone ex_tree
          \<and> (\<forall>i \<in> gone. \<exists>root. expiredEntry ex_keeper ''o'' (ex_kept ex_tree) root \<and> i \<in> subtree ex_tree ''o'' (fe_id root)))"
proof -
  have batch: "batchOf ''o'' 20 ex_tree = Some [(ex_tree ! 3, 5)]"
    by (simp add: ex_rows batchOf_def expiredRoots_def filesBelow_def BATCH_def in_org_def Let_def nextLevel_def order_by_def)
  have row: "fe_share (ex_tree ! 3) = ''s''" "fe_id (ex_tree ! 3) = ''d''" "sh_id ex_share = ''s''"
    by (simp_all add: ex_rows ex_share_def)
  have files: "w_entries (ex_world ex_tree) = ex_tree" "w_now (ex_world ex_tree) = 50" "w_entries (ex_world db) = db" for db
    by (simp_all add: ex_world_def)
  have run: "purgeExpired ex_keeper ''o'' (ex_kept ex_tree)
      = (Inr (\<lparr>pr_purged = 1, pr_failed = 0, pr_bytes = 5\<rparr>, False), ex_kept (take 3 ex_tree))"
    by (simp add: purgeExpired_def policy_def bnTx_def seqE_def ex_kept_def ex_keeper_def files batch report_def shareOf_def row
        onFiles_def catchE_def ex_purge BATCH_def Let_def)
  have ok: "entries_ok (env_pg (bi_env ex_keeper)) (w_entries (bn_files (ex_kept ex_tree)))"
    using ex_tree_env_ok by (simp add: ex_keeper_def ex_kept_def)
  have at: "w_entries (bn_files (ex_kept db)) = db" "w_now (bn_files (ex_kept db)) = 50" for db
    by (simp_all add: ex_kept_def ex_world_def)
  have "map fe_id (take 3 ex_tree) = [''a'', ''b'', ''c'']" by (simp add: ex_rows)
  moreover note purge_takes_only_what_expired [OF ok run, unfolded at]
  ultimately show ?thesis using run by (intro exI [of _ "ex_kept (take 3 ex_tree)"]) (unfold at, blast)
qed

section \<open>Counting twice\<close>

text \<open>A file was put in the bin, and later the folder above its own. It is a root, since its parent is not in the
  bin, and the folder is one: the five bytes are announced as ten, and a run counts them twice as well.\<close>

definition ex_nested :: table where
  "ex_nested = [(ex_sized ''a'' None Folder ''A'' ''/A'' 0)\<lparr>fe_trashed_at := Some 8, fe_trashed_by := Some ''u''\<rparr>,
     ex_sized ''b'' (Some ''a'') Folder ''B'' ''/A/B'' 0,
     (ex_sized ''c'' (Some ''b'') File ''f'' ''/A/B/f'' 5)\<lparr>fe_trashed_at := Some 4, fe_trashed_by := Some ''u''\<rparr>]"

lemma ex_nested_expired: "in_org ''o'' ex_nested = ex_nested" "expiredRoots ''o'' 20 ex_nested = [ex_nested ! 0, ex_nested ! 2]"
  by (simp_all add: ex_nested_def ex_sized_def ex_row_def expiredRoots_def in_org_def Let_def)

lemma ex_nested_files: "filesBelow ex_nested [ex_nested ! 0, ex_nested ! 2] = Some [ex_nested ! 2, ex_nested ! 2]"
  by (simp add: filesBelow_def ex_nested_def ex_sized_def ex_row_def nextLevel_def)

lemma impact_counts_twice:
  "fst (impact ex_keeper ''o'' (Some 30) (ex_kept ex_nested))
     = Inr \<lparr>ti_entries = 2, ti_files = 2, ti_bytes = 10, ti_oldest = Some 4\<rparr>"
proof -
  have "w_entries (ex_world ex_nested) = ex_nested" "w_now (ex_world ex_nested) = 50" by (simp_all add: ex_world_def)
  moreover have "fe_size (ex_nested ! 2) = 5" "fe_trashed_at (ex_nested ! 0) = Some 8" "fe_trashed_at (ex_nested ! 2) = Some 4"
    by (simp_all add: ex_nested_def ex_sized_def ex_row_def)
  ultimately show ?thesis
    by (simp add: impact_def bnTx_def ex_kept_def ex_keeper_def ex_nested_expired ex_nested_files Let_def)
qed

end
