(* ===== verification/Exif.thy ===== *)
theory Exif
  imports Prelude "HOL-Library.Word"
begin

text \<open>
  \<open>embeddedThumbnail\<close> (\<open>apps/api/src/files/exif-thumbnail.ts\<close>): the JPEG a photograph carries in its EXIF
  section, cut out of bytes nobody has checked. A buffer is a list of bytes. What the language does out of
  range is written out: \<open>buffer[i]\<close> is \<open>undefined\<close>, here \<open>None\<close>; \<open>readUInt16BE\<close> and its kin throw, here \<open>Inl\<close>;
  \<open>subarray\<close> cuts off. Offsets stay far below 2 to the 53.
\<close>

type_synonym octets = "8 word list"

datatype js_error = RangeError

section \<open>Reading a buffer\<close>

definition byteAt :: "octets \<Rightarrow> nat \<Rightarrow> 8 word option" where
  "byteAt buffer i = (if i < length buffer then Some (buffer ! i) else None)"

definition subarray :: "octets \<Rightarrow> nat \<Rightarrow> nat \<Rightarrow> octets" where
  "subarray buffer start stop = take (stop - start) (drop start buffer)"

definition bigEndian :: "octets \<Rightarrow> nat" where
  "bigEndian bs = foldl (\<lambda>n b. n * 256 + unat b) 0 bs"

text \<open>\<open>readUIntBE\<close> and \<open>readUIntLE\<close> of two or four octets.\<close>

definition readUInt :: "bool \<Rightarrow> nat \<Rightarrow> octets \<Rightarrow> nat \<Rightarrow> js_error + nat" where
  "readUInt little width buffer i =
     (if i + width > length buffer then Inl RangeError
      else let bs = subarray buffer i (i + width) in Inr (bigEndian (if little then rev bs else bs)))"

section \<open>The EXIF section\<close>

record EmbeddedThumbnail =
  et_bytes :: octets
  et_orientation :: nat

definition SOI :: "8 word" where "SOI = 0xd8"
definition APP1 :: "8 word" where "APP1 = 0xe1"
definition SOS :: "8 word" where "SOS = 0xda"

definition MAX_THUMBNAIL :: nat where
  "MAX_THUMBNAIL = 256 * 1024"

text \<open>The closures \<open>u16\<close> and \<open>u32\<close>: \<open>null\<close> beyond the end.\<close>

definition u16 :: "bool \<Rightarrow> octets \<Rightarrow> nat \<Rightarrow> js_error + nat option" where
  "u16 little tiff i = (if i + 2 > length tiff then Inr None else bindE (readUInt little 2 tiff i) (\<lambda>n. Inr (Some n)))"

definition u32 :: "bool \<Rightarrow> octets \<Rightarrow> nat \<Rightarrow> js_error + nat option" where
  "u32 little tiff i = (if i + 4 > length tiff then Inr None else bindE (readUInt little 4 tiff i) (\<lambda>n. Inr (Some n)))"

text \<open>The loop of \<open>tagValue\<close>, over the entries that are left.\<close>

fun tagLoop :: "bool \<Rightarrow> octets \<Rightarrow> nat \<Rightarrow> nat list \<Rightarrow> js_error + nat option" where
  "tagLoop little tiff tag [] = Inr None"
| "tagLoop little tiff tag (i # entries) =
     bindE (u16 little tiff i) (\<lambda>found.
     if found \<noteq> Some tag then tagLoop little tiff tag entries
     else
     bindE (u16 little tiff (i + 2)) (\<lambda>type.
     bindE (u32 little tiff (i + 4)) (\<lambda>values.
     if values \<noteq> Some 1 then Inr None
     else if type = Some 3 then u16 little tiff (i + 8)
     else if type = Some 4 then u32 little tiff (i + 8)
     else Inr None)))"

definition tagValue :: "bool \<Rightarrow> octets \<Rightarrow> nat \<Rightarrow> nat \<Rightarrow> js_error + nat option" where
  "tagValue little tiff ifd tag =
     bindE (u16 little tiff ifd) (\<lambda>count.
     case count of
       None \<Rightarrow> Inr None
     | Some n \<Rightarrow>
         if n > 4096 then Inr None
         else if ifd + 2 + n * 12 > length tiff then Inr None
         else tagLoop little tiff tag (map (\<lambda>i. ifd + 2 + i * 12) [0..<n]))"

text \<open>The last checks and the cut.\<close>

definition cutThumbnail :: "octets \<Rightarrow> nat option \<Rightarrow> nat option \<Rightarrow> nat option \<Rightarrow> EmbeddedThumbnail option" where
  "cutThumbnail tiff orientation offset len =
     (case (offset, len) of
        (Some start, Some n) \<Rightarrow>
          if n = 0 \<or> n > MAX_THUMBNAIL then None
          else if start + n > length tiff then None
          else
            (let bs = subarray tiff start (start + n);
                 turn = (case orientation of None \<Rightarrow> 1 | Some k \<Rightarrow> k)
             in if length bs < 2 \<or> byteAt bs 0 \<noteq> Some 0xff \<or> byteAt bs 1 \<noteq> Some SOI then None
                else Some \<lparr>et_bytes = bs, et_orientation = (if 1 \<le> turn \<and> turn \<le> 8 then turn else 1)\<rparr>)
      | _ \<Rightarrow> None)"

definition fromExif :: "octets \<Rightarrow> js_error + EmbeddedThumbnail option" where
  "fromExif tiff =
     (if length tiff < 8 then Inr None
      else
        let order = subarray tiff 0 2 in
        if order \<noteq> [0x49, 0x49] \<and> order \<noteq> [0x4d, 0x4d] then Inr None
        else
          let little = (order = [0x49, 0x49]) in
          bindE (u16 little tiff 2) (\<lambda>magic.
          if magic \<noteq> Some 0x2a then Inr None
          else
          bindE (u32 little tiff 4) (\<lambda>first.
          case first of
            None \<Rightarrow> Inr None
          | Some ifd0 \<Rightarrow>
              if ifd0 < 8 then Inr None
              else
              bindE (tagValue little tiff ifd0 0x0112) (\<lambda>orientation.
              bindE (u16 little tiff ifd0) (\<lambda>count0.
              case count0 of
                None \<Rightarrow> Inr None
              | Some n \<Rightarrow>
                  bindE (u32 little tiff (ifd0 + 2 + n * 12)) (\<lambda>second.
                  case second of
                    None \<Rightarrow> Inr None
                  | Some ifd1 \<Rightarrow>
                      if ifd1 < 8 then Inr None
                      else
                      bindE (tagValue little tiff ifd1 0x0201) (\<lambda>offset.
                      bindE (tagValue little tiff ifd1 0x0202) (\<lambda>len.
                      Inr (cutThumbnail tiff orientation offset len)))))))))"

section \<open>The segments of the file\<close>

text \<open>\<open>Exif\<close> and two zeros.\<close>

definition EXIF :: octets where
  "EXIF = [0x45, 0x78, 0x69, 0x66, 0, 0]"

function segments :: "octets \<Rightarrow> nat \<Rightarrow> js_error + EmbeddedThumbnail option" where
  "segments buffer i =
     (if i + 4 > length buffer then Inr None
      else if byteAt buffer i \<noteq> Some 0xff then Inr None
      else
        (case byteAt buffer (i + 1) of
           None \<Rightarrow> Inr None
         | Some marker \<Rightarrow>
             if marker = 0xff then segments buffer (i + 1)
             else if marker = SOS then Inr None
             else
             (case readUInt False 2 buffer (i + 2) of
                Inl err \<Rightarrow> Inl err
              | Inr len \<Rightarrow>
                  if len < 2 then Inr None
                  else if i + 2 + len > length buffer then Inr None
                  else if marker = APP1 \<and> subarray buffer (i + 4) (i + 10) = EXIF
                  then fromExif (subarray buffer (i + 10) (i + 2 + len))
                  else segments buffer (i + 2 + len))))"
  by pat_completeness auto

termination
  by (relation "measure (\<lambda>(buffer, i). length buffer - i)") auto

declare segments.simps [simp del]

definition embeddedThumbnail :: "octets \<Rightarrow> js_error + EmbeddedThumbnail option" where
  "embeddedThumbnail buffer =
     (if length buffer < 4 \<or> byteAt buffer 0 \<noteq> Some 0xff \<or> byteAt buffer 1 \<noteq> Some SOI then Inr None
      else segments buffer 2)"

end
