(* ===== verification/ExifProps.thy ===== *)
theory ExifProps
  imports Exif
begin

text \<open>That \<open>embeddedThumbnail\<close> never reads outside its buffer, what it cuts out, and that it finds what a camera
  wrote.\<close>

section \<open>Nothing is read out of range\<close>

lemma readUInt_defined: "i + width \<le> length buffer \<Longrightarrow> \<exists>n. readUInt little width buffer i = Inr n"
  by (simp add: readUInt_def Let_def)

lemma u16_defined [simp]: "\<exists>n. u16 little tiff i = Inr n"
  using readUInt_defined [of i 2 tiff little] by (cases "i + 2 > length tiff") (auto simp: u16_def)

lemma u32_defined [simp]: "\<exists>n. u32 little tiff i = Inr n"
  using readUInt_defined [of i 4 tiff little] by (cases "i + 4 > length tiff") (auto simp: u32_def)

lemma bindE_defined: "\<exists>a. m = Inr a \<Longrightarrow> (\<And>a. \<exists>b. k a = Inr b) \<Longrightarrow> \<exists>b. bindE m k = Inr b"
  by auto

lemma tagLoop_defined [simp]: "\<exists>n. tagLoop little tiff tag entries = Inr n"
  by (induction entries) (auto intro!: bindE_defined)

lemma tagValue_defined [simp]: "\<exists>n. tagValue little tiff ifd tag = Inr n"
  unfolding tagValue_def by (auto intro!: bindE_defined split: option.split)

section \<open>What is cut out\<close>

text \<open>\<open>sliceOf t buffer\<close>: the answer is a piece of the buffer, begins like a JPEG, and is not too long.\<close>

definition sliceOf :: "EmbeddedThumbnail \<Rightarrow> octets \<Rightarrow> bool" where
  "sliceOf t buffer \<longleftrightarrow> (\<exists>before later. buffer = before @ et_bytes t @ later)
     \<and> (\<exists>rest. et_bytes t = 0xff # SOI # rest) \<and> length (et_bytes t) \<le> MAX_THUMBNAIL
     \<and> 1 \<le> et_orientation t \<and> et_orientation t \<le> 8"

lemma subarray_piece: "\<exists>before later. buffer = before @ subarray buffer start stop @ later"
  unfolding subarray_def by (metis append_take_drop_id)

lemma sliceOf_subarray: "sliceOf t (subarray buffer start stop) \<Longrightarrow> sliceOf t buffer"
proof -
  assume t: "sliceOf t (subarray buffer start stop)"
  obtain a b where "buffer = a @ subarray buffer start stop @ b" using subarray_piece by blast
  moreover obtain c d where "subarray buffer start stop = c @ et_bytes t @ d" using t unfolding sliceOf_def by blast
  ultimately have "buffer = (a @ c) @ et_bytes t @ (d @ b)" by simp
  then show ?thesis using t unfolding sliceOf_def by blast
qed

lemma jpeg_start: "\<not> length bs < 2 \<Longrightarrow> byteAt bs 0 = Some x \<Longrightarrow> byteAt bs 1 = Some y \<Longrightarrow> \<exists>rest. bs = x # y # rest"
  by (cases bs; cases "tl bs") (auto simp: byteAt_def)

lemma cutThumbnail_slice: "cutThumbnail tiff orientation offset len = Some t \<Longrightarrow> sliceOf t tiff"
  unfolding sliceOf_def cutThumbnail_def using subarray_piece [of tiff] jpeg_start
  by (auto simp: Let_def split: option.splits if_splits) (simp_all add: subarray_def)

lemma fromExif_fine: "\<exists>r. fromExif tiff = Inr r \<and> (\<forall>t. r = Some t \<longrightarrow> sliceOf t tiff)"
proof -
  have cut: "\<exists>r. Inr (cutThumbnail tiff orientation offset len) = (Inr r :: js_error + _) \<and> (\<forall>t. r = Some t \<longrightarrow> sliceOf t tiff)"
    for orientation offset len using cutThumbnail_slice by blast
  have seq: "\<exists>r. bindE m k = Inr r \<and> (\<forall>t. r = Some t \<longrightarrow> sliceOf t tiff)"
    if "\<exists>a. m = Inr a" and "\<And>a. \<exists>r. k a = Inr r \<and> (\<forall>t. r = Some t \<longrightarrow> sliceOf t tiff)"
    for m :: "js_error + 'a" and k using that by auto
  show ?thesis unfolding fromExif_def Let_def
    by (auto intro!: seq cut split: option.split)
qed

lemma segments_fine: "\<exists>r. segments buffer i = Inr r \<and> (\<forall>t. r = Some t \<longrightarrow> sliceOf t buffer)"
proof (induction buffer i rule: segments.induct)
  case (1 buffer i)
  show ?case
  proof (cases "i + 4 > length buffer")
    case False
    then obtain len where len: "readUInt False 2 buffer (i + 2) = Inr len" using readUInt_defined [of "i + 2" 2 buffer False] by auto
    obtain marker where marker: "byteAt buffer (i + 1) = Some marker" using False by (simp add: byteAt_def)
    obtain r where "fromExif (subarray buffer (i + 10) (i + 2 + len)) = Inr r" "\<forall>t. r = Some t \<longrightarrow> sliceOf t buffer"
      using fromExif_fine sliceOf_subarray by blast
    with 1 False len marker show ?thesis by (subst segments.simps) auto
  qed (subst segments.simps, simp)
qed

section \<open>What a camera writes\<close>

fun put :: "nat \<Rightarrow> nat \<Rightarrow> octets" where
  "put 0 n = []"
| "put (Suc width) n = put width (n div 256) @ [of_nat n]"

definition putField :: "bool \<Rightarrow> nat \<times> nat \<Rightarrow> octets" where
  "putField little f = (let bs = put (fst f) (snd f) in if little then rev bs else bs)"

lemma length_put [simp]: "length (put width n) = width"
  by (induction width arbitrary: n) auto

lemma length_putField [simp]: "length (putField little f) = fst f"
  by (simp add: putField_def Let_def)

lemma bigEndian_put: "bigEndian (put width n) = n mod 256 ^ width"
proof (induction width arbitrary: n)
  case (Suc width)
  have "n mod 256 ^ Suc width = 256 * (n div 256 mod 256 ^ width) + n mod 256"
    by (simp add: mod_mult2_eq)
  then show ?case using Suc [of "n div 256"] by (simp add: bigEndian_def unat_of_nat)
qed (simp add: bigEndian_def)

lemma readUInt_field:
  assumes "buffer = a @ putField little (width, n) @ c" and "length a = i" and "n < 256 ^ width"
  shows "readUInt little width buffer i = Inr n"
  using assms by (auto simp: readUInt_def subarray_def putField_def Let_def bigEndian_put)

text \<open>\<open>stands piece i tiff\<close>: from byte \<open>i\<close> on, \<open>tiff\<close> holds \<open>piece\<close>.\<close>

definition stands :: "octets \<Rightarrow> nat \<Rightarrow> octets \<Rightarrow> bool" where
  "stands piece i tiff \<longleftrightarrow> i + length piece \<le> length tiff \<and> subarray tiff i (i + length piece) = piece"

lemma stands_append: "stands piece i tiff \<longleftrightarrow> (\<exists>a c. tiff = a @ piece @ c \<and> length a = i)"
proof
  assume "stands piece i tiff"
  then have i: "i + length piece \<le> length tiff" and piece: "take (length piece) (drop i tiff) = piece"
    by (simp_all add: stands_def subarray_def)
  from piece have "tiff = take i tiff @ piece @ drop (length piece) (drop i tiff)" by (metis append_take_drop_id)
  moreover have "length (take i tiff) = i" using i by simp
  ultimately show "\<exists>a c. tiff = a @ piece @ c \<and> length a = i" by blast
qed (auto simp: stands_def subarray_def)

lemma stands_left: "stands (p @ q) i tiff \<Longrightarrow> stands p i tiff"
  unfolding stands_append by auto

lemma stands_right: "stands (p @ q) i tiff \<Longrightarrow> j = i + length p \<Longrightarrow> stands q j tiff"
  unfolding stands_append by (metis append.assoc length_append)

lemma stands_bound: "stands p i tiff \<Longrightarrow> i + length p \<le> length tiff"
  by (simp add: stands_def)

lemma u16_stands: "stands (putField little (2, n)) i tiff \<Longrightarrow> n < 65536 \<Longrightarrow> u16 little tiff i = Inr (Some n)"
  using stands_bound [of "putField little (2, n)" i tiff] readUInt_field [of tiff _ little 2 n _ i]
  by (auto simp: u16_def stands_append)

lemma u32_stands: "stands (putField little (4, n)) i tiff \<Longrightarrow> n < 4294967296 \<Longrightarrow> u32 little tiff i = Inr (Some n)"
  using stands_bound [of "putField little (4, n)" i tiff] readUInt_field [of tiff _ little 4 n _ i]
  by (auto simp: u32_def stands_append)

text \<open>An entry of a directory has a tag and what it holds: one number of two octets, one of four, or anything else.\<close>

datatype content = Short nat octets | Long nat | Other nat nat octets

fun sound_content :: "content \<Rightarrow> bool" where
  "sound_content (Short n pad) = (n < 65536 \<and> length pad = 2)"
| "sound_content (Long n) = (n < 4294967296)"
| "sound_content (Other type number bs) =
     (type < 65536 \<and> number < 4294967296 \<and> length bs = 4 \<and> (number \<noteq> 1 \<or> type \<noteq> 3 \<and> type \<noteq> 4))"

fun contentBytes :: "bool \<Rightarrow> content \<Rightarrow> octets" where
  "contentBytes little (Short n pad) = putField little (2, 3) @ putField little (4, 1) @ putField little (2, n) @ pad"
| "contentBytes little (Long n) = putField little (2, 4) @ putField little (4, 1) @ putField little (4, n)"
| "contentBytes little (Other type number bs) = putField little (2, type) @ putField little (4, number) @ bs"

fun contentNumber :: "content \<Rightarrow> nat option" where
  "contentNumber (Short n pad) = Some n"
| "contentNumber (Long n) = Some n"
| "contentNumber (Other type number bs) = None"

definition entryBytes :: "bool \<Rightarrow> nat \<times> content \<Rightarrow> octets" where
  "entryBytes little e = putField little (2, fst e) @ contentBytes little (snd e)"

definition soundDirectory :: "(nat \<times> content) list \<Rightarrow> bool" where
  "soundDirectory es \<longleftrightarrow> length es \<le> 4096 \<and> list_all (\<lambda>e. fst e < 65536 \<and> sound_content (snd e)) es"

definition directory :: "bool \<Rightarrow> (nat \<times> content) list \<Rightarrow> octets" where
  "directory little es = putField little (2, length es) @ concat (map (entryBytes little) es)"

text \<open>The number a directory gives for a tag: that of the first entry with the tag.\<close>

definition numberOf :: "nat \<Rightarrow> (nat \<times> content) list \<Rightarrow> nat option" where
  "numberOf tag es = (case find (\<lambda>e. fst e = tag) es of None \<Rightarrow> None | Some e \<Rightarrow> contentNumber (snd e))"

lemma length_contentBytes: "sound_content c \<Longrightarrow> length (contentBytes little c) = 10"
  by (cases c) auto

lemma length_entryBytes: "sound_content (snd e) \<Longrightarrow> length (entryBytes little e) = 12"
  by (simp add: entryBytes_def length_contentBytes)

lemma length_entries: "list_all (\<lambda>e. fst e < 65536 \<and> sound_content (snd e)) es
    \<Longrightarrow> length (concat (map (entryBytes little) es)) = length es * 12"
  by (induction es) (auto simp: length_entryBytes)

lemma length_directory: "soundDirectory es \<Longrightarrow> length (directory little es) = 2 + length es * 12"
  by (simp add: directory_def soundDirectory_def length_entries)

lemma stands_both: "stands (p @ q) i tiff \<Longrightarrow> stands p i tiff \<and> stands q (i + length p) tiff"
  by (blast intro: stands_left stands_right)

lemma entry_content:
  assumes "stands (contentBytes little c) (i + 2) tiff" and "sound_content c" and "u16 little tiff i = Inr (Some tag)"
  shows "tagLoop little tiff tag (i # later) = Inr (contentNumber c)"
proof (cases c)
  case (Short n pad)
  with assms(1) have "stands (putField little (2, 3)) (i + 2) tiff" "stands (putField little (4, 1)) (i + 4) tiff"
    "stands (putField little (2, n)) (i + 8) tiff"
    by (auto simp: numeral_eq_Suc dest!: stands_both)
  then show ?thesis using Short assms(2,3) by (simp add: u16_stands u32_stands)
next
  case (Long n)
  with assms(1) have "stands (putField little (2, 4)) (i + 2) tiff" "stands (putField little (4, 1)) (i + 4) tiff"
    "stands (putField little (4, n)) (i + 8) tiff"
    by (auto simp: numeral_eq_Suc dest!: stands_both)
  then show ?thesis using Long assms(2,3) by (simp add: u16_stands u32_stands)
next
  case (Other type number bs)
  with assms(1) have "stands (putField little (2, type)) (i + 2) tiff" "stands (putField little (4, number)) (i + 4) tiff"
    by (auto simp: numeral_eq_Suc dest!: stands_both)
  then show ?thesis using Other assms(2,3) by (auto simp: u16_stands u32_stands)
qed

lemma tagLoop_entries:
  assumes "stands (concat (map (entryBytes little) es)) i tiff"
    and "list_all (\<lambda>e. fst e < 65536 \<and> sound_content (snd e)) es"
  shows "tagLoop little tiff tag (map (\<lambda>k. i + k * 12) [0..<length es]) = Inr (numberOf tag es)"
  using assms
proof (induction es arbitrary: i)
  case (Cons e es)
  have e: "fst e < 65536" "sound_content (snd e)" using Cons.prems(2) by simp_all
  have here: "stands (putField little (2, fst e)) i tiff" "stands (contentBytes little (snd e)) (i + 2) tiff"
    using stands_left [of "entryBytes little e" _ i tiff] Cons.prems(1) stands_right [of "putField little (2, fst e)" _ i tiff]
    by (auto simp: entryBytes_def dest: stands_left)
  have later: "stands (concat (map (entryBytes little) es)) (i + 12) tiff"
    using Cons.prems(1) e stands_right [of "entryBytes little e" _ i tiff] by (simp add: length_entryBytes)
  have slots: "map (\<lambda>k. i + k * 12) [0..<length (e # es)] = i # map (\<lambda>k. i + 12 + k * 12) [0..<length es]"
    unfolding length_Cons map_upt_Suc by (simp add: add.assoc)
  note found = u16_stands [OF here(1) e(1)]
  show ?case
  proof (cases "fst e = tag")
    case True
    then show ?thesis unfolding slots using entry_content [OF here(2) e(2)] found by (simp add: numberOf_def)
  next
    case False
    then show ?thesis unfolding slots using Cons.IH [OF later] Cons.prems(2) found by (simp add: numberOf_def)
  qed
qed (simp add: numberOf_def)

lemma tagValue_directory:
  assumes "stands (directory little es) ifd tiff" and "soundDirectory es"
  shows "tagValue little tiff ifd tag = Inr (numberOf tag es)"
proof -
  have es: "length es \<le> 4096" "list_all (\<lambda>e. fst e < 65536 \<and> sound_content (snd e)) es"
    using assms(2) by (simp_all add: soundDirectory_def)
  have "u16 little tiff ifd = Inr (Some (length es))"
    using assms(1) es(1) by (auto simp: directory_def intro!: u16_stands dest: stands_left)
  moreover have "stands (concat (map (entryBytes little) es)) (ifd + 2) tiff"
    using assms(1) unfolding directory_def by (rule stands_right) simp
  moreover have "ifd + 2 + length es * 12 \<le> length tiff"
    using stands_bound [OF assms(1)] length_directory [OF assms(2)] by simp
  ultimately show ?thesis using es tagLoop_entries [of little es "ifd + 2" tiff tag] by (simp add: tagValue_def)
qed

text \<open>
  An EXIF section: the byte order, the mark 42, the place of the first directory, at that place the first directory
  and the place of the second, and there the second. The directories may stand anywhere behind the eighth byte, in
  either order, with any entries and any bytes between.
\<close>

definition exifLayout :: "bool \<Rightarrow> nat \<Rightarrow> (nat \<times> content) list \<Rightarrow> nat \<Rightarrow> (nat \<times> content) list \<Rightarrow> octets \<Rightarrow> bool" where
  "exifLayout little ifd0 dir0 ifd1 dir1 tiff \<longleftrightarrow>
     stands (if little then [0x49, 0x49] else [0x4d, 0x4d]) 0 tiff
     \<and> stands (putField little (2, 0x2a)) 2 tiff \<and> stands (putField little (4, ifd0)) 4 tiff
     \<and> 8 \<le> ifd0 \<and> ifd0 < 4294967296 \<and> soundDirectory dir0
     \<and> stands (directory little dir0 @ putField little (4, ifd1)) ifd0 tiff
     \<and> 8 \<le> ifd1 \<and> ifd1 < 4294967296 \<and> soundDirectory dir1 \<and> stands (directory little dir1) ifd1 tiff"

text \<open>The section carries the picture: the second directory says where it stands and how long it is.\<close>

definition carries :: "octets \<Rightarrow> (nat \<times> content) list \<Rightarrow> octets \<Rightarrow> bool" where
  "carries jpeg dir1 tiff \<longleftrightarrow>
     (case numberOf 0x0201 dir1 of None \<Rightarrow> False | Some start \<Rightarrow> stands jpeg start tiff)
     \<and> numberOf 0x0202 dir1 = Some (length jpeg)
     \<and> 2 \<le> length jpeg \<and> length jpeg \<le> MAX_THUMBNAIL \<and> take 2 jpeg = [0xff, SOI]"

definition orientationOf :: "(nat \<times> content) list \<Rightarrow> nat" where
  "orientationOf dir0 = (case numberOf 0x0112 dir0 of None \<Rightarrow> 1 | Some turn \<Rightarrow> if turn \<in> {1..8} then turn else 1)"

lemma cutThumbnail_carries:
  assumes "carries jpeg dir1 tiff"
  shows "cutThumbnail tiff (numberOf 0x0112 dir0) (numberOf 0x0201 dir1) (numberOf 0x0202 dir1)
    = Some \<lparr>et_bytes = jpeg, et_orientation = orientationOf dir0\<rparr>"
proof -
  obtain start where start: "numberOf 0x0201 dir1 = Some start" "stands jpeg start tiff"
    using assms unfolding carries_def by (auto split: option.splits)
  have jpeg: "2 \<le> length jpeg" "length jpeg \<le> MAX_THUMBNAIL" "take 2 jpeg = [0xff, SOI]" "numberOf 0x0202 dir1 = Some (length jpeg)"
    using assms by (simp_all add: carries_def)
  obtain r where r: "jpeg = 0xff # SOI # r"
    using jpeg(1,3) by (cases jpeg; cases "tl jpeg") (auto simp: numeral_2_eq_2)
  have "start + length jpeg \<le> length tiff" "subarray tiff start (start + length jpeg) = jpeg"
    using start(2) by (simp_all add: stands_def)
  then show ?thesis using jpeg r start(1)
    by (simp add: cutThumbnail_def Let_def byteAt_def orientationOf_def split: option.split)
qed

lemma fromExif_finds:
  assumes "exifLayout little ifd0 dir0 ifd1 dir1 tiff" and "carries jpeg dir1 tiff"
  shows "fromExif tiff = Inr (Some \<lparr>et_bytes = jpeg, et_orientation = orientationOf dir0\<rparr>)"
proof -
  have lay: "stands (if little then [0x49, 0x49] else [0x4d, 0x4d]) 0 tiff" "stands (putField little (2, 0x2a)) 2 tiff"
    "stands (putField little (4, ifd0)) 4 tiff" "8 \<le> ifd0" "ifd0 < 4294967296" "soundDirectory dir0"
    "stands (directory little dir0 @ putField little (4, ifd1)) ifd0 tiff" "8 \<le> ifd1" "ifd1 < 4294967296"
    "soundDirectory dir1" "stands (directory little dir1) ifd1 tiff"
    using assms(1) by (simp_all add: exifLayout_def)
  have order: "subarray tiff 0 2 = (if little then [0x49, 0x49] else [0x4d, 0x4d])" and long: "8 \<le> length tiff"
    using lay(1) stands_bound [OF lay(3)] by (auto simp: stands_def numeral_2_eq_2 split: if_splits)
  have dir: "stands (directory little dir0) ifd0 tiff" using lay(7) by (rule stands_left)
  then have "stands (putField little (2, length dir0)) ifd0 tiff" by (simp add: directory_def stands_left)
  then have count: "u16 little tiff ifd0 = Inr (Some (length dir0))"
    by (rule u16_stands) (use lay(6) in \<open>simp add: soundDirectory_def\<close>)
  have "stands (putField little (4, ifd1)) (ifd0 + 2 + length dir0 * 12) tiff"
    using lay(7) by (rule stands_right) (simp add: length_directory lay(6))
  then have second: "u32 little tiff (ifd0 + 2 + length dir0 * 12) = Inr (Some ifd1)" using lay(9) by (rule u32_stands)
  have head: "u16 little tiff 2 = Inr (Some 0x2a)" "u32 little tiff 4 = Inr (Some ifd0)"
    using u16_stands [OF lay(2)] u32_stands [OF lay(3,5)] by simp_all
  show ?thesis using order long head count second lay(4,8) tagValue_directory [OF dir lay(6)]
      tagValue_directory [OF lay(11,10)] cutThumbnail_carries [OF assms(2)]
    by (cases little) (simp_all add: fromExif_def Let_def)
qed

section \<open>The segments of a photograph\<close>

text \<open>A segment may begin with any number of fill bytes.\<close>

definition segment :: "nat \<Rightarrow> 8 word \<Rightarrow> octets \<Rightarrow> octets" where
  "segment fill marker payload = replicate fill 0xff @ [0xff, marker] @ put 2 (2 + length payload) @ payload"

definition photograph :: "(nat \<times> 8 word \<times> octets) list \<Rightarrow> nat \<Rightarrow> octets \<Rightarrow> octets \<Rightarrow> octets" where
  "photograph others fill tiff rest =
     [0xff, SOI] @ concat (map (\<lambda>(fill, marker, payload). segment fill marker payload) others)
     @ segment fill APP1 (EXIF @ tiff) @ rest"

text \<open>The segments to be passed by: not the picture itself, not an EXIF section.\<close>

definition skipped :: "nat \<times> 8 word \<times> octets \<Rightarrow> bool" where
  "skipped = (\<lambda>(fill, marker, payload). marker \<noteq> 0xff \<and> marker \<noteq> SOS \<and> length payload < 65534
     \<and> (marker \<noteq> APP1 \<or> take 6 payload \<noteq> EXIF))"

lemma length_segment: "length (segment fill marker payload) = fill + (4 + length payload)"
  by (simp add: segment_def)

lemma segments_fill:
  "buffer = a @ replicate fill 0xff @ [0xff] @ c \<Longrightarrow> 3 \<le> length c \<Longrightarrow> segments buffer (length a) = segments buffer (length a + fill)"
proof (induction fill arbitrary: a)
  case (Suc fill)
  have fill: "buffer = a @ 0xff # 0xff # replicate fill 0xff @ c"
    using Suc.prems(1) by (metis append_Cons append_Nil replicate_Suc replicate_app_Cons_same append_assoc)
  then have "byteAt buffer (length a) = Some 0xff" "byteAt buffer (length a + 1) = Some 0xff" "length a + 4 \<le> length buffer"
    using Suc.prems(2) by (simp_all add: byteAt_def nth_append)
  then have "segments buffer (length a) = segments buffer (length a + 1)" by (subst segments.simps) simp
  also have "\<dots> = segments buffer (length (a @ [0xff]))" by simp
  also have "\<dots> = segments buffer (length (a @ [0xff]) + fill)" by (rule Suc.IH) (use Suc.prems in simp_all)
  finally show ?case by simp
qed simp

lemma readUInt_segment:
  assumes "buffer = a @ segment 0 marker payload @ c" and "length a = i" and "length payload < 65534"
  shows "readUInt False 2 buffer (i + 2) = Inr (2 + length payload)"
  by (rule readUInt_field [of _ "a @ [0xff, marker]" _ _ _ "payload @ c"])
    (use assms in \<open>simp_all add: segment_def putField_def\<close>)

lemma segment_bytes:
  assumes "buffer = a @ segment 0 marker payload @ c" and "length a = i"
  shows "byteAt buffer i = Some 0xff" "byteAt buffer (i + 1) = Some marker" "i + 4 + length payload \<le> length buffer"
    "subarray buffer (i + 4) (i + 10) = take 6 (payload @ c)"
  using assms by (auto simp: byteAt_def segment_def nth_append subarray_def)

lemma segment_behind_fill: "segment fill marker payload = replicate fill 0xff @ segment 0 marker payload"
  by (simp add: segment_def)

lemma not_exif:
  assumes "take 6 payload \<noteq> EXIF" shows "take 6 (payload @ 0xff # c) \<noteq> EXIF"
proof
  assume exif: "take 6 (payload @ 0xff # c) = EXIF"
  show False
  proof (cases "length payload < 6")
    case True
    then have "0xff \<in> set (take 6 (payload @ 0xff # c))" by (simp add: take_Cons')
    then show False unfolding exif by (simp add: EXIF_def)
  next
    case False
    then show False using exif assms by simp
  qed
qed

lemma segments_skip:
  assumes "buffer = a @ segment fill marker payload @ 0xff # c" and "skipped (fill, marker, payload)"
  shows "segments buffer (length a) = segments buffer (length a + length (segment fill marker payload))"
proof -
  let ?i = "length a + fill"
  have at: "buffer = (a @ replicate fill 0xff) @ segment 0 marker payload @ 0xff # c" "length (a @ replicate fill 0xff) = ?i"
    using assms(1) by (simp_all add: segment_def)
  have payload: "marker \<noteq> 0xff" "marker \<noteq> SOS" "length payload < 65534" "marker \<noteq> APP1 \<or> take 6 (payload @ 0xff # c) \<noteq> EXIF"
    using assms(2) not_exif [of payload c] by (auto simp: skipped_def)
  have "segments buffer (length a) = segments buffer ?i"
    by (rule segments_fill [where c = "marker # put 2 (2 + length payload) @ payload @ 0xff # c"])
      (use assms(1) in \<open>simp_all add: segment_def\<close>)
  also have "\<dots> = segments buffer (?i + 2 + (2 + length payload))"
    using segment_bytes [OF at] readUInt_segment [OF at payload(3)] payload by (subst segments.simps) auto
  also have "?i + 2 + (2 + length payload) = length a + length (segment fill marker payload)"
    by (simp add: length_segment)
  finally show ?thesis .
qed

lemma segments_reach:
  assumes "\<forall>other \<in> set others. skipped other"
  shows "segments (a @ concat (map (\<lambda>(fill, marker, payload). segment fill marker payload) others) @ 0xff # c) (length a)
    = segments (a @ concat (map (\<lambda>(fill, marker, payload). segment fill marker payload) others) @ 0xff # c)
        (length a + length (concat (map (\<lambda>(fill, marker, payload). segment fill marker payload) others)))"
  using assms
proof (induction others arbitrary: a)
  case (Cons other others)
  obtain fill marker payload where other: "other = (fill, marker, payload)" by (metis prod_cases3)
  let ?rest = "concat (map (\<lambda>(fill, marker, payload). segment fill marker payload) others)"
  let ?buffer = "a @ segment fill marker payload @ ?rest @ 0xff # c"
  have "\<exists>d. ?rest @ 0xff # c = 0xff # d"
  proof (cases others)
    case (Cons first os)
    then show ?thesis by (cases first; cases "fst first") (auto simp: segment_def)
  qed simp
  then obtain d where d: "?rest @ 0xff # c = 0xff # d" by blast
  have "segments ?buffer (length a) = segments ?buffer (length (a @ segment fill marker payload))"
    unfolding length_append by (rule segments_skip [where c = d]) (use Cons.prems other d in auto)
  also have "\<dots> = segments ?buffer (length (a @ segment fill marker payload) + length ?rest)"
    using Cons.IH [of "a @ segment fill marker payload"] Cons.prems unfolding append_assoc by simp
  finally show ?case by (simp add: other add.assoc)
qed simp

lemma segments_exif:
  assumes "buffer = a @ segment fill APP1 (EXIF @ tiff) @ c" and "length tiff < 65528"
  shows "segments buffer (length a) = fromExif tiff"
proof -
  let ?i = "length a + fill"
  have at: "buffer = (a @ replicate fill 0xff) @ segment 0 APP1 (EXIF @ tiff) @ c" "length (a @ replicate fill 0xff) = ?i"
    using assms(1) by (simp_all add: segment_def)
  have len: "readUInt False 2 buffer (?i + 2) = Inr (8 + length tiff)"
    using readUInt_segment [OF at] assms(2) by (simp add: EXIF_def)
  have "subarray buffer (?i + 4) (?i + 10) = EXIF" using segment_bytes(4) [OF at] by (simp add: EXIF_def)
  moreover have "subarray buffer (?i + 10) (?i + 2 + (8 + length tiff)) = tiff"
    using at(1) by (simp add: subarray_def segment_def EXIF_def)
  moreover have "?i + 10 + length tiff \<le> length buffer" using segment_bytes(3) [OF at] by (simp add: EXIF_def)
  moreover have "APP1 \<noteq> 0xff" "APP1 \<noteq> SOS" by (simp_all add: APP1_def SOS_def)
  ultimately have "segments buffer ?i = fromExif tiff"
    using segment_bytes(1,2) [OF at] len by (subst segments.simps) simp
  moreover have "segments buffer (length a) = segments buffer ?i"
    by (rule segments_fill [where c = "APP1 # put 2 (2 + length (EXIF @ tiff)) @ EXIF @ tiff @ c"])
      (use assms(1) in \<open>simp_all add: segment_def\<close>)
  ultimately show ?thesis by simp
qed

lemma embeddedThumbnail_finds:
  assumes "exifLayout little ifd0 dir0 ifd1 dir1 tiff" and "carries jpeg dir1 tiff" and "length tiff < 65528"
    and "\<forall>other \<in> set others. skipped other"
  shows "embeddedThumbnail (photograph others fill tiff rest)
    = Inr (Some \<lparr>et_bytes = jpeg, et_orientation = orientationOf dir0\<rparr>)"
proof -
  let ?photo = "photograph others fill tiff rest"
  let ?others = "concat (map (\<lambda>(fill, marker, payload). segment fill marker payload) others)"
  have "\<exists>c. segment fill APP1 (EXIF @ tiff) @ rest = 0xff # c" by (cases fill) (simp_all add: segment_def)
  then obtain c where c: "segment fill APP1 (EXIF @ tiff) @ rest = 0xff # c" by blast
  have "segments ?photo 2 = segments ?photo (2 + length ?others)"
    using segments_reach [OF assms(4), of "[0xff, SOI]" c] unfolding photograph_def c by (simp add: numeral_2_eq_2)
  also have "\<dots> = fromExif tiff"
    using segments_exif [of ?photo "[0xff, SOI] @ ?others" fill tiff rest] assms(3)
    by (simp add: photograph_def)
  also have "\<dots> = Inr (Some \<lparr>et_bytes = jpeg, et_orientation = orientationOf dir0\<rparr>)"
    by (rule fromExif_finds [OF assms(1,2)])
  finally show ?thesis
    by (simp add: embeddedThumbnail_def photograph_def byteAt_def segment_def)
qed

text \<open>
  C4. The thumbnail of a photograph, from bytes nobody has checked. For every buffer \<open>embeddedThumbnail\<close> ends and
  never reads out of range, so it never throws; what it answers with is a piece of the buffer that begins like a
  JPEG and has at most 256 kB, with an orientation from one to eight. And it finds what is there: in every photograph
  whose EXIF section, in either byte order, has its two directories anywhere behind the header, with any other
  entries, the second of which gives the place and the length of a JPEG, it answers with that JPEG and with the
  orientation of the first directory, or 1 when that gives none from one to eight. The section may stand behind any
  other segments, with fill bytes, and before any bytes.
\<close>

theorem embeddedThumbnail_is_safe_and_finds:
  "(\<exists>r. embeddedThumbnail buffer = Inr r \<and> (\<forall>t. r = Some t \<longrightarrow> sliceOf t buffer))
   \<and> (exifLayout little ifd0 dir0 ifd1 dir1 tiff \<and> carries jpeg dir1 tiff \<and> length tiff < 65528
        \<and> (\<forall>other \<in> set others. skipped other)
      \<longrightarrow> embeddedThumbnail (photograph others fill tiff rest)
            = Inr (Some \<lparr>et_bytes = jpeg, et_orientation = orientationOf dir0\<rparr>))"
proof (intro conjI impI)
  show "\<exists>r. embeddedThumbnail buffer = Inr r \<and> (\<forall>t. r = Some t \<longrightarrow> sliceOf t buffer)"
    unfolding embeddedThumbnail_def using segments_fine by auto
qed (elim conjE, rule embeddedThumbnail_finds)

text \<open>
  A JFIF segment and an APP1 segment of another kind, then a little-endian section whose second directory stands before
  the first: the picture at byte 8, the second directory at 12, the first, with a maker's entry before the orientation,
  at 39, after a byte of nothing.
\<close>

definition sampleFirst :: "(nat \<times> content) list" where
  "sampleFirst = [(0x010f, Other 2 9 [1, 2, 3, 4]), (0x0112, Short 6 [0, 0])]"

definition sampleSecond :: "(nat \<times> content) list" where
  "sampleSecond = [(0x0201, Long 8), (0x0202, Short 4 [7, 7])]"

definition sampleSection :: octets where
  "sampleSection = [0x49, 0x49] @ putField True (2, 0x2a) @ putField True (4, 39) @ [0xff, 0xd8, 0x2a, 0x2b]
     @ directory True sampleSecond @ [0] @ directory True sampleFirst @ putField True (4, 12)"

lemma sample_layout: "exifLayout True 39 sampleFirst 12 sampleSecond sampleSection"
  by (simp add: exifLayout_def stands_def subarray_def soundDirectory_def sampleSection_def sampleFirst_def sampleSecond_def
      directory_def entryBytes_def)

lemma sample_carries: "carries [0xff, 0xd8, 0x2a, 0x2b] sampleSecond sampleSection"
  by (simp add: carries_def stands_def subarray_def sampleSection_def sampleSecond_def numberOf_def MAX_THUMBNAIL_def SOI_def)

theorem embeddedThumbnail_is_safe_and_finds_witness:
  "embeddedThumbnail (photograph [(0, 0xe0, [0x4a, 0x46]), (1, 0xe1, [0x68])] 2 sampleSection [0xff, 0xda])
     = Inr (Some \<lparr>et_bytes = [0xff, 0xd8, 0x2a, 0x2b], et_orientation = 6\<rparr>)
   \<and> length (photograph [(0, 0xe0, [0x4a, 0x46]), (1, 0xe1, [0x68])] 2 sampleSection [0xff, 0xda]) = 97"
proof
  have "\<forall>other \<in> set [(0::nat, 0xe0, [0x4a, 0x46]), (1, 0xe1, [0x68])]. skipped other"
    by (simp add: skipped_def EXIF_def SOS_def APP1_def)
  moreover have "length sampleSection < 65528" "orientationOf sampleFirst = 6"
    by (simp_all add: sampleSection_def sampleFirst_def sampleSecond_def directory_def entryBytes_def orientationOf_def numberOf_def)
  ultimately show "embeddedThumbnail (photograph [(0, 0xe0, [0x4a, 0x46]), (1, 0xe1, [0x68])] 2 sampleSection [0xff, 0xda])
     = Inr (Some \<lparr>et_bytes = [0xff, 0xd8, 0x2a, 0x2b], et_orientation = 6\<rparr>)"
    using embeddedThumbnail_is_safe_and_finds [of "[]" True 39 sampleFirst 12 sampleSecond sampleSection] sample_layout sample_carries
    by simp
  show "length (photograph [(0, 0xe0, [0x4a, 0x46]), (1, 0xe1, [0x68])] 2 sampleSection [0xff, 0xda]) = 97"
    by (simp add: photograph_def segment_def EXIF_def sampleSection_def sampleFirst_def sampleSecond_def directory_def entryBytes_def)
qed

end
