(* ===== verification/Idempotency.thy ===== *)
theory Idempotency
  imports Totp
begin

text \<open>
  \<open>IdempotencyService\<close> and \<open>IdempotencyInterceptor\<close> (\<open>apps/api/src/common\<close>), with the table of migration 0020.
  Every request with a key runs through the phases of the interceptor; its transactions, the two statements of
  a claim, the crash of the process and the passing of time interleave in any order. SHA-256 is a parameter, and
  so are the handlers: what one answers is whatever it likes. The retention is counted in microseconds.
\<close>

section \<open>Requests and answers\<close>

record Request =
  rq_org :: id
  rq_user :: id
  rq_method :: string
  rq_path :: string
  rq_body :: "string option"
  rq_key :: string

datatype HeaderValue = OneText string | OneNumber nat | Several "string list"

record StoredAnswer =
  an_status :: nat
  an_body :: "string option"
  an_headers :: "(string \<times> string) list"

definition REPLAYED_HEADERS :: "string list" where
  "REPLAYED_HEADERS = [''location'', ''upload-offset'', ''upload-expires'', ''etag'']"

text \<open>What \<open>tap.next\<close> stores of a response.\<close>

definition storedHeaders :: "(string \<Rightarrow> HeaderValue option) \<Rightarrow> (string \<times> string) list" where
  "storedHeaders header = List.map_filter (\<lambda>name.
     case header name of
       Some (OneText s) \<Rightarrow> Some (name, s)
     | Some (OneNumber n) \<Rightarrow> Some (name, decimal n)
     | _ \<Rightarrow> None) REPLAYED_HEADERS"

definition upperAscii :: "string \<Rightarrow> string" where
  "upperAscii = map (\<lambda>c. if 97 \<le> (of_char c :: nat) \<and> (of_char c :: nat) \<le> 122 then char_of ((of_char c :: nat) - 32) else c)"

definition trimHeader :: "string \<Rightarrow> string" where
  "trimHeader s =
     (let space = (\<lambda>c. (of_char c :: nat) \<in> {9, 10, 11, 12, 13, 32, 160})
      in rev (dropWhile space (rev (dropWhile space s))))"

text \<open>The interceptor's first decision.\<close>

datatype Entry = PassOn | KeyTooLong | Keyed string

definition keyOf :: "string option \<Rightarrow> bool \<Rightarrow> Entry" where
  "keyOf raw hasSession =
     (let key = (case raw of None \<Rightarrow> [] | Some s \<Rightarrow> trimHeader s)
      in if key = [] \<or> \<not> hasSession then PassOn
         else if length key > 255 then KeyTooLong
         else Keyed key)"

definition endpointOf :: "Request \<Rightarrow> string" where
  "endpointOf r = upperAscii (rq_method r) @ '' '' @ rq_path r"

definition fingerprint :: "(string \<Rightarrow> string) \<Rightarrow> Request \<Rightarrow> string" where
  "fingerprint sha256 r =
     sha256 (upperAscii (rq_method r) @ [char_of (0 :: nat)] @ rq_path r @ [char_of (0 :: nat)]
       @ (case rq_body r of None \<Rightarrow> [] | Some json \<Rightarrow> json))"

text \<open>The primary key.\<close>

definition slotOf :: "Request \<Rightarrow> id \<times> id \<times> string \<times> string" where
  "slotOf r = (rq_org r, rq_user r, endpointOf r, rq_key r)"

section \<open>The table\<close>

record KeyRow =
  ik_slot :: "id \<times> id \<times> string \<times> string"
  ik_print :: string
  ik_answer :: "StoredAnswer option"
  ik_created :: int

datatype Claim = Claimed | Replay StoredAnswer | Reused | InFlight

text \<open>The two statements of \<open>claim\<close>: the insert, and the read when it did nothing.\<close>

definition insertKey :: "(string \<Rightarrow> string) \<Rightarrow> Request \<Rightarrow> int \<Rightarrow> KeyRow list \<Rightarrow> bool \<times> KeyRow list" where
  "insertKey sha256 r now rows =
     (if list_ex (\<lambda>k. ik_slot k = slotOf r) rows then (False, rows)
      else (True, rows @ [\<lparr>ik_slot = slotOf r, ik_print = fingerprint sha256 r, ik_answer = None, ik_created = now\<rparr>]))"

definition readKey :: "(string \<Rightarrow> string) \<Rightarrow> Request \<Rightarrow> KeyRow list \<Rightarrow> Claim" where
  "readKey sha256 r rows =
     (case List.find (\<lambda>k. ik_slot k = slotOf r) rows of
        None \<Rightarrow> InFlight
      | Some k \<Rightarrow>
          if ik_print k \<noteq> fingerprint sha256 r then Reused
          else (case ik_answer k of None \<Rightarrow> InFlight | Some a \<Rightarrow> Replay a))"

definition completeKey :: "Request \<Rightarrow> StoredAnswer \<Rightarrow> KeyRow list \<Rightarrow> KeyRow list" where
  "completeKey r answer rows = map (\<lambda>k. if ik_slot k = slotOf r then k\<lparr>ik_answer := Some answer\<rparr> else k) rows"

definition releaseKey :: "Request \<Rightarrow> KeyRow list \<Rightarrow> KeyRow list" where
  "releaseKey r rows = filter (\<lambda>k. \<not> (ik_slot k = slotOf r \<and> ik_answer k = None)) rows"

definition RETENTION :: int where
  "RETENTION = 24 * 3600 * 1000000"

definition SWEEP_EVERY_MS :: int where
  "SWEEP_EVERY_MS = 60 * 60 * 1000"

text \<open>At most \<open>batch\<close> rows, the first that are found.\<close>

fun purgeRows :: "id \<Rightarrow> int \<Rightarrow> nat \<Rightarrow> KeyRow list \<Rightarrow> KeyRow list" where
  "purgeRows org now batch [] = []"
| "purgeRows org now batch (k # rows) =
     (if 0 < batch \<and> fst (ik_slot k) = org \<and> ik_created k < now - RETENTION
      then purgeRows org now (batch - 1) rows
      else k # purgeRows org now batch rows)"

definition purgeExpiredKeys :: "id \<Rightarrow> int \<Rightarrow> KeyRow list \<Rightarrow> KeyRow list" where
  "purgeExpiredKeys org now rows = purgeRows org now 1000 rows"

text \<open>\<open>clock\<close> is the process's own, in milliseconds; the statement is \<open>lost\<close> when the database is.\<close>

definition sweepIfDue ::
  "id \<Rightarrow> int \<Rightarrow> bool \<Rightarrow> int \<Rightarrow> (id \<Rightarrow> int option) \<times> KeyRow list \<Rightarrow> (id \<Rightarrow> int option) \<times> KeyRow list" where
  "sweepIfDue org clock lost now s =
     (case s of (swept, rows) \<Rightarrow>
        if (case swept org of None \<Rightarrow> False | Some before \<Rightarrow> clock - before < SWEEP_EVERY_MS) then (swept, rows)
        else (swept(org := Some clock), if lost then rows else purgeExpiredKeys org now rows))"

section \<open>Requests side by side\<close>

datatype idem_phase =
    Arriving
  | Claiming
  | Reading
  | Handling
  | Recording StoredAnswer
  | Releasing
  | Over

record idem_state =
  is_now :: int
  is_rows :: "KeyRow list"
  is_swept :: "id \<Rightarrow> int option"
  is_phase :: "nat \<Rightarrow> idem_phase"

datatype idem_event =
    Started nat int
  | Recorded nat StoredAnswer int
  | GaveBack nat int
  | Replayed nat StoredAnswer

inductive idem_step :: "(string \<Rightarrow> string) \<Rightarrow> (nat \<Rightarrow> Request) \<Rightarrow> idem_state \<Rightarrow> idem_event list \<Rightarrow> idem_state \<Rightarrow> bool"
  for sha256 rq where
  idem_tick: "is_now s \<le> t \<Longrightarrow> idem_step sha256 rq s [] (s\<lparr>is_now := t\<rparr>)"
| idem_arrive: "is_phase s i = Arriving \<Longrightarrow>
    sweepIfDue (rq_org (rq i)) clock lost (is_now s) (is_swept s, is_rows s) = (swept, rows) \<Longrightarrow>
    idem_step sha256 rq s [] (s\<lparr>is_rows := rows, is_swept := swept, is_phase := (is_phase s)(i := Claiming)\<rparr>)"
| idem_insert: "is_phase s i = Claiming \<Longrightarrow> insertKey sha256 (rq i) (is_now s) (is_rows s) = (True, rows) \<Longrightarrow>
    idem_step sha256 rq s [Started i (is_now s)] (s\<lparr>is_rows := rows, is_phase := (is_phase s)(i := Handling)\<rparr>)"
| idem_conflict: "is_phase s i = Claiming \<Longrightarrow> insertKey sha256 (rq i) (is_now s) (is_rows s) = (False, rows) \<Longrightarrow>
    idem_step sha256 rq s [] (s\<lparr>is_phase := (is_phase s)(i := Reading)\<rparr>)"
| idem_read: "is_phase s i = Reading \<Longrightarrow> readKey sha256 (rq i) (is_rows s) = c \<Longrightarrow>
    idem_step sha256 rq s (case c of Replay a \<Rightarrow> [Replayed i a] | _ \<Rightarrow> []) (s\<lparr>is_phase := (is_phase s)(i := Over)\<rparr>)"
| idem_claim_lost: "is_phase s i \<in> {Claiming, Reading} \<Longrightarrow>
    idem_step sha256 rq s [] (s\<lparr>is_phase := (is_phase s)(i := Over)\<rparr>)"
| idem_returned: "is_phase s i = Handling \<Longrightarrow>
    idem_step sha256 rq s [] (s\<lparr>is_phase := (is_phase s)(i := Recording a)\<rparr>)"
| idem_threw: "is_phase s i = Handling \<Longrightarrow>
    idem_step sha256 rq s [] (s\<lparr>is_phase := (is_phase s)(i := Releasing)\<rparr>)"
| idem_complete: "is_phase s i = Recording a \<Longrightarrow>
    idem_step sha256 rq s [Recorded i a (is_now s)]
      (s\<lparr>is_rows := completeKey (rq i) a (is_rows s), is_phase := (is_phase s)(i := Over)\<rparr>)"
| idem_release: "is_phase s i = Releasing \<Longrightarrow>
    idem_step sha256 rq s [GaveBack i (is_now s)]
      (s\<lparr>is_rows := releaseKey (rq i) (is_rows s), is_phase := (is_phase s)(i := Over)\<rparr>)"
| idem_settle_lost: "is_phase s i = Recording a \<or> is_phase s i = Releasing \<Longrightarrow>
    idem_step sha256 rq s [] (s\<lparr>is_phase := (is_phase s)(i := Over)\<rparr>)"
| idem_restart: "idem_step sha256 rq s [] (s\<lparr>is_swept := (\<lambda>_. None),
      is_phase := (\<lambda>i. if is_phase s i = Arriving then Arriving else Over)\<rparr>)"

inductive idem_runs :: "(string \<Rightarrow> string) \<Rightarrow> (nat \<Rightarrow> Request) \<Rightarrow> idem_state \<Rightarrow> idem_event list \<Rightarrow> idem_state \<Rightarrow> bool"
  for sha256 rq s0 where
  idem_none: "idem_runs sha256 rq s0 [] s0"
| idem_more: "idem_runs sha256 rq s0 trace s \<Longrightarrow> idem_step sha256 rq s events s' \<Longrightarrow> idem_runs sha256 rq s0 (trace @ events) s'"

definition idem_begin :: "int \<Rightarrow> idem_state" where
  "idem_begin now = \<lparr>is_now = now, is_rows = [], is_swept = (\<lambda>_. None), is_phase = (\<lambda>_. Arriving)\<rparr>"

end
