(* ===== verification/IdempotencyProps.thy ===== *)
theory IdempotencyProps
  imports Idempotency
begin

text \<open>That a key lets its work begin once, and that a replay is the answer of that work.\<close>

section \<open>Statements on the table\<close>

lemma insertKey_True:
  "insertKey sha256 r now rows = (True, rows') \<longleftrightarrow> slotOf r \<notin> ik_slot ` set rows
     \<and> rows' = rows @ [\<lparr>ik_slot = slotOf r, ik_print = fingerprint sha256 r, ik_answer = None, ik_created = now\<rparr>]"
proof -
  have "list_ex (\<lambda>k. ik_slot k = slotOf r) rows \<longleftrightarrow> slotOf r \<in> ik_slot ` set rows" by (force simp: list_ex_iff)
  then show ?thesis by (auto simp: insertKey_def)
qed

lemma readKey_Replay:
  "readKey sha256 r rows = Replay a \<Longrightarrow> \<exists>k \<in> set rows. ik_slot k = slotOf r \<and> ik_print k = fingerprint sha256 r \<and> ik_answer k = Some a"
  by (auto simp: readKey_def split: option.splits if_splits dest!: find_eq_Some_ex)

lemma purgeRows_set: "set (purgeRows org now n rows) \<subseteq> set rows"
  by (induction org now n rows rule: purgeRows.induct) auto

lemma purgeRows_kept: "k \<in> set rows \<Longrightarrow> k \<in> set (purgeRows org now n rows) \<or> ik_created k + RETENTION < now"
  by (induction org now n rows rule: purgeRows.induct) auto

lemma purgeRows_distinct: "distinct (map ik_slot rows) \<Longrightarrow> distinct (map ik_slot (purgeRows org now n rows))"
proof (induction org now n rows rule: purgeRows.induct)
  case (2 org now n k rows)
  have "ik_slot ` set (purgeRows org now n rows) \<subseteq> ik_slot ` set rows" by (rule image_mono [OF purgeRows_set])
  then show ?case using 2 by auto
qed simp

section \<open>The invariant\<close>

text \<open>A request settles its key within the retention.\<close>

definition timely :: "idem_event list \<Rightarrow> bool" where
  "timely trace \<longleftrightarrow> (\<forall>i t u. Started i t \<in> set trace \<and> ((\<exists>a. Recorded i a u \<in> set trace) \<or> GaveBack i u \<in> set trace) \<longrightarrow> u \<le> t + RETENTION)"

lemma timely_prefix: "timely (a @ b) \<Longrightarrow> timely a"
  unfolding timely_def set_append by blast

text \<open>What a request has done, by its phase.\<close>

definition phaseOk :: "idem_event list \<Rightarrow> nat \<Rightarrow> idem_phase \<Rightarrow> bool" where
  "phaseOk trace i p \<longleftrightarrow>
     (case p of
        Arriving \<Rightarrow> \<forall>t. Started i t \<notin> set trace
      | Claiming \<Rightarrow> \<forall>t. Started i t \<notin> set trace
      | Reading \<Rightarrow> \<forall>t. Started i t \<notin> set trace
      | Over \<Rightarrow> True
      | _ \<Rightarrow> \<exists>t. Started i t \<in> set trace)
     \<and> (p \<noteq> Over \<longrightarrow> (\<forall>a t. Recorded i a t \<notin> set trace \<and> GaveBack i t \<notin> set trace))"

text \<open>Where a row comes from: the last request of its slot that began, which has not given it back.\<close>

definition lastBegan :: "(nat \<Rightarrow> Request) \<Rightarrow> idem_event list \<Rightarrow> nat \<Rightarrow> int \<Rightarrow> bool" where
  "lastBegan rq trace i t \<longleftrightarrow> (\<exists>a b. trace = a @ Started i t # b \<and> (\<forall>j u. Started j u \<in> set b \<longrightarrow> slotOf (rq j) \<noteq> slotOf (rq i)))"

definition rowFrom :: "(string \<Rightarrow> string) \<Rightarrow> (nat \<Rightarrow> Request) \<Rightarrow> idem_event list \<Rightarrow> KeyRow \<Rightarrow> nat \<Rightarrow> bool" where
  "rowFrom sha256 rq trace k i \<longleftrightarrow>
     slotOf (rq i) = ik_slot k \<and> fingerprint sha256 (rq i) = ik_print k
     \<and> lastBegan rq trace i (ik_created k)
     \<and> (\<forall>t. GaveBack i t \<notin> set trace)
     \<and> (\<forall>a. ik_answer k = Some a \<longrightarrow> (\<exists>t. Recorded i a t \<in> set trace))"

text \<open>Of two that began for one key, the first gave it back, or its time was over.\<close>

definition oneAtATime :: "(nat \<Rightarrow> Request) \<Rightarrow> idem_event list \<Rightarrow> bool" where
  "oneAtATime rq trace \<longleftrightarrow>
     (\<forall>a b i j t u. trace = a @ Started j u # b \<and> Started i t \<in> set a \<and> slotOf (rq i) = slotOf (rq j)
        \<longrightarrow> (\<exists>v. GaveBack i v \<in> set a) \<or> t + RETENTION < u)"

definition replaysAnswers :: "(string \<Rightarrow> string) \<Rightarrow> (nat \<Rightarrow> Request) \<Rightarrow> idem_event list \<Rightarrow> bool" where
  "replaysAnswers sha256 rq trace \<longleftrightarrow>
     (\<forall>a b j answer. trace = a @ Replayed j answer # b
        \<longrightarrow> (\<exists>i t. Recorded i answer t \<in> set a \<and> slotOf (rq i) = slotOf (rq j)
              \<and> fingerprint sha256 (rq i) = fingerprint sha256 (rq j)))"

definition keyInv :: "(string \<Rightarrow> string) \<Rightarrow> (nat \<Rightarrow> Request) \<Rightarrow> idem_event list \<Rightarrow> idem_state \<Rightarrow> bool" where
  "keyInv sha256 rq trace s \<longleftrightarrow>
     (\<forall>i. phaseOk trace i (is_phase s i))
     \<and> (\<forall>i t. Started i t \<in> set trace \<longrightarrow> t \<le> is_now s)
     \<and> distinct (map ik_slot (is_rows s))
     \<and> (\<forall>k \<in> set (is_rows s). \<exists>i. rowFrom sha256 rq trace k i)
     \<and> (\<forall>i t. Started i t \<in> set trace \<and> (\<forall>u. GaveBack i u \<notin> set trace)
          \<longrightarrow> t + RETENTION < is_now s \<or> (\<exists>k \<in> set (is_rows s). ik_slot k = slotOf (rq i) \<and> ik_created k = t))
     \<and> oneAtATime rq trace \<and> replaysAnswers sha256 rq trace"

lemmas keyInvD = keyInv_def [THEN iffD1, THEN conjunct1]
  keyInv_def [THEN iffD1, THEN conjunct2, THEN conjunct1]
  keyInv_def [THEN iffD1, THEN conjunct2, THEN conjunct2, THEN conjunct1]
  keyInv_def [THEN iffD1, THEN conjunct2, THEN conjunct2, THEN conjunct2, THEN conjunct1]
  keyInv_def [THEN iffD1, THEN conjunct2, THEN conjunct2, THEN conjunct2, THEN conjunct2, THEN conjunct1]
  keyInv_def [THEN iffD1, THEN conjunct2, THEN conjunct2, THEN conjunct2, THEN conjunct2, THEN conjunct2, THEN conjunct1]
  keyInv_def [THEN iffD1, THEN conjunct2, THEN conjunct2, THEN conjunct2, THEN conjunct2, THEN conjunct2, THEN conjunct2]

text \<open>An event that begins nothing and replays nothing keeps both statements about the trace.\<close>

lemma snoc_split: "trace @ [e] = a @ x # b \<Longrightarrow> (b = [] \<and> a = trace \<and> x = e) \<or> (\<exists>c. b = c @ [e] \<and> trace = a @ x # c)"
  by (cases b rule: rev_cases) auto

lemma oneAtATime_snoc: "oneAtATime rq trace \<Longrightarrow> (\<And>j u. e \<noteq> Started j u) \<Longrightarrow> oneAtATime rq (trace @ [e])"
  unfolding oneAtATime_def by (metis snoc_split)

lemma replaysAnswers_snoc: "replaysAnswers sha256 rq trace \<Longrightarrow> (\<And>j a. e \<noteq> Replayed j a) \<Longrightarrow> replaysAnswers sha256 rq (trace @ [e])"
  unfolding replaysAnswers_def by (metis snoc_split)

lemma phaseOk_others:
  "phaseOk trace i p \<Longrightarrow> (\<And>t a. e \<notin> {Started i t, Recorded i a t, GaveBack i t}) \<Longrightarrow> phaseOk (trace @ [e]) i p"
  unfolding phaseOk_def by (auto split: idem_phase.splits)

text \<open>While a request may still settle its key, the row of its slot is its own.\<close>

lemma own_row:
  assumes inv: "keyInv sha256 rq trace s" and k: "k \<in> set (is_rows s)" "ik_slot k = slotOf (rq i)"
    and busy: "Started i t \<in> set trace" "\<forall>u. GaveBack i u \<notin> set trace" "is_now s \<le> t + RETENTION"
  shows "rowFrom sha256 rq trace k i"
proof -
  obtain j where j: "rowFrom sha256 rq trace k j" using keyInvD(4) [OF inv] k(1) by blast
  then obtain a b where split: "trace = a @ Started j (ik_created k) # b" "\<forall>j t. Started j t \<in> set b \<longrightarrow> slotOf (rq j) \<noteq> ik_slot k"
    and slot: "slotOf (rq j) = ik_slot k" unfolding rowFrom_def lastBegan_def by metis
  have "Started j (ik_created k) \<in> set trace" using split(1) by simp
  then have "ik_created k \<le> is_now s" using keyInvD(2) [OF inv] by blast
  moreover have "oneAtATime rq trace" using keyInvD(6) [OF inv] by blast
  moreover have "\<forall>u. GaveBack i u \<notin> set a" using busy(2) split(1) by simp
  ultimately have "Started i t \<notin> set a" using split(1) slot k(2) busy(3) unfolding oneAtATime_def by (metis less_le_trans not_le)
  then have "i = j" using busy(1) split k(2) by auto
  with j show ?thesis by simp
qed

section \<open>Every step keeps it\<close>

lemma lastBegan_snoc:
  assumes "lastBegan rq trace i t" and "\<And>j u. e = Started j u \<Longrightarrow> slotOf (rq j) \<noteq> slotOf (rq i)"
  shows "lastBegan rq (trace @ [e]) i t"
proof -
  obtain a b where "trace = a @ Started i t # b" "\<forall>j u. Started j u \<in> set b \<longrightarrow> slotOf (rq j) \<noteq> slotOf (rq i)"
    using assms(1) unfolding lastBegan_def by blast
  then show ?thesis unfolding lastBegan_def by (intro exI [of _ a] exI [of _ "b @ [e]"]) (use assms(2) in auto)
qed

lemma lastBegan_now: "lastBegan rq (trace @ [Started i t]) i t"
  unfolding lastBegan_def by (rule exI [of _ trace], rule exI [of _ "[]"]) simp

lemma lastBegan_unique:
  assumes "lastBegan rq trace i t" and "lastBegan rq trace j u" and "slotOf (rq i) = slotOf (rq j)"
  shows "i = j"
proof -
  obtain a b where ab: "trace = a @ Started i t # b" "\<forall>j u. Started j u \<in> set b \<longrightarrow> slotOf (rq j) \<noteq> slotOf (rq i)"
    using assms(1) unfolding lastBegan_def by blast
  obtain c d where cd: "trace = c @ Started j u # d" "\<forall>i t. Started i t \<in> set d \<longrightarrow> slotOf (rq i) \<noteq> slotOf (rq j)"
    using assms(2) unfolding lastBegan_def by blast
  have "a @ [Started i t] @ b = c @ [Started j u] @ d" using ab(1) cd(1) by simp
  then consider us where "c = a @ us" "[Started i t] @ b = us @ [Started j u] @ d"
    | us where "a = c @ us" "us @ [Started i t] @ b = [Started j u] @ d"
    unfolding append_eq_append_conv2 by metis
  then show ?thesis
  proof cases
    case 1
    then show ?thesis using ab(2) assms(3) by (cases us) auto
  next
    case 2
    then show ?thesis
    proof (cases us)
      case (Cons x xs)
      then have "Started i t \<in> set d" using 2(2) by auto
      then show ?thesis using cd(2) assms(3) by blast
    qed auto
  qed
qed

lemma rowFrom_snoc:
  assumes "rowFrom sha256 rq trace k i" and "\<And>u. e \<noteq> GaveBack i u" and "\<And>j u. e = Started j u \<Longrightarrow> slotOf (rq j) \<noteq> ik_slot k"
  shows "rowFrom sha256 rq (trace @ [e]) k i"
  using assms lastBegan_snoc [of rq trace i "ik_created k" e] unfolding rowFrom_def by auto

text \<open>A step that leaves no mark: time passes, phases move on, and at most expired rows go.\<close>

lemma silent_keeps:
  assumes inv: "keyInv sha256 rq trace s" and "is_now s \<le> is_now s'"
    and "\<And>i. phaseOk trace i (is_phase s' i)" and "distinct (map ik_slot (is_rows s'))"
    and "set (is_rows s') \<subseteq> set (is_rows s)"
    and "\<And>k. k \<in> set (is_rows s) \<Longrightarrow> k \<in> set (is_rows s') \<or> ik_created k + RETENTION < is_now s'"
  shows "keyInv sha256 rq trace s'"
proof -
  have "t + RETENTION < is_now s' \<or> (\<exists>k \<in> set (is_rows s'). ik_slot k = slotOf (rq i) \<and> ik_created k = t)"
    if "Started i t \<in> set trace" "\<forall>u. GaveBack i u \<notin> set trace" for i t
    using keyInvD(5) [OF inv, rule_format, of i t] that assms(2) assms(6) less_le_trans by blast
  moreover have "\<forall>i t. Started i t \<in> set trace \<longrightarrow> t \<le> is_now s'" using keyInvD(2) [OF inv] assms(2) order_trans by blast
  ultimately show ?thesis using keyInvD(4,6,7) [OF inv] assms(3-5) unfolding keyInv_def by blast
qed

lemma phase_move:
  assumes "keyInv sha256 rq trace s" and "phaseOk trace i p"
  shows "phaseOk trace j (((is_phase s)(i := p)) j)"
  using keyInvD(1) [OF assms(1)] assms(2) by simp

lemma started_keeps:
  assumes inv: "keyInv sha256 rq trace s" and phase: "is_phase s i = Claiming"
    and ins: "insertKey sha256 (rq i) (is_now s) (is_rows s) = (True, rows)"
  shows "keyInv sha256 rq (trace @ [Started i (is_now s)]) (s\<lparr>is_rows := rows, is_phase := (is_phase s)(i := Handling)\<rparr>)"
proof -
  let ?e = "Started i (is_now s)"
  let ?k = "\<lparr>ik_slot = slotOf (rq i), ik_print = fingerprint sha256 (rq i), ik_answer = None, ik_created = is_now s\<rparr>"
  have new: "slotOf (rq i) \<notin> ik_slot ` set (is_rows s)" and rows: "rows = is_rows s @ [?k]"
    using ins by (simp_all add: insertKey_True)
  have fresh: "\<forall>t. Started i t \<notin> set trace" "\<forall>a t. Recorded i a t \<notin> set trace \<and> GaveBack i t \<notin> set trace"
    using keyInvD(1) [OF inv, rule_format, of i] phase by (simp_all add: phaseOk_def)
  have "phaseOk (trace @ [?e]) j (((is_phase s)(i := Handling)) j)" for j
    using phaseOk_others [OF keyInvD(1) [OF inv, rule_format, of j], of ?e] fresh by (cases "j = i") (auto simp: phaseOk_def)
  moreover have "\<exists>j. rowFrom sha256 rq (trace @ [?e]) k j" if "k \<in> set rows" for k
  proof (cases "k = ?k")
    case True
    then have "rowFrom sha256 rq (trace @ [?e]) k i" unfolding rowFrom_def using fresh lastBegan_now by auto
    then show ?thesis ..
  next
    case False
    then have k: "k \<in> set (is_rows s)" using that rows by simp
    then obtain j where "rowFrom sha256 rq trace k j" using keyInvD(4) [OF inv] by blast
    then have "rowFrom sha256 rq (trace @ [?e]) k j" by (rule rowFrom_snoc) (use k new in \<open>auto simp: image_iff\<close>)
    then show ?thesis ..
  qed
  moreover have "t + RETENTION < is_now s \<or> (\<exists>k \<in> set rows. ik_slot k = slotOf (rq j) \<and> ik_created k = t)"
    if "Started j t \<in> set (trace @ [?e])" "\<forall>u. GaveBack j u \<notin> set (trace @ [?e])" for j t
    using that keyInvD(5) [OF inv] rows by (cases "Started j t = ?e") auto
  moreover have "oneAtATime rq (trace @ [?e])"
  proof -
    have "(\<exists>v. GaveBack j v \<in> set trace) \<or> t + RETENTION < is_now s" if "Started j t \<in> set trace" "slotOf (rq j) = slotOf (rq i)" for j t
      using keyInvD(5) [OF inv] that new by (metis image_eqI)
    then show ?thesis using keyInvD(6) [OF inv] unfolding oneAtATime_def by (metis idem_event.inject(1) snoc_split)
  qed
  moreover have "replaysAnswers sha256 rq (trace @ [?e])" using keyInvD(7) [OF inv] by (rule replaysAnswers_snoc) simp
  ultimately show ?thesis using keyInvD(2,3) [OF inv] new rows unfolding keyInv_def by auto
qed

lemma completeKey_rows:
  shows "map ik_slot (completeKey r a rows) = map ik_slot rows"
  "k \<in> set (completeKey r a rows) \<Longrightarrow> \<exists>k' \<in> set rows. ik_slot k = ik_slot k' \<and> ik_print k = ik_print k' \<and> ik_created k = ik_created k'
     \<and> (if ik_slot k' = slotOf r then ik_answer k = Some a else k = k')"
  "k \<in> set rows \<Longrightarrow> \<exists>k' \<in> set (completeKey r a rows). ik_slot k' = ik_slot k \<and> ik_created k' = ik_created k"
proof -
  let ?f = "\<lambda>k. if ik_slot k = slotOf r then k\<lparr>ik_answer := Some a\<rparr> else k"
  show "map ik_slot (completeKey r a rows) = map ik_slot rows" by (simp add: completeKey_def)
  show "\<exists>k' \<in> set (completeKey r a rows). ik_slot k' = ik_slot k \<and> ik_created k' = ik_created k" if "k \<in> set rows"
    by (rule bexI [of _ "?f k"]) (use that in \<open>auto simp: completeKey_def\<close>)
  show "\<exists>k' \<in> set rows. ik_slot k = ik_slot k' \<and> ik_print k = ik_print k' \<and> ik_created k = ik_created k'
     \<and> (if ik_slot k' = slotOf r then ik_answer k = Some a else k = k')" if "k \<in> set (completeKey r a rows)"
    using that by (fastforce simp: completeKey_def)
qed

lemma recorded_keeps:
  assumes inv: "keyInv sha256 rq trace s" and phase: "is_phase s i = Recording a"
    and timely: "timely (trace @ [Recorded i a (is_now s)])"
  shows "keyInv sha256 rq (trace @ [Recorded i a (is_now s)])
    (s\<lparr>is_rows := completeKey (rq i) a (is_rows s), is_phase := (is_phase s)(i := Over)\<rparr>)"
proof -
  let ?e = "Recorded i a (is_now s)"
  obtain t where busy: "Started i t \<in> set trace" "\<forall>u. GaveBack i u \<notin> set trace"
    using keyInvD(1) [OF inv, rule_format, of i] phase by (auto simp: phaseOk_def)
  have "is_now s \<le> t + RETENTION" using timely busy(1) unfolding timely_def by auto
  note own = own_row [OF inv _ _ busy this]
  have "phaseOk (trace @ [?e]) j (((is_phase s)(i := Over)) j)" for j
    using phaseOk_others [OF keyInvD(1) [OF inv, rule_format, of j], of ?e] by (cases "j = i") (auto simp: phaseOk_def)
  moreover have "\<exists>j. rowFrom sha256 rq (trace @ [?e]) k j" if k: "k \<in> set (completeKey (rq i) a (is_rows s))" for k
  proof -
    obtain k' where k': "k' \<in> set (is_rows s)" "ik_slot k = ik_slot k'" "ik_print k = ik_print k'" "ik_created k = ik_created k'"
      and answer: "if ik_slot k' = slotOf (rq i) then ik_answer k = Some a else k = k'"
      using completeKey_rows(2) [OF k] by blast
    obtain j where j: "rowFrom sha256 rq trace k' j" and mine: "ik_slot k' = slotOf (rq i) \<longrightarrow> j = i"
      using keyInvD(4) [OF inv] own k'(1) by metis
    have "rowFrom sha256 rq (trace @ [?e]) k' j" by (rule rowFrom_snoc [OF j]) simp_all
    then show ?thesis using k' answer mine unfolding rowFrom_def by (intro exI [of _ j]) (auto split: if_splits)
  qed
  moreover have "u + RETENTION < is_now s \<or> (\<exists>k \<in> set (completeKey (rq i) a (is_rows s)). ik_slot k = slotOf (rq j) \<and> ik_created k = u)"
    if "Started j u \<in> set (trace @ [?e])" "\<forall>v. GaveBack j v \<notin> set (trace @ [?e])" for j u
    using keyInvD(5) [OF inv, rule_format, of j u] that completeKey_rows(3) by fastforce
  moreover have "oneAtATime rq (trace @ [?e])" using keyInvD(6) [OF inv] by (rule oneAtATime_snoc) simp
  moreover have "replaysAnswers sha256 rq (trace @ [?e])" using keyInvD(7) [OF inv] by (rule replaysAnswers_snoc) simp
  ultimately show ?thesis using keyInvD(2,3) [OF inv] unfolding keyInv_def by (auto simp: completeKey_rows(1))
qed

lemma gaveBack_keeps:
  assumes inv: "keyInv sha256 rq trace s" and phase: "is_phase s i = Releasing"
    and timely: "timely (trace @ [GaveBack i (is_now s)])"
  shows "keyInv sha256 rq (trace @ [GaveBack i (is_now s)])
    (s\<lparr>is_rows := releaseKey (rq i) (is_rows s), is_phase := (is_phase s)(i := Over)\<rparr>)"
proof -
  let ?e = "GaveBack i (is_now s)"
  obtain t where busy: "Started i t \<in> set trace" "\<forall>u. GaveBack i u \<notin> set trace"
    and unrecorded: "\<forall>a u. Recorded i a u \<notin> set trace"
    using keyInvD(1) [OF inv, rule_format, of i] phase by (auto simp: phaseOk_def)
  have "is_now s \<le> t + RETENTION" using timely busy(1) unfolding timely_def by auto
  note own = own_row [OF inv _ _ busy this]
  have "phaseOk (trace @ [?e]) j (((is_phase s)(i := Over)) j)" for j
    using phaseOk_others [OF keyInvD(1) [OF inv, rule_format, of j], of ?e] by (cases "j = i") (auto simp: phaseOk_def)
  moreover have "\<exists>j. rowFrom sha256 rq (trace @ [?e]) k j" if "k \<in> set (releaseKey (rq i) (is_rows s))" for k
  proof -
    have k: "k \<in> set (is_rows s)" "ik_slot k = slotOf (rq i) \<longrightarrow> ik_answer k \<noteq> None" using that by (auto simp: releaseKey_def)
    obtain j where j: "rowFrom sha256 rq trace k j" using keyInvD(4) [OF inv] k(1) by blast
    have "j \<noteq> i" using j k(2) unrecorded unfolding rowFrom_def by auto
    then have "rowFrom sha256 rq (trace @ [?e]) k j" by (intro rowFrom_snoc [OF j]) simp_all
    then show ?thesis ..
  qed
  moreover have "u + RETENTION < is_now s \<or> (\<exists>k \<in> set (releaseKey (rq i) (is_rows s)). ik_slot k = slotOf (rq j) \<and> ik_created k = u)"
    if "Started j u \<in> set (trace @ [?e])" "\<forall>v. GaveBack j v \<notin> set (trace @ [?e])" for j u
  proof -
    have ju: "Started j u \<in> set trace" "\<forall>v. GaveBack j v \<notin> set trace" "j \<noteq> i" using that by auto
    consider "u + RETENTION < is_now s" | k where "k \<in> set (is_rows s)" "ik_slot k = slotOf (rq j)" "ik_created k = u"
      using keyInvD(5) [OF inv, rule_format, of j u] ju by blast
    then show ?thesis
    proof cases
      case (2 k)
      show ?thesis
      proof (cases "slotOf (rq j) = slotOf (rq i)")
        case True
        have "is_now s > u + RETENTION"
        proof (rule ccontr)
          assume "\<not> is_now s > u + RETENTION"
          then have "rowFrom sha256 rq trace k j" by (intro own_row [OF inv 2(1,2) ju(1,2)]) simp
          moreover have "rowFrom sha256 rq trace k i" using own 2 True by simp
          ultimately show False using ju(3) lastBegan_unique unfolding rowFrom_def by metis
        qed
        then show ?thesis ..
      qed (use 2 in \<open>auto simp: releaseKey_def\<close>)
    qed blast
  qed
  moreover have "oneAtATime rq (trace @ [?e])" using keyInvD(6) [OF inv] by (rule oneAtATime_snoc) simp
  moreover have "replaysAnswers sha256 rq (trace @ [?e])" using keyInvD(7) [OF inv] by (rule replaysAnswers_snoc) simp
  moreover have "distinct (map ik_slot (releaseKey (rq i) (is_rows s)))" using keyInvD(3) [OF inv] by (simp add: releaseKey_def distinct_map_filter)
  ultimately show ?thesis using keyInvD(2) [OF inv] unfolding keyInv_def by auto
qed

lemma replayed_keeps:
  assumes inv: "keyInv sha256 rq trace s" and phase: "is_phase s i = Reading"
    and read: "readKey sha256 (rq i) (is_rows s) = Replay a"
  shows "keyInv sha256 rq (trace @ [Replayed i a]) (s\<lparr>is_phase := (is_phase s)(i := Over)\<rparr>)"
proof -
  let ?e = "Replayed i a"
  obtain k where k: "k \<in> set (is_rows s)" "ik_slot k = slotOf (rq i)" "ik_print k = fingerprint sha256 (rq i)" "ik_answer k = Some a"
    using readKey_Replay [OF read] by blast
  then obtain j t where j: "Recorded j a t \<in> set trace" "slotOf (rq j) = slotOf (rq i)"
      "fingerprint sha256 (rq j) = fingerprint sha256 (rq i)"
    using keyInvD(4) [OF inv] unfolding rowFrom_def by metis
  have "phaseOk (trace @ [?e]) j (((is_phase s)(i := Over)) j)" for j
    using phaseOk_others [OF keyInvD(1) [OF inv, rule_format, of j], of ?e] by (cases "j = i") (auto simp: phaseOk_def)
  moreover have "\<exists>j. rowFrom sha256 rq (trace @ [?e]) k j" if "k \<in> set (is_rows s)" for k
  proof -
    obtain j where j: "rowFrom sha256 rq trace k j" using keyInvD(4) [OF inv] \<open>k \<in> set (is_rows s)\<close> by blast
    have "rowFrom sha256 rq (trace @ [?e]) k j" by (rule rowFrom_snoc [OF j]) simp_all
    then show ?thesis ..
  qed
  moreover have "oneAtATime rq (trace @ [?e])" using keyInvD(6) [OF inv] by (rule oneAtATime_snoc) simp
  moreover have "replaysAnswers sha256 rq (trace @ [?e])"
    using keyInvD(7) [OF inv] j unfolding replaysAnswers_def by (metis idem_event.inject(4) snoc_split)
  ultimately show ?thesis using keyInvD(2,3,5) [OF inv] unfolding keyInv_def by auto
qed

lemma sweepIfDue_rows:
  assumes "sweepIfDue org clock lost now (swept, rows) = (swept', rows')"
  shows "set rows' \<subseteq> set rows" and "distinct (map ik_slot rows) \<Longrightarrow> distinct (map ik_slot rows')"
    and "k \<in> set rows \<Longrightarrow> k \<in> set rows' \<or> ik_created k + RETENTION < now"
  using assms purgeRows_set [of org now 1000 rows] purgeRows_distinct [of rows org now 1000] purgeRows_kept [of k rows org now 1000]
  by (auto simp: sweepIfDue_def purgeExpiredKeys_def split: if_splits option.splits)

lemma moved_keeps:
  assumes inv: "keyInv sha256 rq trace s" and "phaseOk trace i p"
  shows "keyInv sha256 rq (trace @ []) (s\<lparr>is_phase := (is_phase s)(i := p)\<rparr>)"
  unfolding append_Nil2 by (rule silent_keeps [OF inv]) (use phase_move [OF assms] keyInvD(3) [OF inv] in auto)

lemma arrived_keeps:
  assumes inv: "keyInv sha256 rq trace s" and "is_phase s i = Arriving"
    and swept: "sweepIfDue (rq_org (rq i)) clock lost (is_now s) (is_swept s, is_rows s) = (swept, rows)"
  shows "keyInv sha256 rq trace (s\<lparr>is_rows := rows, is_swept := swept, is_phase := (is_phase s)(i := Claiming)\<rparr>)"
proof -
  have "phaseOk trace i Claiming" using keyInvD(1) [OF inv, rule_format, of i] assms(2) by (simp add: phaseOk_def)
  note moved = phase_move [OF inv this]
  show ?thesis by (rule silent_keeps [OF inv]) (use moved sweepIfDue_rows [OF swept] keyInvD(3) [OF inv] in auto)
qed

lemma step_keeps:
  assumes "idem_step sha256 rq s events s'" and inv: "keyInv sha256 rq trace s" and timely: "timely (trace @ events)"
  shows "keyInv sha256 rq (trace @ events) s'"
  using assms(1)
proof cases
  case (idem_tick t)
  show ?thesis unfolding idem_tick append_Nil2
    by (rule silent_keeps [OF inv]) (use idem_tick keyInvD(1,3) [OF inv] in auto)
next
  case (idem_arrive i clock lost swept rows)
  then show ?thesis using arrived_keeps [OF inv idem_arrive(3,4)] by simp
next
  case (idem_insert i rows)
  then show ?thesis using started_keeps [OF inv] by simp
next
  case (idem_conflict i rows)
  then show ?thesis using moved_keeps [OF inv, of i Reading] keyInvD(1) [OF inv, rule_format, of i] by (simp add: phaseOk_def)
next
  case (idem_read i c)
  then show ?thesis using replayed_keeps [OF inv, of i] moved_keeps [OF inv, of i Over] by (cases c) (auto simp: phaseOk_def)
next
  case (idem_claim_lost i)
  then show ?thesis using moved_keeps [OF inv, of i Over] by (simp add: phaseOk_def)
next
  case (idem_returned i a)
  then show ?thesis using moved_keeps [OF inv, of i "Recording a"] keyInvD(1) [OF inv, rule_format, of i] by (simp add: phaseOk_def)
next
  case (idem_threw i)
  then show ?thesis using moved_keeps [OF inv, of i Releasing] keyInvD(1) [OF inv, rule_format, of i] by (simp add: phaseOk_def)
next
  case (idem_complete i a)
  then show ?thesis using recorded_keeps [OF inv] timely by simp
next
  case (idem_release i)
  then show ?thesis using gaveBack_keeps [OF inv] timely by simp
next
  case (idem_settle_lost i a)
  then show ?thesis using moved_keeps [OF inv, of i Over] by (simp add: phaseOk_def)
next
  case idem_restart
  have "phaseOk trace i (if is_phase s i = Arriving then Arriving else Over)" for i
    using keyInvD(1) [OF inv, rule_format, of i] by (auto simp: phaseOk_def)
  then show ?thesis unfolding idem_restart append_Nil2
    by (intro silent_keeps [OF inv]) (use keyInvD(3) [OF inv] in auto)
qed

lemma runs_keep: "idem_runs sha256 rq (idem_begin now) trace s \<Longrightarrow> timely trace \<Longrightarrow> keyInv sha256 rq trace s"
proof (induction rule: idem_runs.induct)
  case idem_none
  show ?case by (auto simp: keyInv_def idem_begin_def phaseOk_def oneAtATime_def replaysAnswers_def)
next
  case (idem_more trace s events s')
  then show ?case using step_keeps timely_prefix by blast
qed

text \<open>
  C17. An idempotency key lets its work begin once. Take any interleaving of requests with their statements, sweeps,
  lost transactions and crashes of the process, in which no request settles its key later than the retention after
  it began. When a handler begins for a key for which another began before, that one gave the key back because it
  failed, or its 24 hours were over; and a replayed answer is one that a handler recorded before, for the same key
  and the same fingerprint.
\<close>

theorem key_lets_work_begin_once:
  assumes "idem_runs sha256 rq (idem_begin now) trace s" and "timely trace"
  shows "(\<forall>a b i j t u. trace = a @ Started j u # b \<and> Started i t \<in> set a \<and> slotOf (rq i) = slotOf (rq j)
      \<longrightarrow> (\<exists>v. GaveBack i v \<in> set a) \<or> t + RETENTION < u)
    \<and> (\<forall>a b j answer. trace = a @ Replayed j answer # b
      \<longrightarrow> (\<exists>i t. Recorded i answer t \<in> set a \<and> slotOf (rq i) = slotOf (rq j)
            \<and> fingerprint sha256 (rq i) = fingerprint sha256 (rq j)))"
  using keyInvD(6,7) [OF runs_keep [OF assms]] unfolding oneAtATime_def replaysAnswers_def by (rule conjI)

section \<open>A retry\<close>

definition ex_post :: Request where
  "ex_post = \<lparr>rq_org = ''o'', rq_user = ''u'', rq_method = ''post'', rq_path = ''/files/folders'', rq_body = Some ''{}'', rq_key = ''k1''\<rparr>"

definition ex_created :: StoredAnswer where
  "ex_created = \<lparr>an_status = 201, an_body = None, an_headers = [(''location'', ''/x'')]\<rparr>"

definition ex_stored :: "StoredAnswer option \<Rightarrow> KeyRow" where
  "ex_stored a = \<lparr>ik_slot = slotOf ex_post, ik_print = fingerprint id ex_post, ik_answer = a, ik_created = 0\<rparr>"

definition ex_at :: "KeyRow list \<Rightarrow> (nat \<Rightarrow> idem_phase) \<Rightarrow> idem_state" where
  "ex_at rows p = \<lparr>is_now = 0, is_rows = rows, is_swept = (\<lambda>_. None)(''o'' := Some 0), is_phase = p\<rparr>"

lemma ex_org: "rq_org ex_post = ''o''"
  by (simp add: ex_post_def)

lemma ex_claims:
  "insertKey id ex_post 0 [] = (True, [ex_stored None])" "insertKey id ex_post 0 [ex_stored a] = (False, [ex_stored a])"
  "readKey id ex_post [ex_stored a] = (case a of None \<Rightarrow> InFlight | Some x \<Rightarrow> Replay x)"
  "completeKey ex_post x [ex_stored a] = [ex_stored (Some x)]"
  by (simp_all add: insertKey_def readKey_def completeKey_def ex_stored_def)

lemma ex_sweep:
  "sweepIfDue ''o'' 0 False 0 (\<lambda>_. None, []) = ((\<lambda>_. None)(''o'' := Some 0), [])"
  "sweepIfDue ''o'' 0 False 0 ((\<lambda>_. None)(''o'' := Some 0), rows) = ((\<lambda>_. None)(''o'' := Some 0), rows)"
  by (simp_all add: sweepIfDue_def purgeExpiredKeys_def SWEEP_EVERY_MS_def)

abbreviation ex_idem :: "idem_state \<Rightarrow> idem_event list \<Rightarrow> idem_state \<Rightarrow> bool" where
  "ex_idem \<equiv> idem_step id (\<lambda>_. ex_post)"

lemma ex_steps:
  "ex_idem (idem_begin 0) [] (ex_at [] ((\<lambda>_. Arriving)(0 := Claiming)))"
  "p i = Claiming \<Longrightarrow> ex_idem (ex_at [] p) [Started i 0] (ex_at [ex_stored None] (p(i := Handling)))"
  "p i = Handling \<Longrightarrow> ex_idem (ex_at rows p) [] (ex_at rows (p(i := Recording x)))"
  "p i = Recording x \<Longrightarrow> ex_idem (ex_at [ex_stored a] p) [Recorded i x 0] (ex_at [ex_stored (Some x)] (p(i := Over)))"
  "p i = Recording x \<Longrightarrow> ex_idem (ex_at rows p) [] (ex_at rows (p(i := Over)))"
  "p i = Arriving \<Longrightarrow> ex_idem (ex_at rows p) [] (ex_at rows (p(i := Claiming)))"
  "p i = Claiming \<Longrightarrow> ex_idem (ex_at [ex_stored a] p) [] (ex_at [ex_stored a] (p(i := Reading)))"
  "p i = Reading \<Longrightarrow> ex_idem (ex_at [ex_stored a] p) (case a of None \<Rightarrow> [] | Some x \<Rightarrow> [Replayed i x])
     (ex_at [ex_stored a] (p(i := Over)))"
  using idem_arrive [of "idem_begin 0" 0 "\<lambda>_. ex_post" 0 False _ _ id] idem_insert [of "ex_at [] p" i id "\<lambda>_. ex_post"]
    idem_returned [of "ex_at rows p" i id "\<lambda>_. ex_post" x] idem_complete [of "ex_at [ex_stored a] p" i x id "\<lambda>_. ex_post"]
    idem_settle_lost [of "ex_at rows p" i x id "\<lambda>_. ex_post"] idem_arrive [of "ex_at rows p" i "\<lambda>_. ex_post" 0 False _ _ id]
    idem_conflict [of "ex_at [ex_stored a] p" i id "\<lambda>_. ex_post"] idem_read [of "ex_at [ex_stored a] p" i id "\<lambda>_. ex_post"]
  by (simp_all add: ex_at_def idem_begin_def ex_org ex_sweep ex_claims split: option.splits)

abbreviation ex_served :: "idem_event list \<Rightarrow> idem_state \<Rightarrow> bool" where
  "ex_served \<equiv> idem_runs id (\<lambda>_. ex_post) (idem_begin 0)"

lemma ex_more:
  "ex_served trace s \<Longrightarrow> ex_idem s events s' \<Longrightarrow> trace' = trace @ events \<Longrightarrow> ex_served trace' s'"
  using idem_more by metis

lemma ex_began: "\<exists>p. ex_served [Started 0 0] (ex_at [ex_stored None] p) \<and> p 0 = Recording ex_created \<and> p 1 = Arriving"
proof -
  let ?p = "(\<lambda>_. Arriving)(0 := Claiming)"
  have "ex_served [] (ex_at [] ?p)" by (rule ex_more [OF idem_none ex_steps(1)]) simp
  then have "ex_served [Started 0 0] (ex_at [ex_stored None] (?p(0 := Handling)))" by (rule ex_more [OF _ ex_steps(2)]) simp_all
  then have "ex_served [Started 0 0] (ex_at [ex_stored None] ((?p(0 := Handling))(0 := Recording ex_created)))"
    by (rule ex_more [OF _ ex_steps(3)]) simp_all
  then show ?thesis by (intro exI conjI, assumption) simp_all
qed

lemma ex_asks_again:
  assumes "ex_served trace (ex_at [ex_stored a] p)" and "p 1 = Arriving"
  shows "\<exists>s. ex_served (trace @ (case a of None \<Rightarrow> [] | Some x \<Rightarrow> [Replayed 1 x])) s"
proof -
  have "ex_served trace (ex_at [ex_stored a] (p(1 := Claiming)))" by (rule ex_more [OF assms(1) ex_steps(6)]) (use assms(2) in simp_all)
  then have "ex_served trace (ex_at [ex_stored a] ((p(1 := Claiming))(1 := Reading)))" by (rule ex_more [OF _ ex_steps(7)]) simp_all
  then have "ex_served (trace @ (case a of None \<Rightarrow> [] | Some x \<Rightarrow> [Replayed 1 x])) (ex_at [ex_stored a] (((p(1 := Claiming))(1 := Reading))(1 := Over)))"
    by (rule ex_more [OF _ ex_steps(8)]) simp_all
  then show ?thesis ..
qed

theorem key_lets_work_begin_once_witness:
  "\<exists>s. ex_served [Started 0 0, Recorded 0 ex_created 0, Replayed 1 ex_created] s
     \<and> (\<exists>i t. Recorded i ex_created t \<in> set [Started 0 0, Recorded 0 ex_created 0] \<and> fingerprint id ex_post = fingerprint id ex_post)"
proof -
  let ?a = "[Started 0 0, Recorded 0 ex_created 0]"
  obtain p where p: "ex_served [Started 0 0] (ex_at [ex_stored None] p)" "p 0 = Recording ex_created" "p 1 = Arriving"
    using ex_began by blast
  have "ex_served ?a (ex_at [ex_stored (Some ex_created)] (p(0 := Over)))" by (rule ex_more [OF p(1) ex_steps(4)]) (use p(2) in simp_all)
  then obtain s where run: "ex_served (?a @ [Replayed 1 ex_created]) s" using ex_asks_again p(3) by fastforce
  have "timely (?a @ [Replayed 1 ex_created])" by (auto simp: timely_def RETENTION_def)
  from key_lets_work_begin_once [OF run this]
  have "\<exists>i t. Recorded i ex_created t \<in> set ?a \<and> fingerprint id ex_post = fingerprint id ex_post" by blast
  with run show ?thesis by auto
qed

section \<open>An answer that could not be recorded\<close>

text \<open>The handler did its work and the statement of \<open>complete\<close> is lost. The row stays without an answer, so the
  key cannot be claimed again, whoever asks: each retry hears that the operation is in progress, until a sweep
  finds the row older than the retention.\<close>

lemma lost_answer_keeps_the_key:
  "\<exists>p. ex_served [Started 0 0] (ex_at [ex_stored None] p) \<and> p 0 = Over"
  "insertKey id ex_post now [ex_stored None] = (False, [ex_stored None])" "readKey id ex_post [ex_stored None] = InFlight"
proof -
  obtain p where p: "ex_served [Started 0 0] (ex_at [ex_stored None] p)" "p 0 = Recording ex_created" using ex_began by blast
  have "ex_served [Started 0 0] (ex_at [ex_stored None] (p(0 := Over)))" by (rule ex_more [OF p(1) ex_steps(5)]) (use p(2) in simp_all)
  then show "\<exists>p. ex_served [Started 0 0] (ex_at [ex_stored None] p) \<and> p 0 = Over" by (intro exI conjI, assumption) simp
qed (simp_all add: insertKey_def readKey_def ex_stored_def)

end
