(* ===== verification/RateLimit.thy ===== *)
theory RateLimit
  imports Text
begin

text \<open>
  \<open>RateLimitInterceptor\<close> (\<open>apps/api/src/common/rate-limit.interceptor.ts\<close>): requests counted in memory, by who
  sends them, from where, and what for. The map is a list of its entries in insertion order. Times are those of
  \<open>Date.now()\<close>, in milliseconds; nothing here needs them to go forward.
\<close>

section \<open>What is counted\<close>

definition WINDOW_MS :: int where
  "WINDOW_MS = 60000"

definition MAX_PER_WINDOW :: nat where
  "MAX_PER_WINDOW = 600"

definition MAX_KEYS :: nat where
  "MAX_KEYS = 20000"

text \<open>The path without its query.\<close>

definition pathOfUrl :: "string \<Rightarrow> string" where
  "pathOfUrl url = takeWhile (\<lambda>c. c \<noteq> CHR ''?'') url"

text \<open>\<open>split('/')\<close>.\<close>

fun splitSlash :: "string \<Rightarrow> string list" where
  "splitSlash [] = [[]]"
| "splitSlash (c # cs) =
     (if c = CHR ''/'' then [] # splitSlash cs
      else (case splitSlash cs of [] \<Rightarrow> [[c]] | s # ss \<Rightarrow> (c # s) # ss))"

fun joinSlash :: "string list \<Rightarrow> string" where
  "joinSlash [] = []"
| "joinSlash [s] = s"
| "joinSlash (s # t # ss) = s @ ''/'' @ joinSlash (t # ss)"

definition isHex :: "char \<Rightarrow> bool" where
  "isHex c \<longleftrightarrow> c \<in> set ''0123456789abcdefABCDEF''"

definition isUuid :: "string \<Rightarrow> bool" where
  "isUuid s \<longleftrightarrow> length s = 36
     \<and> list_all (\<lambda>i. if i \<in> {8, 13, 18, 23} then s ! i = CHR ''-'' else isHex (s ! i)) [0..<36]"

definition isDigits :: "string \<Rightarrow> bool" where
  "isDigits s \<longleftrightarrow> s \<noteq> [] \<and> list_all (\<lambda>c. c \<in> set ''0123456789'') s"

definition normalisePath :: "string \<Rightarrow> string" where
  "normalisePath path = joinSlash (map (\<lambda>s. if isUuid s \<or> isDigits s then '':id'' else s) (splitSlash path))"

text \<open>\<open>includes\<close>.\<close>

fun hasPart :: "string \<Rightarrow> string \<Rightarrow> bool" where
  "hasPart [] p = (p = [])"
| "hasPart (c # cs) p = (take (length p) (c # cs) = p \<or> hasPart cs p)"

definition upperLetter :: "char \<Rightarrow> char" where
  "upperLetter c = (if 97 \<le> (of_char c :: nat) \<and> (of_char c :: nat) \<le> 122 then char_of ((of_char c :: nat) - 32) else c)"

definition isExempt :: "string \<Rightarrow> string \<Rightarrow> bool" where
  "isExempt httpMethod path \<longleftrightarrow>
     hasPart path ''/events'' \<or> (map upperLetter httpMethod = ''PATCH'' \<and> hasPart path ''/uploads/'')"

section \<open>The windows\<close>

record RateWindow =
  rw_count :: nat
  rw_reset :: int

type_synonym rate_windows = "(string \<times> RateWindow) list"

definition liveWindows :: "int \<Rightarrow> rate_windows \<Rightarrow> rate_windows" where
  "liveWindows now ws = filter (\<lambda>(k, v). \<not> now \<ge> rw_reset v) ws"

definition forget :: "int \<Rightarrow> rate_windows \<Rightarrow> rate_windows" where
  "forget now ws = (let ws' = liveWindows now ws in if length ws' \<ge> MAX_KEYS then [] else ws')"

text \<open>\<open>Map.set\<close>: an entry keeps its place.\<close>

fun setKey :: "string \<Rightarrow> RateWindow \<Rightarrow> rate_windows \<Rightarrow> rate_windows" where
  "setKey k v [] = [(k, v)]"
| "setKey k v ((j, x) # ws) = (if j = k then (k, v) # ws else (j, x) # setKey k v ws)"

definition ceilDiv :: "int \<Rightarrow> int \<Rightarrow> int" where
  "ceilDiv a b = - ((- a) div b)"

definition takeToken :: "string \<Rightarrow> int \<Rightarrow> rate_windows \<Rightarrow> int option \<times> rate_windows" where
  "takeToken key now ws =
     (let fresh = (let ws' = (if length ws \<ge> MAX_KEYS then forget now ws else ws)
                   in (None, setKey key \<lparr>rw_count = 1, rw_reset = now + WINDOW_MS\<rparr> ws'))
      in case map_of ws key of
           None \<Rightarrow> fresh
         | Some v \<Rightarrow>
             if now \<ge> rw_reset v then fresh
             else if rw_count v \<ge> MAX_PER_WINDOW then (Some (max 1 (ceilDiv (rw_reset v - now) 1000)), ws)
             else (None, setKey key (v\<lparr>rw_count := rw_count v + 1\<rparr>) ws))"

section \<open>The interceptor\<close>

record RateRequest =
  rr_user :: "id option"
  rr_ip :: "string option"
  rr_method :: string
  rr_url :: string

definition rateKey :: "RateRequest \<Rightarrow> string" where
  "rateKey r =
     (case rr_user r of None \<Rightarrow> ''anon'' | Some u \<Rightarrow> u) @ ''|''
     @ (case rr_ip r of None \<Rightarrow> ''unknown'' | Some ip \<Rightarrow> ip) @ ''|''
     @ rr_method r @ '' '' @ normalisePath (pathOfUrl (rr_url r))"

text \<open>\<open>Some n\<close>: refused, try again in \<open>n\<close> seconds.\<close>

definition rateLimit :: "RateRequest \<Rightarrow> int \<Rightarrow> rate_windows \<Rightarrow> int option \<times> rate_windows" where
  "rateLimit r now ws =
     (if isExempt (rr_method r) (pathOfUrl (rr_url r)) then (None, ws) else takeToken (rateKey r) now ws)"

fun serveAll :: "(RateRequest \<times> int) list \<Rightarrow> rate_windows \<Rightarrow> int option list \<times> rate_windows" where
  "serveAll [] ws = ([], ws)"
| "serveAll ((r, now) # rs) ws =
     (case rateLimit r now ws of (a, ws') \<Rightarrow> case serveAll rs ws' of (as, ws'') \<Rightarrow> (a # as, ws''))"

end
