(* ===== verification/RateProps.thy ===== *)
theory RateProps
  imports RateLimit
begin

text \<open>How much the counter remembers, whom it refuses, and how many requests it lets through.\<close>

section \<open>Entries of the map\<close>

lemma map_of_setKey [simp]: "map_of (setKey k v ws) = (map_of ws)(k \<mapsto> v)"
  by (induction k v ws rule: setKey.induct) auto

lemma keys_setKey: "distinct (map fst ws) \<Longrightarrow> distinct (map fst (setKey k v ws))"
  and set_setKey: "fst ` set (setKey k v ws) = insert k (fst ` set ws)"
proof -
  show set: "fst ` set (setKey k v ws) = insert k (fst ` set ws)" for ws
    by (induction k v ws rule: setKey.induct) auto
  show "distinct (map fst (setKey k v ws))" if "distinct (map fst ws)"
    using that set by (induction k v ws rule: setKey.induct) auto
qed

lemma length_setKey: "length (setKey k v ws) = (if k \<in> fst ` set ws then length ws else Suc (length ws))"
  by (induction k v ws rule: setKey.induct) auto

lemma forget_sub: "set (forget now ws) \<subseteq> set ws" "distinct (map fst ws) \<Longrightarrow> distinct (map fst (forget now ws))"
  "length (forget now ws) < MAX_KEYS"
  by (auto simp: forget_def liveWindows_def Let_def distinct_map_filter MAX_KEYS_def)

definition windowsOk :: "rate_windows \<Rightarrow> bool" where
  "windowsOk ws \<longleftrightarrow> distinct (map fst ws) \<and> length ws \<le> MAX_KEYS \<and> (\<forall>k v. map_of ws k = Some v \<longrightarrow> rw_count v \<le> MAX_PER_WINDOW)"

text \<open>What a call does to the map: nothing, one more in a window, or a new window after forgetting.\<close>

lemma takeToken_cases:
  assumes "takeToken key now ws = (a, ws')"
  obtains (refused) v where "map_of ws key = Some v" "now < rw_reset v" "MAX_PER_WINDOW \<le> rw_count v" "ws' = ws"
      "a = Some (max 1 (ceilDiv (rw_reset v - now) 1000))"
    | (counted) v where "map_of ws key = Some v" "now < rw_reset v" "rw_count v < MAX_PER_WINDOW" "a = None"
      "ws' = setKey key (v\<lparr>rw_count := rw_count v + 1\<rparr>) ws"
    | (opened) kept where "a = None" "ws' = setKey key \<lparr>rw_count = 1, rw_reset = now + WINDOW_MS\<rparr> kept"
      "kept = (if length ws \<ge> MAX_KEYS then forget now ws else ws)" "\<And>v. map_of ws key = Some v \<Longrightarrow> rw_reset v \<le> now"
proof -
  consider v where "map_of ws key = Some v" "now < rw_reset v" | "\<And>v. map_of ws key = Some v \<Longrightarrow> rw_reset v \<le> now"
    by (cases "map_of ws key") force+
  then show ?thesis
  proof cases
    case (1 v)
    then have run: "(a, ws') = (if MAX_PER_WINDOW \<le> rw_count v then (Some (max 1 (ceilDiv (rw_reset v - now) 1000)), ws)
        else (None, setKey key (v\<lparr>rw_count := rw_count v + 1\<rparr>) ws))"
      using assms by (simp add: takeToken_def Let_def)
    show ?thesis
    proof (cases "MAX_PER_WINDOW \<le> rw_count v")
      case True
      then show ?thesis using refused [OF 1] run by simp
    next
      case False
      then show ?thesis using counted [OF 1] run by simp
    qed
  next
    case 2
    then have "(a, ws') = (None, setKey key \<lparr>rw_count = 1, rw_reset = now + WINDOW_MS\<rparr> (if length ws \<ge> MAX_KEYS then forget now ws else ws))"
      using assms by (auto simp: takeToken_def Let_def split: option.splits)
    then show ?thesis using opened 2 by blast
  qed
qed

lemma kept_ok:
  assumes "windowsOk ws" and "kept = (if length ws \<ge> MAX_KEYS then forget now ws else ws)"
  shows "distinct (map fst kept)" and "length kept < MAX_KEYS" and "\<And>k v. map_of kept k = Some v \<Longrightarrow> map_of ws k = Some v"
proof -
  have "set kept \<subseteq> set ws" using assms(2) forget_sub(1) by auto
  moreover show "distinct (map fst kept)" using assms forget_sub(2) by (auto simp: windowsOk_def)
  ultimately show "map_of kept k = Some v \<Longrightarrow> map_of ws k = Some v" for k v
    using assms(1) by (auto simp: windowsOk_def dest: map_of_SomeD intro!: map_of_is_SomeI)
  show "length kept < MAX_KEYS" using assms forget_sub(3) by (auto simp: windowsOk_def)
qed

lemma takeToken_ok:
  assumes "windowsOk ws" and "takeToken key now ws = (a, ws')"
  shows "windowsOk ws'"
  using assms(2)
proof (cases rule: takeToken_cases)
  case (counted v)
  then have "key \<in> fst ` set ws" by (force dest: map_of_SomeD)
  then show ?thesis using assms(1) counted by (auto simp: windowsOk_def keys_setKey length_setKey)
next
  case (opened kept)
  note kept = kept_ok [OF assms(1) opened(3)]
  have "rw_count v \<le> MAX_PER_WINDOW" if "map_of kept k = Some v" for k v
    using kept(3) [OF that] assms(1) by (auto simp: windowsOk_def)
  then show ?thesis using kept(1,2) by (auto simp: windowsOk_def opened(2) keys_setKey length_setKey MAX_PER_WINDOW_def)
qed (use assms(1) in simp)

section \<open>How many are let through\<close>

text \<open>What a key may still have before \<open>until\<close>: the rest of its window, and of one more if it ends before.\<close>

definition allowance :: "int \<Rightarrow> string \<Rightarrow> rate_windows \<Rightarrow> nat" where
  "allowance until key ws =
     (case map_of ws key of
        None \<Rightarrow> MAX_PER_WINDOW
      | Some v \<Rightarrow> (if until \<le> rw_reset v then 0 else MAX_PER_WINDOW) + (MAX_PER_WINDOW - rw_count v))"

lemma allowance_le: "allowance until key ws \<le> 2 * MAX_PER_WINDOW"
  by (auto simp: allowance_def split: option.splits)

lemma kept_allowance:
  assumes "windowsOk ws" and "kept = (if length ws \<ge> MAX_KEYS then forget now ws else ws)"
    and "length (liveWindows now ws) < MAX_KEYS" and "now < until"
  shows "allowance until key kept \<le> allowance until key ws"
proof (cases "map_of kept key")
  case (Some v)
  then show ?thesis using kept_ok(3) [OF assms(1,2)] by (simp add: allowance_def)
next
  case None
  show ?thesis
  proof (cases "map_of ws key")
    case (Some v)
    have "rw_reset v \<le> now"
    proof (rule ccontr)
      assume "\<not> rw_reset v \<le> now"
      then have "(key, v) \<in> set (liveWindows now ws)" using map_of_SomeD [OF Some] by (auto simp: liveWindows_def)
      then have "(key, v) \<in> set kept" using assms(2,3) map_of_SomeD [OF Some] by (auto simp: forget_def Let_def)
      with None show False by (simp add: map_of_eq_None_iff image_iff) force
    qed
    then show ?thesis using None Some assms(4) by (simp add: allowance_def)
  qed (simp add: allowance_def None)
qed

lemma takeToken_allowance:
  assumes "windowsOk ws" and "takeToken k now ws = (a, ws')" and "length (liveWindows now ws) < MAX_KEYS"
    and "until - WINDOW_MS \<le> now" and "now < until"
  shows "allowance until key ws' + (if k = key \<and> a = None then 1 else 0) \<le> allowance until key ws"
  using assms(2)
proof (cases rule: takeToken_cases)
  case (opened kept)
  show ?thesis
  proof (cases "k = key")
    case True
    have "MAX_PER_WINDOW \<le> allowance until key ws"
      using opened(4) assms(5) True by (force simp: allowance_def split: option.splits)
    then show ?thesis using opened(1,2) True assms(4) by (simp add: allowance_def MAX_PER_WINDOW_def)
  next
    case False
    then show ?thesis using kept_allowance [OF assms(1) opened(3) assms(3,5), of key] opened(2) by (simp add: allowance_def)
  qed
qed (auto simp: allowance_def)

section \<open>Runs\<close>

lemma rateLimit_cases:
  assumes "rateLimit r now ws = (a, ws')"
  obtains (exempt) "isExempt (rr_method r) (pathOfUrl (rr_url r))" "a = None" "ws' = ws"
    | (token) "\<not> isExempt (rr_method r) (pathOfUrl (rr_url r))" "takeToken (rateKey r) now ws = (a, ws')"
  using assms by (cases "isExempt (rr_method r) (pathOfUrl (rr_url r))") (auto simp: rateLimit_def)

lemma rateLimit_ok: "windowsOk ws \<Longrightarrow> rateLimit r now ws = (a, ws') \<Longrightarrow> windowsOk ws'"
  by (erule rateLimit_cases) (auto intro: takeToken_ok)

text \<open>The requests that were counted for a key and let through.\<close>

definition grantedTo :: "string \<Rightarrow> (RateRequest \<times> int) \<times> int option \<Rightarrow> bool" where
  "grantedTo key x \<longleftrightarrow>
     (case x of ((r, now), a) \<Rightarrow> \<not> isExempt (rr_method r) (pathOfUrl (rr_url r)) \<and> rateKey r = key \<and> a = None)"

definition granted :: "string \<Rightarrow> (RateRequest \<times> int) list \<Rightarrow> int option list \<Rightarrow> nat" where
  "granted key rs as = length (filter (grantedTo key) (zip rs as))"

lemma granted_simps [simp]:
  "granted key [] as = 0"
  "granted key (x # rs) (a # as) = (if grantedTo key (x, a) then 1 else 0) + granted key rs as"
  by (simp_all add: granted_def)

text \<open>At no request are there as many live windows as the map may hold.\<close>

fun neverFull :: "(RateRequest \<times> int) list \<Rightarrow> rate_windows \<Rightarrow> bool" where
  "neverFull [] ws = True"
| "neverFull ((r, now) # rs) ws = (length (liveWindows now ws) < MAX_KEYS \<and> neverFull rs (snd (rateLimit r now ws)))"

lemma serveAll_Cons:
  assumes "serveAll ((r, now) # rs) ws = (as, ws')"
  obtains a v bs where "rateLimit r now ws = (a, v)" "serveAll rs v = (bs, ws')" "as = a # bs"
  using assms by (auto split: prod.splits)

lemma serveAll_ok: "windowsOk ws \<Longrightarrow> serveAll rs ws = (as, ws') \<Longrightarrow> windowsOk ws' \<and> length as = length rs"
proof (induction rs arbitrary: ws as)
  case (Cons x rs)
  obtain r now where x: "x = (r, now)" by fastforce
  obtain a v bs where "rateLimit r now ws = (a, v)" "serveAll rs v = (bs, ws')" "as = a # bs"
    by (rule serveAll_Cons [OF Cons.prems(2) [unfolded x]])
  then show ?case using Cons.IH [of v bs] rateLimit_ok [OF Cons.prems(1)] by simp
qed simp

lemma serveAll_append:
  "serveAll (rs @ ss) ws = (as, ws') \<Longrightarrow> \<exists>bs cs v. serveAll rs ws = (bs, v) \<and> serveAll ss v = (cs, ws') \<and> as = bs @ cs"
proof (induction rs arbitrary: ws as)
  case (Cons x rs)
  obtain r now where x: "x = (r, now)" by fastforce
  obtain a v bs where one: "rateLimit r now ws = (a, v)" "serveAll (rs @ ss) v = (bs, ws')" "as = a # bs"
    by (rule serveAll_Cons [of r now "rs @ ss" ws as ws']) (use Cons.prems x in auto)
  obtain ds cs u where "serveAll rs v = (ds, u)" "serveAll ss u = (cs, ws')" "bs = ds @ cs" using Cons.IH [OF one(2)] by blast
  then show ?case using one by (intro exI [of _ "a # ds"] exI [of _ cs] exI [of _ u]) (simp add: x)
qed simp

lemma serveAll_allowance:
  assumes "windowsOk ws" and "serveAll rs ws = (as, ws')" and "neverFull rs ws"
    and "\<forall>(r, now) \<in> set rs. until - WINDOW_MS \<le> now \<and> now < until"
  shows "granted key rs as + allowance until key ws' \<le> allowance until key ws"
  using assms
proof (induction rs arbitrary: ws as)
  case (Cons x rs)
  obtain r now where x: "x = (r, now)" by fastforce
  obtain a v bs where one: "rateLimit r now ws = (a, v)" and rest: "serveAll rs v = (bs, ws')" and as: "as = a # bs"
    by (rule serveAll_Cons [OF Cons.prems(2) [unfolded x]])
  have "neverFull rs v" using Cons.prems(3) one by (simp add: x)
  then have later: "granted key rs bs + allowance until key ws' \<le> allowance until key v"
    using Cons.IH [OF rateLimit_ok [OF Cons.prems(1) one] rest] Cons.prems(4) by simp
  have "allowance until key v + (if grantedTo key (x, a) then 1 else 0) \<le> allowance until key ws"
    using one
  proof (cases rule: rateLimit_cases)
    case token
    then show ?thesis
      using takeToken_allowance [OF Cons.prems(1) token(2), of until key] Cons.prems(3,4) x by (auto simp: grantedTo_def)
  qed (simp add: grantedTo_def x)
  with later show ?case by (simp add: as)
qed simp

text \<open>Who is refused has had his requests: \<open>base\<close> bounds the counts at the start.\<close>

lemma takeToken_count:
  assumes "windowsOk ws" and "takeToken key now ws = (a, ws')" and "\<forall>k v. map_of ws k = Some v \<longrightarrow> rw_count v \<le> base k"
  shows "\<forall>k v. map_of ws' k = Some v \<longrightarrow> rw_count v \<le> base k + (if k = key \<and> a = None then 1 else 0)"
  using assms(2)
proof (cases rule: takeToken_cases)
  case (opened kept)
  have "rw_count v \<le> base k" if "map_of kept k = Some v" for k v
    using kept_ok(3) [OF assms(1) opened(3) that] assms(3) by blast
  then show ?thesis using opened(1,2) by auto
qed (use assms(3) in auto)

lemma refused_after_many:
  assumes "windowsOk ws" and "serveAll rs ws = (as, ws')" and "\<forall>k v. map_of ws k = Some v \<longrightarrow> rw_count v \<le> base k"
    and "i < length rs" and "as ! i = Some n"
  shows "1 \<le> n \<and> MAX_PER_WINDOW \<le> base (rateKey (fst (rs ! i))) + granted (rateKey (fst (rs ! i))) (take i rs) as"
  using assms
proof (induction rs arbitrary: ws as i base)
  case (Cons x rs)
  obtain r now where x: "x = (r, now)" by fastforce
  obtain a v bs where one: "rateLimit r now ws = (a, v)" and rest: "serveAll rs v = (bs, ws')" and as: "as = a # bs"
    by (rule serveAll_Cons [OF Cons.prems(2) [unfolded x]])
  show ?case
  proof (cases i)
    case 0
    then have "a = Some n" using Cons.prems(5) as by simp
    with one have t: "takeToken (rateKey r) now ws = (Some n, v)" by (auto elim: rateLimit_cases)
    then show ?thesis using Cons.prems(3) 0 x by (cases rule: takeToken_cases) fastforce+
  next
    case (Suc j)
    let ?base = "\<lambda>k. base k + (if grantedTo k (x, a) then 1 else 0)"
    have counts: "\<forall>k w. map_of v k = Some w \<longrightarrow> rw_count w \<le> ?base k"
      using one
    proof (cases rule: rateLimit_cases)
      case token
      have "(k = rateKey r \<and> a = None) = grantedTo k (x, a)" for k
        using token(1) x by (auto simp: grantedTo_def)
      then show ?thesis using takeToken_count [OF Cons.prems(1) token(2) Cons.prems(3)] by (simp only:)
    qed (use Cons.prems(3) in \<open>auto simp: trans_le_add1\<close>)
    have "1 \<le> n \<and> MAX_PER_WINDOW \<le> ?base (rateKey (fst (rs ! j))) + granted (rateKey (fst (rs ! j))) (take j rs) bs"
      by (rule Cons.IH [OF rateLimit_ok [OF Cons.prems(1) one] rest counts]) (use Cons.prems(4,5) Suc as in simp_all)
    then show ?thesis using Suc as by simp
  qed
qed simp

lemma windowsOk_Nil [simp]: "windowsOk []"
  by (simp add: windowsOk_def)

section \<open>The property\<close>

text \<open>
  C19. The interceptor, over any run of requests at any times of the clock: the map never has more than
  \<open>MAX_KEYS\<close> entries and no counter passes \<open>MAX_PER_WINDOW\<close>; who is refused is told to wait at least a second, and
  \<open>MAX_PER_WINDOW\<close> requests with his key were let through before; and of the requests that come within any span of
  one window, during which the map was never full of live windows, no key gets more than twice
  \<open>MAX_PER_WINDOW\<close> through, whatever was served before.
\<close>

theorem rate_limit_bounds:
  assumes "serveAll (earlier @ recent) [] = (as, ws)"
  shows "length ws \<le> MAX_KEYS \<and> (\<forall>k v. map_of ws k = Some v \<longrightarrow> rw_count v \<le> MAX_PER_WINDOW)
    \<and> (\<forall>i n. i < length (earlier @ recent) \<longrightarrow> as ! i = Some n \<longrightarrow>
         1 \<le> n \<and> MAX_PER_WINDOW \<le> granted (rateKey (fst ((earlier @ recent) ! i))) (take i (earlier @ recent)) as)
    \<and> (\<forall>until key. neverFull recent (snd (serveAll earlier []))
           \<and> (\<forall>(r, now) \<in> set recent. until - WINDOW_MS \<le> now \<and> now < until) \<longrightarrow>
         granted key recent (drop (length earlier) as) \<le> 2 * MAX_PER_WINDOW)"
proof (intro conjI allI impI, goal_cases)
  case 1
  show ?case using serveAll_ok [OF windowsOk_Nil assms] by (simp add: windowsOk_def)
next
  case (2 k v)
  then show ?case using serveAll_ok [OF windowsOk_Nil assms] by (simp add: windowsOk_def)
next
  case (3 i n)
  then show ?case using refused_after_many [OF windowsOk_Nil assms, of "\<lambda>_. 0" i n] by simp
next
  case (4 i n)
  then show ?case using refused_after_many [OF windowsOk_Nil assms, of "\<lambda>_. 0" i n] by simp
next
  case (5 until key)
  obtain bs cs v where run: "serveAll earlier [] = (bs, v)" "serveAll recent v = (cs, ws)" "as = bs @ cs"
    using serveAll_append [OF assms] by blast
  have v: "windowsOk v" "length bs = length earlier" using serveAll_ok [OF windowsOk_Nil run(1)] by auto
  have "granted key recent cs + allowance until key ws \<le> allowance until key v"
    using serveAll_allowance [OF v(1) run(2)] 5 run(1) by simp
  with allowance_le [of until key v] v(2) show ?case by (simp add: run(3))
qed

text \<open>A search, and another a second later, in the window that ends a minute after the first.\<close>

definition rateSearch :: RateRequest where
  "rateSearch = \<lparr>rr_user = Some ''u1'', rr_ip = None, rr_method = ''GET'', rr_url = ''/search?q=a''\<rparr>"

lemma rateSearch_counted: "\<not> isExempt (rr_method rateSearch) (pathOfUrl (rr_url rateSearch))"
  by (simp add: rateSearch_def isExempt_def pathOfUrl_def upperLetter_def)

lemma rateSearch_runs:
  "serveAll [(rateSearch, 0)] [] = ([None], [(rateKey rateSearch, \<lparr>rw_count = 1, rw_reset = 60000\<rparr>)])"
  "serveAll ([(rateSearch, 0)] @ [(rateSearch, 1000)]) [] = ([None, None], [(rateKey rateSearch, \<lparr>rw_count = 2, rw_reset = 60000\<rparr>)])"
  using rateSearch_counted
  by (simp_all add: rateLimit_def takeToken_def Let_def MAX_KEYS_def MAX_PER_WINDOW_def WINDOW_MS_def)

lemma rate_limit_bounds_witness:
  "granted (rateKey rateSearch) [(rateSearch, 1000)] (drop (length [(rateSearch, 0::int)]) [None, None]) \<le> 2 * MAX_PER_WINDOW
   \<and> granted (rateKey rateSearch) [(rateSearch, 1000)] [None] = 1"
proof
  have "neverFull [(rateSearch, 1000)] (snd (serveAll [(rateSearch, 0)] []))"
    by (simp only: rateSearch_runs) (simp add: liveWindows_def MAX_KEYS_def)
  moreover have "\<forall>(r, now) \<in> set [(rateSearch, 1000)]. 60000 - WINDOW_MS \<le> now \<and> now < 60000" by (simp add: WINDOW_MS_def)
  ultimately have "neverFull [(rateSearch, 1000)] (snd (serveAll [(rateSearch, 0)] []))
      \<and> (\<forall>(r, now) \<in> set [(rateSearch, 1000)]. 60000 - WINDOW_MS \<le> now \<and> now < 60000)" by (rule conjI)
  then show "granted (rateKey rateSearch) [(rateSearch, 1000)] (drop (length [(rateSearch, 0::int)]) [None, None]) \<le> 2 * MAX_PER_WINDOW"
    by (rule rate_limit_bounds [OF rateSearch_runs(2), THEN conjunct2, THEN conjunct2, THEN conjunct2,
        THEN spec, THEN spec, THEN mp])
  show "granted (rateKey rateSearch) [(rateSearch, 1000)] [None] = 1"
    using rateSearch_counted by (simp add: grantedTo_def)
qed

end
