(* ===== verification/Spec2Isabelle.thy ===== *)
theory Spec2Isabelle
  imports Impact SubtreeAccess DiskProps Overlap Posix JobProps AclBits TotpProps SignInBudget ThrottleProps NtProps RoundProps RetentionProps ExifProps IdempotencyProps RateProps
begin

text \<open>
  DEPSIS, a network storage appliance: a model of the logic that decides who may reach which file, keeps the
  tree of files and its bin, lets people in, runs background jobs and takes backups. The program is TypeScript
  under \<open>src/\<close>: the library \<open>packages/authz\<close>, the web API \<open>apps/api\<close>, the background process
  \<open>apps/worker\<close>, on a PostgreSQL database (\<open>packages/db/migrations\<close>) and beside a privileged system agent
  (\<open>services/system-agent\<close>, Rust) that alone touches the disks.

  \<^bold>\<open>How the parts interact.\<close> A request reaches a service through a controller; the service runs transactions
  on the database and asks the agent over a socket. The permission resolver is pure and is called with rows
  the service has read. What takes long is a row in \<open>job_queue\<close>, claimed by a worker, whose handler calls the
  same services: writing grants to the disk, expiring the bin, a round of backups. A job that recurs queues its
  own successor.

  \<^bold>\<open>How code is modelled.\<close> A pure function is a function. A method that reads or changes something is a function of
  the world that returns a value or an error and the new world (type \<open>eff\<close> of \<open>Prelude\<close>): an exception keeps the
  changes made before it, a transaction that fails keeps none of its own, and which transactions fail is part of
  the world. The agent is a function of the request and its own state, arbitrary unless a statement says
  otherwise; it may answer anything and it may be gone. Where requests run side by side, each is a sequence of
  transactions (\<open>Requests\<close>) or has explicit phases, and statements are about every interleaving. SQL is read as the
  function of the tables it computes. What is not in the repository is a parameter: AES-GCM, HMAC, Argon2 and
  SHA-256, \<open>localeCompare\<close>, the collation and \<open>lower\<close> of the database, its day arithmetic, random numbers and clocks.
  Machine integers keep their width where it matters (base 32, HOTP, MD4, EXIF bytes).

  \<^bold>\<open>Theories and code.\<close>

  \<^item> \<open>Prelude\<close>, \<open>Text\<close>: effects, triples, lists; decimal numerals. \<open>Keyset\<close>: pages by a key, in the locale
    \<open>keyset_order\<close>, interpreted for the listing, the bin, the ACL folders, the claim of a job and the list of jobs.
    \<open>Requests\<close>: transactions of requests interleaved, and the locale \<open>lasting\<close> for what such runs keep.
  \<^item> \<open>Permissions\<close>, \<open>Resolve\<close>, \<open>Impact\<close>: \<open>packages/authz/src\<close>. A grant names a principal, a node and a set of
    permissions; the nearest ancestor that carries a grant of a principal decides. The lemmas equate the loops
    with that rule, and the dry run with the users whose answer changes.
  \<^item> \<open>FileRows\<close>: the table \<open>file_entries\<close> (0008) and the recursive queries over it. \<open>FileAccess\<close>,
    \<open>SubtreeAccess\<close>, \<open>FileListing\<close>, \<open>SubtreeSize\<close>: the reading half of \<open>apps/api/src/files/files.service.ts\<close>:
    \<open>accessFor\<close> and its kin, the check of a whole subtree, pages of a folder and of the bin, and the size of a folder
    by a range of paths. Access always has an answer and it is the resolver's; pages are complete.
  \<^item> \<open>FileWorld\<close>, \<open>FileOps\<close>, \<open>FileTrash\<close>: the operations that change the tree, with every agent call, its undo and its
    error. \<open>FileTable\<close>, \<open>FileSpecs\<close>, \<open>FileEffects\<close>, \<open>FileReach\<close>: the invariant of the table, a triple per operation
    that says exactly which rows change, and every table that can be reached. \<open>PurgeOrder\<close>, \<open>TrashRestore\<close>, \<open>FileProps\<close>:
    permanent deletion (children first; copies of what goes forget their source), the bin, and concrete runs.
    \<open>Overlap\<close>: what two of these calls can do to the table when they overlap.
  \<^item> \<open>AgentDisk\<close>: three directory operations of the agent (\<open>dispatch.rs\<close> and \<open>unix.rs\<close> of
    \<open>services/system-agent/src\<close>) over a tree of directories, down to the system calls, each of which may fail, as may
    the connection. \<open>Disk\<close>: the locale \<open>undoable_agent\<close>, which says what the file operations may rely on when they take
    back what they did, and what they leave. \<open>DiskUndo\<close>: the agent interprets it. \<open>DiskProps\<close>: concrete runs, those in
    which taking back fails among them.
  \<^item> \<open>TrashRetention\<close>, \<open>RetentionProps\<close>: the expiry of the bin (\<open>files/trash-retention.service.ts\<close>) and its job.
  \<^item> \<open>Exif\<close>, \<open>ExifProps\<close>: \<open>files/exif-thumbnail.ts\<close>, on bytes nobody has checked.
  \<^item> \<open>Posix\<close>: user and group numbers (\<open>identity/posix.service.ts\<close> and its callers), under concurrency.
  \<^item> \<open>AclApply\<close>, \<open>AclTree\<close>, \<open>AclProps\<close>, \<open>AclLog\<close>, \<open>AclJobs\<close>, \<open>AclBits\<close>: grants written to the filesystem
    (\<open>permissions/apply-acl.service.ts\<close>): what a folder resolves to, which calls a job has confirmed, in which chain of
    jobs, and what the numbers in a confirmed call let a member do.
  \<^item> \<open>Jobs\<close>, \<open>JobQueue\<close>, \<open>Worker\<close>, \<open>JobProps\<close>: \<open>jobs.service.ts\<close>, the SQL functions of the queue, and any number of
    workers on it (\<open>apps/worker/src/worker.service.ts\<close>), with leases, crashes and time.
  \<^item> \<open>Totp\<close>, \<open>TotpProps\<close>, \<open>NtHash\<close>, \<open>NtProps\<close>: \<open>auth/totp.ts\<close> and \<open>auth/nt-hash.ts\<close>, down to their words.
  \<^item> \<open>AuthTables\<close>, \<open>Mfa\<close>, \<open>SignIn\<close>: the tables of the sign-in and the services and routes that change them
    (\<open>apps/api/src/auth\<close>, \<open>me\<close>, \<open>users\<close>). \<open>SignInSound\<close>, \<open>SignInProps\<close>, \<open>SignInBudget\<close>, \<open>ThrottleProps\<close>: what
    interleaved requests keep, who got a session, how many codes a challenge takes, when a password is refused.
  \<^item> \<open>LocalTime\<close>, \<open>ScheduleProps\<close>, \<open>Schedules\<close>, \<open>RoundProps\<close>: scheduled backups
    (\<open>system/backup-schedules.service.ts\<close>, \<open>handlers/backup-tick.handler.ts\<close>): the next run in local time, what a round
    destroys, and what it leaves.
  \<^item> \<open>Idempotency\<close>, \<open>IdempotencyProps\<close>: \<open>Idempotency-Key\<close> (\<open>apps/api/src/common\<close>), statement by statement.
  \<^item> \<open>RateLimit\<close>, \<open>RateProps\<close>: the request counter (\<open>common/rate-limit.interceptor.ts\<close>) and whom it refuses.

  \<^bold>\<open>Fuel.\<close> A recursive query walks the tree level by level (\<open>treeLevels\<close>) or upwards (\<open>walkUp\<close>, \<open>ancestry\<close>), with
  one level of fuel more than there are rows; \<open>treeLevels_enough\<close> and the properties of access show that this is
  enough on every well-formed table, and those of \<open>FileReach\<close> that reachable tables are. Running
  out is the statement timeout the database has. \<open>sweepUnknown\<close> has the eight levels the code has. The segments of
  a JPEG end by a measure.

  \<^bold>\<open>What is idealised.\<close> A transaction of several statements is one step, although the database runs at READ
  COMMITTED; where a race between two statements matters they are two steps (claiming an idempotency key,
  allocating a number). A call of \<open>FilesService\<close> runs whole, with failures and lost connections inside it but no other
  call; the statements about the tree, the bin and the disk are about calls that follow one another, and \<open>Overlap\<close>
  shows that they do not hold of calls that overlap. Within one call the clock stands still. Rows that compare equal keep an order where \<open>ORDER BY\<close> leaves it open. Upper and
  lower case are those of ASCII and of the characters that reach it. A \<open>Date\<close> has no bounds. Foreign keys,
  unique indexes and checks are modelled where a modelled operation can meet them.

  \<^bold>\<open>Not modelled\<close>, and why. The web interface (\<open>apps/web\<close>), the desktop client and the console: rendering and transport.
  Controllers: parsing of bodies, status codes, cookies and the origin check around modelled services. The rest
  of the agent: it is Rust, and the model's parameter. The indexer, copying, transfers, uploads, search, thumbnails as
  a service and snapshots: pipelines over the agent, whose effect on the table is the operations modelled here. The
  editing of grants, shares, users and teams: rows in and out, beyond the numbers they hand out. Copies to removable
  targets, pools, updates, containers, remote access, licences: sequences of agent calls. Tasks, notes,
  notifications and events: the desk, which decides nothing about files. Generated contracts.

  \<^bold>\<open>Properties.\<close> Forty, from C1 to C40, each after a sentence that says what it means; what modelling showed to be
  wrong is proved beside them (\<open>pruned_base\<close>, \<open>hourly_run_in_the_past\<close>, \<open>daily_run_an_hour_late\<close>, \<open>impact_counts_twice\<close>,
  \<open>lost_answer_keeps_the_key\<close>, \<open>nested_entries_never_reach_the_bin\<close>, \<open>purge_of_binned_folder_fails\<close>,
  \<open>subtreeBytes_counts_trashed_namesake\<close>, \<open>deleted_uid_handed_out_again\<close>, \<open>overlapping_moves_close_a_cycle\<close>,
  \<open>created_below_a_folder_being_renamed\<close>, \<open>moved_though_it_failed\<close>).
\<close>

end
